(* ===== verification/Abr_State.thy ===== *)
theory Abr_State
  imports Prelude "HOL-Library.Option_ord"
begin

text \<open>
  Per-peer state of the adaptive-bitrate controller (\<open>crates/kithara-abr/src/event\<close> and
  \<open>state/{core,pending,publisher}.rs\<close>): the mode packed into one \<open>usize\<close>, the control
  flags, the reentrant lock count, and the slot holding the one pending switch together with
  the ticket counter that gives every switch request its identity.  A method that may panic
  returns an option, with \<open>None\<close> for the panic.  The code keeps the fields in atomics and
  updates the slot under its mutex: each method is one step on the record.  Debug assertions
  are not part of the model.
\<close>

subsection \<open>Variant indices and the packed mode\<close>

type_synonym variant_index = u64

datatype bounds_error = BoundsError nat nat

definition try_new :: "nat \<Rightarrow> nat \<Rightarrow> (bounds_error, nat) result" where
  "try_new idx available =
     (if idx < available then Inr idx else Inl (BoundsError available idx))"

datatype abr_mode = Auto "variant_index option" | Manual variant_index

definition abr_mode_auto_threshold :: u64 where
  "abr_mode_auto_threshold = 0x7FFFFFFFFFFFFFFF"

definition usize_MAX :: u64 where
  "usize_MAX = 0xFFFFFFFFFFFFFFFF"

fun mode_to_usize :: "abr_mode \<Rightarrow> u64" where
  "mode_to_usize (Manual v) = v"
| "mode_to_usize (Auto None) = usize_MAX"
| "mode_to_usize (Auto (Some v)) = usize_MAX - 1 - v"

definition mode_of_usize :: "u64 \<Rightarrow> abr_mode" where
  "mode_of_usize val =
     (if val = usize_MAX then Auto None
      else if abr_mode_auto_threshold \<le> val then Auto (Some (usize_MAX - 1 - val))
      else Manual val)"

fun mode_index :: "abr_mode \<Rightarrow> variant_index option" where
  "mode_index (Manual v) = Some v"
| "mode_index (Auto v) = v"

definition mode_in_range :: "abr_mode \<Rightarrow> bool" where
  "mode_in_range m = (\<forall>v \<in> set_option (mode_index m). v < abr_mode_auto_threshold)"

lemma auto_encoding:
  assumes "v < abr_mode_auto_threshold"
  shows "usize_MAX - 1 - v \<noteq> usize_MAX" and "abr_mode_auto_threshold \<le> usize_MAX - 1 - v"
proof -
  have v: "unat v < 0x7FFFFFFFFFFFFFFF"
    using assms by (simp add: abr_mode_auto_threshold_def word_less_nat_alt)
  have m: "usize_MAX - 1 = 0xFFFFFFFFFFFFFFFE"
    by (simp add: usize_MAX_def)
  have "v \<le> 0xFFFFFFFFFFFFFFFE"
    using v by (simp add: word_le_nat_alt)
  then have u: "unat (usize_MAX - 1 - v) = 0xFFFFFFFFFFFFFFFE - unat v"
    by (simp add: m unat_sub)
  show "abr_mode_auto_threshold \<le> usize_MAX - 1 - v"
    using v u by (simp add: abr_mode_auto_threshold_def word_le_nat_alt)
  have "unat (usize_MAX - 1 - v) \<noteq> unat usize_MAX"
    using u by (simp add: usize_MAX_def)
  then show "usize_MAX - 1 - v \<noteq> usize_MAX"
    by metis
qed

lemma mode_roundtrip: "mode_in_range m \<Longrightarrow> mode_of_usize (mode_to_usize m) = m"
proof (cases m rule: mode_to_usize.cases)
  case (1 v)
  assume "mode_in_range m"
  with 1 have "v < abr_mode_auto_threshold"
    by (simp add: mode_in_range_def)
  with 1 show ?thesis
    by (auto simp: mode_of_usize_def abr_mode_auto_threshold_def usize_MAX_def)
next
  case 2
  then show ?thesis
    by (simp add: mode_of_usize_def)
next
  case (3 v)
  assume "mode_in_range m"
  with 3 show ?thesis
    using auto_encoding [of v] by (simp add: mode_in_range_def mode_of_usize_def)
qed

subsection \<open>Reasons and decisions\<close>

datatype abr_reason =
    Initial | ManualOverride | UpSwitch | DownSwitch | MinInterval | NoEstimate
  | BufferTooLowForUpSwitch | UrgentDownSwitch | EscapeStalled | AlreadyOptimal | Locked

text \<open>Constructors of \<open>AbrDecision\<close> carry a \<open>D\<close> where a reason has the same name.\<close>

datatype abr_decision =
    Stay variant_index abr_reason
  | DUpSwitch variant_index variant_index abr_reason
  | DDownSwitch variant_index variant_index abr_reason
  | DManual variant_index variant_index

definition changed :: "abr_decision \<Rightarrow> bool" where
  "changed d = (case d of Stay _ _ \<Rightarrow> False | _ \<Rightarrow> True)"

fun decision_target :: "abr_decision \<Rightarrow> variant_index" where
  "decision_target (Stay current _) = current"
| "decision_target (DUpSwitch _ to _) = to"
| "decision_target (DDownSwitch _ to _) = to"
| "decision_target (DManual _ to) = to"

fun decision_reason :: "abr_decision \<Rightarrow> abr_reason" where
  "decision_reason (Stay _ reason) = reason"
| "decision_reason (DUpSwitch _ _ reason) = reason"
| "decision_reason (DDownSwitch _ _ reason) = reason"
| "decision_reason (DManual _ _) = ManualOverride"

subsection \<open>The state\<close>

type_synonym ticket = nat

record pending_apply =
  pa_reason :: abr_reason
  pa_ticket :: ticket
  pa_target :: variant_index

record pending_state =
  pending :: "pending_apply option"
  next_ticket :: nat

definition pending_state_default :: pending_state where
  "pending_state_default = \<lparr>pending = None, next_ticket = 1\<rparr>"

record abr_state =
  current_variant :: variant_index
  last_switch_at_nanos :: nat
  max_bandwidth :: nat
  flags :: u8
  lock_count :: u64
  mode_bits :: u64
  reference_instant :: instant
  slot :: pending_state

definition abr_new_at :: "abr_mode \<Rightarrow> instant \<Rightarrow> abr_state" where
  "abr_new_at mode reference =
     \<lparr>current_variant = (case mode of Auto (Some idx) \<Rightarrow> idx | Manual idx \<Rightarrow> idx | Auto None \<Rightarrow> 0),
      last_switch_at_nanos = 0, max_bandwidth = 0, flags = 0, lock_count = 0,
      mode_bits = mode_to_usize mode, reference_instant = reference,
      slot = pending_state_default\<rparr>"

definition escape_flag :: u8 where
  "escape_flag = 1"

definition clear_escape :: "abr_state \<Rightarrow> abr_state" where
  "clear_escape s = s\<lparr>flags := and (flags s) (not escape_flag)\<rparr>"

definition mark_escape :: "abr_state \<Rightarrow> abr_state" where
  "mark_escape s = s\<lparr>flags := or (flags s) escape_flag\<rparr>"

definition is_escaping :: "abr_state \<Rightarrow> bool" where
  "is_escaping s = (and (flags s) escape_flag = escape_flag)"

definition is_locked :: "abr_state \<Rightarrow> bool" where
  "is_locked s = (0 < lock_count s)"

definition lock :: "abr_state \<Rightarrow> abr_state" where
  "lock s = s\<lparr>lock_count := lock_count s + 1\<rparr>"

definition unlock :: "abr_state \<Rightarrow> abr_state" where
  "unlock s = s\<lparr>lock_count := lock_count s - 1\<rparr>"

definition max_bandwidth_bps :: "abr_state \<Rightarrow> nat option" where
  "max_bandwidth_bps s = (if max_bandwidth s = 0 then None else Some (max_bandwidth s))"

definition set_max_bandwidth_bps :: "nat option \<Rightarrow> abr_state \<Rightarrow> abr_state" where
  "set_max_bandwidth_bps cap s = s\<lparr>max_bandwidth := (case cap of None \<Rightarrow> 0 | Some c \<Rightarrow> c)\<rparr>"

definition mode :: "abr_state \<Rightarrow> abr_mode" where
  "mode s = mode_of_usize (mode_bits s)"

definition instant_to_nanos :: "abr_state \<Rightarrow> instant \<Rightarrow> nat" where
  "instant_to_nanos s now = max (min u64_max (now - reference_instant s)) 1"

definition record_switch :: "instant \<Rightarrow> abr_state \<Rightarrow> abr_state" where
  "record_switch now s = s\<lparr>last_switch_at_nanos := instant_to_nanos s now\<rparr>"

definition switch_interval_remaining :: "abr_state \<Rightarrow> instant \<Rightarrow> duration \<Rightarrow> duration" where
  "switch_interval_remaining s now min_interval =
     (let since = (if last_switch_at_nanos s = 0 then reference_instant s
                   else reference_instant s + last_switch_at_nanos s)
      in min_interval - (now - since))"

definition can_switch_now :: "abr_state \<Rightarrow> instant \<Rightarrow> duration \<Rightarrow> bool" where
  "can_switch_now s now min_interval = (switch_interval_remaining s now min_interval = 0)"

subsection \<open>Pending switches and their tickets\<close>

datatype pending_abr_decision = PendingAbrDecision (pd_ticket: ticket) (pd_decision: abr_decision)

datatype pending_abr_claim =
    Absent | ClaimLocked pending_abr_decision | Ready pending_abr_decision

definition mint_ticket :: "pending_state \<Rightarrow> (ticket \<times> pending_state) option" where
  "mint_ticket p =
     (if next_ticket p < u64_max
      then Some (next_ticket p, p\<lparr>next_ticket := next_ticket p + 1\<rparr>) else None)"

definition is_throughput_driven :: "abr_reason \<Rightarrow> bool" where
  "is_throughput_driven r =
     (case r of UpSwitch \<Rightarrow> True | DownSwitch \<Rightarrow> True | UrgentDownSwitch \<Rightarrow> True
      | EscapeStalled \<Rightarrow> True | _ \<Rightarrow> False)"

definition is_rescue :: "abr_reason \<Rightarrow> bool" where
  "is_rescue r = (case r of EscapeStalled \<Rightarrow> True | UrgentDownSwitch \<Rightarrow> True | _ \<Rightarrow> False)"

fun pending_decision :: "variant_index \<Rightarrow> variant_index \<Rightarrow> abr_reason \<Rightarrow> abr_decision" where
  "pending_decision from to ManualOverride = DManual from to"
| "pending_decision from to DownSwitch = DDownSwitch from to DownSwitch"
| "pending_decision from to UrgentDownSwitch = DDownSwitch from to UrgentDownSwitch"
| "pending_decision from to reason = DUpSwitch from to reason"

definition pending_claim :: "variant_index \<Rightarrow> abr_state \<Rightarrow> pending_abr_claim" where
  "pending_claim current s =
     (case pending (slot s) of
        None \<Rightarrow> Absent
      | Some p \<Rightarrow>
          (if pa_target p = current then Absent
           else let claim = PendingAbrDecision (pa_ticket p)
                              (pending_decision current (pa_target p) (pa_reason p))
                in if is_locked s then ClaimLocked claim else Ready claim))"

definition claim_pending_decision :: "variant_index \<Rightarrow> abr_state \<Rightarrow> pending_abr_decision option" where
  "claim_pending_decision current s =
     (case pending_claim current s of
        Ready claim \<Rightarrow> Some claim | Absent \<Rightarrow> None | ClaimLocked _ \<Rightarrow> None)"

definition peek_pending_decision :: "variant_index \<Rightarrow> abr_state \<Rightarrow> abr_decision option" where
  "peek_pending_decision current s = map_option pd_decision (claim_pending_decision current s)"

definition pending_target :: "abr_state \<Rightarrow> variant_index option" where
  "pending_target s = map_option pa_target (pending (slot s))"

definition request_target :: "variant_index \<Rightarrow> abr_reason \<Rightarrow> abr_state \<Rightarrow> abr_state option" where
  "request_target target reason s =
     (if (case mode s of Manual idx \<Rightarrow> idx \<noteq> target | Auto _ \<Rightarrow> False) then Some s
      else if pending_target s = Some target then Some s
      else case mint_ticket (slot s) of
             None \<Rightarrow> None
           | Some (ticket, sl) \<Rightarrow>
               Some (s\<lparr>slot := sl\<lparr>pending :=
                 Some \<lparr>pa_reason = reason, pa_ticket = ticket, pa_target = target\<rparr>\<rparr>\<rparr>))"

definition retract_throughput_pending :: "variant_index \<Rightarrow> abr_state \<Rightarrow> abr_state" where
  "retract_throughput_pending current s =
     (case pending (slot s) of
        None \<Rightarrow> s
      | Some p \<Rightarrow>
          (if is_throughput_driven (pa_reason p) \<and> \<not> is_rescue (pa_reason p)
              \<and> pa_target p \<noteq> current
           then s\<lparr>slot := (slot s)\<lparr>pending := None\<rparr>\<rparr> else s))"

definition set_mode :: "abr_mode \<Rightarrow> abr_state \<Rightarrow> abr_state option" where
  "set_mode m s =
     (let s1 = s\<lparr>mode_bits := mode_to_usize m\<rparr>;
          restated = (case m of
             Manual target \<Rightarrow>
               (case pending (slot s1) of
                  None \<Rightarrow> None
                | Some p \<Rightarrow> if pa_target p = target then Some p else None)
           | Auto _ \<Rightarrow> None)
      in case restated of
           None \<Rightarrow> Some (s1\<lparr>slot := (slot s1)\<lparr>pending := None\<rparr>\<rparr>)
         | Some p \<Rightarrow>
             (if pa_reason p = ManualOverride then Some s1
              else case mint_ticket (slot s1) of
                     None \<Rightarrow> None
                   | Some (ticket, sl) \<Rightarrow>
                       Some (s1\<lparr>slot := sl\<lparr>pending :=
                         Some (p\<lparr>pa_reason := ManualOverride, pa_ticket := ticket\<rparr>)\<rparr>\<rparr>)))"

definition abort_pending :: "ticket \<Rightarrow> abr_state \<Rightarrow> bool \<times> abr_state" where
  "abort_pending ticket s =
     (if (case pending (slot s) of None \<Rightarrow> True | Some p \<Rightarrow> pa_ticket p \<noteq> ticket)
      then (False, s)
      else (True, s\<lparr>slot := (slot s)\<lparr>pending := None\<rparr>\<rparr>))"

definition commit_pending ::
    "pending_abr_decision \<Rightarrow> instant \<Rightarrow> abr_state \<Rightarrow> bool \<times> abr_state" where
  "commit_pending claim now s =
     (if is_locked s then (False, s)
      else case pending (slot s) of
             None \<Rightarrow> (False, s)
           | Some p \<Rightarrow>
               (let decision = pending_decision (current_variant s) (pa_target p) (pa_reason p)
                in if pa_ticket p \<noteq> pd_ticket claim \<or> decision \<noteq> pd_decision claim
                   then (False, s)
                   else (True, record_switch now
                     ((clear_escape (s\<lparr>slot := (slot s)\<lparr>pending := None\<rparr>\<rparr>))
                        \<lparr>current_variant := decision_target decision\<rparr>))))"

end
