(* ===== verification/F64.thy ===== *)
theory F64
  imports Prelude "HOL-Library.Log_Nat"
begin

text \<open>
  The \<open>f64\<close> arithmetic of the Rust code: IEEE 754 binary64 with round to nearest, ties
  to even.  A value is a NaN (its payload is never read), an infinity or a finite value given
  by its sign and its magnitude, a rational; every operation computes the exact result and
  rounds it with \<open>f64_round\<close> to 53 significant bits, with gradual underflow at
  \<open>2^-1074\<close> and overflow to an infinity from \<open>2^1024\<close> on.  Everything here is executable.
\<close>

subsection \<open>Rounding\<close>

text \<open>The exponent of the leading bit of a positive rational, from the bit lengths of its
  numerator and denominator.\<close>

definition flog2 :: "rat \<Rightarrow> int" where
  "flog2 m = (let (p, q) = quotient_of m; b = bitlen p - bitlen q
              in if 2 powi b \<le> m then b else b - 1)"

definition round_half_even :: "rat \<Rightarrow> int" where
  "round_half_even x =
     (let f = \<lfloor>x\<rfloor>; d = x - of_int f
      in if d < 1 / 2 then f else if 1 / 2 < d then f + 1 else if even f then f else f + 1)"

definition f64_quantum :: "rat \<Rightarrow> int" where
  "f64_quantum m = max (flog2 m - 52) (- 1074)"

definition f64_round :: "rat \<Rightarrow> rat" where
  "f64_round m =
     (if m \<le> 0 then 0
      else of_int (round_half_even (m / 2 powi f64_quantum m)) * 2 powi f64_quantum m)"

subsection \<open>Values and operations\<close>

datatype f64 = Nan | Infty bool | Fin bool rat

definition f64_overflow :: rat where
  "f64_overflow = 2 powi 1024"

definition f64_mk :: "bool \<Rightarrow> rat \<Rightarrow> f64" where
  "f64_mk s m = (let r = f64_round m in if f64_overflow \<le> r then Infty s else Fin s r)"

definition f64_of_nat :: "nat \<Rightarrow> f64" where
  "f64_of_nat n = f64_mk False (of_nat n)"

text \<open>A decimal literal of the source is the double nearest to it.\<close>

definition f64_lit :: "rat \<Rightarrow> f64" where
  "f64_lit q = f64_mk False q"

definition f64_zero :: f64 where
  "f64_zero = Fin False 0"

fun f64_mul :: "f64 \<Rightarrow> f64 \<Rightarrow> f64" where
  "f64_mul Nan _ = Nan"
| "f64_mul _ Nan = Nan"
| "f64_mul (Infty s) (Infty t) = Infty (s \<noteq> t)"
| "f64_mul (Infty s) (Fin t b) = (if b = 0 then Nan else Infty (s \<noteq> t))"
| "f64_mul (Fin s a) (Infty t) = (if a = 0 then Nan else Infty (s \<noteq> t))"
| "f64_mul (Fin s a) (Fin t b) = f64_mk (s \<noteq> t) (a * b)"

fun f64_div :: "f64 \<Rightarrow> f64 \<Rightarrow> f64" where
  "f64_div Nan _ = Nan"
| "f64_div _ Nan = Nan"
| "f64_div (Infty s) (Infty t) = Nan"
| "f64_div (Infty s) (Fin t b) = Infty (s \<noteq> t)"
| "f64_div (Fin s a) (Infty t) = Fin (s \<noteq> t) 0"
| "f64_div (Fin s a) (Fin t b) =
     (if b = 0 then (if a = 0 then Nan else Infty (s \<noteq> t)) else f64_mk (s \<noteq> t) (a / b))"

fun f64_val :: "bool \<Rightarrow> rat \<Rightarrow> rat" where
  "f64_val s m = (if s then - m else m)"

fun f64_add :: "f64 \<Rightarrow> f64 \<Rightarrow> f64" where
  "f64_add Nan _ = Nan"
| "f64_add _ Nan = Nan"
| "f64_add (Infty s) (Infty t) = (if s = t then Infty s else Nan)"
| "f64_add (Infty s) (Fin t b) = Infty s"
| "f64_add (Fin s a) (Infty t) = Infty t"
| "f64_add (Fin s a) (Fin t b) =
     (let v = f64_val s a + f64_val t b
      in if v = 0 then Fin (s \<and> t) 0 else f64_mk (v < 0) \<bar>v\<bar>)"

fun f64_le :: "f64 \<Rightarrow> f64 \<Rightarrow> bool" where
  "f64_le Nan _ = False"
| "f64_le _ Nan = False"
| "f64_le (Infty s) (Infty t) = (s \<or> \<not> t)"
| "f64_le (Infty s) (Fin t b) = s"
| "f64_le (Fin s a) (Infty t) = (\<not> t)"
| "f64_le (Fin s a) (Fin t b) = (f64_val s a \<le> f64_val t b)"

text \<open>\<open>f64::max\<close> ignores a NaN operand.\<close>

fun f64_max :: "f64 \<Rightarrow> f64 \<Rightarrow> f64" where
  "f64_max Nan y = y"
| "f64_max x Nan = x"
| "f64_max x y = (if f64_le x y then y else x)"

subsection \<open>The rounding is monotone and exact on integers of 53 bits\<close>

lemma pow2_le_iff: "(2 :: rat) powi a \<le> 2 powi b \<longleftrightarrow> a \<le> b"
  using power_int_strict_increasing [of b a "2 :: rat"] power_int_increasing [of a b "2 :: rat"]
  by (auto simp: not_le [symmetric])

lemma pow2_less_iff: "(2 :: rat) powi a < 2 powi b \<longleftrightarrow> a < b"
  by (simp add: pow2_le_iff less_le_not_le)

lemma pow2_split: "(2 :: rat) powi (a + b) = 2 powi a * 2 powi b"
  by (simp add: power_int_add)

lemma pow2_of_int: "0 \<le> j \<Longrightarrow> (2 :: rat) powi j = of_int (2 ^ nat j)"
  by (simp add: power_int_nonneg_exp)

lemma bitlen_pow2_bounds:
  assumes "0 < p"
  shows "(2 :: rat) powi (bitlen p - 1) \<le> of_int p" and "(of_int p :: rat) < 2 powi bitlen p"
proof -
  have "1 \<le> bitlen p"
    using assms by (simp add: bitlen_alt_def)
  then have "(2 :: rat) powi (bitlen p - 1) = of_int (2 ^ nat (bitlen p - 1))"
    and "(2 :: rat) powi bitlen p = of_int (2 ^ nat (bitlen p))"
    by (simp_all only: pow2_of_int)
  then show "(2 :: rat) powi (bitlen p - 1) \<le> of_int p" "(of_int p :: rat) < 2 powi bitlen p"
    using bitlen_bounds [OF assms] by (simp_all only: of_int_le_iff of_int_less_iff)
qed

lemma flog2_bounds:
  assumes "0 < m"
  shows "2 powi flog2 m \<le> m" and "m < 2 powi (flog2 m + 1)"
proof -
  obtain p q where pq: "quotient_of m = (p, q)"
    by fastforce
  have q: "0 < q" and m: "m = of_int p / of_int q"
    using quotient_of_denom_pos [OF pq] quotient_of_div [OF pq] by auto
  have p: "0 < p"
    using assms q by (simp add: m zero_less_divide_iff)
  define a b where "a = bitlen p" and "b = bitlen q"
  have pb: "(2 :: rat) powi (a - 1) \<le> of_int p" "(of_int p :: rat) < 2 powi a"
    using bitlen_pow2_bounds [OF p] by (simp_all add: a_def)
  have qb: "(2 :: rat) powi (b - 1) \<le> of_int q" "(of_int q :: rat) < 2 powi b"
    using bitlen_pow2_bounds [OF q] by (simp_all add: b_def)
  have q0: "(0 :: rat) < of_int q" using q by simp
  have "m < 2 powi a / 2 powi (b - 1)"
    unfolding m using pb qb p by (intro frac_less) auto
  then have up: "m < 2 powi (a - b + 1)"
    by (simp add: power_int_diff algebra_simps power_int_add)
  have "2 powi (a - 1) / 2 powi b \<le> m"
    unfolding m using pb qb p q0 by (intro frac_le) auto
  then have lo: "2 powi (a - b - 1) \<le> m"
    by (simp add: power_int_diff mult.commute)
  have fl: "flog2 m = (if 2 powi (a - b) \<le> m then a - b else a - b - 1)"
    by (simp add: flog2_def pq a_def b_def Let_def)
  show "2 powi flog2 m \<le> m" "m < 2 powi (flog2 m + 1)"
    using up lo by (auto simp: fl)
qed

lemma flog2_mono:
  assumes "0 < m" "m \<le> n"
  shows "flog2 m \<le> flog2 n"
proof (rule ccontr)
  assume "\<not> flog2 m \<le> flog2 n"
  then have "(2 :: rat) powi (flog2 n + 1) \<le> 2 powi flog2 m"
    by (simp add: pow2_le_iff)
  with flog2_bounds [of m] flog2_bounds [of n] assms show False
    by linarith
qed

lemma round_half_even_of_int [simp]: "round_half_even (of_int n) = n"
  by (simp add: round_half_even_def)

lemma round_half_even_mono:
  assumes "x \<le> y"
  shows "round_half_even x \<le> round_half_even y"
proof (cases "\<lfloor>x\<rfloor> = \<lfloor>y\<rfloor>")
  case True
  with assms show ?thesis
    by (auto simp: round_half_even_def Let_def)
next
  case False
  with floor_mono [OF assms] have "\<lfloor>x\<rfloor> + 1 \<le> \<lfloor>y\<rfloor>"
    by linarith
  then show ?thesis
    by (auto simp: round_half_even_def Let_def)
qed

definition round_at :: "int \<Rightarrow> rat \<Rightarrow> rat" where
  "round_at k m = of_int (round_half_even (m / 2 powi k)) * 2 powi k"

lemma round_at_mono: "m \<le> n \<Longrightarrow> round_at k m \<le> round_at k n"
  by (simp add: round_at_def round_half_even_mono divide_right_mono)

lemma round_at_grid [simp]: "round_at k (of_int n * 2 powi k) = of_int n * 2 powi k"
  by (simp add: round_at_def)

lemma round_at_pow2:
  assumes "k \<le> j"
  shows "round_at k (2 powi j) = 2 powi j"
proof -
  have "(2 :: rat) powi j = of_int (2 ^ nat (j - k)) * 2 powi k"
    using assms pow2_split [of "j - k" k] by (simp add: pow2_of_int)
  then show ?thesis
    by (metis round_at_grid)
qed

lemma f64_round_at: "0 < m \<Longrightarrow> f64_round m = round_at (f64_quantum m) m"
  by (simp add: f64_round_def round_at_def)

lemma round_at_nonneg: "0 \<le> m \<Longrightarrow> 0 \<le> round_at k m"
  using round_at_mono [of 0 m k] by (simp add: round_at_def round_half_even_def)

lemma f64_round_nonneg [simp]: "0 \<le> f64_round m"
  using round_at_nonneg [of m] f64_round_at [of m] by (simp add: f64_round_def)

lemma f64_round_mono:
  assumes "m \<le> n"
  shows "f64_round m \<le> f64_round n"
proof (cases "0 < m")
  case False
  then show ?thesis by (simp add: f64_round_def [of m])
next
  case True
  define e where "e = flog2 n"
  have n: "0 < n" using True assms by simp
  have le: "f64_quantum m \<le> f64_quantum n"
    using flog2_mono [OF True assms] by (simp add: f64_quantum_def)
  show ?thesis
  proof (cases "f64_quantum m = f64_quantum n")
    case True
    then show ?thesis
      using assms \<open>0 < m\<close> n by (simp add: f64_round_at round_at_mono)
  next
    case False
    with le have k: "f64_quantum n = e - 52" "f64_quantum m \<le> e" "flog2 m + 1 \<le> e"
      by (auto simp: f64_quantum_def e_def max_def split: if_splits)
    have "m \<le> 2 powi e"
      using flog2_bounds(2) [OF True] k(3) pow2_le_iff [of "flog2 m + 1" e] by linarith
    then have "f64_round m \<le> 2 powi e"
      using round_at_mono [of m "2 powi e" "f64_quantum m"] k True
      by (simp add: f64_round_at round_at_pow2)
    also have "\<dots> \<le> f64_round n"
      using round_at_mono [of "2 powi e" n "f64_quantum n"] flog2_bounds(1) [OF n] k n
      by (simp add: f64_round_at round_at_pow2 e_def)
    finally show ?thesis .
  qed
qed

text \<open>Rounding an integer below \<open>2^53\<close> changes nothing.\<close>

lemma f64_round_of_nat:
  assumes "n < 2 ^ 53"
  shows "f64_round (of_nat n) = of_nat n"
proof (cases "n = 0")
  case True
  then show ?thesis by (simp add: f64_round_def)
next
  case False
  define k where "k = f64_quantum (of_nat n)"
  have "(of_nat n :: rat) < 2 powi 53"
  proof -
    have "(of_nat n :: rat) < of_nat (2 ^ 53)"
      using assms by (simp only: of_nat_less_iff)
    then show ?thesis by simp
  qed
  then have "(2 :: rat) powi flog2 (of_nat n) < 2 powi 53"
    using flog2_bounds(1) [of "of_nat n"] False by simp
  then have "flog2 (of_nat n) < 53"
    by (simp only: pow2_less_iff)
  then have k0: "k \<le> 0"
    by (simp add: f64_quantum_def k_def)
  have "(of_nat n :: rat) = of_int (int n * 2 ^ nat (- k)) * 2 powi k"
    using pow2_split [of "- k" k] k0 by (simp add: pow2_of_int)
  then have "round_at k (of_nat n) = of_nat n"
    using round_at_grid by metis
  with False show ?thesis by (simp add: f64_round_at k_def)
qed

lemma flog2_eqI:
  fixes m :: rat
  assumes "2 powi e \<le> m" "m < 2 powi (e + 1)"
  shows "flog2 m = e"
proof -
  have "(0 :: rat) < 2 powi e" by simp
  then have m: "0 < m" using assms(1) by linarith
  have "(2 :: rat) powi e < 2 powi (flog2 m + 1)" "(2 :: rat) powi flog2 m < 2 powi (e + 1)"
    using flog2_bounds [OF m] assms by linarith+
  then show ?thesis by (simp only: pow2_less_iff)
qed

text \<open>Rounding a given number: exhibit the exponent of its last place and check the brackets.\<close>

lemma f64_round_eqI:
  fixes m :: rat
  assumes "2 powi (k + 52) \<le> m" "m < 2 powi (k + 53)" "- 1074 \<le> k"
    and "round_half_even (m / 2 powi k) = n"
  shows "f64_round m = of_int n * 2 powi k"
proof -
  have "flog2 m = k + 52"
    using assms(1,2) by (intro flog2_eqI) (simp_all add: add.assoc)
  then have q: "f64_quantum m = k"
    using assms(3) by (simp add: f64_quantum_def)
  have "(0 :: rat) < 2 powi (k + 52)" by simp
  then have "0 < m" using assms(1) by linarith
  then show ?thesis
    using assms(4) q by (simp add: f64_round_def)
qed

lemma f64_mk_of_nat:
  assumes "n < 2 ^ 53"
  shows "f64_mk s (of_nat n) = Fin s (of_nat n)"
proof -
  have "(of_nat n :: rat) < of_nat (2 ^ 53)"
    using assms by (simp only: of_nat_less_iff)
  also have "\<dots> < f64_overflow"
    by (simp add: f64_overflow_def)
  finally show ?thesis
    by (simp add: f64_mk_def f64_round_of_nat [OF assms])
qed

lemma f64_mk_numeral: "(numeral k :: nat) < 2 ^ 53 \<Longrightarrow> f64_mk s (numeral k) = Fin s (numeral k)"
  using f64_mk_of_nat [of "numeral k" s] by simp

lemma f64_of_nat_numeral: "(numeral k :: nat) < 2 ^ 53 \<Longrightarrow> f64_of_nat (numeral k) = Fin False (numeral k)"
  by (simp add: f64_of_nat_def f64_mk_numeral)

lemma f64_of_nat_0: "f64_of_nat 0 = Fin False 0"
  using f64_mk_of_nat [of 0 False] by (simp add: f64_of_nat_def)

lemmas f64_eval = f64_mk_numeral f64_of_nat_numeral f64_of_nat_0 f64_zero_def

subsection \<open>Order\<close>

definition f64_ok :: "f64 \<Rightarrow> bool" where
  "f64_ok x \<longleftrightarrow> x \<noteq> Nan"

lemma f64_le_refl: "f64_le x x \<longleftrightarrow> f64_ok x"
  by (cases x) (auto simp: f64_ok_def)

lemma f64_le_trans: "f64_le x y \<Longrightarrow> f64_le y z \<Longrightarrow> f64_le x z"
  by (cases x; cases y; cases z) (auto split: if_splits)

lemma f64_le_linear: "f64_ok x \<Longrightarrow> f64_ok y \<Longrightarrow> f64_le x y \<or> f64_le y x"
  by (cases x; cases y) (auto simp: f64_ok_def split: if_splits)

lemma f64_mk_ok [simp]: "f64_ok (f64_mk s m)"
  by (simp add: f64_mk_def f64_ok_def Let_def)

lemma f64_mk_mono: "m \<le> n \<Longrightarrow> f64_le (f64_mk False m) (f64_mk False n)"
  using f64_round_mono [of m n] by (auto simp: f64_mk_def Let_def)

lemma f64_of_nat_mono: "m \<le> n \<Longrightarrow> f64_le (f64_of_nat m) (f64_of_nat n)"
  by (simp add: f64_of_nat_def f64_mk_mono)

lemma f64_of_nat_ok [simp]: "f64_ok (f64_of_nat n)"
  by (simp add: f64_of_nat_def)

text \<open>Dividing by a positive finite number keeps the order of what is divided.\<close>

definition f64_positive :: "f64 \<Rightarrow> bool" where
  "f64_positive x \<longleftrightarrow> (\<exists>m. x = Fin False m \<and> 0 < m)"

lemma f64_div_mono:
  assumes le: "f64_le (f64_mk False m) (f64_mk False n)" and d: "f64_positive d"
  shows "f64_le (f64_div (f64_mk False m) d) (f64_div (f64_mk False n) d)"
proof -
  obtain c where c: "d = Fin False c" "0 < c"
    using d by (auto simp: f64_positive_def)
  have "f64_round m \<le> f64_round n \<Longrightarrow>
      f64_le (f64_mk False (f64_round m / c)) (f64_mk False (f64_round n / c))"
    using c(2) by (intro f64_mk_mono divide_right_mono) auto
  moreover have mk_cases: "f64_mk False x = Fin False (f64_round x) \<or> f64_mk False x = Infty False" for x
    by (simp add: f64_mk_def Let_def)
  moreover have "f64_le x (Infty False)" if "f64_ok x" for x
    using that by (cases x) (auto simp: f64_ok_def)
  ultimately show ?thesis
    using le c by (cases rule: disjE [OF mk_cases [of m]]; cases rule: disjE [OF mk_cases [of n]]) auto
qed

lemma f64_max_mono:
  "f64_le x y \<Longrightarrow> f64_ok z \<Longrightarrow> f64_le (f64_max x z) (f64_max y z)"
  by (cases x; cases y; cases z) (auto simp: f64_ok_def split: if_splits)

end
