(* ===== verification/Abr_Decision.thy ===== *)
theory Abr_Decision
  imports Abr_State F64
begin

text \<open>
  The decision of one tick (\<open>crates/kithara-abr/src/state/decision.rs\<close>): candidate
  selection under the bandwidth cap, hysteresis on the throughput estimate, the buffer gates
  and the anti-oscillation interval.  Ratios and throughputs are the \<open>f64\<close> values of the
  code, with its rounding.
\<close>

record variant_info =
  bandwidth_bps :: "nat option"
  vi_index :: variant_index

record abr_settings =
  bandwidth_emit_min_interval :: duration
  buffer_emit_min_delta :: duration
  buffer_emit_min_interval :: duration
  min_buffer_for_up_switch :: duration
  min_switch_interval :: duration
  throughput_sample_min_interval :: duration
  urgent_downswitch_buffer :: duration
  initial_throughput_bps :: "nat option"
  settings_max_bandwidth_bps :: "nat option"
  bandwidth_emit_min_delta_ratio :: f64
  down_hysteresis_ratio :: f64
  throughput_safety_factor :: f64
  up_hysteresis_ratio :: f64

definition default_settings :: abr_settings where
  "default_settings =
     \<lparr>bandwidth_emit_min_interval = 1000000000, buffer_emit_min_delta = 500000000,
      buffer_emit_min_interval = 500000000, min_buffer_for_up_switch = 10000000000,
      min_switch_interval = 30000000000, throughput_sample_min_interval = 200000000,
      urgent_downswitch_buffer = 5000000000, initial_throughput_bps = Some 2000000,
      settings_max_bandwidth_bps = None,
      bandwidth_emit_min_delta_ratio = f64_lit (1 / 10), down_hysteresis_ratio = f64_lit (8 / 10),
      throughput_safety_factor = f64_lit (3 / 2), up_hysteresis_ratio = f64_lit (13 / 10)\<rparr>"

record abr_view =
  settings :: abr_settings
  variants :: "variant_info list"
  buffer_ahead :: "duration option"
  estimate_bps :: "nat option"
  bytes_downloaded :: nat

definition manual_decision :: "variant_index \<Rightarrow> variant_index \<Rightarrow> abr_decision" where
  "manual_decision current idx =
     (if idx = current then Stay current ManualOverride else DManual current idx)"

definition candidate_of :: "variant_info \<Rightarrow> variant_index \<times> nat" where
  "candidate_of v = (vi_index v, case bandwidth_bps v of None \<Rightarrow> 0 | Some bw \<Rightarrow> bw)"

definition sorted_candidates :: "variant_info list \<Rightarrow> nat option \<Rightarrow> (variant_index \<times> nat) list" where
  "sorted_candidates vs max_bw =
     sort_key snd (filter (\<lambda>(_, bw). case max_bw of None \<Rightarrow> True | Some cap \<Rightarrow> bw \<le> cap)
       (map candidate_of vs))"

definition current_bandwidth :: "variant_info list \<Rightarrow> variant_index \<Rightarrow> nat" where
  "current_bandwidth vs current =
     (case find (\<lambda>v. vi_index v = current) vs of
        None \<Rightarrow> 0
      | Some v \<Rightarrow> (case bandwidth_bps v of None \<Rightarrow> 0 | Some bw \<Rightarrow> bw))"

definition adjusted_throughput :: "nat \<Rightarrow> f64 \<Rightarrow> f64" where
  "adjusted_throughput estimate safety_factor =
     f64_max (f64_div (f64_of_nat estimate) safety_factor) f64_zero"

definition candidate_variant ::
    "(variant_index \<times> nat) list \<Rightarrow> f64 \<Rightarrow> (variant_index \<times> nat) option" where
  "candidate_variant cands adjusted =
     (case max_by_key snd (filter (\<lambda>(_, bw). f64_le (f64_of_nat bw) adjusted) cands) of
        Some c \<Rightarrow> Some c
      | None \<Rightarrow> (case cands of [] \<Rightarrow> None | c # _ \<Rightarrow> Some c))"

record switch_context =
  ctx_settings :: abr_settings
  ctx_buffer_ahead :: "duration option"
  ctx_candidate_idx :: variant_index
  ctx_current :: variant_index
  ctx_adjusted_bps :: f64
  ctx_candidate_bw :: nat
  ctx_current_bw :: nat

definition up_switch :: "switch_context \<Rightarrow> abr_decision" where
  "up_switch ctx =
     (let buffer_ok = (case ctx_buffer_ahead ctx of
                         None \<Rightarrow> True
                       | Some b \<Rightarrow> min_buffer_for_up_switch (ctx_settings ctx) \<le> b);
          headroom_ok = f64_le (f64_mul (f64_of_nat (ctx_candidate_bw ctx))
                                  (up_hysteresis_ratio (ctx_settings ctx))) (ctx_adjusted_bps ctx)
      in if buffer_ok \<and> headroom_ok
         then DUpSwitch (ctx_current ctx) (ctx_candidate_idx ctx) UpSwitch
         else Stay (ctx_current ctx) BufferTooLowForUpSwitch)"

definition down_switch :: "switch_context \<Rightarrow> abr_decision option" where
  "down_switch ctx =
     (let urgent = (case ctx_buffer_ahead ctx of
                      None \<Rightarrow> False
                    | Some b \<Rightarrow> b \<le> urgent_downswitch_buffer (ctx_settings ctx));
          margin_ok = f64_le (ctx_adjusted_bps ctx)
                        (f64_mul (f64_of_nat (ctx_current_bw ctx))
                           (down_hysteresis_ratio (ctx_settings ctx)))
      in if urgent then Some (DDownSwitch (ctx_current ctx) (ctx_candidate_idx ctx) UrgentDownSwitch)
         else if margin_ok then Some (DDownSwitch (ctx_current ctx) (ctx_candidate_idx ctx) DownSwitch)
         else None)"

definition effective_cap :: "abr_state \<Rightarrow> abr_view \<Rightarrow> nat option" where
  "effective_cap s view =
     (case (max_bandwidth_bps s, settings_max_bandwidth_bps (settings view)) of
        (Some a, Some b) \<Rightarrow> Some (min a b)
      | (Some a, None) \<Rightarrow> Some a
      | (None, b) \<Rightarrow> b)"

text \<open>The candidates of a tick: under the cap, without the current variant while it is flagged
  as not delivering.\<close>

definition tick_candidates :: "abr_state \<Rightarrow> abr_view \<Rightarrow> (variant_index \<times> nat) list" where
  "tick_candidates s view =
     (let cands = sorted_candidates (variants view) (effective_cap s view)
      in if is_escaping s then filter (\<lambda>(idx, _). idx \<noteq> current_variant s) cands else cands)"

text \<open>The bandwidth part of \<open>decide\<close>, reached in automatic mode, unlocked, with an estimate.\<close>

definition decide_auto :: "abr_state \<Rightarrow> abr_view \<Rightarrow> nat \<Rightarrow> abr_decision" where
  "decide_auto s view estimate =
     (let current = current_variant s;
          cands = tick_candidates s view;
          current_bw = current_bandwidth (variants view) current;
          adjusted = adjusted_throughput estimate (throughput_safety_factor (settings view))
      in if cands = [] then Stay current AlreadyOptimal
         else case candidate_variant cands adjusted of
           None \<Rightarrow> Stay current AlreadyOptimal
         | Some (candidate_idx, candidate_bw) \<Rightarrow>
             (if is_escaping s then DUpSwitch current candidate_idx EscapeStalled
              else if (case effective_cap s view of None \<Rightarrow> False | Some cap \<Rightarrow> cap < current_bw)
                      \<and> candidate_idx \<noteq> current
              then DDownSwitch current candidate_idx DownSwitch
              else
                let ctx = \<lparr>ctx_settings = settings view, ctx_buffer_ahead = buffer_ahead view,
                           ctx_candidate_idx = candidate_idx, ctx_current = current,
                           ctx_adjusted_bps = adjusted, ctx_candidate_bw = candidate_bw,
                           ctx_current_bw = current_bw\<rparr>
                in if current_bw < candidate_bw then up_switch ctx
                   else if candidate_bw < current_bw
                   then (case down_switch ctx of
                           Some d \<Rightarrow> d | None \<Rightarrow> Stay current AlreadyOptimal)
                   else Stay current AlreadyOptimal))"

definition decide :: "abr_state \<Rightarrow> abr_view \<Rightarrow> abr_decision" where
  "decide s view =
     (let current = current_variant s
      in case (mode s, is_locked s, estimate_bps view) of
           (Manual idx, _, _) \<Rightarrow> manual_decision current idx
         | (Auto _, True, _) \<Rightarrow> Stay current Locked
         | (Auto _, False, None) \<Rightarrow> Stay current NoEstimate
         | (Auto _, False, Some bps) \<Rightarrow> decide_auto s view bps)"

definition evaluate :: "abr_state \<Rightarrow> abr_view \<Rightarrow> instant \<Rightarrow> abr_decision" where
  "evaluate s view now =
     (let decision = decide s view
      in if \<not> changed decision \<or> is_rescue (decision_reason decision)
            \<or> (case mode s of Manual _ \<Rightarrow> True | Auto _ \<Rightarrow> False)
         then decision
         else if can_switch_now s now (min_switch_interval (settings view)) then decision
         else Stay (current_variant s) MinInterval)"

subsection \<open>Candidates\<close>

lemma set_sorted_candidates:
  "set (sorted_candidates vs cap) =
     candidate_of ` {v \<in> set vs. case cap of None \<Rightarrow> True | Some c \<Rightarrow> snd (candidate_of v) \<le> c}"
  unfolding sorted_candidates_def case_prod_beta by (simp only: set_sort set_filter set_map) blast

lemma sorted_sorted_candidates: "sorted (map snd (sorted_candidates vs cap))"
  by (simp add: sorted_candidates_def)

lemma sorted_tick_candidates: "sorted (map snd (tick_candidates s view))"
  using sorted_sorted_candidates [of "variants view" "effective_cap s view"]
  by (simp add: tick_candidates_def Let_def sorted_filter)

lemma set_tick_candidates:
  "set (tick_candidates s view) \<subseteq> set (sorted_candidates (variants view) (effective_cap s view))"
  by (auto simp: tick_candidates_def Let_def)

lemma candidate_variant_in:
  "candidate_variant cands a = Some c \<Longrightarrow> c \<in> set cands"
  by (auto simp: candidate_variant_def split: option.splits list.splits dest: max_by_key_in)

lemma candidate_variant_None [simp]: "candidate_variant cands a = None \<longleftrightarrow> cands = []"
  by (auto simp: candidate_variant_def split: option.splits list.splits)

text \<open>The best affordable candidate, or the cheapest one when none is affordable.\<close>

lemma candidate_variant_best:
  assumes "candidate_variant cands a = Some (i, bw)" "(j, bw') \<in> set cands"
    and "f64_le (f64_of_nat bw') a"
  shows "f64_le (f64_of_nat bw) a \<and> bw' \<le> bw"
proof -
  let ?under = "filter (\<lambda>(_, bw). f64_le (f64_of_nat bw) a) cands"
  have in_under: "(j, bw') \<in> set ?under"
    using assms by simp
  then have "?under \<noteq> []"
    by (metis list.distinct(1) list.set_cases)
  then have best: "max_by_key snd ?under = Some (i, bw)"
    using assms(1) by (auto simp: candidate_variant_def split: option.splits)
  show ?thesis
    using max_by_key_in [OF best] max_by_key_ge [OF best in_under] by auto
qed

lemma candidate_variant_cheapest:
  assumes "candidate_variant cands a = Some (i, bw)" "sorted (map snd cands)"
    and "\<not> f64_le (f64_of_nat bw) a" "(j, bw') \<in> set cands"
  shows "bw \<le> bw'"
proof -
  let ?under = "filter (\<lambda>(_, bw). f64_le (f64_of_nat bw) a) cands"
  have "max_by_key snd ?under = None"
  proof (rule ccontr)
    assume "max_by_key snd ?under \<noteq> None"
    then obtain c where c: "max_by_key snd ?under = Some c" by blast
    with assms(1) have "c = (i, bw)"
      by (simp add: candidate_variant_def)
    with max_by_key_in [OF c] assms(3) show False by simp
  qed
  with assms(1) obtain rest where "cands = (i, bw) # rest"
    by (auto simp: candidate_variant_def split: list.splits)
  with assms(2,4) show ?thesis by auto
qed

lemma candidate_variant_mono:
  assumes le: "f64_le a a'" and srt: "sorted (map snd cands)"
    and c: "candidate_variant cands a = Some (i, bw)"
    and c': "candidate_variant cands a' = Some (j, bw')"
  shows "bw \<le> bw'"
proof (cases "f64_le (f64_of_nat bw) a")
  case True
  then have "f64_le (f64_of_nat bw) a'"
    using le by (blast intro: f64_le_trans)
  then show ?thesis
    using candidate_variant_best [OF c' candidate_variant_in [OF c]] by simp
next
  case False
  then show ?thesis
    using candidate_variant_cheapest [OF c srt _ candidate_variant_in [OF c']] by simp
qed

lemma adjusted_throughput_mono:
  assumes "e \<le> e'" "f64_positive f"
  shows "f64_le (adjusted_throughput e f) (adjusted_throughput e' f)"
proof -
  have "f64_le (f64_div (f64_of_nat e) f) (f64_div (f64_of_nat e') f)"
    unfolding f64_of_nat_def
    by (rule f64_div_mono) (use assms f64_of_nat_mono [of e e'] in \<open>simp_all add: f64_of_nat_def\<close>)
  then show ?thesis
    unfolding adjusted_throughput_def by (rule f64_max_mono) (simp add: f64_ok_def f64_zero_def)
qed

text \<open>A higher throughput estimate never selects a lower bandwidth: for the same variants and
  the same cap, the candidate the controller aims at is monotone in the estimate, whatever
  positive safety factor is configured, with the rounding of the \<open>f64\<close> arithmetic.\<close>

lemma candidate_monotone_in_estimate:
  assumes "f64_positive (throughput_safety_factor (settings view))" and "e \<le> e'"
    and "candidate_variant (tick_candidates s view)
           (adjusted_throughput e (throughput_safety_factor (settings view))) = Some (i, bw)"
    and "candidate_variant (tick_candidates s view)
           (adjusted_throughput e' (throughput_safety_factor (settings view))) = Some (j, bw')"
  shows "bw \<le> bw'"
  using candidate_variant_mono [OF adjusted_throughput_mono [OF assms(2,1)]
      sorted_tick_candidates assms(3,4)] .

subsection \<open>What a decision may be\<close>

lemma candidate_of_bounds:
  assumes "(i, bw) \<in> set (tick_candidates s view)"
  shows "\<exists>v \<in> set (variants view). candidate_of v = (i, bw)
      \<and> (\<forall>cap. effective_cap s view = Some cap \<longrightarrow> bw \<le> cap)"
proof -
  from assms have "(i, bw) \<in> set (sorted_candidates (variants view) (effective_cap s view))"
    using set_tick_candidates by blast
  then obtain v where "v \<in> set (variants view)" "candidate_of v = (i, bw)"
    and "case effective_cap s view of None \<Rightarrow> True | Some c \<Rightarrow> snd (candidate_of v) \<le> c"
    unfolding set_sorted_candidates by auto
  then show ?thesis
    by (intro bexI [of _ v]) auto
qed

text \<open>The shapes of a switch that \<open>decide_auto\<close> can return, with what it checked.\<close>

definition up_ok :: "abr_view \<Rightarrow> nat \<Rightarrow> nat \<Rightarrow> nat \<Rightarrow> bool" where
  "up_ok view e current_bw bw \<longleftrightarrow>
     current_bw < bw
     \<and> f64_le (f64_mul (f64_of_nat bw) (up_hysteresis_ratio (settings view)))
         (adjusted_throughput e (throughput_safety_factor (settings view)))
     \<and> (\<forall>b. buffer_ahead view = Some b \<longrightarrow> min_buffer_for_up_switch (settings view) \<le> b)"

definition urgent :: "abr_view \<Rightarrow> bool" where
  "urgent view \<longleftrightarrow> (\<exists>b. buffer_ahead view = Some b \<and> b \<le> urgent_downswitch_buffer (settings view))"

definition margin_ok :: "abr_view \<Rightarrow> nat \<Rightarrow> nat \<Rightarrow> bool" where
  "margin_ok view e current_bw \<longleftrightarrow>
     f64_le (adjusted_throughput e (throughput_safety_factor (settings view)))
       (f64_mul (f64_of_nat current_bw) (down_hysteresis_ratio (settings view)))"

lemma down_switch_Some:
  "down_switch ctx = Some d \<Longrightarrow>
     \<exists>r. d = DDownSwitch (ctx_current ctx) (ctx_candidate_idx ctx) r
       \<and> (r = UrgentDownSwitch \<and> (\<exists>b. ctx_buffer_ahead ctx = Some b
                \<and> b \<le> urgent_downswitch_buffer (ctx_settings ctx))
          \<or> r = DownSwitch \<and> f64_le (ctx_adjusted_bps ctx)
                (f64_mul (f64_of_nat (ctx_current_bw ctx))
                   (down_hysteresis_ratio (ctx_settings ctx))))"
  by (auto simp: down_switch_def Let_def split: option.splits if_splits)

lemma decide_auto_cases:
  assumes "changed (decide_auto s view e)"
  obtains (escape) i bw where
      "decide_auto s view e = DUpSwitch (current_variant s) i EscapeStalled"
      "is_escaping s" "(i, bw) \<in> set (tick_candidates s view)"
  | (cap) i bw c where
      "decide_auto s view e = DDownSwitch (current_variant s) i DownSwitch" "\<not> is_escaping s"
      "(i, bw) \<in> set (tick_candidates s view)"
      "candidate_variant (tick_candidates s view)
         (adjusted_throughput e (throughput_safety_factor (settings view))) = Some (i, bw)"
      "effective_cap s view = Some c" "c < current_bandwidth (variants view) (current_variant s)"
  | (up) i bw where
      "decide_auto s view e = DUpSwitch (current_variant s) i UpSwitch" "\<not> is_escaping s"
      "(i, bw) \<in> set (tick_candidates s view)"
      "candidate_variant (tick_candidates s view)
         (adjusted_throughput e (throughput_safety_factor (settings view))) = Some (i, bw)"
      "up_ok view e (current_bandwidth (variants view) (current_variant s)) bw"
  | (down) i bw r where
      "decide_auto s view e = DDownSwitch (current_variant s) i r" "\<not> is_escaping s"
      "(i, bw) \<in> set (tick_candidates s view)"
      "candidate_variant (tick_candidates s view)
         (adjusted_throughput e (throughput_safety_factor (settings view))) = Some (i, bw)"
      "bw < current_bandwidth (variants view) (current_variant s)"
      "r = UrgentDownSwitch \<and> urgent view \<or>
       r = DownSwitch \<and> margin_ok view e (current_bandwidth (variants view) (current_variant s))"
proof -
  let ?cands = "tick_candidates s view"
  let ?a = "adjusted_throughput e (throughput_safety_factor (settings view))"
  let ?cur = "current_bandwidth (variants view) (current_variant s)"
  have ne: "?cands \<noteq> []"
    using assms by (auto simp: decide_auto_def changed_def)
  then obtain i bw where c: "candidate_variant ?cands ?a = Some (i, bw)"
    using candidate_variant_None [of ?cands ?a] by fastforce
  note in_c = candidate_variant_in [OF c]
  note unfold = decide_auto_def Let_def
  show thesis
  proof (cases "is_escaping s")
    case True
    with ne c show thesis
      by (intro escape [of i bw]) (simp_all add: unfold in_c)
  next
    case esc: False
    show thesis
    proof (cases "(\<exists>cap. effective_cap s view = Some cap \<and> cap < ?cur) \<and> i \<noteq> current_variant s")
      case True
      with ne c esc in_c show thesis
        by (auto intro!: cap [of i bw] simp: unfold)
    next
      case False
      then have rest: "decide_auto s view e =
          (let ctx = \<lparr>ctx_settings = settings view, ctx_buffer_ahead = buffer_ahead view,
                      ctx_candidate_idx = i, ctx_current = current_variant s, ctx_adjusted_bps = ?a,
                      ctx_candidate_bw = bw, ctx_current_bw = ?cur\<rparr>
           in if ?cur < bw then up_switch ctx
              else if bw < ?cur then (case down_switch ctx of Some d \<Rightarrow> d
                | None \<Rightarrow> Stay (current_variant s) AlreadyOptimal)
              else Stay (current_variant s) AlreadyOptimal)"
        using ne c esc by (auto simp: unfold split: option.splits)
      show thesis
      proof (cases "?cur < bw")
        case True
        with rest assms show thesis
          by (intro up [OF _ esc in_c c])
            (auto simp: up_switch_def up_ok_def changed_def Let_def split: option.splits if_splits)
      next
        case False
        with rest assms have lt: "bw < ?cur"
          by (auto simp: changed_def split: if_splits)
        define ctx where "ctx = \<lparr>ctx_settings = settings view, ctx_buffer_ahead = buffer_ahead view,
            ctx_candidate_idx = i, ctx_current = current_variant s, ctx_adjusted_bps = ?a,
            ctx_candidate_bw = bw, ctx_current_bw = ?cur\<rparr>"
        have "down_switch ctx = Some (decide_auto s view e)"
          using rest assms lt
          by (auto simp: ctx_def [symmetric] changed_def Let_def split: option.splits)
        then obtain r where "decide_auto s view e = DDownSwitch (current_variant s) i r"
            "r = UrgentDownSwitch \<and> urgent view \<or> r = DownSwitch \<and> margin_ok view e ?cur"
          using down_switch_Some [of ctx] by (auto simp: ctx_def urgent_def margin_ok_def)
        then show thesis
          by (rule down [OF _ esc in_c c lt])
      qed
    qed
  qed
qed

lemma evaluate_changed:
  assumes "changed (evaluate s view now)"
  shows "evaluate s view now = decide s view"
    and "\<not> is_rescue (decision_reason (decide s view)) \<Longrightarrow> (\<forall>idx. mode s \<noteq> Manual idx) \<Longrightarrow>
         can_switch_now s now (min_switch_interval (settings view))"
  using assms
  by (auto simp: evaluate_def changed_def Let_def split: if_splits abr_mode.splits)

lemma decide_auto_mode:
  assumes "mode s = Auto a" "changed (decide s view)"
  obtains e where "estimate_bps view = Some e" "decide s view = decide_auto s view e" "\<not> is_locked s"
  using assms
  by (cases "is_locked s"; cases "estimate_bps view") (auto simp: decide_def changed_def Let_def)

text \<open>C30: an automatic decision to switch lands on a variant of the peer's list whose bandwidth is
  within the cap in force (the smaller of the peer's cap and the global one), and it is only
  taken while unlocked and with a throughput estimate; a manual decision lands on the pinned
  variant.\<close>

theorem switch_respects_cap:
  assumes "changed (evaluate s view now)"
  shows "case mode s of
      Manual idx \<Rightarrow> evaluate s view now = DManual (current_variant s) idx
    | Auto _ \<Rightarrow> \<not> is_locked s \<and> estimate_bps view \<noteq> None
        \<and> (\<exists>v \<in> set (variants view). vi_index v = decision_target (evaluate s view now)
            \<and> (\<forall>cap. effective_cap s view = Some cap \<longrightarrow> snd (candidate_of v) \<le> cap))"
proof -
  note eq = evaluate_changed(1) [OF assms]
  have ch: "changed (decide s view)"
    using assms eq by simp
  show ?thesis
  proof (cases "mode s")
    case (Manual idx)
    with ch eq show ?thesis
      by (auto simp: decide_def manual_decision_def changed_def Let_def split: if_splits)
  next
    case (Auto a)
    then obtain e where e: "estimate_bps view = Some e" "decide s view = decide_auto s view e"
        "\<not> is_locked s"
      using ch decide_auto_mode by blast
    obtain bw where "(decision_target (decide_auto s view e), bw) \<in> set (tick_candidates s view)"
      using ch unfolding e(2) by (cases rule: decide_auto_cases) auto
    with candidate_of_bounds [OF this] Auto e eq show ?thesis
      by (force simp: candidate_of_def)
  qed
qed

lemma auto_switch:
  assumes "mode s = Auto a" "evaluate s view now = d" "changed d"
  obtains e where "estimate_bps view = Some e" "decide_auto s view e = d" "changed (decide_auto s view e)"
    and "\<not> is_rescue (decision_reason d) \<Longrightarrow> can_switch_now s now (min_switch_interval (settings view))"
proof -
  have d: "decide s view = d"
    using evaluate_changed(1) assms by metis
  obtain e where "estimate_bps view = Some e" "decide s view = decide_auto s view e"
    using decide_auto_mode [OF assms(1)] assms(3) d by metis
  then show thesis
    using that evaluate_changed(2) assms d by (metis abr_mode.distinct(1))
qed

text \<open>Hysteresis of up-switches. An automatic up-switch for quality is taken only for a variant
  of strictly greater bandwidth that the adjusted throughput covers with the configured headroom,
  with enough buffer, and outside the anti-oscillation interval.\<close>

lemma up_switch_hysteresis:
  assumes auto: "mode s = Auto a" and ev: "evaluate s view now = DUpSwitch from to UpSwitch"
  shows "\<exists>bw e. (to, bw) \<in> set (tick_candidates s view) \<and> estimate_bps view = Some e
      \<and> up_ok view e (current_bandwidth (variants view) (current_variant s)) bw
      \<and> can_switch_now s now (min_switch_interval (settings view))"
proof -
  obtain e where e: "estimate_bps view = Some e" "decide_auto s view e = DUpSwitch from to UpSwitch"
      "changed (decide_auto s view e)" "can_switch_now s now (min_switch_interval (settings view))"
    using auto_switch [OF auto ev] by (auto simp: changed_def is_rescue_def)
  from e(3) show ?thesis
    by (cases rule: decide_auto_cases) (use e in auto)
qed

text \<open>Hysteresis of down-switches. An automatic down-switch is taken because the buffer is
  urgently low, because the adjusted throughput fell to the configured fraction of the current
  bandwidth, or because the current variant is above the cap; only the buffer emergency may
  ignore the anti-oscillation interval.\<close>

lemma down_switch_hysteresis:
  assumes auto: "mode s = Auto a" and ev: "evaluate s view now = DDownSwitch from to r"
    and cur: "current_bw = current_bandwidth (variants view) (current_variant s)"
  shows "\<exists>bw e. (to, bw) \<in> set (tick_candidates s view) \<and> estimate_bps view = Some e \<and> bw < current_bw
      \<and> (r = UrgentDownSwitch \<and> urgent view
         \<or> r = DownSwitch \<and> can_switch_now s now (min_switch_interval (settings view))
           \<and> (margin_ok view e current_bw
              \<or> (\<exists>cap. effective_cap s view = Some cap \<and> bw \<le> cap \<and> cap < current_bw)))"
proof -
  obtain e where e: "estimate_bps view = Some e" "decide_auto s view e = DDownSwitch from to r"
      "changed (decide_auto s view e)"
    and can: "\<not> is_rescue r \<Longrightarrow> can_switch_now s now (min_switch_interval (settings view))"
    using auto_switch [OF auto ev] by (auto simp: changed_def)
  from e(3) show ?thesis
  proof (cases rule: decide_auto_cases)
    case (cap i bw c)
    with can e cur candidate_of_bounds [OF cap(3)] show ?thesis
      by (intro exI [of _ bw] exI [of _ e]) (auto simp: is_rescue_def)
  next
    case (down i bw r')
    with can e cur show ?thesis
      by (intro exI [of _ bw] exI [of _ e]) (auto simp: is_rescue_def)
  qed (use e in auto)
qed

subsection \<open>A committed switch settles\<close>

lemma current_bandwidth_candidate:
  assumes "distinct (map vi_index vs)" "v \<in> set vs" "candidate_of v = (i, bw)"
  shows "current_bandwidth vs i = bw"
  using find_distinct_key [OF assms(1,2)] assms(3)
  by (auto simp: current_bandwidth_def candidate_of_def split: option.splits)

lemma commit_pending_True:
  assumes "commit_pending claim now s = (True, s')"
  obtains p where "pending (slot s) = Some p" "pa_ticket p = pd_ticket claim" "\<not> is_locked s"
    "pending_decision (current_variant s) (pa_target p) (pa_reason p) = pd_decision claim"
    "s' = record_switch now ((clear_escape (s\<lparr>slot := (slot s)\<lparr>pending := None\<rparr>\<rparr>))
            \<lparr>current_variant := decision_target (pd_decision claim)\<rparr>)"
  using assms by (auto simp: commit_pending_def Let_def split: if_splits option.splits)

lemma commit_pending_fields:
  assumes "commit_pending claim now s = (True, s')"
  shows "current_variant s' = decision_target (pd_decision claim)" "mode s' = mode s"
    "max_bandwidth s' = max_bandwidth s" "\<not> is_locked s'" "\<not> is_escaping s'"
    "pending (slot s') = None" "next_ticket (slot s') = next_ticket (slot s)"
    "reference_instant s' = reference_instant s"
proof -
  have esc: "and (and x (not escape_flag)) escape_flag \<noteq> escape_flag" for x :: u8
  proof -
    have "and (and x (not escape_flag)) escape_flag = 0"
      by (simp add: bit_eq_iff bit_simps)
    then show ?thesis by (simp add: escape_flag_def)
  qed
  from assms show "current_variant s' = decision_target (pd_decision claim)" "mode s' = mode s"
    "max_bandwidth s' = max_bandwidth s" "\<not> is_locked s'" "\<not> is_escaping s'"
    "pending (slot s') = None" "next_ticket (slot s') = next_ticket (slot s)"
    "reference_instant s' = reference_instant s"
    by (auto elim!: commit_pending_True simp: record_switch_def clear_escape_def mode_def
        is_locked_def is_escaping_def esc)
qed

text \<open>C31: a switch settles. Once an automatic decision other than an escape has been committed,
  the same variants, settings, buffer and estimate make the controller stay where it is: the
  candidate selection has no two-cycle, whatever ratios are configured.\<close>

theorem committed_switch_settles:
  assumes dist: "distinct (map vi_index (variants view))" and auto: "mode s = Auto a"
    and noesc: "\<not> is_escaping s" and ch: "changed (decide s view)"
    and commit: "commit_pending claim now s = (True, s')" and claim: "pd_decision claim = decide s view"
  shows "decide s' view = Stay (current_variant s') AlreadyOptimal"
proof -
  obtain e where e: "estimate_bps view = Some e" "decide s view = decide_auto s view e"
    using decide_auto_mode [OF auto ch] by metis
  define i where "i = decision_target (decide s view)"
  note f = commit_pending_fields [OF commit]
  let ?a = "adjusted_throughput e (throughput_safety_factor (settings view))"
  have cap: "effective_cap s' view = effective_cap s view"
    using f by (simp add: effective_cap_def max_bandwidth_bps_def)
  then have cands: "tick_candidates s' view = tick_candidates s view"
    using f noesc by (simp add: tick_candidates_def)
  have "changed (decide_auto s view e)"
    using ch e by simp
  then obtain bw where c: "candidate_variant (tick_candidates s view) ?a = Some (i, bw)"
    by (cases rule: decide_auto_cases) (use noesc e in \<open>auto simp: i_def\<close>)
  obtain v where v: "v \<in> set (variants view)" "candidate_of v = (i, bw)"
      "\<forall>cap. effective_cap s view = Some cap \<longrightarrow> bw \<le> cap"
    using candidate_of_bounds [OF candidate_variant_in [OF c]] by blast
  have bw: "current_bandwidth (variants view) i = bw"
    by (rule current_bandwidth_candidate [OF dist v(1,2)])
  have "current_variant s' = i"
    using f(1) claim by (simp add: i_def)
  then have "decide_auto s' view e = Stay i AlreadyOptimal"
    using c bw v(3) f cap cands
    by (auto simp: decide_auto_def Let_def split: option.splits)
  then show ?thesis
    using f e auto \<open>current_variant s' = i\<close> by (simp add: decide_def Let_def)
qed

subsection \<open>A worked instance: three variants, default settings with ratios that doubles hold exactly\<close>

definition demo_settings :: abr_settings where
  "demo_settings = default_settings\<lparr>throughput_safety_factor := Fin False (3 / 2),
     up_hysteresis_ratio := Fin False (5 / 4), down_hysteresis_ratio := Fin False (3 / 4)\<rparr>"

definition demo_variants :: "variant_info list" where
  "demo_variants =
     [\<lparr>bandwidth_bps = Some 500000, vi_index = 0\<rparr>, \<lparr>bandwidth_bps = Some 1000000, vi_index = 1\<rparr>,
      \<lparr>bandwidth_bps = Some 3000000, vi_index = 2\<rparr>]"

definition demo_view :: "nat \<Rightarrow> abr_view" where
  "demo_view e = \<lparr>settings = demo_settings, variants = demo_variants, buffer_ahead = None,
     estimate_bps = Some e, bytes_downloaded = 0\<rparr>"

lemmas state_eval = abr_new_at_def mode_def mode_of_usize_def usize_MAX_def abr_mode_auto_threshold_def is_locked_def
  max_bandwidth_bps_def is_escaping_def escape_flag_def can_switch_now_def pending_state_default_def
  switch_interval_remaining_def 

lemmas demo_eval = demo_settings_def default_settings_def demo_variants_def demo_view_def
lemmas decision_eval = evaluate_def decide_def decide_auto_def tick_candidates_def sorted_candidates_def
  candidate_of_def effective_cap_def current_bandwidth_def adjusted_throughput_def candidate_variant_def
  up_switch_def down_switch_def is_rescue_def changed_def Let_def f64_zero_def

lemma demo_up: "evaluate (abr_new_at (Auto None) 0) (demo_view 3000000) 40000000000 = DUpSwitch 0 1 UpSwitch"
  by (simp add: decision_eval demo_eval state_eval f64_eval)
lemma demo_down: "evaluate (abr_new_at (Auto (Some 2)) 0) (demo_view 3000000) 40000000000 = DDownSwitch 2 1 DownSwitch"
  by (simp add: decision_eval demo_eval state_eval f64_eval)


theorem switch_respects_cap_witness:
  "\<exists>v \<in> set demo_variants. vi_index v = 1
     \<and> (\<forall>cap. effective_cap (abr_new_at (Auto None) 0) (demo_view 3000000) = Some cap
           \<longrightarrow> snd (candidate_of v) \<le> cap)"
proof -
  have m: "mode (abr_new_at (Auto None) 0) = Auto None" "variants (demo_view 3000000) = demo_variants"
    by (simp_all add: state_eval demo_eval)
  show ?thesis
    using switch_respects_cap [of "abr_new_at (Auto None) 0" "demo_view 3000000" 40000000000,
        unfolded demo_up m] by (simp add: changed_def)
qed

definition demo_pending :: abr_state where
  "demo_pending = (abr_new_at (Auto None) 0)\<lparr>slot :=
     \<lparr>pending = Some \<lparr>pa_reason = UpSwitch, pa_ticket = 1, pa_target = 1\<rparr>, next_ticket = 2\<rparr>\<rparr>"

definition demo_claim :: pending_abr_decision where
  "demo_claim = PendingAbrDecision 1 (DUpSwitch 0 1 UpSwitch)"

lemmas pending_eval = demo_pending_def demo_claim_def request_target_def set_mode_def mint_ticket_def
  commit_pending_def abort_pending_def pending_claim_def pending_target_def record_switch_def
  clear_escape_def instant_to_nanos_def u64_max_def

lemma demo_request: "request_target 1 UpSwitch (abr_new_at (Auto None) 0) = Some demo_pending"
  by (simp add: pending_eval state_eval)

lemma demo_decide: "decide (abr_new_at (Auto None) 0) (demo_view 3000000) = DUpSwitch 0 1 UpSwitch"
  by (simp add: decision_eval demo_eval state_eval f64_eval)

lemma demo_decide_pending: "decide demo_pending (demo_view 3000000) = DUpSwitch 0 1 UpSwitch"
  by (simp add: decision_eval demo_eval state_eval f64_eval demo_pending_def)

theorem committed_switch_settles_witness:
  "decide (snd (commit_pending demo_claim 40000000000 demo_pending)) (demo_view 3000000)
     = Stay 1 AlreadyOptimal"
proof -
  have m: "mode demo_pending = Auto None" "\<not> is_escaping demo_pending"
    by (simp_all add: demo_pending_def state_eval)
  have c: "commit_pending demo_claim 40000000000 demo_pending
      = (True, snd (commit_pending demo_claim 40000000000 demo_pending))"
    by (simp add: pending_eval state_eval)
  have "current_variant (snd (commit_pending demo_claim 40000000000 demo_pending)) = 1"
    by (simp add: pending_eval state_eval)
  then show ?thesis
    using committed_switch_settles [of "demo_view 3000000", OF _ m _ c]
    by (simp add: demo_decide_pending) (simp add: demo_eval demo_claim_def changed_def)
qed

end
