(* ===== verification/Abr_Controller.thy ===== *)
theory Abr_Controller
  imports Abr_Decision "HOL-Library.AList"
begin

text \<open>
  The controller around the decision (\<open>crates/kithara-abr/src/controller\<close> and
  \<open>handle.rs\<close>): the per-peer registration entry with its event throttling and tick
  deadline, one tick, the poll loop that runs every requested tick, and the operations of the
  handle a peer holds.  The peer itself is what the \<open>Abr\<close> trait returns at a tick
  (\<open>peer_obs\<close>); the estimator is the estimate it returns.  Published events are returned
  in order.  The registry is a list in the order the concurrent map happens to iterate in.
\<close>

datatype bandwidth_source = Network | Cache

datatype abr_event =
    ThroughputSample f64 bandwidth_source
  | BandwidthEstimate nat
  | BufferAhead "duration option"
  | VariantsRegistered "variant_info list" variant_index
  | VariantApplied variant_index variant_index abr_reason
  | ModeChanged abr_mode
  | MaxBandwidthCapChanged "nat option"
  | EvLocked
  | EvUnlocked
  | DecisionSkipped abr_reason

record event_throttle_cache =
  last_bandwidth_emit :: "(instant \<times> nat) option"
  last_buffer_emit :: "(instant \<times> duration option) option"
  last_throughput_sample_at :: "instant option"

record peer_entry =
  bus :: bool
  tick_requested :: bool
  variants_registered_published :: bool
  pe_bytes_downloaded :: u64
  cancelled :: bool
  throttle :: event_throttle_cache
  tick_deadline :: "instant option"
  pe_state :: "abr_state option"
  peer_alive :: bool

text \<open>What the peer's trait methods return when a tick asks: the variants, and the pair of
  download-head and reader playback times.\<close>

record peer_obs =
  obs_variants :: "variant_info list"
  obs_progress :: "(duration \<times> duration) option"

definition peer_entry_new :: "abr_state option \<Rightarrow> peer_entry" where
  "peer_entry_new st =
     \<lparr>bus = False, tick_requested = False, variants_registered_published = False,
      pe_bytes_downloaded = 0, cancelled = False,
      throttle = \<lparr>last_bandwidth_emit = None, last_buffer_emit = None,
                  last_throughput_sample_at = None\<rparr>,
      tick_deadline = None, pe_state = st, peer_alive = True\<rparr>"

subsection \<open>The entry\<close>

definition clear_tick_deadline :: "peer_entry \<Rightarrow> peer_entry" where
  "clear_tick_deadline e = e\<lparr>tick_deadline := None\<rparr>"

definition set_tick_deadline :: "instant \<Rightarrow> peer_entry \<Rightarrow> peer_entry" where
  "set_tick_deadline d e = e\<lparr>tick_deadline := Some d\<rparr>"

definition mark_tick_requested :: "peer_entry \<Rightarrow> bool \<times> peer_entry" where
  "mark_tick_requested e = (\<not> tick_requested e, e\<lparr>tick_requested := True\<rparr>)"

definition take_tick_request_entry :: "peer_entry \<Rightarrow> bool \<times> peer_entry" where
  "take_tick_request_entry e = (tick_requested e, e\<lparr>tick_requested := False\<rparr>)"

definition take_due_tick_deadline :: "instant \<Rightarrow> peer_entry \<Rightarrow> bool \<times> peer_entry" where
  "take_due_tick_deadline now e =
     (case tick_deadline e of
        Some d \<Rightarrow> (if d \<le> now then (True, e\<lparr>tick_deadline := None\<rparr>) else (False, e))
      | None \<Rightarrow> (False, e))"

subsection \<open>Throttled events\<close>

definition nanos_per_sec :: nat where
  "nanos_per_sec = 1000000000"

definition as_secs_f64 :: "duration \<Rightarrow> f64" where
  "as_secs_f64 d = f64_add (f64_of_nat (d div nanos_per_sec))
     (f64_div (f64_of_nat (d mod nanos_per_sec)) (f64_of_nat nanos_per_sec))"

definition f64_epsilon :: f64 where
  "f64_epsilon = Fin False (1 / 4503599627370496)"

definition bytes_per_second :: "nat \<Rightarrow> duration \<Rightarrow> f64" where
  "bytes_per_second bytes d = f64_div (f64_of_nat bytes) (f64_max (as_secs_f64 d) f64_epsilon)"

definition relative_delta :: "nat \<Rightarrow> nat \<Rightarrow> f64" where
  "relative_delta prev now =
     (if prev = 0 then Infty False
      else f64_div (f64_of_nat (if prev \<le> now then now - prev else prev - now)) (f64_of_nat prev))"

definition emit_throttled ::
    "abr_settings \<Rightarrow> instant \<Rightarrow> abr_view \<Rightarrow> peer_entry \<Rightarrow> peer_entry \<times> abr_event list" where
  "emit_throttled cfg now view e =
     (if \<not> bus e then (e, [])
      else
        let th = throttle e;
            (th1, ev1) = (case estimate_bps view of
               None \<Rightarrow> (th, [])
             | Some bps \<Rightarrow>
                 (if (case last_bandwidth_emit th of
                        None \<Rightarrow> True
                      | Some (t, prev) \<Rightarrow> bandwidth_emit_min_interval cfg \<le> now - t
                          \<or> f64_le (bandwidth_emit_min_delta_ratio cfg) (relative_delta prev bps))
                  then (th\<lparr>last_bandwidth_emit := Some (now, bps)\<rparr>, [BandwidthEstimate bps])
                  else (th, [])));
            should_emit_buffer = (case last_buffer_emit th1 of
               None \<Rightarrow> True
             | Some (t, prev) \<Rightarrow>
                 (let time_ok = buffer_emit_min_interval cfg \<le> now - t;
                      transition = ((prev \<noteq> None) \<noteq> (buffer_ahead view \<noteq> None));
                      delta_ok = (case (prev, buffer_ahead view) of
                          (Some a, Some b) \<Rightarrow> buffer_emit_min_delta cfg \<le> (if a \<le> b then b - a else a - b)
                        | _ \<Rightarrow> True)
                  in transition \<or> (time_ok \<and> delta_ok)))
        in if should_emit_buffer
           then (e\<lparr>throttle := th1\<lparr>last_buffer_emit := Some (now, buffer_ahead view)\<rparr>\<rparr>,
                 ev1 @ [BufferAhead (buffer_ahead view)])
           else (e\<lparr>throttle := th1\<rparr>, ev1))"

subsection \<open>One tick\<close>

definition publish :: "peer_entry \<Rightarrow> abr_event \<Rightarrow> abr_event list" where
  "publish e ev = (if bus e then [ev] else [])"

definition register_variants :: "peer_obs \<Rightarrow> peer_entry \<Rightarrow> peer_entry \<times> abr_event list" where
  "register_variants obs e =
     (if \<not> variants_registered_published e \<and> bus e
      then (e\<lparr>variants_registered_published := True\<rparr>,
            [VariantsRegistered (obs_variants obs)
               (case pe_state e of None \<Rightarrow> 0 | Some s \<Rightarrow> current_variant s)])
      else (e, []))"

definition apply_decision ::
    "abr_settings \<Rightarrow> instant \<Rightarrow> abr_decision \<Rightarrow> abr_state \<Rightarrow> peer_entry
       \<Rightarrow> (peer_entry \<times> abr_event list \<times> bool) option" where
  "apply_decision cfg now decision s e =
     (case decision of
        Stay current AlreadyOptimal \<Rightarrow>
          Some ((clear_tick_deadline e)\<lparr>pe_state := Some (retract_throughput_pending current s)\<rparr>,
                [], False)
      | Stay _ MinInterval \<Rightarrow>
          Some (set_tick_deadline
                  (now + switch_interval_remaining s now (min_switch_interval cfg)) e,
                publish e (DecisionSkipped MinInterval), False)
      | Stay _ reason \<Rightarrow> Some (clear_tick_deadline e, publish e (DecisionSkipped reason), False)
      | change \<Rightarrow>
          map_option (\<lambda>s'. ((clear_tick_deadline e)\<lparr>pe_state := Some s'\<rparr>, [], True))
            (request_target (decision_target change) (decision_reason change) s))"

text \<open>\<open>run_tick\<close> of a peer that is registered, not cancelled and alive; the last component says
  that the peer was woken, \<open>None\<close> is the panic of an exhausted ticket space.\<close>

definition run_tick ::
    "abr_settings \<Rightarrow> nat option \<Rightarrow> peer_obs \<Rightarrow> instant \<Rightarrow> peer_entry
       \<Rightarrow> (peer_entry \<times> abr_event list \<times> bool) option" where
  "run_tick cfg estimate obs now e =
     (if cancelled e \<or> \<not> peer_alive e then Some (e, [], False)
      else
        let (e1, ev1) = register_variants obs e;
            view = \<lparr>settings = cfg, variants = obs_variants obs,
                    buffer_ahead = map_option (\<lambda>(head, reader). head - reader) (obs_progress obs),
                    estimate_bps = estimate, bytes_downloaded = unat (pe_bytes_downloaded e)\<rparr>;
            (e2, ev2) = emit_throttled cfg now view e1
        in case pe_state e2 of
             None \<Rightarrow> Some (e2, ev1 @ ev2, False)
           | Some s \<Rightarrow>
               (case apply_decision cfg now (evaluate s view now) s e2 of
                  None \<Rightarrow> None
                | Some (e3, ev3, woken) \<Rightarrow> Some (e3, ev1 @ ev2 @ ev3, woken)))"

subsection \<open>The poll loop\<close>

type_synonym peer_id = nat
type_synonym peers = "(peer_id \<times> peer_entry) list"

definition live :: "peer_entry \<Rightarrow> bool" where
  "live e = (\<not> cancelled e)"

definition next_tick_deadline :: "peers \<Rightarrow> instant option" where
  "next_tick_deadline ps =
     (let ds = List.map_filter (\<lambda>(_, e). if live e then tick_deadline e else None) ps
      in case ds of [] \<Rightarrow> None | d # rest \<Rightarrow> Some (fold min rest d))"

definition request_due :: "instant \<Rightarrow> peer_entry \<Rightarrow> peer_entry" where
  "request_due now e =
     (if live e
      then (case take_due_tick_deadline now e of
              (True, e') \<Rightarrow> snd (mark_tick_requested e') | (False, e') \<Rightarrow> e')
      else e)"

definition request_due_ticks :: "instant \<Rightarrow> peers \<Rightarrow> peers" where
  "request_due_ticks now ps = map (\<lambda>(k, e). (k, request_due now e)) ps"

text \<open>\<open>find_map\<close> over the registry: the first live entry whose request flag is set gives its
  id and loses the flag.\<close>

fun take_tick_request :: "peers \<Rightarrow> (peer_id \<times> peers) option" where
  "take_tick_request [] = None"
| "take_tick_request ((k, e) # ps) =
     (if live e \<and> fst (take_tick_request_entry e)
      then Some (k, (k, snd (take_tick_request_entry e)) # ps)
      else map_option (\<lambda>(k', ps'). (k', (k, e) # ps')) (take_tick_request ps))"

definition run_tick_peer ::
    "abr_settings \<Rightarrow> nat option \<Rightarrow> (peer_id \<Rightarrow> peer_obs) \<Rightarrow> instant \<Rightarrow> peer_id \<Rightarrow> peers
       \<Rightarrow> (peers \<times> (peer_id \<times> abr_event) list) option" where
  "run_tick_peer cfg estimate obs now k ps =
     (case map_of ps k of
        None \<Rightarrow> Some (ps, [])
      | Some e \<Rightarrow> map_option (\<lambda>(e', evs, _). (AList.update k e' ps, map (Pair k) evs))
                    (run_tick cfg estimate (obs k) now e))"

subsubsection \<open>A tick leaves the request flag and the registration alone\<close>

definition same_registration :: "peer_entry \<Rightarrow> peer_entry \<Rightarrow> bool" where
  "same_registration e e' \<longleftrightarrow> tick_requested e' = tick_requested e \<and> cancelled e' = cancelled e
     \<and> peer_alive e' = peer_alive e \<and> bus e' = bus e"

lemma same_registration_refl [simp]: "same_registration e e"
  by (simp add: same_registration_def)

lemma same_registration_trans:
  "same_registration a b \<Longrightarrow> same_registration b c \<Longrightarrow> same_registration a c"
  by (simp add: same_registration_def)

lemma register_variants_same:
  "same_registration e (fst (register_variants obs e)) \<and> pe_state (fst (register_variants obs e)) = pe_state e"
  by (simp add: register_variants_def same_registration_def)

lemma emit_throttled_same:
  "same_registration e (fst (emit_throttled cfg now view e))
     \<and> pe_state (fst (emit_throttled cfg now view e)) = pe_state e
     \<and> tick_deadline (fst (emit_throttled cfg now view e)) = tick_deadline e"
  by (auto simp: emit_throttled_def same_registration_def Let_def split: prod.splits)

lemma apply_decision_same:
  "apply_decision cfg now d s e = Some (e', evs, woken) \<Longrightarrow> same_registration e e'"
  by (cases d)
    (auto simp: apply_decision_def same_registration_def clear_tick_deadline_def
      set_tick_deadline_def split: abr_reason.splits)

text \<open>What a tick does, in one step: nothing for a dead or cancelled peer, otherwise the decision
  of \<open>evaluate\<close> on the view is applied to the peer's state.\<close>

lemma run_tick_cases:
  assumes "run_tick cfg estimate obs now e = Some (e', evs, woken)"
  obtains (gone) "cancelled e \<or> \<not> peer_alive e" "e' = e" "evs = []"
  | (stateless) "pe_state e = None" "pe_state e' = None" "same_registration e e'"
  | (decided) s view e2 evs3 where "pe_state e = Some s" "settings view = cfg"
      "variants view = obs_variants obs" "estimate_bps view = estimate"
      "same_registration e e2" "pe_state e2 = Some s"
      "apply_decision cfg now (evaluate s view now) s e2 = Some (e', evs3, woken)"
proof (cases "cancelled e \<or> \<not> peer_alive e")
  case True
  with assms show thesis
    by (intro gone) (auto simp: run_tick_def)
next
  case False
  define e1 where "e1 = fst (register_variants obs e)"
  define view where "view = \<lparr>settings = cfg, variants = obs_variants obs,
      buffer_ahead = map_option (\<lambda>(head, reader). head - reader) (obs_progress obs),
      estimate_bps = estimate, bytes_downloaded = unat (pe_bytes_downloaded e)\<rparr>"
  define e2 where "e2 = fst (emit_throttled cfg now view e1)"
  have same: "same_registration e e2" "pe_state e2 = pe_state e"
    using register_variants_same [of e obs] emit_throttled_same [of e1 cfg now view]
    by (auto simp: e1_def e2_def intro: same_registration_trans)
  show thesis
  proof (cases "pe_state e")
    case None
    with assms False same show thesis
      by (intro stateless)
        (auto simp: run_tick_def e1_def [symmetric] e2_def [symmetric] view_def [symmetric]
          case_prod_beta Let_def)
  next
    case (Some s)
    with assms False same have
      "\<exists>evs3. apply_decision cfg now (evaluate s view now) s e2 = Some (e', evs3, woken)"
      by (auto simp: run_tick_def e1_def [symmetric] e2_def [symmetric] view_def [symmetric]
          case_prod_beta Let_def split: option.splits)
    then obtain evs3 where
      "apply_decision cfg now (evaluate s view now) s e2 = Some (e', evs3, woken)" by blast
    with Some same show thesis
      by (intro decided [of s view e2 evs3]) (simp_all add: view_def)
  qed
qed

lemma run_tick_same:
  "run_tick cfg estimate obs now e = Some (e', evs, woken) \<Longrightarrow> same_registration e e'"
  by (erule run_tick_cases) (auto dest: apply_decision_same intro: same_registration_trans)

definition requested :: "peer_entry \<Rightarrow> bool" where
  "requested e = (live e \<and> tick_requested e)"

definition n_requested :: "peers \<Rightarrow> nat" where
  "n_requested ps = length (filter (\<lambda>(_, e). requested e) ps)"

lemma same_registration_requested: "same_registration e e' \<Longrightarrow> requested e' = requested e"
  by (simp add: same_registration_def requested_def live_def)

lemma n_requested_update:
  "map_of ps k = Some e \<Longrightarrow> same_registration e e' \<Longrightarrow>
     n_requested (AList.update k e' ps) = n_requested ps"
  by (induction ps) (auto simp: n_requested_def same_registration_requested split: if_splits)

lemma take_tick_request_n:
  "take_tick_request ps = Some (k, ps') \<Longrightarrow> Suc (n_requested ps') = n_requested ps"
  by (induction ps arbitrary: k ps' rule: take_tick_request.induct)
    (auto simp: n_requested_def requested_def take_tick_request_entry_def live_def split: if_splits)

lemma run_tick_peer_n:
  "run_tick_peer cfg estimate obs now k ps = Some (ps', evs) \<Longrightarrow> n_requested ps' = n_requested ps"
  by (auto simp: run_tick_peer_def n_requested_update split: option.splits dest!: run_tick_same)

text \<open>The loop of \<open>poll_ticks\<close>; it also returns the ids it ticked, in order.\<close>

function poll_loop ::
    "abr_settings \<Rightarrow> nat option \<Rightarrow> (peer_id \<Rightarrow> peer_obs) \<Rightarrow> instant \<Rightarrow> peers
       \<Rightarrow> (peers \<times> (peer_id \<times> abr_event) list \<times> peer_id list) option" where
  "poll_loop cfg estimate obs now ps =
     (case take_tick_request ps of
        None \<Rightarrow> Some (ps, [], [])
      | Some (k, ps1) \<Rightarrow>
          (case run_tick_peer cfg estimate obs now k ps1 of
             None \<Rightarrow> None
           | Some (ps2, evs) \<Rightarrow>
               map_option (\<lambda>(ps3, evs', ks). (ps3, evs @ evs', k # ks))
                 (poll_loop cfg estimate obs now ps2)))"
  by pat_completeness auto
termination
  by (relation "measure (\<lambda>(cfg, estimate, obs, now, ps). n_requested ps)")
    (auto dest!: take_tick_request_n run_tick_peer_n)

declare poll_loop.simps [simp del]

definition poll_ticks ::
    "abr_settings \<Rightarrow> nat option \<Rightarrow> (peer_id \<Rightarrow> peer_obs) \<Rightarrow> instant \<Rightarrow> bool \<Rightarrow> peers
       \<Rightarrow> (peers \<times> (peer_id \<times> abr_event) list \<times> bool) option" where
  "poll_ticks cfg estimate obs now deadline_elapsed ps =
     map_option (\<lambda>(ps', evs, ks). (ps', evs, ks \<noteq> []))
       (poll_loop cfg estimate obs now
          (if deadline_elapsed then request_due_ticks now ps else ps))"

end
