(* ===== verification/Abr_Session.thy ===== *)
theory Abr_Session
  imports Abr_Controller
begin

text \<open>
  The life of one registered peer as step relations.  A tick takes no lock between the decision it
  forms and the request it makes of it (\<open>controller/tick.rs\<close>), so in \<open>peer_step\<close> a tick
  is no step of its own: a decision lands on whatever state the peer, the listener and other ticks
  have made by then.  The pending slot is tied to the ticket counter and to the mode all the same.
  The anti-oscillation interval is only kept by ticks nothing comes between (\<open>solo_step\<close>).
\<close>

subsection \<open>Steps\<close>

inductive state_op :: "instant \<Rightarrow> abr_state \<Rightarrow> abr_state \<Rightarrow> bool" for t :: instant where
  op_set_mode: "mode_in_range m \<Longrightarrow> set_mode m s = Some s' \<Longrightarrow> state_op t s s'"
| op_abort: "abort_pending k s = (b, s') \<Longrightarrow> state_op t s s'"
| op_commit: "commit_pending c t s = (b, s') \<Longrightarrow> state_op t s s'"
| op_lock: "state_op t s (lock s)"
| op_unlock: "state_op t s (unlock s)"
| op_mark_escape: "state_op t s (mark_escape s)"
| op_clear_escape: "state_op t s (clear_escape s)"
| op_cap: "state_op t s (set_max_bandwidth_bps cap s)"

text \<open>The decision that lands is arbitrary: the tick formed it on an earlier state, from atomics it
  read one after the other while other operations ran.  What else happens to the registration entry
  (request flags, deadlines, throttled events) leaves the state alone.\<close>

inductive peer_step ::
    "abr_settings \<Rightarrow> peer_entry \<times> instant \<Rightarrow> peer_entry \<times> instant \<Rightarrow> bool"
  for cfg :: abr_settings where
  peer_op: "pe_state e = Some s \<Longrightarrow> t \<le> t' \<Longrightarrow> state_op t' s s' \<Longrightarrow>
     peer_step cfg (e, t) (e\<lparr>pe_state := Some s'\<rparr>, t')"
| peer_other: "t \<le> t' \<Longrightarrow> pe_state e' = pe_state e \<Longrightarrow> peer_step cfg (e, t) (e', t')"
| peer_lands: "pe_state e = Some s \<Longrightarrow> t \<le> t' \<Longrightarrow>
     apply_decision cfg now decision s e = Some (e', evs, woken) \<Longrightarrow> peer_step cfg (e, t) (e', t')"

inductive solo_step ::
    "abr_settings \<Rightarrow> peer_entry \<times> instant \<Rightarrow> peer_entry \<times> instant \<Rightarrow> bool"
  for cfg :: abr_settings where
  solo_op: "pe_state e = Some s \<Longrightarrow> t \<le> t' \<Longrightarrow> state_op t' s s' \<Longrightarrow>
     solo_step cfg (e, t) (e\<lparr>pe_state := Some s'\<rparr>, t')"
| solo_tick: "t \<le> t' \<Longrightarrow> run_tick cfg estimate obs t' e = Some (e', evs, woken) \<Longrightarrow>
     solo_step cfg (e, t) (e', t')"

abbreviation peer_steps ::
    "abr_settings \<Rightarrow> peer_entry \<times> instant \<Rightarrow> peer_entry \<times> instant \<Rightarrow> bool" where
  "peer_steps cfg \<equiv> (peer_step cfg)\<^sup>*\<^sup>*"

abbreviation solo_steps ::
    "abr_settings \<Rightarrow> peer_entry \<times> instant \<Rightarrow> peer_entry \<times> instant \<Rightarrow> bool" where
  "solo_steps cfg \<equiv> (solo_step cfg)\<^sup>*\<^sup>*"

inductive_cases state_opE: "state_op t s s'"
inductive_cases peer_stepE [consumes 1, case_names op other lands]: "peer_step cfg (e, t) (e', t')"
inductive_cases solo_stepE [consumes 1, case_names op tick]: "solo_step cfg (e, t) (e', t')"

subsection \<open>What a tick does to the state\<close>

lemma run_tick_state:
  assumes "run_tick cfg estimate obs t e = Some (e', evs, woken)" "pe_state e = Some s"
  obtains (same) "pe_state e' = Some s"
  | (retract) "pe_state e' = Some (retract_throughput_pending (current_variant s) s)"
  | (request) s' view where "settings view = cfg" "changed (evaluate s view t)"
      "request_target (decision_target (evaluate s view t)) (decision_reason (evaluate s view t)) s = Some s'"
      "pe_state e' = Some s'"
  using assms(1)
proof (cases rule: run_tick_cases)
  case gone
  then show ?thesis using assms(2) same by simp
next
  case stateless
  then show ?thesis using assms(2) by simp
next
  case (decided s0 view e2 evs3)
  then have s: "s0 = s" using assms(2) by simp
  have stay: "evaluate s view t = Stay c r \<Longrightarrow> c = current_variant s" for c r
    by (auto simp: evaluate_def decide_def decide_auto_def manual_decision_def up_switch_def
        down_switch_def Let_def split: if_splits abr_mode.splits bool.splits option.splits)
  show ?thesis
  proof (cases "evaluate s view t")
    case (Stay c r)
    with decided s stay [OF Stay] show ?thesis
      by (cases r) (auto simp: apply_decision_def clear_tick_deadline_def set_tick_deadline_def
          intro: same retract)
  qed (use decided s in \<open>auto simp: apply_decision_def changed_def intro!: request [of view]\<close>)
qed

subsection \<open>The invariant\<close>

definition slot_inv :: "abr_state \<Rightarrow> bool" where
  "slot_inv s \<longleftrightarrow>
     (\<forall>p. pending (slot s) = Some p \<longrightarrow> pa_ticket p < next_ticket (slot s)
        \<and> (\<forall>idx. mode s = Manual idx \<longrightarrow> pa_target p = idx))"

text \<open>A switch for quality is one the interval may hold back.\<close>

definition quality :: "abr_reason \<Rightarrow> bool" where
  "quality r \<longleftrightarrow> \<not> is_rescue r \<and> r \<noteq> ManualOverride"

definition interval_inv :: "abr_settings \<Rightarrow> abr_state \<Rightarrow> instant \<Rightarrow> bool" where
  "interval_inv cfg s t \<longleftrightarrow>
     (\<forall>p. pending (slot s) = Some p \<and> quality (pa_reason p) \<longrightarrow>
        can_switch_now s t (min_switch_interval cfg))
     \<and> last_switch_at_nanos s \<le> instant_to_nanos s t"

definition session_inv :: "abr_settings \<Rightarrow> abr_state \<Rightarrow> instant \<Rightarrow> bool" where
  "session_inv cfg s t \<longleftrightarrow> slot_inv s \<and> interval_inv cfg s t"

lemma can_switch_now_iff:
  "can_switch_now s t m \<longleftrightarrow> m \<le> t - (reference_instant s + last_switch_at_nanos s)"
  by (simp add: can_switch_now_def switch_interval_remaining_def Let_def)

lemma can_switch_now_mono: "can_switch_now s t m \<Longrightarrow> t \<le> t' \<Longrightarrow> can_switch_now s t' m"
  by (simp add: can_switch_now_iff)

lemma instant_to_nanos_mono: "t \<le> t' \<Longrightarrow> instant_to_nanos s t \<le> instant_to_nanos s t'"
  by (auto simp: instant_to_nanos_def)

lemma session_inv_later: "session_inv cfg s t \<Longrightarrow> t \<le> t' \<Longrightarrow> session_inv cfg s t'"
  unfolding session_inv_def interval_inv_def
  using can_switch_now_mono instant_to_nanos_mono order_trans by blast

lemma session_inv_new:
  "session_inv cfg (abr_new_at m reference) t"
  by (simp add: session_inv_def slot_inv_def interval_inv_def abr_new_at_def
      pending_state_default_def instant_to_nanos_def)

text \<open>Dropping the pending switch, or changing fields the invariant does not read, keeps it.\<close>

lemma session_inv_drop:
  "session_inv cfg s t \<Longrightarrow> pending (slot s') = None \<Longrightarrow>
     reference_instant s' = reference_instant s \<Longrightarrow> last_switch_at_nanos s' = last_switch_at_nanos s \<Longrightarrow>
     session_inv cfg s' t"
  by (simp add: session_inv_def slot_inv_def interval_inv_def instant_to_nanos_def)

lemma session_inv_cong:
  "session_inv cfg s t \<Longrightarrow> slot s' = slot s \<Longrightarrow> mode_bits s' = mode_bits s \<Longrightarrow>
     reference_instant s' = reference_instant s \<Longrightarrow> last_switch_at_nanos s' = last_switch_at_nanos s \<Longrightarrow>
     session_inv cfg s' t"
  by (simp add: session_inv_def slot_inv_def interval_inv_def instant_to_nanos_def mode_def
      can_switch_now_iff)

lemma mint_ticket_Some:
  "mint_ticket p = Some (k, p') \<longleftrightarrow>
     k = next_ticket p \<and> p' = p\<lparr>next_ticket := next_ticket p + 1\<rparr> \<and> next_ticket p < u64_max"
  by (auto simp: mint_ticket_def)

lemma set_mode_bits: "set_mode m s = Some s' \<Longrightarrow> mode_bits s' = mode_to_usize m"
  by (auto simp: set_mode_def Let_def mint_ticket_Some
      split: option.splits if_splits abr_mode.splits)

lemma set_mode_mode: "mode_in_range m \<Longrightarrow> set_mode m s = Some s' \<Longrightarrow> mode s' = m"
  by (simp add: mode_def set_mode_bits mode_roundtrip)

lemma set_mode_inv:
  assumes inv: "session_inv cfg s t" and m: "mode_in_range m" and s': "set_mode m s = Some s'"
  shows "session_inv cfg s' t"
proof (cases "pending (slot s')")
  case None
  with inv s' show ?thesis
    by (elim session_inv_drop)
      (auto simp: set_mode_def Let_def split: option.splits if_splits abr_mode.splits)
next
  case (Some p)
  with s' obtain target q where q: "m = Manual target" "pending (slot s) = Some q" "pa_target q = target"
    by (auto simp: set_mode_def Let_def split: option.splits if_splits abr_mode.splits)
  with Some s' have p: "pa_target p = target" "pa_reason p = ManualOverride"
    "pa_ticket p < next_ticket (slot s')" "last_switch_at_nanos s' = last_switch_at_nanos s"
    "reference_instant s' = reference_instant s"
    using inv by (auto simp: set_mode_def Let_def mint_ticket_Some session_inv_def slot_inv_def
        split: if_splits option.splits)
  with Some set_mode_mode [OF m s'] q inv show ?thesis
    by (auto simp: session_inv_def slot_inv_def interval_inv_def quality_def instant_to_nanos_def)
qed

lemma commit_pending_inv:
  assumes inv: "session_inv cfg s t" and c: "commit_pending claim t s = (b, s')"
  shows "session_inv cfg s' t"
proof (cases b)
  case True
  with c have "commit_pending claim t s = (True, s')" by simp
  then show ?thesis
    by (elim commit_pending_True)
      (simp add: session_inv_def slot_inv_def interval_inv_def record_switch_def clear_escape_def
        instant_to_nanos_def)
next
  case False
  with c have "s' = s"
    by (auto simp: commit_pending_def Let_def split: if_splits option.splits)
  with inv show ?thesis by simp
qed

lemma state_op_inv:
  assumes op: "state_op t s s'" and inv: "session_inv cfg s t"
  shows "session_inv cfg s' t"
  using op
proof cases
  case (op_set_mode m)
  with inv show ?thesis by (blast intro: set_mode_inv)
next
  case (op_commit c b)
  with inv show ?thesis by (blast intro: commit_pending_inv)
next
  case (op_abort k b)
  with inv show ?thesis
    by (auto simp: abort_pending_def split: if_splits elim: session_inv_drop)
next
  case op_lock
  show ?thesis unfolding op_lock lock_def by (rule session_inv_cong [OF inv]) simp_all
next
  case op_unlock
  show ?thesis unfolding op_unlock unlock_def by (rule session_inv_cong [OF inv]) simp_all
next
  case op_mark_escape
  show ?thesis unfolding op_mark_escape mark_escape_def by (rule session_inv_cong [OF inv]) simp_all
next
  case op_clear_escape
  show ?thesis unfolding op_clear_escape clear_escape_def by (rule session_inv_cong [OF inv]) simp_all
next
  case (op_cap cap)
  show ?thesis unfolding op_cap set_max_bandwidth_bps_def by (rule session_inv_cong [OF inv]) simp_all
qed

text \<open>The slot alone, which decisions that land late respect as well.\<close>

lemma slot_inv_drop: "pending (slot s') = None \<Longrightarrow> slot_inv s'"
  by (simp add: slot_inv_def)

lemma slot_inv_cong: "slot_inv s \<Longrightarrow> slot s' = slot s \<Longrightarrow> mode_bits s' = mode_bits s \<Longrightarrow> slot_inv s'"
  by (simp add: slot_inv_def mode_def)

lemma slot_inv_new: "slot_inv (abr_new_at m reference)"
  by (simp add: slot_inv_def abr_new_at_def pending_state_default_def)

lemma set_mode_slot:
  assumes "slot_inv s" "mode_in_range m" "set_mode m s = Some s'"
  shows "slot_inv s'"
proof (cases "pending (slot s')")
  case None
  then show ?thesis by (rule slot_inv_drop)
next
  case (Some p)
  with assms(3) have "m = Manual (pa_target p)"
    by (auto simp: set_mode_def Let_def split: option.splits if_splits abr_mode.splits)
  moreover have "pa_ticket p < next_ticket (slot s')"
    using Some assms(1,3)
    by (auto simp: set_mode_def Let_def mint_ticket_Some slot_inv_def split: option.splits if_splits abr_mode.splits)
  ultimately show ?thesis
    using Some set_mode_mode [OF assms(2,3)] by (simp add: slot_inv_def)
qed

lemma commit_pending_slot: "slot_inv s \<Longrightarrow> commit_pending claim t s = (b, s') \<Longrightarrow> slot_inv s'"
  by (auto simp: commit_pending_def record_switch_def clear_escape_def Let_def slot_inv_def split: if_splits option.splits)

lemma state_op_slot: "state_op t s s' \<Longrightarrow> slot_inv s \<Longrightarrow> slot_inv s'"
  by (induction rule: state_op.induct)
    (auto simp: abort_pending_def lock_def unlock_def mark_escape_def clear_escape_def set_max_bandwidth_bps_def
      split: if_splits intro: set_mode_slot commit_pending_slot slot_inv_drop elim: slot_inv_cong)

lemma request_target_slot:
  assumes "slot_inv s" "request_target target reason s = Some s'"
  shows "slot_inv s'"
proof (cases "s' = s")
  case False
  with assms(2) have "s' = s\<lparr>slot := (slot s)\<lparr>next_ticket := next_ticket (slot s) + 1,
      pending := Some \<lparr>pa_reason = reason, pa_ticket = next_ticket (slot s), pa_target = target\<rparr>\<rparr>\<rparr>"
    and "\<forall>idx. mode s = Manual idx \<longrightarrow> idx = target"
    by (auto simp: request_target_def mint_ticket_Some split: if_splits option.splits abr_mode.splits)
  then show ?thesis
    by (simp add: slot_inv_def mode_def)
qed (use assms(1) in simp)

lemma request_target_inv:
  assumes inv: "session_inv cfg s t" and req: "request_target target reason s = Some s'"
    and can: "quality reason \<Longrightarrow> can_switch_now s t (min_switch_interval cfg)"
  shows "session_inv cfg s' t"
proof (cases "s' = s")
  case True
  with inv show ?thesis by simp
next
  case False
  with req have s': "s' = s\<lparr>slot := (slot s)\<lparr>next_ticket := next_ticket (slot s) + 1,
      pending := Some \<lparr>pa_reason = reason, pa_ticket = next_ticket (slot s), pa_target = target\<rparr>\<rparr>\<rparr>"
    and pin: "\<forall>idx. mode s = Manual idx \<longrightarrow> idx = target"
    by (auto simp: request_target_def mint_ticket_Some split: if_splits option.splits abr_mode.splits)
  have m: "mode s' = mode s" and r: "reference_instant s' = reference_instant s"
    and l: "last_switch_at_nanos s' = last_switch_at_nanos s"
    by (simp_all add: s' mode_def)
  have p: "pending (slot s') = Some \<lparr>pa_reason = reason, pa_ticket = next_ticket (slot s), pa_target = target\<rparr>"
    and n: "next_ticket (slot s') = next_ticket (slot s) + 1"
    by (simp_all add: s')
  have "slot_inv s'"
    using pin by (simp add: slot_inv_def m p n)
  moreover have "interval_inv cfg s' t"
    using inv can by (simp add: interval_inv_def session_inv_def p r l can_switch_now_iff instant_to_nanos_def)
  ultimately show ?thesis
    by (simp add: session_inv_def)
qed

lemma apply_decision_state:
  assumes "apply_decision cfg now d s e = Some (e', evs, woken)" "pe_state e = Some s"
  obtains (same) "pe_state e' = Some s"
  | (retract) current where "pe_state e' = Some (retract_throughput_pending current s)"
  | (request) target reason s' where "request_target target reason s = Some s'" "pe_state e' = Some s'"
  using assms
  by (cases d) (auto simp: apply_decision_def clear_tick_deadline_def set_tick_deadline_def
      split: abr_reason.splits)

lemma apply_decision_slot:
  assumes "slot_inv s" "apply_decision cfg now d s e = Some (e', evs, woken)" "pe_state e = Some s"
  shows "\<exists>s'. pe_state e' = Some s' \<and> slot_inv s'"
  using assms(2,3)
proof (cases rule: apply_decision_state)
  case (retract current)
  with assms(1) show ?thesis
    by (auto simp: retract_throughput_pending_def slot_inv_drop split: option.splits)
qed (use assms(1) in \<open>auto intro: request_target_slot\<close>)

lemma peer_step_slot:
  assumes "peer_step cfg (e, t) (e', t')" "pe_state e = Some s" "slot_inv s"
  shows "\<exists>s'. pe_state e' = Some s' \<and> slot_inv s'"
  using assms(1)
proof (cases rule: peer_stepE)
  case (op s0 s')
  with assms show ?thesis by (auto intro: state_op_slot)
next
  case other
  with assms show ?thesis by simp
next
  case (lands s0 now d evs woken)
  with assms show ?thesis
    using apply_decision_slot [OF assms(3)] by auto
qed

lemma peer_steps_slot:
  assumes "peer_steps cfg (e, t) (e', t')" "pe_state e = Some s" "slot_inv s"
  shows "\<exists>s'. pe_state e' = Some s' \<and> slot_inv s'"
  using assms(1)
proof (induction "(e', t')" arbitrary: e' t' rule: rtranclp_induct)
  case (step y)
  then show ?case
    using peer_step_slot by (cases y) blast
qed (use assms in auto)

text \<open>A tick that nothing comes between is one of the interleavings.\<close>

lemma run_tick_lands:
  assumes "run_tick cfg estimate obs t' e = Some (e', evs, woken)" "t \<le> t'"
  shows "peer_steps cfg (e, t) (e', t')"
  using assms(1)
proof (cases rule: run_tick_cases)
  case (decided s view e2 evs3)
  have "peer_step cfg (e, t) (e2, t')"
    using assms(2) decided by (simp add: peer_other)
  moreover have "peer_step cfg (e2, t') (e', t')"
    using decided by (blast intro: peer_lands)
  ultimately show ?thesis by auto
qed (use assms(2) in \<open>auto intro!: r_into_rtranclp peer_other\<close>)

lemma solo_steps_peer: "solo_steps cfg x y \<Longrightarrow> peer_steps cfg x y"
proof (induction rule: rtranclp_induct)
  case (step y z)
  from step(2) have "peer_steps cfg y z"
    by (cases rule: solo_step.cases) (auto intro: peer_op run_tick_lands)
  with step(3) show ?case
    by (rule rtranclp_trans)
qed simp

lemma evaluate_quality:
  assumes "changed (evaluate s view t)" "quality (decision_reason (evaluate s view t))"
  shows "can_switch_now s t (min_switch_interval (settings view))"
proof -
  have "\<forall>idx. mode s \<noteq> Manual idx"
    using assms switch_respects_cap [OF assms(1)] by (auto simp: quality_def split: abr_mode.splits)
  then show ?thesis
    using evaluate_changed [OF assms(1)] assms(2) by (simp add: quality_def)
qed

lemma solo_step_inv:
  assumes "solo_step cfg (e, t) (e', t')" "pe_state e = Some s" "session_inv cfg s t"
  shows "\<exists>s'. pe_state e' = Some s' \<and> session_inv cfg s' t' \<and> t \<le> t'"
  using assms(1)
proof (cases rule: solo_stepE)
  case (op s0 s')
  with assms show ?thesis
    by (auto intro: state_op_inv session_inv_later)
next
  case (tick estimate obs evs woken)
  have inv: "session_inv cfg s t'"
    using assms(3) tick(1) by (rule session_inv_later)
  from tick(2) assms(2) show ?thesis
  proof (cases rule: run_tick_state)
    case retract
    with inv tick show ?thesis
      by (auto simp: retract_throughput_pending_def split: option.splits elim: session_inv_drop)
  next
    case (request s' view)
    with inv tick evaluate_quality show ?thesis
      by (auto intro: request_target_inv)
  qed (use inv tick in auto)
qed

lemma solo_steps_inv:
  assumes "solo_steps cfg (e, t) (e', t')" "pe_state e = Some s" "session_inv cfg s t"
  shows "\<exists>s'. pe_state e' = Some s' \<and> session_inv cfg s' t' \<and> t \<le> t'"
  using assms(1)
proof (induction "(e', t')" arbitrary: e' t' rule: rtranclp_induct)
  case base
  with assms show ?case by auto
next
  case (step y)
  obtain e1 t1 where y: "y = (e1, t1)" by fastforce
  with step obtain s1 where "pe_state e1 = Some s1" "session_inv cfg s1 t1" "t \<le> t1"
    by blast
  with step y show ?case
    using solo_step_inv by (meson order_trans)
qed

subsection \<open>Tickets name one intent\<close>

text \<open>A pending intent below an earlier ticket counter is the very intent that was pending then.\<close>

definition ticket_frame :: "abr_state \<Rightarrow> abr_state \<Rightarrow> bool" where
  "ticket_frame s s' \<longleftrightarrow> next_ticket (slot s) \<le> next_ticket (slot s')
     \<and> (\<forall>p. pending (slot s') = Some p \<longrightarrow> pa_ticket p < next_ticket (slot s) \<longrightarrow>
          pending (slot s) = Some p)"

lemma ticket_frame_refl [simp]: "ticket_frame s s"
  by (simp add: ticket_frame_def)

lemma ticket_frame_trans: "ticket_frame a b \<Longrightarrow> ticket_frame b c \<Longrightarrow> ticket_frame a c"
  unfolding ticket_frame_def by (metis order.strict_trans2 order_trans)

lemma ticket_frame_drop:
  "pending (slot s') = None \<Longrightarrow> next_ticket (slot s') = next_ticket (slot s) \<Longrightarrow> ticket_frame s s'"
  by (simp add: ticket_frame_def)

lemma ticket_frame_slot: "slot s' = slot s \<Longrightarrow> ticket_frame s s'"
  by (simp add: ticket_frame_def)

lemma ticket_frame_request: "request_target target reason s = Some s' \<Longrightarrow> ticket_frame s s'"
  by (auto simp: request_target_def mint_ticket_Some ticket_frame_def
      split: if_splits option.splits)

lemma ticket_frame_set_mode: "set_mode m s = Some s' \<Longrightarrow> ticket_frame s s'"
  by (auto simp: set_mode_def Let_def mint_ticket_Some ticket_frame_def
      split: if_splits option.splits abr_mode.splits)

lemma ticket_frame_op:
  assumes "state_op t s s'"
  shows "ticket_frame s s'"
  using assms
proof cases
  case (op_commit c b)
  show ?thesis
  proof (cases b)
    case True
    with op_commit have "commit_pending c t s = (True, s')" by simp
    then show ?thesis
      by (intro ticket_frame_drop commit_pending_fields)
  next
    case False
    with op_commit have "s' = s"
      by (auto simp: commit_pending_def Let_def split: if_splits option.splits)
    then show ?thesis by simp
  qed
qed (auto simp: abort_pending_def lock_def unlock_def mark_escape_def clear_escape_def
    set_max_bandwidth_bps_def split: if_splits intro: ticket_frame_set_mode ticket_frame_drop
    ticket_frame_slot)

lemma ticket_frame_step:
  assumes "peer_step cfg (e, t) (e', t')" "pe_state e = Some s"
  shows "\<exists>s'. pe_state e' = Some s' \<and> ticket_frame s s'"
  using assms(1)
proof (cases rule: peer_stepE)
  case (op s0 s')
  with assms show ?thesis by (auto intro: ticket_frame_op)
next
  case other
  with assms show ?thesis by auto
next
  case (lands s0 now d evs woken)
  then have "apply_decision cfg now d s e = Some (e', evs, woken)"
    using assms(2) by simp
  then show ?thesis
    using assms(2)
  proof (cases rule: apply_decision_state)
    case retract
    then show ?thesis
      by (auto simp: retract_throughput_pending_def ticket_frame_drop split: option.splits)
  qed (auto intro: ticket_frame_request)
qed

lemma ticket_frame_steps:
  assumes "peer_steps cfg (e, t) (e', t')" "pe_state e = Some s"
  shows "\<exists>s'. pe_state e' = Some s' \<and> ticket_frame s s'"
  using assms(1)
proof (induction "(e', t')" arbitrary: e' t' rule: rtranclp_induct)
  case base
  with assms show ?case by auto
next
  case (step y)
  obtain e1 t1 where "y = (e1, t1)" by fastforce
  with step show ?case
    using ticket_frame_step ticket_frame_trans by (metis surj_pair)
qed

lemma pending_claim_Some:
  assumes "pending_claim current s = Ready c \<or> pending_claim current s = ClaimLocked c"
  obtains p where "pending (slot s) = Some p" "pa_target p \<noteq> current" "pd_ticket c = pa_ticket p"
    "pd_decision c = pending_decision current (pa_target p) (pa_reason p)"
  using assms by (auto simp: pending_claim_def Let_def split: option.splits if_splits)

lemma pending_decision_target [simp]: "decision_target (pending_decision a b r) = b"
  by (cases r) auto

lemma pending_decision_reason [simp]: "decision_reason (pending_decision a b r) = r"
  by (cases r) auto

text \<open>C32: a claim commits the intent it was taken from or nothing. Take a claim on the pending
  switch, let mode changes, locks, aborts, commits and decisions of ticks that land at any time happen,
  and commit the claim: if the commit succeeds, the slot still held the very intent that was claimed, the audible
  variant becomes its target, the slot is empty and the escape flag is down; if it fails the
  state is unchanged.\<close>

theorem claim_commits_its_intent:
  assumes "slot_inv s" and "pe_state e = Some s"
    and claim: "pending_claim current s = Ready c \<or> pending_claim current s = ClaimLocked c"
    and steps: "peer_steps cfg (e, t) (e', t')" and "pe_state e' = Some s'"
    and commit: "commit_pending c now s' = (b, s'')"
  shows "if b then pending (slot s') = pending (slot s) \<and> \<not> is_locked s'
           \<and> Some (current_variant s'') = pending_target s
           \<and> pending_target s'' = None \<and> \<not> is_escaping s''
         else s'' = s'"
proof (cases b)
  case False
  with commit have "s'' = s'"
    by (auto simp: commit_pending_def Let_def split: if_splits option.splits)
  with False show ?thesis by simp
next
  case True
  from claim obtain p where p: "pending (slot s) = Some p" "pd_ticket c = pa_ticket p"
      "pd_decision c = pending_decision current (pa_target p) (pa_reason p)"
    by (rule pending_claim_Some)
  have c: "commit_pending c now s' = (True, s'')"
    using commit True by simp
  obtain q where q: "pending (slot s') = Some q" "pa_ticket q = pd_ticket c" "\<not> is_locked s'"
    using c by (rule commit_pending_True)
  have "pa_ticket p < next_ticket (slot s)"
    using assms(1) p by (simp add: slot_inv_def)
  then have "pending (slot s) = Some q"
    using ticket_frame_steps [OF steps assms(2)] assms(5) q p by (auto simp: ticket_frame_def)
  with p q commit_pending_fields [OF c] True show ?thesis
    by (simp add: pending_target_def)
qed

text \<open>C33: in manual mode the pin holds: whatever happened before, a pending switch of a peer
  pinned to a variant targets that variant, so nothing else can be committed while the pin lasts.  A
  tick that formed its decision before the listener pinned the variant, for whatever target, and makes
  its request after, does not break the pin.\<close>

theorem manual_pin_holds:
  assumes "mode_in_range m" and "pe_state e = Some (abr_new_at m reference)"
    and "peer_steps cfg (e, t) (e', t')" and "pe_state e' = Some s'" and "mode s' = Manual idx"
  shows "pending_target s' \<in> {None, Some idx}
    \<and> (\<forall>c now s''. commit_pending c now s' = (True, s'') \<longrightarrow> current_variant s'' = idx)"
proof -
  have inv: "slot_inv s'"
    using peer_steps_slot [OF assms(3,2) slot_inv_new] assms(4) by auto
  then have pin: "pending (slot s') = Some p \<Longrightarrow> pa_target p = idx" for p
    using assms(5) by (simp add: slot_inv_def)
  then have "pending_target s' \<in> {None, Some idx}"
    by (cases "pending (slot s')") (simp_all add: pending_target_def)
  moreover have "current_variant s'' = idx" if c: "commit_pending c now s' = (True, s'')" for c now s''
    using commit_pending_fields(1) [OF c] pin by (metis c commit_pending_True pending_decision_target)
  ultimately show ?thesis by blast
qed

text \<open>A listener's command survives what preceded it. When the listener pins the variant that
  is already pending for another reason, the intent is kept under a new ticket: a claim taken
  before the command can neither abort it nor commit it.\<close>

lemma pin_survives_earlier_claims:
  assumes inv: "session_inv cfg s t" and "mode_in_range (Manual idx)"
    and pend: "pending (slot s) = Some p" "pa_target p = idx" "pa_reason p \<noteq> ManualOverride"
    and set: "set_mode (Manual idx) s = Some s'"
    and old: "k < next_ticket (slot s)"
  shows "pending_target s' = Some idx \<and> abort_pending k s' = (False, s')
    \<and> (\<forall>d now. commit_pending (PendingAbrDecision k d) now s' = (False, s'))"
proof -
  have "pending (slot s') = Some (p\<lparr>pa_reason := ManualOverride, pa_ticket := next_ticket (slot s)\<rparr>)"
    using set pend by (auto simp: set_mode_def Let_def mint_ticket_Some split: option.splits)
  then show ?thesis
    using pend old by (simp add: pending_target_def abort_pending_def commit_pending_def Let_def)
qed

subsection \<open>The anti-oscillation interval\<close>

lemma state_op_last:
  assumes "state_op t s s'" "session_inv cfg s t"
  shows "last_switch_at_nanos s \<le> last_switch_at_nanos s' \<and> reference_instant s' = reference_instant s"
  using assms(1)
proof cases
  case (op_commit c b)
  show ?thesis
  proof (cases b)
    case True
    with op_commit have "commit_pending c t s = (True, s')" by simp
    then show ?thesis
      using assms(2) by (elim commit_pending_True)
        (simp add: session_inv_def interval_inv_def record_switch_def clear_escape_def instant_to_nanos_def)
  next
    case False
    with op_commit have "s' = s"
      by (auto simp: commit_pending_def Let_def split: if_splits option.splits)
    then show ?thesis by simp
  qed
next
  case (op_set_mode m)
  then show ?thesis
    by (auto simp: set_mode_def Let_def split: if_splits option.splits abr_mode.splits)
qed (auto simp: abort_pending_def lock_def unlock_def mark_escape_def clear_escape_def
    set_max_bandwidth_bps_def split: if_splits)

lemma solo_step_last:
  assumes "solo_step cfg (e, t) (e', t')" "pe_state e = Some s" "session_inv cfg s t"
  shows "\<exists>s'. pe_state e' = Some s' \<and> last_switch_at_nanos s \<le> last_switch_at_nanos s'
    \<and> reference_instant s' = reference_instant s"
  using assms(1)
proof (cases rule: solo_stepE)
  case (op s0 s')
  with assms show ?thesis
    using state_op_last session_inv_later by (metis option.inject peer_entry.select_convs(8)
        peer_entry.update_convs(8) peer_entry.surjective)
next
  case (tick estimate obs evs woken)
  from tick(2) assms(2) show ?thesis
    by (cases rule: run_tick_state)
      (auto simp: retract_throughput_pending_def request_target_def split: option.splits if_splits)
qed

lemma solo_steps_last:
  assumes "solo_steps cfg (e, t) (e', t')" "pe_state e = Some s" "session_inv cfg s t"
  shows "\<exists>s'. pe_state e' = Some s' \<and> last_switch_at_nanos s \<le> last_switch_at_nanos s'
    \<and> reference_instant s' = reference_instant s"
  using assms(1)
proof (induction "(e', t')" arbitrary: e' t' rule: rtranclp_induct)
  case base
  with assms show ?case by auto
next
  case (step y)
  obtain e1 t1 where y: "y = (e1, t1)" by fastforce
  with step obtain s1 where s1: "pe_state e1 = Some s1"
      "last_switch_at_nanos s \<le> last_switch_at_nanos s1" "reference_instant s1 = reference_instant s"
    by blast
  have "session_inv cfg s1 t1"
    using solo_steps_inv [OF step(1) [unfolded y] assms(2,3)] s1(1) by auto
  with solo_step_last [OF step(2) [unfolded y] s1(1)] s1 show ?case by fastforce
qed

text \<open>No oscillation. Two switches of one peer are committed, the second one for quality (an
  up- or down-switch that is neither a rescue nor a listener's choice): whatever ticks, mode
  changes, locks and aborts come between them, each tick undisturbed, the second commit is at least
  \<open>min_switch_interval\<close> after the first.\<close>

lemma quality_switches_spaced:
  assumes inv: "session_inv cfg s t" and "t \<le> t1"
    and range: "t1 - reference_instant s \<le> u64_max"
    and c1: "commit_pending c1 t1 s = (True, s1)"
    and steps: "solo_steps cfg (e\<lparr>pe_state := Some s1\<rparr>, t1) (e2, t2')"
    and s2: "pe_state e2 = Some s2" and "t2' \<le> t2"
    and c2: "commit_pending c2 t2 s2 = (True, s3)"
    and q: "quality (decision_reason (pd_decision c2))"
  shows "t1 + min_switch_interval cfg \<le> t2"
proof -
  have inv1: "session_inv cfg s1 t1"
    using commit_pending_inv [OF session_inv_later [OF inv \<open>t \<le> t1\<close>] c1] .
  have inv2: "session_inv cfg s2 t2" and le: "t1 \<le> t2"
    using solo_steps_inv [OF steps _ inv1] s2 \<open>t2' \<le> t2\<close> by (auto intro: session_inv_later)
  have last: "last_switch_at_nanos s1 \<le> last_switch_at_nanos s2" "reference_instant s2 = reference_instant s"
    using solo_steps_last [OF steps _ inv1] s2 commit_pending_fields(8) [OF c1] by auto
  have "last_switch_at_nanos s1 = instant_to_nanos s t1"
    using c1 by (elim commit_pending_True)
      (simp add: record_switch_def clear_escape_def instant_to_nanos_def)
  then have "t1 \<le> reference_instant s + last_switch_at_nanos s1"
    using range by (simp add: instant_to_nanos_def)
  moreover obtain p where "pending (slot s2) = Some p" "quality (pa_reason p)"
    using c2 q by (elim commit_pending_True) (metis pending_decision_reason)
  then have "can_switch_now s2 t2 (min_switch_interval cfg)"
    using inv2 by (simp add: session_inv_def interval_inv_def)
  ultimately show ?thesis
    using last le by (simp add: can_switch_now_iff)
qed

lemma decide_not_interval: "decide s view \<noteq> Stay c MinInterval"
  by (auto simp: decide_def decide_auto_def manual_decision_def up_switch_def down_switch_def Let_def
      split: if_splits abr_mode.splits bool.splits option.splits)

text \<open>The deadline a tick records is exact. When a tick holds a switch back, it leaves the
  state alone and records the first instant at which the interval no longer holds it back; every
  other tick of a live peer leaves no deadline.\<close>

lemma tick_deadline_exact:
  assumes tick: "run_tick cfg estimate obs now e = Some (e', evs, woken)"
    and "\<not> cancelled e" "peer_alive e" and s: "pe_state e = Some s"
    and inv: "session_inv cfg s now" and started: "reference_instant s < now"
    and d: "tick_deadline e' = Some d"
  shows "pe_state e' = Some s \<and> now < d
    \<and> (\<forall>t \<ge> now. can_switch_now s t (min_switch_interval cfg) \<longleftrightarrow> d \<le> t)"
  using tick
proof (cases rule: run_tick_cases)
  case (decided s0 view e2 evs3)
  have s0: "s0 = s" using decided s by simp
  obtain c where ev: "evaluate s view now = Stay c MinInterval"
    using decided d s0
    by (cases "evaluate s view now")
      (auto simp: apply_decision_def clear_tick_deadline_def split: abr_reason.splits)
  then have held: "\<not> can_switch_now s now (min_switch_interval cfg)"
    using decide_not_interval [of s view] decided(2) by (auto simp: evaluate_def Let_def split: if_splits)
  have "reference_instant s + last_switch_at_nanos s \<le> now"
    using inv started by (auto simp: session_inv_def interval_inv_def instant_to_nanos_def)
  moreover have "d = now + switch_interval_remaining s now (min_switch_interval cfg)"
      "pe_state e' = Some s"
    using decided d s0 ev by (auto simp: apply_decision_def set_tick_deadline_def)
  ultimately show ?thesis
    using held by (auto simp: can_switch_now_iff switch_interval_remaining_def Let_def split: if_splits)
qed (use assms in auto)

subsection \<open>The poll loop ticks every requested peer once\<close>

definition tick_requested_entry ::
    "abr_settings \<Rightarrow> nat option \<Rightarrow> (peer_id \<Rightarrow> peer_obs) \<Rightarrow> instant \<Rightarrow> peer_id \<times> peer_entry
       \<Rightarrow> peer_id \<times> peer_entry \<Rightarrow> bool" where
  "tick_requested_entry cfg estimate obs now = (\<lambda>(k, e) (k', e'). k' = k
     \<and> (if requested e
        then \<exists>evs woken. run_tick cfg estimate (obs k) now (e\<lparr>tick_requested := False\<rparr>)
               = Some (e', evs, woken)
        else e' = e))"

lemma tick_requested_entry_skip:
  "\<not> requested e \<Longrightarrow> tick_requested_entry cfg estimate obs now (k, e) (k, e)"
  by (simp add: tick_requested_entry_def)

lemma tick_requested_entry_run:
  "requested e \<Longrightarrow>
     run_tick cfg estimate (obs k) now (e\<lparr>tick_requested := False\<rparr>) = Some (e', evs, woken) \<Longrightarrow>
     tick_requested_entry cfg estimate obs now (k, e) (k, e')"
  by (auto simp: tick_requested_entry_def)

lemma tick_requested_entry_done:
  "tick_requested_entry cfg estimate obs now x (k, e') \<Longrightarrow> \<not> requested e'"
  by (auto simp: tick_requested_entry_def same_registration_def requested_def
      dest!: run_tick_same split: prod.splits if_splits)

lemma take_tick_request_keys:
  "take_tick_request ps = Some (j, ps') \<Longrightarrow> map fst ps' = map fst ps \<and> j \<in> set (map fst ps)"
  by (induction ps arbitrary: j ps' rule: take_tick_request.induct) (auto split: if_splits)

lemma run_tick_peer_keys:
  assumes "run_tick_peer cfg estimate obs now k ps = Some (ps', evs)"
  shows "fst ` set ps' = fst ` set ps"
proof (cases "map_of ps k")
  case None
  with assms show ?thesis by (simp add: run_tick_peer_def)
next
  case (Some e)
  then have "k \<in> fst ` set ps"
    by (metis domI dom_map_of_conv_image_fst)
  then have "fst ` set (AList.update k e' ps) = fst ` set ps" for e'
    by (simp add: AList.dom_update insert_absorb)
  moreover obtain e' where "ps' = AList.update k e' ps"
    using assms Some by (auto simp: run_tick_peer_def)
  ultimately show ?thesis by simp
qed

lemma poll_loop_skip:
  assumes "\<not> requested e" "k \<notin> fst ` set ps"
  shows "poll_loop cfg estimate obs now ((k, e) # ps) =
    map_option (\<lambda>(ps', evs, ks). ((k, e) # ps', evs, ks)) (poll_loop cfg estimate obs now ps)"
  using assms(2)
proof (induction cfg estimate obs now ps rule: poll_loop.induct)
  case (1 cfg estimate obs now ps)
  have skip: "take_tick_request ((k, e) # ps) =
      map_option (\<lambda>(k', ps'). (k', (k, e) # ps')) (take_tick_request ps)"
    using assms(1) by (auto simp: requested_def take_tick_request_entry_def)
  show ?case
  proof (cases "take_tick_request ps")
    case None
    with skip show ?thesis
      by (simp add: poll_loop.simps)
  next
    case (Some a)
    then obtain j ps1 where a: "take_tick_request ps = Some (j, ps1)" by (cases a) auto
    have keys: "fst ` set ps1 = fst ` set ps \<and> j \<in> fst ` set ps"
      using take_tick_request_keys [OF a] by (metis list.set_map)
    then have "j \<noteq> k" using "1.prems" by auto
    show ?thesis
    proof (cases "run_tick_peer cfg estimate obs now j ps1")
      case None
      with a skip \<open>j \<noteq> k\<close> show ?thesis
        by (auto simp: poll_loop.simps [of _ _ _ _ ps] poll_loop.simps [of _ _ _ _ "(k, e) # ps"]
            run_tick_peer_def split: option.splits)
    next
      case (Some b)
      then obtain ps2 evs where b: "run_tick_peer cfg estimate obs now j ps1 = Some (ps2, evs)"
        by (cases b) auto
      have "fst ` set ps2 = fst ` set ps1"
        by (rule run_tick_peer_keys [OF b])
      then have IH: "poll_loop cfg estimate obs now ((k, e) # ps2) =
          map_option (\<lambda>(ps', evs, ks). ((k, e) # ps', evs, ks)) (poll_loop cfg estimate obs now ps2)"
        using "1.IH" [OF a refl b] "1.prems" keys by simp
      have "run_tick_peer cfg estimate obs now j ((k, e) # ps1) = Some ((k, e) # ps2, evs)"
        using b \<open>j \<noteq> k\<close> by (auto simp: run_tick_peer_def split: option.splits)
      with a skip b IH show ?thesis
        by (simp add: poll_loop.simps [of _ _ _ _ ps] poll_loop.simps [of _ _ _ _ "(k, e) # ps"]
            option.map_comp comp_def case_prod_beta)
    qed
  qed
qed

lemma poll_loop_take:
  assumes "requested e"
  shows "poll_loop cfg estimate obs now ((k, e) # ps) =
    (case run_tick cfg estimate (obs k) now (e\<lparr>tick_requested := False\<rparr>) of
       None \<Rightarrow> None
     | Some (e', evs, _) \<Rightarrow> map_option (\<lambda>(ps', evs', ks). (ps', map (Pair k) evs @ evs', k # ks))
         (poll_loop cfg estimate obs now ((k, e') # ps)))"
  using assms
  by (auto simp: poll_loop.simps [of _ _ _ _ "(k, e) # ps"] requested_def take_tick_request_entry_def
      run_tick_peer_def split: option.splits)

lemma poll_loop_pass:
  assumes "poll_loop cfg estimate obs now ps = Some (ps', evs, ks)" "distinct (map fst ps)"
  shows "list_all2 (tick_requested_entry cfg estimate obs now) ps ps'
    \<and> ks = map fst (filter (\<lambda>(_, e). requested e) ps)"
  using assms
proof (induction ps arbitrary: ps' evs ks)
  case Nil
  then show ?case by (simp add: poll_loop.simps)
next
  case (Cons a ps)
  obtain k e where a: "a = (k, e)" by fastforce
  have k: "k \<notin> fst ` set ps" using Cons.prems a by simp
  show ?case
  proof (cases "requested e")
    case False
    with Cons a k show ?thesis
      by (auto simp: poll_loop_skip tick_requested_entry_skip)
  next
    case True
    with Cons.prems a obtain e' evs1 w ps1 evs2 ks1 where
      tick: "run_tick cfg estimate (obs k) now (e\<lparr>tick_requested := False\<rparr>) = Some (e', evs1, w)"
      and rest: "poll_loop cfg estimate obs now ((k, e') # ps) = Some (ps1, evs2, ks1)"
      and res: "ps' = ps1" "ks = k # ks1"
      by (auto simp: poll_loop_take split: option.splits)
    have "\<not> requested e'"
      using run_tick_same [OF tick] by (simp add: same_registration_def requested_def)
    with rest k obtain ps2 where "ps1 = (k, e') # ps2"
        "poll_loop cfg estimate obs now ps = Some (ps2, evs2, ks1)"
      by (auto simp: poll_loop_skip)
    with Cons a True tick res show ?thesis
      by (auto intro: tick_requested_entry_run)
  qed
qed

text \<open>C34: the downloader's poll runs every requested tick exactly once and nothing else: each live
  peer whose request flag is set (by a request, or because its deadline elapsed) is ticked once,
  with its flag cleared first; every other entry is untouched; no live request is left; and the
  poll reports whether anything ticked.\<close>

theorem poll_ticks_each_once:
  assumes "poll_ticks cfg estimate obs now due ps = Some (ps', evs, ticked)"
    and "distinct (map fst ps)" and "qs = (if due then request_due_ticks now ps else ps)"
  shows "list_all2 (tick_requested_entry cfg estimate obs now) qs ps'
    \<and> ticked = (\<exists>(k, e) \<in> set qs. requested e) \<and> n_requested ps' = 0"
proof -
  have fst_due: "map fst (request_due_ticks now ps) = map fst ps"
    by (simp add: request_due_ticks_def case_prod_beta comp_def)
  have dist: "distinct (map fst qs)"
    using assms(2,3) fst_due by simp
  obtain ks where loop: "poll_loop cfg estimate obs now qs = Some (ps', evs, ks)"
    and ticked: "ticked = (ks \<noteq> [])"
    using assms(1,3) by (auto simp: poll_ticks_def)
  note pass = poll_loop_pass [OF loop dist]
  have "ticked = (\<exists>(k, e) \<in> set qs. requested e)"
    using ticked pass by (auto simp: filter_empty_conv)
  moreover have "n_requested ps' = 0"
  proof -
    have "\<not> requested e" if "(k, e) \<in> set ps'" for k e
      using that pass tick_requested_entry_done
      by (metis (no_types, lifting) in_set_conv_nth list_all2_conv_all_nth)
    then show ?thesis
      by (auto simp: n_requested_def filter_empty_conv)
  qed
  ultimately show ?thesis using pass by blast
qed

subsection \<open>A worked instance of the session\<close>

definition demo_entry :: "abr_state \<Rightarrow> peer_entry" where
  "demo_entry s = peer_entry_new (Some s)"

definition demo_obs :: peer_obs where
  "demo_obs = \<lparr>obs_variants = demo_variants, obs_progress = None\<rparr>"

lemma demo_entry_state [simp]: "pe_state (demo_entry s) = Some s"
  by (simp add: demo_entry_def peer_entry_new_def)

lemma demo_entry_update [simp]: "(demo_entry s)\<lparr>pe_state := Some s'\<rparr> = demo_entry s'"
  by (simp add: demo_entry_def peer_entry_new_def)

lemma run_tick_demo:
  "run_tick demo_settings (Some n) demo_obs t (demo_entry s) =
     apply_decision demo_settings t (evaluate s (demo_view n) t) s (demo_entry s)"
  by (cases "apply_decision demo_settings t (evaluate s (demo_view n) t) s (demo_entry s)")
    (auto simp: run_tick_def register_variants_def emit_throttled_def demo_entry_def peer_entry_new_def
      demo_obs_def demo_view_def Let_def)

lemma demo_tick:
  assumes "evaluate s (demo_view n) t = DUpSwitch a b r" "request_target b r s = Some s'"
  shows "run_tick demo_settings (Some n) demo_obs t (demo_entry s) = Some (demo_entry s', [], True)"
  unfolding run_tick_demo using assms
  by (simp add: apply_decision_def clear_tick_deadline_def demo_entry_def peer_entry_new_def)

lemma demo_pending_inv: "session_inv demo_settings demo_pending 40000000000"
  by (simp add: session_inv_def slot_inv_def interval_inv_def demo_pending_def state_eval
      instant_to_nanos_def quality_def is_rescue_def u64_max_def demo_eval)

lemma demo_pending_slot: "slot_inv demo_pending"
  using demo_pending_inv by (simp add: session_inv_def)

lemma demo_mark: "solo_steps demo_settings (demo_entry s, t) (demo_entry (mark_escape s), t)"
  using solo_op [of "demo_entry s" s t t "mark_escape s" demo_settings] op_mark_escape by auto

theorem claim_commits_its_intent_witness:
  "\<exists>s''. commit_pending demo_claim 50000000000 (mark_escape demo_pending) = (True, s'')
     \<and> current_variant s'' = 1 \<and> pending_target s'' = None \<and> \<not> is_escaping s''"
proof -
  have claim: "pending_claim 0 demo_pending = Ready demo_claim \<or> pending_claim 0 demo_pending = ClaimLocked demo_claim"
    by (simp add: pending_eval state_eval)
  obtain s'' where c: "commit_pending demo_claim 50000000000 (mark_escape demo_pending) = (True, s'')"
    by (simp add: pending_eval state_eval mark_escape_def)
  show ?thesis
    using claim_commits_its_intent [OF demo_pending_slot demo_entry_state claim solo_steps_peer [OF demo_mark] demo_entry_state c] c
    by (auto simp: pending_target_def demo_pending_def)
qed

text \<open>A pin on the third variant while a tick still holds a decision for the second: it lands and is
  refused; the next one, for the third, is taken.\<close>

definition demo_pinned :: abr_state where
  "demo_pinned = (abr_new_at (Auto None) 0)\<lparr>mode_bits := 2\<rparr>"

lemma demo_pin: "set_mode (Manual 2) (abr_new_at (Auto None) 0) = Some demo_pinned"
  by (simp add: demo_pinned_def set_mode_def abr_new_at_def pending_state_default_def)

definition demo_pin_pending :: abr_state where
  "demo_pin_pending = demo_pinned\<lparr>slot :=
     \<lparr>pending = Some \<lparr>pa_reason = ManualOverride, pa_ticket = 1, pa_target = 2\<rparr>, next_ticket = 2\<rparr>\<rparr>"

lemma demo_pinned_mode: "mode demo_pinned = Manual 2" "mode demo_pin_pending = Manual 2"
  by (simp_all add: demo_pin_pending_def demo_pinned_def mode_def mode_of_usize_def usize_MAX_def
      abr_mode_auto_threshold_def)

lemma demo_pin_requests:
  "request_target 1 UpSwitch demo_pinned = Some demo_pinned"
  "request_target 2 ManualOverride demo_pinned = Some demo_pin_pending"
  unfolding request_target_def demo_pinned_mode
  by (simp_all add: demo_pin_pending_def demo_pinned_def pending_target_def abr_new_at_def
      pending_state_default_def mint_ticket_def u64_max_def)

lemma demo_lands:
  assumes "request_target b r s = Some s'"
  shows "peer_step demo_settings (demo_entry s, t) (demo_entry s', t)"
  by (rule peer_lands [of _ s _ _ _ 0 "DUpSwitch 0 b r" _ "[]" True])
    (simp_all add: assms apply_decision_def clear_tick_deadline_def demo_entry_def peer_entry_new_def)

lemma demo_pin_run:
  "peer_steps demo_settings (demo_entry (abr_new_at (Auto None) 0), 0) (demo_entry demo_pin_pending, 0)"
proof -
  have "peer_step demo_settings (demo_entry (abr_new_at (Auto None) 0), 0) (demo_entry demo_pinned, 0)"
    using peer_op [OF demo_entry_state order_refl op_set_mode [OF _ demo_pin]]
    by (simp add: mode_in_range_def abr_mode_auto_threshold_def)
  then show ?thesis
    using demo_lands [OF demo_pin_requests(1), of 0] demo_lands [OF demo_pin_requests(2), of 0]
    by (meson rtranclp.rtrancl_into_rtrancl r_into_rtranclp)
qed

theorem manual_pin_holds_witness:
  "pending_target demo_pin_pending \<in> {None, Some 2}"
proof -
  have r: "mode_in_range (Auto None)"
    by (simp add: mode_in_range_def)
  show ?thesis
    using manual_pin_holds [OF r demo_entry_state demo_pin_run demo_entry_state demo_pinned_mode(2)] by blast
qed

definition demo_committed :: abr_state where
  "demo_committed = snd (commit_pending demo_claim 40000000000 demo_pending)"

lemma demo_commit: "commit_pending demo_claim 40000000000 demo_pending = (True, demo_committed)"
  by (simp add: demo_committed_def pending_eval state_eval)

definition demo_second :: abr_state where
  "demo_second = demo_committed\<lparr>slot :=
     \<lparr>pending = Some \<lparr>pa_reason = UpSwitch, pa_ticket = 2, pa_target = 2\<rparr>, next_ticket = 3\<rparr>\<rparr>"

lemma demo_committed_eq:
  "demo_committed = \<lparr>current_variant = 1, last_switch_at_nanos = 40000000000, max_bandwidth = 0,
     flags = 0, lock_count = 0, mode_bits = usize_MAX, reference_instant = 0,
     slot = \<lparr>pending = None, next_ticket = 2\<rparr>\<rparr>"
  by (simp add: demo_committed_def pending_eval state_eval)

lemma demo_second_request: "request_target 2 UpSwitch demo_committed = Some demo_second"
  by (simp add: demo_second_def demo_committed_eq pending_eval state_eval)

lemma demo_second_tick:
  "solo_steps demo_settings (demo_entry demo_committed, 40000000000) (demo_entry demo_second, 80000000000)"
proof -
  have "evaluate demo_committed (demo_view 9000000) 80000000000 = DUpSwitch 1 2 UpSwitch"
    by (simp add: demo_committed_eq decision_eval demo_eval state_eval f64_eval)
  then show ?thesis
    using solo_tick [OF _ demo_tick [OF _ demo_second_request]] by (intro r_into_rtranclp) simp
qed

text \<open>A tick something comes between does break the interval.  It decides for the third variant while
  the switch to the second is pending; that switch is committed; the decision lands; and the second
  switch can be committed a nanosecond after the first.\<close>

lemma late_tick_defeats_the_interval:
  "evaluate demo_pending (demo_view 9000000) 40000000000 = DUpSwitch 0 2 UpSwitch
    \<and> commit_pending demo_claim 40000000000 demo_pending = (True, demo_committed)
    \<and> peer_step demo_settings (demo_entry demo_committed, 40000000000) (demo_entry demo_second, 40000000000)
    \<and> fst (commit_pending (PendingAbrDecision 2 (DUpSwitch 1 2 UpSwitch)) 40000000001 demo_second)
    \<and> quality UpSwitch \<and> 1 < min_switch_interval demo_settings"
proof (intro conjI)
  show "evaluate demo_pending (demo_view 9000000) 40000000000 = DUpSwitch 0 2 UpSwitch"
    by (simp add: demo_pending_def decision_eval demo_eval state_eval f64_eval)
  show "fst (commit_pending (PendingAbrDecision 2 (DUpSwitch 1 2 UpSwitch)) 40000000001 demo_second)"
    by (simp add: demo_second_def demo_committed_eq commit_pending_def is_locked_def)
  show "peer_step demo_settings (demo_entry demo_committed, 40000000000) (demo_entry demo_second, 40000000000)"
    by (rule demo_lands [OF demo_second_request])
qed (simp_all add: demo_commit quality_def is_rescue_def demo_eval)

lemma demo_held:
  "run_tick demo_settings (Some 9000000) demo_obs 50000000000 (demo_entry demo_committed)
     = Some (set_tick_deadline 70000000000 (demo_entry demo_committed), [], False)"
proof -
  have "evaluate demo_committed (demo_view 9000000) 50000000000 = Stay 1 MinInterval"
    by (simp add: demo_committed_eq decision_eval demo_eval state_eval f64_eval)
  then show ?thesis
    unfolding run_tick_demo
    by (simp add: apply_decision_def publish_def demo_entry_def peer_entry_new_def demo_committed_eq
        switch_interval_remaining_def demo_eval)
qed

theorem poll_ticks_each_once_witness:
  "\<exists>ps' evs. poll_ticks demo_settings (Some 9000000) (\<lambda>_. demo_obs) 50000000000 True
       [(7, (demo_entry demo_committed)\<lparr>tick_requested := True\<rparr>)] = Some (ps', evs, True)
     \<and> n_requested ps' = 0"
proof -
  let ?ps = "[(7, (demo_entry demo_committed)\<lparr>tick_requested := True\<rparr>)]"
  note held = demo_held [unfolded demo_entry_def peer_entry_new_def]
  obtain ps' evs where p: "poll_ticks demo_settings (Some 9000000) (\<lambda>_. demo_obs) 50000000000 True ?ps
      = Some (ps', evs, True)"
    by (simp add: poll_ticks_def poll_loop.simps request_due_ticks_def request_due_def
        take_due_tick_deadline_def live_def take_tick_request_entry_def run_tick_peer_def held
        demo_entry_def peer_entry_new_def set_tick_deadline_def)
  show ?thesis
    using p poll_ticks_each_once [OF p _ refl] by simp
qed

end
