(* ===== verification/Blob.thy ===== *)
theory Blob
  imports Prelude
begin

text \<open>
  Versioned little-endian framing of stored artifacts (\<open>crates/kithara-blob/src\<close>): the
  writer appends to a byte list, the reader is a cursor over one that refuses to trust a length
  prefix, and \<open>to_bytes\<close>/\<open>from_bytes\<close> frame the version header around a body whose
  encoding an artifact owner supplies.  The \<open>Blob\<close> trait is the locale \<open>blob_codec\<close>:
  its laws are what an owner promises of \<open>encode\<close> and \<open>decode\<close>; two stronger contracts
  extend it.  A reader is dropped on the first error by every caller, so an error carries no
  cursor.  Sizes are those of a 64-bit target.  Floats are carried as their bit patterns.
\<close>

type_synonym byte = u8
type_synonym f32_bits = u32
type_synonym f64_bits = u64

datatype blob_error = BVersion u32 u32 | Fingerprint | TooLarge | Corrupt

definition bytes_of :: "string \<Rightarrow> byte list" where
  "bytes_of s = map of_char s"

lemma length_bytes_of [simp]: "length (bytes_of s) = length s"
  by (simp add: bytes_of_def)

subsection \<open>Little-endian integers\<close>

fun le_bytes :: "nat \<Rightarrow> nat \<Rightarrow> byte list" where
  "le_bytes 0 n = []"
| "le_bytes (Suc k) n = of_nat (n mod 256) # le_bytes k (n div 256)"

fun le_nat :: "byte list \<Rightarrow> nat" where
  "le_nat [] = 0"
| "le_nat (b # bs) = unat b + 256 * le_nat bs"

lemma length_le_bytes [simp]: "length (le_bytes k n) = k"
  by (induction k arbitrary: n) auto

lemma unat_byte: "unat (of_nat (n mod 256) :: byte) = n mod 256"
  by (simp add: unat_of_nat take_bit_eq_mod)

lemma le_nat_le_bytes: "n < 256 ^ k \<Longrightarrow> le_nat (le_bytes k n) = n"
proof (induction k arbitrary: n)
  case (Suc k)
  then have "n div 256 < 256 ^ k"
    by (simp add: less_mult_imp_div_less mult.commute)
  with Suc show ?case by (simp add: unat_byte)
qed simp

lemma le_nat_less: "le_nat bs < 256 ^ length bs"
proof (induction bs)
  case (Cons b bs)
  have "unat b < 256"
    using unsigned_less [of b] by simp
  with Cons show ?case by simp
qed simp

lemma le_bytes_le_nat: "le_bytes (length bs) (le_nat bs) = bs"
proof (induction bs)
  case (Cons b bs)
  have "unat b < 256"
    using unsigned_less [of b] by simp
  with Cons show ?case by simp
qed simp

lemma le_bytes_le_nat': "length bs = k \<Longrightarrow> le_bytes k (le_nat bs) = bs"
  using le_bytes_le_nat by auto

lemma unat_le_nat_u32: "length bs = 4 \<Longrightarrow> unat (of_nat (le_nat bs) :: u32) = le_nat bs"
  using le_nat_less [of bs] by (simp add: unat_of_nat take_bit_nat_eq_self)

lemma unat_le_nat_u64: "length bs = 8 \<Longrightarrow> unat (of_nat (le_nat bs) :: u64) = le_nat bs"
  using le_nat_less [of bs] by (simp add: unat_of_nat take_bit_nat_eq_self)

lemma le_nat_u32: "le_nat (le_bytes 4 (unat (w :: u32))) = unat w"
  using unsigned_less [of w] by (intro le_nat_le_bytes) simp

lemma le_nat_u64: "le_nat (le_bytes 8 (unat (w :: u64))) = unat w"
  using unsigned_less [of w] by (intro le_nat_le_bytes) simp

subsection \<open>Big-endian integers\<close>

definition be_bytes :: "nat \<Rightarrow> nat \<Rightarrow> byte list" where
  "be_bytes k n = rev (le_bytes k n)"

definition be_nat :: "byte list \<Rightarrow> nat" where
  "be_nat bs = le_nat (rev bs)"

lemma length_be_bytes [simp]: "length (be_bytes k n) = k"
  by (simp add: be_bytes_def)

lemma be_nat_less: "be_nat bs < 256 ^ length bs"
  using le_nat_less [of "rev bs"] by (simp add: be_nat_def)

lemma be_nat_be_bytes: "n < 256 ^ k \<Longrightarrow> be_nat (be_bytes k n) = n"
  by (simp add: be_nat_def be_bytes_def le_nat_le_bytes)

subsection \<open>Writer\<close>

definition write_u8 :: "u8 \<Rightarrow> byte list \<Rightarrow> byte list" where
  "write_u8 v out = out @ [v]"

definition write_bool :: "bool \<Rightarrow> byte list \<Rightarrow> byte list" where
  "write_bool v out = write_u8 (if v then 1 else 0) out"

definition write_u32 :: "u32 \<Rightarrow> byte list \<Rightarrow> byte list" where
  "write_u32 v out = out @ le_bytes 4 (unat v)"

definition write_u64 :: "u64 \<Rightarrow> byte list \<Rightarrow> byte list" where
  "write_u64 v out = out @ le_bytes 8 (unat v)"

definition write_f32 :: "f32_bits \<Rightarrow> byte list \<Rightarrow> byte list" where
  "write_f32 v out = out @ le_bytes 4 (unat v)"

definition write_f64 :: "f64_bits \<Rightarrow> byte list \<Rightarrow> byte list" where
  "write_f64 v out = out @ le_bytes 8 (unat v)"

definition write_bytes :: "byte list \<Rightarrow> byte list \<Rightarrow> byte list" where
  "write_bytes bs out = out @ bs"

definition write_len :: "nat \<Rightarrow> byte list \<Rightarrow> byte list" where
  "write_len n out = write_u64 (of_nat (min n u64_max)) out"

definition write_optional_u64 :: "u64 option \<Rightarrow> byte list \<Rightarrow> byte list" where
  "write_optional_u64 v out =
     write_u64 (case v of None \<Rightarrow> 0 | Some n \<Rightarrow> n) (write_bool (v \<noteq> None) out)"

definition write_samples :: "f32_bits list \<Rightarrow> byte list \<Rightarrow> byte list" where
  "write_samples samples out = fold write_f32 samples (write_len (length samples) out)"

text \<open>The body is written by a callback into the same buffer; its length then overwrites the
  eight bytes reserved in front of it.\<close>

definition write_section ::
    "(byte list \<Rightarrow> byte list) \<Rightarrow> byte list \<Rightarrow> (blob_error, byte list) result" where
  "write_section body out =
     (let len_offset = length out;
          out1 = write_u64 0 out;
          section_offset = length out1;
          out2 = body out1;
          len = length out2 - section_offset
      in if len > u64_max then Inl TooLarge
         else Inr (take len_offset out2 @ le_bytes 8 len @ drop section_offset out2))"

definition write_str :: "byte list \<Rightarrow> byte list \<Rightarrow> (blob_error, byte list) result" where
  "write_str utf8 out =
     (if length utf8 > u32_max then Inl TooLarge
      else Inr (write_u32 (of_nat (length utf8)) out @ utf8))"

subsection \<open>Reader\<close>

record reader =
  r_bytes :: "byte list"
  r_cursor :: nat

type_synonym 'a rd = "reader \<Rightarrow> (blob_error, 'a \<times> reader) result"

definition rd_return :: "'a \<Rightarrow> 'a rd" where
  "rd_return a r = Inr (a, r)"

definition rd_fail :: "blob_error \<Rightarrow> 'a rd" where
  "rd_fail e r = Inl e"

definition rd_bind :: "'a rd \<Rightarrow> ('a \<Rightarrow> 'b rd) \<Rightarrow> 'b rd" where
  "rd_bind m f r = (case m r of Inl e \<Rightarrow> Inl e | Inr (a, r') \<Rightarrow> f a r')"

text \<open>\<open>(0..count).map(|_| m).collect()\<close>: stops at the first error.\<close>

fun rd_times :: "nat \<Rightarrow> 'a rd \<Rightarrow> 'a list rd" where
  "rd_times 0 m = rd_return []"
| "rd_times (Suc n) m = rd_bind m (\<lambda>a. rd_bind (rd_times n m) (\<lambda>as. rd_return (a # as)))"

definition reader_new :: "byte list \<Rightarrow> reader" where
  "reader_new bs = \<lparr>r_bytes = bs, r_cursor = 0\<rparr>"

definition remaining :: "reader \<Rightarrow> nat" where
  "remaining r = length (r_bytes r) - r_cursor r"

definition finish :: "reader \<Rightarrow> (blob_error, unit) result" where
  "finish r = (if r_cursor r = length (r_bytes r) then Inr () else Inl Corrupt)"

definition read_slice :: "nat \<Rightarrow> byte list rd" where
  "read_slice len r =
     (case checked_add u64_max (r_cursor r) len of
        None \<Rightarrow> Inl Corrupt
      | Some end \<Rightarrow>
          (if end \<le> length (r_bytes r)
           then Inr (take len (drop (r_cursor r) (r_bytes r)), r\<lparr>r_cursor := end\<rparr>)
           else Inl Corrupt))"

text \<open>\<open>read_array\<close> copies what \<open>read_slice\<close> borrows.\<close>

definition read_array :: "nat \<Rightarrow> byte list rd" where
  "read_array n r =
     (case checked_add u64_max (r_cursor r) n of
        None \<Rightarrow> Inl Corrupt
      | Some end \<Rightarrow>
          (if end \<le> length (r_bytes r)
           then Inr (take n (drop (r_cursor r) (r_bytes r)), r\<lparr>r_cursor := end\<rparr>)
           else Inl Corrupt))"

definition read_u8 :: "u8 rd" where
  "read_u8 r =
     (if r_cursor r < length (r_bytes r)
      then Inr (r_bytes r ! r_cursor r, r\<lparr>r_cursor := r_cursor r + 1\<rparr>)
      else Inl Corrupt)"

definition read_u32 :: "u32 rd" where
  "read_u32 = rd_bind (read_array 4) (\<lambda>bs. rd_return (of_nat (le_nat bs)))"

definition read_u64 :: "u64 rd" where
  "read_u64 = rd_bind (read_array 8) (\<lambda>bs. rd_return (of_nat (le_nat bs)))"

definition read_f32 :: "f32_bits rd" where
  "read_f32 = rd_bind (read_array 4) (\<lambda>bs. rd_return (of_nat (le_nat bs)))"

definition read_f64 :: "f64_bits rd" where
  "read_f64 = rd_bind (read_array 8) (\<lambda>bs. rd_return (of_nat (le_nat bs)))"

definition read_bool :: "bool rd" where
  "read_bool = rd_bind read_u8 (\<lambda>b.
     if b = 0 then rd_return False else if b = 1 then rd_return True else rd_fail Corrupt)"

definition read_len :: "nat rd" where
  "read_len = rd_bind read_u64 (\<lambda>n. rd_return (unat n))"

definition read_count :: "nat \<Rightarrow> nat rd" where
  "read_count item_bytes = rd_bind read_len (\<lambda>count r.
     if sat_mul u64_max count item_bytes > remaining r then Inl Corrupt else Inr (count, r))"

definition read_optional_u64 :: "u64 option rd" where
  "read_optional_u64 = rd_bind read_bool (\<lambda>present. rd_bind read_u64 (\<lambda>value.
     rd_return (if present then Some value else None)))"

definition read_ordered :: "u64 option \<Rightarrow> u64 rd" where
  "read_ordered previous = rd_bind read_u64 (\<lambda>value.
     if (case previous of None \<Rightarrow> False | Some p \<Rightarrow> value \<le> p) then rd_fail Corrupt
     else rd_return value)"

definition read_samples :: "f32_bits list rd" where
  "read_samples = rd_bind (read_count 4) (\<lambda>count. rd_times count read_f32)"

definition read_section :: "byte list rd" where
  "read_section = rd_bind read_len read_slice"

text \<open>\<open>str::from_utf8\<close>: well-formed UTF-8 (no overlong form, no surrogate, at most
  U+10FFFF).  A Rust string is its bytes.\<close>

definition utf8_cont :: "byte \<Rightarrow> bool" where
  "utf8_cont b \<longleftrightarrow> 0x80 \<le> b \<and> b \<le> 0xBF"

fun utf8_ok :: "byte list \<Rightarrow> bool" where
  "utf8_ok [] = True"
| "utf8_ok (b # bs) =
     (if b < 0x80 then utf8_ok bs
      else if 0xC2 \<le> b \<and> b \<le> 0xDF
      then (case bs of c1 # r \<Rightarrow> utf8_cont c1 \<and> utf8_ok r | _ \<Rightarrow> False)
      else if 0xE0 \<le> b \<and> b \<le> 0xEF
      then (case bs of
              c1 # c2 # r \<Rightarrow> (if b = 0xE0 then 0xA0 else 0x80) \<le> c1
                \<and> c1 \<le> (if b = 0xED then 0x9F else 0xBF) \<and> utf8_cont c2 \<and> utf8_ok r
            | _ \<Rightarrow> False)
      else if 0xF0 \<le> b \<and> b \<le> 0xF4
      then (case bs of
              c1 # c2 # c3 # r \<Rightarrow> (if b = 0xF0 then 0x90 else 0x80) \<le> c1
                \<and> c1 \<le> (if b = 0xF4 then 0x8F else 0xBF) \<and> utf8_cont c2 \<and> utf8_cont c3 \<and> utf8_ok r
            | _ \<Rightarrow> False)
      else False)"

definition read_str :: "byte list rd" where
  "read_str = rd_bind read_u32 (\<lambda>n. rd_bind (read_slice (unat n)) (\<lambda>raw.
     if utf8_ok raw then rd_return raw else rd_fail Corrupt))"

subsection \<open>Framing\<close>

definition write_to :: "u32 \<Rightarrow> ('a \<Rightarrow> byte list \<Rightarrow> byte list) \<Rightarrow> 'a \<Rightarrow> byte list \<Rightarrow> byte list" where
  "write_to version encode v out = encode v (write_u32 version out)"

definition to_bytes :: "u32 \<Rightarrow> ('a \<Rightarrow> byte list \<Rightarrow> byte list) \<Rightarrow> 'a \<Rightarrow> byte list" where
  "to_bytes version encode v = write_to version encode v []"

definition from_bytes :: "u32 \<Rightarrow> 'a rd \<Rightarrow> byte list \<Rightarrow> (blob_error, 'a) result" where
  "from_bytes version decode bytes =
     (case read_u32 (reader_new bytes) of
        Inl e \<Rightarrow> Inl e
      | Inr (found, r) \<Rightarrow>
          (if found \<noteq> version then Inl (BVersion found version)
           else case decode r of
                  Inl e \<Rightarrow> Inl e
                | Inr (value, r') \<Rightarrow> (case finish r' of Inl e \<Rightarrow> Inl e | Inr _ \<Rightarrow> Inr value)))"

subsection \<open>What a read does\<close>

lemmas rd_defs = rd_bind_def rd_return_def rd_fail_def

lemma rd_bind_Inr: "rd_bind m f r = Inr x \<longleftrightarrow> (\<exists>a r'. m r = Inr (a, r') \<and> f a r' = Inr x)"
  by (auto simp: rd_bind_def split: sum.splits)

lemma rd_bind_Inr_simp: "m r = Inr (a, r') \<Longrightarrow> rd_bind m f r = f a r'"
  by (simp add: rd_bind_def)

text \<open>A reader that has consumed a prefix.\<close>

definition rd_at :: "byte list \<Rightarrow> byte list \<Rightarrow> reader" where
  "rd_at pre post = \<lparr>r_bytes = pre @ post, r_cursor = length pre\<rparr>"

definition sized :: "byte list \<Rightarrow> byte list \<Rightarrow> bool" where
  "sized pre post \<longleftrightarrow> length pre + length post \<le> u64_max"

lemma sized_append [simp]: "sized (pre @ a) post \<longleftrightarrow> sized pre (a @ post)"
  by (simp add: sized_def add.assoc)

text \<open>\<open>parses m bs a\<close>: wherever the bytes \<open>bs\<close> stand next, \<open>m\<close> consumes
  exactly them and returns \<open>a\<close>; \<open>ends m bs a\<close>: it does so when they are the last ones.\<close>

definition parses :: "'a rd \<Rightarrow> byte list \<Rightarrow> 'a \<Rightarrow> bool" where
  "parses m bs a \<longleftrightarrow> (\<forall>pre post. sized pre (bs @ post) \<longrightarrow>
     m (rd_at pre (bs @ post)) = Inr (a, rd_at (pre @ bs) post))"

definition ends :: "'a rd \<Rightarrow> byte list \<Rightarrow> 'a \<Rightarrow> bool" where
  "ends m bs a \<longleftrightarrow> (\<forall>pre. sized pre bs \<longrightarrow> m (rd_at pre bs) = Inr (a, rd_at (pre @ bs) []))"

lemma parsesI:
  assumes "\<And>pre post. sized pre (bs @ post) \<Longrightarrow> m (rd_at pre (bs @ post)) = Inr (a, rd_at (pre @ bs) post)"
  shows "parses m bs a"
  using assms by (simp add: parses_def)

lemma parsesD: "parses m bs a \<Longrightarrow> sized pre (bs @ post) \<Longrightarrow> m (rd_at pre (bs @ post)) = Inr (a, rd_at (pre @ bs) post)"
  by (simp add: parses_def)

lemma endsD: "ends m bs a \<Longrightarrow> sized pre bs \<Longrightarrow> m (rd_at pre bs) = Inr (a, rd_at (pre @ bs) [])"
  by (simp add: ends_def)

lemma parses_ends: "parses m bs a \<Longrightarrow> ends m bs a"
  using parsesD [where post = "[]"] by (force simp: ends_def)

lemma parses_return: "parses (rd_return a) [] a"
  by (simp add: parses_def rd_return_def)

lemma parses_bind:
  assumes "parses m x a" "parses (f a) y b" shows "parses (rd_bind m f) (x @ y) b"
proof (rule parsesI)
  fix pre post assume s: "sized pre ((x @ y) @ post)"
  have "m (rd_at pre (x @ y @ post)) = Inr (a, rd_at (pre @ x) (y @ post))"
    using s by (intro parsesD [OF assms(1)]) simp
  moreover have "f a (rd_at (pre @ x) (y @ post)) = Inr (b, rd_at ((pre @ x) @ y) post)"
    using s by (intro parsesD [OF assms(2)]) simp
  ultimately show "rd_bind m f (rd_at pre ((x @ y) @ post)) = Inr (b, rd_at (pre @ x @ y) post)"
    by (simp add: rd_bind_def)
qed

lemma ends_bind:
  assumes "parses m x a" "ends (f a) y b" shows "ends (rd_bind m f) (x @ y) b"
proof -
  have "rd_bind m f (rd_at pre (x @ y)) = Inr (b, rd_at (pre @ x @ y) [])" if s: "sized pre (x @ y)" for pre
  proof -
    have "m (rd_at pre (x @ y)) = Inr (a, rd_at (pre @ x) y)"
      using s by (rule parsesD [OF assms(1)])
    moreover have "f a (rd_at (pre @ x) y) = Inr (b, rd_at ((pre @ x) @ y) [])"
      using s by (intro endsD [OF assms(2)]) simp
    ultimately show ?thesis by (simp add: rd_bind_def)
  qed
  then show ?thesis by (simp add: ends_def)
qed

text \<open>The last read of a chain, whose continuation consumes nothing.\<close>

lemma parses_map: "parses m x a \<Longrightarrow> f a = rd_return b \<Longrightarrow> parses (rd_bind m f) x b"
  using parses_bind [of m x a f "[]" b] parses_return [of b] by simp

lemma parses_fixed:
  assumes "length bs = n" shows "parses (read_array n) bs bs" "parses (read_slice n) bs bs"
  using assms by (auto simp: parses_def read_array_def read_slice_def rd_at_def sized_def checked_add_def)

named_theorems blob_reads \<open>what a read returns on the bytes of the matching write\<close>

lemma parses_u32 [blob_reads]: "parses read_u32 (le_bytes 4 (unat w)) w"
  unfolding read_u32_def by (rule parses_map [OF parses_fixed(1)]) (simp_all add: le_nat_u32)

lemma parses_u64 [blob_reads]: "parses read_u64 (le_bytes 8 (unat w)) w"
  unfolding read_u64_def by (rule parses_map [OF parses_fixed(1)]) (simp_all add: le_nat_u64)

lemma parses_f32 [blob_reads]: "parses read_f32 (le_bytes 4 (unat w)) w"
  unfolding read_f32_def by (rule parses_map [OF parses_fixed(1)]) (simp_all add: le_nat_u32)

lemma parses_f64 [blob_reads]: "parses read_f64 (le_bytes 8 (unat w)) w"
  unfolding read_f64_def by (rule parses_map [OF parses_fixed(1)]) (simp_all add: le_nat_u64)

lemma parses_bool [blob_reads]: "parses read_bool [if v then 1 else 0] v"
  by (rule parsesI) (simp add: read_bool_def rd_defs read_u8_def rd_at_def nth_append)

definition len_bytes :: "nat \<Rightarrow> byte list" where
  "len_bytes n = le_bytes 8 (unat (of_nat (min n u64_max) :: u64))"

lemma length_len_bytes [simp]: "length (len_bytes n) = 8"
  by (simp add: len_bytes_def)

lemma write_len_bytes: "write_len n out = out @ len_bytes n"
  by (simp add: write_len_def write_u64_def len_bytes_def)

lemma unat_u64: "n \<le> u64_max \<Longrightarrow> unat (of_nat n :: u64) = n"
  by (simp add: unat_of_nat take_bit_nat_eq_self u64_max_def)

lemma parses_len [blob_reads]: "n \<le> u64_max \<Longrightarrow> parses read_len (len_bytes n) n"
  unfolding read_len_def len_bytes_def by (rule parses_map [OF parses_u64]) (simp add: unat_u64 min_def)

definition str_bytes :: "byte list \<Rightarrow> byte list" where
  "str_bytes s = le_bytes 4 (unat (of_nat (length s) :: u32)) @ s"

lemma write_str_bytes: "length s \<le> u32_max \<Longrightarrow> write_str s out = Inr (out @ str_bytes s)"
  by (simp add: write_str_def write_u32_def str_bytes_def)

lemma parses_str [blob_reads]:
  assumes "utf8_ok s" "length s \<le> u32_max" shows "parses read_str (str_bytes s) s"
proof -
  have "unat (of_nat (length s) :: u32) = length s"
    using assms(2) by (simp add: unat_of_nat take_bit_nat_eq_self u32_max_def)
  then show ?thesis
    unfolding read_str_def str_bytes_def
    by (intro parses_bind [OF parses_u32] parses_map [OF parses_fixed(2)]) (simp_all add: assms)
qed

text \<open>A section is its length followed by what the callback appended.\<close>

lemma write_section_bytes:
  assumes "\<And>o'. body o' = o' @ bs"
  shows "write_section body out
    = (if length bs \<le> u64_max then Inr (out @ len_bytes (length bs) @ bs) else Inl TooLarge)"
  by (simp add: write_section_def assms(1) write_u64_def Let_def len_bytes_def unat_u64)

lemma parses_section [blob_reads]:
  "length bs \<le> u64_max \<Longrightarrow> parses read_section (len_bytes (length bs) @ bs) bs"
  unfolding read_section_def by (rule parses_bind [OF parses_len parses_fixed(2)]) simp_all

definition optional_bytes :: "u64 option \<Rightarrow> byte list" where
  "optional_bytes v = [if v \<noteq> None then 1 else 0] @ le_bytes 8 (unat (case v of None \<Rightarrow> 0 | Some n \<Rightarrow> n))"

lemma write_optional_bytes: "write_optional_u64 v out = out @ optional_bytes v"
  by (simp add: write_optional_u64_def write_bool_def write_u8_def write_u64_def optional_bytes_def)

lemma parses_optional [blob_reads]: "parses read_optional_u64 (optional_bytes v) v"
  unfolding read_optional_u64_def optional_bytes_def
  by (intro parses_bind [OF parses_bool] parses_map [OF parses_u64]) (cases v, simp_all)

lemma remaining_at [simp]: "remaining (rd_at pre post) = length post"
  by (simp add: remaining_def rd_at_def)

lemma finish_at: "finish (rd_at pre post) = (if post = [] then Inr () else Inl Corrupt)"
  by (simp add: finish_def rd_at_def)

lemma reader_new_at: "reader_new bs = rd_at [] bs"
  by (simp add: reader_new_def rd_at_def)

text \<open>Items written one after the other are read back by a counted loop; the count is accepted
  because the items follow it.\<close>

lemma parses_times:
  assumes "\<And>x. x \<in> set xs \<Longrightarrow> parses m (enc x) x"
  shows "parses (rd_times (length xs) m) (concat (map enc xs)) xs"
  using assms
proof (induction xs)
  case (Cons x xs)
  have "parses (rd_bind m (\<lambda>a. rd_bind (rd_times (length xs) m) (\<lambda>as. rd_return (a # as))))
      (enc x @ concat (map enc xs)) (x # xs)"
    using Cons by (intro parses_bind [where a = x] parses_map [where a = xs]) auto
  then show ?case by simp
qed (simp add: parses_return)

lemma parses_counted:
  assumes "parses (f n) bs a" "n * item \<le> length bs" "n \<le> u64_max"
  shows "parses (rd_bind (read_count item) f) (len_bytes n @ bs) a"
proof (rule parsesI)
  fix pre post assume s: "sized pre ((len_bytes n @ bs) @ post)"
  have "read_len (rd_at pre (len_bytes n @ bs @ post)) = Inr (n, rd_at (pre @ len_bytes n) (bs @ post))"
    using s by (intro parsesD [OF parses_len [OF assms(3)]]) simp
  moreover have "f n (rd_at (pre @ len_bytes n) (bs @ post)) = Inr (a, rd_at ((pre @ len_bytes n) @ bs) post)"
    using s by (intro parsesD [OF assms(1)]) simp
  moreover have "sat_mul u64_max n item \<le> length bs + length post"
    using assms(2) by (simp add: sat_mul_def)
  ultimately show "rd_bind (read_count item) f (rd_at pre ((len_bytes n @ bs) @ post))
      = Inr (a, rd_at (pre @ len_bytes n @ bs) post)"
    by (simp add: read_count_def rd_bind_def)
qed

lemma fold_append_bytes:
  assumes "\<And>x out. w x out = out @ enc x"
  shows "fold w xs out = out @ concat (map enc xs)"
  using assms by (induction xs arbitrary: out) auto

subsection \<open>No read leaves the blob\<close>

definition reader_ok :: "reader \<Rightarrow> bool" where
  "reader_ok r \<longleftrightarrow> r_cursor r \<le> length (r_bytes r)"

text \<open>A read that succeeds consumed at least \<open>k\<close> bytes of the same blob.\<close>

definition consumes :: "nat \<Rightarrow> 'a rd \<Rightarrow> bool" where
  "consumes k m \<longleftrightarrow> (\<forall>r a r'. m r = Inr (a, r') \<longrightarrow> reader_ok r \<longrightarrow>
     reader_ok r' \<and> r_bytes r' = r_bytes r \<and> r_cursor r + k \<le> r_cursor r')"

lemma consumesI:
  assumes "\<And>r a r'. m r = Inr (a, r') \<Longrightarrow> reader_ok r \<Longrightarrow>
      reader_ok r' \<and> r_bytes r' = r_bytes r \<and> r_cursor r + k \<le> r_cursor r'"
  shows "consumes k m"
  using assms by (auto simp: consumes_def)

lemma consumesD:
  "consumes k m \<Longrightarrow> m r = Inr (a, r') \<Longrightarrow> reader_ok r \<Longrightarrow>
     reader_ok r' \<and> r_bytes r' = r_bytes r \<and> r_cursor r + k \<le> r_cursor r'"
  by (auto simp: consumes_def)

named_theorems consumes_intros \<open>how many bytes each read consumes\<close>

lemma consumes_return [consumes_intros]: "consumes 0 (rd_return a)"
  by (auto simp: consumes_def rd_return_def)

lemma consumes_fail [consumes_intros]: "consumes k (rd_fail e)"
  by (auto simp: consumes_def rd_fail_def)

lemma consumes_bind:
  assumes "consumes j m" "\<And>a. consumes k (f a)"
  shows "consumes (j + k) (rd_bind m f)"
proof (rule consumesI)
  fix r a r' assume "rd_bind m f r = Inr (a, r')" "reader_ok r"
  then obtain b r1 where 1: "m r = Inr (b, r1)" "f b r1 = Inr (a, r')"
    by (auto simp: rd_bind_Inr)
  from consumesD [OF assms(1) 1(1) \<open>reader_ok r\<close>] consumesD [OF assms(2) 1(2)]
  show "reader_ok r' \<and> r_bytes r' = r_bytes r \<and> r_cursor r + (j + k) \<le> r_cursor r'"
    by auto
qed

lemma consumes_weaken: "consumes k m \<Longrightarrow> j \<le> k \<Longrightarrow> consumes j m"
  by (fastforce simp: consumes_def)

lemma consumes_if: "consumes k m \<Longrightarrow> consumes k n \<Longrightarrow> consumes k (if b then m else n)"
  by simp

lemma consumes_slice [consumes_intros]: "consumes n (read_slice n)"
  by (rule consumesI) (auto simp: read_slice_def reader_ok_def checked_add_def split: if_splits)

lemma consumes_array [consumes_intros]: "consumes n (read_array n)"
  by (rule consumesI) (auto simp: read_array_def reader_ok_def checked_add_def split: if_splits)

lemma consumes_u8 [consumes_intros]: "consumes 1 read_u8"
  by (rule consumesI) (auto simp: read_u8_def reader_ok_def split: if_splits)

lemma consumes_u32 [consumes_intros]: "consumes 4 read_u32"
  using consumes_bind [OF consumes_array [of 4] consumes_return] by (simp add: read_u32_def)

lemma consumes_u64 [consumes_intros]: "consumes 8 read_u64"
  using consumes_bind [OF consumes_array [of 8] consumes_return] by (simp add: read_u64_def)

lemma consumes_f32 [consumes_intros]: "consumes 4 read_f32"
  using consumes_bind [OF consumes_array [of 4] consumes_return] by (simp add: read_f32_def)

lemma consumes_f64 [consumes_intros]: "consumes 8 read_f64"
  using consumes_bind [OF consumes_array [of 8] consumes_return] by (simp add: read_f64_def)

lemma consumes_len [consumes_intros]: "consumes 8 read_len"
  using consumes_bind [OF consumes_u64 consumes_return] by (simp add: read_len_def)

lemma consumes_times:
  assumes "consumes k m" shows "consumes (n * k) (rd_times n m)"
proof (induction n)
  case (Suc n)
  have "consumes (n * k + 0) (rd_bind (rd_times n m) (\<lambda>as. rd_return (a # as)))" for a
    by (rule consumes_bind [OF Suc consumes_return])
  then have "consumes (k + (n * k + 0)) (rd_times (Suc n) m)"
    unfolding rd_times.simps by (rule consumes_bind [OF assms])
  then show ?case by simp
qed (simp add: consumes_return)

lemma length_rd_times: "rd_times n m r = Inr (xs, r') \<Longrightarrow> length xs = n"
  by (induction n arbitrary: r xs r') (auto simp: rd_bind_Inr rd_return_def)

lemma rd_times_all:
  assumes "rd_times n m r = Inr (xs, r')" "x \<in> set xs"
    and "\<And>r a r'. m r = Inr (a, r') \<Longrightarrow> P a"
  shows "P x"
  using assms by (induction n arbitrary: r xs r') (auto simp: rd_bind_Inr rd_return_def)

subsection \<open>The contract of an artifact owner\<close>

locale blob_codec =
  fixes version :: u32
    and encode :: "'a \<Rightarrow> byte list \<Rightarrow> byte list"
    and decode :: "'a rd"
    and valid :: "'a \<Rightarrow> bool"
  assumes encode_appends: "encode v out = out @ encode v []"
    and decode_encode: "valid v \<Longrightarrow> ends decode (encode v []) v"
begin

lemma to_bytes_eq: "to_bytes version encode v = le_bytes 4 (unat version) @ encode v []"
  using encode_appends [of v "le_bytes 4 (unat version)"]
  by (simp add: to_bytes_def write_to_def write_u32_def)

lemma read_back:
  assumes "valid v" and "length (to_bytes version encode v) \<le> u64_max"
  shows "from_bytes version decode (to_bytes version encode v) = Inr v"
  using assms endsD [OF decode_encode, of v "le_bytes 4 (unat version)"]
    parsesD [OF parses_u32, of "[]" version "encode v []"]
  by (simp add: from_bytes_def to_bytes_eq reader_new_at sized_def finish_at)

lemma stale_version:
  assumes "length (to_bytes version encode v) \<le> u64_max" and "version \<noteq> version'"
  shows "from_bytes version' decode' (to_bytes version encode v) = Inl (BVersion version version')"
  using assms parsesD [OF parses_u32, of "[]" version "encode v []"]
  by (simp add: from_bytes_def to_bytes_eq reader_new_at sized_def)

end

text \<open>A body that says where it ends: a blob with bytes left over is refused.\<close>

locale delimited_blob = blob_codec +
  assumes decode_prefix: "valid v \<Longrightarrow> parses decode (encode v []) v"
begin

lemma trailing_refused:
  assumes "valid v" "length (to_bytes version encode v @ extra) \<le> u64_max" "extra \<noteq> []"
  shows "from_bytes version decode (to_bytes version encode v @ extra) = Inl Corrupt"
  using assms parsesD [OF decode_prefix, of v "le_bytes 4 (unat version)" extra]
    parsesD [OF parses_u32, of "[]" version "encode v [] @ extra"]
  by (simp add: from_bytes_def to_bytes_eq reader_new_at sized_def finish_at)

end

text \<open>A body with one encoding per value: what reads back is exactly what was written.\<close>

locale canonical_blob = blob_codec +
  assumes decode_valid: "decode r = Inr (v, r') \<Longrightarrow> valid v"
    and decode_exact: "reader_ok r \<Longrightarrow> decode r = Inr (v, r') \<Longrightarrow>
      drop (r_cursor r) (r_bytes r) = encode v [] @ drop (r_cursor r') (r_bytes r) \<and> r_bytes r' = r_bytes r"
begin

lemma accepted_is_canonical:
  assumes "from_bytes version decode bytes = Inr v"
  shows "valid v \<and> bytes = to_bytes version encode v"
proof -
  from assms obtain r r' where r: "read_u32 (reader_new bytes) = Inr (version, r)"
      and d: "decode r = Inr (v, r')" and f: "finish r' = Inr ()"
    by (auto simp: from_bytes_def split: sum.splits if_splits)
  from r obtain bs where bs: "read_array 4 (reader_new bytes) = Inr (bs, r)" "version = of_nat (le_nat bs)"
    by (auto simp: read_u32_def rd_bind_Inr rd_return_def)
  then have r_eq: "r = \<lparr>r_bytes = bytes, r_cursor = 4\<rparr>" and bs_eq: "bs = take 4 bytes" "4 \<le> length bytes"
    by (auto simp: read_array_def reader_new_def checked_add_def split: if_splits)
  have "unat version = le_nat bs"
    using bs(2) bs_eq by (simp add: unat_le_nat_u32)
  then have head: "le_bytes 4 (unat version) = take 4 bytes"
    using bs_eq by (simp add: le_bytes_le_nat')
  have "drop 4 bytes = encode v [] @ drop (r_cursor r') bytes" "r_bytes r' = bytes"
    using decode_exact [OF _ d] r_eq bs_eq by (auto simp: reader_ok_def)
  then have "drop 4 bytes = encode v []"
    using f by (simp add: finish_def split: if_splits)
  then show ?thesis
    using decode_valid [OF d] head by (metis append_take_drop_id to_bytes_eq)
qed

end

end
