(* ===== verification/Artifacts.thy ===== *)
theory Artifacts
  imports Blob
begin

text \<open>
  Two artifact owners of the blob format: the waveform
  (\<open>crates/kithara-waveform/src/bucket.rs\<close>) and the beat artifact
  (\<open>crates/kithara-analysis/src/artifact/beat.rs\<close>).  Both interpret the contract of
  \<open>Blob\<close>: the waveform, whose body runs to the end of the blob, as a canonical codec, the
  beat artifact, whose lists carry their lengths, as a delimited one.
\<close>

subsection \<open>Floats as bit patterns\<close>

text \<open>\<open>(0.0..=1.0).contains(&v)\<close>: the non-negative patterns up to that of one, and
  negative zero.\<close>

definition f32_in_unit :: "f32_bits \<Rightarrow> bool" where
  "f32_in_unit v \<longleftrightarrow> v \<le> 0x3F800000 \<or> v = 0x80000000"

definition f32_finite :: "f32_bits \<Rightarrow> bool" where
  "f32_finite v \<longleftrightarrow> and v 0x7F800000 \<noteq> 0x7F800000"

definition f64_finite :: "f64_bits \<Rightarrow> bool" where
  "f64_finite v \<longleftrightarrow> and v 0x7FF0000000000000 \<noteq> 0x7FF0000000000000"

subsection \<open>Waveform\<close>

record bucket =
  b_high :: f32_bits
  b_low :: f32_bits
  b_mid :: f32_bits

datatype band = BLow | BMid | BHigh

definition band_ALL :: "band list" where
  "band_ALL = [BLow, BMid, BHigh]"

fun bucket_band :: "bucket \<Rightarrow> band \<Rightarrow> f32_bits" where
  "bucket_band b BLow = b_low b"
| "bucket_band b BMid = b_mid b"
| "bucket_band b BHigh = b_high b"

definition bucket_new :: "f32_bits \<Rightarrow> f32_bits \<Rightarrow> f32_bits \<Rightarrow> bucket" where
  "bucket_new low mid high = \<lparr>b_high = high, b_low = low, b_mid = mid\<rparr>"

datatype waveform_error = WBand nat f32_bits | WTooLarge nat

definition MAX_BUCKETS :: nat where
  "MAX_BUCKETS = 65536"

definition WAVEFORM_BYTES_VERSION :: u32 where
  "WAVEFORM_BYTES_VERSION = 1"

definition BUCKET_BYTES :: nat where
  "BUCKET_BYTES = 12"

fun bad_band :: "nat \<Rightarrow> bucket list \<Rightarrow> waveform_error option" where
  "bad_band index [] = None"
| "bad_band index (b # bs) =
     (case find (\<lambda>band. \<not> f32_in_unit (bucket_band b band)) band_ALL of
        Some band \<Rightarrow> Some (WBand index (bucket_band b band))
      | None \<Rightarrow> bad_band (index + 1) bs)"

definition waveform_try_from :: "bucket list \<Rightarrow> (waveform_error, bucket list) result" where
  "waveform_try_from buckets =
     (if length buckets > MAX_BUCKETS then Inl (WTooLarge (length buckets))
      else case bad_band 0 buckets of Some e \<Rightarrow> Inl e | None \<Rightarrow> Inr buckets)"

definition read_bucket :: "bucket rd" where
  "read_bucket = rd_bind (rd_times 3 read_f32)
     (\<lambda>heights. rd_return (bucket_new (heights ! 0) (heights ! 1) (heights ! 2)))"

definition waveform_decode :: "bucket list rd" where
  "waveform_decode r =
     (if remaining r mod BUCKET_BYTES \<noteq> 0 then Inl Corrupt
      else rd_bind (rd_times (remaining r div BUCKET_BYTES) read_bucket)
        (\<lambda>buckets. case waveform_try_from buckets of
            Inl _ \<Rightarrow> rd_fail Corrupt | Inr w \<Rightarrow> rd_return w) r)"

definition waveform_encode :: "bucket list \<Rightarrow> byte list \<Rightarrow> byte list" where
  "waveform_encode w out =
     fold (\<lambda>b. fold (\<lambda>band. write_f32 (bucket_band b band)) band_ALL) w out"

definition waveform_valid :: "bucket list \<Rightarrow> bool" where
  "waveform_valid w \<longleftrightarrow> length w \<le> MAX_BUCKETS
     \<and> (\<forall>b \<in> set w. f32_in_unit (b_low b) \<and> f32_in_unit (b_mid b) \<and> f32_in_unit (b_high b))"

abbreviation waveform_to_bytes :: "bucket list \<Rightarrow> byte list" where
  "waveform_to_bytes \<equiv> to_bytes WAVEFORM_BYTES_VERSION waveform_encode"

abbreviation waveform_from_bytes :: "byte list \<Rightarrow> (blob_error, bucket list) result" where
  "waveform_from_bytes \<equiv> from_bytes WAVEFORM_BYTES_VERSION waveform_decode"

subsection \<open>Beat artifact\<close>

record fit_region =
  ratio_correction :: f64_bits
  end_frame :: u64
  start_frame :: u64

record beat_artifact =
  beat_confidence :: "f32_bits option list"
  beats :: "u64 list"
  downbeat_confidence :: "f32_bits option list"
  downbeats :: "u64 list"
  regions :: "fit_region list"
  bpm :: f64_bits

type_synonym marked_beat = "u64 \<times> f32_bits option"

definition with_regions ::
    "f64_bits \<Rightarrow> marked_beat list \<Rightarrow> marked_beat list \<Rightarrow> fit_region list \<Rightarrow> beat_artifact" where
  "with_regions b bs dbs rs =
     \<lparr>beat_confidence = map snd bs, beats = map fst bs, downbeat_confidence = map snd dbs,
      downbeats = map fst dbs, regions = rs, bpm = b\<rparr>"

definition VERSION :: u32 where
  "VERSION = 2"

definition read_finite :: "f64_bits rd" where
  "read_finite = rd_bind read_f64 (\<lambda>v. if f64_finite v then rd_return v else rd_fail Corrupt)"

definition write_mark :: "marked_beat \<Rightarrow> byte list \<Rightarrow> byte list" where
  "write_mark m out =
     write_f32 (case snd m of None \<Rightarrow> 0 | Some c \<Rightarrow> c)
       (write_u32 (if snd m \<noteq> None then 1 else 0) (write_u64 (fst m) out))"

definition write_marks :: "u64 list \<Rightarrow> f32_bits option list \<Rightarrow> byte list \<Rightarrow> byte list" where
  "write_marks frames confidence out =
     fold write_mark (zip frames confidence) (write_len (length frames) out)"

definition read_mark :: "marked_beat rd" where
  "read_mark =
     rd_bind read_u64 (\<lambda>frame. rd_bind read_u32 (\<lambda>present. rd_bind read_f32 (\<lambda>c.
       if present = 0 then rd_return (frame, None)
       else if present = 1
       then (if \<not> f32_finite c \<or> \<not> f32_in_unit c then rd_fail Corrupt else rd_return (frame, Some c))
       else rd_fail Corrupt)))"

definition read_marks :: "marked_beat list rd" where
  "read_marks = rd_bind read_len (\<lambda>count. rd_times count read_mark)"

definition write_region :: "fit_region \<Rightarrow> byte list \<Rightarrow> byte list" where
  "write_region g out =
     write_f64 (ratio_correction g) (write_u64 (end_frame g) (write_u64 (start_frame g) out))"

definition read_region :: "fit_region rd" where
  "read_region =
     rd_bind read_u64 (\<lambda>s. rd_bind read_u64 (\<lambda>e. rd_bind read_finite (\<lambda>c.
       rd_return \<lparr>ratio_correction = c, end_frame = e, start_frame = s\<rparr>)))"

definition beat_decode :: "beat_artifact rd" where
  "beat_decode =
     rd_bind read_finite (\<lambda>b. rd_bind read_marks (\<lambda>bs. rd_bind read_marks (\<lambda>dbs.
     rd_bind read_len (\<lambda>region_count. rd_bind (rd_times region_count read_region) (\<lambda>rs.
       rd_return (with_regions b bs dbs rs))))))"

definition beat_encode :: "beat_artifact \<Rightarrow> byte list \<Rightarrow> byte list" where
  "beat_encode a out =
     fold write_region (regions a) (write_len (length (regions a))
       (write_marks (downbeats a) (downbeat_confidence a)
         (write_marks (beats a) (beat_confidence a) (write_f64 (bpm a) out))))"

definition marks_valid :: "u64 list \<Rightarrow> f32_bits option list \<Rightarrow> bool" where
  "marks_valid frames confidence \<longleftrightarrow> length frames = length confidence \<and> length frames \<le> u64_max
     \<and> (\<forall>c \<in> set confidence. case c of None \<Rightarrow> True | Some v \<Rightarrow> f32_finite v \<and> f32_in_unit v)"

definition beat_valid :: "beat_artifact \<Rightarrow> bool" where
  "beat_valid a \<longleftrightarrow> f64_finite (bpm a) \<and> marks_valid (beats a) (beat_confidence a)
     \<and> marks_valid (downbeats a) (downbeat_confidence a) \<and> length (regions a) \<le> u64_max
     \<and> (\<forall>g \<in> set (regions a). f64_finite (ratio_correction g))"

abbreviation beat_to_bytes :: "beat_artifact \<Rightarrow> byte list" where
  "beat_to_bytes \<equiv> to_bytes VERSION beat_encode"

abbreviation beat_from_bytes :: "byte list \<Rightarrow> (blob_error, beat_artifact) result" where
  "beat_from_bytes \<equiv> from_bytes VERSION beat_decode"

subsection \<open>The waveform meets the contract\<close>

definition bucket_bytes :: "bucket \<Rightarrow> byte list" where
  "bucket_bytes b = le_bytes 4 (unat (b_low b)) @ le_bytes 4 (unat (b_mid b)) @ le_bytes 4 (unat (b_high b))"

lemma length_bucket_bytes [simp]: "length (bucket_bytes b) = 12"
  by (simp add: bucket_bytes_def)

lemma waveform_encode_bytes: "waveform_encode w out = out @ concat (map bucket_bytes w)"
  unfolding waveform_encode_def
  by (rule fold_append_bytes) (simp add: band_ALL_def write_f32_def bucket_bytes_def)

lemma length_waveform_bytes [simp]: "length (concat (map bucket_bytes w)) = 12 * length w"
  by (induction w) auto

lemma parses_bucket: "parses read_bucket (bucket_bytes b) b"
proof -
  let ?hs = "[b_low b, b_mid b, b_high b]"
  have "parses (rd_times (length ?hs) read_f32) (concat (map (\<lambda>w. le_bytes 4 (unat w)) ?hs)) ?hs"
    by (rule parses_times) (rule parses_f32)
  then have times: "parses (rd_times 3 read_f32) (bucket_bytes b) ?hs"
    by (simp add: bucket_bytes_def numeral_3_eq_3 del: rd_times.simps)
  show ?thesis
    unfolding read_bucket_def by (rule parses_map [OF times]) (cases b, simp add: bucket_new_def)
qed

lemma bad_band_None: "bad_band i w = None \<longleftrightarrow>
    (\<forall>b \<in> set w. f32_in_unit (b_low b) \<and> f32_in_unit (b_mid b) \<and> f32_in_unit (b_high b))"
  by (induction w arbitrary: i) (auto simp: band_ALL_def split: option.splits if_splits)

lemma waveform_try_from_eq: "waveform_try_from w = Inr w' \<longleftrightarrow> w' = w \<and> waveform_valid w"
  using bad_band_None [of 0 w]
  by (cases "bad_band 0 w") (auto simp: waveform_try_from_def waveform_valid_def)

lemma waveform_checked:
  "(case waveform_try_from w of Inl _ \<Rightarrow> rd_fail Corrupt | Inr w' \<Rightarrow> rd_return w')
     = (if waveform_valid w then rd_return w else rd_fail Corrupt)"
proof (cases "waveform_valid w")
  case True
  then have "waveform_try_from w = Inr w"
    by (simp add: waveform_try_from_eq)
  with True show ?thesis by simp
next
  case False
  then have "\<forall>v. waveform_try_from w \<noteq> Inr v"
    by (simp add: waveform_try_from_eq)
  with False show ?thesis
    by (cases "waveform_try_from w") auto
qed

lemma waveform_decode_eq:
  "waveform_decode r = Inr (w, r') \<longleftrightarrow> remaining r mod BUCKET_BYTES = 0
     \<and> rd_times (remaining r div BUCKET_BYTES) read_bucket r = Inr (w, r') \<and> waveform_valid w"
  by (auto simp: waveform_decode_def waveform_checked rd_bind_Inr rd_fail_def rd_return_def
      split: if_splits)

text \<open>Reading a bucket is reading twelve bytes, whatever they are.\<close>

lemma read_f32_exact: "read_f32 r = Inr (v, r') \<Longrightarrow>
    le_bytes 4 (unat v) = take 4 (drop (r_cursor r) (r_bytes r)) \<and> r' = r\<lparr>r_cursor := r_cursor r + 4\<rparr>
    \<and> r_cursor r + 4 \<le> length (r_bytes r)"
  by (auto simp: read_f32_def rd_bind_Inr rd_return_def read_array_def checked_add_def
      unat_le_nat_u32 le_bytes_le_nat' split: if_splits)

lemma read_bucket_exact:
  assumes "read_bucket r = Inr (b, r')"
  shows "bucket_bytes b = take 12 (drop (r_cursor r) (r_bytes r)) \<and> r' = r\<lparr>r_cursor := r_cursor r + 12\<rparr>
    \<and> r_cursor r + 12 \<le> length (r_bytes r)"
proof -
  from assms obtain x y z r1 r2 where
    x: "read_f32 r = Inr (x, r1)" and y: "read_f32 r1 = Inr (y, r2)" and z: "read_f32 r2 = Inr (z, r')"
    and b: "b = bucket_new x y z"
    by (auto simp: read_bucket_def numeral_3_eq_3 rd_bind_Inr rd_return_def)
  let ?d = "drop (r_cursor r) (r_bytes r)"
  have "take 12 ?d = take (4 + (4 + 4)) ?d" by simp
  also have "\<dots> = take 4 ?d @ take 4 (drop 4 ?d) @ take 4 (drop 8 ?d)"
    by (simp only: take_add drop_drop) simp
  finally have "take 12 ?d = take 4 ?d @ take 4 (drop 4 ?d) @ take 4 (drop 8 ?d)" .
  then show ?thesis
    using read_f32_exact [OF x] read_f32_exact [OF y] read_f32_exact [OF z]
    by (simp add: b bucket_bytes_def bucket_new_def add.commute)
qed

lemma read_buckets_exact:
  assumes "rd_times n read_bucket r = Inr (w, r')"
  shows "concat (map bucket_bytes w) = take (12 * n) (drop (r_cursor r) (r_bytes r))
    \<and> r' = r\<lparr>r_cursor := r_cursor r + 12 * n\<rparr>"
  using assms
proof (induction n arbitrary: r w)
  case (Suc n)
  from Suc.prems obtain b r1 w1 where b: "read_bucket r = Inr (b, r1)"
      and w1: "rd_times n read_bucket r1 = Inr (w1, r')" and w: "w = b # w1"
    by (auto simp: rd_bind_Inr rd_return_def)
  have "take (12 * Suc n) xs = take 12 xs @ take (12 * n) (drop 12 xs)" for xs :: "byte list"
    by (metis mult_Suc_right take_add)
  with read_bucket_exact [OF b] Suc.IH [OF w1] show ?case
    by (simp add: w add.commute add.left_commute)
qed (simp add: rd_return_def)

interpretation waveform: canonical_blob WAVEFORM_BYTES_VERSION waveform_encode waveform_decode waveform_valid
proof unfold_locales
  show "waveform_encode w out = out @ waveform_encode w []" for w out
    by (simp add: waveform_encode_bytes)
next
  fix w assume "waveform_valid w"
  moreover have "parses (rd_times (length w) read_bucket) (concat (map bucket_bytes w)) w"
    by (rule parses_times) (rule parses_bucket)
  ultimately show "ends waveform_decode (waveform_encode w []) w"
    by (simp add: ends_def waveform_decode_eq waveform_encode_bytes BUCKET_BYTES_def
        parses_ends [THEN endsD])
next
  show "waveform_decode r = Inr (w, r') \<Longrightarrow> waveform_valid w" for r w r'
    by (simp add: waveform_decode_eq)
next
  fix r w r' assume ok: "reader_ok r" and d: "waveform_decode r = Inr (w, r')"
  let ?n = "remaining r div 12"
  from d have t: "rd_times ?n read_bucket r = Inr (w, r')" and m: "12 * ?n = remaining r"
    by (auto simp: waveform_decode_eq BUCKET_BYTES_def)
  from read_buckets_exact [OF t] m ok
  show "drop (r_cursor r) (r_bytes r) = waveform_encode w [] @ drop (r_cursor r') (r_bytes r) \<and> r_bytes r' = r_bytes r"
    by (simp add: waveform_encode_bytes remaining_def reader_ok_def)
qed

subsection \<open>The beat artifact meets the contract\<close>

definition mark_bytes :: "marked_beat \<Rightarrow> byte list" where
  "mark_bytes m = le_bytes 8 (unat (fst m)) @ le_bytes 4 (unat (if snd m \<noteq> None then 1 else 0 :: u32))
     @ le_bytes 4 (unat (case snd m of None \<Rightarrow> 0 | Some c \<Rightarrow> c))"

definition marks_bytes :: "u64 list \<Rightarrow> f32_bits option list \<Rightarrow> byte list" where
  "marks_bytes frames confidence =
     len_bytes (length frames) @ concat (map mark_bytes (zip frames confidence))"

definition region_bytes :: "fit_region \<Rightarrow> byte list" where
  "region_bytes g = le_bytes 8 (unat (start_frame g)) @ le_bytes 8 (unat (end_frame g))
     @ le_bytes 8 (unat (ratio_correction g))"

lemma write_marks_bytes: "write_marks frames conf out = out @ marks_bytes frames conf"
proof -
  have "fold write_mark ms out' = out' @ concat (map mark_bytes ms)" for ms out'
    by (rule fold_append_bytes)
      (simp add: write_mark_def mark_bytes_def write_f32_def write_u32_def write_u64_def)
  then show ?thesis
    by (simp add: write_marks_def marks_bytes_def write_len_bytes)
qed

definition beat_bytes :: "beat_artifact \<Rightarrow> byte list" where
  "beat_bytes a = le_bytes 8 (unat (bpm a)) @ marks_bytes (beats a) (beat_confidence a)
     @ marks_bytes (downbeats a) (downbeat_confidence a)
     @ len_bytes (length (regions a)) @ concat (map region_bytes (regions a))"

lemma beat_encode_bytes: "beat_encode a out = out @ beat_bytes a"
proof -
  have "fold write_region gs out' = out' @ concat (map region_bytes gs)" for gs out'
    by (rule fold_append_bytes)
      (simp add: write_region_def region_bytes_def write_f64_def write_u64_def)
  then show ?thesis
    by (simp add: beat_encode_def beat_bytes_def write_marks_bytes write_len_bytes write_f64_def)
qed

lemma parses_finite [blob_reads]: "f64_finite v \<Longrightarrow> parses read_finite (le_bytes 8 (unat v)) v"
  unfolding read_finite_def by (rule parses_map [OF parses_f64]) simp

lemma parses_mark:
  assumes "case snd m of None \<Rightarrow> True | Some v \<Rightarrow> f32_finite v \<and> f32_in_unit v"
  shows "parses read_mark (mark_bytes m) m"
  unfolding read_mark_def mark_bytes_def
  by (intro parses_bind [OF parses_u64] parses_bind [OF parses_u32] parses_map [OF parses_f32])
    (use assms in \<open>cases m; cases "snd m"; simp\<close>)

lemma parses_marks [blob_reads]:
  assumes "marks_valid frames conf"
  shows "parses read_marks (marks_bytes frames conf) (zip frames conf)"
proof -
  have n: "length frames = length (zip frames conf)" and "length frames \<le> u64_max"
    using assms by (simp_all add: marks_valid_def)
  moreover have "parses (rd_times (length (zip frames conf)) read_mark)
      (concat (map mark_bytes (zip frames conf))) (zip frames conf)"
  proof (rule parses_times, rule parses_mark)
    fix m assume "m \<in> set (zip frames conf)"
    then have "snd m \<in> set conf" by (metis in_set_zipE prod.collapse)
    then show "case snd m of None \<Rightarrow> True | Some v \<Rightarrow> f32_finite v \<and> f32_in_unit v"
      using assms by (auto simp: marks_valid_def)
  qed
  ultimately show ?thesis
    unfolding read_marks_def marks_bytes_def by (intro parses_bind [OF parses_len]) simp_all
qed

lemma parses_region: "f64_finite (ratio_correction g) \<Longrightarrow> parses read_region (region_bytes g) g"
  unfolding read_region_def region_bytes_def
  by (intro parses_bind [OF parses_u64] parses_map [OF parses_finite]) (simp_all, cases g, simp)

lemma parses_beat:
  assumes v: "beat_valid a"
  shows "parses beat_decode (beat_bytes a) a"
proof -
  have "parses (rd_times (length (regions a)) read_region) (concat (map region_bytes (regions a))) (regions a)"
    by (rule parses_times) (use v in \<open>auto simp: beat_valid_def intro: parses_region\<close>)
  moreover have "with_regions (bpm a) (zip (beats a) (beat_confidence a))
      (zip (downbeats a) (downbeat_confidence a)) (regions a) = a"
    using v by (simp add: with_regions_def beat_valid_def marks_valid_def)
  ultimately show ?thesis
    unfolding beat_decode_def beat_bytes_def using v
    by (intro parses_bind [OF parses_finite] parses_bind [OF parses_marks] parses_bind [OF parses_len]
        parses_map) (auto simp: beat_valid_def)
qed

interpretation beat: delimited_blob VERSION beat_encode beat_decode beat_valid
  by unfold_locales (simp_all add: beat_encode_bytes parses_beat parses_ends)

subsection \<open>What the two artifacts promise\<close>

text \<open>The waveform codec and the checked constructor agree: the bytes accepted are exactly
  the encodings of the waveforms that fit the format, each of them has one encoding, and it reads
  back as itself.\<close>

lemma waveform_bytes_exact:
  assumes "length bytes \<le> u64_max"
  shows "waveform_from_bytes bytes = Inr w \<longleftrightarrow> waveform_valid w \<and> bytes = waveform_to_bytes w"
  using waveform.accepted_is_canonical waveform.read_back assms by blast

text \<open>A beat artifact whose numbers are in range reads back from its encoding as itself, and
  the encoding with anything appended is refused as corrupt.\<close>

lemma beat_artifact_reads_back:
  assumes "beat_valid a" and "length (beat_to_bytes a @ extra) \<le> u64_max"
  shows "beat_from_bytes (beat_to_bytes a @ extra) = (if extra = [] then Inr a else Inl Corrupt)"
  using assms beat.read_back beat.trailing_refused by simp

lemma consumes_mark: "consumes 16 read_mark"
proof -
  have c: "consumes (4 + 0) (rd_bind read_f32 (\<lambda>c.
      if present = 0 then rd_return (frame, None)
      else if present = 1
      then (if \<not> f32_finite c \<or> \<not> f32_in_unit c then rd_fail Corrupt else rd_return (frame, Some c))
      else rd_fail Corrupt))" for present :: u32 and frame :: u64
    by (rule consumes_bind [OF consumes_f32]) (simp add: consumes_return consumes_fail)
  show ?thesis
    unfolding read_mark_def
    using consumes_bind [OF consumes_u64 consumes_bind [OF consumes_u32 c]] by simp
qed

text \<open>A corrupt length cannot drive an unbounded loop: the marks a list of any announced
  length yields were all in the blob, sixteen bytes each, every confidence among them is a finite
  number between zero and one, and the cursor stays inside the blob.\<close>

lemma marks_bounded_by_blob:
  assumes "read_marks r = Inr (ms, r')" and "reader_ok r"
  shows "16 * length ms + 8 \<le> remaining r \<and> reader_ok r' \<and> r_bytes r' = r_bytes r
    \<and> (\<forall>(frame, c) \<in> set ms. case c of None \<Rightarrow> True | Some v \<Rightarrow> f32_finite v \<and> f32_in_unit v)"
proof -
  from assms(1) obtain n r1 where n: "read_len r = Inr (n, r1)" and ms: "rd_times n read_mark r1 = Inr (ms, r')"
    by (auto simp: read_marks_def rd_bind_Inr)
  note c1 = consumesD [OF consumes_len n assms(2)]
  have c2: "reader_ok r' \<and> r_bytes r' = r_bytes r1 \<and> r_cursor r1 + n * 16 \<le> r_cursor r'"
    using consumesD [OF consumes_times [OF consumes_mark] ms] c1 by blast
  let ?P = "\<lambda>m. case snd m of None \<Rightarrow> True | Some v \<Rightarrow> f32_finite v \<and> f32_in_unit v"
  have mark: "?P m" if "read_mark r = Inr (m, r')" for r m r'
    using that by (auto simp: read_mark_def rd_bind_Inr rd_return_def rd_fail_def split: if_splits)
  have "?P m" if "m \<in> set ms" for m
    by (rule rd_times_all [where P = ?P, OF ms that mark])
  then have "\<forall>(frame, c) \<in> set ms. case c of None \<Rightarrow> True | Some v \<Rightarrow> f32_finite v \<and> f32_in_unit v"
    by (simp add: case_prod_beta)
  moreover have "16 * length ms + 8 \<le> remaining r"
    using c1 c2 length_rd_times [OF ms] by (auto simp: reader_ok_def remaining_def)
  ultimately show ?thesis
    using c1 c2 by simp
qed

subsection \<open>Worked instances\<close>

definition demo_waveform :: "bucket list" where
  "demo_waveform = [bucket_new 0x3F000000 0 0x3F800000]"

lemma demo_waveform_valid: "waveform_valid demo_waveform"
  by (simp add: demo_waveform_def waveform_valid_def MAX_BUCKETS_def bucket_new_def f32_in_unit_def)

lemma demo_waveform_length: "length (waveform_to_bytes demo_waveform) = 16"
  by (simp add: waveform.to_bytes_eq waveform_encode_bytes demo_waveform_def)

definition demo_beat :: beat_artifact where
  "demo_beat = with_regions 0x405EE00000000000 [(0, Some 0x3F000000), (22050, None)] [(0, None)]
     [\<lparr>ratio_correction = 0x3FF0000000000000, end_frame = 44100, start_frame = 0\<rparr>]"

lemma demo_beat_valid: "beat_valid demo_beat"
  by (simp add: demo_beat_def beat_valid_def with_regions_def marks_valid_def f64_finite_def
      f32_finite_def f32_in_unit_def u64_max_def)

lemma demo_beat_length: "length (beat_to_bytes demo_beat) = 108"
  by (simp add: beat.to_bytes_eq beat_encode_bytes beat_bytes_def marks_bytes_def mark_bytes_def
      region_bytes_def demo_beat_def with_regions_def)

definition demo_marks :: "byte list" where
  "demo_marks = marks_bytes [7] [Some 0x3F000000]"

end
