(* ===== verification/Track_Store.thy ===== *)
theory Track_Store
  imports Artifacts
begin

text \<open>
  The durable snapshot of one analysis pass
  (\<open>crates/kithara-analysis/src/blob/track.rs\<close>) and the frame coverage inside it
  (\<open>crates/kithara-signal/src/coverage/blob.rs\<close>).  The coverage is a \<open>RangeSet\<close>
  of the \<open>rangemap\<close> crate, which is not part of the repository: its type is a type variable
  and its \<open>insert\<close> and \<open>iter\<close> are arguments of the operations that use them.  Frame
  numbers are naturals bounded by the width of \<open>u64\<close>.  The beat grid a publication caches
  and the mean confidence a snapshot caches are functions of the artifact and not carried.
\<close>

type_synonym frame_range = "nat \<times> nat"

definition range_frames :: "frame_range \<Rightarrow> nat" where
  "range_frames run = snd run - fst run"

subsection \<open>Coverage\<close>

definition write_run :: "frame_range \<Rightarrow> byte list \<Rightarrow> byte list" where
  "write_run run out = write_u64 (of_nat (range_frames run)) (write_u64 (of_nat (fst run)) out)"

definition write_coverage :: "('rs \<Rightarrow> frame_range list) \<Rightarrow> 'rs \<Rightarrow> byte list \<Rightarrow> byte list" where
  "write_coverage iter coverage out =
     fold write_run (iter coverage) (write_len (length (iter coverage)) out)"

fun read_runs :: "(frame_range \<Rightarrow> 'rs \<Rightarrow> 'rs) \<Rightarrow> nat \<Rightarrow> nat option \<Rightarrow> 'rs \<Rightarrow> 'rs rd" where
  "read_runs ins 0 previous_end coverage = rd_return coverage"
| "read_runs ins (Suc n) previous_end coverage =
     rd_bind read_u64 (\<lambda>s. rd_bind read_u64 (\<lambda>f.
       let start = unat s; frames = unat f; run = (start, sat_add u64_max start frames)
       in if frames = 0 \<or> range_frames run \<noteq> frames
             \<or> (case previous_end of None \<Rightarrow> False | Some e \<Rightarrow> e \<ge> start)
          then rd_fail Corrupt
          else read_runs ins n (Some (snd run)) (ins run coverage)))"

definition read_coverage :: "'rs \<Rightarrow> (frame_range \<Rightarrow> 'rs \<Rightarrow> 'rs) \<Rightarrow> 'rs rd" where
  "read_coverage new ins =
     rd_bind (read_count 16) (\<lambda>count. read_runs ins count None new)"

subsection \<open>The snapshot\<close>

datatype beat_state = Provisional | Final

record beat_snapshot =
  snap_artifact :: beat_artifact
  snap_state :: beat_state
  snap_unanalysed :: "frame_range list"

record analysis_fingerprint =
  fp_beat :: "byte list option"
  fp_waveform :: "byte list option"

record 'rs track_analysis =
  ta_fingerprint :: analysis_fingerprint
  ta_token :: "byte list"
  ta_source_sample_rate :: u32
  ta_media_origin :: "duration option"
  ta_beat :: "beat_snapshot option"
  ta_extent :: "u64 option"
  ta_waveform :: "bucket list option"
  ta_coverage :: 'rs
  ta_settled :: bool
  ta_revision :: u64

definition TRACK_ANALYSIS_BYTES_VERSION :: u32 where
  "TRACK_ANALYSIS_BYTES_VERSION = 0x4b410008"

definition write_ranges :: "frame_range list \<Rightarrow> byte list \<Rightarrow> byte list" where
  "write_ranges ranges out = fold write_run ranges (write_len (length ranges) out)"

definition read_range :: "frame_range rd" where
  "read_range = rd_bind read_u64 (\<lambda>s. rd_bind read_u64 (\<lambda>f.
     rd_return (unat s, sat_add u64_max (unat s) (unat f))))"

definition read_ranges :: "frame_range list rd" where
  "read_ranges = rd_bind (read_count 16) (\<lambda>count. rd_times count read_range)"

definition tag :: "byte list option \<Rightarrow> byte list" where
  "tag t = (case t of None \<Rightarrow> [] | Some s \<Rightarrow> s)"

definition write_origin :: "duration option \<Rightarrow> byte list \<Rightarrow> byte list" where
  "write_origin origin out =
     write_u32 (case origin of None \<Rightarrow> 0 | Some d \<Rightarrow> of_nat (d mod 1000000000))
       (write_u64 (case origin of None \<Rightarrow> 0 | Some d \<Rightarrow> of_nat (d div 1000000000))
         (write_bool (origin \<noteq> None) out))"

definition track_write_to ::
    "('rs \<Rightarrow> frame_range list) \<Rightarrow> 'rs track_analysis \<Rightarrow> byte list \<Rightarrow> (blob_error, byte list) result" where
  "track_write_to iter t out =
     res_bind (write_str (ta_token t) (write_u32 TRACK_ANALYSIS_BYTES_VERSION out)) (\<lambda>o1.
     res_bind (write_str (tag (fp_waveform (ta_fingerprint t)))
       (write_coverage iter (ta_coverage t) (write_bool (ta_settled t) (write_u64 (ta_revision t)
         (write_optional_u64 (ta_extent t) (write_origin (ta_media_origin t)
           (write_u32 (ta_source_sample_rate t) o1))))))) (\<lambda>o2.
     res_bind (write_section (\<lambda>o'. case ta_waveform t of None \<Rightarrow> o'
         | Some w \<Rightarrow> write_to WAVEFORM_BYTES_VERSION waveform_encode w o') o2) (\<lambda>o3.
     res_bind (write_str (tag (fp_beat (ta_fingerprint t))) o3) (\<lambda>o4.
     res_bind (write_section (\<lambda>o'. case ta_beat t of None \<Rightarrow> o'
         | Some b \<Rightarrow> write_to VERSION beat_encode (snap_artifact b) o') o4) (\<lambda>o5.
     Inr (write_ranges (case ta_beat t of None \<Rightarrow> [] | Some b \<Rightarrow> snap_unanalysed b)
       (write_bool (case ta_beat t of None \<Rightarrow> False | Some b \<Rightarrow> snap_state b = Final) o5)))))))"

record 'rs raw_snapshot =
  raw_token :: "byte list"
  raw_rate :: u32
  raw_origin :: "duration option"
  raw_extent :: "u64 option"
  raw_revision :: u64
  raw_settled :: bool
  raw_coverage :: 'rs
  waveform_tag :: "byte list"
  waveform_bytes :: "byte list"
  beat_tag :: "byte list"
  grid_bytes :: "byte list"
  final_grid :: bool
  raw_unanalysed :: "frame_range list"

definition read_source_axis :: "(u32 \<times> duration option) rd" where
  "read_source_axis =
     rd_bind read_u32 (\<lambda>rate. if rate = 0 then rd_fail Corrupt else
     rd_bind read_bool (\<lambda>has_origin. rd_bind read_u64 (\<lambda>secs. rd_bind read_u32 (\<lambda>nanos.
       if nanos \<ge> 1000000000 \<or> (\<not> has_origin \<and> (secs \<noteq> 0 \<or> nanos \<noteq> 0)) then rd_fail Corrupt
       else rd_return (rate, if has_origin then Some (unat secs * 1000000000 + unat nanos) else None)))))"

definition raw_read :: "'rs \<Rightarrow> (frame_range \<Rightarrow> 'rs \<Rightarrow> 'rs) \<Rightarrow> 'rs raw_snapshot rd" where
  "raw_read new ins =
     rd_bind read_str (\<lambda>token. rd_bind read_source_axis (\<lambda>(rate, origin).
     rd_bind read_optional_u64 (\<lambda>extent. rd_bind read_u64 (\<lambda>revision. rd_bind read_bool (\<lambda>settled.
     rd_bind (read_coverage new ins) (\<lambda>coverage.
     rd_bind read_str (\<lambda>wtag. rd_bind read_section (\<lambda>wbytes.
     rd_bind read_str (\<lambda>btag. rd_bind read_section (\<lambda>gbytes.
     rd_bind read_bool (\<lambda>final. rd_bind read_ranges (\<lambda>unanalysed r.
       case finish r of Inl e \<Rightarrow> Inl e
       | Inr _ \<Rightarrow> rd_return \<lparr>raw_token = token, raw_rate = rate, raw_origin = origin,
           raw_extent = extent, raw_revision = revision, raw_settled = settled,
           raw_coverage = coverage, waveform_tag = wtag, waveform_bytes = wbytes,
           beat_tag = btag, grid_bytes = gbytes, final_grid = final,
           raw_unanalysed = unanalysed\<rparr> r))))))))))))"

definition matching_artifacts ::
    "analysis_fingerprint \<Rightarrow> 'rs raw_snapshot \<Rightarrow> (blob_error, bool \<times> bool) result" where
  "matching_artifacts active raw =
     (let waveform_ok = (case fp_waveform active of None \<Rightarrow> False | Some t \<Rightarrow> waveform_tag raw = t);
          beat_ok = (case fp_beat active of None \<Rightarrow> False | Some t \<Rightarrow> beat_tag raw = t);
          empty = (fp_waveform active = None \<and> fp_beat active = None \<and> waveform_tag raw = []
            \<and> beat_tag raw = [] \<and> waveform_bytes raw = [] \<and> grid_bytes raw = []
            \<and> \<not> final_grid raw \<and> raw_unanalysed raw = [])
      in if \<not> waveform_ok \<and> \<not> beat_ok \<and> \<not> empty then Inl Fingerprint
         else Inr (waveform_ok, beat_ok))"

text \<open>\<open>.then(..).transpose().map_err(|_| Corrupt)\<close>\<close>

definition optional_artifact :: "bool \<Rightarrow> (blob_error, 'a) result \<Rightarrow> (blob_error, 'a option) result" where
  "optional_artifact wanted parsed =
     (if wanted then (case parsed of Inl _ \<Rightarrow> Inl Corrupt | Inr a \<Rightarrow> Inr (Some a)) else Inr None)"

definition into_analysis ::
    "analysis_fingerprint \<Rightarrow> 'rs raw_snapshot \<Rightarrow> (blob_error, 'rs track_analysis) result" where
  "into_analysis active raw =
     res_bind (matching_artifacts active raw) (\<lambda>(waveform_ok, beat_ok).
     res_bind (optional_artifact (waveform_ok \<and> waveform_bytes raw \<noteq> [])
       (waveform_from_bytes (waveform_bytes raw))) (\<lambda>waveform.
     res_bind (optional_artifact (beat_ok \<and> grid_bytes raw \<noteq> [])
       (beat_from_bytes (grid_bytes raw))) (\<lambda>grid.
     Inr \<lparr>ta_fingerprint = \<lparr>fp_beat = (if beat_ok then Some (beat_tag raw) else None),
            fp_waveform = (if waveform_ok then Some (waveform_tag raw) else None)\<rparr>,
          ta_token = raw_token raw, ta_source_sample_rate = raw_rate raw,
          ta_media_origin = raw_origin raw,
          ta_beat = map_option (\<lambda>g. \<lparr>snap_artifact = g,
            snap_state = (if final_grid raw then Final else Provisional),
            snap_unanalysed = raw_unanalysed raw\<rparr>) grid,
          ta_extent = raw_extent raw, ta_waveform = waveform, ta_coverage = raw_coverage raw,
          ta_settled = raw_settled raw, ta_revision = raw_revision raw\<rparr>)))"

definition track_try_from ::
    "'rs \<Rightarrow> (frame_range \<Rightarrow> 'rs \<Rightarrow> 'rs) \<Rightarrow> analysis_fingerprint \<Rightarrow> byte list
       \<Rightarrow> (blob_error, 'rs track_analysis) result" where
  "track_try_from new ins active bytes =
     (case read_u32 (reader_new bytes) of
        Inl e \<Rightarrow> Inl e
      | Inr (found, r) \<Rightarrow>
          (if found \<noteq> TRACK_ANALYSIS_BYTES_VERSION
           then Inl (BVersion found TRACK_ANALYSIS_BYTES_VERSION)
           else case raw_read new ins r of
                  Inl e \<Rightarrow> Inl e
                | Inr (raw, _) \<Rightarrow> into_analysis active raw))"

subsection \<open>What a snapshot must be to be stored\<close>

fun runs_ok :: "nat option \<Rightarrow> frame_range list \<Rightarrow> bool" where
  "runs_ok previous_end [] = True"
| "runs_ok previous_end ((s, e) # rs) \<longleftrightarrow> s < e \<and> e \<le> u64_max
     \<and> (case previous_end of None \<Rightarrow> True | Some p \<Rightarrow> p < s) \<and> runs_ok (Some e) rs"

definition tag_ok :: "byte list option \<Rightarrow> bool" where
  "tag_ok t \<longleftrightarrow> utf8_ok (tag t) \<and> length (tag t) \<le> u32_max"

definition snapshot_ok :: "beat_snapshot \<Rightarrow> bool" where
  "snapshot_ok b \<longleftrightarrow> beat_valid (snap_artifact b)
     \<and> (\<forall>(s, e) \<in> set (snap_unanalysed b). s \<le> e \<and> e \<le> u64_max)"

definition track_valid :: "('rs \<Rightarrow> frame_range list) \<Rightarrow> 'rs track_analysis \<Rightarrow> bool" where
  "track_valid iter t \<longleftrightarrow>
     utf8_ok (ta_token t) \<and> length (ta_token t) \<le> u32_max \<and> ta_source_sample_rate t \<noteq> 0
     \<and> (case ta_media_origin t of None \<Rightarrow> True | Some d \<Rightarrow> d div 1000000000 \<le> u64_max)
     \<and> runs_ok None (iter (ta_coverage t))
     \<and> tag_ok (fp_waveform (ta_fingerprint t)) \<and> tag_ok (fp_beat (ta_fingerprint t))
     \<and> (case ta_waveform t of None \<Rightarrow> True | Some w \<Rightarrow> waveform_valid w \<and> fp_waveform (ta_fingerprint t) \<noteq> None)
     \<and> (case ta_beat t of None \<Rightarrow> True | Some b \<Rightarrow> snapshot_ok b \<and> fp_beat (ta_fingerprint t) \<noteq> None)"

subsection \<open>Reading back what was written\<close>

definition run_bytes :: "frame_range \<Rightarrow> byte list" where
  "run_bytes run = le_bytes 8 (unat (of_nat (fst run) :: u64))
     @ le_bytes 8 (unat (of_nat (range_frames run) :: u64))"

definition runs_bytes :: "frame_range list \<Rightarrow> byte list" where
  "runs_bytes rs = len_bytes (length rs) @ concat (map run_bytes rs)"

lemma length_run_bytes [simp]: "length (run_bytes run) = 16"
  by (simp add: run_bytes_def)

lemma length_concat_runs [simp]: "length (concat (map run_bytes rs)) = 16 * length rs"
  by (induction rs) auto

lemma fold_write_run: "fold write_run rs out = out @ concat (map run_bytes rs)"
  by (rule fold_append_bytes) (simp add: write_run_def run_bytes_def write_u64_def)

lemma write_ranges_bytes: "write_ranges rs out = out @ runs_bytes rs"
  by (simp add: write_ranges_def runs_bytes_def fold_write_run write_len_bytes)

lemma write_coverage_bytes: "write_coverage iter c out = out @ runs_bytes (iter c)"
  by (simp add: write_coverage_def runs_bytes_def fold_write_run write_len_bytes)

lemma unat_run:
  "s \<le> e \<Longrightarrow> e \<le> u64_max \<Longrightarrow> unat (of_nat s :: u64) = s"
  "s \<le> e \<Longrightarrow> e \<le> u64_max \<Longrightarrow> unat (of_nat (e - s) :: u64) = e - s"
  by (simp_all add: unat_u64 del: of_nat_diff)

lemma parses_runs:
  "runs_ok prev rs \<Longrightarrow>
     parses (read_runs ins (length rs) prev c) (concat (map run_bytes rs)) (fold ins rs c)"
proof (induction rs arbitrary: prev c)
  case (Cons run rs)
  obtain s e where run: "run = (s, e)" by fastforce
  have se: "s < e" "e \<le> u64_max" "\<not> (case prev of None \<Rightarrow> False | Some p \<Rightarrow> p \<ge> s)" "runs_ok (Some e) rs"
    using Cons.prems run by (auto split: option.splits)
  have rest: "parses (read_runs ins (length rs) (Some e) (ins (s, e) c)) (concat (map run_bytes rs))
      (fold ins rs (ins (s, e) c))"
    by (rule Cons.IH [OF se(4)])
  have "parses (read_runs ins (Suc (length rs)) prev c)
      (le_bytes 8 (unat (of_nat s :: u64)) @ le_bytes 8 (unat (of_nat (e - s) :: u64))
        @ concat (map run_bytes rs)) (fold ins rs (ins (s, e) c))"
    unfolding read_runs.simps
    by (intro parses_bind [OF parses_u64])
      (use se rest unat_run [of s e] in \<open>simp add: Let_def sat_add_def range_frames_def del: of_nat_diff\<close>)
  moreover have "concat (map run_bytes ((s, e) # rs)) = le_bytes 8 (unat (of_nat s :: u64))
      @ le_bytes 8 (unat (of_nat (e - s) :: u64)) @ concat (map run_bytes rs)"
    by (simp add: run_bytes_def range_frames_def del: of_nat_diff)
  ultimately show ?case
    by (simp only: run length_Cons fold_simps)
qed (simp add: parses_return)

lemma parses_coverage [blob_reads]:
  assumes "runs_ok None rs" "length rs \<le> u64_max"
  shows "parses (read_coverage new ins) (runs_bytes rs) (fold ins rs new)"
  unfolding read_coverage_def runs_bytes_def
  by (rule parses_counted [where f = "\<lambda>n. read_runs ins n None new", OF parses_runs [OF assms(1)] _ assms(2)])
    simp

lemma parses_range:
  assumes "case run of (s, e) \<Rightarrow> s \<le> e \<and> e \<le> u64_max"
  shows "parses read_range (run_bytes run) run"
proof -
  obtain s e where run: "run = (s, e)" "s \<le> e" "e \<le> u64_max" using assms by force
  have "parses read_range
      (le_bytes 8 (unat (of_nat s :: u64)) @ le_bytes 8 (unat (of_nat (e - s) :: u64))) (s, e)"
    unfolding read_range_def
    by (intro parses_bind [OF parses_u64] parses_map [OF parses_u64])
      (use run unat_run [of s e] in \<open>simp add: sat_add_def del: of_nat_diff\<close>)
  then show ?thesis
    by (simp add: run(1) run_bytes_def range_frames_def del: of_nat_diff)
qed

lemma parses_ranges [blob_reads]:
  assumes "\<forall>(s, e) \<in> set rs. s \<le> e \<and> e \<le> u64_max" "length rs \<le> u64_max"
  shows "parses read_ranges (runs_bytes rs) rs"
  unfolding read_ranges_def runs_bytes_def
  by (rule parses_counted [where f = "\<lambda>n. rd_times n read_range", OF parses_times _ assms(2)])
    (use assms(1) in \<open>auto intro!: parses_range\<close>)

definition origin_bytes :: "duration option \<Rightarrow> byte list" where
  "origin_bytes origin = [if origin \<noteq> None then 1 else 0]
     @ le_bytes 8 (unat ((case origin of None \<Rightarrow> 0 | Some d \<Rightarrow> of_nat (d div 1000000000)) :: u64))
     @ le_bytes 4 (unat ((case origin of None \<Rightarrow> 0 | Some d \<Rightarrow> of_nat (d mod 1000000000)) :: u32))"

lemma write_origin_bytes: "write_origin origin out = out @ origin_bytes origin"
  by (simp add: write_origin_def origin_bytes_def write_u32_def write_u64_def write_bool_def write_u8_def)

lemma parses_axis [blob_reads]:
  assumes "rate \<noteq> 0" "case origin of None \<Rightarrow> True | Some d \<Rightarrow> d div 1000000000 \<le> u64_max"
  shows "parses read_source_axis (le_bytes 4 (unat rate) @ origin_bytes origin) (rate, origin)"
proof -
  have nanos: "unat (of_nat (d mod 1000000000) :: u32) = d mod 1000000000" for d
  proof -
    have "d mod 1000000000 < 1000000000" by simp
    then have "d mod 1000000000 < 4294967296" by linarith
    then show ?thesis by (simp add: unat_of_nat take_bit_nat_eq_self)
  qed
  then have "\<not> 1000000000 \<le> (of_nat (d mod 1000000000) :: u32)" for d
    by (simp add: word_le_nat_alt not_le)
  then have "parses (rd_bind read_bool (\<lambda>has_origin. rd_bind read_u64 (\<lambda>secs. rd_bind read_u32 (\<lambda>nanos.
      if nanos \<ge> 1000000000 \<or> (\<not> has_origin \<and> (secs \<noteq> 0 \<or> nanos \<noteq> 0)) then rd_fail Corrupt
      else rd_return (rate, if has_origin then Some (unat secs * 1000000000 + unat nanos) else None)))))
      (origin_bytes origin) (rate, origin)"
    unfolding origin_bytes_def
    by (intro parses_bind [OF parses_bool] parses_bind [OF parses_u64] parses_map [OF parses_u32])
      (use assms nanos in \<open>cases origin; simp add: unat_u64\<close>)
  then show ?thesis
    unfolding read_source_axis_def by (intro parses_bind [OF parses_u32]) (simp add: assms(1))
qed

definition waveform_section :: "'rs track_analysis \<Rightarrow> byte list" where
  "waveform_section t = (case ta_waveform t of None \<Rightarrow> [] | Some w \<Rightarrow> waveform_to_bytes w)"

definition beat_section :: "'rs track_analysis \<Rightarrow> byte list" where
  "beat_section t = (case ta_beat t of None \<Rightarrow> [] | Some b \<Rightarrow> beat_to_bytes (snap_artifact b))"

definition beat_final :: "'rs track_analysis \<Rightarrow> bool" where
  "beat_final t = (case ta_beat t of None \<Rightarrow> False | Some b \<Rightarrow> snap_state b = Final)"

definition beat_ranges :: "'rs track_analysis \<Rightarrow> frame_range list" where
  "beat_ranges t = (case ta_beat t of None \<Rightarrow> [] | Some b \<Rightarrow> snap_unanalysed b)"

definition track_body :: "('rs \<Rightarrow> frame_range list) \<Rightarrow> 'rs track_analysis \<Rightarrow> byte list" where
  "track_body iter t = str_bytes (ta_token t)
     @ (le_bytes 4 (unat (ta_source_sample_rate t)) @ origin_bytes (ta_media_origin t))
     @ optional_bytes (ta_extent t) @ le_bytes 8 (unat (ta_revision t))
     @ [if ta_settled t then 1 else 0] @ runs_bytes (iter (ta_coverage t))
     @ str_bytes (tag (fp_waveform (ta_fingerprint t)))
     @ (len_bytes (length (waveform_section t)) @ waveform_section t)
     @ str_bytes (tag (fp_beat (ta_fingerprint t)))
     @ (len_bytes (length (beat_section t)) @ beat_section t)
     @ [if beat_final t then 1 else 0] @ runs_bytes (beat_ranges t)"

definition track_bytes :: "('rs \<Rightarrow> frame_range list) \<Rightarrow> 'rs track_analysis \<Rightarrow> byte list" where
  "track_bytes iter t = le_bytes 4 (unat TRACK_ANALYSIS_BYTES_VERSION) @ track_body iter t"

lemma track_write_bytes:
  assumes "track_valid iter t"
  shows "track_write_to iter t out
    = (if length (waveform_section t) \<le> u64_max \<and> length (beat_section t) \<le> u64_max
       then Inr (out @ track_bytes iter t) else Inl TooLarge)"
proof -
  have w: "write_section (\<lambda>o'. case ta_waveform t of None \<Rightarrow> o'
      | Some w \<Rightarrow> write_to WAVEFORM_BYTES_VERSION waveform_encode w o') o2
      = (if length (waveform_section t) \<le> u64_max
         then Inr (o2 @ len_bytes (length (waveform_section t)) @ waveform_section t) else Inl TooLarge)" for o2
    by (intro write_section_bytes)
      (auto simp: waveform_section_def write_to_def to_bytes_def waveform_encode_bytes write_u32_def
        split: option.splits)
  have b: "write_section (\<lambda>o'. case ta_beat t of None \<Rightarrow> o'
      | Some b \<Rightarrow> write_to VERSION beat_encode (snap_artifact b) o') o4
      = (if length (beat_section t) \<le> u64_max
         then Inr (o4 @ len_bytes (length (beat_section t)) @ beat_section t) else Inl TooLarge)" for o4
    by (intro write_section_bytes)
      (auto simp: beat_section_def write_to_def to_bytes_def beat_encode_bytes write_u32_def
        split: option.splits)
  show ?thesis
    using assms
    by (simp add: track_write_to_def track_valid_def tag_ok_def write_str_bytes w b write_origin_bytes
        write_optional_bytes write_coverage_bytes write_ranges_bytes track_bytes_def track_body_def
        beat_final_def beat_ranges_def write_u32_def write_u64_def write_bool_def write_u8_def)
qed

definition track_raw :: "'rs track_analysis \<Rightarrow> 'rs raw_snapshot" where
  "track_raw t = \<lparr>raw_token = ta_token t, raw_rate = ta_source_sample_rate t,
     raw_origin = ta_media_origin t, raw_extent = ta_extent t, raw_revision = ta_revision t,
     raw_settled = ta_settled t, raw_coverage = ta_coverage t,
     waveform_tag = tag (fp_waveform (ta_fingerprint t)), waveform_bytes = waveform_section t,
     beat_tag = tag (fp_beat (ta_fingerprint t)), grid_bytes = beat_section t,
     final_grid = beat_final t, raw_unanalysed = beat_ranges t\<rparr>"

lemma ends_finish:
  assumes "parses m bs a" "\<And>r. finish r = Inr () \<Longrightarrow> f a r = Inr (b, r)"
  shows "ends (rd_bind m f) bs b"
  using assms parses_ends [THEN endsD, OF assms(1)] by (simp add: ends_def rd_bind_def finish_at)

lemma ends_raw_read:
  assumes v: "track_valid iter t" and c: "fold ins (iter (ta_coverage t)) new = ta_coverage t"
    and s: "length (track_body iter t) \<le> u64_max"
  shows "ends (raw_read new ins) (track_body iter t) (track_raw t)"
proof -
  have ranges: "\<forall>(s, e) \<in> set (beat_ranges t). s \<le> e \<and> e \<le> u64_max"
    using v by (auto simp: track_valid_def beat_ranges_def snapshot_ok_def split: option.splits)
  have len: "length (waveform_section t) \<le> u64_max" "length (beat_section t) \<le> u64_max"
      "length (iter (ta_coverage t)) \<le> u64_max" "length (beat_ranges t) \<le> u64_max"
    using s by (simp_all add: track_body_def runs_bytes_def)
  have axis: "parses read_source_axis (le_bytes 4 (unat (ta_source_sample_rate t)) @ origin_bytes (ta_media_origin t))
      (ta_source_sample_rate t, ta_media_origin t)"
    using v by (intro parses_axis) (simp_all add: track_valid_def)
  have cov: "parses (read_coverage new ins) (runs_bytes (iter (ta_coverage t))) (ta_coverage t)"
    using v len parses_coverage [of "iter (ta_coverage t)" new ins] by (simp add: track_valid_def c)
  have strs: "parses read_str (str_bytes (ta_token t)) (ta_token t)"
      "parses read_str (str_bytes (tag (fp_waveform (ta_fingerprint t)))) (tag (fp_waveform (ta_fingerprint t)))"
      "parses read_str (str_bytes (tag (fp_beat (ta_fingerprint t)))) (tag (fp_beat (ta_fingerprint t)))"
    using v by (simp_all add: track_valid_def tag_ok_def parses_str)
  show ?thesis
    unfolding raw_read_def track_body_def
    apply (rule ends_bind [OF strs(1)])
    apply (rule ends_bind [OF axis], simp only: prod.case)
    apply (rule ends_bind [OF parses_optional])
    apply (rule ends_bind [OF parses_u64])
    apply (rule ends_bind [OF parses_bool])
    apply (rule ends_bind [OF cov])
    apply (rule ends_bind [OF strs(2)])
    apply (rule ends_bind [OF parses_section [OF len(1)]])
    apply (rule ends_bind [OF strs(3)])
    apply (rule ends_bind [OF parses_section [OF len(2)]])
    apply (rule ends_bind [OF parses_bool])
    apply (rule ends_finish [OF parses_ranges [OF ranges len(4)]])
    apply (simp add: rd_return_def track_raw_def)
    done
qed

text \<open>What a stored snapshot reads back as under the fingerprint that is active now: an artifact
  whose tag is not the active one is dropped on its own.\<close>

definition keep_matching :: "analysis_fingerprint \<Rightarrow> 'rs track_analysis \<Rightarrow> 'rs track_analysis" where
  "keep_matching active t =
     (let fp = ta_fingerprint t;
          w = (fp_waveform active \<noteq> None \<and> fp_waveform active = Some (tag (fp_waveform fp)));
          b = (fp_beat active \<noteq> None \<and> fp_beat active = Some (tag (fp_beat fp)))
      in t\<lparr>ta_fingerprint := \<lparr>fp_beat = (if b then fp_beat active else None),
             fp_waveform = (if w then fp_waveform active else None)\<rparr>,
           ta_waveform := (if w then ta_waveform t else None),
           ta_beat := (if b then ta_beat t else None)\<rparr>)"

definition no_match :: "analysis_fingerprint \<Rightarrow> 'rs track_analysis \<Rightarrow> bool" where
  "no_match active t \<longleftrightarrow>
     fp_waveform active \<noteq> Some (tag (fp_waveform (ta_fingerprint t)))
     \<and> fp_beat active \<noteq> Some (tag (fp_beat (ta_fingerprint t)))
     \<and> \<not> (active = \<lparr>fp_beat = None, fp_waveform = None\<rparr> \<and> tag (fp_waveform (ta_fingerprint t)) = []
          \<and> tag (fp_beat (ta_fingerprint t)) = [] \<and> ta_waveform t = None \<and> ta_beat t = None)"

lemma to_bytes_nonempty: "blob_codec encode decode valid \<Longrightarrow> to_bytes v encode x \<noteq> []"
  using blob_codec.to_bytes_eq [of encode decode valid v x]
  by (metis append_is_Nil_conv length_le_bytes list.size(3) zero_neq_numeral)

lemmas stored_nonempty [simp] = to_bytes_nonempty [OF waveform.blob_codec_axioms]
  to_bytes_nonempty [OF beat.blob_codec_axioms]

lemma waveform_section_empty: "waveform_section t = [] \<longleftrightarrow> ta_waveform t = None"
  by (simp add: waveform_section_def split: option.splits)

lemma beat_section_empty: "beat_section t = [] \<longleftrightarrow> ta_beat t = None"
  by (simp add: beat_section_def split: option.splits)

lemma matching_track:
  "matching_artifacts active (track_raw t)
    = (if no_match active t then Inl Fingerprint
       else Inr (fp_waveform active = Some (tag (fp_waveform (ta_fingerprint t))),
                 fp_beat active = Some (tag (fp_beat (ta_fingerprint t)))))"
proof -
  have e: "ta_beat t = None \<Longrightarrow> \<not> beat_final t \<and> beat_ranges t = []"
    by (simp add: beat_final_def beat_ranges_def)
  have a: "active = \<lparr>fp_beat = None, fp_waveform = None\<rparr> \<longleftrightarrow> fp_beat active = None \<and> fp_waveform active = None"
    by (cases active) simp
  show ?thesis
    using e unfolding matching_artifacts_def no_match_def a track_raw_def
    by (cases "fp_waveform active"; cases "fp_beat active")
      (auto simp: waveform_section_empty beat_section_empty)
qed

lemma into_analysis_track:
  assumes v: "track_valid iter t" and "length (waveform_section t) \<le> u64_max" "length (beat_section t) \<le> u64_max"
  shows "into_analysis active (track_raw t)
    = (if no_match active t then Inl Fingerprint else Inr (keep_matching active t))"
proof -
  have w: "optional_artifact (ok \<and> waveform_section t \<noteq> []) (waveform_from_bytes (waveform_section t))
      = Inr (if ok then ta_waveform t else None)" for ok
    using v assms(2) waveform.read_back
    by (auto simp: optional_artifact_def waveform_section_empty track_valid_def waveform_section_def
        split: option.splits)
  have b: "optional_artifact (ok \<and> beat_section t \<noteq> []) (beat_from_bytes (beat_section t))
      = Inr (if ok then map_option snap_artifact (ta_beat t) else None)" for ok
    using v assms(3) beat.read_back
    by (auto simp: optional_artifact_def beat_section_empty track_valid_def beat_section_def snapshot_ok_def
        split: option.splits)
  have snap: "map_option (\<lambda>g. \<lparr>snap_artifact = g, snap_state = if beat_final t then Final else Provisional,
      snap_unanalysed = beat_ranges t\<rparr>) (if ok then map_option snap_artifact (ta_beat t) else None)
      = (if ok then ta_beat t else None)" for ok
  proof (cases "ta_beat t")
    case (Some b)
    then show ?thesis
      by (cases b; cases "snap_state b") (auto simp: beat_final_def beat_ranges_def)
  qed simp
  show ?thesis
  proof (cases "no_match active t")
    case False
    then show ?thesis
      unfolding into_analysis_def matching_track
      by (simp add: track_raw_def w b snap keep_matching_def Let_def track_analysis.equality)
  qed (simp add: into_analysis_def matching_track)
qed

text \<open>C35: a stored snapshot reads back. Whatever a valid snapshot was encoded to, decoding the bytes
  under the fingerprint active now returns exactly the snapshot, with an artifact kept only when
  the tag that produced it is the active one, each independently of the other; when no tag matches
  the blob is refused as stale. The range set only has to be rebuilt by inserting its runs.\<close>

theorem track_reads_back:
  assumes "track_valid iter t" and "fold ins (iter (ta_coverage t)) new = ta_coverage t"
    and "track_write_to iter t [] = Inr bytes" and "length bytes \<le> u64_max"
  shows "track_try_from new ins active bytes
    = (if no_match active t then Inl Fingerprint else Inr (keep_matching active t))"
proof -
  have bytes: "bytes = track_bytes iter t" and len: "length (waveform_section t) \<le> u64_max"
      "length (beat_section t) \<le> u64_max"
    using assms(3) track_write_bytes [OF assms(1), of "[]"] by (auto split: if_splits)
  have "ends (raw_read new ins) (track_body iter t) (track_raw t)"
    using assms bytes by (intro ends_raw_read) (simp_all add: track_bytes_def)
  then have "raw_read new ins (rd_at (le_bytes 4 (unat TRACK_ANALYSIS_BYTES_VERSION)) (track_body iter t))
      = Inr (track_raw t, rd_at (track_bytes iter t) [])"
    using assms(4) by (simp add: endsD bytes track_bytes_def sized_def)
  then show ?thesis
    using assms(4) parsesD [OF parses_u32, of "[]" TRACK_ANALYSIS_BYTES_VERSION "track_body iter t"]
    by (simp add: track_try_from_def bytes track_bytes_def reader_new_at sized_def
        into_analysis_track [OF assms(1) len])
qed

lemma read_runs_Inr:
  assumes "read_runs ins n prev c r = Inr (c', r')"
  obtains rs where "runs_ok prev rs" "length rs = n" "c' = fold ins rs c"
proof -
  have "\<exists>rs. runs_ok prev rs \<and> length rs = n \<and> c' = fold ins rs c"
    using assms
  proof (induction n arbitrary: prev c r)
    case (Suc n)
    from Suc.prems obtain s f :: u64 and r2 where
      ok: "unat f \<noteq> 0" "range_frames (unat s, sat_add u64_max (unat s) (unat f)) = unat f"
        "\<not> (case prev of None \<Rightarrow> False | Some e \<Rightarrow> e \<ge> unat s)"
      and rest: "read_runs ins n (Some (sat_add u64_max (unat s) (unat f)))
        (ins (unat s, sat_add u64_max (unat s) (unat f)) c) r2 = Inr (c', r')"
      by (auto simp: rd_bind_Inr rd_fail_def Let_def split: if_splits)
    from Suc.IH [OF rest] obtain rs where rs: "runs_ok (Some (sat_add u64_max (unat s) (unat f))) rs"
        "length rs = n" "c' = fold ins rs (ins (unat s, sat_add u64_max (unat s) (unat f)) c)"
      by blast
    show ?case
      using ok rs by (intro exI [of _ "(unat s, sat_add u64_max (unat s) (unat f)) # rs"])
        (auto simp: range_frames_def sat_add_le split: option.splits)
  qed (auto simp: rd_return_def)
  then show thesis using that by blast
qed

text \<open>The coverage codec accepts only runs that are non-empty, in order, apart from each other
  and inside the range of \<open>u64\<close>, and rebuilds the coverage by inserting exactly those; the number of runs it loops over is bounded by the bytes left.\<close>

lemma coverage_accepts_only_runs:
  assumes "read_coverage new ins r = Inr (c, r')" and "reader_ok r" and "length (r_bytes r) \<le> u64_max"
  shows "\<exists>rs. runs_ok None rs \<and> c = fold ins rs new \<and> 16 * length rs \<le> remaining r"
proof -
  obtain n r1 where n: "read_count 16 r = Inr (n, r1)" "read_runs ins n None new r1 = Inr (c, r')"
    using assms(1) by (auto simp: read_coverage_def rd_bind_Inr)
  then have "read_len r = Inr (n, r1)" "sat_mul u64_max n 16 \<le> remaining r1"
    by (auto simp: read_count_def rd_bind_Inr split: if_splits)
  moreover from consumesD [OF consumes_len this(1) assms(2)] assms(3)
  have "remaining r1 < u64_max" "remaining r1 \<le> remaining r"
    by (auto simp: remaining_def reader_ok_def u64_max_def)
  ultimately have "16 * n \<le> remaining r"
    by (auto simp: sat_mul_def)
  then show ?thesis
    using read_runs_Inr [OF n(2)] by metis
qed

subsection \<open>A worked instance: the range set as its list of runs\<close>

definition demo_track :: "frame_range list track_analysis" where
  "demo_track = \<lparr>ta_fingerprint = \<lparr>fp_beat = Some [98], fp_waveform = Some [119]\<rparr>, ta_token = [116],
     ta_source_sample_rate = 44100, ta_media_origin = Some 1500000000,
     ta_beat = Some \<lparr>snap_artifact = demo_beat, snap_state = Final, snap_unanalysed = [(100, 150)]\<rparr>,
     ta_extent = Some 64, ta_waveform = Some demo_waveform, ta_coverage = [(0, 10), (20, 64)],
     ta_settled = True, ta_revision = 7\<rparr>"

lemma demo_track_valid: "track_valid id demo_track"
  using demo_beat_valid demo_waveform_valid
  by (simp add: track_valid_def demo_track_def tag_ok_def tag_def snapshot_ok_def u32_max_def u64_max_def)

lemma demo_track_sections:
  "length (waveform_section demo_track) = 16" "length (beat_section demo_track) = 108"
  by (simp_all add: waveform_section_def beat_section_def demo_track_def demo_waveform_length demo_beat_length)

theorem track_reads_back_witness:
  "track_try_from [] (\<lambda>run rs. rs @ [run]) \<lparr>fp_beat = Some [120], fp_waveform = Some [119]\<rparr>
     (track_bytes id demo_track)
   = Inr (demo_track\<lparr>ta_fingerprint := \<lparr>fp_beat = None, fp_waveform = Some [119]\<rparr>, ta_beat := None\<rparr>)"
proof -
  have w: "track_write_to id demo_track [] = Inr (track_bytes id demo_track)"
    using track_write_bytes [OF demo_track_valid, of "[]"] demo_track_sections by (simp add: u64_max_def)
  have l: "length (track_bytes id demo_track) \<le> u64_max"
    using demo_track_sections
    by (simp add: track_bytes_def track_body_def str_bytes_def origin_bytes_def optional_bytes_def
        runs_bytes_def u64_max_def) (simp add: demo_track_def tag_def beat_ranges_def)
  have c: "fold (\<lambda>run rs. rs @ [run]) (id (ta_coverage demo_track)) [] = ta_coverage demo_track"
    by (simp add: demo_track_def)
  show ?thesis
    using track_reads_back [OF demo_track_valid c w l]
    by (simp add: no_match_def keep_matching_def demo_track_def tag_def)
qed

end
