(* ===== verification/Mpa.thy ===== *)
theory Mpa
  imports Blob
begin

text \<open>
  MPEG audio frame headers and the tags of the first frame (\<open>crates/kithara-mpa/src\<close>:
  \<open>common.rs\<close>, \<open>consts.rs\<close>, \<open>header.rs\<close>, \<open>tags.rs\<close>).  Header words
  are 32-bit words; rates and sizes are naturals, and the arithmetic of the code is shown to stay
  inside its types.  A byte stream is the list of bytes left, and reading past its end is the
  only I/O error.  The checksum of \<open>symphonia_core\<close> is a parameter.
\<close>

subsection \<open>Headers\<close>

datatype mpeg_version = Mpeg2p5 | Mpeg2 | Mpeg1
datatype mpeg_layer = Layer1 | Layer2 | Layer3
datatype channel_mode = Mono | DualMono | Stereo | JointStereo

record frame_header =
  fh_channel_mode :: channel_mode
  fh_layer :: mpeg_layer
  fh_version :: mpeg_version
  fh_has_crc :: bool
  fh_bitrate :: nat
  fh_sample_rate :: nat
  fh_frame_size :: nat

datatype mpa_error = MDecode string | MUnsupported string | MEof

definition channel_count :: "channel_mode \<Rightarrow> nat" where
  "channel_count mode = (case mode of Mono \<Rightarrow> 1 | _ \<Rightarrow> 2)"

definition n_granules :: "frame_header \<Rightarrow> nat" where
  "n_granules h = (case fh_version h of Mpeg1 \<Rightarrow> 2 | _ \<Rightarrow> 1)"

definition num_frames :: "frame_header \<Rightarrow> nat" where
  "num_frames h = (case fh_layer h of Layer1 \<Rightarrow> 384 | Layer2 \<Rightarrow> 1152 | Layer3 \<Rightarrow> 576 * n_granules h)"

definition side_info_len :: "frame_header \<Rightarrow> nat" where
  "side_info_len h =
     (case (fh_version h, fh_channel_mode h) of
        (Mpeg1, Mono) \<Rightarrow> 17 | (Mpeg1, _) \<Rightarrow> 32 | (_, Mono) \<Rightarrow> 9 | (_, _) \<Rightarrow> 17)"

definition BIT_RATES_MPEG1_L1 :: "nat list" where
  "BIT_RATES_MPEG1_L1 = [0, 32000, 64000, 96000, 128000, 160000, 192000, 224000, 256000, 288000,
     320000, 352000, 384000, 416000, 448000]"

definition BIT_RATES_MPEG1_L2 :: "nat list" where
  "BIT_RATES_MPEG1_L2 = [0, 32000, 48000, 56000, 64000, 80000, 96000, 112000, 128000, 160000,
     192000, 224000, 256000, 320000, 384000]"

definition BIT_RATES_MPEG1_L3 :: "nat list" where
  "BIT_RATES_MPEG1_L3 = [0, 32000, 40000, 48000, 56000, 64000, 80000, 96000, 112000, 128000,
     160000, 192000, 224000, 256000, 320000]"

definition BIT_RATES_MPEG2_L1 :: "nat list" where
  "BIT_RATES_MPEG2_L1 = [0, 32000, 48000, 56000, 64000, 80000, 96000, 112000, 128000, 144000,
     160000, 176000, 192000, 224000, 256000]"

definition BIT_RATES_MPEG2_L23 :: "nat list" where
  "BIT_RATES_MPEG2_L23 = [0, 8000, 16000, 24000, 32000, 40000, 48000, 56000, 64000, 80000, 96000,
     112000, 128000, 144000, 160000]"

definition BIT_RATES_INVALID_L2_MONO :: "nat list" where
  "BIT_RATES_INVALID_L2_MONO = [224000, 256000, 320000, 384000]"

definition BIT_RATES_INVALID_L2_STEREO :: "nat list" where
  "BIT_RATES_INVALID_L2_STEREO = [32000, 48000, 56000, 80000]"

definition MPEG_HEADER_LEN :: nat where
  "MPEG_HEADER_LEN = 4"

definition MAX_MPEG_FRAME_SIZE :: nat where
  "MAX_MPEG_FRAME_SIZE = 2881"

text \<open>\<open>(header & MASK) >> SHIFT\<close> for the masks of \<open>consts.rs\<close>.\<close>

definition version_bits :: "u32 \<Rightarrow> nat" where
  "version_bits h = unat (drop_bit 19 (and h 0x180000))"

definition layer_bits :: "u32 \<Rightarrow> nat" where
  "layer_bits h = unat (drop_bit 17 (and h 0x60000))"

definition bitrate_bits :: "u32 \<Rightarrow> nat" where
  "bitrate_bits h = unat (drop_bit 12 (and h 0xf000))"

definition sample_rate_bits :: "u32 \<Rightarrow> nat" where
  "sample_rate_bits h = unat (drop_bit 10 (and h 0xc00))"

definition channel_mode_bits :: "u32 \<Rightarrow> nat" where
  "channel_mode_bits h = unat (drop_bit 6 (and h 0xc0))"

definition sample_rates_get :: "mpeg_version \<Rightarrow> nat \<Rightarrow> nat option" where
  "sample_rates_get version index =
     (let rates = (case version of
          Mpeg1 \<Rightarrow> [44100, 48000, 32000]
        | Mpeg2 \<Rightarrow> [22050, 24000, 16000]
        | Mpeg2p5 \<Rightarrow> [11025, 12000, 8000])
      in if index < length rates then Some (rates ! index) else None)"

definition check_header :: "u32 \<Rightarrow> bool" where
  "check_header h =
     (if version_bits h = 1 then False
      else if layer_bits h = 0 then False
      else if bitrate_bits h = 15 then False
      else if sample_rates_get Mpeg1 (sample_rate_bits h) = None then False
      else True)"

definition is_frame_header_word_synced :: "u32 \<Rightarrow> bool" where
  "is_frame_header_word_synced sync = (and sync 0xffe00000 = 0xffe00000)"

definition shift_in :: "u32 \<Rightarrow> byte \<Rightarrow> u32" where
  "shift_in sync b = or (push_bit 8 sync) (ucast b)"

text \<open>The two nested loops of \<open>sync_frame\<close>: a word that is not synced, or is synced and
  fails the check, takes in one more byte.\<close>

fun sync_loop :: "u32 \<Rightarrow> byte list \<Rightarrow> (mpa_error, u32 \<times> byte list) result" where
  "sync_loop sync [] =
     (if \<not> is_frame_header_word_synced sync then Inl MEof
      else if check_header sync then Inr (sync, [])
      else Inl MEof)"
| "sync_loop sync (b # bs) =
     (if \<not> is_frame_header_word_synced sync then sync_loop (shift_in sync b) bs
      else if check_header sync then Inr (sync, b # bs)
      else sync_loop (shift_in sync b) bs)"

definition sync_frame :: "byte list \<Rightarrow> (mpa_error, u32 \<times> byte list) result" where
  "sync_frame bs = sync_loop 0 bs"

definition parse_version :: "nat \<Rightarrow> mpeg_version option" where
  "parse_version v =
     (if v = 0 then Some Mpeg2p5 else if v = 2 then Some Mpeg2 else if v = 3 then Some Mpeg1 else None)"

definition parse_layer :: "nat \<Rightarrow> mpeg_layer option" where
  "parse_layer l =
     (if l = 1 then Some Layer3 else if l = 2 then Some Layer2 else if l = 3 then Some Layer1 else None)"

definition parse_bitrate :: "nat \<Rightarrow> mpeg_version \<Rightarrow> mpeg_layer \<Rightarrow> (mpa_error, nat) result" where
  "parse_bitrate i version layer =
     (if i = 0 then Inl (MUnsupported ''mpa: free bit-rate is not supported'')
      else if i = 15 then Inl (MDecode ''mpa: invalid bit-rate'')
      else Inr ((case (version, layer) of
          (Mpeg1, Layer1) \<Rightarrow> BIT_RATES_MPEG1_L1
        | (Mpeg1, Layer2) \<Rightarrow> BIT_RATES_MPEG1_L2
        | (Mpeg1, Layer3) \<Rightarrow> BIT_RATES_MPEG1_L3
        | (_, Layer1) \<Rightarrow> BIT_RATES_MPEG2_L1
        | (_, _) \<Rightarrow> BIT_RATES_MPEG2_L23) ! i))"

definition parse_channel_mode :: "nat \<Rightarrow> channel_mode" where
  "parse_channel_mode c =
     (if c = 0 then Stereo else if c = 2 then DualMono else if c = 3 then Mono else JointStereo)"

definition frame_factor :: "mpeg_version \<Rightarrow> mpeg_layer \<Rightarrow> nat" where
  "frame_factor version layer =
     (case layer of Layer1 \<Rightarrow> 12 | Layer2 \<Rightarrow> 144
      | Layer3 \<Rightarrow> if version = Mpeg1 then 144 else 72)"

definition slot_size :: "mpeg_layer \<Rightarrow> nat" where
  "slot_size layer = (case layer of Layer1 \<Rightarrow> 4 | _ \<Rightarrow> 1)"

definition frame_size_slots :: "mpeg_version \<Rightarrow> mpeg_layer \<Rightarrow> nat \<Rightarrow> nat \<Rightarrow> bool \<Rightarrow> nat" where
  "frame_size_slots version layer bitrate sample_rate padding =
     frame_factor version layer * bitrate div sample_rate + (if padding then 1 else 0)"

definition layer2_ok :: "mpeg_layer \<Rightarrow> channel_mode \<Rightarrow> nat \<Rightarrow> (mpa_error, unit) result" where
  "layer2_ok layer mode bitrate =
     (if layer = Layer2 then
        (if mode = Mono then
           (if bitrate \<in> set BIT_RATES_INVALID_L2_MONO
            then Inl (MDecode ''mpa: invalid Layer 2 bitrate for mono channel mode'') else Inr ())
         else if bitrate \<in> set BIT_RATES_INVALID_L2_STEREO
         then Inl (MDecode ''mpa: invalid Layer 2 bitrate for non-mono channel mode'') else Inr ())
      else Inr ())"

definition parse_frame_header :: "u32 \<Rightarrow> (mpa_error, frame_header) result" where
  "parse_frame_header h =
     res_bind (ok_or (MDecode ''mpa: invalid MPEG version'') (parse_version (version_bits h))) (\<lambda>version.
     res_bind (ok_or (MDecode ''mpa: invalid MPEG layer'') (parse_layer (layer_bits h))) (\<lambda>layer.
     res_bind (parse_bitrate (bitrate_bits h) version layer) (\<lambda>bitrate.
     res_bind (ok_or (MDecode ''mpa: invalid sample rate'')
       (sample_rates_get version (sample_rate_bits h))) (\<lambda>sample_rate.
     let channel_mode = parse_channel_mode (channel_mode_bits h) in
     res_bind (layer2_ok layer channel_mode bitrate) (\<lambda>_.
     let has_padding = (and h 0x200 \<noteq> 0); has_crc = (and h 0x10000 = 0);
         slots = frame_size_slots version layer bitrate sample_rate has_padding
     in Inr \<lparr>fh_channel_mode = channel_mode, fh_layer = layer, fh_version = version,
          fh_has_crc = has_crc, fh_bitrate = bitrate, fh_sample_rate = sample_rate,
          fh_frame_size = slots * slot_size layer - MPEG_HEADER_LEN\<rparr>)))))"

subsection \<open>Tags of the first frame\<close>

record lame_tag =
  enc_delay :: nat
  enc_padding :: nat

record xing_info_tag =
  xi_lame :: "lame_tag option"
  xi_num_frames :: "u32 option"

text \<open>A reader over the bytes of the frame; \<open>None\<close> is the error that the callers swallow.\<close>

type_synonym 'a br = "byte list \<Rightarrow> ('a \<times> byte list) option"

definition br_bind :: "'a br \<Rightarrow> ('a \<Rightarrow> 'b br) \<Rightarrow> 'b br" where
  "br_bind m f bs = (case m bs of None \<Rightarrow> None | Some (a, bs') \<Rightarrow> f a bs')"

definition br_return :: "'a \<Rightarrow> 'a br" where
  "br_return a bs = Some (a, bs)"

definition br_take :: "nat \<Rightarrow> byte list br" where
  "br_take n bs = (if n \<le> length bs then Some (take n bs, drop n bs) else None)"

definition br_be :: "nat \<Rightarrow> nat br" where
  "br_be n = br_bind (br_take n) (\<lambda>bs. br_return (be_nat bs))"

definition is_xing_id :: "byte list \<Rightarrow> bool" where
  "is_xing_id ident \<longleftrightarrow> ident = bytes_of ''Xing'' \<or> ident = bytes_of ''Info''"

definition slice :: "nat \<Rightarrow> nat \<Rightarrow> 'a list \<Rightarrow> 'a list" where
  "slice a b xs = take (b - a) (drop a xs)"

definition is_maybe_info_tag :: "byte list \<Rightarrow> frame_header \<Rightarrow> bool" where
  "is_maybe_info_tag buf h =
     (if fh_layer h \<noteq> Layer3 then False
      else let offset = side_info_len h + MPEG_HEADER_LEN
           in if length buf < offset + 8 then False
              else if \<not> is_xing_id (slice offset (offset + 4) buf) then False
              else \<not> (\<exists>b \<in> set (slice MPEG_HEADER_LEN offset buf). b \<noteq> 0))"

definition read_xing_fields :: "u32 option br" where
  "read_xing_fields =
     br_bind (br_be 4) (\<lambda>fl. let flags = of_nat fl :: u32 in
     br_bind (if and flags 0x1 \<noteq> 0 then br_bind (br_be 4) (\<lambda>n. br_return (Some (of_nat n)))
              else br_return None) (\<lambda>num_frames.
     br_bind (if and flags 0x2 \<noteq> 0 then br_bind (br_be 4) (\<lambda>_. br_return ()) else br_return ()) (\<lambda>_.
     br_bind (if and flags 0x4 \<noteq> 0 then br_bind (br_take 100) (\<lambda>_. br_return ()) else br_return ()) (\<lambda>_.
     br_bind (if and flags 0x8 \<noteq> 0 then br_bind (br_be 4) (\<lambda>_. br_return ()) else br_return ()) (\<lambda>_.
       br_return num_frames)))))"

definition LAME_LAYOUT_DECODER_DELAY :: nat where
  "LAME_LAYOUT_DECODER_DELAY = 529"

definition known_encoder :: "byte list \<Rightarrow> bool" where
  "known_encoder encoder \<longleftrightarrow> take 4 encoder = bytes_of ''LAME'' \<or> take 4 encoder = bytes_of ''Lavf''
     \<or> take 4 encoder = bytes_of ''Lavc''"

definition lame_trim :: "byte list \<Rightarrow> nat \<Rightarrow> lame_tag" where
  "lame_trim encoder trim =
     (if known_encoder encoder
      then \<lparr>enc_delay = LAME_LAYOUT_DECODER_DELAY + trim div 2 ^ 12,
            enc_padding = trim mod 2 ^ 12 - LAME_LAYOUT_DECODER_DELAY\<rparr>
      else \<lparr>enc_delay = 0, enc_padding = 0\<rparr>)"

definition read_lame_extension :: "(byte list \<times> lame_tag) br" where
  "read_lame_extension =
     br_bind (br_take 9) (\<lambda>encoder.
     br_bind (br_be 1) (\<lambda>_. br_bind (br_be 1) (\<lambda>_.
     br_bind (br_be 4) (\<lambda>_. br_bind (br_be 2) (\<lambda>_. br_bind (br_be 2) (\<lambda>_.
     br_bind (br_be 1) (\<lambda>_. br_bind (br_be 1) (\<lambda>_.
     br_bind (br_be 3) (\<lambda>trim. br_return (encoder, lame_trim encoder trim))))))))))"

text \<open>The trailer, the stored checksum when there is one, and the bytes that were left when the
  monitored reader stopped: the checksum itself is read past the monitor.\<close>

definition read_lame_trailer :: "frame_header \<Rightarrow> byte list \<Rightarrow> (nat option \<times> byte list) br" where
  "read_lame_trailer h encoder bs =
     (if length bs \<ge> 36 - 24
      then br_bind (br_be 1) (\<lambda>_. br_bind (br_be 1) (\<lambda>_. br_bind (br_be 2) (\<lambda>_.
           br_bind (br_be 4) (\<lambda>_. br_bind (br_be 2) (\<lambda>_ rest.
             if fh_has_crc h \<or> take 4 encoder = bytes_of ''LAME''
             then br_bind (br_be 2) (\<lambda>crc. br_return (Some crc, rest)) rest
             else Some ((None, rest), rest)))))) bs
      else Some ((None, bs), bs))"

definition read_info_body ::
    "(byte list \<Rightarrow> nat) \<Rightarrow> byte list \<Rightarrow> frame_header \<Rightarrow> xing_info_tag option br" where
  "read_info_body crc16 buf h =
     br_bind (br_take 4) (\<lambda>ident.
     if \<not> is_xing_id ident then br_return None
     else br_bind read_xing_fields (\<lambda>num_frames rest.
       if length rest \<ge> 24
       then br_bind read_lame_extension (\<lambda>(encoder, trim).
            br_bind (read_lame_trailer h encoder) (\<lambda>(crc, monitored).
              let seen = take (length buf - length monitored) buf;
                  is_tag_ok = (case crc of None \<Rightarrow> True | Some c \<Rightarrow> c = 0 \<or> c = crc16 seen)
              in br_return (Some \<lparr>xi_lame = (if is_tag_ok then Some trim else None),
                                  xi_num_frames = num_frames\<rparr>))) rest
       else Some (Some \<lparr>xi_lame = None, xi_num_frames = num_frames\<rparr>, rest)))"

definition try_read_info_tag ::
    "(byte list \<Rightarrow> nat) \<Rightarrow> byte list \<Rightarrow> frame_header \<Rightarrow> xing_info_tag option" where
  "try_read_info_tag crc16 buf h =
     (if \<not> is_maybe_info_tag buf h then None
      else case read_info_body crc16 buf h (drop (side_info_len h + MPEG_HEADER_LEN) buf) of
             None \<Rightarrow> None | Some (tag, _) \<Rightarrow> tag)"

definition VBRI_TAG_OFFSET :: nat where
  "VBRI_TAG_OFFSET = 36"

definition is_maybe_vbri_tag :: "byte list \<Rightarrow> frame_header \<Rightarrow> bool" where
  "is_maybe_vbri_tag buf h =
     (if fh_layer h \<noteq> Layer3 then False
      else if length buf < VBRI_TAG_OFFSET + 26 then False
      else if slice VBRI_TAG_OFFSET (VBRI_TAG_OFFSET + 4) buf \<noteq> bytes_of ''VBRI'' then False
      else \<not> (\<exists>b \<in> set (slice MPEG_HEADER_LEN VBRI_TAG_OFFSET buf). b \<noteq> 0))"

definition try_read_vbri_tag :: "byte list \<Rightarrow> frame_header \<Rightarrow> nat option" where
  "try_read_vbri_tag buf h =
     (if \<not> is_maybe_vbri_tag buf h then None
      else case
        br_bind (br_take VBRI_TAG_OFFSET) (\<lambda>_. br_bind (br_take 4) (\<lambda>ident.
          if ident \<noteq> bytes_of ''VBRI'' then br_return None
          else br_bind (br_be 2) (\<lambda>version.
            if version \<noteq> 1 then br_return None
            else br_bind (br_be 2) (\<lambda>_. br_bind (br_be 2) (\<lambda>_. br_bind (br_be 4) (\<lambda>_.
                 br_bind (br_be 4) (\<lambda>num_mpeg_frames. br_return (Some num_mpeg_frames)))))))) buf
      of None \<Rightarrow> None | Some (tag, _) \<Rightarrow> tag)"

subsection \<open>Frame sizes\<close>

lemma unat_drop_mask:
  assumes "unat m < 2 ^ (k + n)"
  shows "unat (drop_bit k (and h m :: u32)) < 2 ^ n"
proof -
  have "unat (and h m) \<le> unat m"
    by (metis word_and_le1 word_le_nat_alt)
  then have "unat (and h m) < 2 ^ k * 2 ^ n"
    using assms by (simp add: power_add)
  then have "unat (and h m) div 2 ^ k < 2 ^ n"
    by (simp add: less_mult_imp_div_less mult.commute)
  then show ?thesis
    unfolding unat_drop_bit_eq by (simp add: drop_bit_eq_div)
qed

lemma field_bounds:
  "version_bits h < 4" "layer_bits h < 4" "bitrate_bits h < 16" "sample_rate_bits h < 4"
  "channel_mode_bits h < 4"
  using unat_drop_mask [of "0x180000" 19 2 h] unat_drop_mask [of "0x60000" 17 2 h]
    unat_drop_mask [of "0xf000" 12 4 h] unat_drop_mask [of "0xc00" 10 2 h]
    unat_drop_mask [of "0xc0" 6 2 h]
  by (simp_all add: version_bits_def layer_bits_def bitrate_bits_def sample_rate_bits_def
      channel_mode_bits_def)

definition bitrate_range :: "mpeg_version \<Rightarrow> mpeg_layer \<Rightarrow> nat \<times> nat" where
  "bitrate_range v l =
     (case (v, l) of
        (Mpeg1, Layer1) \<Rightarrow> (32000, 448000) | (Mpeg1, Layer2) \<Rightarrow> (32000, 384000)
      | (Mpeg1, Layer3) \<Rightarrow> (32000, 320000) | (_, Layer1) \<Rightarrow> (32000, 256000) | (_, _) \<Rightarrow> (8000, 160000))"

definition sample_rate_range :: "mpeg_version \<Rightarrow> nat \<times> nat" where
  "sample_rate_range v =
     (case v of Mpeg1 \<Rightarrow> (32000, 48000) | Mpeg2 \<Rightarrow> (16000, 24000) | Mpeg2p5 \<Rightarrow> (8000, 12000))"

lemma nth_tl_mem: "0 < i \<Longrightarrow> i < length xs \<Longrightarrow> xs ! i \<in> set (tl xs)"
  by (cases xs; cases i) auto

lemmas bit_rate_tables = BIT_RATES_MPEG1_L1_def BIT_RATES_MPEG1_L2_def BIT_RATES_MPEG1_L3_def
  BIT_RATES_MPEG2_L1_def BIT_RATES_MPEG2_L23_def

lemma parse_bitrate_range:
  assumes "parse_bitrate i v l = Inr b" "i < 16"
  shows "fst (bitrate_range v l) \<le> b \<and> b \<le> snd (bitrate_range v l)"
proof -
  have i: "0 < i" "i < 15"
    using assms by (auto simp: parse_bitrate_def split: if_splits)
  have t: "0 < i \<Longrightarrow> i < length xs \<Longrightarrow> \<forall>x \<in> set (tl xs). P x \<Longrightarrow> P (xs ! i)" for xs :: "nat list" and P
    using nth_tl_mem by blast
  show ?thesis
    using assms i
    by (cases v; cases l)
      (auto simp: parse_bitrate_def bitrate_range_def intro!: t [where P = "\<lambda>b. _ \<le> b"]
        t [where P = "\<lambda>b. b \<le> _"], (auto simp: bit_rate_tables)+)
qed

lemma sample_rates_get_range:
  "sample_rates_get v i = Some r \<Longrightarrow> fst (sample_rate_range v) \<le> r \<and> r \<le> snd (sample_rate_range v)"
  by (cases v) (auto simp: sample_rates_get_def sample_rate_range_def less_Suc_eq numeral_3_eq_3
      split: if_splits)

lemma parse_frame_header_Inr:
  assumes "parse_frame_header h = Inr fh"
  shows "parse_version (version_bits h) = Some (fh_version fh)" "parse_layer (layer_bits h) = Some (fh_layer fh)"
    "parse_bitrate (bitrate_bits h) (fh_version fh) (fh_layer fh) = Inr (fh_bitrate fh)"
    "sample_rates_get (fh_version fh) (sample_rate_bits h) = Some (fh_sample_rate fh)"
    "fh_frame_size fh = frame_size_slots (fh_version fh) (fh_layer fh) (fh_bitrate fh) (fh_sample_rate fh)
       (and h 0x200 \<noteq> 0) * slot_size (fh_layer fh) - MPEG_HEADER_LEN"
  using assms by (auto simp: parse_frame_header_def res_bind_Inr Let_def)

lemma slots_range:
  fixes f b r :: nat
  assumes "blo \<le> b" "b \<le> bhi" "rlo \<le> r" "r \<le> rhi" "0 < rlo"
  shows "f * blo div rhi \<le> f * b div r" "f * b div r \<le> f * bhi div rlo"
proof -
  have "f * blo div rhi \<le> f * b div rhi"
    using assms by (intro div_le_mono mult_le_mono2)
  also have "\<dots> \<le> f * b div r"
    using assms by (intro div_le_mono2) auto
  finally show "f * blo div rhi \<le> f * b div r" .
  have "f * b div r \<le> f * bhi div r"
    using assms by (intro div_le_mono mult_le_mono2)
  also have "\<dots> \<le> f * bhi div rlo"
    using assms by (intro div_le_mono2) auto
  finally show "f * b div r \<le> f * bhi div rlo" .
qed

text \<open>A header that parses describes a frame of a bounded size, and computing it stays inside
  the types of the code: the product of factor and bit-rate fits in \<open>u32\<close>, the length of the
  header can be subtracted, and header and body together are at most the maximal frame size.\<close>

lemma frame_size_bounded:
  assumes "parse_frame_header h = Inr fh"
  shows "frame_factor (fh_version fh) (fh_layer fh) * fh_bitrate fh \<le> u32_max
    \<and> MPEG_HEADER_LEN \<le> frame_size_slots (fh_version fh) (fh_layer fh) (fh_bitrate fh) (fh_sample_rate fh)
          (and h 0x200 \<noteq> 0) * slot_size (fh_layer fh)
    \<and> 0 < fh_frame_size fh \<and> fh_frame_size fh + MPEG_HEADER_LEN \<le> MAX_MPEG_FRAME_SIZE"
proof -
  note p = parse_frame_header_Inr [OF assms]
  let ?v = "fh_version fh" and ?l = "fh_layer fh" and ?b = "fh_bitrate fh" and ?r = "fh_sample_rate fh"
  have b: "fst (bitrate_range ?v ?l) \<le> ?b" "?b \<le> snd (bitrate_range ?v ?l)"
    using parse_bitrate_range [OF p(3) field_bounds(3)] by auto
  have r: "fst (sample_rate_range ?v) \<le> ?r" "?r \<le> snd (sample_rate_range ?v)"
    using sample_rates_get_range [OF p(4)] by auto
  have pos: "0 < fst (sample_rate_range ?v)"
    by (cases ?v) (simp_all add: sample_rate_range_def)
  note s = slots_range [OF b r pos, of "frame_factor ?v ?l"]
  have f: "frame_factor ?v ?l * ?b \<le> u32_max"
    using b by (cases ?v; cases ?l) (auto simp: frame_factor_def bitrate_range_def u32_max_def)
  have lo: "MPEG_HEADER_LEN < frame_size_slots ?v ?l ?b ?r pad * slot_size ?l" for pad
    using s(1) by (cases ?v; cases ?l)
      (auto simp: frame_size_slots_def frame_factor_def bitrate_range_def sample_rate_range_def
        slot_size_def MPEG_HEADER_LEN_def)
  have hi: "frame_size_slots ?v ?l ?b ?r pad * slot_size ?l \<le> MAX_MPEG_FRAME_SIZE" for pad
    using s(2) by (cases ?v; cases ?l)
      (auto simp: frame_size_slots_def frame_factor_def bitrate_range_def sample_rate_range_def
        slot_size_def MAX_MPEG_FRAME_SIZE_def)
  show ?thesis
    using f lo [of "and h 0x200 \<noteq> 0"] hi [of "and h 0x200 \<noteq> 0"] p(5) by linarith
qed

subsection \<open>The quick check and the parser agree\<close>

lemma parse_version_Some: "v < 4 \<Longrightarrow> (\<exists>x. parse_version v = Some x) \<longleftrightarrow> v \<noteq> 1"
  by (auto simp: parse_version_def)

lemma parse_layer_Some: "l < 4 \<Longrightarrow> (\<exists>x. parse_layer l = Some x) \<longleftrightarrow> l \<noteq> 0"
  by (auto simp: parse_layer_def)

lemma sample_rates_get_None: "sample_rates_get v i = None \<longleftrightarrow> 3 \<le> i"
  by (cases v) (auto simp: sample_rates_get_def)

definition rejected_later :: "mpa_error \<Rightarrow> bool" where
  "rejected_later e \<longleftrightarrow> e = MUnsupported ''mpa: free bit-rate is not supported''
     \<or> e = MDecode ''mpa: invalid Layer 2 bitrate for mono channel mode''
     \<or> e = MDecode ''mpa: invalid Layer 2 bitrate for non-mono channel mode''"

text \<open>The check the synchroniser makes is exactly the part of the parser that does not depend
  on the bit-rate: a header word with a valid sample rate passes it if and only if parsing it
  succeeds or fails only because of the free bit-rate or of a bit-rate layer 2 excludes.\<close>

lemma check_header_iff_parse:
  "check_header h \<longleftrightarrow> sample_rate_bits h < 3
     \<and> (case parse_frame_header h of Inr _ \<Rightarrow> True | Inl e \<Rightarrow> rejected_later e)"
proof (cases "parse_version (version_bits h)")
  case None
  then have "version_bits h = 1"
    using parse_version_Some [OF field_bounds(1), of h] by auto
  with None show ?thesis
    by (simp add: check_header_def parse_frame_header_def rejected_later_def)
next
  case v: (Some v)
  show ?thesis
  proof (cases "parse_layer (layer_bits h)")
    case None
    then have "layer_bits h = 0"
      using parse_layer_Some [OF field_bounds(2), of h] by auto
    with None v show ?thesis
      by (simp add: check_header_def parse_frame_header_def rejected_later_def)
  next
    case l: (Some l)
    have vl: "version_bits h \<noteq> 1" "layer_bits h \<noteq> 0"
      using v l parse_version_Some [OF field_bounds(1), of h] parse_layer_Some [OF field_bounds(2), of h] by auto
    have c: "check_header h \<longleftrightarrow> bitrate_bits h \<noteq> 15 \<and> sample_rate_bits h < 3"
      using vl by (auto simp: check_header_def sample_rates_get_None)
    show ?thesis
    proof (cases "sample_rates_get v (sample_rate_bits h)")
      case None
      with c show ?thesis by (simp add: sample_rates_get_None)
    next
      case (Some r)
      then have "sample_rate_bits h < 3"
        using sample_rates_get_None [of v "sample_rate_bits h"] by simp
      then show ?thesis
        using v l Some unfolding c
        by (auto simp: parse_frame_header_def parse_bitrate_def layer2_ok_def rejected_later_def Let_def)
    qed
  qed
qed

subsection \<open>Synchronisation finds the first frame\<close>

definition frame_word :: "u32 \<Rightarrow> bool" where
  "frame_word w \<longleftrightarrow> is_frame_header_word_synced w \<and> check_header w"

definition be_word :: "byte list \<Rightarrow> u32" where
  "be_word bs = foldl shift_in 0 bs"

lemma be_word_snoc: "be_word (bs @ [b]) = shift_in (be_word bs) b"
  by (simp add: be_word_def)

lemma push_bit_32: "push_bit 32 (w :: u32) = 0"
  by (rule bit_word_eqI) (simp add: bit_simps)

lemma be_word_last4:
  assumes "length bs = 4" shows "be_word (as @ bs) = be_word bs"
proof -
  obtain a b c d where bs: "bs = [a, b, c, d]"
    using assms by (auto simp: length_Suc_conv numeral_eq_Suc)
  have "foldl shift_in w bs = or (push_bit 32 w) (foldl shift_in 0 bs)" for w
    by (simp add: bs shift_in_def push_bit_or or.assoc)
  then show ?thesis
    by (simp add: be_word_def push_bit_32)
qed

lemma be_word_short:
  assumes "length bs < 4" shows "\<not> frame_word (be_word bs)"
proof -
  consider "bs = []" | a where "bs = [a]" | a b where "bs = [a, b]" | a b c where "bs = [a, b, c]"
    using assms by (cases bs rule: remdups_adj.cases; auto simp: length_Suc_conv less_Suc_eq numeral_eq_Suc)
  then have "\<not> bit (be_word bs) 31"
    by cases (auto simp: be_word_def shift_in_def bit_simps dest: bit_imp_le_length)
  moreover have "bit (and w 0xffe00000 :: u32) 31 = bit w 31" for w
    by (simp add: bit_simps)
  moreover have "bit (0xffe00000 :: u32) 31"
    by simp
  ultimately show ?thesis
    by (metis frame_word_def is_frame_header_word_synced_def)
qed

lemma sync_loop_find:
  "sync_loop (be_word pre) bs =
     (case find (\<lambda>k. frame_word (be_word (take k (pre @ bs)))) [length pre..<length pre + length bs + 1] of
        None \<Rightarrow> Inl MEof
      | Some k \<Rightarrow> Inr (be_word (take k (pre @ bs)), drop k (pre @ bs)))"
proof (induction bs arbitrary: pre)
  case Nil
  then show ?case by (simp add: frame_word_def)
next
  case (Cons b bs)
  have upt: "[length pre..<length pre + length (b # bs) + 1]
      = length pre # [length (pre @ [b])..<length (pre @ [b]) + length bs + 1]"
    by (subst upt_conv_Cons) simp_all
  define t where "t = pre @ b # bs"
  let ?ks = "[length (pre @ [b])..<length (pre @ [b]) + length bs + 1]"
  have t: "take (length pre) t = pre" "drop (length pre) t = b # bs"
    by (simp_all add: t_def)
  have IH: "sync_loop (be_word (pre @ [b])) bs
      = (case find (\<lambda>k. frame_word (be_word (take k t))) ?ks of
           None \<Rightarrow> Inl MEof | Some k \<Rightarrow> Inr (be_word (take k t), drop k t))"
    unfolding t_def using Cons.IH [of "pre @ [b]"] by (simp only: append_assoc append_Cons append_Nil)
  have "sync_loop (be_word pre) (b # bs)
      = (if frame_word (be_word pre) then Inr (be_word pre, b # bs)
         else sync_loop (be_word (pre @ [b])) bs)"
    by (simp add: frame_word_def be_word_snoc)
  then show ?case
    unfolding upt t_def [symmetric] IH by (simp add: t del: upt_Suc)
qed

lemma find_map_shift: "find P (map f xs) = map_option f (find (\<lambda>x. P (f x)) xs)"
  by (induction xs) auto

lemma find_none_prefix: "\<forall>x \<in> set xs. \<not> P x \<Longrightarrow> find P (xs @ ys) = find P ys"
  by (induction xs) auto

lemma find_cong_set: "(\<And>x. x \<in> set xs \<Longrightarrow> P x = Q x) \<Longrightarrow> find P xs = find Q xs"
  by (induction xs) auto

lemma be_word_take: "n + 4 \<le> length bs \<Longrightarrow> be_word (take (n + 4) bs) = be_word (slice n (n + 4) bs)"
  using be_word_last4 [of "take 4 (drop n bs)" "take n bs"] by (simp add: slice_def take_add)

text \<open>Synchronisation is a search: it returns the first window of four bytes that reads,
  big-endian, as a plausible frame header, and leaves the stream right behind it; it fails only
  at the end of a stream that holds no such window.\<close>

lemma sync_frame_finds_first:
  "sync_frame bs =
     (case find (\<lambda>n. frame_word (be_word (slice n (n + 4) bs))) [0..<length bs - 3] of
        None \<Rightarrow> Inl MEof
      | Some n \<Rightarrow> Inr (be_word (slice n (n + 4) bs), drop (n + 4) bs))"
proof -
  let ?P = "\<lambda>k. frame_word (be_word (take k bs))"
  let ?Q = "\<lambda>n. frame_word (be_word (slice n (n + 4) bs))"
  have short: "\<not> ?P k" if "k < 4" for k
    using that be_word_short [of "take k bs"] by simp
  have "find ?P [0..<length bs + 1] = map_option (\<lambda>n. n + 4) (find ?Q [0..<length bs - 3])"
  proof (cases "length bs < 4")
    case True
    then have "find ?P [0..<length bs + 1] = None"
      using short by (auto simp: find_None_iff)
    with True show ?thesis by simp
  next
    case False
    then have "[0..<length bs + 1] = [0..<4] @ map (\<lambda>n. n + 4) [0..<length bs - 3]"
      using upt_add_eq_append [of 0 4 "length bs - 3"] by (simp add: map_add_upt add.commute del: upt_Suc)
    then have "find ?P [0..<length bs + 1] = find ?P (map (\<lambda>n. n + 4) [0..<length bs - 3])"
      using short by (simp add: find_none_prefix del: upt_Suc)
    also have "\<dots> = map_option (\<lambda>n. n + 4) (find ?Q [0..<length bs - 3])"
      unfolding find_map_shift
      by (intro arg_cong [where f = "map_option _"] find_cong_set) (auto simp: be_word_take)
    finally show ?thesis .
  qed
  moreover have "be_word (take (n + 4) bs) = be_word (slice n (n + 4) bs)"
    if "find ?Q [0..<length bs - 3] = Some n" for n
    using find_SomeD [OF that] by (intro be_word_take) auto
  ultimately show ?thesis
    using sync_loop_find [of "[]" bs]
    by (simp add: sync_frame_def be_word_def [of "[]"] split: option.splits)
qed

subsection \<open>Gapless trim\<close>

lemma br_skip: "br_bind (br_be n) (\<lambda>_. m) bs = (if n \<le> length bs then m (drop n bs) else None)"
  by (simp add: br_bind_def br_be_def br_take_def br_return_def)

lemma br_bind_Some: "br_bind m f bs = Some x \<longleftrightarrow> (\<exists>a bs'. m bs = Some (a, bs') \<and> f a bs' = Some x)"
  by (auto simp: br_bind_def split: option.splits)

lemma br_be_at: "length a = n \<Longrightarrow> br_bind (br_be n) f (a @ b) = f (be_nat a) b"
  by (simp add: br_bind_def br_be_def br_take_def br_return_def)

lemma br_take_at: "length a = n \<Longrightarrow> br_bind (br_take n) f (a @ b) = f a b"
  by (simp add: br_bind_def br_take_def)

lemma read_lame_extension_at:
  assumes "length enc = 9" "length mid = 12" "length trim = 3"
  shows "read_lame_extension (enc @ mid @ trim @ rest) = Some ((enc, lame_trim enc (be_nat trim)), rest)"
  using assms by (simp add: read_lame_extension_def br_take_at br_skip br_be_at br_return_def)

lemma lame_tag_at:
  assumes layer: "fh_layer h = Layer3" and hdr: "length hdr = 4"
    and enc: "length enc = 9" "take 4 enc = bytes_of ''LAME''" and mid: "length mid = 12"
    and trim: "length trim = 3" and trailer: "length trailer = 10" and crc: "length crc = 2"
    and seen: "seen = hdr @ replicate (side_info_len h) 0 @ bytes_of ''Xing'' @ [0, 0, 0, 0]
      @ enc @ mid @ trim @ trailer"
  shows "try_read_info_tag crc16 (seen @ crc @ rest) h = Some
    \<lparr>xi_lame = (if be_nat crc = 0 \<or> be_nat crc = crc16 seen then Some (lame_trim enc (be_nat trim)) else None),
     xi_num_frames = None\<rparr>"
proof -
  let ?n = "side_info_len h" and ?buf = "seen @ crc @ rest"
  let ?tail = "enc @ mid @ trim @ trailer @ crc @ rest"
  have tag: "is_maybe_info_tag ?buf h"
    using layer hdr enc mid trim trailer
    by (auto simp: is_maybe_info_tag_def seen slice_def MPEG_HEADER_LEN_def is_xing_id_def)
  have at: "drop (?n + MPEG_HEADER_LEN) ?buf = bytes_of ''Xing'' @ [0, 0, 0, 0] @ ?tail"
    using hdr by (simp add: seen MPEG_HEADER_LEN_def)
  have fields: "read_xing_fields ([0, 0, 0, 0] @ ?tail) = Some (None, ?tail)"
  proof -
    have "br_be 4 ([0, 0, 0, 0] @ x) = Some (0, x)" for x
      by (simp add: br_be_def br_take_def br_bind_def br_return_def be_nat_def)
    then show ?thesis
      by (simp add: read_xing_fields_def br_bind_def br_return_def)
  qed
  have ext: "read_lame_extension ?tail = Some ((enc, lame_trim enc (be_nat trim)), trailer @ crc @ rest)"
    by (rule read_lame_extension_at [OF enc(1) mid trim])
  have tr: "read_lame_trailer h enc (trailer @ crc @ rest) = Some ((Some (be_nat crc), crc @ rest), rest)"
    using trailer crc enc(2) by (simp add: read_lame_trailer_def br_skip br_be_at br_return_def)
  have "read_info_body crc16 ?buf h (bytes_of ''Xing'' @ [0, 0, 0, 0] @ ?tail)
      = Some (Some \<lparr>xi_lame = (if be_nat crc = 0 \<or> be_nat crc = crc16 seen
          then Some (lame_trim enc (be_nat trim)) else None), xi_num_frames = None\<rparr>, rest)"
    unfolding read_info_body_def
    by (subst br_take_at)
      (simp_all add: is_xing_id_def br_bind_def [of read_xing_fields] fields enc mid trim
        br_bind_def [of read_lame_extension] ext br_bind_def [of "read_lame_trailer h enc"] tr br_return_def
        del: append_Cons)
  then show ?thesis
    by (simp add: try_read_info_tag_def tag at del: drop_append)
qed

text \<open>The gapless trim is taken only from a tag whose checksum holds. A layer 3 frame that
  carries a LAME extension yields its encoder delay (with the decoder's own) and padding exactly
  when the stored checksum is absent or is that of all bytes before it; the tag itself is
  recognised either way.\<close>

lemma lame_trim_needs_checksum:
  assumes layer: "fh_layer h = Layer3" and hdr: "length hdr = 4"
    and enc: "length enc = 9" "take 4 enc = bytes_of ''LAME''" and mid: "length mid = 12"
    and trim: "length trim = 3" and trailer: "length trailer = 10" and crc: "length crc = 2"
    and seen: "seen = hdr @ replicate (side_info_len h) 0 @ bytes_of ''Xing'' @ [0, 0, 0, 0]
      @ enc @ mid @ trim @ trailer"
  shows "try_read_info_tag crc16 (seen @ crc @ rest) h = Some
    \<lparr>xi_lame = (if be_nat crc = 0 \<or> be_nat crc = crc16 seen then Some (lame_trim enc (be_nat trim)) else None),
     xi_num_frames = None\<rparr>"
  by (rule lame_tag_at [OF assms])

text \<open>Whatever the bytes are, a trim that is reported is either none at all or a delay of at
  least the decoder's own 529 samples and at most twelve bits more, with a padding that fits in
  what twelve bits leave after the same delay.\<close>

lemma lame_trim_bounded:
  assumes "try_read_info_tag crc16 buf h = Some tag" and "xi_lame tag = Some l"
  shows "enc_delay l = 0 \<and> enc_padding l = 0
    \<or> 529 \<le> enc_delay l \<and> enc_delay l \<le> 4624 \<and> enc_padding l \<le> 3566"
proof -
  have trim: "enc_delay l = 0 \<and> enc_padding l = 0
      \<or> 529 \<le> enc_delay l \<and> enc_delay l \<le> 4624 \<and> enc_padding l \<le> 3566"
    if "l = lame_trim e (be_nat t)" "length t = 3" for e t
  proof -
    have "be_nat t < 4096 * 4096"
      using be_nat_less [of t] that(2) by simp
    then have "be_nat t div 4096 < 4096"
      by (rule less_mult_imp_div_less)
    moreover have "be_nat t mod 4096 - 529 \<le> 3566"
      using mod_less_divisor [of 4096 "be_nat t"] by linarith
    ultimately show ?thesis
      using that(1) by (simp add: lame_trim_def LAME_LAYOUT_DECODER_DELAY_def)
  qed
  have ext: "\<exists>t. x = lame_trim e (be_nat t) \<and> length t = 3"
    if "read_lame_extension bs = Some ((e, x), bs')" for bs bs' e x
    using that
    by (auto simp: read_lame_extension_def br_bind_Some br_be_def br_take_def br_return_def
        split: if_splits)
  from assms obtain bs bs' where "read_info_body crc16 buf h bs = Some (Some tag, bs')"
    by (auto simp: try_read_info_tag_def split: if_splits option.splits)
  then obtain e bs1 bs2 where "read_lame_extension bs1 = Some ((e, l), bs2)"
    using assms(2)
    by (auto simp: read_info_body_def br_bind_Some br_return_def Let_def split: if_splits prod.splits)
  then obtain t where "l = lame_trim e (be_nat t)" "length t = 3"
    using ext by blast
  then show ?thesis by (rule trim)
qed

subsection \<open>Worked instances\<close>

definition demo_header :: frame_header where
  "demo_header = \<lparr>fh_channel_mode = Mono, fh_layer = Layer3, fh_version = Mpeg2, fh_has_crc = False,
     fh_bitrate = 64000, fh_sample_rate = 24000, fh_frame_size = 188\<rparr>"

definition demo_seen :: "byte list" where
  "demo_seen = replicate 4 1 @ replicate 9 0 @ bytes_of ''Xing'' @ [0, 0, 0, 0]
     @ bytes_of ''LAME3.100'' @ replicate 12 0 @ [0x24, 0x04, 0x7c] @ replicate 10 0"

lemma demo_seen_eq:
  "demo_seen = replicate 4 1 @ replicate (side_info_len demo_header) 0 @ bytes_of ''Xing'' @ [0, 0, 0, 0]
     @ bytes_of ''LAME3.100'' @ replicate 12 0 @ [0x24, 0x04, 0x7c] @ replicate 10 0"
  by (simp add: demo_seen_def side_info_len_def demo_header_def)

end
