(* ===== verification/Broadcast.thy ===== *)
theory Broadcast
  imports Blob F64
begin

text \<open>
  The live packager (\<open>crates/kithara-broadcast/src\<close>): the configuration it validates, the
  ADTS framing of access units, the ID3 timestamp in front of every segment, the segmenter that
  cuts segments on the media clock, and the live playlist window with its grace retention.  The
  sockets, the worker and the encoder are outside the model: an access unit is its bytes and its
  duration.  Ticks and sequence numbers are naturals: the running sequence number and
  stream clock of the code (64 bits, from zero) are taken not to wrap.
\<close>

datatype broadcast_error =
    UnsupportedProfile
  | UnsupportedSampleRate nat
  | UnsupportedChannels nat
  | PayloadTooLarge nat nat
  | DurationOutOfRange nat
  | InvalidConfig string
  | PlaylistTooShort nat nat nat

subsection \<open>Configuration\<close>

text \<open>The fields of \<open>BroadcastConfig\<close> the packager reads; the profile is whether codec and
  container are AAC-LC in ADTS.\<close>

record broadcast_config =
  cfg_profile_ok :: bool
  cfg_segment_target :: duration
  cfg_stop_timeout :: duration
  cfg_channels :: nat
  cfg_sample_rate :: nat
  cfg_bit_rate :: nat
  cfg_grace :: nat
  cfg_window :: nat

definition target_ticks :: "broadcast_config \<Rightarrow> (broadcast_error, nat) result" where
  "target_ticks c =
     (let millis = cfg_segment_target c div 1000000
      in if millis \<le> u64_max \<and> millis * cfg_sample_rate c \<le> u64_max
            \<and> 0 < millis * cfg_sample_rate c div 1000
         then Inr (millis * cfg_sample_rate c div 1000)
         else Inl (InvalidConfig ''segment_target''))"

definition div_ceil :: "nat \<Rightarrow> nat \<Rightarrow> nat" where
  "div_ceil a b = a div b + (if a mod b = 0 then 0 else 1)"

definition target_seconds :: "broadcast_config \<Rightarrow> (broadcast_error, nat) result" where
  "target_seconds c = res_bind (target_ticks c) (\<lambda>ticks. Inr (div_ceil ticks (cfg_sample_rate c)))"

definition MIN_TARGETS :: nat where
  "MIN_TARGETS = 3"

definition validate :: "broadcast_config \<Rightarrow> (broadcast_error, unit) result" where
  "validate c =
     (if \<not> cfg_profile_ok c then Inl UnsupportedProfile
      else if cfg_sample_rate c = 0 then Inl (InvalidConfig ''sample_rate'')
      else if cfg_channels c = 0 then Inl (InvalidConfig ''channels'')
      else if cfg_bit_rate c = 0 then Inl (InvalidConfig ''bit_rate'')
      else if cfg_window c = 0 then Inl (InvalidConfig ''window'')
      else if cfg_stop_timeout c = 0 then Inl (InvalidConfig ''stop_timeout'')
      else res_bind (target_ticks c) (\<lambda>ticks.
        if cfg_window c * ticks > u64_max then Inl (InvalidConfig ''window'')
        else res_bind (target_seconds c) (\<lambda>seconds.
          let span_ts = cfg_window c * ticks; minimum_ts = MIN_TARGETS * seconds * cfg_sample_rate c
          in if span_ts < minimum_ts then Inl (PlaylistTooShort span_ts minimum_ts (cfg_window c))
             else Inr ())))"

subsection \<open>ADTS\<close>

record adts_packer =
  channel_config :: u8
  sample_rate_index :: u8

definition SAMPLE_RATES :: "nat list" where
  "SAMPLE_RATES = [96000, 88200, 64000, 48000, 44100, 32000, 24000, 22050, 16000, 12000, 11025,
     8000, 7350]"

definition HEADER_LEN :: nat where
  "HEADER_LEN = 7"

definition MAX_PAYLOAD :: nat where
  "MAX_PAYLOAD = 2 ^ 13 - 1 - HEADER_LEN"

definition adts_new :: "nat \<Rightarrow> nat \<Rightarrow> (broadcast_error, adts_packer) result" where
  "adts_new sample_rate channels =
     res_bind (ok_or (UnsupportedSampleRate sample_rate)
       (position (\<lambda>rate. rate = sample_rate) SAMPLE_RATES)) (\<lambda>index.
     if 1 \<le> channels \<and> channels \<le> 6
     then Inr \<lparr>channel_config = of_nat channels, sample_rate_index = of_nat index\<rparr>
     else Inl (UnsupportedChannels channels))"

definition adts_header :: "adts_packer \<Rightarrow> nat \<Rightarrow> byte list" where
  "adts_header p payload_len =
     (let frame_len = of_nat payload_len + 7 :: u16;
          length_high = ucast (drop_bit 8 frame_len) :: u8; length_low = ucast frame_len :: u8
      in [0xFF, 0xF1,
          or (or (push_bit 6 1) (push_bit 2 (sample_rate_index p))) (drop_bit 2 (channel_config p)),
          or (push_bit 6 (and (channel_config p) 0x03)) (and (drop_bit 3 length_high) 0x03),
          or (push_bit 5 (and length_high 0x07)) (drop_bit 3 length_low),
          or (push_bit 5 (and length_low 0x07)) 0x1F,
          push_bit 2 0x3F])"

definition pack_into ::
    "adts_packer \<Rightarrow> byte list \<Rightarrow> byte list \<Rightarrow> (broadcast_error, byte list) result" where
  "pack_into p payload out =
     (if length payload \<le> MAX_PAYLOAD then Inr (out @ adts_header p (length payload) @ payload)
      else Inl (PayloadTooLarge (length payload) MAX_PAYLOAD))"

subsection \<open>ID3 timestamp\<close>

definition MPEG_TIMESCALE :: nat where
  "MPEG_TIMESCALE = 90000"

definition mpeg_timestamp :: "nat \<Rightarrow> nat \<Rightarrow> nat" where
  "mpeg_timestamp media_ts timescale =
     (let scaled = media_ts * MPEG_TIMESCALE; ticks = (scaled + timescale div 2) div timescale
      in ticks mod 2 ^ 33)"

definition OWNER :: "byte list" where
  "OWNER = bytes_of ''com.apple.streaming.transportStreamTimestamp'' @ [0]"

definition TAG_LEN :: nat where
  "TAG_LEN = 10 + 10 + length OWNER + 8"

definition render_tag :: "nat \<Rightarrow> nat \<Rightarrow> byte list" where
  "render_tag media_ts timescale =
     bytes_of ''ID3'' @ [4, 0, 0] @ [0, 0, 0, 63]
     @ bytes_of ''PRIV'' @ [0, 0, 0, 53] @ [0, 0]
     @ OWNER @ be_bytes 8 (mpeg_timestamp media_ts timescale)"

subsection \<open>Segmenter\<close>

record access_unit =
  au_bytes :: "byte list"
  au_duration :: nat

record segment =
  seg_bytes :: "byte list"
  seg_discontinuity :: bool
  seg_duration_ts :: nat
  seg_timescale :: nat
  seg_seq :: nat

record segmenter =
  packer :: adts_packer
  frames :: "byte list"
  discontinuity :: bool
  duration_ts :: nat
  timescale :: nat
  next_seq :: nat
  stream_ts :: nat
  target_ts :: nat
  units :: nat

definition segmenter_new :: "broadcast_config \<Rightarrow> (broadcast_error, segmenter) result" where
  "segmenter_new c =
     res_bind (validate c) (\<lambda>_.
     res_bind (adts_new (cfg_sample_rate c) (cfg_channels c)) (\<lambda>p.
     res_bind (target_ticks c) (\<lambda>ticks.
     Inr \<lparr>packer = p, frames = [], discontinuity = False, duration_ts = 0,
          timescale = cfg_sample_rate c, next_seq = 0, stream_ts = 0, target_ts = ticks, units = 0\<rparr>)))"

definition close :: "segmenter \<Rightarrow> segment option \<times> segmenter" where
  "close s =
     (if units s = 0 then (None, s)
      else (Some \<lparr>seg_bytes = render_tag (stream_ts s) (timescale s) @ frames s,
                  seg_discontinuity = discontinuity s, seg_duration_ts = duration_ts s,
                  seg_timescale = timescale s, seg_seq = next_seq s\<rparr>,
            s\<lparr>next_seq := next_seq s + 1, stream_ts := stream_ts s + duration_ts s,
              frames := [], units := 0, duration_ts := 0, discontinuity := False\<rparr>))"

definition flush :: "segmenter \<Rightarrow> segment option \<times> segmenter" where
  "flush s = close s"

definition mark_drop :: "segmenter \<Rightarrow> segment option \<times> segmenter" where
  "mark_drop s = (let (ended, s') = close s in (ended, s'\<lparr>discontinuity := True\<rparr>))"

definition push ::
    "access_unit \<Rightarrow> segmenter \<Rightarrow> (broadcast_error, segment option) result \<times> segmenter" where
  "push unit s =
     (case checked_add u32_max (duration_ts s) (au_duration unit) of
        None \<Rightarrow> (Inl (DurationOutOfRange (duration_ts s + au_duration unit)), s)
      | Some d \<Rightarrow>
          (case pack_into (packer s) (au_bytes unit) (frames s) of
             Inl e \<Rightarrow> (Inl e, s)
           | Inr fs \<Rightarrow>
               (let s1 = s\<lparr>frames := fs, duration_ts := d, units := units s + 1\<rparr>
                in if duration_ts s1 \<ge> target_ts s1
                   then (let (ended, s2) = close s1 in (Inr ended, s2))
                   else (Inr None, s1))))"

definition reconfigure ::
    "broadcast_config \<Rightarrow> segmenter \<Rightarrow> (broadcast_error, segment option) result \<times> segmenter" where
  "reconfigure c s =
     (case res_bind (validate c) (\<lambda>_.
           res_bind (adts_new (cfg_sample_rate c) (cfg_channels c)) (\<lambda>p.
           res_bind (target_ticks c) (\<lambda>ticks. Inr (p, ticks)))) of
        Inl e \<Rightarrow> (Inl e, s)
      | Inr (p, ticks) \<Rightarrow>
          (let (ended, s1) = close s
           in (Inr ended, s1\<lparr>packer := p, timescale := cfg_sample_rate c, target_ts := ticks,
                 stream_ts := 0, discontinuity := True\<rparr>)))"

subsection \<open>Live window\<close>

record live_window =
  w_segments :: "segment list"
  w_finished :: bool
  discontinuity_sequence :: nat
  w_target_seconds :: nat
  retention :: nat
  w_window :: nat

definition window_new :: "broadcast_config \<Rightarrow> (broadcast_error, live_window) result" where
  "window_new c =
     res_bind (validate c) (\<lambda>_. res_bind (target_seconds c) (\<lambda>seconds.
     Inr \<lparr>w_segments = [], w_finished = False, discontinuity_sequence = 0, w_target_seconds = seconds,
          retention = cfg_window c + cfg_grace c, w_window = cfg_window c\<rparr>))"

definition window_finish :: "live_window \<Rightarrow> live_window" where
  "window_finish w = w\<lparr>w_finished := True\<rparr>"

definition window_push :: "segment \<Rightarrow> live_window \<Rightarrow> live_window" where
  "window_push seg w =
     (let segs = w_segments w @ [seg];
          unlisted = length segs - w_window w - 1;
          disc = (if length segs > w_window w \<and> seg_discontinuity (segs ! unlisted)
                  then discontinuity_sequence w + 1 else discontinuity_sequence w)
      in w\<lparr>w_segments := drop (length segs - retention w) segs, discontinuity_sequence := disc\<rparr>)"

definition listed :: "live_window \<Rightarrow> segment list" where
  "listed w = drop (length (w_segments w) - w_window w) (w_segments w)"

definition media_sequence :: "live_window \<Rightarrow> nat" where
  "media_sequence w = (case listed w of [] \<Rightarrow> 0 | seg # _ \<Rightarrow> seg_seq seg)"

fun show_nat :: "nat \<Rightarrow> string" where
  "show_nat n = (if n < 10 then [char_of (48 + n)] else show_nat (n div 10) @ [char_of (48 + n mod 10)])"

declare show_nat.simps [simp del]

text \<open>\<open>{seconds:.3}\<close>: the double's exact value rounded to three decimals.\<close>

definition show_millis :: "nat \<Rightarrow> string" where
  "show_millis n = show_nat (n div 1000) @ ''.'' @ [char_of (48 + n div 100 mod 10),
     char_of (48 + n div 10 mod 10), char_of (48 + n mod 10)]"

definition show_seconds :: "f64 \<Rightarrow> string" where
  "show_seconds x =
     (case x of Fin False q \<Rightarrow> show_millis (nat (round_half_even (q * 1000)))
      | Fin True q \<Rightarrow> ''-'' @ show_millis (nat (round_half_even (q * 1000)))
      | Infty False \<Rightarrow> ''inf'' | Infty True \<Rightarrow> ''-inf'' | Nan \<Rightarrow> ''NaN'')"

definition newline :: string where
  "newline = [char_of (10 :: nat)]"

definition render_segment :: "segment \<Rightarrow> string" where
  "render_segment seg =
     (if seg_discontinuity seg then ''#EXT-X-DISCONTINUITY'' @ newline else [])
     @ ''#EXTINF:'' @ show_seconds (f64_div (f64_of_nat (seg_duration_ts seg)) (f64_of_nat (seg_timescale seg)))
     @ '','' @ newline @ ''seg/'' @ show_nat (seg_seq seg) @ ''.aac'' @ newline"

definition render :: "live_window \<Rightarrow> string" where
  "render w =
     ''#EXTM3U'' @ newline @ ''#EXT-X-VERSION:3'' @ newline
     @ ''#EXT-X-TARGETDURATION:'' @ show_nat (w_target_seconds w) @ newline
     @ ''#EXT-X-MEDIA-SEQUENCE:'' @ show_nat (media_sequence w) @ newline
     @ ''#EXT-X-DISCONTINUITY-SEQUENCE:'' @ show_nat (discontinuity_sequence w) @ newline
     @ concat (map render_segment (listed w))
     @ (if w_finished w then ''#EXT-X-ENDLIST'' @ newline else [])"

record playlist_snapshot =
  snap_playlist :: string
  snap_segments :: "segment list"
  snap_is_finished :: bool
  snap_encoder_delay_frames :: "nat option"

definition snapshot :: "live_window \<Rightarrow> playlist_snapshot" where
  "snapshot w = \<lparr>snap_playlist = render w, snap_segments = w_segments w,
     snap_is_finished = w_finished w, snap_encoder_delay_frames = None\<rparr>"

definition snapshot_segment :: "playlist_snapshot \<Rightarrow> nat \<Rightarrow> byte list option" where
  "snapshot_segment p seq =
     map_option seg_bytes (find (\<lambda>seg. seg_seq seg = seq) (snap_segments p))"

subsection \<open>Configuration arithmetic\<close>

lemma target_ticks_Inr:
  assumes "target_ticks c = Inr ticks"
  shows "0 < ticks" "1000 * ticks \<le> u64_max" "0 < cfg_sample_rate c"
proof -
  let ?m = "cfg_segment_target c div 1000000 * cfg_sample_rate c"
  have t: "ticks = ?m div 1000" "0 < ?m div 1000" "?m \<le> u64_max"
    using assms by (auto simp: target_ticks_def Let_def split: if_splits)
  then show "0 < ticks" "0 < cfg_sample_rate c" by (auto intro: ccontr)
  have "1000 * (?m div 1000) \<le> ?m" by simp
  with t show "1000 * ticks \<le> u64_max" by linarith
qed

lemma div_ceil_bounds:
  assumes "0 < b" shows "a \<le> div_ceil a b * b" "div_ceil a b * b < a + b"
proof -
  define q r where "q = a div b" and "r = a mod b"
  have m: "a = q * b + r" "r < b"
    using assms by (simp_all add: q_def r_def)
  have d: "div_ceil a b * b = q * b + (if r = 0 then 0 else b)"
    by (simp add: div_ceil_def q_def r_def add_mult_distrib)
  show "a \<le> div_ceil a b * b" "div_ceil a b * b < a + b"
    unfolding d using m assms by auto
qed

text \<open>A configuration that validates describes a live playlist long enough for its clients:
  the window spans at least three target durations as they are announced, rounded up to whole
  seconds, and none of the products the check computes can exceed \<open>u64\<close>.\<close>

lemma validated_window_spans_targets:
  assumes "validate c = Inr ()" and "cfg_sample_rate c \<le> u32_max"
  shows "\<exists>ticks seconds. target_ticks c = Inr ticks \<and> target_seconds c = Inr seconds
    \<and> ticks \<le> seconds * cfg_sample_rate c
    \<and> MIN_TARGETS * seconds * cfg_sample_rate c \<le> cfg_window c * ticks
    \<and> cfg_window c * ticks \<le> u64_max \<and> MIN_TARGETS * seconds * cfg_sample_rate c \<le> u64_max"
proof -
  from assms(1) obtain ticks where t: "target_ticks c = Inr ticks" "cfg_window c * ticks \<le> u64_max"
      "MIN_TARGETS * div_ceil ticks (cfg_sample_rate c) * cfg_sample_rate c \<le> cfg_window c * ticks"
    by (auto simp: validate_def target_seconds_def res_bind_Inr Let_def not_less split: if_splits)
  moreover have "ticks \<le> div_ceil ticks (cfg_sample_rate c) * cfg_sample_rate c"
    using div_ceil_bounds(1) target_ticks_Inr [OF t(1)] by simp
  ultimately show ?thesis
    by (simp add: target_seconds_def)
qed

lemma minimum_fits:
  assumes "target_ticks c = Inr ticks" and "cfg_sample_rate c \<le> u32_max"
  shows "MIN_TARGETS * div_ceil ticks (cfg_sample_rate c) * cfg_sample_rate c \<le> u64_max"
proof -
  have "div_ceil ticks (cfg_sample_rate c) * cfg_sample_rate c < ticks + cfg_sample_rate c"
    using div_ceil_bounds(2) target_ticks_Inr [OF assms(1)] by simp
  then have "3 * (div_ceil ticks (cfg_sample_rate c) * cfg_sample_rate c) \<le> u64_max"
    using target_ticks_Inr(2) [OF assms(1)] assms(2) unfolding u64_max_def u32_max_def by linarith
  then show ?thesis
    by (simp add: MIN_TARGETS_def mult.assoc)
qed

subsection \<open>A reader of ADTS frames finds what was packed\<close>

text \<open>The fixed and variable header of ISO/IEC 13818-7, read field by field.\<close>

definition adts_sync :: "byte list \<Rightarrow> u16" where
  "adts_sync h = or (push_bit 4 (ucast (h ! 0))) (drop_bit 4 (ucast (h ! 1)))"

definition adts_profile :: "byte list \<Rightarrow> u8" where
  "adts_profile h = drop_bit 6 (h ! 2)"

definition adts_rate_index :: "byte list \<Rightarrow> u8" where
  "adts_rate_index h = and (drop_bit 2 (h ! 2)) 0xF"

definition adts_channels :: "byte list \<Rightarrow> u8" where
  "adts_channels h = or (push_bit 2 (and (h ! 2) 1)) (drop_bit 6 (h ! 3))"

definition adts_frame_length :: "byte list \<Rightarrow> u16" where
  "adts_frame_length h = or (or (push_bit 11 (ucast (and (h ! 3) 3))) (push_bit 3 (ucast (h ! 4))))
     (drop_bit 5 (ucast (h ! 5)))"

lemma small_bits:
  assumes "unat w < 2 ^ n" "bit w k" shows "k < n"
proof (rule ccontr)
  assume "\<not> k < n"
  then have "(2 :: nat) ^ n \<le> 2 ^ k" by (intro power_increasing) simp_all
  then have "unat w < 2 ^ k"
    using assms(1) by (rule order.strict_trans2 [rotated])
  then have "unat w div 2 ^ k = 0"
    by simp
  then have "\<not> bit (unat w) k"
    by (simp add: bit_iff_odd)
  then show False
    using assms(2) by (simp add: bit_unsigned_iff bit_imp_possible_bit)
qed

lemma word_eq_bits: "(v :: 'a::len word) = w \<longleftrightarrow> list_all (\<lambda>k. bit v k = bit w k) [0 ..< LENGTH('a)]"
  by (auto simp: list_all_iff intro: bit_word_eqI)

lemma indices_8_16:
  "[0 ..< 8] = [0, 1, 2, 3, 4, 5, 6, 7]" "[0 ..< 16] = [0, 1, 2, 3, 4, 5, 6, 7, 8, 9, 10, 11, 12, 13, 14, 15]"
  by code_simp+

lemmas u8_eq_bits = word_eq_bits [where ?'a = 8, simplified, unfolded indices_8_16, simplified]
lemmas u16_eq_bits = word_eq_bits [where ?'a = 16, simplified, unfolded indices_8_16, simplified]

lemma adts_header_fields:
  assumes "sample_rate_index p < 16" "channel_config p < 8" "n \<le> MAX_PAYLOAD"
  shows "adts_sync (adts_header p n) = 0xFFF" "adts_profile (adts_header p n) = 1"
    "adts_rate_index (adts_header p n) = sample_rate_index p"
    "adts_channels (adts_header p n) = channel_config p"
    "adts_frame_length (adts_header p n) = of_nat n + 7"
proof -
  have r: "bit (sample_rate_index p) k \<Longrightarrow> k < 4" for k
    using small_bits [of "sample_rate_index p" 4] assms(1) by (simp add: word_less_nat_alt)
  have c: "bit (channel_config p) k \<Longrightarrow> k < 3" for k
    using small_bits [of "channel_config p" 3] assms(2) by (simp add: word_less_nat_alt)
  have l: "bit (of_nat n + 7 :: u16) k \<Longrightarrow> k < 13" for k
  proof -
    have "of_nat n + 7 = (of_nat (n + 7) :: u16)" by simp
    moreover have "unat (of_nat (n + 7) :: u16) < 2 ^ 13"
      using assms(3) by (simp add: unat_of_nat take_bit_nat_eq_self MAX_PAYLOAD_def HEADER_LEN_def del: of_nat_add)
    ultimately show "bit (of_nat n + 7 :: u16) k \<Longrightarrow> k < 13"
      using small_bits by metis
  qed
  show "adts_sync (adts_header p n) = 0xFFF"
    by (simp add: adts_sync_def adts_header_def Let_def)
  have r': "\<not> bit (sample_rate_index p) 4" "\<not> bit (sample_rate_index p) 5"
    "\<not> bit (sample_rate_index p) 6" "\<not> bit (sample_rate_index p) 7"
    using r by force+
  have c': "\<not> bit (channel_config p) 3" "\<not> bit (channel_config p) 4" "\<not> bit (channel_config p) 5"
    "\<not> bit (channel_config p) 6" "\<not> bit (channel_config p) 7"
    using c by force+
  have l': "\<not> bit (of_nat n + 7 :: u16) 13" "\<not> bit (of_nat n + 7 :: u16) 14" "\<not> bit (of_nat n + 7 :: u16) 15"
    using l by force+
  show "adts_profile (adts_header p n) = 1"
    unfolding u8_eq_bits using r' c'
    by (simp add: adts_profile_def adts_header_def Let_def bit_simps)
  show "adts_rate_index (adts_header p n) = sample_rate_index p"
    unfolding u8_eq_bits using r' c'
    by (simp add: adts_rate_index_def adts_header_def Let_def bit_simps)
  show "adts_channels (adts_header p n) = channel_config p"
    unfolding u8_eq_bits using r' c'
    by (simp add: adts_channels_def adts_header_def Let_def bit_simps)
  show "adts_frame_length (adts_header p n) = of_nat n + 7"
    unfolding u16_eq_bits using l' c'
    by (simp add: adts_frame_length_def adts_header_def Let_def bit_simps)
qed

lemma adts_new_Inr:
  assumes "adts_new rate channels = Inr p"
  shows "unat (sample_rate_index p) < length SAMPLE_RATES" "SAMPLE_RATES ! unat (sample_rate_index p) = rate"
    "unat (channel_config p) = channels" "1 \<le> channels" "channels \<le> 6"
proof -
  from assms obtain i where i: "position (\<lambda>r. r = rate) SAMPLE_RATES = Some i"
    and p: "p = \<lparr>channel_config = of_nat channels, sample_rate_index = of_nat i\<rparr>"
    and c: "1 \<le> channels" "channels \<le> 6"
    by (auto simp: adts_new_def res_bind_Inr split: if_splits)
  have l: "i < length SAMPLE_RATES" "SAMPLE_RATES ! i = rate"
    using position_Some [OF i] by auto
  then have "unat (of_nat i :: u8) = i"
    by (simp add: SAMPLE_RATES_def unat_of_nat take_bit_nat_eq_self)
  moreover have "unat (of_nat channels :: u8) = channels"
    using c by (simp add: unat_of_nat take_bit_nat_eq_self)
  ultimately show "unat (sample_rate_index p) < length SAMPLE_RATES"
    "SAMPLE_RATES ! unat (sample_rate_index p) = rate" "unat (channel_config p) = channels"
    "1 \<le> channels" "channels \<le> 6"
    using l c p by simp_all
qed

definition adts_payload :: "byte list \<Rightarrow> byte list" where
  "adts_payload frame = take (unat (adts_frame_length frame) - HEADER_LEN) (drop HEADER_LEN frame)"

text \<open>Every access unit the packer accepts is framed so that a decoder reads it back: from
  the bytes appended, the field-by-field ADTS reader finds the sync word, AAC-LC, the configured
  sample rate and channel count, and a frame length that delimits exactly the payload, whatever
  frames follow.\<close>

lemma adts_frame_reads_back:
  assumes "adts_new rate channels = Inr p" and "pack_into p payload out = Inr out'"
  shows "\<exists>frame. out' = out @ frame \<and> adts_sync frame = 0xFFF \<and> adts_profile frame = 1
    \<and> SAMPLE_RATES ! unat (adts_rate_index frame) = rate \<and> unat (adts_channels frame) = channels
    \<and> unat (adts_frame_length frame) = length frame \<and> adts_payload (frame @ rest) = payload"
proof -
  note n = adts_new_Inr [OF assms(1)]
  have len: "length payload \<le> MAX_PAYLOAD"
    and out': "out' = out @ adts_header p (length payload) @ payload"
    using assms(2) by (auto simp: pack_into_def split: if_splits)
  let ?h = "adts_header p (length payload)"
  have small: "sample_rate_index p < 16" "channel_config p < 8"
    using n by (simp_all add: word_less_nat_alt SAMPLE_RATES_def)
  note f = adts_header_fields [OF small len]
  have hl: "length ?h = 7"
    by (simp add: adts_header_def Let_def)
  have app: "adts_sync (?h @ x) = adts_sync ?h" "adts_profile (?h @ x) = adts_profile ?h"
      "adts_rate_index (?h @ x) = adts_rate_index ?h" "adts_channels (?h @ x) = adts_channels ?h"
      "adts_frame_length (?h @ x) = adts_frame_length ?h" for x
    by (simp_all add: adts_sync_def adts_profile_def adts_rate_index_def adts_channels_def
        adts_frame_length_def nth_append hl)
  have "of_nat (length payload) + 7 = (of_nat (length payload + 7) :: u16)"
    by simp
  moreover have "unat (of_nat (length payload + 7) :: u16) = length payload + 7"
    using len by (simp add: unat_of_nat take_bit_nat_eq_self MAX_PAYLOAD_def HEADER_LEN_def del: of_nat_add)
  ultimately have l: "unat (adts_frame_length ?h) = length payload + 7"
    using f(5) by metis
  show ?thesis
    using f l n hl app [of payload] app [of "payload @ rest"]
    by (intro exI [of _ "?h @ payload"]) (simp add: out' adts_payload_def HEADER_LEN_def)
qed

subsection \<open>The timestamp in front of a segment\<close>

lemma length_OWNER: "length OWNER = 45"
  by (simp add: OWNER_def)

lemma length_render_tag [simp]: "length (render_tag ts scale) = TAG_LEN"
  by (simp add: render_tag_def TAG_LEN_def be_bytes_def)

text \<open>The tag in front of a segment has the length its own size fields declare, ends in a
  timestamp of 33 bits, and that timestamp is the media position on the 90 kHz clock, rounded to
  the nearest tick, half up, modulo the wrap of the clock.\<close>

lemma timestamp_rounds_to_nearest:
  assumes "0 < scale"
  shows "\<exists>ticks. mpeg_timestamp ts scale = ticks mod 2 ^ 33 \<and> mpeg_timestamp ts scale < 2 ^ 33
    \<and> 2 * ts * MPEG_TIMESCALE < 2 * ticks * scale + scale + 1
    \<and> 2 * ticks * scale \<le> 2 * ts * MPEG_TIMESCALE + scale
    \<and> le_nat (rev (drop (TAG_LEN - 8) (render_tag ts scale))) = ticks mod 2 ^ 33
    \<and> length (render_tag ts scale) = 10 + unat (render_tag ts scale ! 9)
    \<and> length (render_tag ts scale) = 20 + unat (render_tag ts scale ! 17)"
proof -
  define a where "a = ts * MPEG_TIMESCALE"
  define q where "q = (a + scale div 2) div scale"
  define r where "r = (a + scale div 2) mod scale"
  have qr: "q * scale + r = a + scale div 2" "r < scale"
    using assms by (simp_all add: q_def r_def)
  have half: "scale = 2 * (scale div 2) + scale mod 2" "scale mod 2 < 2"
    by simp_all
  have ts: "mpeg_timestamp ts scale = q mod 2 ^ 33"
    by (simp add: mpeg_timestamp_def q_def a_def Let_def)
  have bytes: "le_nat (rev (drop (TAG_LEN - 8) (render_tag ts scale))) = q mod 2 ^ 33"
  proof -
    have "drop (TAG_LEN - 8) (render_tag ts scale) = be_bytes 8 (mpeg_timestamp ts scale)"
      by (simp add: render_tag_def TAG_LEN_def length_OWNER)
    moreover have "q mod 2 ^ 33 < 256 ^ 8"
      using mod_less_divisor [of "2 ^ 33" q] by simp
    ultimately show ?thesis
      by (simp add: be_bytes_def ts le_nat_le_bytes)
  qed
  have sizes: "length (render_tag ts scale) = 10 + unat (render_tag ts scale ! 9)"
      "length (render_tag ts scale) = 20 + unat (render_tag ts scale ! 17)"
    by (simp_all add: TAG_LEN_def length_OWNER render_tag_def bytes_of_def be_bytes_def)
  have "2 * a < 2 * (q * scale) + scale + 1" "2 * (q * scale) \<le> 2 * a + scale"
    using qr half by linarith+
  then have "2 * ts * MPEG_TIMESCALE < 2 * q * scale + scale + 1" "2 * q * scale \<le> 2 * ts * MPEG_TIMESCALE + scale"
    by (simp_all add: a_def mult.assoc)
  moreover have "mpeg_timestamp ts scale < 2 ^ 33"
    by (simp add: mpeg_timestamp_def Let_def)
  ultimately show ?thesis
    using ts bytes sizes by blast
qed


subsection \<open>Runs of the segmenter\<close>

text \<open>The calls a packager makes on its segmenter, in order, and the segments they return.\<close>

datatype seg_op = Push access_unit | Flush | MarkDrop | Reconfigure broadcast_config

definition emitted :: "segment option \<Rightarrow> segment list" where
  "emitted ended = (case ended of None \<Rightarrow> [] | Some seg \<Rightarrow> [seg])"

definition seg_step :: "seg_op \<Rightarrow> segmenter \<Rightarrow> segment list \<times> segmenter" where
  "seg_step op s =
     (case op of
        Push u \<Rightarrow> (case push u s of (Inl _, s') \<Rightarrow> ([], s') | (Inr ended, s') \<Rightarrow> (emitted ended, s'))
      | Flush \<Rightarrow> (case flush s of (ended, s') \<Rightarrow> (emitted ended, s'))
      | MarkDrop \<Rightarrow> (case mark_drop s of (ended, s') \<Rightarrow> (emitted ended, s'))
      | Reconfigure c \<Rightarrow>
          (case reconfigure c s of (Inl _, s') \<Rightarrow> ([], s') | (Inr ended, s') \<Rightarrow> (emitted ended, s')))"

fun seg_run :: "seg_op list \<Rightarrow> segmenter \<Rightarrow> segment list \<times> segmenter" where
  "seg_run [] s = ([], s)"
| "seg_run (op # ops) s =
     (let (out, s') = seg_step op s; (rest, s'') = seg_run ops s' in (out @ rest, s''))"

definition framed :: "adts_packer \<Rightarrow> access_unit \<Rightarrow> byte list" where
  "framed p u = adts_header p (length (au_bytes u)) @ au_bytes u"

text \<open>The units a run accepts, each as the frame written and its duration.\<close>

definition accepts :: "seg_op \<Rightarrow> segmenter \<Rightarrow> (byte list \<times> nat) list" where
  "accepts op s =
     (case op of
        Push u \<Rightarrow> (case push u s of (Inl _, _) \<Rightarrow> [] | (Inr _, _) \<Rightarrow> [(framed (packer s) u, au_duration u)])
      | _ \<Rightarrow> [])"

fun accepted :: "seg_op list \<Rightarrow> segmenter \<Rightarrow> (byte list \<times> nat) list" where
  "accepted [] s = []"
| "accepted (op # ops) s = accepts op s @ accepted ops (snd (seg_step op s))"

definition seg_frames :: "segment \<Rightarrow> byte list" where
  "seg_frames g = drop TAG_LEN (seg_bytes g)"

definition seg_tag :: "segment \<Rightarrow> byte list" where
  "seg_tag g = take TAG_LEN (seg_bytes g)"

definition segmenter_ok :: "segmenter \<Rightarrow> bool" where
  "segmenter_ok s \<longleftrightarrow> 0 < target_ts s \<and> duration_ts s < target_ts s
     \<and> (units s = 0 \<longrightarrow> frames s = [] \<and> duration_ts s = 0)"

lemma emitted_simps [simp]: "emitted None = []" "emitted (Some g) = [g]"
  by (simp_all add: emitted_def)

text \<open>What a stretch of the stream conserves: the frames written, the time they last, and the
  numbering of the segments.\<close>

definition conserves :: "segmenter \<Rightarrow> (byte list \<times> nat) list \<Rightarrow> segment list \<Rightarrow> segmenter \<Rightarrow> bool" where
  "conserves s acc out s' \<longleftrightarrow>
     concat (map seg_frames out) @ frames s' = frames s @ concat (map fst acc)
     \<and> sum_list (map seg_duration_ts out) + duration_ts s' = duration_ts s + sum_list (map snd acc)
     \<and> map seg_seq out = [next_seq s ..< next_seq s'] \<and> next_seq s \<le> next_seq s'"

lemma conserves_refl: "conserves s [] [] s"
  by (simp add: conserves_def)

lemma conserves_trans:
  assumes "conserves s acc out s'" "conserves s' acc' out' s''"
  shows "conserves s (acc @ acc') (out @ out') s''"
proof -
  have "[next_seq s ..< next_seq s''] = [next_seq s ..< next_seq s'] @ [next_seq s' ..< next_seq s'']"
    using assms upt_add_eq_append [of "next_seq s" "next_seq s'" "next_seq s'' - next_seq s'"]
    by (simp add: conserves_def)
  moreover have "concat (map seg_frames (out @ out')) @ frames s'' = frames s @ concat (map fst (acc @ acc'))"
    using assms by (simp add: conserves_def)
  ultimately show ?thesis
    using assms by (simp add: conserves_def)
qed

definition idle_empty :: "segmenter \<Rightarrow> bool" where
  "idle_empty s \<longleftrightarrow> (units s = 0 \<longrightarrow> frames s = [] \<and> duration_ts s = 0)"

lemma close_conserves:
  assumes "idle_empty s"
  shows "conserves s [] (emitted (fst (close s))) (snd (close s))"
  using assms by (simp add: conserves_def idle_empty_def close_def seg_frames_def)

lemma close_idle:
  assumes "idle_empty s"
  shows "frames (snd (close s)) = []" "duration_ts (snd (close s)) = 0" "units (snd (close s)) = 0"
    "target_ts (snd (close s)) = target_ts s" "timescale (snd (close s)) = timescale s"
  using assms by (simp_all add: idle_empty_def close_def)

definition append_unit :: "access_unit \<Rightarrow> segmenter \<Rightarrow> segmenter" where
  "append_unit u s = s\<lparr>frames := frames s @ framed (packer s) u,
     duration_ts := duration_ts s + au_duration u, units := units s + 1\<rparr>"

lemma push_eq:
  "push u s =
     (if u32_max < duration_ts s + au_duration u
      then (Inl (DurationOutOfRange (duration_ts s + au_duration u)), s)
      else if MAX_PAYLOAD < length (au_bytes u)
      then (Inl (PayloadTooLarge (length (au_bytes u)) MAX_PAYLOAD), s)
      else if duration_ts s + au_duration u < target_ts s then (Inr None, append_unit u s)
      else (Inr (fst (close (append_unit u s))), snd (close (append_unit u s))))"
  by (simp add: push_def pack_into_def append_unit_def framed_def checked_add_def Let_def
      case_prod_beta not_le)

lemma seg_step_push:
  "seg_step (Push u) s =
     (if u32_max < duration_ts s + au_duration u \<or> MAX_PAYLOAD < length (au_bytes u) then ([], s)
      else if duration_ts s + au_duration u < target_ts s then ([], append_unit u s)
      else (emitted (fst (close (append_unit u s))), snd (close (append_unit u s))))"
  by (simp add: seg_step_def push_eq)

lemma seg_step_flush: "seg_step Flush s = (emitted (fst (close s)), snd (close s))"
  by (simp add: seg_step_def flush_def case_prod_beta)

lemma seg_step_drop:
  "seg_step MarkDrop s = (emitted (fst (close s)), (snd (close s))\<lparr>discontinuity := True\<rparr>)"
  by (simp add: seg_step_def mark_drop_def case_prod_beta)

lemma seg_step_reconfigure:
  obtains "seg_step (Reconfigure c) s = ([], s)"
  | p ticks where "target_ticks c = Inr ticks" "seg_step (Reconfigure c) s = (emitted (fst (close s)),
      (snd (close s))\<lparr>packer := p, timescale := cfg_sample_rate c, target_ts := ticks,
        stream_ts := 0, discontinuity := True\<rparr>)"
  by (cases "res_bind (validate c) (\<lambda>_. res_bind (adts_new (cfg_sample_rate c) (cfg_channels c))
        (\<lambda>p. res_bind (target_ticks c) (\<lambda>ticks. Inr (p, ticks))))")
     (auto simp: seg_step_def reconfigure_def case_prod_beta Let_def res_bind_Inr)

lemma accepts_eq:
  "accepts op s =
     (case op of
        Push u \<Rightarrow> if u32_max < duration_ts s + au_duration u \<or> MAX_PAYLOAD < length (au_bytes u) then []
          else [(framed (packer s) u, au_duration u)]
      | _ \<Rightarrow> [])"
  by (simp add: accepts_def push_eq split: seg_op.splits)

lemma idle_append: "idle_empty (append_unit u s)"
  by (simp add: idle_empty_def append_unit_def)

lemma conserves_append: "conserves s [(framed (packer s) u, au_duration u)] [] (append_unit u s)"
  by (simp add: conserves_def append_unit_def)

lemma segmenter_ok_idle: "segmenter_ok s \<Longrightarrow> idle_empty s"
  by (simp add: segmenter_ok_def idle_empty_def)

lemma close_ok: "idle_empty s \<Longrightarrow> 0 < target_ts s \<Longrightarrow> segmenter_ok (snd (close s))"
  by (simp add: segmenter_ok_def close_idle)

lemma conserves_header:
  "conserves s acc out s' \<Longrightarrow> frames s'' = frames s' \<Longrightarrow> duration_ts s'' = duration_ts s'
    \<Longrightarrow> next_seq s'' = next_seq s' \<Longrightarrow> conserves s acc out s''"
  by (simp add: conserves_def)

lemma seg_step_ok:
  assumes "segmenter_ok s"
  shows "segmenter_ok (snd (seg_step op s))"
proof (cases op)
  case (Push u)
  then show ?thesis
    using assms close_ok [OF idle_append, of u s]
    by (auto simp: seg_step_push segmenter_ok_def append_unit_def)
next
  case (Reconfigure c)
  note idle = close_idle [OF segmenter_ok_idle [OF assms]]
  show ?thesis
    by (rule seg_step_reconfigure [of c s])
       (use idle assms in \<open>auto simp: Reconfigure segmenter_ok_def dest: target_ticks_Inr\<close>)
qed (use assms close_ok [OF segmenter_ok_idle [OF assms]] in
  \<open>auto simp: seg_step_flush seg_step_drop segmenter_ok_def\<close>)

lemma seg_step_conserves:
  assumes "segmenter_ok s"
  shows "conserves s (accepts op s) (fst (seg_step op s)) (snd (seg_step op s))"
proof (cases op)
  case (Push u)
  then show ?thesis
    using conserves_trans [OF conserves_append close_conserves [OF idle_append], of s u]
    by (auto simp: seg_step_push accepts_eq conserves_append conserves_refl)
next
  case (Reconfigure c)
  note conserved = close_conserves [OF segmenter_ok_idle [OF assms]]
  show ?thesis
    by (rule seg_step_reconfigure [of c s])
       (use conserved in \<open>auto simp: Reconfigure accepts_eq conserves_refl elim: conserves_header\<close>)
qed (use close_conserves [OF segmenter_ok_idle [OF assms]] in
  \<open>auto simp: seg_step_flush seg_step_drop accepts_eq elim: conserves_header\<close>)

lemma seg_run_conserves:
  "segmenter_ok s \<Longrightarrow> segmenter_ok (snd (seg_run ops s))
     \<and> conserves s (accepted ops s) (fst (seg_run ops s)) (snd (seg_run ops s))"
proof (induction ops arbitrary: s)
  case (Cons op ops)
  show ?case
    using Cons.IH [OF seg_step_ok [OF Cons.prems, of op]] seg_step_conserves [OF Cons.prems, of op]
    by (simp add: case_prod_beta conserves_trans)
qed (simp add: conserves_refl)

lemma segmenter_new_ok:
  "segmenter_new c = Inr s \<Longrightarrow> segmenter_ok s \<and> frames s = [] \<and> duration_ts s = 0 \<and> next_seq s = 0
    \<and> stream_ts s = 0 \<and> timescale s = cfg_sample_rate c \<and> target_ticks c = Inr (target_ts s)
    \<and> \<not> discontinuity s"
  by (auto simp: segmenter_new_def res_bind_Inr segmenter_ok_def dest: target_ticks_Inr)

text \<open>C36: the segmenter loses, repeats and reorders nothing: after any sequence of pushes, flushes,
  drops and reconfigurations, the frames of the segments returned followed by the frames still
  open are exactly the frames of the units it accepted, their durations add up to the units'
  durations, and the segments are numbered 0, 1, 2 and so on.\<close>

theorem segmenter_loses_nothing:
  assumes "segmenter_new c = Inr s0" and "seg_run ops s0 = (segs, s)"
  shows "concat (map seg_frames segs) @ frames s = concat (map fst (accepted ops s0))
    \<and> sum_list (map seg_duration_ts segs) + duration_ts s = sum_list (map snd (accepted ops s0))
    \<and> map seg_seq segs = [0 ..< length segs] \<and> next_seq s = length segs"
proof -
  note n = segmenter_new_ok [OF assms(1)]
  then have c: "conserves s0 (accepted ops s0) segs s"
    using seg_run_conserves [of s0 ops] assms(2) by simp
  then have "map seg_seq segs = [0 ..< next_seq s]"
    using n by (simp add: conserves_def)
  from arg_cong [where f = length, OF this] have "next_seq s = length segs" by simp
  with c n show ?thesis by (simp add: conserves_def)
qed


subsection \<open>Segments on the media clock\<close>

definition keeps_config :: "seg_op \<Rightarrow> bool" where
  "keeps_config op = (case op of Reconfigure _ \<Rightarrow> False | _ \<Rightarrow> True)"

definition unit_within :: "nat \<Rightarrow> seg_op \<Rightarrow> bool" where
  "unit_within m op = (case op of Push u \<Rightarrow> au_duration u \<le> m | _ \<Rightarrow> True)"

text \<open>Segments whose tags follow one clock from \<open>ts\<close> on.\<close>

fun timed :: "nat \<Rightarrow> nat \<Rightarrow> segment list \<Rightarrow> bool" where
  "timed ts scale [] = True"
| "timed ts scale (g # gs) \<longleftrightarrow>
     seg_tag g = render_tag ts scale \<and> seg_timescale g = scale \<and> timed (ts + seg_duration_ts g) scale gs"

lemma timed_append:
  "timed ts scale (xs @ ys) \<longleftrightarrow>
     timed ts scale xs \<and> timed (ts + sum_list (map seg_duration_ts xs)) scale ys"
  by (induction xs arbitrary: ts) (auto simp: add.assoc)

lemma timed_nth:
  "timed ts scale gs \<Longrightarrow> i < length gs \<Longrightarrow> seg_timescale (gs ! i) = scale
     \<and> seg_tag (gs ! i) = render_tag (ts + sum_list (map seg_duration_ts (take i gs))) scale"
proof (induction gs arbitrary: ts i)
  case (Cons g gs)
  then show ?case by (cases i) (auto simp: add.assoc)
qed simp

definition on_clock :: "segmenter \<Rightarrow> segment list \<Rightarrow> segmenter \<Rightarrow> bool" where
  "on_clock s out s' \<longleftrightarrow> timed (stream_ts s) (timescale s) out
     \<and> stream_ts s' = stream_ts s + sum_list (map seg_duration_ts out) \<and> timescale s' = timescale s
     \<and> target_ts s' = target_ts s"

lemma on_clock_refl: "on_clock s [] s"
  by (simp add: on_clock_def)

lemma on_clock_trans: "on_clock s out s' \<Longrightarrow> on_clock s' out' s'' \<Longrightarrow> on_clock s (out @ out') s''"
  by (auto simp: on_clock_def timed_append)

lemma close_on_clock:
  "idle_empty s \<Longrightarrow> on_clock s (emitted (fst (close s))) (snd (close s))"
  by (simp add: on_clock_def close_def seg_tag_def idle_empty_def)

lemma on_clock_append: "on_clock s [] (append_unit u s)"
  by (simp add: on_clock_def append_unit_def)

lemma seg_step_on_clock:
  assumes "segmenter_ok s" "keeps_config op"
  shows "on_clock s (fst (seg_step op s)) (snd (seg_step op s))"
proof (cases op)
  case (Push u)
  then show ?thesis
    using on_clock_trans [OF on_clock_append close_on_clock [OF idle_append], of s u]
    by (auto simp: seg_step_push on_clock_append on_clock_refl)
next
  case (Reconfigure c)
  with assms(2) show ?thesis by (simp add: keeps_config_def)
qed (use close_on_clock [OF segmenter_ok_idle [OF assms(1)]] in
  \<open>auto simp: seg_step_flush seg_step_drop on_clock_def\<close>)

lemma seg_step_duration:
  assumes "segmenter_ok s" "keeps_config op" "unit_within m op" "g \<in> set (fst (seg_step op s))"
  shows "seg_duration_ts g < target_ts s + m"
  using assms
  by (cases op)
     (auto simp: keeps_config_def unit_within_def seg_step_push seg_step_flush seg_step_drop close_def
        append_unit_def segmenter_ok_def split: if_splits)

lemma seg_run_on_clock:
  "segmenter_ok s \<Longrightarrow> \<forall>op \<in> set ops. keeps_config op
     \<Longrightarrow> on_clock s (fst (seg_run ops s)) (snd (seg_run ops s))"
proof (induction ops arbitrary: s)
  case (Cons op ops)
  then show ?case
    using Cons.IH [OF seg_step_ok [OF Cons.prems(1), of op]] seg_step_on_clock [OF Cons.prems(1), of op]
    by (simp add: case_prod_beta on_clock_trans)
qed (simp add: on_clock_refl)

lemma seg_run_durations:
  "segmenter_ok s \<Longrightarrow> \<forall>op \<in> set ops. keeps_config op \<and> unit_within m op
     \<Longrightarrow> g \<in> set (fst (seg_run ops s)) \<Longrightarrow> seg_duration_ts g < target_ts s + m"
proof (induction ops arbitrary: s)
  case (Cons op ops)
  have "target_ts (snd (seg_step op s)) = target_ts s"
    using seg_step_on_clock [OF Cons.prems(1)] Cons.prems(2) by (simp add: on_clock_def)
  then show ?case
    using Cons.IH [OF seg_step_ok [OF Cons.prems(1), of op]] seg_step_duration [OF Cons.prems(1), of op m g]
      Cons.prems(2,3) by (auto simp: case_prod_beta)
qed simp

text \<open>While the configuration stands, segments follow one media clock: the tag in front of
  each carries the sum of the durations of all segments before it, on the configured rate, and no
  segment overshoots the target by as much as one longest access unit.\<close>

lemma segments_follow_the_clock:
  assumes "segmenter_new c = Inr s0" and "seg_run ops s0 = (segs, s)"
    and "\<forall>op \<in> set ops. keeps_config op \<and> unit_within m op" and "i < length segs"
  shows "seg_tag (segs ! i) = render_tag (sum_list (map seg_duration_ts (take i segs))) (cfg_sample_rate c)
    \<and> seg_timescale (segs ! i) = cfg_sample_rate c
    \<and> target_ticks c = Inr (target_ts s0) \<and> seg_duration_ts (segs ! i) < target_ts s0 + m"
proof -
  note n = segmenter_new_ok [OF assms(1)]
  have "timed 0 (cfg_sample_rate c) segs"
    using seg_run_on_clock [of s0 ops] n assms(2,3) by (simp add: on_clock_def)
  from timed_nth [OF this assms(4)] show ?thesis
    using n seg_run_durations [of s0 ops m "segs ! i"] assms(2-4) by simp
qed

text \<open>A push that fails leaves the segmenter as it was, so the unit can be dropped and the
  stream marked discontinuous without harming the open segment; it fails exactly for a payload
  ADTS cannot frame or a segment duration beyond \<open>u32\<close>.\<close>

lemma failed_push_is_harmless:
  "case push u s of
     (Inl e, s') \<Rightarrow> s' = s \<and> (MAX_PAYLOAD < length (au_bytes u) \<or> u32_max < duration_ts s + au_duration u)
   | (Inr out, s') \<Rightarrow> length (au_bytes u) \<le> MAX_PAYLOAD \<and> duration_ts s + au_duration u \<le> u32_max
       \<and> (out = None) = (duration_ts s + au_duration u < target_ts s)"
  by (simp add: push_eq close_def append_unit_def)

subsection \<open>The window against its history\<close>

text \<open>The window after a history of segments: the last \<open>retention\<close> of them, with one count
  for every discontinuous segment that has left the listed part.\<close>

definition window_of :: "live_window \<Rightarrow> segment list \<Rightarrow> live_window" where
  "window_of w h = w\<lparr>w_segments := drop (length h - retention w) h,
     discontinuity_sequence := length (filter seg_discontinuity (take (length h - w_window w) h))\<rparr>"

lemma drop_snoc_suffix:
  "drop (length (drop (length h - n) h @ [x]) - n) (drop (length h - n) h @ [x])
     = drop (length (h @ [x]) - n) (h @ [x])"
proof (cases "length h < n")
  case False
  then have "length (drop (length h - n) h @ [x]) - n = 1" by simp
  moreover have "length (h @ [x]) - n = Suc (length h - n)" using False by simp
  ultimately show ?thesis
    using False by (cases n) simp_all
qed simp

lemma window_push_of:
  assumes "w_window w \<le> retention w" "0 < w_window w"
  shows "window_push seg (window_of w h) = window_of w (h @ [seg])"
proof -
  let ?n = "w_window w" and ?r = "retention w"
  let ?segs = "drop (length h - ?r) h @ [seg]"
  have count: "(if length ?segs > ?n \<and> seg_discontinuity (?segs ! (length ?segs - ?n - 1))
      then length (filter seg_discontinuity (take (length h - ?n) h)) + 1
      else length (filter seg_discontinuity (take (length h - ?n) h)))
    = length (filter seg_discontinuity (take (length (h @ [seg]) - ?n) (h @ [seg])))"
  proof (cases "?n \<le> length h")
    case True
    have k: "length ?segs > ?n" "length ?segs - ?n - 1 < length (drop (length h - ?r) h)"
      using True assms by auto
    have "?segs ! (length ?segs - ?n - 1) = h ! (length h - ?n)"
      using k True assms by (auto simp: nth_append)
    moreover have "take (length (h @ [seg]) - ?n) (h @ [seg]) = take (length h - ?n) h @ [h ! (length h - ?n)]"
      using True assms by (simp add: Suc_diff_le take_Suc_conv_app_nth)
    ultimately show ?thesis
      using k by simp
  qed auto
  have "window_push seg (window_of w h) = w\<lparr>w_segments := drop (length ?segs - ?r) ?segs,
      discontinuity_sequence := (if length ?segs > ?n \<and> seg_discontinuity (?segs ! (length ?segs - ?n - 1))
        then length (filter seg_discontinuity (take (length h - ?n) h)) + 1
        else length (filter seg_discontinuity (take (length h - ?n) h)))\<rparr>"
    by (cases w) (simp only: window_push_def window_of_def Let_def live_window.simps)
  then show ?thesis
    by (simp only: count drop_snoc_suffix window_of_def)
qed

lemma window_fold:
  assumes "w_window w \<le> retention w" "0 < w_window w" "w_segments w = []" "discontinuity_sequence w = 0"
  shows "fold window_push h w = window_of w h"
proof (induction h rule: rev_induct)
  case Nil
  show ?case using assms by (simp add: window_of_def)
qed (simp add: window_push_of assms)

lemma window_new_Inr:
  assumes "window_new c = Inr w"
  shows "w_window w = cfg_window c" "retention w = cfg_window c + cfg_grace c" "0 < cfg_window c"
    "w_segments w = []" "discontinuity_sequence w = 0" "\<not> w_finished w"
    "target_seconds c = Inr (w_target_seconds w)"
  using assms by (auto simp: window_new_def validate_def res_bind_Inr split: if_splits)

text \<open>Pushing one segment after another refines the plain description of a live playlist: the
  window retains exactly the last \<open>window + grace\<close> segments, lists the last \<open>window\<close> of
  them, and its discontinuity sequence counts the discontinuous segments that are no longer
  listed.\<close>

lemma window_keeps_the_tail:
  assumes "window_new c = Inr w0" and "w = fold window_push h w0"
  shows "w_segments w = drop (length h - (cfg_window c + cfg_grace c)) h
    \<and> listed w = drop (length h - cfg_window c) h
    \<and> discontinuity_sequence w = length (filter seg_discontinuity (take (length h - cfg_window c) h))
    \<and> w_finished w = w_finished w0 \<and> w_target_seconds w = w_target_seconds w0"
proof -
  note n = window_new_Inr [OF assms(1)]
  have w: "w = window_of w0 h"
    using window_fold [of w0 h] n assms(2) by simp
  then have "listed w = drop (length h - cfg_window c) h"
    by (simp add: listed_def window_of_def n) (rule arg_cong [where f = "\<lambda>k. drop k h"], arith)
  then show ?thesis
    by (simp add: w window_of_def n)
qed


subsection \<open>The interface between segmenter and window\<close>

text \<open>What the window and its readers rely on is only that the segments they are given are numbered
  from 0 without gaps.\<close>

locale segment_stream =
  fixes produce :: "'op list \<Rightarrow> segment list"
  assumes numbered: "map seg_seq (produce ops) = [0 ..< length (produce ops)]"
begin

lemma seq_nth: "i < length (produce ops) \<Longrightarrow> seg_seq (produce ops ! i) = i"
  using nth_map [of i "produce ops" seg_seq] numbered [of ops] by simp

lemma find_seq:
  "find (\<lambda>seg. seg_seq seg = q) (drop k (produce ops)) =
     (if k \<le> q \<and> q < length (produce ops) then Some (produce ops ! q) else None)"
proof (cases "k \<le> q \<and> q < length (produce ops)")
  case True
  let ?d = "drop k (produce ops)"
  have "map seg_seq ?d = drop k [0 ..< length (produce ops)]"
    using numbered [of ops] by (metis drop_map)
  then have "distinct (map seg_seq ?d)"
    by simp
  moreover have "produce ops ! q \<in> set ?d"
    using True by (simp add: in_set_conv_nth) (rule exI [of _ "q - k"], use True in \<open>simp add: diff_less_mono\<close>)
  ultimately show ?thesis
    using find_distinct_key [of seg_seq ?d "produce ops ! q"] seq_nth [of q ops] True by simp
next
  case False
  have "seg_seq x \<noteq> q" if "x \<in> set (drop k (produce ops))" for x
  proof -
    from that obtain j where "j < length (produce ops) - k" "x = produce ops ! (k + j)"
      by (auto simp: in_set_conv_nth)
    then show ?thesis
      using seq_nth [of "k + j" ops] False by auto
  qed
  then show ?thesis
    using False by (auto simp: find_None_iff)
qed

lemma fetch:
  assumes "window_new c = Inr w0"
  shows "snapshot_segment (snapshot (fold window_push (produce ops) w0)) q =
    (if length (produce ops) - (cfg_window c + cfg_grace c) \<le> q \<and> q < length (produce ops)
     then Some (seg_bytes (produce ops ! q)) else None)"
  using window_fold [of w0 "produce ops"] window_new_Inr [OF assms]
  by (simp add: snapshot_segment_def snapshot_def find_seq window_of_def)

lemma first_listed:
  assumes "window_new c = Inr w0"
  shows "media_sequence (fold window_push (produce ops) w0) = length (produce ops) - cfg_window c"
proof -
  have l: "listed (fold window_push (produce ops) w0) = drop (length (produce ops) - cfg_window c) (produce ops)"
    using window_fold [of w0 "produce ops"] window_new_Inr [OF assms]
    by (simp add: listed_def window_of_def) (rule arg_cong [where f = "\<lambda>k. drop k (produce ops)"], arith)
  show ?thesis
  proof (cases "produce ops")
    case (Cons g gs)
    let ?k = "length (produce ops) - cfg_window c"
    have "?k < length (produce ops)"
      using window_new_Inr(3) [OF assms] Cons by simp
    then have "drop ?k (produce ops) = produce ops ! ?k # drop (Suc ?k) (produce ops)"
      by (rule Cons_nth_drop_Suc [symmetric])
    then show ?thesis
      using l seq_nth [of ?k ops] \<open>?k < length (produce ops)\<close> by (simp add: media_sequence_def)
  next
    case Nil
    then have "listed (fold window_push (produce ops) w0) = []"
      using l by simp
    then show ?thesis
      using Nil by (simp only: media_sequence_def) simp
  qed
qed

end

definition broadcast_segments :: "broadcast_config \<Rightarrow> seg_op list \<Rightarrow> segment list" where
  "broadcast_segments c ops =
     (case segmenter_new c of Inl _ \<Rightarrow> [] | Inr s \<Rightarrow> fst (seg_run ops s))"

lemma broadcast_segments_numbered:
  "map seg_seq (broadcast_segments c ops) = [0 ..< length (broadcast_segments c ops)]"
proof (cases "segmenter_new c")
  case (Inr s)
  then have "map seg_seq (broadcast_segments c ops) = [0 ..< next_seq (snd (seg_run ops s))]"
    using seg_run_conserves [of s ops] segmenter_new_ok [OF Inr]
    by (simp add: conserves_def broadcast_segments_def)
  moreover from arg_cong [where f = length, OF this]
  have "length (broadcast_segments c ops) = next_seq (snd (seg_run ops s))" by simp
  ultimately show ?thesis by simp
qed (simp add: broadcast_segments_def)

interpretation broadcast: segment_stream "broadcast_segments c" for c
  by unfold_locales (rule broadcast_segments_numbered)

text \<open>A client of the live playlist can fetch what it is told about: a segment is served
  exactly when it is among the last \<open>window + grace\<close> that the segmenter produced, it is the
  segment with the number asked for, and the playlist's media sequence is the number of the first
  segment it lists.\<close>

lemma playlist_serves_retained_segments:
  assumes "window_new c = Inr w0" and "segs = broadcast_segments c ops"
    and "w = fold window_push segs w0"
  shows "snapshot_segment (snapshot w) q =
      (if length segs - (cfg_window c + cfg_grace c) \<le> q \<and> q < length segs
       then Some (seg_bytes (segs ! q)) else None)
    \<and> media_sequence w = length segs - cfg_window c"
  using broadcast.fetch [OF assms(1)] broadcast.first_listed [OF assms(1)] assms(2,3) by simp

subsection \<open>A broadcast at work\<close>

definition demo_config :: broadcast_config where
  "demo_config = \<lparr>cfg_profile_ok = True, cfg_segment_target = 1000000000, cfg_stop_timeout = 1,
     cfg_channels = 2, cfg_sample_rate = 8000, cfg_bit_rate = 64000, cfg_grace = 1, cfg_window = 3\<rparr>"

definition demo_ops :: "seg_op list" where
  "demo_ops = [Push \<lparr>au_bytes = [1, 2], au_duration = 5000\<rparr>, Push \<lparr>au_bytes = [3], au_duration = 5000\<rparr>,
     Push \<lparr>au_bytes = [4], au_duration = 100\<rparr>, MarkDrop, Push \<lparr>au_bytes = [5], au_duration = 8000\<rparr>, Flush]"

lemma demo_ticks: "target_ticks demo_config = Inr 8000"
  by (simp add: target_ticks_def demo_config_def u64_max_def)

lemma demo_validate: "validate demo_config = Inr ()"
  by (simp add: validate_def demo_ticks target_seconds_def Let_def)
     (simp add: demo_config_def u64_max_def div_ceil_def MIN_TARGETS_def)

definition demo_packer :: adts_packer where
  "demo_packer = \<lparr>channel_config = 2, sample_rate_index = 11\<rparr>"

lemma demo_adts: "adts_new (cfg_sample_rate demo_config) (cfg_channels demo_config) = Inr demo_packer"
  by (simp add: adts_new_def demo_config_def SAMPLE_RATES_def demo_packer_def)

definition demo_segmenter :: segmenter where
  "demo_segmenter = \<lparr>packer = demo_packer, frames = [], discontinuity = False, duration_ts = 0,
     timescale = 8000, next_seq = 0, stream_ts = 0, target_ts = 8000, units = 0\<rparr>"

lemma demo_new: "segmenter_new demo_config = Inr demo_segmenter"
  by (simp add: segmenter_new_def demo_validate demo_adts demo_ticks)
     (simp add: demo_segmenter_def demo_config_def)

definition demo_window :: live_window where
  "demo_window = \<lparr>w_segments = [], w_finished = False, discontinuity_sequence = 0, w_target_seconds = 1,
     retention = 4, w_window = 3\<rparr>"

lemma demo_window_new: "window_new demo_config = Inr demo_window"
  by (simp add: window_new_def demo_validate target_seconds_def demo_ticks)
     (simp add: demo_window_def demo_config_def div_ceil_def)

lemma demo_run_length: "length (fst (seg_run demo_ops demo_segmenter)) = 3"
  by (simp add: demo_ops_def demo_segmenter_def seg_step_push seg_step_flush seg_step_drop case_prod_beta
      append_unit_def close_def u32_max_def MAX_PAYLOAD_def HEADER_LEN_def)

lemma segmenter_loses_nothing_witness:
  "concat (map seg_frames (fst (seg_run demo_ops demo_segmenter)))
      @ frames (snd (seg_run demo_ops demo_segmenter)) = concat (map fst (accepted demo_ops demo_segmenter))
    \<and> sum_list (map seg_duration_ts (fst (seg_run demo_ops demo_segmenter)))
      + duration_ts (snd (seg_run demo_ops demo_segmenter))
      = sum_list (map snd (accepted demo_ops demo_segmenter))
    \<and> map seg_seq (fst (seg_run demo_ops demo_segmenter)) = [0 ..< length (fst (seg_run demo_ops demo_segmenter))]
    \<and> next_seq (snd (seg_run demo_ops demo_segmenter)) = length (fst (seg_run demo_ops demo_segmenter))"
  by (rule segmenter_loses_nothing [OF demo_new]) simp

end
