(* ===== verification/Hls_Layout.thy ===== *)
theory Hls_Layout
  imports Prelude
begin

text \<open>
  The byte geometry of an HLS variant (\<open>crates/kithara-hls/src/segment/size.rs\<close> and
  \<open>variant/map/offsets.rs\<close>): the sizes of its segments, the frame that lays the segments out in
  one byte stream and answers which segment a byte belongs to, and the publication protocol by
  which one writer at a time replaces the frame while readers sample it without a lock.  A segment
  is its \<open>SegmentSize\<close>, the only part of it the geometry reads.  The size sums of the code are
  unchecked 64-bit additions; the model adds naturals, so it speaks of streams shorter than
  \<open>2^64\<close> bytes.  The publication counter is a natural: its wrap after \<open>2^63\<close> publications is out of
  the model.
\<close>

subsection \<open>Segment sizes\<close>

record segment_size =
  read_bytes :: nat
  route_bytes :: nat
  exact :: bool

definition size_default :: segment_size where
  "size_default = \<lparr>read_bytes = 0, route_bytes = 0, exact = False\<rparr>"

definition size_get :: "segment_size \<Rightarrow> nat" where
  "size_get s = route_bytes s"

definition is_exact :: "segment_size \<Rightarrow> bool" where
  "is_exact s = exact s"

definition placeholder :: "nat \<Rightarrow> segment_size" where
  "placeholder n = size_default\<lparr>route_bytes := n\<rparr>"

definition size_read_len :: "segment_size \<Rightarrow> nat" where
  "size_read_len s = (if is_exact s then read_bytes s else size_get s)"

definition size_seed :: "nat \<Rightarrow> segment_size" where
  "size_seed n =
     (let s = size_default\<lparr>route_bytes := n, read_bytes := n\<rparr>
      in if 0 < n then s\<lparr>exact := True\<rparr> else s)"

definition set_exact :: "nat \<Rightarrow> segment_size \<Rightarrow> segment_size" where
  "set_exact n s = s\<lparr>route_bytes := n, read_bytes := n, exact := True\<rparr>"

definition set_exact_if_unknown :: "nat \<Rightarrow> segment_size \<Rightarrow> bool \<times> segment_size" where
  "set_exact_if_unknown n s = (if n = 0 \<or> is_exact s then (False, s) else (True, set_exact n s))"

subsection \<open>Signed and unsigned 64-bit conversions\<close>

definition i64_max :: nat where
  "i64_max = 9223372036854775807"

definition in_i64 :: "int \<Rightarrow> bool" where
  "in_i64 v \<longleftrightarrow> - int i64_max - 1 \<le> v \<and> v \<le> int i64_max"

definition i64_of_u64 :: "nat \<Rightarrow> int option" where
  "i64_of_u64 n = (if n \<le> i64_max then Some (int n) else None)"

definition u64_of_i64 :: "int \<Rightarrow> nat option" where
  "u64_of_i64 v = (if 0 \<le> v then Some (nat v) else None)"

definition i64_checked_add :: "int \<Rightarrow> int \<Rightarrow> int option" where
  "i64_checked_add a b = (if in_i64 (a + b) then Some (a + b) else None)"

definition i64_checked_sub :: "int \<Rightarrow> int \<Rightarrow> int option" where
  "i64_checked_sub a b = (if in_i64 (a - b) then Some (a - b) else None)"

definition u32_of_usize :: "nat \<Rightarrow> nat option" where
  "u32_of_usize n = (if n \<le> u32_max then Some n else None)"

lemmas conversion_defs = i64_of_u64_def u64_of_i64_def i64_checked_add_def i64_checked_sub_def
  u32_of_usize_def in_i64_def

text \<open>\<open>slice::get\<close>.\<close>

definition slice_get :: "'a list \<Rightarrow> nat \<Rightarrow> 'a option" where
  "slice_get xs i = (if i < length xs then Some (xs ! i) else None)"

subsection \<open>Frame\<close>

record layout_frame =
  offsets :: "nat list"
  byte_shift :: int
  served_from :: nat
  served_until :: nat
  init_seed :: nat

function bisect_loop :: "nat list \<Rightarrow> nat \<Rightarrow> nat \<Rightarrow> nat \<Rightarrow> nat" where
  "bisect_loop offs byte lo hi =
     (if lo < hi then
        let mid = lo + (hi - lo) div 2
        in if offs ! mid < byte then bisect_loop offs byte (mid + 1) hi else bisect_loop offs byte lo mid
      else lo)"
  by pat_completeness auto
termination
  by (relation "measure (\<lambda>(offs, byte, lo, hi). hi - lo)") auto

declare bisect_loop.simps [simp del]

definition bisect_left :: "nat \<Rightarrow> layout_frame \<Rightarrow> nat" where
  "bisect_left byte f = bisect_loop (offsets f) byte 0 (length (offsets f))"

function find_loop :: "nat list \<Rightarrow> segment_size list \<Rightarrow> nat \<Rightarrow> nat \<Rightarrow> nat \<Rightarrow> (nat \<times> nat \<times> nat) option" where
  "find_loop offs segs byte lo hi =
     (if lo < hi then
        let mid = lo + (hi - lo) div 2; off = offs ! mid; size = size_get (segs ! mid)
        in if byte < off then find_loop offs segs byte lo mid
           else if off + size \<le> byte then find_loop offs segs byte (mid + 1) hi
           else Some (mid, off, size)
      else None)"
  by pat_completeness auto
termination
  by (relation "measure (\<lambda>(offs, segs, byte, lo, hi). hi - lo)") auto

declare find_loop.simps [simp del]

definition find_natural :: "nat \<Rightarrow> segment_size list \<Rightarrow> layout_frame \<Rightarrow> (nat \<times> nat \<times> nat) option" where
  "find_natural byte segs f =
     Option.bind (find_loop (offsets f) segs byte 0 (length (offsets f))) (\<lambda>(mid, off, size).
     Option.bind (u32_of_usize mid) (\<lambda>idx. Some (idx, off, size)))"

definition find_virtual :: "nat \<Rightarrow> segment_size list \<Rightarrow> layout_frame \<Rightarrow> (nat \<times> nat \<times> nat) option" where
  "find_virtual byte segs f =
     Option.bind (i64_of_u64 byte) (\<lambda>b.
     Option.bind (i64_checked_sub b (byte_shift f)) (\<lambda>natural.
     if natural < 0 then None
     else Option.bind (u64_of_i64 natural) (\<lambda>n.
     Option.bind (find_natural n segs f) (\<lambda>(idx, off, size).
     if idx < served_from f \<or> served_until f \<le> idx then None
     else Option.bind (i64_of_u64 off) (\<lambda>o'.
     Option.bind (i64_checked_add o' (byte_shift f)) (\<lambda>v.
     Option.bind (u64_of_i64 v) (\<lambda>off'. Some (idx, off', size))))))))"

fun recompute_loop :: "nat \<Rightarrow> nat \<Rightarrow> segment_size list \<Rightarrow> nat list \<Rightarrow> nat list" where
  "recompute_loop i cum [] offs = offs"
| "recompute_loop i cum (s # ss) offs = recompute_loop (i + 1) (cum + size_get s) ss (offs[i := cum])"

definition resize :: "nat \<Rightarrow> nat list \<Rightarrow> nat list" where
  "resize n xs = take n xs @ replicate (n - length xs) 0"

definition recompute :: "nat \<Rightarrow> segment_size list \<Rightarrow> layout_frame \<Rightarrow> layout_frame" where
  "recompute init_size segs f =
     (let cum = (if 0 < init_seed f then init_seed f else init_size)
      in f\<lparr>offsets := recompute_loop 0 cum segs (resize (length segs) (offsets f))\<rparr>)"

definition segment_byte_offset :: "nat \<Rightarrow> layout_frame \<Rightarrow> nat option" where
  "segment_byte_offset idx f =
     Option.bind (slice_get (offsets f) idx) (\<lambda>natural.
     Option.bind (i64_of_u64 natural) (\<lambda>n.
     Option.bind (i64_checked_add n (byte_shift f)) u64_of_i64))"

definition frame_sizes_complete :: "segment_size list \<Rightarrow> layout_frame \<Rightarrow> bool" where
  "frame_sizes_complete segs f =
     (let start = served_from f; end = min (served_until f) (length segs)
      in start \<ge> end \<or> list_all is_exact (take (end - start) (drop start segs)))"

definition frame_total_bytes :: "segment_size list \<Rightarrow> nat \<Rightarrow> layout_frame \<Rightarrow> nat" where
  "frame_total_bytes segs init_size f =
     (let seg_size = (\<lambda>idx. case slice_get segs idx of None \<Rightarrow> 0 | Some s \<Rightarrow> size_get s);
          last_idx = served_until f - 1;
          natural = (case (slice_get (offsets f) last_idx, slice_get segs last_idx) of
              (Some off, Some _) \<Rightarrow> off + seg_size last_idx
            | _ \<Rightarrow> (case checked_sub (length segs) 1 of
                None \<Rightarrow> init_size
              | Some idx \<Rightarrow> (case slice_get (offsets f) idx of
                  None \<Rightarrow> init_size | Some off \<Rightarrow> off + seg_size idx)))
      in case Option.bind (i64_of_u64 natural) (\<lambda>n. i64_checked_add n (byte_shift f)) of
           Some v \<Rightarrow> if 0 \<le> v then nat v else 0
         | None \<Rightarrow> 0)"

record frame_snapshot =
  snap_sizes_complete :: bool
  snap_total :: nat

definition frame_snapshot_of :: "segment_size list \<Rightarrow> nat \<Rightarrow> layout_frame \<Rightarrow> frame_snapshot" where
  "frame_snapshot_of segs init_size f =
     \<lparr>snap_sizes_complete = frame_sizes_complete segs f, snap_total = frame_total_bytes segs init_size f\<rparr>"

subsection \<open>The offset table\<close>

fun starts :: "nat \<Rightarrow> nat list \<Rightarrow> nat list" where
  "starts c [] = []"
| "starts c (x # xs) = c # starts (c + x) xs"

lemma length_starts [simp]: "length (starts c xs) = length xs"
  by (induction c xs rule: starts.induct) auto

lemma starts_nth: "i < length xs \<Longrightarrow> starts c xs ! i = c + sum_list (take i xs)"
  by (induction c xs arbitrary: i rule: starts.induct) (auto simp: nth_Cons split: nat.split)

lemma sum_list_take_mono: "i \<le> j \<Longrightarrow> sum_list (take i xs) \<le> sum_list (take j (xs :: nat list))"
  by (metis le_add1 le_iff_add sum_list.append take_add)

lemma starts_step:
  "i < j \<Longrightarrow> j < length xs \<Longrightarrow> starts c xs ! i + xs ! i \<le> starts c xs ! j"
  using sum_list_take_mono [of "Suc i" j xs] by (simp add: starts_nth take_Suc_conv_app_nth)

lemma recompute_loop_starts:
  "i + length segs = length offs
    \<Longrightarrow> recompute_loop i cum segs offs = take i offs @ starts cum (map size_get segs)"
proof (induction i cum segs offs rule: recompute_loop.induct)
  case (2 i cum s ss offs)
  then have "take (i + 1) (offs[i := cum]) = take i offs @ [cum]"
    by (simp add: take_Suc_conv_app_nth)
  with 2 show ?case by simp
qed simp

lemma length_resize [simp]: "length (resize n xs) = n"
  by (simp add: resize_def)

definition seed_of :: "nat \<Rightarrow> layout_frame \<Rightarrow> nat" where
  "seed_of init_size f = (if 0 < init_seed f then init_seed f else init_size)"

text \<open>A frame whose table was computed from these sizes.\<close>

definition laid_out :: "nat \<Rightarrow> segment_size list \<Rightarrow> layout_frame \<Rightarrow> bool" where
  "laid_out c segs f \<longleftrightarrow> offsets f = starts c (map size_get segs)"

lemma recompute_offsets:
  "recompute init_size segs f = f\<lparr>offsets := starts (seed_of init_size f) (map size_get segs)\<rparr>"
  by (simp add: recompute_def seed_of_def recompute_loop_starts)

lemma recompute_laid_out: "laid_out (seed_of init_size f) segs (recompute init_size segs f)"
  by (simp add: laid_out_def recompute_offsets)


subsection \<open>The two searches\<close>

lemma bisect_loop_spec:
  assumes "sorted offs" "lo \<le> hi" "hi \<le> length offs"
    "\<forall>i < lo. offs ! i < byte" "\<forall>i. hi \<le> i \<and> i < length offs \<longrightarrow> byte \<le> offs ! i"
  shows "bisect_loop offs byte lo hi \<le> length offs
    \<and> (\<forall>i < length offs. i < bisect_loop offs byte lo hi \<longleftrightarrow> offs ! i < byte)"
  using assms
proof (induction offs byte lo hi rule: bisect_loop.induct)
  case (1 offs byte lo hi)
  show ?case
  proof (cases "lo < hi")
    case True
    define mid where "mid = lo + (hi - lo) div 2"
    have mid: "lo \<le> mid" "mid < hi"
      using True by (auto simp: mid_def)
    have mono: "i \<le> j \<Longrightarrow> j < length offs \<Longrightarrow> offs ! i \<le> offs ! j" for i j
      using "1.prems"(1) by (rule sorted_nth_mono)
    show ?thesis
    proof (cases "offs ! mid < byte")
      case less: True
      have "\<forall>i < mid + 1. offs ! i < byte"
        using mono [of _ mid] less mid "1.prems"(3) by (auto simp: less_Suc_eq_le intro: le_less_trans)
      moreover have "bisect_loop offs byte lo hi = bisect_loop offs byte (mid + 1) hi"
        using True less by (subst bisect_loop.simps) (simp add: Let_def mid_def)
      ultimately show ?thesis
        using "1.IH"(1) [OF True mid_def less] "1.prems" mid by simp
    next
      case ge: False
      have "\<forall>i. mid \<le> i \<and> i < length offs \<longrightarrow> byte \<le> offs ! i"
        using mono [of mid] ge by (auto simp: not_less intro: order.trans)
      moreover have "bisect_loop offs byte lo hi = bisect_loop offs byte lo mid"
        using True ge by (subst bisect_loop.simps) (simp add: Let_def mid_def)
      ultimately show ?thesis
        using "1.IH"(2) [OF True mid_def ge] "1.prems" mid by simp
    qed
  next
    case False
    then have "bisect_loop offs byte lo hi = lo"
      by (subst bisect_loop.simps) simp
    then show ?thesis
      using "1.prems" False by (auto simp: not_less)
  qed
qed

text \<open>The segment \<open>i\<close> of the table holds the byte.\<close>

definition holds :: "nat list \<Rightarrow> segment_size list \<Rightarrow> nat \<Rightarrow> nat \<Rightarrow> bool" where
  "holds offs segs byte i \<longleftrightarrow> offs ! i \<le> byte \<and> byte < offs ! i + size_get (segs ! i)"

lemma find_loop_spec:
  assumes "offs = starts c (map size_get segs)" "hi \<le> length segs"
  shows "find_loop offs segs byte lo hi = Some r \<longleftrightarrow>
    (\<exists>i. lo \<le> i \<and> i < hi \<and> holds offs segs byte i \<and> r = (i, offs ! i, size_get (segs ! i)))"
  using assms
proof (induction offs segs byte lo hi rule: find_loop.induct)
  case (1 offs segs byte lo hi)
  have before: "offs ! i + size_get (segs ! i) \<le> offs ! j" if "i < j" "j < hi" for i j
    using starts_step [of i j "map size_get segs" c] that "1.prems" by simp
  show ?case
  proof (cases "lo < hi")
    case True
    define mid off sz where "mid = lo + (hi - lo) div 2" and "off = offs ! mid" and "sz = size_get (segs ! mid)"
    have mid: "lo \<le> mid" "mid < hi"
      using True by (auto simp: mid_def)
    consider "byte < off" | "off \<le> byte" "off + sz \<le> byte" | "off \<le> byte" "byte < off + sz"
      by linarith
    then show ?thesis
    proof cases
      case left: 1
      have "i < mid" if "lo \<le> i" "i < hi" "holds offs segs byte i" for i
      proof (rule ccontr)
        assume "\<not> i < mid"
        then have "off \<le> offs ! i"
          using before [of mid i] that by (cases "i = mid") (auto simp: off_def)
        then show False using that left by (simp add: holds_def)
      qed
      then show ?thesis
        using "1.IH"(1) [OF True mid_def off_def sz_def left] "1.prems" mid left True
        by (subst find_loop.simps) (auto simp: Let_def mid_def [symmetric] off_def sz_def)
    next
      case right: 2
      have "mid < i" if "lo \<le> i" "i < hi" "holds offs segs byte i" for i
      proof (rule ccontr)
        assume "\<not> mid < i"
        then have "offs ! i + size_get (segs ! i) \<le> off + sz"
          using before [of i mid] mid that by (cases "i = mid") (auto simp: off_def sz_def)
        then show False using that right by (simp add: holds_def)
      qed
      then show ?thesis
        using "1.IH"(2) [OF True mid_def off_def sz_def] "1.prems" mid right True
        by (subst find_loop.simps)
           (auto simp: Let_def mid_def [symmetric] off_def sz_def not_less Suc_le_eq)
    next
      case here: 3
      have "i = mid" if "lo \<le> i" "i < hi" "holds offs segs byte i" for i
        using before [of i mid] before [of mid i] that mid here
        by (cases i mid rule: linorder_cases) (auto simp: holds_def off_def sz_def)
      moreover have "find_loop offs segs byte lo hi = Some (mid, offs ! mid, size_get (segs ! mid))"
        using here True by (subst find_loop.simps) (simp add: Let_def mid_def [symmetric] off_def sz_def)
      moreover have "holds offs segs byte mid"
        using here by (simp add: holds_def off_def sz_def)
      ultimately show ?thesis
        using mid by (metis option.inject)
    qed
  next
    case False
    then show ?thesis by (subst find_loop.simps) simp
  qed
qed

lemma find_natural_spec:
  assumes "laid_out c segs f" "length segs \<le> u32_max"
  shows "find_natural byte segs f = Some r \<longleftrightarrow>
    (\<exists>i < length segs. holds (offsets f) segs byte i \<and> r = (i, offsets f ! i, size_get (segs ! i)))"
proof -
  have "find_natural byte segs f = Some r \<longleftrightarrow>
      (\<exists>i off sz. find_loop (offsets f) segs byte 0 (length (offsets f)) = Some (i, off, sz)
        \<and> u32_of_usize i = Some i \<and> r = (i, off, sz))"
    by (auto simp: find_natural_def Option.bind_eq_Some_conv u32_of_usize_def split: if_splits)
  also have "\<dots> \<longleftrightarrow> (\<exists>i < length segs. holds (offsets f) segs byte i
      \<and> r = (i, offsets f ! i, size_get (segs ! i)))"
    using assms find_loop_spec [OF refl le_refl, of c segs byte 0]
    by (auto simp: laid_out_def u32_of_usize_def)
  finally show ?thesis .
qed

lemma offsets_nth:
  "laid_out c segs f \<Longrightarrow> i < length segs
    \<Longrightarrow> offsets f ! i = c + sum_list (take i (map size_get segs))"
  by (simp add: laid_out_def starts_nth)

text \<open>The search of the frame is exact: over a table computed from the segments' sizes it finds,
  for a byte of the stream, the one segment whose bytes include it, with the offset that is the sum
  of everything in front of it, and it finds nothing exactly when no segment includes the byte;
  empty segments are never found.\<close>

lemma find_natural_is_exact:
  assumes "length segs \<le> u32_max"
  shows "find_natural byte segs (recompute init_size segs f) = Some (i, off, len) \<longleftrightarrow>
    i < length segs \<and> off = seed_of init_size f + sum_list (take i (map size_get segs))
    \<and> len = size_get (segs ! i) \<and> off \<le> byte \<and> byte < off + len"
  using find_natural_spec [OF recompute_laid_out assms, of byte init_size f "(i, off, len)"]
    offsets_nth [OF recompute_laid_out, of _ segs init_size f]
  by (auto simp: holds_def)


subsection \<open>The combined byte stream\<close>

lemma segment_end_le:
  assumes "laid_out c segs f" "i < length segs"
  shows "offsets f ! i + size_get (segs ! i) \<le> c + sum_list (map size_get segs)"
  using sum_list_take_mono [of "Suc i" "length segs" "map size_get segs"] assms
  by (simp add: offsets_nth take_Suc_conv_app_nth)

lemma segment_byte_offset_Some:
  assumes "laid_out c segs f" "c + sum_list (map size_get segs) \<le> i64_max"
  shows "segment_byte_offset i f = Some v \<longleftrightarrow>
    i < length segs \<and> int v = int (offsets f ! i) + byte_shift f \<and> v \<le> i64_max"
proof -
  have len: "length (offsets f) = length segs"
    using assms(1) by (simp add: laid_out_def)
  show ?thesis
    using segment_end_le [OF assms(1), of i] assms(2)
    by (auto simp: segment_byte_offset_def Option.bind_eq_Some_conv slice_get_def conversion_defs len
        split: if_splits)
qed

lemma find_virtual_spec:
  assumes laid: "laid_out c segs f" and small: "length segs \<le> u32_max"
    and fits: "c + sum_list (map size_get segs) \<le> i64_max"
  shows "find_virtual b segs f = Some (i, v, sz) \<longleftrightarrow>
    b \<le> i64_max \<and> served_from f \<le> i \<and> i < served_until f \<and> segment_byte_offset i f = Some v
    \<and> sz = size_get (segs ! i) \<and> v \<le> b \<and> b < v + sz" (is "?l \<longleftrightarrow> ?r")
proof
  assume ?l
  then obtain off where z: "b \<le> i64_max" "0 \<le> int b - byte_shift f"
    and found: "find_natural (nat (int b - byte_shift f)) segs f = Some (i, off, sz)"
    and served: "served_from f \<le> i" "i < served_until f"
    and v: "v = nat (int off + byte_shift f)" "0 \<le> int off + byte_shift f" "int off + byte_shift f \<le> int i64_max"
    by (auto simp: find_virtual_def Option.bind_eq_Some_conv conversion_defs not_less not_le split: if_splits)
  define n where "n = nat (int b - byte_shift f)"
  have n: "int n = int b - byte_shift f" and found: "find_natural n segs f = Some (i, off, sz)"
    using z found by (simp_all add: n_def)
  then have "i < length segs" "off = offsets f ! i" "sz = size_get (segs ! i)" "off \<le> n" "n < off + sz"
    using found by (auto simp: find_natural_spec [OF laid small] holds_def)
  then show ?r
    using n z served v by (auto simp: segment_byte_offset_Some [OF laid fits])
next
  assume r: ?r
  then have i: "i < length segs" "int v = int (offsets f ! i) + byte_shift f" "v \<le> i64_max"
    by (simp_all add: segment_byte_offset_Some [OF laid fits])
  define n where "n = nat (int b - byte_shift f)"
  have n: "int n = int b - byte_shift f"
    using r i by (simp add: n_def)
  have holds: "holds (offsets f) segs n i"
    using r i n by (auto simp: holds_def)
  then have "find_natural n segs f = Some (i, offsets f ! i, sz)"
    using i r by (auto simp: find_natural_spec [OF laid small])
  moreover have "n \<le> i64_max" "offsets f ! i \<le> i64_max"
    using segment_end_le [OF laid i(1)] fits holds r by (auto simp: holds_def)
  moreover have "nat (int b - byte_shift f) = n" "int b - byte_shift f = int n"
    using n by (simp_all add: n_def)
  moreover have "int (offsets f ! i) + byte_shift f = int v"
    using i by simp
  ultimately show ?l
    using r i by (auto simp: find_virtual_def conversion_defs)
qed

text \<open>Lookup and address agree: in a laid out frame, at whatever shift it sits in the combined
  stream, a byte resolves to a segment exactly when that segment is served, and the byte lies in the
  stretch that begins at the segment's own address; so asking for any byte of a segment by its
  address finds the segment again.\<close>

lemma lookup_agrees_with_addresses:
  assumes "length segs \<le> u32_max" and "f = recompute init_size segs g"
    and "seed_of init_size g + sum_list (map size_get segs) \<le> i64_max"
  shows "find_virtual b segs f = Some (i, v, sz) \<longleftrightarrow>
    b \<le> i64_max \<and> served_from f \<le> i \<and> i < served_until f \<and> segment_byte_offset i f = Some v
    \<and> sz = size_get (segs ! i) \<and> v \<le> b \<and> b < v + sz"
  using find_virtual_spec [OF recompute_laid_out assms(1,3)] assms(2) by simp

lemma starts_cover:
  "c \<le> b \<Longrightarrow> b < c + sum_list xs
    \<Longrightarrow> \<exists>i < length xs. starts c xs ! i \<le> b \<and> b < starts c xs ! i + xs ! i"
proof (induction c xs rule: starts.induct)
  case (2 c x xs)
  show ?case
  proof (cases "b < c + x")
    case True
    with 2 show ?thesis by (intro exI [of _ 0]) simp
  next
    case False
    with 2 obtain i where "i < length xs" "starts (c + x) xs ! i \<le> b" "b < starts (c + x) xs ! i + xs ! i"
      by (auto simp: add.assoc)
    then show ?thesis by (intro exI [of _ "Suc i"]) simp
  qed
qed simp

definition canonical :: "segment_size list \<Rightarrow> layout_frame \<Rightarrow> bool" where
  "canonical segs f \<longleftrightarrow> byte_shift f = 0 \<and> served_from f = 0 \<and> served_until f = length segs \<and> init_seed f = 0"

lemma canonical_total:
  assumes "laid_out c segs f" "canonical segs f" "c + sum_list (map size_get segs) \<le> i64_max" "c = init_size"
  shows "frame_total_bytes segs init_size f = c + sum_list (map size_get segs)"
proof (cases "segs = []")
  case True
  then show ?thesis
    using assms by (simp add: frame_total_bytes_def canonical_def laid_out_def slice_get_def Let_def conversion_defs
        checked_sub_def)
next
  case False
  let ?k = "length segs - 1"
  have k: "?k < length segs" "length (offsets f) = length segs"
    using False assms(1) by (simp_all add: laid_out_def)
  have "take (Suc ?k) (map size_get segs) = map size_get segs"
    using False by simp
  then have "offsets f ! ?k + size_get (segs ! ?k) = c + sum_list (map size_get segs)"
    using offsets_nth [OF assms(1) k(1)] take_Suc_conv_app_nth [of ?k "map size_get segs"] k
    by (simp add: add.assoc) (metis sum_list.Cons sum_list.Nil sum_list.append add.right_neutral nth_map)
  then show ?thesis
    using assms(2,3) k by (simp add: frame_total_bytes_def canonical_def slice_get_def Let_def conversion_defs)
qed

lemma canonical_cover:
  assumes "laid_out c segs f" "canonical segs f" "length segs \<le> u32_max"
    "c + sum_list (map size_get segs) \<le> i64_max" "c = init_size"
  shows "find_virtual b segs f \<noteq> None \<longleftrightarrow> init_size \<le> b \<and> b < frame_total_bytes segs init_size f"
proof
  assume "find_virtual b segs f \<noteq> None"
  then obtain i v sz where "find_virtual b segs f = Some (i, v, sz)"
    by (metis option.exhaust prod_cases3)
  then have *: "segment_byte_offset i f = Some v" "v \<le> b" "b < v + size_get (segs ! i)"
    by (auto simp: find_virtual_spec [OF assms(1,3,4)])
  then have i: "i < length segs" "v = offsets f ! i"
    using assms(2) by (simp_all add: segment_byte_offset_Some [OF assms(1,4)] canonical_def)
  then show "init_size \<le> b \<and> b < frame_total_bytes segs init_size f"
    using segment_end_le [OF assms(1) i(1)] offsets_nth [OF assms(1) i(1)] * assms(5)
    by (simp add: canonical_total [OF assms(1,2,4,5)])
next
  assume "init_size \<le> b \<and> b < frame_total_bytes segs init_size f"
  then have b: "c \<le> b" "b < c + sum_list (map size_get segs)"
    using assms(5) by (simp_all add: canonical_total [OF assms(1,2,4,5)])
  then obtain i where i: "i < length segs" "offsets f ! i \<le> b" "b < offsets f ! i + size_get (segs ! i)"
    using starts_cover [OF b] assms(1) by (auto simp: laid_out_def)
  then have "segment_byte_offset i f = Some (offsets f ! i)"
    using assms(2) b(2) assms(4) by (simp add: segment_byte_offset_Some [OF assms(1,4)] canonical_def)
  then have "find_virtual b segs f = Some (i, offsets f ! i, size_get (segs ! i))"
    using i assms(2) b(2) assms(4) by (simp add: find_virtual_spec [OF assms(1,3,4)] canonical_def)
  then show "find_virtual b segs f \<noteq> None" by simp
qed


subsection \<open>Publication\<close>

record layout =
  lay_frame :: layout_frame
  lay_sizes_complete :: bool
  publication_seq :: nat
  lay_total :: nat

definition num_segments :: "segment_size list \<Rightarrow> nat" where
  "num_segments segs = (case u32_of_usize (length segs) of Some n \<Rightarrow> n | None \<Rightarrow> u32_max)"

definition republish :: "frame_snapshot \<Rightarrow> layout \<Rightarrow> layout" where
  "republish snap l = l\<lparr>lay_total := snap_total snap, lay_sizes_complete := snap_sizes_complete snap\<rparr>"

definition layout_new :: "nat \<Rightarrow> segment_size list \<Rightarrow> layout" where
  "layout_new init_size segs =
     (let f = recompute init_size segs \<lparr>offsets = [], byte_shift = 0, served_from = 0,
            served_until = num_segments segs, init_seed = 0\<rparr>;
          snap = frame_snapshot_of segs init_size f
      in \<lparr>lay_frame = f, lay_sizes_complete = snap_sizes_complete snap, publication_seq = 0,
          lay_total = snap_total snap\<rparr>)"

text \<open>The frame updates of the two mutators, \<open>apply_commit\<close> and \<open>reset\<close>.\<close>

datatype mutation = ApplyCommit | Reset

definition mutate :: "mutation \<Rightarrow> segment_size list \<Rightarrow> nat \<Rightarrow> layout_frame \<Rightarrow> layout_frame" where
  "mutate m segs init_size f =
     (case m of
        ApplyCommit \<Rightarrow> recompute init_size segs f
      | Reset \<Rightarrow> recompute init_size segs
          (f\<lparr>byte_shift := 0, served_from := 0, served_until := num_segments segs, init_seed := 0\<rparr>))"

text \<open>The whole cycle, run without interruption: \<open>segs\<close> and \<open>init_size\<close> are what the caller's
  \<open>store\<close> left.\<close>

definition mutate_frame :: "mutation \<Rightarrow> segment_size list \<Rightarrow> nat \<Rightarrow> layout \<Rightarrow> layout" where
  "mutate_frame m segs init_size l =
     (let l1 = l\<lparr>publication_seq := publication_seq l + 1\<rparr>;
          f = mutate m segs init_size (lay_frame l1);
          snap = frame_snapshot_of segs init_size f;
          l2 = republish snap (l1\<lparr>lay_frame := f\<rparr>)
      in l2\<lparr>publication_seq := publication_seq l2 + 1\<rparr>)"

definition is_canonical_complete :: "segment_size list \<Rightarrow> layout \<Rightarrow> bool" where
  "is_canonical_complete segs l \<longleftrightarrow> lay_sizes_complete l
     \<and> (let f = lay_frame l
        in byte_shift f = 0 \<and> served_from f = 0 \<and> served_until f = num_segments segs
           \<and> init_seed f = 0 \<and> length (offsets f) = length segs)"

definition natural_offset :: "nat \<Rightarrow> layout \<Rightarrow> nat option" where
  "natural_offset idx l = slice_get (offsets (lay_frame l)) idx"

text \<open>A lock-free read: the counter before, what the loads in between gave, the counter after.\<close>

definition try_published :: "nat \<Rightarrow> 'a option \<Rightarrow> nat \<Rightarrow> 'a option" where
  "try_published before read_value after =
     (if odd before then None
      else Option.bind read_value (\<lambda>v. if before = after then Some v else None))"

text \<open>\<open>total_bytes\<close> of a variant: a live seek alias moves the end of the stream to where the reader
  believes the aliased segment begins.\<close>

definition variant_total :: "bool \<Rightarrow> (nat \<times> nat) option \<Rightarrow> nat \<Rightarrow> layout_frame \<Rightarrow> nat" where
  "variant_total needs_exact alias end_byte f =
     (case alias of
        Some (seg, anchor) \<Rightarrow>
          if needs_exact then end_byte
          else (case segment_byte_offset seg f of
              Some off \<Rightarrow> sat_add u64_max anchor (end_byte - off) | None \<Rightarrow> end_byte)
      | None \<Rightarrow> end_byte)"

definition authoritative_read :: "bool \<Rightarrow> (nat \<times> nat) option \<Rightarrow> nat \<Rightarrow> layout_frame \<Rightarrow> bool \<Rightarrow> nat option" where
  "authoritative_read needs_exact alias end_byte f ready =
     (let n = variant_total needs_exact alias end_byte f in if 0 < n \<and> ready then Some n else None)"

text \<open>What the initialisation adds in front: the routed size of its slot, a placeholder as well as an
  exact one.\<close>

definition init_route :: "segment_size option \<Rightarrow> nat" where
  "init_route init = (case init of None \<Rightarrow> 0 | Some s \<Rightarrow> size_get s)"

text \<open>The writer's cycle access by access.  Under the lock there is one writer; while its window is
  open the caller's \<open>store\<close> may change any size, in any order and any number of times, but not the
  number of segments.\<close>

datatype writer_pc = Idle | Begun mutation | Swapped frame_snapshot | TotalStored frame_snapshot | Republished

record layout_sys =
  lay :: layout
  sys_segs :: "segment_size list"
  sys_init :: "segment_size option"
  pc :: writer_pc

inductive layout_step :: "layout_sys \<Rightarrow> layout_sys \<Rightarrow> bool" where
  Begin: "pc t = Idle \<Longrightarrow>
    layout_step t (t\<lparr>lay := (lay t)\<lparr>publication_seq := publication_seq (lay t) + 1\<rparr>, pc := Begun m\<rparr>)"
| StoreSize: "pc t = Begun m \<Longrightarrow> length segs = length (sys_segs t) \<Longrightarrow>
    layout_step t (t\<lparr>sys_segs := segs, sys_init := init\<rparr>)"
| Swap: "pc t = Begun m \<Longrightarrow> f = mutate m (sys_segs t) (init_route (sys_init t)) (lay_frame (lay t)) \<Longrightarrow>
    layout_step t (t\<lparr>lay := (lay t)\<lparr>lay_frame := f\<rparr>,
      pc := Swapped (frame_snapshot_of (sys_segs t) (init_route (sys_init t)) f)\<rparr>)"
| StoreTotal: "pc t = Swapped snap \<Longrightarrow>
    layout_step t (t\<lparr>lay := (lay t)\<lparr>lay_total := snap_total snap\<rparr>, pc := TotalStored snap\<rparr>)"
| StoreComplete: "pc t = TotalStored snap \<Longrightarrow>
    layout_step t (t\<lparr>lay := (lay t)\<lparr>lay_sizes_complete := snap_sizes_complete snap\<rparr>, pc := Republished\<rparr>)"
| Finish: "pc t = Republished \<Longrightarrow>
    layout_step t (t\<lparr>lay := (lay t)\<lparr>publication_seq := publication_seq (lay t) + 1\<rparr>, pc := Idle\<rparr>)"

inductive_cases layout_stepE: "layout_step t t'"

abbreviation layout_steps :: "layout_sys \<Rightarrow> layout_sys \<Rightarrow> bool" where
  "layout_steps \<equiv> layout_step\<^sup>*\<^sup>*"

definition layout_start :: "segment_size option \<Rightarrow> segment_size list \<Rightarrow> layout_sys" where
  "layout_start init segs =
     \<lparr>lay = layout_new (init_route init) segs, sys_segs = segs, sys_init = init, pc = Idle\<rparr>"

lemma mutate_frame_steps:
  assumes "pc t = Idle" "length segs = length (sys_segs t)"
  shows "layout_steps t (t\<lparr>lay := mutate_frame m segs (init_route init) (lay t), sys_segs := segs, sys_init := init\<rparr>)"
proof -
  let ?f = "mutate m segs (init_route init) (lay_frame (lay t))"
  let ?snap = "frame_snapshot_of segs (init_route init) ?f"
  define t1 where "t1 = t\<lparr>lay := (lay t)\<lparr>publication_seq := publication_seq (lay t) + 1\<rparr>, pc := Begun m\<rparr>"
  define t2 where "t2 = t1\<lparr>sys_segs := segs, sys_init := init\<rparr>"
  define t3 where "t3 = t2\<lparr>lay := (lay t2)\<lparr>lay_frame := ?f\<rparr>, pc := Swapped ?snap\<rparr>"
  define t4 where "t4 = t3\<lparr>lay := (lay t3)\<lparr>lay_total := snap_total ?snap\<rparr>, pc := TotalStored ?snap\<rparr>"
  define t5 where "t5 = t4\<lparr>lay := (lay t4)\<lparr>lay_sizes_complete := snap_sizes_complete ?snap\<rparr>, pc := Republished\<rparr>"
  note defs = t1_def t2_def t3_def t4_def t5_def
  have 1: "layout_step t t1"
    unfolding t1_def by (rule layout_step.Begin) fact
  have 2: "layout_step t1 t2"
    unfolding t2_def by (rule layout_step.StoreSize [of _ m]) (simp_all add: t1_def assms)
  have 3: "layout_step t2 t3"
    using layout_step.Swap [of t2 m ?f] by (simp add: t3_def) (simp add: t2_def t1_def)
  have 4: "layout_step t3 t4"
    unfolding t4_def by (rule layout_step.StoreTotal) (simp add: t3_def)
  have 5: "layout_step t4 t5"
    unfolding t5_def by (rule layout_step.StoreComplete) (simp add: t4_def)
  have 6: "layout_step t5 (t5\<lparr>lay := (lay t5)\<lparr>publication_seq := publication_seq (lay t5) + 1\<rparr>, pc := Idle\<rparr>)"
    by (rule layout_step.Finish) (simp add: t5_def)
  have "t5\<lparr>lay := (lay t5)\<lparr>publication_seq := publication_seq (lay t5) + 1\<rparr>, pc := Idle\<rparr>
      = t\<lparr>lay := mutate_frame m segs (init_route init) (lay t), sys_segs := segs, sys_init := init\<rparr>"
    using assms(1) by (cases t) (simp add: defs mutate_frame_def republish_def Let_def)
  with 6 have "layout_step t5 (t\<lparr>lay := mutate_frame m segs (init_route init) (lay t), sys_segs := segs, sys_init := init\<rparr>)"
    by simp
  from r_into_rtranclp [of layout_step, OF this] show ?thesis
    by (intro converse_rtranclp_into_rtranclp [of layout_step, OF 1] converse_rtranclp_into_rtranclp [of layout_step, OF 2]
        converse_rtranclp_into_rtranclp [of layout_step, OF 3] converse_rtranclp_into_rtranclp [of layout_step, OF 4]
        converse_rtranclp_into_rtranclp [of layout_step, OF 5])
qed


subsection \<open>Published views are coherent\<close>

definition view_ok :: "segment_size list \<Rightarrow> nat \<Rightarrow> layout \<Rightarrow> bool" where
  "view_ok segs init_size l \<longleftrightarrow> laid_out init_size segs (lay_frame l)
     \<and> lay_total l = frame_total_bytes segs init_size (lay_frame l)
     \<and> lay_sizes_complete l = frame_sizes_complete segs (lay_frame l)"

definition layout_inv :: "nat \<Rightarrow> layout_sys \<Rightarrow> bool" where
  "layout_inv n t \<longleftrightarrow> length (sys_segs t) = n \<and> canonical (sys_segs t) (lay_frame (lay t))
     \<and> even (publication_seq (lay t)) = (pc t = Idle)
     \<and> (case pc t of
          Idle \<Rightarrow> view_ok (sys_segs t) (init_route (sys_init t)) (lay t)
        | Begun m \<Rightarrow> True
        | Swapped snap \<Rightarrow> laid_out (init_route (sys_init t)) (sys_segs t) (lay_frame (lay t))
            \<and> snap = frame_snapshot_of (sys_segs t) (init_route (sys_init t)) (lay_frame (lay t))
        | TotalStored snap \<Rightarrow> laid_out (init_route (sys_init t)) (sys_segs t) (lay_frame (lay t))
            \<and> snap = frame_snapshot_of (sys_segs t) (init_route (sys_init t)) (lay_frame (lay t))
            \<and> lay_total (lay t) = snap_total snap
        | Republished \<Rightarrow> view_ok (sys_segs t) (init_route (sys_init t)) (lay t))"

lemma num_segments_small: "length segs \<le> u32_max \<Longrightarrow> num_segments segs = length segs"
  by (simp add: num_segments_def u32_of_usize_def)

lemma mutate_canonical:
  assumes "canonical segs f" "length segs' = length segs" "length segs \<le> u32_max"
  shows "canonical segs' (mutate m segs' init_size f)" "laid_out init_size segs' (mutate m segs' init_size f)"
  using assms
  by (cases m; simp add: mutate_def canonical_def recompute_offsets num_segments_small laid_out_def seed_of_def)+

lemma layout_start_inv:
  assumes "length segs \<le> u32_max"
  shows "layout_inv (length segs) (layout_start init segs)"
  using assms
  by (simp add: layout_inv_def layout_start_def layout_new_def canonical_def view_ok_def Let_def recompute_offsets
      num_segments_small laid_out_def seed_of_def frame_snapshot_of_def)

lemma layout_new_ok:
  assumes "length segs \<le> u32_max"
  shows "canonical segs (lay_frame (layout_new n segs)) \<and> view_ok segs n (layout_new n segs)
    \<and> even (publication_seq (layout_new n segs))"
  using layout_start_inv [OF assms, of "Some (placeholder n)"]
  by (simp add: layout_inv_def layout_start_def init_route_def placeholder_def size_default_def size_get_def)

lemma layout_step_inv:
  assumes "layout_step t t'" "layout_inv n t" "n \<le> u32_max"
  shows "layout_inv n t'"
  using assms
proof (induction rule: layout_step.induct)
  case (Swap t m f)
  then show ?case
    using mutate_canonical [where segs = "sys_segs t" and f = "lay_frame (lay t)" and segs' = "sys_segs t"
        and m = m and init_size = "init_route (sys_init t)"]
    by (simp add: layout_inv_def)
qed (simp_all add: layout_inv_def view_ok_def canonical_def frame_snapshot_of_def)

lemma layout_reachable_inv:
  assumes "layout_steps (layout_start init segs) t" "length segs \<le> u32_max"
  shows "layout_inv (length segs) t"
  using assms(1) layout_start_inv [OF assms(2)] layout_step_inv assms(2)
  by (induction rule: rtranclp_induct) blast+

lemma layout_step_seq:
  "layout_step t t' \<Longrightarrow> publication_seq (lay t) \<le> publication_seq (lay t')"
  by (induction rule: layout_step.induct) simp_all

lemma layout_steps_seq:
  "layout_steps t t' \<Longrightarrow> publication_seq (lay t) \<le> publication_seq (lay t')"
  by (induction rule: rtranclp_induct) (auto dest: layout_step_seq)

lemma idle_step: "layout_step t t' \<Longrightarrow> pc t = Idle \<Longrightarrow> publication_seq (lay t') = publication_seq (lay t) + 1"
  by (auto elim: layout_stepE)

text \<open>A window of equal counters around an idle start is no time at all.\<close>

lemma published_window:
  assumes "layout_steps t t1" "layout_steps t1 t2" "pc t = Idle" "publication_seq (lay t2) = publication_seq (lay t)"
  shows "t1 = t"
  using assms(1)
proof (cases rule: converse_rtranclpE)
  case (step u)
  then have "publication_seq (lay t) < publication_seq (lay t2)"
    using idle_step [OF step(1) assms(3)] layout_steps_seq [OF step(2)] layout_steps_seq [OF assms(2)] by simp
  with assms(4) show ?thesis by simp
qed simp

lemma canonical_sizes_complete:
  "canonical segs f \<Longrightarrow> frame_sizes_complete segs f = list_all is_exact segs"
  by (auto simp: frame_sizes_complete_def canonical_def Let_def)

text \<open>C38: a length that a reader is given without a lock belongs to one publication.  Whatever the
  writer does between the reader's loads, an answer means that every load saw one and the same
  publication: all media segments had their exact size, the length is the routed size of the
  initialisation plus all of them (moved by the reader's own seek alias when it has one), and the frame
  of that publication resolves precisely the bytes from the initialisation to that end.  The size of the
  initialisation is not waited for: it may be a placeholder.\<close>

theorem authoritative_length_is_one_publication:
  assumes "layout_steps (layout_start init segs) t0" and "length segs \<le> u32_max"
    and "layout_steps t0 t1" and "layout_steps t1 t2" and "layout_steps t2 t3" and "layout_steps t3 t4"
    and "try_published (publication_seq (lay t0))
      (authoritative_read needs_exact alias (lay_total (lay t1)) (lay_frame (lay t2)) (lay_sizes_complete (lay t3)))
      (publication_seq (lay t4)) = Some n"
    and "init_route (sys_init t0) + sum_list (map size_get (sys_segs t0)) \<le> i64_max"
  shows "list_all is_exact (sys_segs t0)
    \<and> n = variant_total needs_exact alias (init_route (sys_init t0) + sum_list (map size_get (sys_segs t0))) (lay_frame (lay t0))
    \<and> (find_virtual b (sys_segs t0) (lay_frame (lay t0)) \<noteq> None) =
      (init_route (sys_init t0) \<le> b \<and> b < init_route (sys_init t0) + sum_list (map size_get (sys_segs t0)))"
proof -
  have inv: "layout_inv (length segs) t0"
    using layout_reachable_inv [OF assms(1,2)] .
  have seq: "even (publication_seq (lay t0))" "publication_seq (lay t4) = publication_seq (lay t0)"
    and got: "authoritative_read needs_exact alias (lay_total (lay t1)) (lay_frame (lay t2))
      (lay_sizes_complete (lay t3)) = Some n"
    using assms(7) by (auto simp: try_published_def Option.bind_eq_Some_conv split: if_splits)
  have idle: "pc t0 = Idle"
    using inv seq(1) by (simp add: layout_inv_def)
  have steps: "layout_steps t1 t4" "layout_steps t0 t2" "layout_steps t2 t4" "layout_steps t0 t3"
    using assms(3-6) by (meson rtranclp_trans)+
  have same: "t1 = t0" "t2 = t0" "t3 = t0"
    using published_window [OF assms(3) steps(1) idle seq(2)] published_window [OF steps(2,3) idle seq(2)]
      published_window [OF steps(4) assms(6) idle seq(2)] by simp_all
  have view: "view_ok (sys_segs t0) (init_route (sys_init t0)) (lay t0)" "canonical (sys_segs t0) (lay_frame (lay t0))"
    "length (sys_segs t0) \<le> u32_max"
    using inv idle assms(2) by (simp_all add: layout_inv_def)
  then have laid: "laid_out (init_route (sys_init t0)) (sys_segs t0) (lay_frame (lay t0))"
    by (simp add: view_ok_def)
  have "n = variant_total needs_exact alias (lay_total (lay t0)) (lay_frame (lay t0))" "lay_sizes_complete (lay t0)"
    using got by (auto simp: authoritative_read_def same Let_def split: if_splits)
  then show ?thesis
    using view canonical_total [OF laid view(2) assms(8) refl] canonical_cover [OF laid view(2,3) assms(8) refl, of b]
    by (simp add: view_ok_def canonical_sizes_complete)
qed

text \<open>A commit or a reset that is interrupted by readers has the same outcome as one that is not,
  and in that outcome the view is sound: the table is the sum of the sizes stored, the published
  length and completeness are those of the frame, and the segments answer from their new
  addresses.\<close>

lemma publication_refines_the_update:
  assumes "layout_steps (layout_start init segs) t" and "length segs \<le> u32_max" and "pc t = Idle"
    and "length segs' = length (sys_segs t)"
    and "l = mutate_frame m segs' (init_route init') (lay t)"
  shows "layout_steps t (t\<lparr>lay := l, sys_segs := segs', sys_init := init'\<rparr>)
    \<and> offsets (lay_frame l) = starts (init_route init') (map size_get segs')
    \<and> lay_total l = frame_total_bytes segs' (init_route init') (lay_frame l)
    \<and> lay_sizes_complete l = list_all is_exact segs'"
proof -
  have steps: "layout_steps t (t\<lparr>lay := l, sys_segs := segs', sys_init := init'\<rparr>)" (is "layout_steps t ?t'")
    using mutate_frame_steps [OF assms(3,4)] assms(5) by simp
  then have "layout_steps (layout_start init segs) ?t'"
    using assms(1) by (rule rtranclp_trans [rotated])
  from layout_reachable_inv [OF this assms(2)] show ?thesis
    using steps assms(3) by (simp add: layout_inv_def view_ok_def laid_out_def canonical_sizes_complete)
qed


subsection \<open>A variant at work\<close>

definition demo_sizes :: "segment_size list" where
  "demo_sizes = [size_seed 10, set_exact 20 (placeholder 7)]"

definition demo_frame :: layout_frame where
  "demo_frame = \<lparr>offsets = [], byte_shift = 100, served_from = 1, served_until = 2, init_seed = 0\<rparr>"

lemmas demo_size_defs = demo_sizes_def size_seed_def placeholder_def size_default_def set_exact_def size_get_def
  is_exact_def

lemma demo_lens: "map size_get demo_sizes = [10, 20]" "list_all is_exact demo_sizes" "length demo_sizes = 2"
  by (simp_all add: demo_size_defs)

text \<open>An initialisation whose size is a placeholder, in front of exact media.\<close>

definition demo_sys :: layout_sys where
  "demo_sys = layout_start (Some (placeholder 5)) demo_sizes"

lemma demo_init: "init_route (Some (placeholder 5)) = 5" "\<not> is_exact (placeholder 5)"
  by (simp_all add: init_route_def placeholder_def size_get_def size_default_def is_exact_def)

lemma demo_view: "lay_total (lay demo_sys) = 35" "lay_sizes_complete (lay demo_sys)"
    "publication_seq (lay demo_sys) = 0" "sys_init demo_sys = Some (placeholder 5)" "sys_segs demo_sys = demo_sizes"
    "pc demo_sys = Idle"
proof -
  have inv: "layout_inv 2 demo_sys"
    using layout_start_inv [of demo_sizes] by (simp add: demo_lens u32_max_def demo_sys_def)
  show pc: "pc demo_sys = Idle" and seg: "sys_init demo_sys = Some (placeholder 5)" "sys_segs demo_sys = demo_sizes"
    and "publication_seq (lay demo_sys) = 0"
    by (simp_all add: demo_sys_def layout_start_def layout_new_def Let_def)
  have v: "view_ok demo_sizes 5 (lay demo_sys)" "canonical demo_sizes (lay_frame (lay demo_sys))"
    using inv pc seg by (simp_all add: layout_inv_def demo_init)
  show "lay_sizes_complete (lay demo_sys)"
    using v(1) canonical_sizes_complete [OF v(2)] demo_lens(2) by (simp add: view_ok_def)
  show "lay_total (lay demo_sys) = 35"
    using v canonical_total [of 5 demo_sizes "lay_frame (lay demo_sys)" 5]
    by (simp add: view_ok_def demo_lens i64_max_def)
qed

lemma demo_length:
  "try_published (publication_seq (lay demo_sys))
     (authoritative_read True None (lay_total (lay demo_sys)) (lay_frame (lay demo_sys)) (lay_sizes_complete (lay demo_sys)))
     (publication_seq (lay demo_sys)) = Some 35"
  by (simp add: demo_view try_published_def authoritative_read_def variant_total_def)

lemma authoritative_length_is_one_publication_witness:
  "list_all is_exact (sys_segs demo_sys)
    \<and> 35 = variant_total True None (init_route (sys_init demo_sys) + sum_list (map size_get (sys_segs demo_sys)))
        (lay_frame (lay demo_sys))
    \<and> (find_virtual 7 (sys_segs demo_sys) (lay_frame (lay demo_sys)) \<noteq> None) =
      (init_route (sys_init demo_sys) \<le> 7 \<and> 7 < init_route (sys_init demo_sys) + sum_list (map size_get (sys_segs demo_sys)))"
proof -
  have reach: "layout_steps (layout_start (Some (placeholder 5)) demo_sizes) demo_sys"
    by (simp add: demo_sys_def)
  show ?thesis
    by (rule authoritative_length_is_one_publication [OF reach _ rtranclp.rtrancl_refl rtranclp.rtrancl_refl
          rtranclp.rtrancl_refl rtranclp.rtrancl_refl demo_length])
       (simp_all add: demo_view demo_lens demo_init u32_max_def i64_max_def)
qed

text \<open>The length counts a placeholder: the published completeness is that of the media alone.\<close>

lemma length_counts_a_placeholder_init:
  "try_published (publication_seq (lay demo_sys))
     (authoritative_read True None (lay_total (lay demo_sys)) (lay_frame (lay demo_sys)) (lay_sizes_complete (lay demo_sys)))
     (publication_seq (lay demo_sys)) = Some 35
   \<and> sys_init demo_sys = Some (placeholder 5) \<and> \<not> is_exact (placeholder 5)"
  using demo_length demo_init(2) demo_view(4) by simp

end
