(* ===== verification/Lru.thy ===== *)
theory Lru
  imports Prelude "HOL-Library.Multiset" "HOL-Library.List_Lexorder" "HOL-Library.Char_ord"
begin

text \<open>
  The eviction index of the asset store (\<open>crates/kithara-assets/src/index/lru/state.rs\<close>): when
  each asset root was last used, how many bytes it holds, and which roots to evict when the store is
  over its limits.  The hash map is an association list with distinct keys whose order is the
  unspecified iteration order; every property holds for any order.  A root is a string; the byte
  sum, unchecked in the code, is a natural.
\<close>

type_synonym asset_root = string

record lru_entry =
  bytes :: "nat option"
  last_touch :: nat

record lru_state =
  by_root :: "(asset_root \<times> lru_entry) list"
  clock :: nat

definition lru_default :: lru_state where
  "lru_default = \<lparr>by_root = [], clock = 0\<rparr>"

record evict_config =
  max_assets :: "nat option"
  max_bytes :: "nat option"

definition is_none_or :: "('a \<Rightarrow> bool) \<Rightarrow> 'a option \<Rightarrow> bool" where
  "is_none_or P x = (case x of None \<Rightarrow> True | Some a \<Rightarrow> P a)"

definition entry_bytes :: "asset_root \<times> lru_entry \<Rightarrow> nat" where
  "entry_bytes p = (case bytes (snd p) of None \<Rightarrow> 0 | Some n \<Rightarrow> n)"

definition total_bytes :: "lru_state \<Rightarrow> nat" where
  "total_bytes st = sum_list (map entry_bytes (by_root st))"

definition lru_len :: "lru_state \<Rightarrow> nat" where
  "lru_len st = length (by_root st)"

definition within_limits :: "evict_config \<Rightarrow> nat \<Rightarrow> nat \<Rightarrow> bool" where
  "within_limits cfg assets byts \<longleftrightarrow>
     is_none_or (\<lambda>m. assets \<le> m) (max_assets cfg) \<and> is_none_or (\<lambda>m. byts \<le> m) (max_bytes cfg)"

fun evict_scan :: "evict_config \<Rightarrow> nat \<Rightarrow> nat \<Rightarrow> bool \<Rightarrow> (asset_root \<times> lru_entry) list \<Rightarrow> asset_root list" where
  "evict_scan cfg assets byts over [] = []"
| "evict_scan cfg assets byts over (p # rest) =
     (if over then []
      else let assets' = assets - 1; byts' = byts - entry_bytes p
           in fst p # evict_scan cfg assets' byts' (within_limits cfg assets' byts') rest)"

definition by_age :: "lru_state \<Rightarrow> (asset_root \<times> lru_entry) list" where
  "by_age st = sort_key (\<lambda>p. last_touch (snd p)) (by_root st)"

definition eviction_candidates :: "evict_config \<Rightarrow> asset_root list \<Rightarrow> lru_state \<Rightarrow> asset_root list" where
  "eviction_candidates cfg pinned st =
     (if max_assets cfg = None \<and> max_bytes cfg = None then []
      else if is_none_or (\<lambda>m. lru_len st \<le> m) (max_assets cfg)
            \<and> is_none_or (\<lambda>m. total_bytes st \<le> m) (max_bytes cfg) then []
      else evict_scan cfg (lru_len st) (total_bytes st) False
             (filter (\<lambda>p. fst p \<notin> set pinned) (by_age st)))"

definition lru_update :: "asset_root \<Rightarrow> (lru_entry \<Rightarrow> lru_entry) \<Rightarrow> (asset_root \<times> lru_entry) list \<Rightarrow> (asset_root \<times> lru_entry) list" where
  "lru_update k f es = map (\<lambda>(r, e). if r = k then (r, f e) else (r, e)) es"

definition touch :: "asset_root \<Rightarrow> nat option \<Rightarrow> lru_state \<Rightarrow> bool \<times> lru_state" where
  "touch k bytes_hint st =
     (let c = sat_add u64_max (clock st) 1
      in if map_of (by_root st) k \<noteq> None
         then (False, st\<lparr>clock := c, by_root := lru_update k
                (\<lambda>e. e\<lparr>last_touch := c, bytes := (if bytes_hint \<noteq> None then bytes_hint else bytes e)\<rparr>)
                (by_root st)\<rparr>)
         else (True, st\<lparr>clock := c,
                by_root := by_root st @ [(k, \<lparr>bytes = bytes_hint, last_touch = c\<rparr>)]\<rparr>))"

definition update_bytes :: "asset_root \<Rightarrow> nat \<Rightarrow> lru_state \<Rightarrow> bool \<times> lru_state" where
  "update_bytes k n st =
     (case map_of (by_root st) k of
        None \<Rightarrow> (False, st)
      | Some e \<Rightarrow> if bytes e = Some n then (False, st)
          else (True, st\<lparr>by_root := lru_update k (\<lambda>e. e\<lparr>bytes := Some n\<rparr>) (by_root st)\<rparr>))"

definition lru_remove :: "asset_root \<Rightarrow> lru_state \<Rightarrow> bool \<times> lru_state" where
  "lru_remove k st =
     (map_of (by_root st) k \<noteq> None, st\<lparr>by_root := filter (\<lambda>p. fst p \<noteq> k) (by_root st)\<rparr>)"

text \<open>The file form: a map in key order with the clock, and back.\<close>

record lru_index_file =
  file_entries :: "(asset_root \<times> lru_entry) list"
  file_version :: nat
  file_clock :: nat

definition lru_to_file :: "lru_state \<Rightarrow> lru_index_file" where
  "lru_to_file st =
     \<lparr>file_entries = sort_key fst (by_root st), file_version = 1, file_clock = clock st\<rparr>"

definition lru_of_file :: "lru_index_file \<Rightarrow> lru_state" where
  "lru_of_file file = \<lparr>by_root = file_entries file, clock = file_clock file\<rparr>"

subsection \<open>Sums over distinct lists\<close>

definition lru_ok :: "lru_state \<Rightarrow> bool" where
  "lru_ok st \<longleftrightarrow> distinct (map fst (by_root st))"

definition remove_all :: "asset_root list \<Rightarrow> lru_state \<Rightarrow> lru_state" where
  "remove_all roots st = fold (\<lambda>r s. snd (lru_remove r s)) roots st"

lemma remove_all_eq:
  "remove_all roots st = st\<lparr>by_root := filter (\<lambda>p. fst p \<notin> set roots) (by_root st)\<rparr>"
proof (induction roots arbitrary: st)
  case (Cons r roots)
  have "remove_all (r # roots) st = remove_all roots (snd (lru_remove r st))"
    by (simp add: remove_all_def)
  then show ?case
    by (simp add: Cons lru_remove_def conj_commute)
qed (simp add: remove_all_def)

lemma sum_without:
  assumes "distinct (map fst L)" "distinct xs" "set xs \<subseteq> set L"
  shows "sum_list (map f (filter (\<lambda>p. fst p \<notin> set (map fst xs)) L)) + sum_list (map f xs) = sum_list (map (f :: _ \<Rightarrow> nat) L)"
proof -
  have dL: "distinct L"
    using assms(1) by (simp add: distinct_map)
  have "fst p \<notin> set (map fst xs) \<longleftrightarrow> p \<notin> set xs" if "p \<in> set L" for p
    using assms(1,3) that by (auto simp: distinct_map inj_on_def image_iff)
  then have "filter (\<lambda>p. fst p \<notin> set (map fst xs)) L = filter (\<lambda>p. p \<notin> set xs) L"
    by (intro filter_cong [OF refl]) simp
  moreover have "sum_list (map f (filter (\<lambda>p. p \<notin> set xs) L)) = sum f (set L - set xs)"
    using dL by (subst sum_list_distinct_conv_sum_set) (auto intro: arg_cong [where f = "sum f"])
  moreover have "sum_list (map f xs) = sum f (set xs)" "sum_list (map f L) = sum f (set L)"
    using dL assms(2) by (simp_all add: sum_list_distinct_conv_sum_set)
  ultimately show ?thesis
    using assms(3) by (simp add: sum.subset_diff [of "set xs" "set L" f])
qed

lemma without_sizes:
  assumes "lru_ok st" "distinct xs" "set xs \<subseteq> set (by_root st)"
  shows "lru_len (remove_all (map fst xs) st) = lru_len st - length xs"
    "total_bytes (remove_all (map fst xs) st) = total_bytes st - sum_list (map entry_bytes xs)"
  using sum_without [OF assms(1) [unfolded lru_ok_def] assms(2,3), of "\<lambda>_. 1"]
    sum_without [OF assms(1) [unfolded lru_ok_def] assms(2,3), of entry_bytes]
  by (simp_all add: lru_len_def total_bytes_def remove_all_eq sum_list_triv)

text \<open>What the scan takes: the shortest prefix whose removal meets the limits, or everything.\<close>

lemma evict_scan_prefix:
  "\<not> within_limits cfg a b \<Longrightarrow> \<exists>k \<le> length xs. evict_scan cfg a b False xs = map fst (take k xs)
     \<and> (k = length xs \<or> within_limits cfg (a - k) (b - sum_list (map entry_bytes (take k xs))))
     \<and> (\<forall>j < k. \<not> within_limits cfg (a - j) (b - sum_list (map entry_bytes (take j xs))))"
proof (induction xs arbitrary: a b)
  case (Cons p xs)
  show ?case
  proof (cases "within_limits cfg (a - 1) (b - entry_bytes p)")
    case True
    moreover have "evict_scan cfg (a - 1) (b - entry_bytes p) True xs = []"
      by (cases xs) simp_all
    ultimately show ?thesis
      using Cons.prems by (intro exI [of _ 1]) (simp add: Let_def)
  next
    case False
    from Cons.IH [OF False] obtain k where k: "k \<le> length xs"
      "evict_scan cfg (a - 1) (b - entry_bytes p) False xs = map fst (take k xs)"
      "k = length xs \<or> within_limits cfg (a - 1 - k) (b - entry_bytes p - sum_list (map entry_bytes (take k xs)))"
      "\<forall>j < k. \<not> within_limits cfg (a - 1 - j) (b - entry_bytes p - sum_list (map entry_bytes (take j xs)))"
      by blast
    have "\<forall>j < Suc k. \<not> within_limits cfg (a - j) (b - sum_list (map entry_bytes (take j (p # xs))))"
      using k(4) Cons.prems by (auto simp: less_Suc_eq_0_disj)
    then show ?thesis
      using k False by (intro exI [of _ "Suc k"]) (simp add: Let_def)
  qed
qed simp


subsection \<open>Eviction\<close>

definition evictable :: "asset_root list \<Rightarrow> lru_state \<Rightarrow> (asset_root \<times> lru_entry) list" where
  "evictable pinned st = filter (\<lambda>p. fst p \<notin> set pinned) (by_age st)"

lemma by_age_props:
  "set (by_age st) = set (by_root st)" "lru_ok st \<Longrightarrow> distinct (by_age st)"
  "sorted (map (\<lambda>p. last_touch (snd p)) (by_age st))"
  by (simp_all add: by_age_def lru_ok_def distinct_map)

lemma eviction_candidates_eq:
  "eviction_candidates cfg pinned st =
     (if within_limits cfg (lru_len st) (total_bytes st) then []
      else evict_scan cfg (lru_len st) (total_bytes st) False (evictable pinned st))"
  by (auto simp: eviction_candidates_def within_limits_def is_none_or_def evictable_def split: option.splits)

lemma eviction_prefix:
  assumes "lru_ok st"
  shows "\<exists>k \<le> length (evictable pinned st). eviction_candidates cfg pinned st = map fst (take k (evictable pinned st))
    \<and> (k = length (evictable pinned st)
      \<or> within_limits cfg (lru_len (remove_all (map fst (take k (evictable pinned st))) st))
          (total_bytes (remove_all (map fst (take k (evictable pinned st))) st)))
    \<and> (\<forall>j < k. \<not> within_limits cfg (lru_len (remove_all (map fst (take j (evictable pinned st))) st))
          (total_bytes (remove_all (map fst (take j (evictable pinned st))) st)))"
proof (cases "within_limits cfg (lru_len st) (total_bytes st)")
  case True
  then show ?thesis
    by (intro exI [of _ 0]) (simp add: eviction_candidates_eq remove_all_def)
next
  case False
  have "distinct (evictable pinned st)" "set (evictable pinned st) \<subseteq> set (by_root st)"
    using by_age_props(1,2) assms by (auto simp: evictable_def)
  then have sizes: "lru_len (remove_all (map fst (take j (evictable pinned st))) st) = lru_len st - length (take j (evictable pinned st))"
      "total_bytes (remove_all (map fst (take j (evictable pinned st))) st)
        = total_bytes st - sum_list (map entry_bytes (take j (evictable pinned st)))" for j
    using without_sizes [OF assms, of "take j (evictable pinned st)"] set_take_subset [of j "evictable pinned st"]
    by auto
  from evict_scan_prefix [OF False, of "evictable pinned st"] obtain k where k:
    "k \<le> length (evictable pinned st)"
    "evict_scan cfg (lru_len st) (total_bytes st) False (evictable pinned st) = map fst (take k (evictable pinned st))"
    "k = length (evictable pinned st) \<or> within_limits cfg (lru_len st - k)
      (total_bytes st - sum_list (map entry_bytes (take k (evictable pinned st))))"
    "\<forall>j < k. \<not> within_limits cfg (lru_len st - j)
      (total_bytes st - sum_list (map entry_bytes (take j (evictable pinned st))))"
    by blast
  then show ?thesis
    using False by (intro exI [of _ k]) (auto simp: eviction_candidates_eq sizes min_def)
qed

text \<open>C39: eviction takes what it must and no more: the candidates are the least recently used unpinned
  roots, oldest first; removing all of them brings the store within its limits, unless every
  unpinned root is a candidate; and removing any shorter run of them does not, so nothing is evicted
  from a store within its limits.\<close>

theorem eviction_is_sufficient_and_minimal:
  assumes "lru_ok st" and "cs = eviction_candidates cfg pinned st"
  shows "(\<exists>k. cs = map fst (take k (evictable pinned st)))
    \<and> sorted (map (\<lambda>p. last_touch (snd p)) (evictable pinned st))
    \<and> (set cs = fst ` set (by_root st) - set pinned
       \<or> within_limits cfg (lru_len (remove_all cs st)) (total_bytes (remove_all cs st)))
    \<and> (\<forall>j < length cs. \<not> within_limits cfg (lru_len (remove_all (take j cs) st))
         (total_bytes (remove_all (take j cs) st)))"
proof -
  let ?o = "evictable pinned st"
  obtain k where k: "k \<le> length ?o" "cs = map fst (take k ?o)"
    "k = length ?o \<or> within_limits cfg (lru_len (remove_all cs st)) (total_bytes (remove_all cs st))"
    "\<forall>j < k. \<not> within_limits cfg (lru_len (remove_all (map fst (take j ?o)) st))
          (total_bytes (remove_all (map fst (take j ?o)) st))"
    using eviction_prefix [OF assms(1), of pinned cfg] assms(2) by auto
  have "take j cs = map fst (take j ?o)" if "j < k" for j
    using that k(1,2) by (simp add: take_map min_def)
  moreover have "length cs = k"
    using k(1,2) by simp
  ultimately have less: "\<forall>j < length cs. \<not> within_limits cfg (lru_len (remove_all (take j cs) st))
      (total_bytes (remove_all (take j cs) st))"
    using k(4) by simp
  have "set cs = fst ` set (by_root st) - set pinned" if "k = length ?o"
    using that k(2) by (auto simp: evictable_def by_age_props)
  then have "set cs = fst ` set (by_root st) - set pinned
      \<or> within_limits cfg (lru_len (remove_all cs st)) (total_bytes (remove_all cs st))"
    using k(3) by blast
  moreover have "sorted (map (\<lambda>p. last_touch (snd p)) ?o)"
    using by_age_props(3) by (simp add: evictable_def sorted_filter)
  ultimately show ?thesis
    using k(2) less by blast
qed

subsection \<open>Recency\<close>

datatype lru_op = Touch asset_root "nat option" | UpdateBytes asset_root nat | Remove asset_root

definition lru_apply :: "lru_op \<Rightarrow> lru_state \<Rightarrow> lru_state" where
  "lru_apply op st = (case op of Touch k hint \<Rightarrow> snd (touch k hint st)
     | UpdateBytes k n \<Rightarrow> snd (update_bytes k n st) | Remove k \<Rightarrow> snd (lru_remove k st))"

definition touches :: "lru_state \<Rightarrow> nat list" where
  "touches st = map (\<lambda>p. last_touch (snd p)) (by_root st)"

text \<open>Distinct keys and, until the clock saturates, distinct times of last use, none ahead of the
  clock.\<close>

definition lru_inv :: "lru_state \<Rightarrow> bool" where
  "lru_inv st \<longleftrightarrow> lru_ok st \<and> clock st \<le> u64_max \<and> (\<forall>t \<in> set (touches st). t \<le> clock st)
     \<and> (clock st < u64_max \<longrightarrow> distinct (touches st))"

lemma map_fst_update [simp]: "map fst (lru_update k f es) = map fst es"
  by (auto simp: lru_update_def)

lemma lru_update_other: "k \<notin> fst ` set es \<Longrightarrow> lru_update k f es = es"
  by (induction es) (auto simp: lru_update_def)

lemma lru_update_split:
  assumes "distinct (map fst es)" "map_of es k = Some e"
  obtains xs ys where "es = xs @ (k, e) # ys" "lru_update k f es = xs @ (k, f e) # ys"
    "k \<notin> fst ` set xs" "k \<notin> fst ` set ys"
proof -
  from assms(2) obtain xs ys where es: "es = xs @ (k, e) # ys"
    by (meson map_of_SomeD split_list)
  with assms(1) have n: "k \<notin> fst ` set xs" "k \<notin> fst ` set ys"
    by auto
  then have "lru_update k f es = xs @ (k, f e) # ys"
    using lru_update_other [OF n(1), of f] lru_update_other [OF n(2), of f] by (simp add: es lru_update_def)
  with es n show ?thesis using that by blast
qed


lemma touch_cases:
  assumes "lru_ok st"
  obtains xs ys b where "by_root (snd (touch k hint st)) = xs @ (k, \<lparr>bytes = b, last_touch = sat_add u64_max (clock st) 1\<rparr>) # ys"
    "clock (snd (touch k hint st)) = sat_add u64_max (clock st) 1"
    "\<exists>zs. touches st = map (\<lambda>p. last_touch (snd p)) xs @ zs @ map (\<lambda>p. last_touch (snd p)) ys"
    "k \<notin> fst ` set xs" "k \<notin> fst ` set ys" "distinct (map fst (xs @ ys))"
proof (cases "map_of (by_root st) k")
  case None
  then have "k \<notin> fst ` set (by_root st)"
    by (simp add: map_of_eq_None_iff)
  then show ?thesis
    using None assms
    by (intro that [of "by_root st" hint "[]"]) (simp_all add: touch_def touches_def lru_ok_def Let_def)
next
  case (Some e)
  define f where "f = (\<lambda>e :: lru_entry. e\<lparr>last_touch := sat_add u64_max (clock st) 1,
    bytes := (if hint \<noteq> None then hint else bytes e)\<rparr>)"
  obtain xs ys where es: "by_root st = xs @ (k, e) # ys" "lru_update k f (by_root st) = xs @ (k, f e) # ys"
    "k \<notin> fst ` set xs" "k \<notin> fst ` set ys"
    using lru_update_split [OF assms [unfolded lru_ok_def] Some] by metis
  have fe: "f e = \<lparr>bytes = (if hint \<noteq> None then hint else bytes e), last_touch = sat_add u64_max (clock st) 1\<rparr>"
    by (cases e) (simp add: f_def)
  have "snd (touch k hint st) = st\<lparr>clock := sat_add u64_max (clock st) 1, by_root := xs @ (k, f e) # ys\<rparr>"
    using Some es(2) by (simp add: touch_def Let_def f_def)
  moreover have "distinct (map fst (xs @ ys))"
    using assms by (simp add: lru_ok_def es(1))
  moreover have "touches st = map (\<lambda>p. last_touch (snd p)) xs @ [last_touch e] @ map (\<lambda>p. last_touch (snd p)) ys"
    by (simp add: touches_def es(1))
  ultimately show ?thesis
    using es(3,4) fe by (intro that [of xs "if hint \<noteq> None then hint else bytes e" ys]) auto
qed

lemma touch_inv:
  assumes "lru_inv st"
  shows "lru_inv (snd (touch k hint st))"
proof -
  let ?lt = "\<lambda>p. last_touch (snd p)"
  have ok: "lru_ok st" using assms by (simp add: lru_inv_def)
  show ?thesis
  proof (rule touch_cases [OF ok, of k hint], goal_cases)
    case (1 xs ys b)
    then obtain zs where zs: "touches st = map ?lt xs @ zs @ map ?lt ys"
      by blast
    let ?c = "sat_add u64_max (clock st) 1"
    have new: "touches (snd (touch k hint st)) = map ?lt xs @ ?c # map ?lt ys"
      by (simp add: touches_def 1(1))
    have old: "\<forall>t \<in> set (touches st). t \<le> clock st" "clock st \<le> u64_max"
      "clock st < u64_max \<Longrightarrow> distinct (touches st)"
      using assms by (simp_all add: lru_inv_def)
    then have c: "clock st \<le> ?c" by (simp add: sat_add_def)
    have sub: "set (map ?lt xs @ map ?lt ys) \<subseteq> set (touches st)"
      by (auto simp: zs)
    then have le: "\<forall>t \<in> set (map ?lt xs @ map ?lt ys). t \<le> clock st"
      using old(1) by blast
    have "distinct (map ?lt xs @ ?c # map ?lt ys)" if "?c < u64_max"
    proof -
      have "?c = clock st + 1" "clock st < u64_max"
        using that by (auto simp: sat_add_def)
      moreover from this have "distinct (map ?lt xs @ zs @ map ?lt ys)"
        using old(3) zs by simp
      then have "distinct (map ?lt xs)" "distinct (map ?lt ys)" "set (map ?lt xs) \<inter> set (map ?lt ys) = {}"
        by auto
      moreover have "clock st + 1 \<notin> set (map ?lt xs @ map ?lt ys)"
      proof
        assume "clock st + 1 \<in> set (map ?lt xs @ map ?lt ys)"
        with le have "clock st + 1 \<le> clock st" by blast
        then show False by simp
      qed
      ultimately show ?thesis by simp
    qed
    moreover have "\<forall>t \<in> set (map ?lt xs @ ?c # map ?lt ys). t \<le> ?c"
      using le c by (auto intro: order.trans)
    moreover have "lru_ok (snd (touch k hint st))"
      using 1 by (simp add: lru_ok_def)
    ultimately show ?thesis
      using 1(2) new by (simp only: lru_inv_def) (simp add: sat_add_le)
  qed
qed

lemma update_touches:
  "(\<And>e. last_touch (f e) = last_touch e) \<Longrightarrow>
    map (\<lambda>p. last_touch (snd p)) (lru_update k f es) = map (\<lambda>p. last_touch (snd p)) es"
  by (auto simp: lru_update_def)

lemma update_bytes_frame:
  "touches (snd (update_bytes k n st)) = touches st" "clock (snd (update_bytes k n st)) = clock st"
  "map fst (by_root (snd (update_bytes k n st))) = map fst (by_root st)"
  by (auto simp: update_bytes_def touches_def update_touches split: option.split)

lemma lru_apply_inv: "lru_inv st \<Longrightarrow> lru_inv (lru_apply op st)"
proof (cases op)
  case (Touch k hint)
  assume "lru_inv st"
  then show ?thesis by (simp add: Touch lru_apply_def touch_inv)
next
  case (UpdateBytes k n)
  assume "lru_inv st"
  then show ?thesis
    by (simp add: UpdateBytes lru_apply_def lru_inv_def lru_ok_def update_bytes_frame)
next
  case (Remove k)
  assume "lru_inv st"
  then show ?thesis
    by (auto simp: Remove lru_apply_def lru_remove_def lru_inv_def lru_ok_def touches_def distinct_map
        inj_on_def)
qed

lemma lru_run_inv: "lru_inv (fold lru_apply ops lru_default)"
proof (induction ops rule: rev_induct)
  case Nil
  show ?case by (simp add: lru_inv_def lru_ok_def lru_default_def touches_def)
qed (simp add: lru_apply_inv)

lemma sort_key_greatest:
  assumes "\<forall>y \<in> set (xs @ ys). key y < key x"
  shows "sort_key key (xs @ x # ys) = sort_key key (xs @ ys) @ [x]"
proof (rule properties_for_sort_key)
  fix k
  assume "k \<in> set (sort_key key (xs @ ys) @ [x])"
  show "filter (\<lambda>z. key k = key z) (sort_key key (xs @ ys) @ [x]) = filter (\<lambda>z. key k = key z) (xs @ x # ys)"
  proof (cases "key k = key x")
    case True
    then have "filter (\<lambda>z. key k = key z) xs = []" "filter (\<lambda>z. key k = key z) ys = []"
      "filter (\<lambda>z. key k = key z) (sort_key key (xs @ ys)) = []"
      using assms by (auto simp: filter_empty_conv)
    then show ?thesis using True by simp
  next
    case False
    then show ?thesis
      using sort_key_stable [of key "key k" "xs @ ys"] by (simp add: eq_commute)
  qed
qed (use assms in \<open>auto simp: sorted_append order.strict_implies_order\<close>)

text \<open>What was used last goes last: whatever happened to the index before, once a root has been
  touched it is chosen for eviction only together with every other unpinned root.\<close>

lemma touched_root_is_evicted_last:
  assumes "st = fold lru_apply ops lru_default" and "clock st < u64_max"
    and "st' = snd (touch k hint st)" and "k \<in> set (eviction_candidates cfg pinned st')"
  shows "set (eviction_candidates cfg pinned st') = fst ` set (by_root st') - set pinned"
proof -
  have inv: "lru_inv st"
    using lru_run_inv assms(1) by simp
  then have ok: "lru_ok st" "lru_ok st'"
    using touch_inv [OF inv] assms(3) by (simp_all add: lru_inv_def)
  obtain xs e ys where st': "by_root st' = xs @ (k, e) # ys" "last_touch e = clock st + 1"
    and old: "\<forall>p \<in> set (xs @ ys). last_touch (snd p) < clock st + 1"
  proof (rule touch_cases [OF ok(1), of k hint], goal_cases)
    case (1 xs ys b)
    then have "last_touch (snd p) \<in> set (touches st)" if "p \<in> set (xs @ ys)" for p
      using that by auto
    then have "last_touch (snd p) < clock st + 1" if "p \<in> set (xs @ ys)" for p
      using inv that by (auto simp: lru_inv_def less_Suc_eq_le)
    then show ?case
      using 1(2) assms(2,3) by (intro 1(1)) (auto simp: sat_add_def)
  qed
  let ?A = "filter (\<lambda>p. fst p \<notin> set pinned) (sort_key (\<lambda>p. last_touch (snd p)) (xs @ ys))"
  have "by_age st' = sort_key (\<lambda>p. last_touch (snd p)) (xs @ ys) @ [(k, e)]"
    using sort_key_greatest [of xs ys "\<lambda>p. last_touch (snd p)" "(k, e)"] st' old by (simp add: by_age_def)
  then have ev: "evictable pinned st' = ?A @ (if k \<in> set pinned then [] else [(k, e)])"
    by (simp add: evictable_def)
  obtain j where j: "eviction_candidates cfg pinned st' = map fst (take j (evictable pinned st'))"
    using eviction_prefix [OF ok(2), of pinned cfg] by blast
  have "k \<notin> fst ` set ?A"
    using ok(2) st'(1) by (auto simp: lru_ok_def)
  then have k: "k \<notin> fst ` set (take i ?A)" for i
    using set_take_subset [of i ?A] by blast
  have "length ?A < j"
  proof (rule ccontr)
    assume "\<not> length ?A < j"
    then have "take j (evictable pinned st') = take j ?A" by (simp add: ev)
    then show False
      using assms(4) k [of j] by (simp only: j) auto
  qed
  then have "take j (evictable pinned st') = evictable pinned st'"
    using \<open>length ?A < j\<close> by (simp add: ev Suc_le_eq)
  then show ?thesis
    by (auto simp: j evictable_def by_age_props)
qed


subsection \<open>The index file\<close>

text \<open>An index that is written to disk and read back behaves as before: it knows the same roots
  with the same entries, its clock goes on from where it was, and it chooses the same roots for
  eviction in the same order, whatever order the map iterates in.\<close>

lemma index_file_keeps_evictions:
  assumes "st = fold lru_apply ops lru_default" and "clock st < u64_max"
  shows "map_of (by_root (lru_of_file (lru_to_file st))) = map_of (by_root st)
    \<and> clock (lru_of_file (lru_to_file st)) = clock st
    \<and> eviction_candidates cfg pinned (lru_of_file (lru_to_file st)) = eviction_candidates cfg pinned st"
proof -
  let ?st' = "lru_of_file (lru_to_file st)"
  have inv: "lru_inv st"
    using lru_run_inv assms(1) by simp
  then have keys: "distinct (map fst (by_root st))" and times: "distinct (map (\<lambda>p. last_touch (snd p)) (by_root st))"
    using assms(2) by (simp_all add: lru_inv_def lru_ok_def touches_def)
  have entries: "by_root ?st' = sort_key fst (by_root st)"
    by (simp add: lru_of_file_def lru_to_file_def)
  have "map_of (by_root ?st') = map_of (by_root st)"
  proof -
    have "distinct (map fst (sort_key fst (by_root st)))"
      using keys by (simp add: distinct_map)
    then show ?thesis
      using keys by (simp add: entries map_of_inject_set)
  qed
  moreover have "by_age ?st' = by_age st"
  proof -
    have "inj_on (\<lambda>p. last_touch (snd p)) (set (by_root ?st'))"
      using times by (simp add: entries distinct_map)
    then show ?thesis
      by (simp add: by_age_def entries sort_key_inj_key_eq)
  qed
  moreover have "lru_len ?st' = lru_len st" "total_bytes ?st' = total_bytes st"
    by (simp_all add: lru_len_def total_bytes_def entries sum_mset_sum_list [symmetric])
  ultimately show ?thesis
    by (simp add: eviction_candidates_eq evictable_def) (simp add: lru_of_file_def lru_to_file_def)
qed

subsection \<open>An index at work\<close>

definition demo_lru :: lru_state where
  "demo_lru = fold lru_apply [Touch ''a'' (Some 10), Touch ''b'' (Some 20), Touch ''c'' None] lru_default"

definition demo_limits :: evict_config where
  "demo_limits = \<lparr>max_assets = Some 2, max_bytes = Some 15\<rparr>"

lemma demo_lru_eq:
  "demo_lru = \<lparr>by_root = [(''a'', \<lparr>bytes = Some 10, last_touch = 1\<rparr>),
     (''b'', \<lparr>bytes = Some 20, last_touch = 2\<rparr>), (''c'', \<lparr>bytes = None, last_touch = 3\<rparr>)], clock = 3\<rparr>"
  by (simp add: demo_lru_def lru_default_def lru_apply_def touch_def sat_add_def u64_max_def Let_def)

lemma demo_evicts: "eviction_candidates demo_limits [''a''] demo_lru = [''b'']"
  by (simp add: eviction_candidates_def demo_limits_def demo_lru_eq by_age_def lru_len_def total_bytes_def
      entry_bytes_def is_none_or_def within_limits_def Let_def)

lemma eviction_is_sufficient_and_minimal_witness:
  "sorted (map (\<lambda>p. last_touch (snd p)) (evictable [''a''] demo_lru))
    \<and> \<not> within_limits demo_limits (lru_len (remove_all (take 0 [''b'']) demo_lru))
         (total_bytes (remove_all (take 0 [''b'']) demo_lru))"
proof -
  have "lru_ok demo_lru"
    by (simp add: lru_ok_def demo_lru_eq)
  from eviction_is_sufficient_and_minimal [OF this demo_evicts [symmetric]] show ?thesis
    by (metis length_greater_0_conv not_Cons_self2)
qed

definition demo_all :: evict_config where
  "demo_all = \<lparr>max_assets = Some 0, max_bytes = None\<rparr>"

lemma demo_candidates: "eviction_candidates demo_all [''b''] (snd (touch ''a'' None demo_lru)) = [''c'', ''a'']"
  by (simp add: eviction_candidates_def demo_all_def touch_def demo_lru_eq lru_update_def by_age_def sat_add_def
      u64_max_def lru_len_def total_bytes_def entry_bytes_def is_none_or_def within_limits_def Let_def)

end
