(* ===== verification/Navigation.thy ===== *)
theory Navigation
  imports Prelude "HOL-Library.Multiset"
begin

text \<open>
  Play order and history of the queue (\<open>crates/kithara-queue/src/navigation.rs\<close>).  A track is its
  number.  The random generator and the shuffle of the \<open>rand\<close> package are parameters: \<open>shuffle g xs\<close>
  gives the shuffled list and the next generator state; all that is assumed of it, where something
  is, is that it permutes.
\<close>

type_synonym track_id = nat

datatype playback_order = Sequential | Shuffle
datatype repeat_mode = RepeatOff | RepeatOne | RepeatAll
datatype advance_reason = InitialLoad | NaturalEof | CrossfadePreArm | UserSelect | UserNext | UserPrev
  | TrackFailed | RemovedCurrent | Repeat | Cancelled

record 'g nav =
  order :: playback_order
  repeat_with :: repeat_mode
  rng :: 'g
  bag :: "track_id list"
  history :: "track_id list"
  history_limit :: nat

type_synonym 'g shuffler = "'g \<Rightarrow> track_id list \<Rightarrow> track_id list \<times> 'g"

definition with_rng :: "nat \<Rightarrow> 'g \<Rightarrow> 'g nav" where
  "with_rng limit g = \<lparr>order = Sequential, repeat_with = RepeatOff, rng = g, bag = [], history = [],
     history_limit = limit\<rparr>"

definition swap_ends :: "track_id list \<Rightarrow> track_id list" where
  "swap_ends xs = (let l = length xs - 1 in xs[0 := xs ! l, l := xs ! 0])"

definition fresh_cycle :: "'g shuffler \<Rightarrow> track_id list \<Rightarrow> track_id option \<Rightarrow> 'g nav \<Rightarrow> 'g nav" where
  "fresh_cycle shuffle tracks avoid_first n =
     (let (b, g) = shuffle (rng n) tracks;
          b' = (case avoid_first of
              Some avoid \<Rightarrow> if length b > 1 \<and> last b = avoid then swap_ends b else b
            | None \<Rightarrow> b)
      in n\<lparr>bag := b', rng := g\<rparr>)"

definition nav_insert :: "'g shuffler \<Rightarrow> track_id \<Rightarrow> track_id option \<Rightarrow> 'g nav \<Rightarrow> 'g nav" where
  "nav_insert shuffle t current n =
     (if order n = Shuffle \<and> current \<noteq> Some t \<and> t \<notin> set (bag n)
      then (let (b, g) = shuffle (rng n) (bag n @ [t]) in n\<lparr>bag := b, rng := g\<rparr>) else n)"

definition draw_cycle ::
    "'g shuffler \<Rightarrow> track_id list \<Rightarrow> track_id option \<Rightarrow> bool \<Rightarrow> 'g nav \<Rightarrow> 'g nav" where
  "draw_cycle shuffle tracks current allow_wrap n =
     (if order n \<noteq> Shuffle then n
      else
        let n1 = n\<lparr>bag := filter (\<lambda>t. t \<in> set tracks) (bag n)\<rparr>;
            ended = (bag n1 = [] \<or> (allow_wrap \<and> list_all (\<lambda>t. current = Some t) (bag n1)))
        in if ended \<and> (allow_wrap \<or> current = None) then fresh_cycle shuffle tracks current n1 else n1)"

definition first :: "'a list \<Rightarrow> 'a option" where
  "first xs = (case xs of [] \<Rightarrow> None | x # _ \<Rightarrow> Some x)"

definition next_sequential :: "track_id list \<Rightarrow> track_id option \<Rightarrow> bool \<Rightarrow> track_id option" where
  "next_sequential tracks current allow_wrap =
     (case current of
        None \<Rightarrow> first tracks
      | Some c \<Rightarrow> Option.bind (position (\<lambda>t. t = c) tracks) (\<lambda>i.
          if i + 1 < length tracks then Some (tracks ! (i + 1))
          else if allow_wrap then first tracks else None))"

definition peek :: "track_id list \<Rightarrow> track_id option \<Rightarrow> bool \<Rightarrow> bool \<Rightarrow> 'g nav \<Rightarrow> track_id option" where
  "peek tracks current allow_repeat_one allow_wrap n =
     (if allow_repeat_one \<and> repeat_with n = RepeatOne
      then (case current of None \<Rightarrow> None | Some t \<Rightarrow> if t \<in> set tracks then Some t else None)
      else (case order n of
          Sequential \<Rightarrow> next_sequential tracks current allow_wrap
        | Shuffle \<Rightarrow> find (\<lambda>t. t \<in> set tracks
            \<and> (current \<noteq> Some t \<or> (length tracks = 1 \<and> allow_wrap))) (rev (bag n))))"

definition nav_next ::
    "'g shuffler \<Rightarrow> track_id list \<Rightarrow> track_id option \<Rightarrow> bool \<Rightarrow> bool \<Rightarrow> 'g nav \<Rightarrow> track_id option \<times> 'g nav" where
  "nav_next shuffle tracks current allow_repeat_one allow_wrap n =
     (let n1 = draw_cycle shuffle tracks current allow_wrap n
      in (peek tracks current allow_repeat_one allow_wrap n1, n1))"

definition nav_prev :: "track_id list \<Rightarrow> 'g nav \<Rightarrow> track_id option" where
  "nav_prev tracks n = find (\<lambda>t. t \<in> set tracks) (rev (history n))"

definition push_history :: "track_id \<Rightarrow> 'g nav \<Rightarrow> 'g nav" where
  "push_history t n =
     (if history n \<noteq> [] \<and> last (history n) = t then n
      else
        let h = (if length (history n) \<ge> history_limit n then drop 1 (history n) else history n)
        in n\<lparr>history := h @ [t]\<rparr>)"

definition reconcile :: "track_id list \<Rightarrow> 'g nav \<Rightarrow> 'g nav" where
  "reconcile tracks n = n\<lparr>history := filter (\<lambda>t. t \<in> set tracks) (history n),
     bag := filter (\<lambda>t. t \<in> set tracks) (bag n)\<rparr>"

text \<open>\<open>rposition\<close>: the last index whose element satisfies the predicate.\<close>

definition rposition :: "('a \<Rightarrow> bool) \<Rightarrow> 'a list \<Rightarrow> nat option" where
  "rposition P xs = map_option (\<lambda>i. length xs - 1 - i) (position P (rev xs))"

definition commit_nav ::
    "'g shuffler \<Rightarrow> track_id option \<Rightarrow> track_id \<Rightarrow> advance_reason \<Rightarrow> track_id list \<Rightarrow> 'g nav \<Rightarrow> 'g nav" where
  "commit_nav shuffle origin t reason tracks n =
     (let n1 = (if reason = UserPrev
                then (case rposition (\<lambda>previous. previous = t) (history n) of
                    Some i \<Rightarrow> n\<lparr>history := take i (history n)\<rparr> | None \<Rightarrow> n)
                else (case origin of
                    Some c \<Rightarrow> if c \<noteq> t then push_history c n else n | None \<Rightarrow> n))
      in if order n1 = Shuffle
         then (let n2 = (if bag n1 = [] then fresh_cycle shuffle tracks (Some t) n1 else n1)
               in n2\<lparr>bag := filter (\<lambda>candidate. candidate \<noteq> t) (bag n2)\<rparr>)
         else n1)"

definition set_playback_order ::
    "'g shuffler \<Rightarrow> playback_order \<Rightarrow> track_id list \<Rightarrow> track_id option \<Rightarrow> 'g nav \<Rightarrow> 'g nav" where
  "set_playback_order shuffle ord tracks current n =
     (if order n = ord then n
      else fresh_cycle shuffle tracks current (n\<lparr>order := ord, history := []\<rparr>))"

definition set_repeat :: "repeat_mode \<Rightarrow> 'g nav \<Rightarrow> 'g nav" where
  "set_repeat m n = n\<lparr>repeat_with := m\<rparr>"

subsection \<open>A player that asks and commits\<close>

text \<open>One advance at the end of an item: ask for the successor and, when there is one, commit it.\<close>

definition advance ::
    "'g shuffler \<Rightarrow> track_id list \<Rightarrow> bool \<Rightarrow> track_id option \<times> 'g nav \<Rightarrow> track_id option \<times> (track_id option \<times> 'g nav)" where
  "advance shuffle tracks wrap s =
     (case nav_next shuffle tracks (fst s) False wrap (snd s) of
        (None, n) \<Rightarrow> (None, (fst s, n))
      | (Some t, n) \<Rightarrow> (Some t, (Some t, commit_nav shuffle (fst s) t NaturalEof tracks n)))"

fun advances ::
    "'g shuffler \<Rightarrow> track_id list \<Rightarrow> bool \<Rightarrow> nat \<Rightarrow> track_id option \<times> 'g nav \<Rightarrow> track_id option list \<times> (track_id option \<times> 'g nav)" where
  "advances shuffle tracks wrap 0 s = ([], s)"
| "advances shuffle tracks wrap (Suc k) s =
     (let (t, s1) = advance shuffle tracks wrap s; (ts, s2) = advances shuffle tracks wrap k s1
      in (t # ts, s2))"

definition permutes :: "'g shuffler \<Rightarrow> bool" where
  "permutes shuffle \<longleftrightarrow> (\<forall>g xs. mset (fst (shuffle g xs)) = mset xs)"

lemma permutesD:
  "permutes shuffle \<Longrightarrow> mset (fst (shuffle g xs)) = mset xs"
  by (simp add: permutes_def)

lemma mset_swap_ends: "Suc 0 < length xs \<Longrightarrow> mset (swap_ends xs) = mset xs"
  using mset_swap [of "length xs - 1" xs 0] by (cases "xs = []") (simp_all add: swap_ends_def Let_def)

lemma last_swap_ends: "Suc 0 < length xs \<Longrightarrow> last (swap_ends xs) = xs ! 0"
  by (cases "xs = []") (simp_all add: swap_ends_def Let_def last_conv_nth)

lemma fresh_cycle_fields [simp]:
  "order (fresh_cycle shuffle tracks c n) = order n" "history (fresh_cycle shuffle tracks c n) = history n"
  "history_limit (fresh_cycle shuffle tracks c n) = history_limit n"
  "repeat_with (fresh_cycle shuffle tracks c n) = repeat_with n"
  by (simp_all add: fresh_cycle_def case_prod_beta Let_def)

lemma fresh_cycle_bag:
  assumes "permutes shuffle"
  shows "mset (bag (fresh_cycle shuffle tracks c n)) = mset tracks"
proof -
  have m: "mset (fst (shuffle (rng n) tracks)) = mset tracks"
    using assms by (rule permutesD)
  then show ?thesis
    using mset_swap_ends [of "fst (shuffle (rng n) tracks)"]
    by (auto simp: fresh_cycle_def case_prod_beta Let_def split: option.split)
qed

lemma fresh_cycle_last:
  assumes "permutes shuffle" "distinct tracks" "length tracks > 1"
  shows "c \<noteq> Some (last (bag (fresh_cycle shuffle tracks c n)))"
proof -
  let ?b = "fst (shuffle (rng n) tracks)"
  have m: "mset ?b = mset tracks"
    using assms(1) by (rule permutesD)
  then have d: "distinct ?b" "length ?b = length tracks"
    using assms(2) mset_eq_imp_distinct_iff mset_eq_length by blast+
  then have "?b \<noteq> []"
    using assms(3) by auto
  then have "?b ! 0 \<noteq> last ?b"
    using d assms(3) nth_eq_iff_index_eq [of ?b 0 "length tracks - 1"]
    by (cases "tracks = []") (simp_all add: last_conv_nth)
  then show ?thesis
    using d assms(3) last_swap_ends [of ?b]
    by (auto simp: fresh_cycle_def case_prod_beta Let_def split: option.split)
qed


subsection \<open>Shuffle cycles\<close>

lemma push_history_fields [simp]:
  "order (push_history t n) = order n" "bag (push_history t n) = bag n" "rng (push_history t n) = rng n"
  "history_limit (push_history t n) = history_limit n" "repeat_with (push_history t n) = repeat_with n"
  by (simp_all add: push_history_def Let_def)

lemma draw_cycle_running:
  assumes "set (bag n) \<subseteq> set tracks" "bag n \<noteq> []" "c \<noteq> Some (last (bag n))"
  shows "draw_cycle shuffle tracks c wrap n = n"
proof -
  have "filter (\<lambda>t. t \<in> set tracks) (bag n) = bag n"
    using assms(1) by (auto intro: filter_True)
  moreover have "\<not> list_all (\<lambda>t. c = Some t) (bag n)"
    using assms(2,3) by (auto simp: list_all_iff)
  ultimately show ?thesis
    using assms(2) by (cases n) (auto simp: draw_cycle_def Let_def)
qed

lemma commit_nav_natural:
  "commit_nav shuffle c x NaturalEof tracks n =
     (let n1 = (case c of Some c' \<Rightarrow> if c' \<noteq> x then push_history c' n else n | None \<Rightarrow> n)
      in if order n = Shuffle
         then (let n2 = (if bag n = [] then fresh_cycle shuffle tracks (Some x) n1 else n1)
               in n2\<lparr>bag := filter (\<lambda>candidate. candidate \<noteq> x) (bag n2)\<rparr>)
         else n1)"
  by (auto simp: commit_nav_def Let_def split: option.split)

lemma advance_running:
  assumes "order n = Shuffle" "bag n = b @ [x]" "distinct (bag n)" "set (bag n) \<subseteq> set tracks" "c \<noteq> Some x"
  shows "\<exists>n'. advance shuffle tracks wrap (c, n) = (Some x, (Some x, n')) \<and> order n' = Shuffle \<and> bag n' = b"
proof -
  have d: "draw_cycle shuffle tracks c wrap n = n"
    using draw_cycle_running [of n tracks c] assms by simp
  have "filter (\<lambda>candidate. candidate \<noteq> x) b = b"
    using assms(2,3) by (auto intro: filter_True)
  moreover have "peek tracks c False wrap n = Some x"
    using assms by (simp add: peek_def)
  ultimately show ?thesis
    using assms by (auto simp: advance_def nav_next_def d commit_nav_natural Let_def split: option.split)
qed

lemma drain_bag:
  "order n = Shuffle \<Longrightarrow> bag n = b \<Longrightarrow> distinct b \<Longrightarrow> set b \<subseteq> set tracks \<Longrightarrow> (b \<noteq> [] \<longrightarrow> c \<noteq> Some (last b))
    \<Longrightarrow> \<exists>n'. advances shuffle tracks wrap (length b) (c, n)
          = (map Some (rev b), (if b = [] then c else Some (hd b), n')) \<and> order n' = Shuffle \<and> bag n' = []"
proof (induction b arbitrary: n c rule: rev_induct)
  case (snoc x b)
  obtain n1 where n1: "advance shuffle tracks wrap (c, n) = (Some x, (Some x, n1))" "order n1 = Shuffle" "bag n1 = b"
    using advance_running [of n b x tracks c shuffle wrap] snoc.prems by auto
  have "b \<noteq> [] \<longrightarrow> Some x \<noteq> Some (last b)"
    using snoc.prems(3) by auto
  with snoc.IH [OF n1(2,3), of "Some x"] snoc.prems show ?case
    using n1(1) by auto
qed simp

lemma advance_fresh:
  assumes "permutes shuffle" "distinct tracks" "length tracks > 1" "order n = Shuffle" "bag n = []"
  shows "advance shuffle tracks True (c, n) = advance shuffle tracks True (c, fresh_cycle shuffle tracks c n)"
proof -
  let ?n = "fresh_cycle shuffle tracks c n"
  have m: "mset (bag ?n) = mset tracks"
    using assms(1) by (rule fresh_cycle_bag)
  then have "set (bag ?n) \<subseteq> set tracks" "bag ?n \<noteq> []"
    using assms(3) by (auto dest: mset_eq_setD)
  then have "draw_cycle shuffle tracks c True ?n = ?n"
    using draw_cycle_running fresh_cycle_last [OF assms(1-3)] by blast
  moreover have "draw_cycle shuffle tracks c True n = ?n"
    using assms(4,5) by (cases n) (simp add: draw_cycle_def Let_def)
  ultimately show ?thesis
    by (simp add: advance_def nav_next_def Let_def split: option.split)
qed

text \<open>Between two cycles: the bag is spent, or drawn anew and not opening with the current track.\<close>

definition cycle_point :: "track_id list \<Rightarrow> track_id option \<times> 'g nav \<Rightarrow> bool" where
  "cycle_point tracks s \<longleftrightarrow> order (snd s) = Shuffle
     \<and> (bag (snd s) = [] \<or> mset (bag (snd s)) = mset tracks \<and> fst s \<noteq> Some (last (bag (snd s))))"

lemma one_cycle:
  assumes "permutes shuffle" "distinct tracks" "length tracks > 1" "cycle_point tracks (c, n)"
  shows "\<exists>p n'. advances shuffle tracks True (length tracks) (c, n) = (map Some p, (Some (last p), n'))
    \<and> distinct p \<and> set p = set tracks \<and> c \<noteq> Some (hd p) \<and> cycle_point tracks (Some (last p), n')"
proof -
  have full: "\<exists>p n'. advances shuffle tracks True (length tracks) (c, m) = (map Some p, (Some (last p), n'))
      \<and> distinct p \<and> set p = set tracks \<and> c \<noteq> Some (hd p) \<and> cycle_point tracks (Some (last p), n')"
    if m: "order m = Shuffle" "mset (bag m) = mset tracks" "c \<noteq> Some (last (bag m))" for m
  proof -
    have b: "distinct (bag m)" "set (bag m) = set tracks" "length (bag m) = length tracks" "bag m \<noteq> []"
      using m(2) assms(2,3) mset_eq_imp_distinct_iff mset_eq_setD mset_eq_length
      by (blast, blast, blast) (use m(2) assms(3) in auto)
    obtain n' where "advances shuffle tracks True (length tracks) (c, m) = (map Some (rev (bag m)), (Some (hd (bag m)), n'))"
      "order n' = Shuffle" "bag n' = []"
      using drain_bag [OF m(1) refl b(1), of tracks c shuffle True] b m(3) by auto
    then show ?thesis
      using b m(3) by (intro exI [of _ "rev (bag m)"] exI [of _ n']) (simp add: last_rev hd_rev cycle_point_def)
  qed
  show ?thesis
  proof (cases "bag n = []")
    case False
    then show ?thesis
      using full [of n] assms(4) by (simp add: cycle_point_def)
  next
    case True
    obtain k where k: "length tracks = Suc k"
      using assms(3) by (cases tracks) auto
    have "advances shuffle tracks True (length tracks) (c, n)
        = advances shuffle tracks True (length tracks) (c, fresh_cycle shuffle tracks c n)"
      using advance_fresh [OF assms(1-3) _ True, of c] assms(4) by (simp add: k cycle_point_def)
    then show ?thesis
      using full [of "fresh_cycle shuffle tracks c n"] fresh_cycle_bag [OF assms(1), of tracks c n]
        fresh_cycle_last [OF assms(1-3), of c n] assms(4) by (simp add: cycle_point_def)
  qed
qed

lemma advances_add:
  "snd (advances shuffle tracks wrap (i + j) s) = snd (advances shuffle tracks wrap j (snd (advances shuffle tracks wrap i s)))"
  by (induction i arbitrary: s) (simp_all add: case_prod_beta)

lemma cycles:
  assumes "permutes shuffle" "distinct tracks" "length tracks > 1" "cycle_point tracks s"
  shows "cycle_point tracks (snd (advances shuffle tracks True (k * length tracks) s))"
proof (induction k)
  case 0
  show ?case using assms(4) by simp
next
  case (Suc k)
  have "snd (advances shuffle tracks True (Suc k * length tracks) s)
      = snd (advances shuffle tracks True (length tracks) (snd (advances shuffle tracks True (k * length tracks) s)))"
    using advances_add [of shuffle tracks True "k * length tracks" "length tracks" s] by (simp add: add.commute)
  then show ?case
    using one_cycle [OF assms(1-3), of "fst (snd (advances shuffle tracks True (k * length tracks) s))"
        "snd (snd (advances shuffle tracks True (k * length tracks) s))"] Suc by auto
qed

text \<open>C40: a shuffled queue that repeats plays every track exactly once per cycle, cycle after cycle,
  and no track twice in a row across the boundary of two cycles, whatever the shuffle does, from
  the moment shuffle is switched on.\<close>

theorem shuffle_cycles_play_each_once:
  assumes "permutes shuffle" and "distinct tracks" and "length tracks > 1" and "order m = Sequential"
    and "snd (advances shuffle tracks True (k * length tracks) (c, set_playback_order shuffle Shuffle tracks c m)) = (cur, n)"
    and "advances shuffle tracks True (length tracks) (cur, n) = (ts, s')"
  shows "\<exists>p. ts = map Some p \<and> distinct p \<and> set p = set tracks \<and> cur \<noteq> Some (hd p)"
proof -
  have "cycle_point tracks (c, set_playback_order shuffle Shuffle tracks c m)"
    using fresh_cycle_bag [OF assms(1), of tracks c "m\<lparr>order := Shuffle, history := []\<rparr>"]
      fresh_cycle_last [OF assms(1-3), of c "m\<lparr>order := Shuffle, history := []\<rparr>"] assms(4)
    by (simp add: cycle_point_def set_playback_order_def)
  from cycles [OF assms(1-3) this, of k] assms(5) have "cycle_point tracks (cur, n)"
    by simp
  from one_cycle [OF assms(1-3) this] assms(6) show ?thesis
    by auto
qed


subsection \<open>Sequential order\<close>

lemma position_nth:
  "distinct xs \<Longrightarrow> i < length xs \<Longrightarrow> position (\<lambda>t. t = xs ! i) xs = Some i"
proof (induction xs arbitrary: i)
  case (Cons x xs)
  then show ?case
    by (cases i) (auto simp: nth_mem)
qed simp

lemma first_nth: "xs \<noteq> [] \<Longrightarrow> first xs = Some (xs ! 0)"
  by (cases xs) (simp_all add: first_def)

lemma next_sequential_nth:
  "distinct tracks \<Longrightarrow> i < length tracks
    \<Longrightarrow> next_sequential tracks (Some (tracks ! i)) True = Some (tracks ! (Suc i mod length tracks))"
  using first_nth [of tracks]
  by (cases "tracks = []"; cases "Suc i = length tracks") (auto simp: next_sequential_def position_nth mod_Suc)

lemma advance_sequential:
  assumes "order n = Sequential"
  shows "\<exists>n'. advance shuffle tracks wrap (c, n) = (next_sequential tracks c wrap,
      (case next_sequential tracks c wrap of None \<Rightarrow> c | Some t \<Rightarrow> Some t, n')) \<and> order n' = Sequential"
  using assms
  by (cases "next_sequential tracks c wrap")
     (auto simp: advance_def nav_next_def draw_cycle_def peek_def commit_nav_natural Let_def split: option.split)

lemma advances_sequential:
  "order n = Sequential \<Longrightarrow> distinct tracks \<Longrightarrow> p < length tracks
    \<Longrightarrow> fst (advances shuffle tracks True k (Some (tracks ! p), n))
      = map (\<lambda>i. Some (tracks ! ((p + 1 + i) mod length tracks))) [0 ..< k]"
proof (induction k arbitrary: p n)
  case (Suc k)
  let ?p = "Suc p mod length tracks"
  obtain n' where n': "advance shuffle tracks True (Some (tracks ! p), n)
      = (Some (tracks ! ?p), (Some (tracks ! ?p), n'))" "order n' = Sequential"
    using advance_sequential [OF Suc.prems(1), of shuffle tracks True "Some (tracks ! p)"]
      next_sequential_nth [OF Suc.prems(2,3)] by auto
  have "(?p + 1 + i) mod length tracks = (p + 1 + Suc i) mod length tracks" for i
    using mod_add_left_eq [of "Suc p" "length tracks" "1 + i"] by (simp add: ac_simps)
  moreover have "?p < length tracks"
    using Suc.prems(3) by (intro mod_less_divisor) linarith
  ultimately show ?case
    using Suc.IH [OF n'(2) Suc.prems(2), of ?p] Suc.prems(3) n'(1)
    by (simp add: case_prod_beta upt_conv_Cons map_Suc_upt [symmetric] comp_def del: upt_Suc)
qed simp

text \<open>In sequential order a queue that repeats plays its tracks from the first to the last and then
  from the first again, for as long as it is asked.\<close>

lemma sequential_plays_in_order:
  assumes "order n = Sequential" and "distinct tracks" and "tracks \<noteq> []"
  shows "fst (advances shuffle tracks True k (None, n)) = map (\<lambda>i. Some (tracks ! (i mod length tracks))) [0 ..< k]"
proof (cases k)
  case (Suc j)
  obtain n' where n': "advance shuffle tracks True (None, n) = (Some (tracks ! 0), (Some (tracks ! 0), n'))"
    "order n' = Sequential"
    using advance_sequential [OF assms(1), of shuffle tracks True None] assms(3)
    by (cases tracks) (auto simp: next_sequential_def first_def)
  then show ?thesis
    using advances_sequential [OF n'(2) assms(2), of 0 shuffle j] assms(3)
    by (simp add: Suc case_prod_beta upt_conv_Cons map_Suc_upt [symmetric] comp_def del: upt_Suc)
qed simp

subsection \<open>Asking and going back\<close>

lemma draw_cycle_history [simp]:
  "history (draw_cycle shuffle tracks c wrap n) = history n" "order (draw_cycle shuffle tracks c wrap n) = order n"
  "repeat_with (draw_cycle shuffle tracks c wrap n) = repeat_with n"
  by (simp_all add: draw_cycle_def Let_def)

lemma peek_bag_cong:
  "order n' = order n \<Longrightarrow> repeat_with n' = repeat_with n \<Longrightarrow> bag n' = bag n
    \<Longrightarrow> peek tracks c one wrap n' = peek tracks c one wrap n"
  by (simp add: peek_def split: playback_order.split)

lemma draw_cycle_again:
  assumes "permutes shuffle" "distinct tracks"
  shows "bag (draw_cycle shuffle tracks c wrap (draw_cycle shuffle tracks c wrap n)) = bag (draw_cycle shuffle tracks c wrap n)"
proof (cases "order n = Shuffle")
  case True
  define n1 where "n1 = n\<lparr>bag := filter (\<lambda>t. t \<in> set tracks) (bag n)\<rparr>"
  define ended where "ended = (\<lambda>m :: 'a nav. (bag m = [] \<or> (wrap \<and> list_all (\<lambda>t. c = Some t) (bag m))) \<and> (wrap \<or> c = None))"
  have unfold: "draw_cycle shuffle tracks c wrap m =
      (if ended m then fresh_cycle shuffle tracks c m else m)"
    if "order m = Shuffle" "filter (\<lambda>t. t \<in> set tracks) (bag m) = bag m" for m :: "'a nav"
    using that by (cases m) (auto simp: draw_cycle_def ended_def Let_def)
  have first: "draw_cycle shuffle tracks c wrap n = (if ended n1 then fresh_cycle shuffle tracks c n1 else n1)"
    using True by (auto simp: draw_cycle_def ended_def n1_def Let_def)
  show ?thesis
  proof (cases "ended n1")
    case False
    have "order n1 = Shuffle" "filter (\<lambda>t. t \<in> set tracks) (bag n1) = bag n1"
      using True by (simp_all add: n1_def)
    then show ?thesis
      using False first unfold [of n1] by simp
  next
    case fresh: True
    let ?n = "fresh_cycle shuffle tracks c n1"
    have m: "mset (bag ?n) = mset tracks" "mset (bag (fresh_cycle shuffle tracks c ?n)) = mset tracks"
      using assms(1) by (simp_all add: fresh_cycle_bag)
    have o: "order ?n = Shuffle" "filter (\<lambda>t. t \<in> set tracks) (bag ?n) = bag ?n"
      using True m(1) by (auto simp: n1_def dest: mset_eq_setD intro: filter_True)
    have "bag (fresh_cycle shuffle tracks c ?n) = bag ?n" if "ended ?n"
    proof (cases "length tracks > 1")
      case long: True
      have "bag ?n \<noteq> []" using m(1) long by auto
      then have "\<not> ended ?n"
        using fresh_cycle_last [OF assms long, of c n1] last_in_set by (fastforce simp: ended_def list_all_iff)
      with that show ?thesis by simp
    next
      case False
      then obtain x where "tracks = [] \<or> tracks = [x]"
        by (cases tracks) (auto simp: not_less)
      then show ?thesis using m by auto
    qed
    then show ?thesis
      using fresh first unfold [OF o] by auto
  qed
qed (simp add: draw_cycle_def)

text \<open>Asking is not choosing: a second request for the successor, without a commit in between, names
  the same track, and neither request touches the history; so a caller may refuse what it was
  offered.\<close>

lemma asking_is_not_choosing:
  assumes "permutes shuffle" and "distinct tracks"
    and "nav_next shuffle tracks c one wrap n = (t, n1)" and "nav_next shuffle tracks c one wrap n1 = (t', n2)"
  shows "t' = t \<and> history n2 = history n \<and> bag n2 = bag n1"
proof -
  have n1: "n1 = draw_cycle shuffle tracks c wrap n" "t = peek tracks c one wrap n1"
    and n2: "n2 = draw_cycle shuffle tracks c wrap n1" "t' = peek tracks c one wrap n2"
    using assms(3,4) by (auto simp: nav_next_def Let_def)
  have b: "bag n2 = bag n1"
    using draw_cycle_again [OF assms(1,2), of c wrap n] n1(1) n2(1) by simp
  moreover have "t' = t"
    unfolding n1(2) n2(2) by (rule peek_bag_cong) (use b n2(1) in simp_all)
  ultimately show ?thesis
    using n1(1) n2(1) by simp
qed

lemma position_rev_last: "P x \<Longrightarrow> position P (rev (h @ [x])) = Some 0"
  by simp

text \<open>Going back undoes a selection: when the current track is left for another, the previous track
  is the one that was left, and committing it restores the history as it was before (while the
  history has room for the track).\<close>

lemma previous_undoes_selection:
  assumes "c \<in> set tracks" and "c \<noteq> t" and "reason \<noteq> UserPrev"
    and "length (history n) < history_limit n" and "history n = [] \<or> last (history n) \<noteq> c"
    and "n1 = commit_nav shuffle (Some c) t reason tracks n"
  shows "nav_prev tracks n1 = Some c \<and> history (commit_nav shuffle (Some t) c UserPrev tracks n1) = history n"
proof -
  have h: "history n1 = history n @ [c]"
    using assms(2-6) by (auto simp: commit_nav_def push_history_def Let_def)
  moreover have "history (commit_nav shuffle (Some t) c UserPrev tracks m)
      = (case rposition (\<lambda>previous. previous = c) (history m) of Some i \<Rightarrow> take i (history m) | None \<Rightarrow> history m)" for m
    by (auto simp: commit_nav_def Let_def split: option.split)
  ultimately show ?thesis
    using assms(1) by (simp add: nav_prev_def rposition_def)
qed


subsection \<open>A queue at work\<close>

text \<open>A shuffle that reverses and counts its draws.\<close>

definition demo_shuffle :: "nat shuffler" where
  "demo_shuffle g xs = (rev xs, g + 1)"

definition demo_nav :: "nat nav" where
  "demo_nav = with_rng 16 7"

lemma demo_permutes: "permutes demo_shuffle"
  by (simp add: permutes_def demo_shuffle_def)

definition demo_state :: "track_id option \<times> nat nav" where
  "demo_state = snd (advances demo_shuffle [1, 2, 3] True (1 * length [1 :: nat, 2, 3])
     (Some 1, set_playback_order demo_shuffle Shuffle [1, 2, 3] (Some 1) demo_nav))"

lemma shuffle_cycles_play_each_once_witness:
  "\<exists>p. fst (advances demo_shuffle [1, 2, 3] True (length [1 :: nat, 2, 3]) (fst demo_state, snd demo_state)) = map Some p
    \<and> distinct p \<and> set p = set [1, 2, 3] \<and> fst demo_state \<noteq> Some (hd p)"
  by (rule shuffle_cycles_play_each_once [OF demo_permutes, where m = demo_nav and k = 1 and c = "Some 1"
        and n = "snd demo_state"
        and s' = "snd (advances demo_shuffle [1, 2, 3] True (length [1 :: nat, 2, 3]) (fst demo_state, snd demo_state))"])
     (simp_all only: prod.collapse demo_state_def, simp_all add: demo_nav_def with_rng_def)

end
