(* ===== verification/Hls_Slot.thy ===== *)
theory Hls_Slot
  imports Prelude
begin

text \<open>
  The fetch slot of an HLS segment (\<open>crates/kithara-hls/src/segment/state.rs\<close> and the claim
  of \<open>segment/fetch.rs\<close>): a byte of flags shared by the dispatcher, the downloader, the store's
  eviction and the readers, and a claim that exactly one fetch owns.  The operations are functions
  on the slot; the step relation \<open>slot_step\<close> interleaves their atomic accesses, so an operation
  that touches the flags and the demand bit is two steps.
\<close>

unbundle bit_operations_syntax

subsection \<open>Flags\<close>

definition DOWNLOADING :: u8 where "DOWNLOADING = 0x01"
definition LOADED :: u8 where "LOADED = 0x02"
definition FAILED :: u8 where "FAILED = 0x04"
definition SLOW :: u8 where "SLOW = 0x08"
definition EVICTED :: u8 where "EVICTED = 0x10"

lemmas flag_defs = DOWNLOADING_def LOADED_def FAILED_def SLOW_def EVICTED_def

definition from_bits_truncate :: "u8 \<Rightarrow> u8" where
  "from_bits_truncate bits = bits AND (DOWNLOADING OR LOADED OR FAILED OR SLOW OR EVICTED)"

definition contains :: "u8 \<Rightarrow> u8 \<Rightarrow> bool" where
  "contains bits flag \<longleftrightarrow> bits AND flag = flag"

record slot =
  reader_demand :: bool
  acquire_failures :: nat
  slot_flags :: u8

definition flags :: "slot \<Rightarrow> u8" where
  "flags s = from_bits_truncate (slot_flags s)"

definition slot_missing :: slot where
  "slot_missing = \<lparr>reader_demand = False, acquire_failures = 0, slot_flags = 0\<rparr>"

definition is_downloading :: "slot \<Rightarrow> bool" where
  "is_downloading s = contains (flags s) DOWNLOADING"

definition is_failed :: "slot \<Rightarrow> bool" where
  "is_failed s = contains (flags s) FAILED"

definition is_loaded :: "slot \<Rightarrow> bool" where
  "is_loaded s = contains (flags s) LOADED"

definition is_slow :: "slot \<Rightarrow> bool" where
  "is_slow s = contains (flags s) SLOW"

definition is_reader_demanded :: "slot \<Rightarrow> bool" where
  "is_reader_demanded s \<longleftrightarrow> is_downloading s \<and> reader_demand s"

subsection \<open>Atomic accesses\<close>

definition store_flags :: "u8 \<Rightarrow> slot \<Rightarrow> slot" where
  "store_flags bits s = s\<lparr>slot_flags := bits\<rparr>"

definition store_demand :: "bool \<Rightarrow> slot \<Rightarrow> slot" where
  "store_demand d s = s\<lparr>reader_demand := d\<rparr>"

text \<open>The update of \<open>mark_loaded\<close>: the prior flags decide what the slot becomes.\<close>

definition loaded_update :: "u8 \<Rightarrow> u8" where
  "loaded_update bits = (if contains (from_bits_truncate bits) EVICTED then 0 else LOADED)"

definition evicted_update :: "u8 \<Rightarrow> u8" where
  "evicted_update bits =
     (let fl = from_bits_truncate bits in if contains fl DOWNLOADING then fl OR EVICTED else 0)"

subsection \<open>Operations\<close>

definition settle :: "u8 \<Rightarrow> slot \<Rightarrow> slot" where
  "settle state s = store_demand False (store_flags state s)"

definition mark_failed :: "slot \<Rightarrow> slot" where
  "mark_failed s = settle FAILED s"

definition mark_missing :: "slot \<Rightarrow> slot" where
  "mark_missing s = settle 0 s"

definition mark_loaded :: "slot \<Rightarrow> bool \<times> slot" where
  "mark_loaded s =
     (let prior = slot_flags s
      in (\<not> contains (from_bits_truncate prior) EVICTED,
          store_demand False (store_flags (loaded_update prior) s)))"

definition mark_evicted :: "slot \<Rightarrow> slot" where
  "mark_evicted s = store_flags (evicted_update (slot_flags s)) s"

definition mark_slow :: "slot \<Rightarrow> slot" where
  "mark_slow s = store_flags (slot_flags s OR SLOW) s"

definition note_acquire_failure :: "slot \<Rightarrow> nat \<times> slot" where
  "note_acquire_failure s =
     (let next = sat_add 255 (acquire_failures s) 1 in (next, s\<lparr>acquire_failures := next\<rparr>))"

definition clear_acquire_failures :: "slot \<Rightarrow> slot" where
  "clear_acquire_failures s = s\<lparr>acquire_failures := 0\<rparr>"

definition note_reader_demand :: "slot \<Rightarrow> slot" where
  "note_reader_demand s = (if is_downloading s then store_demand True s else s)"

definition try_claim :: "slot \<Rightarrow> bool \<times> slot" where
  "try_claim s = (if slot_flags s = 0 then (True, store_flags DOWNLOADING s) else (False, s))"

subsection \<open>Claims\<close>

text \<open>What a claim does with its slot: the four ends of a fetch.  \<open>EndLoaded\<close> covers both
  \<open>into_loaded\<close> and \<open>into_loaded_no_apply\<close>; a claim that is dropped ends as
  \<open>EndMissing\<close>.  The second component is whether the fetch goes back to the plan from
  inside the transition: a dropped claim and an overtaken \<open>Loaded\<close> do so.\<close>

datatype claim_end = EndLoaded | EndFailed | EndMissing | EndDropped

definition end_claim :: "claim_end \<Rightarrow> slot \<Rightarrow> slot \<times> bool" where
  "end_claim e s =
     (case e of
        EndLoaded \<Rightarrow> (let (landed, s') = mark_loaded s in (s', \<not> landed))
      | EndFailed \<Rightarrow> (mark_failed s, False)
      | EndMissing \<Rightarrow> (mark_missing s, False)
      | EndDropped \<Rightarrow> (mark_missing s, True))"

subsection \<open>Interleaved accesses\<close>

text \<open>The shared slot with the activity around it: live claims, settles whose demand store is
  still to come, and readers that have seen \<open>DOWNLOADING\<close> and have not yet stored their
  demand.\<close>

record slot_sys =
  the_slot :: slot
  live_claims :: nat
  clearing :: nat
  demanding :: nat

definition slot_init :: slot_sys where
  "slot_init = \<lparr>the_slot = slot_missing, live_claims = 0, clearing = 0, demanding = 0\<rparr>"

text \<open>The flag access of the claim's end; its demand store follows as a step of its own.\<close>

definition end_bits :: "claim_end \<Rightarrow> u8 \<Rightarrow> u8" where
  "end_bits e bits = (case e of EndLoaded \<Rightarrow> loaded_update bits | EndFailed \<Rightarrow> FAILED
     | EndMissing \<Rightarrow> 0 | EndDropped \<Rightarrow> 0)"

text \<open>The downloader fires \<open>on_slow\<close> from the task that runs the fetch, before the fetch
  completes, so a slow mark needs a live claim.\<close>

inductive slot_step :: "slot_sys \<Rightarrow> slot_sys \<Rightarrow> bool" where
  Claim: "try_claim (the_slot t) = (True, s') \<Longrightarrow>
    slot_step t (t\<lparr>the_slot := s', live_claims := live_claims t + 1\<rparr>)"
| End: "0 < live_claims t \<Longrightarrow>
    slot_step t (t\<lparr>the_slot := store_flags (end_bits e (slot_flags (the_slot t))) (the_slot t),
      live_claims := live_claims t - 1, clearing := clearing t + 1\<rparr>)"
| Cleared: "0 < clearing t \<Longrightarrow>
    slot_step t (t\<lparr>the_slot := store_demand False (the_slot t), clearing := clearing t - 1\<rparr>)"
| Evict: "slot_step t (t\<lparr>the_slot := mark_evicted (the_slot t)\<rparr>)"
| Slow: "0 < live_claims t \<Longrightarrow> slot_step t (t\<lparr>the_slot := mark_slow (the_slot t)\<rparr>)"
| SeesDownloading: "is_downloading (the_slot t) \<Longrightarrow> slot_step t (t\<lparr>demanding := demanding t + 1\<rparr>)"
| Demands: "0 < demanding t \<Longrightarrow>
    slot_step t (t\<lparr>the_slot := store_demand True (the_slot t), demanding := demanding t - 1\<rparr>)"
| AcquireFailed: "0 < live_claims t \<Longrightarrow>
    slot_step t (t\<lparr>the_slot := snd (note_acquire_failure (the_slot t))\<rparr>)"
| Acquired: "0 < live_claims t \<Longrightarrow>
    slot_step t (t\<lparr>the_slot := clear_acquire_failures (the_slot t)\<rparr>)"

inductive_cases slot_stepE: "slot_step t t'"

abbreviation slot_reachable :: "slot_sys \<Rightarrow> bool" where
  "slot_reachable t \<equiv> slot_step\<^sup>*\<^sup>* slot_init t"

text \<open>The flag bytes a slot can hold with and without a fetch in flight.\<close>

definition settled_bytes :: "u8 list" where
  "settled_bytes = [0, LOADED, FAILED]"

definition flight_bytes :: "u8 list" where
  "flight_bytes = [DOWNLOADING, DOWNLOADING OR SLOW, DOWNLOADING OR EVICTED, DOWNLOADING OR SLOW OR EVICTED]"

definition hls_slot_inv :: "slot_sys \<Rightarrow> bool" where
  "hls_slot_inv t \<longleftrightarrow>
     live_claims t = 0 \<and> slot_flags (the_slot t) \<in> set settled_bytes
   \<or> live_claims t = 1 \<and> slot_flags (the_slot t) \<in> set flight_bytes"

lemma settled_updates:
  assumes "b \<in> set settled_bytes"
  shows "evicted_update b = 0" "\<not> contains (from_bits_truncate b) DOWNLOADING"
    "\<not> contains (from_bits_truncate b) SLOW" "\<not> contains (from_bits_truncate b) EVICTED"
  using assms
  by (auto simp: settled_bytes_def evicted_update_def contains_def from_bits_truncate_def flag_defs Let_def)

lemma flight_updates:
  assumes "b \<in> set flight_bytes"
  shows "b \<noteq> 0" "evicted_update b \<in> set flight_bytes" "contains (from_bits_truncate (evicted_update b)) EVICTED"
    "b OR SLOW \<in> set flight_bytes"
    "contains (from_bits_truncate (b OR SLOW)) EVICTED = contains (from_bits_truncate b) EVICTED"
    "contains (from_bits_truncate b) DOWNLOADING"
    "\<not> contains (from_bits_truncate b) LOADED" "\<not> contains (from_bits_truncate b) FAILED"
  using assms
  by (auto simp: flight_bytes_def evicted_update_def contains_def from_bits_truncate_def flag_defs Let_def)

lemma end_bits_settled: "end_bits e b \<in> set settled_bytes"
  by (auto simp: end_bits_def settled_bytes_def loaded_update_def split: claim_end.split)

lemmas slot_ops = try_claim_def store_flags_def store_demand_def mark_evicted_def mark_slow_def
  note_acquire_failure_def clear_acquire_failures_def Let_def

lemma hls_slot_inv_init: "hls_slot_inv slot_init"
  by (simp add: hls_slot_inv_def slot_init_def slot_missing_def settled_bytes_def)

lemma hls_slot_inv_step: "slot_step t t' \<Longrightarrow> hls_slot_inv t \<Longrightarrow> hls_slot_inv t'"
proof (induction rule: slot_step.induct)
  case (Claim t s')
  then show ?case
    by (auto simp: hls_slot_inv_def slot_ops flight_bytes_def flag_defs split: if_splits)
qed (auto simp: hls_slot_inv_def slot_ops end_bits_settled settled_updates flight_updates
  intro: settled_updates flight_updates, auto simp: settled_bytes_def)

lemma slot_reachable_inv: "slot_reachable t \<Longrightarrow> hls_slot_inv t"
  by (induction rule: rtranclp_induct) (auto intro: hls_slot_inv_init hls_slot_inv_step)


text \<open>C37: the slot protocol: under any interleaving of claims, settles, evictions, slow marks and
  readers, at most one fetch owns a slot; the slot reads as downloading exactly while a claim is
  live; otherwise it is missing, loaded or failed, and nothing else; and a new claim succeeds
  exactly when it is missing.\<close>

theorem slot_claim_is_exclusive:
  assumes "slot_reachable t"
  shows "live_claims t \<le> 1 \<and> is_downloading (the_slot t) = (live_claims t = 1)
    \<and> fst (try_claim (the_slot t)) = (slot_flags (the_slot t) = 0)
    \<and> (if live_claims t = 0 then slot_flags (the_slot t) \<in> {0, LOADED, FAILED} \<and> \<not> is_slow (the_slot t)
       else \<not> is_loaded (the_slot t) \<and> \<not> is_failed (the_slot t))"
  using slot_reachable_inv [OF assms]
  by (auto simp: hls_slot_inv_def is_downloading_def is_loaded_def is_failed_def is_slow_def flags_def
      try_claim_def settled_updates flight_updates) (auto simp: settled_bytes_def)

lemma evicted_flight:
  assumes "hls_slot_inv t" "contains (flags (the_slot t)) EVICTED"
  shows "live_claims t = 1" "slot_flags (the_slot t) \<in> set flight_bytes"
  using assms settled_updates(4) by (auto simp: hls_slot_inv_def flags_def)

text \<open>An eviction that overtakes a fetch is never lost: once the slot of a live fetch is marked
  evicted, every step keeps the mark until the fetch ends, and the fetch then leaves the slot
  missing or failed, never loaded, so a reader cannot be sent to bytes that are gone.\<close>

lemma eviction_outlives_the_fetch:
  assumes "slot_reachable t" and "contains (flags (the_slot t)) EVICTED" and "slot_step t t'"
  shows "if live_claims t' = 1 then contains (flags (the_slot t')) EVICTED
    else live_claims t' = 0 \<and> slot_flags (the_slot t') \<in> {0, FAILED}"
  using assms(3,2) evicted_flight [OF slot_reachable_inv [OF assms(1)] assms(2)]
proof (cases rule: slot_step.cases)
  case (End e)
  then show ?thesis
    using assms(2) evicted_flight [OF slot_reachable_inv [OF assms(1)] assms(2)]
    by (auto simp: store_flags_def end_bits_def loaded_update_def flags_def split: claim_end.split)
qed (auto simp: slot_ops flags_def flight_updates)

text \<open>A segment that was given up is not fetched again: no step other than an eviction takes a
  slot out of failed, and while it is failed no claim succeeds.\<close>

lemma failed_slot_stays_failed:
  assumes "slot_reachable t" and "is_failed (the_slot t)" and "slot_step t t'"
    and "the_slot t' \<noteq> mark_evicted (the_slot t)"
  shows "is_failed (the_slot t') \<and> \<not> fst (try_claim (the_slot t))"
proof -
  have live: "live_claims t = 0" "slot_flags (the_slot t) \<in> set settled_bytes"
    using slot_reachable_inv [OF assms(1)] assms(2) flight_updates(8)
    by (auto simp: hls_slot_inv_def is_failed_def flags_def)
  have nonzero: "slot_flags (the_slot t) \<noteq> 0"
    using assms(2) by (auto simp: is_failed_def flags_def contains_def from_bits_truncate_def flag_defs)
  from assms(3) show ?thesis
    by cases (use assms(2,4) live nonzero in \<open>auto simp: slot_ops is_failed_def flags_def split: if_splits\<close>)
qed

subsection \<open>A slot at work\<close>

definition demo_flight :: slot_sys where
  "demo_flight = \<lparr>the_slot = \<lparr>reader_demand = False, acquire_failures = 0, slot_flags = DOWNLOADING\<rparr>,
     live_claims = 1, clearing = 0, demanding = 0\<rparr>"

definition demo_evicted :: slot_sys where
  "demo_evicted = demo_flight\<lparr>the_slot := mark_evicted (the_slot demo_flight)\<rparr>"

definition demo_failed :: slot_sys where
  "demo_failed = demo_flight\<lparr>the_slot := store_flags FAILED (the_slot demo_flight), live_claims := 0, clearing := 1\<rparr>"

lemma demo_flight_step: "slot_step slot_init demo_flight"
  using slot_step.Claim [of slot_init "the_slot demo_flight"]
  by (simp add: slot_init_def slot_missing_def try_claim_def store_flags_def demo_flight_def)

lemma demo_evicted_reachable: "slot_reachable demo_evicted"
  using demo_flight_step slot_step.Evict [of demo_flight]
  by (auto simp: demo_evicted_def intro: rtranclp.rtrancl_into_rtrancl)

lemma demo_failed_step: "slot_step demo_flight demo_failed"
  using slot_step.End [of demo_flight EndFailed]
  by (simp add: demo_failed_def demo_flight_def store_flags_def end_bits_def)

lemma demo_failed_reachable: "slot_reachable demo_failed"
  using demo_flight_step demo_failed_step by (meson rtranclp.rtrancl_into_rtrancl rtranclp.rtrancl_refl)

lemma slot_claim_is_exclusive_witness:
  "live_claims demo_failed \<le> 1 \<and> is_downloading (the_slot demo_failed) = (live_claims demo_failed = 1)
    \<and> fst (try_claim (the_slot demo_failed)) = (slot_flags (the_slot demo_failed) = 0)
    \<and> (if live_claims demo_failed = 0
       then slot_flags (the_slot demo_failed) \<in> {0, LOADED, FAILED} \<and> \<not> is_slow (the_slot demo_failed)
       else \<not> is_loaded (the_slot demo_failed) \<and> \<not> is_failed (the_slot demo_failed))"
  by (rule slot_claim_is_exclusive [OF demo_failed_reachable])

subsection \<open>The demand bit\<close>

definition raced :: slot_sys where
  "raced = \<lparr>the_slot = \<lparr>reader_demand = True, acquire_failures = 0, slot_flags = 0\<rparr>,
     live_claims = 0, clearing = 0, demanding = 0\<rparr>"

text \<open>The demand bit can outlive its fetch: a reader that looks at the slot just before the
  fetch settles stores its demand just after, so the bit is reachable on a slot that is not
  downloading, with every settle complete, and the next fetch starts as demanded.\<close>

lemma late_demand_outlives_its_fetch:
  "slot_reachable raced \<and> \<not> is_downloading (the_slot raced)
    \<and> is_reader_demanded (snd (try_claim (the_slot raced)))"
proof -
  let ?flight = "\<lparr>reader_demand = False, acquire_failures = 0, slot_flags = DOWNLOADING\<rparr>"
  have d: "is_downloading ?flight"
    by (simp add: is_downloading_def flags_def contains_def from_bits_truncate_def flag_defs)
  have 1: "slot_step slot_init \<lparr>the_slot = ?flight, live_claims = 1, clearing = 0, demanding = 0\<rparr>"
    using slot_step.Claim [of slot_init ?flight]
    by (simp add: slot_init_def slot_missing_def try_claim_def store_flags_def)
  have 2: "slot_step \<lparr>the_slot = ?flight, live_claims = 1, clearing = 0, demanding = 0\<rparr>
      \<lparr>the_slot = ?flight, live_claims = 1, clearing = 0, demanding = 1\<rparr>"
    using slot_step.SeesDownloading [of "\<lparr>the_slot = ?flight, live_claims = 1, clearing = 0, demanding = 0\<rparr>"] d
    by simp
  have 3: "slot_step \<lparr>the_slot = ?flight, live_claims = 1, clearing = 0, demanding = 1\<rparr>
      \<lparr>the_slot = slot_missing, live_claims = 0, clearing = 1, demanding = 1\<rparr>"
    using slot_step.End [of "\<lparr>the_slot = ?flight, live_claims = 1, clearing = 0, demanding = 1\<rparr>" EndMissing]
    by (simp add: store_flags_def end_bits_def slot_missing_def)
  have 4: "slot_step \<lparr>the_slot = slot_missing, live_claims = 0, clearing = 1, demanding = 1\<rparr>
      \<lparr>the_slot = slot_missing, live_claims = 0, clearing = 0, demanding = 1\<rparr>"
    using slot_step.Cleared [of "\<lparr>the_slot = slot_missing, live_claims = 0, clearing = 1, demanding = 1\<rparr>"]
    by (simp add: store_demand_def slot_missing_def)
  have 5: "slot_step \<lparr>the_slot = slot_missing, live_claims = 0, clearing = 0, demanding = 1\<rparr> raced"
    using slot_step.Demands [of "\<lparr>the_slot = slot_missing, live_claims = 0, clearing = 0, demanding = 1\<rparr>"]
    by (simp add: store_demand_def slot_missing_def raced_def)
  have "slot_reachable raced"
    using 1 2 3 4 5 by (meson converse_rtranclp_into_rtranclp rtranclp.rtrancl_refl)
  then show ?thesis
    by (simp add: raced_def is_reader_demanded_def try_claim_def store_flags_def is_downloading_def
        flags_def contains_def from_bits_truncate_def flag_defs)
qed

end
