(* ===== verification/Plan_Queue.thy ===== *)
theory Plan_Queue
  imports Prelude
begin

text \<open>
  The fetch plan of an HLS variant (\<open>crates/kithara-hls/src/variant/flow/plan_queue.rs\<close>, the
  list a rebuild enqueues in \<open>flow/queue.rs\<close>) and the queue of exact-size demands
  (\<open>flow/probe.rs\<close>).  The plan is a deque with a mirror of its membership in atomics, which
  the produce core reads without the lock, and a revision that names the plan's identity.  Every
  mutation holds the lock, so an operation is a function on the state.
\<close>

subsection \<open>Planned fetches\<close>

datatype planned_fetch = Init | Segment nat

text \<open>The derived order: the init first, segments ascending.\<close>

instantiation planned_fetch :: linorder
begin

fun less_eq_planned_fetch :: "planned_fetch \<Rightarrow> planned_fetch \<Rightarrow> bool" where
  "Init \<le> q = True"
| "Segment i \<le> Init = False"
| "Segment i \<le> Segment j = (i \<le> j)"

definition less_planned_fetch :: "planned_fetch \<Rightarrow> planned_fetch \<Rightarrow> bool" where
  "less_planned_fetch p q \<longleftrightarrow> p \<le> q \<and> \<not> q \<le> p"

instance
proof
  fix x y z :: planned_fetch
  show "(x < y) = (x \<le> y \<and> \<not> y \<le> x)" by (rule less_planned_fetch_def)
  show "x \<le> x" by (cases x) auto
  show "x \<le> y \<Longrightarrow> y \<le> z \<Longrightarrow> x \<le> z" by (cases x; cases y; cases z) auto
  show "x \<le> y \<Longrightarrow> y \<le> x \<Longrightarrow> x = y" by (cases x; cases y) auto
  show "x \<le> y \<or> y \<le> x" by (cases x; cases y) auto
qed

end

subsection \<open>The plan\<close>

record plan_queue =
  init_planned :: bool
  revision :: u64
  segments_planned :: "bool list"
  queue :: "planned_fetch list"

definition plan_new :: "nat \<Rightarrow> plan_queue" where
  "plan_new num_segments =
     \<lparr>init_planned = False, revision = 0, segments_planned = replicate num_segments False, queue = []\<rparr>"

definition mark :: "planned_fetch \<Rightarrow> bool \<Rightarrow> plan_queue \<Rightarrow> plan_queue" where
  "mark p v q =
     (case p of
        Init \<Rightarrow> q\<lparr>init_planned := v\<rparr>
      | Segment idx \<Rightarrow>
          if idx < length (segments_planned q)
          then q\<lparr>segments_planned := (segments_planned q)[idx := v]\<rparr> else q)"

definition planned :: "planned_fetch \<Rightarrow> plan_queue \<Rightarrow> bool" where
  "planned p q =
     (case p of
        Init \<Rightarrow> init_planned q
      | Segment idx \<Rightarrow> idx < length (segments_planned q) \<and> segments_planned q ! idx)"

definition pop_front :: "plan_queue \<Rightarrow> (planned_fetch \<times> u64) option \<times> plan_queue" where
  "pop_front q =
     (case queue q of
        [] \<Rightarrow> (None, q)
      | p # rest \<Rightarrow> (Some (p, revision q), mark p False (q\<lparr>queue := rest\<rparr>)))"

definition push_front :: "planned_fetch \<Rightarrow> plan_queue \<Rightarrow> plan_queue" where
  "push_front p q = mark p True (q\<lparr>queue := p # queue q\<rparr>)"

definition prioritize_segment :: "nat \<Rightarrow> plan_queue \<Rightarrow> plan_queue" where
  "prioritize_segment segment q =
     (let p = Segment segment;
          rest = (case position (\<lambda>queued. queued = p) (queue q) of
                    Some i \<Rightarrow> remove_at i (queue q) | None \<Rightarrow> queue q);
          i = (if rest \<noteq> [] \<and> hd rest = Init then 1 else 0)
      in mark p True (q\<lparr>queue := insert_at i p rest\<rparr>))"

definition supersede :: "plan_queue \<Rightarrow> plan_queue" where
  "supersede q = q\<lparr>revision := revision q + 1\<rparr>"

definition replace_with :: "planned_fetch list \<Rightarrow> plan_queue \<Rightarrow> plan_queue" where
  "replace_with plan q =
     fold (\<lambda>p q. mark p True (q\<lparr>queue := queue q @ [p]\<rparr>)) plan
       ((supersede q)\<lparr>queue := [], init_planned := False,
          segments_planned := map (\<lambda>_. False) (segments_planned q)\<rparr>)"

definition requeue_if_current :: "planned_fetch \<Rightarrow> u64 \<Rightarrow> plan_queue \<Rightarrow> bool \<times> plan_queue" where
  "requeue_if_current p r q =
     (if revision q \<noteq> r \<or> p \<in> set (queue q) then (False, q)
      else let i = (case position (\<lambda>queued. p < queued) (queue q) of Some i \<Rightarrow> i | None \<Rightarrow> length (queue q))
           in (True, mark p True (q\<lparr>queue := insert_at i p (queue q)\<rparr>)))"

text \<open>\<open>enqueue_body_fetch_for_size\<close>: under one lock, only when the entry is absent.\<close>

definition enqueue_body_fetch :: "planned_fetch \<Rightarrow> plan_queue \<Rightarrow> plan_queue" where
  "enqueue_body_fetch p q = (if p \<in> set (queue q) then q else push_front p q)"

text \<open>The list \<open>rebuild_queue\<close> hands to \<open>replace_with\<close>: the init while it is owed, a probe
  segment before the target, and the tail from the target.\<close>

definition rebuild_plan :: "bool \<Rightarrow> nat \<Rightarrow> nat option \<Rightarrow> nat \<Rightarrow> planned_fetch list" where
  "rebuild_plan needs_init from_seg probe_seg segs_len =
     (if needs_init then [Init] else [])
     @ (case probe_seg of Some probe \<Rightarrow> if probe < from_seg then [Segment probe] else [] | None \<Rightarrow> [])
     @ map Segment [from_seg..<segs_len]"

subsection \<open>Membership mirror\<close>

definition in_map :: "planned_fetch \<Rightarrow> plan_queue \<Rightarrow> bool" where
  "in_map p q = (case p of Init \<Rightarrow> True | Segment idx \<Rightarrow> idx < length (segments_planned q))"

definition mirrored :: "plan_queue \<Rightarrow> bool" where
  "mirrored q \<longleftrightarrow> distinct (queue q) \<and> (\<forall>p. planned p q = (p \<in> set (queue q) \<and> in_map p q))"

named_theorems plan_simps \<open>what the operations of the plan do to its fields\<close>

lemma mark_fields [plan_simps, simp]:
  "queue (mark p v q) = queue q" "revision (mark p v q) = revision q"
  "length (segments_planned (mark p v q)) = length (segments_planned q)"
  by (simp_all add: mark_def split: planned_fetch.split)

lemma planned_mark [simp]: "planned p (mark p' v q) = (if p = p' then v \<and> in_map p q else planned p q)"
  by (auto simp: planned_def mark_def in_map_def nth_list_update split: planned_fetch.splits)

lemma in_map_mark [simp]: "in_map p (mark p' v q) = in_map p q"
  by (simp add: in_map_def split: planned_fetch.split)

lemma queue_irrelevant [simp]:
  "planned p (q\<lparr>queue := xs\<rparr>) = planned p q" "in_map p (q\<lparr>queue := xs\<rparr>) = in_map p q"
  "planned p (supersede q) = planned p q" "in_map p (supersede q) = in_map p q"
  "queue (supersede q) = queue q" "segments_planned (supersede q) = segments_planned q"
  "revision (supersede q) = revision q + 1"
  by (simp_all add: planned_def in_map_def supersede_def split: planned_fetch.split)

lemma mirrored_new: "mirrored (plan_new n)"
  by (simp add: mirrored_def plan_new_def planned_def split: planned_fetch.split)

lemma mirrored_insert:
  assumes "mirrored q" "distinct xs" "set xs = insert p (set (queue q))"
  shows "mirrored (mark p True (q\<lparr>queue := xs\<rparr>))"
  using assms by (auto simp: mirrored_def)

lemma mirrored_pop: "mirrored q \<Longrightarrow> mirrored (snd (pop_front q))"
  by (auto simp: mirrored_def pop_front_def split: list.split)

lemma mirrored_supersede: "mirrored q \<Longrightarrow> mirrored (supersede q)"
  by (simp add: mirrored_def)

lemma prioritized_queue:
  "queue (prioritize_segment s q) =
     insert_at (if remove1 (Segment s) (queue q) \<noteq> [] \<and> hd (remove1 (Segment s) (queue q)) = Init then 1 else 0)
       (Segment s) (remove1 (Segment s) (queue q))"
proof -
  have "(case position (\<lambda>queued. queued = Segment s) (queue q) of
      Some i \<Rightarrow> remove_at i (queue q) | None \<Rightarrow> queue q) = remove1 (Segment s) (queue q)"
    by (auto simp: remove_at_first position_None remove1_idem split: option.split)
  then show ?thesis
    by (simp add: prioritize_segment_def Let_def)
qed

lemma mirrored_prioritize:
  assumes "mirrored q"
  shows "mirrored (prioritize_segment s q)"
proof -
  have eq: "prioritize_segment s q = mark (Segment s) True (q\<lparr>queue := queue (prioritize_segment s q)\<rparr>)"
    by (simp add: prioritize_segment_def Let_def)
  from assms have "distinct (queue q)"
    by (simp add: mirrored_def)
  then show ?thesis
    by (subst eq, intro mirrored_insert [OF assms]) (auto simp: prioritized_queue)
qed

lemma requeue_cases:
  obtains (Refused) "requeue_if_current p r q = (False, q)" "revision q \<noteq> r \<or> p \<in> set (queue q)"
  | (Requeued) i where "requeue_if_current p r q = (True, mark p True (q\<lparr>queue := insert_at i p (queue q)\<rparr>))"
      "revision q = r" "p \<notin> set (queue q)"
  by (auto simp: requeue_if_current_def Let_def split: if_splits)

lemma mirrored_requeue: "mirrored q \<Longrightarrow> mirrored (snd (requeue_if_current p r q))"
  by (cases rule: requeue_cases [of p r q]) (auto intro: mirrored_insert simp: mirrored_def)

lemma mirrored_enqueue: "mirrored q \<Longrightarrow> mirrored (enqueue_body_fetch p q)"
  by (auto simp: enqueue_body_fetch_def push_front_def mirrored_def)

lemma replace_fold:
  assumes "mirrored q" "distinct (queue q @ plan)"
  defines "q' \<equiv> fold (\<lambda>p q. mark p True (q\<lparr>queue := queue q @ [p]\<rparr>)) plan q"
  shows "mirrored q' \<and> queue q' = queue q @ plan \<and> revision q' = revision q
    \<and> length (segments_planned q') = length (segments_planned q)"
  unfolding q'_def using assms(1,2)
proof (induction plan arbitrary: q)
  case (Cons p plan)
  have "mirrored (mark p True (q\<lparr>queue := queue q @ [p]\<rparr>))"
    by (rule mirrored_insert [OF Cons.prems(1)]) (use Cons.prems(2) in auto)
  from Cons.IH [OF this] Cons.prems(2) show ?case
    by simp
qed simp

lemma replaced:
  assumes "distinct plan"
  shows "mirrored (replace_with plan q)" "queue (replace_with plan q) = plan"
    "revision (replace_with plan q) = revision q + 1"
    "length (segments_planned (replace_with plan q)) = length (segments_planned q)"
proof -
  let ?q = "(supersede q)\<lparr>queue := [], init_planned := False,
          segments_planned := map (\<lambda>_. False) (segments_planned q)\<rparr>"
  have "mirrored ?q"
    by (auto simp: mirrored_def planned_def split: planned_fetch.split)
  from replace_fold [OF this, of plan] assms
  show "mirrored (replace_with plan q)" "queue (replace_with plan q) = plan"
    "revision (replace_with plan q) = revision q + 1"
    "length (segments_planned (replace_with plan q)) = length (segments_planned q)"
    by (simp_all add: replace_with_def supersede_def)
qed

lemma set_rebuild_plan:
  "set (rebuild_plan needs from_seg probe n) =
     {p. p = Init \<and> needs} \<union> {Segment i | i. from_seg \<le> i \<and> i < n}
     \<union> {Segment i | i. probe = Some i \<and> i < from_seg}"
  by (auto simp: rebuild_plan_def split: option.split)

lemma distinct_rebuild_plan [simp]: "distinct (rebuild_plan needs from_seg probe n)"
  by (auto simp: rebuild_plan_def distinct_map inj_on_def split: option.split)

lemma sorted_rebuild_plan: "sorted (rebuild_plan needs from_seg probe n)"
proof -
  have "sorted (map Segment [from_seg..<n])"
    by (simp add: sorted_map)
  then show ?thesis
    by (auto simp: rebuild_plan_def sorted_append split: option.split)
qed

subsection \<open>Running the plan\<close>

text \<open>The calls the variant makes on its plan, each under the lock.  \<open>NoteSupersede\<close> is the
  rebuild that finds nothing to enqueue.\<close>

datatype plan_call =
    PopFront
  | Rebuild bool nat "nat option"
  | NoteSupersede
  | Prioritize nat
  | Requeue planned_fetch u64
  | EnqueueBody planned_fetch

definition plan_call_step :: "plan_call \<Rightarrow> plan_queue \<Rightarrow> plan_queue" where
  "plan_call_step c q =
     (case c of
        PopFront \<Rightarrow> snd (pop_front q)
      | Rebuild needs from_seg probe \<Rightarrow>
          replace_with (rebuild_plan needs from_seg probe (length (segments_planned q))) q
      | NoteSupersede \<Rightarrow> supersede q
      | Prioritize segment \<Rightarrow> prioritize_segment segment q
      | Requeue p r \<Rightarrow> snd (requeue_if_current p r q)
      | EnqueueBody p \<Rightarrow> enqueue_body_fetch p q)"

abbreviation plan_run :: "plan_call list \<Rightarrow> plan_queue \<Rightarrow> plan_queue" where
  "plan_run \<equiv> fold plan_call_step"

fun supersedes :: "plan_call \<Rightarrow> bool" where
  "supersedes (Rebuild needs from_seg probe) = True"
| "supersedes NoteSupersede = True"
| "supersedes c = False"

lemma pop_front_fields:
  "revision (snd (pop_front q)) = revision q" "queue (snd (pop_front q)) = tl (queue q)"
  "length (segments_planned (snd (pop_front q))) = length (segments_planned q)"
  by (simp_all add: pop_front_def split: list.split)

lemma plan_call_mirrored: "mirrored q \<Longrightarrow> mirrored (plan_call_step c q)"
  by (cases c) (simp_all add: plan_call_step_def mirrored_pop mirrored_supersede mirrored_prioritize
    mirrored_requeue mirrored_enqueue replaced)

lemma plan_call_revision:
  "revision (plan_call_step c q) = revision q + (if supersedes c then 1 else 0)"
  "length (segments_planned (plan_call_step c q)) = length (segments_planned q)"
  by (cases c; simp add: plan_call_step_def pop_front_fields replaced prioritize_segment_def Let_def
    requeue_if_current_def enqueue_body_fetch_def push_front_def supersede_def)+

lemma plan_run_mirrored: "mirrored q \<Longrightarrow> mirrored (plan_run cs q)"
  by (induction cs arbitrary: q) (auto simp: plan_call_mirrored)

lemma plan_run_revision:
  "revision (plan_run cs q) = revision q + word_of_nat (length (filter supersedes cs))"
  by (induction cs arbitrary: q) (auto simp: plan_call_revision algebra_simps)

lemma plan_run_length: "length (segments_planned (plan_run cs q)) = length (segments_planned q)"
  by (induction cs arbitrary: q) (auto simp: plan_call_revision)

text \<open>C11: the lock-free membership mirror never drifts from the plan: after any sequence of
  rebuilds, pops, promotions, returns and size demands the deque holds no entry twice, and the
  produce core reads an entry as planned exactly when it is in the deque and inside the variant's
  map.\<close>

theorem membership_mirror_is_exact:
  "distinct (queue (plan_run cs (plan_new n)))
    \<and> planned p (plan_run cs (plan_new n))
      = (p \<in> set (queue (plan_run cs (plan_new n))) \<and> (case p of Init \<Rightarrow> True | Segment idx \<Rightarrow> idx < n))"
proof -
  have "length (segments_planned (plan_run cs (plan_new n))) = n"
    by (simp add: plan_run_length) (simp add: plan_new_def)
  then show ?thesis
    using plan_run_mirrored [OF mirrored_new, of cs n]
    by (cases p) (simp_all add: mirrored_def in_map_def)
qed

lemma insort_as_insert_at:
  "sorted xs \<Longrightarrow> x \<notin> set xs \<Longrightarrow>
    insert_at (case position (\<lambda>y. x < y) xs of Some i \<Rightarrow> i | None \<Rightarrow> length xs) x xs = insort x xs"
proof (induction xs)
  case (Cons y xs)
  show ?case
  proof (cases "x < y")
    case False
    with Cons.prems have "y < x"
      by auto
    moreover from Cons have "insert_at (case position (\<lambda>y. x < y) xs of Some i \<Rightarrow> i | None \<Rightarrow> length xs) x xs = insort x xs"
      by simp
    ultimately show ?thesis
      by (auto simp: insert_at_def split: option.splits)
  qed (use Cons.prems in \<open>auto simp: insert_at_def\<close>)
qed (simp add: insert_at_def)

text \<open>Work comes back to the plan it left and to no other.  An entry popped from a plan is refused
  once the plan has been superseded, whatever else was done in between; while the plan is current
  and does not already hold the entry, it is taken back, and a plan in order stays in order, so an
  entry far ahead never stands in front of a nearer one.\<close>

lemma work_returns_in_plan_order:
  assumes "pop_front q = (Some (p, r), q1)" and "q2 = plan_run cs q1"
    and "length (filter supersedes cs) < 2 ^ 64" and "sorted (queue q2)"
  shows "requeue_if_current p r q2 =
      (if filter supersedes cs \<noteq> [] \<or> p \<in> set (queue q2) then (False, q2)
       else (True, mark p True (q2\<lparr>queue := insort p (queue q2)\<rparr>)))
    \<and> sorted (queue (snd (requeue_if_current p r q2)))"
proof -
  have "revision q1 = r"
    using assms(1) by (auto simp: pop_front_def split: list.splits)
  then have "revision q2 = r \<longleftrightarrow> (word_of_nat (length (filter supersedes cs)) :: u64) = 0"
    by (simp add: assms(2) plan_run_revision)
  also have "\<dots> \<longleftrightarrow> filter supersedes cs = []"
    using assms(3) dvd_imp_le [of "2 ^ 64" "length (filter supersedes cs)"]
    by (auto simp: word_of_nat_eq_0_iff)
  finally have eq: "requeue_if_current p r q2 =
      (if filter supersedes cs \<noteq> [] \<or> p \<in> set (queue q2) then (False, q2)
       else (True, mark p True (q2\<lparr>queue := insort p (queue q2)\<rparr>)))"
    using insort_as_insert_at [OF assms(4), of p] by (auto simp: requeue_if_current_def Let_def)
  then show ?thesis
    using assms(4) by (simp add: sorted_insort)
qed

subsection \<open>Exact-size demands\<close>

datatype size_demand = DemandInit | DemandSegment nat

record size_demand_state =
  inflight :: "size_demand set"
  queued :: "size_demand set"
  demand_queue :: "size_demand list"

definition demand_default :: size_demand_state where
  "demand_default = \<lparr>inflight = {}, queued = {}, demand_queue = []\<rparr>"

definition demand_enqueue :: "size_demand \<Rightarrow> size_demand_state \<Rightarrow> size_demand_state" where
  "demand_enqueue d st =
     (if d \<in> queued st \<or> d \<in> inflight st then st
      else st\<lparr>queued := insert d (queued st), demand_queue := demand_queue st @ [d]\<rparr>)"

definition demand_finish :: "size_demand \<Rightarrow> size_demand_state \<Rightarrow> size_demand_state" where
  "demand_finish d st = st\<lparr>inflight := inflight st - {d}\<rparr>"

fun pop_loop :: "size_demand list \<Rightarrow> size_demand_state \<Rightarrow> size_demand option \<times> size_demand_state" where
  "pop_loop [] st = (None, st\<lparr>demand_queue := []\<rparr>)"
| "pop_loop (d # rest) st =
     (let st' = st\<lparr>queued := queued st - {d}, demand_queue := rest\<rparr>
      in if d \<in> inflight st' then pop_loop rest st'
         else (Some d, st'\<lparr>inflight := insert d (inflight st')\<rparr>))"

definition pop_dispatchable :: "size_demand_state \<Rightarrow> size_demand option \<times> size_demand_state" where
  "pop_dispatchable st = pop_loop (demand_queue st) st"

definition demand_inv :: "size_demand_state \<Rightarrow> bool" where
  "demand_inv st \<longleftrightarrow> distinct (demand_queue st) \<and> queued st = set (demand_queue st)
     \<and> queued st \<inter> inflight st = {}"

datatype demand_call = EnqueueDemand size_demand | FinishDemand size_demand | PopDemand

definition demand_call_step :: "demand_call \<Rightarrow> size_demand_state \<Rightarrow> size_demand_state" where
  "demand_call_step c st =
     (case c of EnqueueDemand d \<Rightarrow> demand_enqueue d st | FinishDemand d \<Rightarrow> demand_finish d st
        | PopDemand \<Rightarrow> snd (pop_dispatchable st))"

lemma pop_dispatchable_inv:
  assumes "demand_inv st"
  shows "pop_dispatchable st =
    (case demand_queue st of
       [] \<Rightarrow> (None, st)
     | d # rest \<Rightarrow> (Some d, st\<lparr>queued := queued st - {d}, demand_queue := rest, inflight := insert d (inflight st)\<rparr>))"
  using assms by (cases "demand_queue st") (auto simp: pop_dispatchable_def demand_inv_def)

lemma demand_inv_step: "demand_inv st \<Longrightarrow> demand_inv (demand_call_step c st)"
  using pop_dispatchable_inv [of st]
  by (cases c; cases "demand_queue st")
     (auto simp: demand_call_step_def demand_inv_def demand_enqueue_def demand_finish_def)

lemma demand_inv_run: "demand_inv (fold demand_call_step cs demand_default)"
proof -
  have "demand_inv st \<Longrightarrow> demand_inv (fold demand_call_step cs st)" for st
    by (induction cs arbitrary: st) (auto simp: demand_inv_step)
  moreover have "demand_inv demand_default"
    by (simp add: demand_inv_def demand_default_def)
  ultimately show ?thesis
    by blast
qed

text \<open>A demand that is raised is outstanding until it is finished, and demands leave in the order they
  were first raised, each while no probe for it runs.\<close>

lemma size_demands_are_probed_once:
  assumes "st = fold demand_call_step cs demand_default"
  shows "fst (pop_dispatchable st) = (case demand_queue st of [] \<Rightarrow> None | d # _ \<Rightarrow> Some d)
    \<and> set (demand_queue st) \<inter> inflight st = {}
    \<and> d \<in> set (demand_queue (demand_enqueue d st)) \<union> inflight (demand_enqueue d st)"
  using demand_inv_run [of cs] unfolding assms [symmetric]
  by (auto simp: pop_dispatchable_inv demand_enqueue_def split: list.split) (auto simp: demand_inv_def)

subsection \<open>A plan at work\<close>

definition demo_plan :: plan_queue where
  "demo_plan = snd (pop_front (replace_with (rebuild_plan True 1 (Some 0) 3) (plan_new 3)))"

lemma demo_plan_value:
  "demo_plan = \<lparr>init_planned = False, revision = 1, segments_planned = [True, True, True],
     queue = [Segment 0, Segment 1, Segment 2]\<rparr>"
  by (simp add: demo_plan_def rebuild_plan_def plan_new_def replace_with_def mark_def supersede_def
      pop_front_def upt_conv_Cons eval_nat_numeral)

end
