(* ===== verification/Net_Retry.thy ===== *)
theory Net_Retry
  imports Prelude
begin

text \<open>
  Transport errors and the retry loop of the network layer
  (\<open>crates/kithara-net/src/error.rs\<close>, \<open>types.rs\<close>, \<open>retry/net.rs\<close>).  The text
  of an error is its constant part.  A request is the function from the attempt to its outcome;
  whether a cancellation wins the race against the request, or against the wait that follows it,
  is a function of the attempt too.  Delays are unbounded: the product of a base delay with a 32-bit
  factor overflows a \<open>Duration\<close>, which panics, only for base delays of 136 years and more.
\<close>

subsection \<open>Errors\<close>

datatype net_error =
    Status nat "string option" "string option"
  | Timeout
  | Network string
  | Decode string
  | RetryExhausted nat net_error
  | Cancelled
  | InvalidContentType string
  | Protocol string
  | NoTransport
  | Refused string

datatype retryability = Transient | Fatal

definition HTTP_REQUEST_TIMEOUT :: nat where "HTTP_REQUEST_TIMEOUT = 408"
definition HTTP_SERVER_ERROR_MIN :: nat where "HTTP_SERVER_ERROR_MIN = 500"
definition HTTP_TOO_MANY_REQUESTS :: nat where "HTTP_TOO_MANY_REQUESTS = 429"

fun retryability_of :: "net_error \<Rightarrow> retryability" where
  "retryability_of (Status code url body) =
     (if HTTP_SERVER_ERROR_MIN \<le> code \<or> code = HTTP_TOO_MANY_REQUESTS \<or> code = HTTP_REQUEST_TIMEOUT
      then Transient else Fatal)"
| "retryability_of Timeout = Transient"
| "retryability_of (Network text) = Transient"
| "retryability_of (Decode text) = Fatal"
| "retryability_of (RetryExhausted n e) = Fatal"
| "retryability_of Cancelled = Fatal"
| "retryability_of (InvalidContentType text) = Fatal"
| "retryability_of (Protocol text) = Fatal"
| "retryability_of NoTransport = Fatal"
| "retryability_of (Refused text) = Fatal"

fun cause :: "net_error \<Rightarrow> net_error" where
  "cause (RetryExhausted n e) = cause e"
| "cause e = e"

definition can_answer_later :: "net_error \<Rightarrow> bool" where
  "can_answer_later e =
     (case cause e of
        Network text \<Rightarrow> True
      | Status code url body \<Rightarrow> retryability_of (cause e) = Transient
      | _ \<Rightarrow> False)"

subsection \<open>Policy\<close>

record retry_policy =
  base_delay :: duration
  max_delay :: duration
  max_retries :: nat

text \<open>\<open>u32::pow\<close> wraps at 32 bits.\<close>

definition delay_for_attempt :: "retry_policy \<Rightarrow> nat \<Rightarrow> duration" where
  "delay_for_attempt p attempt =
     (if attempt = 0 then 0
      else min (base_delay p * (2 ^ (attempt - 1) mod 2 ^ 32)) (max_delay p))"

definition should_retry :: "retry_policy \<Rightarrow> net_error \<Rightarrow> nat \<Rightarrow> bool" where
  "should_retry p e attempt =
     (if max_retries p \<le> attempt then False else retryability_of e = Transient)"

text \<open>The error a spent attempt leaves the loop with.\<close>

definition promoted :: "retry_policy \<Rightarrow> net_error \<Rightarrow> net_error" where
  "promoted p e =
     (if 0 < max_retries p \<and> retryability_of e = Transient then RetryExhausted (max_retries p) e else e)"

text \<open>The loop, with the waits it takes.  \<open>wins k\<close>: a cancellation beats attempt \<open>k\<close>;
  \<open>wakes k\<close>: it beats the wait after it.\<close>

function retry_loop ::
    "retry_policy \<Rightarrow> (nat \<Rightarrow> bool) \<Rightarrow> (nat \<Rightarrow> bool) \<Rightarrow> (nat \<Rightarrow> (net_error, 'a) result) \<Rightarrow> nat
      \<Rightarrow> (net_error, 'a) result \<times> duration list" where
  "retry_loop p wins wakes op attempt =
     (if wins attempt then (Inl Cancelled, [])
      else case op attempt of
        Inr v \<Rightarrow> (Inr v, [])
      | Inl e \<Rightarrow>
          if \<not> should_retry p e attempt then (Inl (promoted p e), [])
          else if wakes attempt then (Inl Cancelled, [])
          else (let (r, waits) = retry_loop p wins wakes op (attempt + 1)
                in (r, delay_for_attempt p attempt # waits)))"
  by auto

termination
  by (relation "measure (\<lambda>(p, wins, wakes, op, attempt). max_retries p - attempt)")
     (auto simp: should_retry_def split: if_splits)

declare retry_loop.simps [simp del]

lemma promoted_final: "0 < max_retries p \<Longrightarrow> retryability_of (promoted p e) = Fatal"
  by (cases "retryability_of e") (auto simp: promoted_def)

lemma cause_idem [simp]: "cause (cause e) = cause e"
  by (induction e) auto

lemma can_answer_promoted [simp]: "can_answer_later (promoted p e) = can_answer_later e"
  unfolding can_answer_later_def by (cases "0 < max_retries p \<and> retryability_of e = Transient")
    (auto simp: promoted_def split: net_error.split)

text \<open>An attempt that fails in a way the loop retries, and the outcome of the attempt that ends it.\<close>

definition retried :: "retry_policy \<Rightarrow> (nat \<Rightarrow> bool) \<Rightarrow> (nat \<Rightarrow> bool) \<Rightarrow> (nat \<Rightarrow> (net_error, 'a) result) \<Rightarrow> nat \<Rightarrow> bool" where
  "retried p wins wakes op k \<longleftrightarrow> \<not> wins k \<and> \<not> wakes k
     \<and> (case op k of Inr v \<Rightarrow> False | Inl e \<Rightarrow> should_retry p e k)"

definition final_outcome :: "retry_policy \<Rightarrow> (nat \<Rightarrow> bool) \<Rightarrow> (nat \<Rightarrow> (net_error, 'a) result) \<Rightarrow> nat \<Rightarrow> (net_error, 'a) result" where
  "final_outcome p wins op k =
     (if wins k then Inl Cancelled
      else case op k of
        Inr v \<Rightarrow> Inr v
      | Inl e \<Rightarrow> if should_retry p e k then Inl Cancelled else Inl (promoted p e))"

lemma retry_loop_step:
  "retry_loop p wins wakes op k =
     (if retried p wins wakes op k
      then (fst (retry_loop p wins wakes op (k + 1)), delay_for_attempt p k # snd (retry_loop p wins wakes op (k + 1)))
      else (final_outcome p wins op k, []))"
  by (subst retry_loop.simps) (auto simp: retried_def final_outcome_def split: sum.split prod.split)

lemma retry_loop_run:
  "retry_loop p wins wakes op k = (r, waits) \<Longrightarrow>
    list_all (retried p wins wakes op) [k..<k + length waits]
    \<and> \<not> retried p wins wakes op (k + length waits)
    \<and> waits = map (delay_for_attempt p) [k..<k + length waits]
    \<and> r = final_outcome p wins op (k + length waits)"
proof (induction p wins wakes op k arbitrary: waits rule: retry_loop.induct)
  case (1 p wins wakes op k)
  show ?case
  proof (cases "retried p wins wakes op k")
    case True
    then obtain e where e: "\<not> wins k" "op k = Inl e" "should_retry p e k" "\<not> wakes k"
      by (auto simp: retried_def split: sum.splits)
    obtain ws where ws: "waits = delay_for_attempt p k # ws" "retry_loop p wins wakes op (k + 1) = (r, ws)"
      using "1.prems" True retry_loop_step [of p wins wakes op k]
      by (cases "retry_loop p wins wakes op (k + 1)") auto
    have up: "[k..<k + length waits] = k # [k + 1..<k + 1 + length ws]"
      using upt_conv_Cons [of k "k + length waits"] by (simp add: ws(1))
    show ?thesis
      using "1.IH" [OF e(1,2) _ e(4) ws(2)] e(3) True by (simp add: up) (simp add: ws(1))
  next
    case False
    with "1.prems" show ?thesis
      by (subst (asm) retry_loop_step) auto
  qed
qed

text \<open>C12: a request is tried again only after failures worth retrying and at most
  \<open>max_retries\<close> times, so the loop makes at most one attempt more than that; it returns the
  first success, and with a budget the error it gives up with is never one that asks its caller to
  retry, while whether the resource may answer later still reads off the cause.\<close>

theorem retry_loop_gives_up_for_good:
  assumes "retry_loop p wins wakes op 0 = (r, waits)" and "0 < max_retries p"
  shows "length waits \<le> max_retries p
    \<and> list_all (retried p wins wakes op) [0..<length waits]
    \<and> (case r of
         Inr v \<Rightarrow> op (length waits) = Inr v
       | Inl e \<Rightarrow> retryability_of e = Fatal
           \<and> (e = Cancelled \<or> (\<exists>f. op (length waits) = Inl f \<and> can_answer_later e = can_answer_later f)))"
proof -
  note run = retry_loop_run [OF assms(1), simplified]
  have "length waits \<le> max_retries p"
  proof (cases "length waits")
    case (Suc n)
    then have "retried p wins wakes op n"
      using run by (simp add: list_all_iff)
    then show ?thesis
      using Suc by (auto simp: retried_def should_retry_def split: sum.splits if_splits)
  qed simp
  then show ?thesis
    using run promoted_final [OF assms(2)]
    by (auto simp: final_outcome_def split: sum.splits if_splits)
qed

text \<open>The wait grows with the attempt and stays under the cap, up to the attempt at which the power
  of two leaves its 32 bits; from there on there is no wait at all.\<close>

lemma delay_grows:
  assumes "j \<le> k" "k \<le> 32"
  shows "delay_for_attempt p j \<le> delay_for_attempt p k \<and> delay_for_attempt p k \<le> max_delay p"
proof -
  have "2 ^ (k - 1) < (2 :: nat) ^ 32" "2 ^ (j - 1) < (2 :: nat) ^ 32"
    by (rule power_strict_increasing; use assms in simp)+
  moreover have "2 ^ (j - 1) \<le> (2 :: nat) ^ (k - 1)"
    using assms by (auto intro: power_increasing)
  ultimately show ?thesis
    using assms(1) by (auto simp: delay_for_attempt_def intro: min.coboundedI1 mult_le_mono2)
qed

text \<open>C13: the exponential backoff ends at the 33rd retry: the factor is a power taken in 32 bits, so
  under a policy that allows that many retries every later retry goes out with no wait, the cap
  notwithstanding.\<close>

theorem backoff_vanishes:
  "delay_for_attempt p (33 + n) = 0"
proof -
  have "(2 :: nat) ^ (32 + n) mod 2 ^ 32 = 0"
    by (simp only: power_add mod_mult_self1_is_0)
  then show ?thesis
    by (simp add: delay_for_attempt_def)
qed

definition demo_policy :: retry_policy where
  "demo_policy = \<lparr>base_delay = 100, max_delay = 250, max_retries = 3\<rparr>"

lemma demo_retry:
  "retry_loop demo_policy (\<lambda>_. False) (\<lambda>_. False) (\<lambda>_. (Inl Timeout :: (net_error, nat) result)) 0
    = (Inl (RetryExhausted 3 Timeout), [0, 100, 200])"
  by (simp add: retry_loop.simps should_retry_def demo_policy_def promoted_def delay_for_attempt_def)

lemma retry_loop_gives_up_for_good_witness:
  "length [0 :: nat, 100, 200] \<le> max_retries demo_policy
    \<and> list_all (retried demo_policy (\<lambda>_. False) (\<lambda>_. False) (\<lambda>_. (Inl Timeout :: (net_error, nat) result)))
        [0..<length [0 :: nat, 100, 200]]
    \<and> retryability_of (RetryExhausted 3 Timeout) = Fatal"
  using retry_loop_gives_up_for_good [OF demo_retry] by (simp add: demo_policy_def)

end
