(* ===== verification/Hls_Flow.thy ===== *)
theory Hls_Flow
  imports Hls_Slot Plan_Queue Net_Retry
begin

text \<open>
  The fetch flow of an HLS variant: the plan, the slots and the claims together
  (\<open>crates/kithara-hls/src/variant/flow/queue.rs\<close>, \<open>flow/evict.rs\<close>,
  \<open>flow/size.rs\<close>, the hand-over points of \<open>variant/io/dispatch.rs\<close> and
  \<open>io/fetch.rs\<close>, and the settles of \<open>segment/fetch.rs\<close>).  A planned fetch is in the
  queue, in the hands of the dispatcher or of a settle that is about to return it, or in flight under
  a claim; the events of the model are the points at which it changes hands, so a run interleaves
  dispatch, downloads, evictions, readers and rebuilds freely.  Which of them comes next is the
  choice of the run: the look-ahead caps and budgets of the dispatcher only narrow it.
\<close>

subsection \<open>Variant state\<close>

record flow =
  plan :: plan_queue
  init_slot :: "slot option"
  media :: "slot list"
  claims :: "(planned_fetch \<times> u64) list"
  hand :: "(planned_fetch \<times> u64) list"

definition flow_new :: "bool \<Rightarrow> nat \<Rightarrow> flow" where
  "flow_new has_init n =
     \<lparr>plan = plan_new n, init_slot = (if has_init then Some slot_missing else None),
      media = replicate n slot_missing, claims = [], hand = []\<rparr>"

definition entry :: "planned_fetch \<Rightarrow> flow \<Rightarrow> slot option" where
  "entry p v =
     (case p of Init \<Rightarrow> init_slot v
        | Segment i \<Rightarrow> if i < length (media v) then Some (media v ! i) else None)"

definition set_entry :: "planned_fetch \<Rightarrow> slot \<Rightarrow> flow \<Rightarrow> flow" where
  "set_entry p s v =
     (case p of Init \<Rightarrow> v\<lparr>init_slot := Some s\<rparr> | Segment i \<Rightarrow> v\<lparr>media := (media v)[i := s]\<rparr>)"

definition num_segments :: "flow \<Rightarrow> nat" where
  "num_segments v = min u32_max (length (media v))"

definition segment_loaded :: "nat \<Rightarrow> flow \<Rightarrow> bool" where
  "segment_loaded i v \<longleftrightarrow> i < length (media v) \<and> is_loaded (media v ! i)"

definition needs_init_fetch :: "flow \<Rightarrow> bool" where
  "needs_init_fetch v = (case init_slot v of None \<Rightarrow> False | Some s \<Rightarrow> \<not> is_loaded s)"

subsection \<open>Rebuilding the plan\<close>

definition download_head :: "flow \<Rightarrow> nat" where
  "download_head v =
     min u32_max (case position (\<lambda>s. \<not> is_loaded s) (media v) of Some i \<Rightarrow> i | None \<Rightarrow> length (media v))"

definition fetch_plan_satisfied :: "nat \<Rightarrow> flow \<Rightarrow> bool" where
  "fetch_plan_satisfied from_seg v \<longleftrightarrow>
     \<not> needs_init_fetch v \<and> list_all (\<lambda>i. segment_loaded i v) [from_seg..<num_segments v]"

definition queue_matches_plan :: "nat \<Rightarrow> flow \<Rightarrow> bool" where
  "queue_matches_plan from_seg v \<longleftrightarrow>
     fetch_plan_satisfied from_seg v
     \<and> \<not> list_ex (\<lambda>p. case p of Init \<Rightarrow> False | Segment i \<Rightarrow> i < from_seg \<and> \<not> segment_loaded i v) (queue (plan v))"

definition rebuild_queue :: "nat \<Rightarrow> nat option \<Rightarrow> flow \<Rightarrow> flow" where
  "rebuild_queue from_seg probe_seg v =
     v\<lparr>plan := replace_with (rebuild_plan (needs_init_fetch v) from_seg probe_seg (num_segments v)) (plan v)\<rparr>"

definition rebuild :: "nat \<Rightarrow> flow \<Rightarrow> flow" where
  "rebuild from_seg v =
     (if queue_matches_plan from_seg v then v\<lparr>plan := supersede (plan v)\<rparr> else rebuild_queue from_seg None v)"

definition seek_readahead_start_segment :: "bool \<Rightarrow> nat \<Rightarrow> nat" where
  "seek_readahead_start_segment needs_exact target_segment =
     (if needs_exact then target_segment else target_segment - 1)"

definition rebuild_with_decoder_probe :: "bool \<Rightarrow> nat \<Rightarrow> flow \<Rightarrow> flow" where
  "rebuild_with_decoder_probe needs_exact from_seg v =
     (let from_seg = seek_readahead_start_segment needs_exact from_seg
      in rebuild_queue from_seg (if 0 < from_seg then Some 0 else None) v)"

subsection \<open>Ends of a fetch\<close>

definition is_terminal_fetch_error :: "net_error \<Rightarrow> bool" where
  "is_terminal_fetch_error e \<longleftrightarrow> e \<noteq> Cancelled \<and> \<not> can_answer_later e"

datatype acquire_settle = AcquireRequeue | AcquireFail

definition settle_for :: "bool \<Rightarrow> nat \<Rightarrow> nat \<Rightarrow> acquire_settle" where
  "settle_for tmp_claimed failures budget =
     (if tmp_claimed then AcquireRequeue
      else if failures < budget then AcquireRequeue else AcquireFail)"

text \<open>How a fetch ends: \<open>Settled cancelled error committed\<close> is the completion of its download,
  the others end in the dispatcher: the resource cannot be acquired, it is committed already, its
  acquisition is of a kind the dispatcher does not know, or the claim is dropped.\<close>

datatype fetch_exit =
    Settled bool "net_error option" bool
  | Unacquirable bool nat
  | AlreadyCommitted
  | UnknownAcquisition
  | DroppedClaim

text \<open>\<open>settle_inner\<close>: the transition and whether the settle puts the work back.\<close>

definition settle_inner :: "bool \<Rightarrow> net_error option \<Rightarrow> bool \<Rightarrow> claim_end \<times> bool" where
  "settle_inner cancelled error committed =
     (if cancelled then (EndMissing, True)
      else case error of
        None \<Rightarrow> if committed then (EndLoaded, False) else (EndMissing, False)
      | Some e \<Rightarrow> if is_terminal_fetch_error e then (EndFailed, False) else (EndMissing, True))"

definition settle_unacquirable :: "bool \<Rightarrow> nat \<Rightarrow> slot \<Rightarrow> (claim_end \<times> bool) \<times> slot" where
  "settle_unacquirable tmp_claimed budget s =
     (let (failures, s') = note_acquire_failure s
      in (case settle_for tmp_claimed failures budget of
            AcquireRequeue \<Rightarrow> (EndMissing, True) | AcquireFail \<Rightarrow> (EndFailed, False), s'))"

definition exit_end :: "fetch_exit \<Rightarrow> slot \<Rightarrow> (claim_end \<times> bool) \<times> slot" where
  "exit_end x s =
     (case x of
        Settled cancelled error committed \<Rightarrow> (settle_inner cancelled error committed, s)
      | Unacquirable tmp_claimed budget \<Rightarrow> settle_unacquirable tmp_claimed budget s
      | AlreadyCommitted \<Rightarrow> ((EndLoaded, False), s)
      | UnknownAcquisition \<Rightarrow> ((EndMissing, True), s)
      | DroppedClaim \<Rightarrow> ((EndDropped, False), s))"

subsection \<open>Events\<close>

datatype flow_event =
    Pop
  | Claims planned_fetch u64
  | Skip planned_fetch u64
  | Return planned_fetch u64
  | Exit planned_fetch u64 fetch_exit
  | Acquires planned_fetch
  | RunsSlow planned_fetch
  | Evicts planned_fetch
  | WaitsFor nat
  | NeedsBody planned_fetch
  | Rebuilds nat
  | RebuildsWithProbe bool nat

text \<open>A dispatcher that popped an entry claims its slot, or forgets the entry when there is no such
  slot or it is loaded or failed, or returns the entry to the plan; \<open>Return\<close> is also the second
  half of a settle or a drop that leaves the slot missing.\<close>

definition claim_entry :: "planned_fetch \<Rightarrow> u64 \<Rightarrow> flow \<Rightarrow> flow option" where
  "claim_entry p r v =
     (case entry p v of
        None \<Rightarrow> None
      | Some s \<Rightarrow> (case try_claim s of
          (False, s') \<Rightarrow> None
        | (True, s') \<Rightarrow> Some (set_entry p s' (v\<lparr>hand := remove1 (p, r) (hand v), claims := (p, r) # claims v\<rparr>))))"

definition exit_entry :: "planned_fetch \<Rightarrow> u64 \<Rightarrow> fetch_exit \<Rightarrow> flow \<Rightarrow> flow option" where
  "exit_entry p r x v =
     (case entry p v of
        None \<Rightarrow> None
      | Some s \<Rightarrow>
          (let ((e, returned), s1) = exit_end x s; (s2, owed) = end_claim e s1
           in Some (set_entry p s2 (v\<lparr>claims := remove1 (p, r) (claims v),
                hand := (if returned \<or> owed then (p, r) # hand v else hand v)\<rparr>))))"

definition slot_settled :: "planned_fetch \<Rightarrow> flow \<Rightarrow> bool" where
  "slot_settled p v = (case entry p v of None \<Rightarrow> False | Some s \<Rightarrow> is_loaded s \<or> is_failed s)"

definition apply_event :: "flow_event \<Rightarrow> flow \<Rightarrow> flow option" where
  "apply_event e v =
     (case e of
        Pop \<Rightarrow> (case pop_front (plan v) of
            (None, q) \<Rightarrow> None | (Some pr, q) \<Rightarrow> Some (v\<lparr>plan := q, hand := pr # hand v\<rparr>))
      | Claims p r \<Rightarrow> if (p, r) \<in> set (hand v) then claim_entry p r v else None
      | Skip p r \<Rightarrow> if (p, r) \<in> set (hand v) \<and> (entry p v = None \<or> slot_settled p v)
          then Some (v\<lparr>hand := remove1 (p, r) (hand v)\<rparr>) else None
      | Return p r \<Rightarrow> if (p, r) \<in> set (hand v)
          then Some (v\<lparr>plan := snd (requeue_if_current p r (plan v)), hand := remove1 (p, r) (hand v)\<rparr>) else None
      | Exit p r x \<Rightarrow> if (p, r) \<in> set (claims v) then exit_entry p r x v else None
      | Acquires p \<Rightarrow> if p \<in> fst ` set (claims v)
          then map_option (\<lambda>s. set_entry p (clear_acquire_failures s) v) (entry p v) else None
      | RunsSlow p \<Rightarrow> if p \<in> fst ` set (claims v)
          then map_option (\<lambda>s. set_entry p (mark_slow s) v) (entry p v) else None
      | Evicts p \<Rightarrow> map_option (\<lambda>s. set_entry p (mark_evicted s) v) (entry p v)
      | WaitsFor i \<Rightarrow> (case entry (Segment i) v of
            None \<Rightarrow> None
          | Some s \<Rightarrow> if \<not> is_loaded s \<and> \<not> is_failed s \<and> \<not> is_downloading s
              then Some (v\<lparr>plan := prioritize_segment i (plan v)\<rparr>) else None)
      | NeedsBody p \<Rightarrow> Some (v\<lparr>plan := enqueue_body_fetch p (plan v)\<rparr>)
      | Rebuilds from_seg \<Rightarrow> Some (rebuild from_seg v)
      | RebuildsWithProbe needs_exact from_seg \<Rightarrow> Some (rebuild_with_decoder_probe needs_exact from_seg v))"

fun flow_run :: "flow_event list \<Rightarrow> flow \<Rightarrow> flow option" where
  "flow_run [] v = Some v"
| "flow_run (e # es) v = Option.bind (apply_event e v) (flow_run es)"

subsection \<open>Claims and slots agree\<close>

lemma entry_set_entry:
  "entry p' v \<noteq> None \<Longrightarrow> entry p (set_entry p' s v) = (if p = p' then Some s else entry p v)"
  by (auto simp: entry_def set_entry_def nth_list_update split: planned_fetch.splits if_splits)

lemma set_entry_fields [simp]:
  "plan (set_entry p s v) = plan v" "claims (set_entry p s v) = claims v" "hand (set_entry p s v) = hand v"
  by (simp_all add: set_entry_def split: planned_fetch.split)

lemma entry_update [simp]:
  "entry p (v\<lparr>plan := q\<rparr>) = entry p v" "entry p (v\<lparr>claims := c\<rparr>) = entry p v" "entry p (v\<lparr>hand := h\<rparr>) = entry p v"
  by (simp_all add: entry_def split: planned_fetch.split)

lemma entry_rebuild [simp]:
  "entry p (rebuild_queue from_seg probe v) = entry p v" "entry p (rebuild from_seg v) = entry p v"
  by (simp_all add: rebuild_queue_def rebuild_def)

lemma rebuild_fields [simp]:
  "claims (rebuild_queue from_seg probe v) = claims v" "claims (rebuild from_seg v) = claims v"
  "hand (rebuild_queue from_seg probe v) = hand v" "hand (rebuild from_seg v) = hand v"
  by (simp_all add: rebuild_queue_def rebuild_def)

definition claimed :: "planned_fetch \<Rightarrow> flow \<Rightarrow> bool" where
  "claimed p v \<longleftrightarrow> p \<in> fst ` set (claims v)"

definition flow_inv :: "flow \<Rightarrow> bool" where
  "flow_inv v \<longleftrightarrow> distinct (map fst (claims v))
     \<and> (\<forall>p s. entry p v = Some s \<longrightarrow> slot_flags s \<in> set (if claimed p v then flight_bytes else settled_bytes))"

lemma exit_end_slot: "exit_end x s = ((e, returned), s1) \<Longrightarrow> slot_flags s1 = slot_flags s"
  by (cases x) (auto simp: exit_end_def settle_unacquirable_def note_acquire_failure_def Let_def)

lemma end_claim_flags: "slot_flags (fst (end_claim e s)) = end_bits e (slot_flags s)"
  by (auto simp: end_claim_def end_bits_def mark_loaded_def mark_failed_def mark_missing_def settle_def
      store_flags_def store_demand_def Let_def split: claim_end.split)

lemma claimed_remove:
  assumes "distinct (map fst (claims v))" "(p, r) \<in> set (claims v)"
  shows "claimed q (v\<lparr>claims := remove1 (p, r) (claims v)\<rparr>) = (q \<noteq> p \<and> claimed q v)"
proof -
  have "set (remove1 (p, r) (claims v)) = set (claims v) - {(p, r)}" "inj_on fst (set (claims v))"
    using assms(1) by (simp_all add: distinct_map set_remove1_eq)
  then have "fst ` set (remove1 (p, r) (claims v)) = fst ` set (claims v) - {p}"
    using inj_on_image_set_diff [of fst "set (claims v)" "set (claims v)" "{(p, r)}"] assms(2) by simp
  then show ?thesis
    by (simp add: claimed_def) blast
qed

lemma flow_inv_new: "flow_inv (flow_new has_init n)"
  by (auto simp: flow_inv_def flow_new_def entry_def claimed_def settled_bytes_def slot_missing_def
      split: planned_fetch.splits if_splits)

text \<open>What a successful event does to the entries and the claims, one rule per kind of change.\<close>

lemma flow_inv_same:
  assumes "flow_inv v" "claims v' = claims v" "\<And>p. entry p v' = entry p v"
  shows "flow_inv v'"
  using assms by (simp add: flow_inv_def claimed_def)

lemma flow_inv_set:
  assumes "flow_inv v" "claims v' = claims v" "\<And>q. entry q v' = (if q = p then Some s else entry q v)"
    and "slot_flags s \<in> set (if claimed p v then flight_bytes else settled_bytes)"
  shows "flow_inv v'"
  using assms by (auto simp: flow_inv_def claimed_def)

lemma flow_inv_slot:
  "flow_inv v \<Longrightarrow> entry p v = Some s \<Longrightarrow> slot_flags s \<in> set (if claimed p v then flight_bytes else settled_bytes)"
  by (simp add: flow_inv_def)

lemma claim_entry_Some:
  assumes "claim_entry p r v = Some v'"
  obtains s where "entry p v = Some s" "slot_flags s = 0" "plan v' = plan v"
    "claims v' = (p, r) # claims v" "hand v' = remove1 (p, r) (hand v)"
    "\<And>q. entry q v' = (if q = p then Some (store_flags DOWNLOADING s) else entry q v)"
  using assms
  by (auto simp: claim_entry_def try_claim_def entry_set_entry split: option.splits if_splits)

lemma exit_entry_Some:
  assumes "exit_entry p r x v = Some v'"
  obtains s e returned s1 where "entry p v = Some s" "exit_end x s = ((e, returned), s1)" "plan v' = plan v"
    "claims v' = remove1 (p, r) (claims v)"
    "hand v' = (if returned \<or> snd (end_claim e s1) then (p, r) # hand v else hand v)"
    "\<And>q. entry q v' = (if q = p then Some (fst (end_claim e s1)) else entry q v)"
proof -
  from assms obtain s where s: "entry p v = Some s"
    by (auto simp: exit_entry_def split: option.splits)
  obtain e returned s1 where x: "exit_end x s = ((e, returned), s1)"
    by (metis prod.exhaust)
  show thesis
    by (rule that [OF s x]) (use assms in \<open>auto simp: exit_entry_def s x entry_set_entry split: prod.splits\<close>)
qed

lemma flow_inv_claim:
  assumes "flow_inv v" "claim_entry p r v = Some v'"
  shows "flow_inv v'"
proof -
  from claim_entry_Some [OF assms(2)] obtain s where s: "entry p v = Some s" "slot_flags s = 0"
      "claims v' = (p, r) # claims v" "\<And>q. entry q v' = (if q = p then Some (store_flags DOWNLOADING s) else entry q v)"
    by blast
  have free: "\<not> claimed p v"
    using flow_inv_slot [OF assms(1) s(1)] s(2) flight_updates(1) by (auto split: if_splits)
  show ?thesis
    using assms(1) free
    by (auto simp: flow_inv_def claimed_def s(3,4) store_flags_def flight_bytes_def)
qed

lemma flow_inv_exit:
  assumes "flow_inv v" "(p, r) \<in> set (claims v)" "exit_entry p r x v = Some v'"
  shows "flow_inv v'"
proof -
  from exit_entry_Some [OF assms(3)] obtain s e returned s1 where s: "entry p v = Some s" "exit_end x s = ((e, returned), s1)"
      "claims v' = remove1 (p, r) (claims v)" "\<And>q. entry q v' = (if q = p then Some (fst (end_claim e s1)) else entry q v)"
    by metis
  have dist: "distinct (map fst (claims v))"
    using assms(1) by (simp add: flow_inv_def)
  have "claimed q v' = (q \<noteq> p \<and> claimed q v)" for q
    using claimed_remove [OF dist assms(2), of q] by (simp add: claimed_def s(3))
  moreover have "distinct (map fst (claims v'))"
    using dist by (auto simp: s(3) distinct_map intro: inj_on_diff)
  ultimately show ?thesis
    using assms(1) by (auto simp: flow_inv_def s(4) end_claim_flags end_bits_settled)
qed

lemma flow_inv_touch:
  assumes "flow_inv v" "entry p v = Some s"
    and "\<And>b. b \<in> set (if claimed p v then flight_bytes else settled_bytes) \<Longrightarrow>
      f b \<in> set (if claimed p v then flight_bytes else settled_bytes)"
    and "slot_flags s' = f (slot_flags s)"
  shows "flow_inv (set_entry p s' v)"
  by (rule flow_inv_set [OF assms(1), where p = p and s = s'])
     (use assms(2-4) flow_inv_slot [OF assms(1,2)] in \<open>auto simp: entry_set_entry\<close>)

lemma flow_inv_event:
  assumes "flow_inv v" "apply_event e v = Some v'"
  shows "flow_inv v'"
proof (cases e)
  case (Claims p r)
  then show ?thesis
    using assms flow_inv_claim by (auto simp: apply_event_def split: if_splits)
next
  case (Exit p r x)
  then show ?thesis
    using assms flow_inv_exit by (auto simp: apply_event_def split: if_splits)
next
  case (Acquires p)
  then obtain s where s: "entry p v = Some s" "v' = set_entry p (clear_acquire_failures s) v"
    using assms(2) by (auto simp: apply_event_def split: if_splits)
  show ?thesis
    unfolding s(2) by (rule flow_inv_touch [OF assms(1) s(1), of "\<lambda>b. b"]) (simp_all add: clear_acquire_failures_def)
next
  case (RunsSlow p)
  then obtain s where s: "entry p v = Some s" "claimed p v" "v' = set_entry p (mark_slow s) v"
    using assms(2) by (auto simp: apply_event_def claimed_def split: if_splits)
  show ?thesis
    unfolding s(3) by (rule flow_inv_touch [OF assms(1) s(1), of "\<lambda>b. b OR SLOW"])
      (use s(2) flight_updates(4) in \<open>simp_all add: mark_slow_def store_flags_def\<close>)
next
  case (Evicts p)
  then obtain s where s: "entry p v = Some s" "v' = set_entry p (mark_evicted s) v"
    using assms(2) by (auto simp: apply_event_def)
  show ?thesis
    unfolding s(2) by (rule flow_inv_touch [OF assms(1) s(1), of evicted_update])
      (use flight_updates(2) settled_updates(1) in \<open>auto simp: mark_evicted_def store_flags_def settled_bytes_def\<close>)
next
  case (WaitsFor i)
  then obtain s where "v' = v\<lparr>plan := prioritize_segment i (plan v)\<rparr>"
    using assms(2) by (auto simp: apply_event_def split: option.splits if_splits)
  then show ?thesis
    by (intro flow_inv_same [OF assms(1)]) simp_all
next
  case Pop
  then show ?thesis
    using assms(2) by (intro flow_inv_same [OF assms(1)]) (auto simp: apply_event_def split: prod.splits option.splits)
next
  case (RebuildsWithProbe needs_exact from_seg)
  then show ?thesis
    using assms(2) by (intro flow_inv_same [OF assms(1)]) (auto simp: apply_event_def rebuild_with_decoder_probe_def Let_def)
qed (use assms in \<open>auto simp: apply_event_def split: if_splits intro!: flow_inv_same [OF assms(1)]\<close>)

lemma flow_run_inv: "flow_inv v \<Longrightarrow> flow_run es v = Some v' \<Longrightarrow> flow_inv v'"
  by (induction es arbitrary: v) (auto simp: bind_eq_Some_conv intro: flow_inv_event)

text \<open>C2: over a whole variant no entry is ever fetched twice at once: whatever the plan, the
  dispatcher, the downloads, the evictions and the readers do, the live claims are of different
  entries, and an entry's slot reads as downloading exactly while one of them is its own.\<close>

theorem one_fetch_per_entry:
  assumes "flow_run es (flow_new has_init n) = Some v" and "entry p v = Some s"
  shows "distinct (map fst (claims v)) \<and> is_downloading s = (p \<in> set (map fst (claims v)))"
proof -
  have inv: "flow_inv v"
    using flow_run_inv [OF flow_inv_new assms(1)] .
  then show ?thesis
    using flow_inv_slot [OF inv assms(2)] settled_updates(2) flight_updates(6)
    by (auto simp: flow_inv_def claimed_def is_downloading_def flags_def split: if_splits)
qed

subsection \<open>No fetch is lost\<close>

text \<open>An entry is accounted for when its slot is loaded or failed, or the current plan holds it, or a
  holder that will bring it back under the current plan does.\<close>

definition covered :: "planned_fetch \<Rightarrow> flow \<Rightarrow> bool" where
  "covered p v \<longleftrightarrow> slot_settled p v \<or> p \<in> set (queue (plan v))
     \<or> (p, revision (plan v)) \<in> set (claims v) \<union> set (hand v)"

text \<open>The events that may take an entry out of account: a new plan, the eviction of its bytes, and a
  download whose commit fails.\<close>

definition loses :: "planned_fetch \<Rightarrow> flow_event \<Rightarrow> bool" where
  "loses p e =
     (case e of
        Rebuilds from_seg \<Rightarrow> True
      | RebuildsWithProbe needs_exact from_seg \<Rightarrow> True
      | Evicts q \<Rightarrow> q = p
      | Exit q r x \<Rightarrow> q = p \<and> x = Settled False None False
      | _ \<Rightarrow> False)"

lemma slot_settled_update [simp]:
  "slot_settled p (v\<lparr>plan := q\<rparr>) = slot_settled p v" "slot_settled p (v\<lparr>claims := c\<rparr>) = slot_settled p v"
  "slot_settled p (v\<lparr>hand := h\<rparr>) = slot_settled p v"
  by (simp_all add: slot_settled_def)

lemma settled_not_claimed:
  assumes "flow_inv v" "slot_settled p v"
  shows "\<not> claimed p v"
  using assms flow_inv_slot [OF assms(1), of p] flight_updates(7,8)
  by (auto simp: slot_settled_def is_loaded_def is_failed_def flags_def split: option.splits if_splits)

lemma requeue_queue:
  "set (queue q) \<subseteq> set (queue (snd (requeue_if_current p r q)))"
  "revision (snd (requeue_if_current p r q)) = revision q"
  "r = revision q \<Longrightarrow> p \<in> set (queue (snd (requeue_if_current p r q)))"
  by (cases rule: requeue_cases [of p r q]; auto)+

lemma prioritize_queue:
  "set (queue q) \<subseteq> set (queue (prioritize_segment i q))" "revision (prioritize_segment i q) = revision q"
proof -
  have "x \<in> set (remove1 (Segment i) (queue q))" if "x \<in> set (queue q)" "x \<noteq> Segment i" for x
    using that by simp
  then show "set (queue q) \<subseteq> set (queue (prioritize_segment i q))"
    by (simp only: prioritized_queue set_insert_at) blast
  show "revision (prioritize_segment i q) = revision q"
    by (simp add: prioritize_segment_def Let_def)
qed

lemma enqueue_body_queue:
  "set (queue q) \<subseteq> set (queue (enqueue_body_fetch p q))" "revision (enqueue_body_fetch p q) = revision q"
  by (auto simp: enqueue_body_fetch_def push_front_def)

lemma covered_plan:
  assumes "covered p v" "set (queue (plan v)) \<subseteq> set (queue q)" "revision q = revision (plan v)"
  shows "covered p (v\<lparr>plan := q\<rparr>)"
  using assms by (auto simp: covered_def)

lemma covered_touch:
  assumes "covered p v" "entry q v = Some s" "q = p \<Longrightarrow> is_loaded s \<or> is_failed s \<Longrightarrow> is_loaded s' \<or> is_failed s'"
  shows "covered p (set_entry q s' v)"
  using assms by (auto simp: covered_def slot_settled_def entry_set_entry)

lemma exit_settles:
  assumes "exit_end x s = ((e, returned), s1)" "\<not> (returned \<or> snd (end_claim e s1))" "x \<noteq> Settled False None False"
  shows "is_loaded (fst (end_claim e s1)) \<or> is_failed (fst (end_claim e s1))"
proof -
  have "e = EndFailed \<or> e = EndLoaded \<and> \<not> snd (end_claim EndLoaded s1)"
    using assms
    by (cases x) (auto simp: exit_end_def settle_inner_def settle_unacquirable_def end_claim_def Let_def
      split: prod.splits option.splits if_splits acquire_settle.splits)
  then show ?thesis
    by (auto simp: end_claim_def mark_failed_def settle_def mark_loaded_def loaded_update_def store_flags_def
        store_demand_def is_loaded_def is_failed_def flags_def contains_def from_bits_truncate_def flag_defs Let_def)
qed

lemma covered_claim:
  assumes "flow_inv v" "claim_entry p r v = Some v'" "covered q v"
  shows "covered q v'"
proof -
  from claim_entry_Some [OF assms(2)] obtain s where s: "entry p v = Some s" "slot_flags s = 0" "plan v' = plan v"
      "claims v' = (p, r) # claims v" "hand v' = remove1 (p, r) (hand v)"
      "\<And>q. entry q v' = (if q = p then Some (store_flags DOWNLOADING s) else entry q v)"
    by metis
  have "\<not> slot_settled p v"
    by (simp add: slot_settled_def s(1,2) is_loaded_def is_failed_def flags_def contains_def from_bits_truncate_def flag_defs)
  then have "slot_settled q v \<Longrightarrow> slot_settled q v'"
    by (auto simp: slot_settled_def s(6))
  moreover have "x \<in> set (claims v) \<union> set (hand v) \<Longrightarrow> x \<in> set (claims v') \<union> set (hand v')" for x
    by (cases "x = (p, r)") (auto simp: s(4,5))
  ultimately show ?thesis
    using assms(3) by (auto simp: covered_def s(3))
qed

lemma covered_exit:
  assumes "flow_inv v" "(p, r) \<in> set (claims v)" "exit_entry p r x v = Some v'" "covered q v"
    and "\<not> (q = p \<and> x = Settled False None False)"
  shows "covered q v'"
proof -
  from exit_entry_Some [OF assms(3)] obtain s e returned s1 where s: "entry p v = Some s"
      "exit_end x s = ((e, returned), s1)" "plan v' = plan v" "claims v' = remove1 (p, r) (claims v)"
      "hand v' = (if returned \<or> snd (end_claim e s1) then (p, r) # hand v else hand v)"
      "\<And>q. entry q v' = (if q = p then Some (fst (end_claim e s1)) else entry q v)"
    by metis
  show ?thesis
  proof (cases "q = p")
    case True
    have "\<not> slot_settled p v"
      using settled_not_claimed [OF assms(1), of p] assms(2) by (force simp: claimed_def)
    then have still: "q \<in> set (queue (plan v)) \<or> (q, revision (plan v)) \<in> set (claims v) \<union> set (hand v)"
      using assms(4) True by (auto simp: covered_def)
    show ?thesis
    proof (cases "returned \<or> snd (end_claim e s1)")
      case True
      have "(q, revision (plan v)) \<in> set (claims v') \<union> set (hand v')"
        if "(q, revision (plan v)) \<in> set (claims v) \<union> set (hand v)"
        using that True by (cases "(q, revision (plan v)) = (p, r)") (auto simp: s(4,5))
      then show ?thesis
        using still by (auto simp: covered_def s(3))
    next
      case False
      then have "is_loaded (fst (end_claim e s1)) \<or> is_failed (fst (end_claim e s1))"
        using exit_settles [OF s(2)] assms(5) \<open>q = p\<close> by blast
      then show ?thesis
        by (simp add: covered_def slot_settled_def s(6) True \<open>q = p\<close>)
    qed
  next
    case False
    then show ?thesis
      using assms(4) by (auto simp: covered_def slot_settled_def s(3-6))
  qed
qed

lemma entry_event:
  assumes "apply_event e v = Some v'"
  shows "entry q v' = None \<longleftrightarrow> entry q v = None"
proof (cases e)
  case (Claims p r)
  then have "claim_entry p r v = Some v'"
    using assms by (simp add: apply_event_def split: if_splits)
  from claim_entry_Some [OF this] show ?thesis
    by (metis option.distinct(1))
next
  case (Exit p r x)
  then have "exit_entry p r x v = Some v'"
    using assms by (simp add: apply_event_def split: if_splits)
  from exit_entry_Some [OF this] show ?thesis
    by (metis option.distinct(1))
qed (use assms in \<open>auto simp: apply_event_def entry_set_entry rebuild_with_decoder_probe_def Let_def
  split: if_splits option.splits prod.splits\<close>)

lemma covered_event:
  assumes "flow_inv v" "apply_event e v = Some v'" "\<not> loses q e" "covered q v" "entry q v \<noteq> None"
  shows "covered q v'"
proof (cases e)
  case (Claims p r)
  then show ?thesis
    using assms covered_claim by (auto simp: apply_event_def split: if_splits)
next
  case (Exit p r x)
  then show ?thesis
    using assms covered_exit [OF assms(1) _ _ assms(4)] by (auto simp: apply_event_def loses_def split: if_splits)
next
  case Pop
  then obtain p rest where front: "queue (plan v) = p # rest"
      "v' = v\<lparr>plan := snd (pop_front (plan v)), hand := (p, revision (plan v)) # hand v\<rparr>"
    using assms(2) by (auto simp: apply_event_def pop_front_def split: list.splits)
  then show ?thesis
    using assms(4) by (auto simp: covered_def pop_front_fields)
next
  case (Skip p r)
  then have v': "v' = v\<lparr>hand := remove1 (p, r) (hand v)\<rparr>" "entry p v = None \<or> slot_settled p v"
    using assms(2) by (auto simp: apply_event_def split: if_splits)
  show ?thesis
  proof (cases "q = p")
    case True
    then show ?thesis
      using v' assms(5) by (auto simp: covered_def)
  next
    case False
    then have "(q, revision (plan v)) \<in> set (hand v') \<longleftrightarrow> (q, revision (plan v)) \<in> set (hand v)"
      by (simp add: v'(1))
    then show ?thesis
      using assms(4) by (simp add: covered_def v'(1))
  qed
next
  case (Return p r)
  then have v': "v' = v\<lparr>plan := snd (requeue_if_current p r (plan v)), hand := remove1 (p, r) (hand v)\<rparr>"
    using assms(2) by (auto simp: apply_event_def split: if_splits)
  have "(q, revision (plan v)) \<in> set (hand v') \<or> q \<in> set (queue (plan v'))" if "(q, revision (plan v)) \<in> set (hand v)"
    using that requeue_queue(3) [of r "plan v" p] by (cases "(q, revision (plan v)) = (p, r)") (auto simp: v')
  then show ?thesis
    using assms(4) requeue_queue(1,2) [where q = "plan v" and p = p and r = r] by (auto simp: covered_def v')
next
  case (Acquires p)
  then obtain s where "entry p v = Some s" "v' = set_entry p (clear_acquire_failures s) v"
    using assms(2) by (auto simp: apply_event_def split: if_splits)
  then show ?thesis
    using covered_touch [OF assms(4)] by (simp add: clear_acquire_failures_def is_loaded_def is_failed_def flags_def)
next
  case (RunsSlow p)
  then obtain s where s: "entry p v = Some s" "claimed p v" "v' = set_entry p (mark_slow s) v"
    using assms(2) by (auto simp: apply_event_def claimed_def split: if_splits)
  then have "\<not> (is_loaded s \<or> is_failed s)"
    using settled_not_claimed [OF assms(1), of p] by (auto simp: slot_settled_def)
  then show ?thesis
    unfolding s(3) using covered_touch [OF assms(4) s(1)] by blast
next
  case (Evicts p)
  then obtain s where "entry p v = Some s" "v' = set_entry p (mark_evicted s) v" "q \<noteq> p"
    using assms(2,3) by (auto simp: apply_event_def loses_def)
  then show ?thesis
    using covered_touch [OF assms(4)] by blast
next
  case (WaitsFor i)
  then have "v' = v\<lparr>plan := prioritize_segment i (plan v)\<rparr>"
    using assms(2) by (auto simp: apply_event_def split: option.splits if_splits)
  then show ?thesis
    using covered_plan [OF assms(4) prioritize_queue] by simp
next
  case (NeedsBody p)
  then show ?thesis
    using assms(2) covered_plan [OF assms(4) enqueue_body_queue] by (auto simp: apply_event_def)
qed (use assms(3) in \<open>auto simp: loses_def\<close>)

lemma covered_run:
  "flow_inv v \<Longrightarrow> flow_run es v = Some v' \<Longrightarrow> \<not> list_ex (loses p) es \<Longrightarrow> covered p v \<Longrightarrow> entry p v \<noteq> None \<Longrightarrow>
    covered p v'"
proof (induction es arbitrary: v)
  case (Cons e es)
  then obtain v1 where v1: "apply_event e v = Some v1" "flow_run es v1 = Some v'"
    by (auto simp: bind_eq_Some_conv)
  show ?case
    by (rule Cons.IH [OF flow_inv_event [OF Cons.prems(1) v1(1)] v1(2)])
       (use Cons.prems v1(1) covered_event entry_event in auto)
qed simp

lemma rebuild_covers:
  assumes "p \<in> set (rebuild_plan (needs_init_fetch v) from_seg None (num_segments v))"
  shows "covered p (rebuild from_seg v)" "entry p v \<noteq> None"
proof -
  show "entry p v \<noteq> None"
    using assms by (auto simp: set_rebuild_plan entry_def needs_init_fetch_def num_segments_def split: option.splits)
  show "covered p (rebuild from_seg v)"
  proof (cases "queue_matches_plan from_seg v")
    case True
    then have sat: "\<not> needs_init_fetch v" "list_all (\<lambda>i. segment_loaded i v) [from_seg..<num_segments v]"
      by (simp_all add: queue_matches_plan_def fetch_plan_satisfied_def)
    then obtain i where i: "p = Segment i" "segment_loaded i v"
      using assms by (auto simp: set_rebuild_plan list_all_iff)
    then have "slot_settled p v"
      by (simp add: slot_settled_def entry_def segment_loaded_def)
    then show ?thesis
      by (simp add: covered_def rebuild_def True)
  next
    case False
    then show ?thesis
      using assms replaced(2) [OF distinct_rebuild_plan] by (simp add: covered_def rebuild_def rebuild_queue_def)
  qed
qed

text \<open>C1: no fetch is lost: after a rebuild, every entry of its plan stays accounted for through any
  interleaving of pops, claims, returns, cancelled, failed and overtaken downloads, drops, refused
  acquisitions, promotions and size demands, until the next rebuild: its slot is loaded or failed, or
  the plan holds it, or it is in flight or in hand under the revision that brings it back.  Only its
  own eviction and a download of it whose commit fails are excluded.\<close>

theorem no_fetch_is_lost:
  assumes "flow_run es (flow_new has_init n) = Some v"
    and "p \<in> set (rebuild_plan (needs_init_fetch v) from_seg None (num_segments v))"
    and "flow_run es' (rebuild from_seg v) = Some v'" and "\<not> list_ex (loses p) es'"
  shows "slot_settled p v' \<or> p \<in> set (queue (plan v'))
    \<or> (p, revision (plan v')) \<in> set (claims v') \<union> set (hand v')"
proof -
  have "flow_inv (rebuild from_seg v)"
    using flow_run_inv [OF flow_inv_new assms(1)] by (rule flow_inv_same) simp_all
  from covered_run [OF this assms(3,4)] show ?thesis
    using rebuild_covers [OF assms(2)] by (simp add: covered_def)
qed

text \<open>A fetch is forgotten when its slot could be claimed and nothing would ever do so before the next
  rebuild.\<close>

definition forgotten :: "planned_fetch \<Rightarrow> flow \<Rightarrow> bool" where
  "forgotten p v \<longleftrightarrow> map_option slot_flags (entry p v) = Some 0 \<and> p \<notin> set (queue (plan v))
     \<and> p \<notin> fst ` set (hand v) \<and> p \<notin> fst ` set (claims v)"

lemma failed_commit_exits: "exit_end (Settled False None False) s = ((EndMissing, False), s)"
  by (simp add: exit_end_def settle_inner_def)

lemma settled_flags: "is_loaded s \<or> is_failed s \<Longrightarrow> slot_flags s \<noteq> 0"
  by (auto simp: is_loaded_def is_failed_def flags_def contains_def from_bits_truncate_def flag_defs)


subsection \<open>A variant at work\<close>

text \<open>Three segments and no init, planned from the second one, which is in flight.\<close>

definition demo_flow :: flow where
  "demo_flow =
     \<lparr>plan = \<lparr>init_planned = False, revision = 1, segments_planned = [False, False, True], queue = [Segment 2]\<rparr>,
      init_slot = None, media = [slot_missing, slot_missing\<lparr>slot_flags := DOWNLOADING\<rparr>, slot_missing],
      claims = [(Segment 1, 1)], hand = []\<rparr>"

lemmas demo_flow_simps = apply_event_def rebuild_def rebuild_queue_def rebuild_plan_def queue_matches_plan_def
  fetch_plan_satisfied_def segment_loaded_def needs_init_fetch_def num_segments_def flow_new_def plan_new_def
  replace_with_def supersede_def mark_def pop_front_def claim_entry_def entry_def set_entry_def try_claim_def
  store_flags_def slot_missing_def is_loaded_def is_failed_def flags_def contains_def from_bits_truncate_def flag_defs u32_max_def
  slot_settled_def

lemma demo_lists: "[1..<3] = [1, 2]" "[Suc 0..<3] = [1, 2]" "replicate 3 x = [x, x, x]"
  by (simp_all add: upt_conv_Cons eval_nat_numeral)

lemma demo_flow_run: "flow_run [Rebuilds 1, Pop, Claims (Segment 1) 1] (flow_new False 3) = Some demo_flow"
  by (simp add: demo_flow_simps demo_flow_def demo_lists)

lemma one_fetch_per_entry_witness:
  "distinct (map fst (claims demo_flow))
    \<and> is_downloading (slot_missing\<lparr>slot_flags := DOWNLOADING\<rparr>) = (Segment 1 \<in> set (map fst (claims demo_flow)))"
  by (rule one_fetch_per_entry [OF demo_flow_run]) (simp add: demo_flow_def entry_def)

text \<open>The second segment is cancelled and comes back.\<close>

definition demo_returned :: flow where
  "demo_returned =
     \<lparr>plan = \<lparr>init_planned = False, revision = 1, segments_planned = [False, True, True], queue = [Segment 1, Segment 2]\<rparr>,
      init_slot = None, media = [slot_missing, slot_missing, slot_missing], claims = [], hand = []\<rparr>"

lemma demo_flow_returns:
  "flow_run [Pop, Claims (Segment 1) 1, Exit (Segment 1) 1 (Settled True None False), Return (Segment 1) 1]
     (rebuild 1 (flow_new False 3)) = Some demo_returned"
  by (simp add: demo_returned_def demo_flow_simps demo_lists exit_entry_def exit_end_def settle_inner_def end_claim_def
      mark_missing_def settle_def store_demand_def requeue_if_current_def insert_at_def less_planned_fetch_def)

lemma no_fetch_is_lost_witness:
  "slot_settled (Segment 1) demo_returned \<or> Segment 1 \<in> set (queue (plan demo_returned))
    \<or> (Segment 1, revision (plan demo_returned)) \<in> set (claims demo_returned) \<union> set (hand demo_returned)"
proof (rule no_fetch_is_lost [of "[]", OF _ _ demo_flow_returns])
  show "Segment 1 \<in> set (rebuild_plan (needs_init_fetch (flow_new False 3)) 1 None (num_segments (flow_new False 3)))"
    by (simp add: demo_flow_simps demo_lists)
qed (simp_all add: loses_def)

definition demo_forgotten :: flow where
  "demo_forgotten = demo_flow\<lparr>claims := [], media := [slot_missing, slot_missing, slot_missing]\<rparr>"


end
