(* ===== verification/Net_Body.thy ===== *)
theory Net_Body
  imports Net_Retry "HOL-Library.Sublist"
begin

text \<open>
  Bodies that heal themselves (\<open>crates/kithara-net/src/resumable.rs\<close>), the validation of
  range responses they rest on (\<open>range_response.rs\<close>) and the requests of the client that
  establish them (\<open>client.rs\<close>).  The transport is a parameter: the outcome of the
  \<open>n\<close>-th request of a body.  What a body stream does next is an event; a list of events that
  runs out is the end of the stream.  Header values are ASCII, as HTTP has them.
\<close>

subsection \<open>Headers\<close>

definition to_ascii_lowercase :: "string \<Rightarrow> string" where
  "to_ascii_lowercase = map (\<lambda>c. let n = of_char c :: nat in if 65 \<le> n \<and> n \<le> 90 then char_of (n + 32) else c)"

definition eq_ignore_ascii_case :: "string \<Rightarrow> string \<Rightarrow> bool" where
  "eq_ignore_ascii_case a b = (to_ascii_lowercase a = to_ascii_lowercase b)"

type_synonym headers = "string \<rightharpoonup> string \<times> string"

definition headers_insert :: "string \<Rightarrow> string \<Rightarrow> headers \<Rightarrow> headers" where
  "headers_insert key v h = h(to_ascii_lowercase key \<mapsto> (key, v))"

definition headers_get :: "string \<Rightarrow> headers \<Rightarrow> string option" where
  "headers_get key h = map_option snd (h (to_ascii_lowercase key))"

text \<open>\<open>extract_headers\<close>: the raw headers in order, a later one replacing an earlier one.\<close>

definition extract_headers :: "(string \<times> string) list \<Rightarrow> headers" where
  "extract_headers raw = fold (\<lambda>(name, v). headers_insert name v) raw Map.empty"

subsection \<open>Parsing\<close>

definition is_space :: "char \<Rightarrow> bool" where
  "is_space c = (let n = of_char c :: nat in n = 32 \<or> 9 \<le> n \<and> n \<le> 13)"

definition trim :: "string \<Rightarrow> string" where
  "trim s = rev (dropWhile is_space (rev (dropWhile is_space s)))"

fun split_once :: "char \<Rightarrow> string \<Rightarrow> (string \<times> string) option" where
  "split_once sep [] = None"
| "split_once sep (c # s) =
     (if c = sep then Some ([], s) else map_option (\<lambda>(a, b). (c # a, b)) (split_once sep s))"

text \<open>\<open>u64::from_str\<close>: an optional plus sign and at least one digit, rejecting overflow.\<close>

definition digit_of :: "char \<Rightarrow> nat option" where
  "digit_of c = (let n = of_char c :: nat in if 48 \<le> n \<and> n \<le> 57 then Some (n - 48) else None)"

fun parse_digits :: "nat \<Rightarrow> string \<Rightarrow> nat option" where
  "parse_digits acc [] = Some acc"
| "parse_digits acc (c # s) =
     (case digit_of c of
        None \<Rightarrow> None
      | Some d \<Rightarrow> if acc * 10 + d \<le> u64_max then parse_digits (acc * 10 + d) s else None)"

definition parse_u64 :: "string \<Rightarrow> nat option" where
  "parse_u64 s =
     (let digits = (case s of c # rest \<Rightarrow> if c = CHR ''+'' then rest else s | [] \<Rightarrow> [])
      in if digits = [] then None else parse_digits 0 digits)"

record content_range =
  cr_total :: "nat option"
  cr_end :: nat
  cr_start :: nat

definition parse_content_range :: "string \<Rightarrow> content_range option" where
  "parse_content_range raw =
     Option.bind (split_once (CHR '' '') (trim raw)) (\<lambda>(unit, v).
       if \<not> eq_ignore_ascii_case unit ''bytes'' then None
       else Option.bind (split_once (CHR ''/'') v) (\<lambda>(interval, tot).
         Option.bind (split_once (CHR ''-'') interval) (\<lambda>(first, last).
           Option.bind (if trim tot = ''*'' then Some None else map_option Some (parse_u64 (trim tot))) (\<lambda>t.
             Option.bind (parse_u64 (trim last)) (\<lambda>e.
               Option.bind (parse_u64 (trim first)) (\<lambda>s.
                 Some \<lparr>cr_total = t, cr_end = e, cr_start = s\<rparr>))))))"

subsection \<open>Range responses\<close>

record range_spec =
  range_start :: nat
  range_end :: "nat option"

definition accepts_response_status :: "nat \<Rightarrow> bool \<Rightarrow> bool" where
  "accepts_response_status status accept_partial \<longleftrightarrow>
     200 \<le> status \<and> status < 300 \<and> (accept_partial \<or> status \<noteq> 206)"

definition representation_total :: "bool \<Rightarrow> headers \<Rightarrow> nat option" where
  "representation_total partial h =
     (if partial
      then Option.bind (headers_get ''content-range'' h) (\<lambda>raw. Option.bind (parse_content_range raw) cr_total)
      else Option.bind (headers_get ''content-length'' h) parse_u64)"

definition validate_partial_response :: "range_spec \<Rightarrow> headers \<Rightarrow> (net_error, unit) result" where
  "validate_partial_response requested h =
     (case headers_get ''content-range'' h of
        None \<Rightarrow> Inl (Decode ''partial response omitted content-range'')
      | Some raw \<Rightarrow> (case parse_content_range raw of
          None \<Rightarrow> Inl (Decode ''partial response had invalid content-range'')
        | Some parsed \<Rightarrow>
            if \<not> (cr_start parsed = range_start requested \<and> cr_start parsed \<le> cr_end parsed
                 \<and> (case range_end requested of None \<Rightarrow> True | Some e \<Rightarrow> cr_end parsed \<le> e)
                 \<and> (case cr_total parsed of None \<Rightarrow> False | Some t \<Rightarrow> cr_end parsed < t))
            then Inl (Decode ''partial response returned another content-range'')
            else (case Option.bind (checked_sub (cr_end parsed) (cr_start parsed)) (\<lambda>width. checked_add u64_max width 1) of
                None \<Rightarrow> Inl (Decode ''partial response had overflowing content-range'')
              | Some width \<Rightarrow> (case headers_get ''content-length'' h of
                  None \<Rightarrow> Inl (Decode ''partial response omitted content-length'')
                | Some v \<Rightarrow> (case parse_u64 v of
                    None \<Rightarrow> Inl (Decode ''partial response had invalid content-length'')
                  | Some n \<Rightarrow> if n \<noteq> width then Inl (Decode ''partial response declared another length'')
                      else Inr ())))))"

definition validate_range_response ::
    "nat \<Rightarrow> range_spec option \<Rightarrow> headers \<Rightarrow> (net_error, unit) result" where
  "validate_range_response status requested h =
     (case requested of
        None \<Rightarrow> (case headers_get ''content-range'' h of
            Some v \<Rightarrow> Inl (Decode ''full response included content-range'') | None \<Rightarrow> Inr ())
      | Some r \<Rightarrow>
          if status = 200 then (case headers_get ''content-range'' h of
              None \<Rightarrow> Inr () | Some v \<Rightarrow> Inl (Decode ''full response for a range included content-range''))
          else if status = 206 then validate_partial_response r h
          else Inl (Decode ''ranged request returned another status''))"

subsection \<open>Requests\<close>

datatype body_event = Chunk "u8 list" | Fails net_error | Stalls | CancelFires

record http_response =
  status_code :: nat
  raw_headers :: "(string \<times> string) list"
  resp_events :: "body_event list"

record byte_stream =
  bs_headers :: headers
  bs_partial :: bool
  bs_events :: "body_event list"

fun split_on :: "char \<Rightarrow> string \<Rightarrow> string list" where
  "split_on sep [] = [[]]"
| "split_on sep (c # s) =
     (if c = sep then [] # split_on sep s
      else case split_on sep s of [] \<Rightarrow> [[c]] | w # ws \<Rightarrow> (c # w) # ws)"

definition reject_undecoded_content_encoding :: "http_response \<Rightarrow> (net_error, unit) result" where
  "reject_undecoded_content_encoding resp =
     (if list_ex (\<lambda>(name, v). eq_ignore_ascii_case name ''content-encoding''
            \<and> list_ex (\<lambda>coding. \<not> eq_ignore_ascii_case (trim coding) ''identity'') (split_on (CHR '','') v))
          (raw_headers resp)
      then Inl (Decode ''response body retained content-encoding'') else Inr ())"

definition status_error :: "nat \<Rightarrow> net_error" where
  "status_error status =
     (if status = 0 then Network ''unexpected zero HTTP status'' else Status status (Some ''url'') (Some ''body''))"

type_synonym transport = "nat \<Rightarrow> range_spec option \<Rightarrow> (net_error, http_response) result"

definition send_checked ::
    "transport \<Rightarrow> nat \<Rightarrow> range_spec option \<Rightarrow> bool \<Rightarrow> (net_error, http_response) result" where
  "send_checked send n rng accept_partial =
     res_bind (send n rng) (\<lambda>resp.
       if \<not> accepts_response_status (status_code resp) accept_partial then Inl (status_error (status_code resp))
       else res_bind (reject_undecoded_content_encoding resp) (\<lambda>_. Inr resp))"

definition response_to_stream :: "http_response \<Rightarrow> range_spec option \<Rightarrow> (net_error, byte_stream) result" where
  "response_to_stream resp rng =
     (let h = extract_headers (raw_headers resp)
      in res_bind (validate_range_response (status_code resp) rng h) (\<lambda>_.
           Inr \<lparr>bs_headers = h, bs_partial = (status_code resp = 206), bs_events = resp_events resp\<rparr>))"

definition raw_body ::
    "transport \<Rightarrow> nat \<Rightarrow> range_spec option \<Rightarrow> bool \<Rightarrow> (net_error, byte_stream) result" where
  "raw_body send n rng accept_partial =
     res_bind (send_checked send n rng accept_partial) (\<lambda>resp. response_to_stream resp rng)"

subsection \<open>The self-healing body\<close>

record resumed =
  res_stream :: byte_stream
  res_skip :: nat

record http_body =
  inner :: "body_event list"
  expected_len :: "nat option"
  known_total :: "nat option"
  is_partial :: bool
  resumes :: nat
  consumed :: nat
  to_skip :: nat

definition body_complete :: "http_body \<Rightarrow> bool" where
  "body_complete st = (case expected_len st of None \<Rightarrow> False | Some expected \<Rightarrow> expected \<le> consumed st)"

definition body_incomplete_at_eof :: "http_body \<Rightarrow> bool" where
  "body_incomplete_at_eof st \<longleftrightarrow>
     0 < to_skip st \<or> (case expected_len st of None \<Rightarrow> is_partial st | Some expected \<Rightarrow> \<not> body_complete st)"

text \<open>\<open>wakes k\<close>: the cancellation beats the wait or the request of the \<open>k\<close>-th resume.\<close>

definition resume ::
    "retry_policy \<Rightarrow> (nat \<Rightarrow> bool) \<Rightarrow> (nat \<Rightarrow> nat \<Rightarrow> (net_error, resumed) result) \<Rightarrow> net_error \<Rightarrow> http_body
      \<Rightarrow> (net_error, http_body) result" where
  "resume p wakes refetch fault st =
     (if retryability_of fault = Fatal then Inl fault
      else if max_retries p \<le> resumes st then Inl (RetryExhausted (max_retries p) fault)
      else let st = st\<lparr>resumes := resumes st + 1\<rparr>
           in if wakes (resumes st) then Inl Cancelled
           else res_bind (refetch (resumes st) (consumed st)) (\<lambda>r.
             let partial = bs_partial (res_stream r);
                 total = representation_total partial (bs_headers (res_stream r))
             in if (case total of None \<Rightarrow> False | Some t \<Rightarrow> t < res_skip r)
                then Inl (Decode ''resumed response shorter than the consumed prefix'')
                else if (case known_total st of None \<Rightarrow> False | Some expected \<Rightarrow> total \<noteq> Some expected)
                then Inl (Decode ''resumed response changed representation total'')
                else Inr (st\<lparr>known_total := (case known_total st of None \<Rightarrow> total | Some t \<Rightarrow> Some t),
                    expected_len := (case (known_total st, expected_len st) of
                       (None, None) \<Rightarrow> total | (_, e) \<Rightarrow> e),
                    is_partial := partial, inner := bs_events (res_stream r), to_skip := res_skip r\<rparr>)))"

definition take_chunk :: "u8 list \<Rightarrow> http_body \<Rightarrow> u8 list option \<times> http_body" where
  "take_chunk bytes st =
     (let skip = min (to_skip st) (length bytes);
          rest = drop skip bytes;
          accepted = (case expected_len st of
             None \<Rightarrow> length rest | Some expected \<Rightarrow> min (expected - consumed st) (length rest));
          rest = take accepted rest
      in (if rest = [] then None else Some rest,
          st\<lparr>to_skip := to_skip st - skip, consumed := sat_add u64_max (consumed st) accepted\<rparr>))"

text \<open>What one poll of the current body finds; the state with the event consumed.\<close>

datatype poll = BodyEnd | Bytes "u8 list" http_body | Fault net_error

definition next_chunk :: "http_body \<Rightarrow> poll" where
  "next_chunk st =
     (if body_complete st then BodyEnd
      else case inner st of
        [] \<Rightarrow> if body_incomplete_at_eof st
              then Fault (Network ''HTTP body ended before representation completion'') else BodyEnd
      | Chunk b # rest \<Rightarrow> Bytes b (st\<lparr>inner := rest\<rparr>)
      | Fails e # rest \<Rightarrow> Fault e
      | Stalls # rest \<Rightarrow> Fault Timeout
      | CancelFires # rest \<Rightarrow> Fault Cancelled)"

lemma resume_Inr:
  assumes "resume p wakes refetch fault st = Inr st2"
  shows "resumes st < max_retries p" "resumes st2 = resumes st + 1" "consumed st2 = consumed st"
    "\<exists>r. refetch (resumes st2) (consumed st) = Inr r \<and> inner st2 = bs_events (res_stream r) \<and> to_skip st2 = res_skip r
      \<and> is_partial st2 = bs_partial (res_stream r)
      \<and> known_total st2 = (case known_total st of None \<Rightarrow> representation_total (bs_partial (res_stream r)) (bs_headers (res_stream r)) | Some t \<Rightarrow> Some t)
      \<and> expected_len st2 = (if known_total st = None \<and> expected_len st = None
          then representation_total (bs_partial (res_stream r)) (bs_headers (res_stream r)) else expected_len st)"
  using assms
  by (auto simp: resume_def Let_def res_bind_Inr split: if_splits option.splits)

lemma take_chunk_fields:
  assumes "take_chunk b st = (out, st2)"
  shows "inner st2 = inner st" "resumes st2 = resumes st" "expected_len st2 = expected_len st"
    "known_total st2 = known_total st" "is_partial st2 = is_partial st"
  using assms by (auto simp: take_chunk_def Let_def)

lemma next_chunk_Bytes:
  "next_chunk st = Bytes b st1 \<longleftrightarrow>
    \<not> body_complete st \<and> (\<exists>rest. inner st = Chunk b # rest \<and> st1 = st\<lparr>inner := rest\<rparr>)"
  by (auto simp: next_chunk_def split: if_splits list.splits body_event.splits)

text \<open>The stream to its end: the chunks it yields and the error it ends with, if any.\<close>

function run_body ::
    "retry_policy \<Rightarrow> (nat \<Rightarrow> bool) \<Rightarrow> (nat \<Rightarrow> nat \<Rightarrow> (net_error, resumed) result) \<Rightarrow> http_body
      \<Rightarrow> u8 list list \<times> net_error option" where
  "run_body p wakes refetch st =
     (case next_chunk st of
        BodyEnd \<Rightarrow> ([], None)
      | Bytes b st1 \<Rightarrow>
          (case take_chunk b st1 of (out, st2) \<Rightarrow>
            (case run_body p wakes refetch st2 of (ys, e) \<Rightarrow>
              (case out of None \<Rightarrow> ys | Some y \<Rightarrow> y # ys, e)))
      | Fault fault \<Rightarrow>
          (case resume p wakes refetch fault st of
             Inl terminal \<Rightarrow> ([], Some terminal)
           | Inr st2 \<Rightarrow> run_body p wakes refetch st2))"
  by auto

termination
proof (relation "measures [\<lambda>(p, wakes, refetch, st). max_retries p - resumes st, \<lambda>(p, wakes, refetch, st). length (inner st)]",
    goal_cases)
  case (2 p wakes refetch st b st1 out st2)
  then have "inner st = Chunk b # inner st2" "resumes st2 = resumes st"
    using take_chunk_fields [of b st1 out st2] by (auto simp: next_chunk_Bytes)
  then show ?case
    by simp
next
  case (3 p wakes refetch st fault st2)
  then have "max_retries p - resumes st2 < max_retries p - resumes st"
    using resume_Inr(1,2) [of p wakes refetch fault st st2] by linarith
  then show ?case
    by simp
qed simp

declare run_body.simps [simp del]

subsection \<open>The client's bodies\<close>

definition content_length :: "headers \<Rightarrow> nat option" where
  "content_length h = Option.bind (headers_get ''content-length'' h) parse_u64"

definition resumable_body :: "byte_stream \<Rightarrow> http_body" where
  "resumable_body first =
     \<lparr>inner = bs_events first, expected_len = content_length (bs_headers first),
      known_total = representation_total (bs_partial first) (bs_headers first),
      is_partial = bs_partial first, resumes = 0, consumed = 0, to_skip = 0\<rparr>"

text \<open>Where a body starts in its representation: a server that ignored the range of the first
  request sends all of it.\<close>

definition resume_base :: "byte_stream \<Rightarrow> nat \<Rightarrow> nat" where
  "resume_base first base_start = (if bs_partial first then base_start else 0)"

definition refetch_of ::
    "transport \<Rightarrow> byte_stream \<Rightarrow> nat \<Rightarrow> nat option \<Rightarrow> nat \<Rightarrow> nat \<Rightarrow> (net_error, resumed) result" where
  "refetch_of send first base_start stop n seen =
     (let abs = sat_add u64_max (resume_base first base_start) seen;
          resume_end = (if bs_partial first then stop else None)
      in res_bind (raw_body send n (Some \<lparr>range_start = abs, range_end = resume_end\<rparr>) True) (\<lambda>s.
           Inr \<lparr>res_stream = s, res_skip = (if bs_partial s then 0 else abs)\<rparr>))"

text \<open>A ranged request and a full one, with all the body yields.\<close>

definition get_range ::
    "transport \<Rightarrow> retry_policy \<Rightarrow> (nat \<Rightarrow> bool) \<Rightarrow> range_spec
      \<Rightarrow> (net_error, byte_stream \<times> u8 list list \<times> net_error option) result" where
  "get_range send p wakes rng =
     res_bind (raw_body send 0 (Some rng) True) (\<lambda>first.
       Inr (first, run_body p wakes (refetch_of send first (range_start rng) (range_end rng)) (resumable_body first)))"

definition stream_body ::
    "transport \<Rightarrow> retry_policy \<Rightarrow> (nat \<Rightarrow> bool)
      \<Rightarrow> (net_error, byte_stream \<times> u8 list list \<times> net_error option) result" where
  "stream_body send p wakes =
     res_bind (raw_body send 0 None False) (\<lambda>first.
       Inr (first, run_body p wakes (refetch_of send first 0 None) (resumable_body first)))"

subsection \<open>One representation, one sequence of bytes\<close>

text \<open>The bytes a response delivers before it ends or fails.\<close>

fun delivered :: "body_event list \<Rightarrow> u8 list" where
  "delivered (Chunk b # rest) = b @ delivered rest"
| "delivered evs = []"

text \<open>What HTTP asks of the server of a representation \<open>r\<close>, whatever it was asked for: a 200
  delivers bytes from the start of the representation; a 206 may deliver any part of it, and its
  content range, which the standard writes \<open>bytes first-last/length\<close> in decimal digits, says
  where that part begins.  It need not be the part that was asked for.\<close>

definition digits :: "string \<Rightarrow> bool" where
  "digits s \<longleftrightarrow> s \<noteq> [] \<and> list_all (\<lambda>c. digit_of c \<noteq> None) s"

definition digits_value :: "string \<Rightarrow> nat" where
  "digits_value = foldl (\<lambda>n c. n * 10 + the (digit_of c)) 0"

definition written_range :: "string \<Rightarrow> string \<Rightarrow> string \<Rightarrow> string" where
  "written_range lo hi len = ''bytes '' @ lo @ ''-'' @ hi @ ''/'' @ len"

definition serves :: "transport \<Rightarrow> u8 list \<Rightarrow> bool" where
  "serves send r \<longleftrightarrow> (\<forall>n rng resp. send n rng = Inr resp \<longrightarrow>
     (status_code resp = 200 \<longrightarrow> prefix (delivered (resp_events resp)) r)
     \<and> (status_code resp = 206 \<longrightarrow>
          (\<forall>raw. headers_get ''content-range'' (extract_headers (raw_headers resp)) = Some raw \<longrightarrow>
            (\<exists>lo hi len. raw = written_range lo hi len \<and> digits lo \<and> digits hi
               \<and> (len = ''*'' \<or> digits len)
               \<and> prefix (delivered (resp_events resp)) (drop (digits_value lo) r)))))"

lemma split_once_skip: "sep \<notin> set a \<Longrightarrow> split_once sep (a @ sep # b) = Some (a, b)"
  by (induction a) auto

lemma digits_char:
  assumes "digits s" "c \<in> set s"
  shows "\<not> is_space c" "c \<noteq> CHR ''-''" "c \<noteq> CHR ''/''" "c \<noteq> CHR ''+''" "c \<noteq> CHR ''*''"
  using assms by (auto simp: digits_def list_all_iff digit_of_def is_space_def Let_def split: if_splits)

lemma trim_id:
  assumes "s \<noteq> []" "\<not> is_space (hd s)" "\<not> is_space (last s)"
  shows "trim s = s"
proof -
  have keep: "dropWhile is_space xs = xs" if "xs \<noteq> []" "\<not> is_space (hd xs)" for xs
    using that by (cases xs) auto
  show ?thesis
    using assms keep [of s] keep [of "rev s"] by (simp add: trim_def hd_rev)
qed

lemma trim_digits: "digits s \<Longrightarrow> trim s = s"
  using digits_char(1) [of s] by (intro trim_id) (auto simp: digits_def)

lemma parse_digits_value:
  "parse_digits acc s = Some n \<Longrightarrow> n = foldl (\<lambda>n c. n * 10 + the (digit_of c)) acc s"
  by (induction acc s rule: parse_digits.induct) (auto split: option.splits if_splits)

lemma parse_u64_digits: "digits s \<Longrightarrow> parse_u64 s = Some n \<Longrightarrow> n = digits_value s"
  using digits_char(4) [of s "hd s"] parse_digits_value [of 0 s n]
  by (cases s) (auto simp: parse_u64_def digits_value_def digits_def)

lemma parse_written_range:
  assumes "parse_content_range (written_range lo hi len) = Some c" "digits lo" "digits hi" "len = ''*'' \<or> digits len"
  shows "cr_start c = digits_value lo"
proof -
  let ?raw = "written_range lo hi len"
  have ends: "hi \<noteq> []" "len \<noteq> []" "\<not> is_space (last len)"
    using assms(3,4) digits_char(1) [of len "last len"] by (auto simp: digits_def is_space_def)
  then have raw: "trim ?raw = ?raw"
    by (intro trim_id) (simp_all add: written_range_def is_space_def)
  have unit: "split_once (CHR '' '') ?raw = Some (''bytes'', lo @ CHR ''-'' # hi @ CHR ''/'' # len)"
    by (simp add: written_range_def)
  have "CHR ''/'' \<notin> set (lo @ CHR ''-'' # hi)"
    using assms(2,3) digits_char(3) by auto
  from split_once_skip [OF this, of len]
  have slash: "split_once (CHR ''/'') (lo @ CHR ''-'' # hi @ CHR ''/'' # len) = Some (lo @ CHR ''-'' # hi, len)"
    by simp
  have dash: "split_once (CHR ''-'') (lo @ CHR ''-'' # hi) = Some (lo, hi)"
    using assms(2) digits_char(2) by (intro split_once_skip) auto
  have "parse_u64 (trim lo) = Some (cr_start c)"
    using assms(1) by (auto simp: parse_content_range_def raw unit slash dash bind_eq_Some_conv split: if_splits)
  then show ?thesis
    using parse_u64_digits trim_digits assms(2) by simp
qed

lemma prefix_drop: "prefix xs ys \<Longrightarrow> prefix (drop k xs) (drop k ys)"
  by (auto simp: prefix_def)

lemma raw_body_Inr:
  assumes "raw_body send n rng accept = Inr s"
  obtains resp where "send n rng = Inr resp" "bs_events s = resp_events resp"
    "bs_headers s = extract_headers (raw_headers resp)" "bs_partial s = (status_code resp = 206)"
    "validate_range_response (status_code resp) rng (bs_headers s) = Inr ()"
  using assms
  by (auto simp: raw_body_def send_checked_def response_to_stream_def Let_def res_bind_Inr split: if_splits)

lemma validated_partial:
  assumes "validate_partial_response g h = Inr ()"
  obtains raw c where "headers_get ''content-range'' h = Some raw" "parse_content_range raw = Some c"
    "cr_start c = range_start g"
  using assms by (auto simp: validate_partial_response_def split: option.splits if_splits)

lemma delivered_first:
  assumes "serves send r" "raw_body send n (Some g) True = Inr s"
  shows "prefix (delivered (bs_events s)) (drop (resume_base s (range_start g)) r)"
proof -
  obtain resp where resp: "send n (Some g) = Inr resp" "bs_events s = resp_events resp"
      "bs_headers s = extract_headers (raw_headers resp)" "bs_partial s = (status_code resp = 206)"
      "validate_range_response (status_code resp) (Some g) (bs_headers s) = Inr ()"
    using raw_body_Inr [OF assms(2)] by blast
  then consider (whole) "status_code resp = 200" | (part) "status_code resp = 206" "validate_partial_response g (bs_headers s) = Inr ()"
    by (auto simp: validate_range_response_def split: if_splits)
  then show ?thesis
  proof cases
    case whole
    then show ?thesis
      using assms(1) resp by (auto simp: serves_def resume_base_def)
  next
    case part
    from validated_partial [OF part(2)] obtain raw c where c: "headers_get ''content-range'' (bs_headers s) = Some raw"
        "parse_content_range raw = Some c" "cr_start c = range_start g"
      by blast
    then obtain lo hi len where "raw = written_range lo hi len" "digits lo" "digits hi"
        "len = ''*'' \<or> digits len" "prefix (delivered (bs_events s)) (drop (digits_value lo) r)"
      using assms(1) resp part(1) unfolding serves_def by metis
    then show ?thesis
      using c parse_written_range part(1) by (simp add: resume_base_def resp(4))
  qed
qed

lemma delivered_refetch:
  assumes "serves send r" "refetch_of send first base stop n seen = Inr res"
    "resume_base first base + seen \<le> u64_max"
  shows "prefix (drop (res_skip res) (delivered (bs_events (res_stream res)))) (drop (resume_base first base + seen) r)"
proof -
  define abs where "abs = resume_base first base + seen"
  obtain g s where s: "raw_body send n (Some g) True = Inr s" "range_start g = abs"
      "res = \<lparr>res_stream = s, res_skip = (if bs_partial s then 0 else abs)\<rparr>"
    using assms(2,3) by (auto simp: refetch_of_def Let_def res_bind_Inr sat_add_exact abs_def)
  from delivered_first [OF assms(1) s(1)]
  have "prefix (drop (res_skip res) (delivered (bs_events (res_stream res)))) (drop abs r)"
    using prefix_drop [of _ "drop 0 r" abs] by (auto simp: s(2,3) resume_base_def split: if_splits)
  then show ?thesis
    by (simp add: abs_def)
qed

text \<open>The rest of the current response continues the representation where the consumer stands,
  unless the body is already complete.\<close>

definition continues :: "u8 list \<Rightarrow> nat \<Rightarrow> http_body \<Rightarrow> bool" where
  "continues r base st \<longleftrightarrow> base + consumed st \<le> u64_max
     \<and> (body_complete st \<or> prefix (drop (to_skip st) (delivered (inner st))) (drop (base + consumed st) r))"

definition counted :: "http_body \<Rightarrow> bool" where
  "counted st \<longleftrightarrow> (case expected_len st of None \<Rightarrow> True | Some n \<Rightarrow> consumed st \<le> n)"

lemma prefix_extend:
  assumes "prefix xs (drop k zs)" "prefix ys (drop (k + length xs) zs)"
  shows "prefix (xs @ ys) (drop k zs)"
proof -
  from assms(1) obtain us where us: "drop k zs = xs @ us"
    by (auto simp: prefix_def)
  then have "drop (k + length xs) zs = us"
    by (metis add.commute append_eq_conv_conj drop_drop)
  with assms(2) us show ?thesis
    by simp
qed

lemma take_chunk_alt:
  "take_chunk bytes st =
     (let rest = drop (to_skip st) bytes;
          accepted = (case expected_len st of
             None \<Rightarrow> length rest | Some expected \<Rightarrow> min (expected - consumed st) (length rest));
          rest = take accepted rest
      in (if rest = [] then None else Some rest,
          st\<lparr>to_skip := to_skip st - min (to_skip st) (length bytes),
            consumed := sat_add u64_max (consumed st) accepted\<rparr>))"
proof -
  have "drop (min (to_skip st) (length bytes)) bytes = drop (to_skip st) bytes"
    by (simp add: min_def)
  then show ?thesis
    by (simp only: take_chunk_def Let_def)
qed

lemma take_chunk_continues:
  assumes "continues r base st" "\<not> body_complete st" "inner st = Chunk b # rest"
    "take_chunk b (st\<lparr>inner := rest\<rparr>) = (out, st2)" "length r \<le> u64_max"
  defines "o' \<equiv> (case out of None \<Rightarrow> [] | Some y \<Rightarrow> y)"
  shows "continues r base st2" "prefix o' (drop (base + consumed st) r)"
    "consumed st2 = consumed st + length o'" "counted st \<Longrightarrow> counted st2"
proof -
  let ?k = "to_skip st" let ?c = "consumed st"
  define rest' where "rest' = drop ?k b"
  define accepted where "accepted = (case expected_len st of None \<Rightarrow> length rest' | Some n \<Rightarrow> min (n - ?c) (length rest'))"
  have pre: "prefix (rest' @ drop (?k - length b) (delivered rest)) (drop (base + ?c) r)" and base: "base + ?c \<le> u64_max"
    using assms(1-3) by (simp_all add: continues_def rest'_def)
  have acc: "accepted \<le> length rest'"
    by (simp add: accepted_def split: option.split)
  then have fits: "accepted = 0 \<or> base + ?c + accepted \<le> length r"
    using prefix_length_le [OF pre] by (cases "accepted = 0") auto
  then have sat: "sat_add u64_max ?c accepted = ?c + accepted" "base + ?c + accepted \<le> u64_max"
    using base assms(5) by (auto simp: sat_add_def)
  have taken: "take_chunk b (st\<lparr>inner := rest\<rparr>) =
      (if take accepted rest' = [] then None else Some (take accepted rest'),
       st\<lparr>inner := rest, to_skip := ?k - min ?k (length b), consumed := sat_add u64_max ?c accepted\<rparr>)"
    by (cases "expected_len st") (auto simp: take_chunk_alt Let_def accepted_def rest'_def min_def split: if_splits)
  have o': "o' = take accepted rest'"
    using assms(4) unfolding taken by (auto simp: o'_def)
  have st2: "st2 = st\<lparr>inner := rest, to_skip := ?k - min ?k (length b), consumed := ?c + accepted\<rparr>"
    using assms(4) unfolding taken sat(1) by simp
  show "consumed st2 = ?c + length o'"
    using acc by (simp add: st2 o')
  show "prefix o' (drop (base + ?c) r)"
    using pre unfolding o' by (meson append_prefixD prefix_order.trans take_is_prefix)
  show "counted st \<Longrightarrow> counted st2"
    by (auto simp: st2 counted_def accepted_def split: option.splits)
  show "continues r base st2"
  proof (cases "accepted = length rest'")
    case True
    have "prefix (drop (?k - length b) (delivered rest)) (drop (length rest') (drop (base + ?c) r))"
      using prefix_drop [OF pre, of "length rest'"] by simp
    moreover have "?k - min ?k (length b) = ?k - length b"
      by simp
    ultimately show ?thesis
      using sat(2) by (simp add: continues_def st2 True add.commute add.left_commute)
  next
    case False
    then have "body_complete st2"
      by (auto simp: accepted_def body_complete_def st2 min_def split: option.splits if_splits)
    then show ?thesis
      using sat(2) by (simp add: continues_def st2)
  qed
qed

lemma run_body_cases:
  "next_chunk st = BodyEnd \<Longrightarrow> run_body p wakes refetch st = ([], None)"
  "next_chunk st = Bytes b st1 \<Longrightarrow> take_chunk b st1 = (out, st2) \<Longrightarrow>
    run_body p wakes refetch st =
      ((case out of None \<Rightarrow> [] | Some y \<Rightarrow> [y]) @ fst (run_body p wakes refetch st2), snd (run_body p wakes refetch st2))"
  "next_chunk st = Fault fault \<Longrightarrow> resume p wakes refetch fault st = Inl terminal \<Longrightarrow>
    run_body p wakes refetch st = ([], Some terminal)"
  "next_chunk st = Fault fault \<Longrightarrow> resume p wakes refetch fault st = Inr st2 \<Longrightarrow>
    run_body p wakes refetch st = run_body p wakes refetch st2"
  by (subst run_body.simps, auto split: prod.split option.split)+

lemma next_chunk_end:
  assumes "next_chunk st = BodyEnd" "expected_len st = Some n" "counted st"
  shows "consumed st = n"
  using assms by (auto simp: next_chunk_def body_incomplete_at_eof_def body_complete_def counted_def
      split: if_splits list.splits body_event.splits)

lemma run_body_continues:
  assumes "run_body p wakes refetch st = (ys, e)" "continues r base st" "length r \<le> u64_max"
    and "\<And>n seen res. refetch n seen = Inr res \<Longrightarrow> base + seen \<le> u64_max \<Longrightarrow>
      prefix (drop (res_skip res) (delivered (bs_events (res_stream res)))) (drop (base + seen) r)"
  shows "prefix (concat ys) (drop (base + consumed st) r)
    \<and> (e = None \<longrightarrow> expected_len st = Some n \<longrightarrow> counted st \<longrightarrow> consumed st + length (concat ys) = n)"
  using assms
proof (induction p wakes refetch st arbitrary: ys e rule: run_body.induct)
  case (1 p wakes refetch st)
  show ?case
  proof (cases "next_chunk st")
    case BodyEnd
    with "1.prems"(1) have "ys = []"
      by (simp add: run_body_cases(1) [OF BodyEnd])
    then show ?thesis
      using next_chunk_end [OF BodyEnd] by auto
  next
    case (Bytes b st1)
    then obtain rest where rest: "\<not> body_complete st" "inner st = Chunk b # rest" "st1 = st\<lparr>inner := rest\<rparr>"
      by (auto simp: next_chunk_Bytes)
    obtain out st2 where take: "take_chunk b st1 = (out, st2)"
      by fastforce
    obtain ys' where ys': "run_body p wakes refetch st2 = (ys', e)" "ys = (case out of None \<Rightarrow> [] | Some y \<Rightarrow> [y]) @ ys'"
      using "1.prems"(1) run_body_cases(2) [OF Bytes take] by (cases "run_body p wakes refetch st2") auto
    let ?o = "case out of None \<Rightarrow> [] | Some y \<Rightarrow> y"
    note step = take_chunk_continues [OF "1.prems"(2) rest(1,2) take [unfolded rest(3)] "1.prems"(3)]
    have same: "expected_len st2 = expected_len st"
      using take_chunk_fields(3) [OF take] by (simp add: rest(3))
    have IH: "prefix (concat ys') (drop (base + consumed st2) r)
        \<and> (e = None \<longrightarrow> expected_len st2 = Some n \<longrightarrow> counted st2 \<longrightarrow> consumed st2 + length (concat ys') = n)"
      by (rule "1.IH"(1) [OF Bytes take [symmetric] ys'(1) step(1) "1.prems"(3,4)])
    have cat: "concat ys = ?o @ concat ys'"
      by (simp add: ys'(2) split: option.split)
    have "prefix (?o @ concat ys') (drop (base + consumed st) r)"
      using prefix_extend [OF step(2)] step(3) IH by (simp add: add.assoc)
    then show ?thesis
      using IH step(3,4) by (auto simp: cat same)
  next
    case (Fault fault)
    show ?thesis
    proof (cases "resume p wakes refetch fault st")
      case (Inl terminal)
      with "1.prems"(1) show ?thesis
        by (auto simp: run_body_cases(3) [OF Fault])
    next
      case (Inr st2)
      note res = resume_Inr [OF Inr]
      have incomplete: "\<not> body_complete st"
        using Fault by (auto simp: next_chunk_def split: if_splits)
      have run: "run_body p wakes refetch st2 = (ys, e)"
        using "1.prems"(1) by (simp add: run_body_cases(4) [OF Fault Inr])
      from res(4) obtain rr where rr: "refetch (resumes st2) (consumed st) = Inr rr" "inner st2 = bs_events (res_stream rr)"
          "to_skip st2 = res_skip rr"
          "expected_len st2 = (if known_total st = None \<and> expected_len st = None
            then representation_total (bs_partial (res_stream rr)) (bs_headers (res_stream rr)) else expected_len st)"
        by blast
      have "base + consumed st \<le> u64_max"
        using "1.prems"(2) by (simp add: continues_def)
      then have "continues r base st2"
        using "1.prems"(4) [OF rr(1)] by (simp add: continues_def res(3) rr(2,3))
      from "1.IH"(2) [OF Fault Inr run this "1.prems"(3,4)] show ?thesis
        by (auto simp: res(3) rr(4) counted_def split: if_splits)
    qed
  qed
qed

lemma body_start_continues:
  assumes "serves send r" "raw_body send 0 (Some g) True = Inr first" "range_start g \<le> u64_max"
  shows "continues r (resume_base first (range_start g)) (resumable_body first)" "counted (resumable_body first)"
  using delivered_first [OF assms(1,2)] assms(3)
  by (auto simp: continues_def resumable_body_def resume_base_def counted_def split: option.split)

text \<open>C4: a ranged body is one continuous piece of the representation, whatever stalls and failures it
  healed.  The server may answer any request with the whole representation or with a part of its own
  choice, as long as the content range it writes says where the part begins.  The bytes the body
  yields, over all resumes, are a prefix of the representation from the start of the range (from its beginning when the first
  answer ignored the range), with nothing missing and nothing twice; and a body that ends without an
  error under a declared length has yielded exactly that many bytes.\<close>

theorem healed_body_has_no_gap:
  assumes "serves send r" and "length r \<le> u64_max" and "range_start rng \<le> u64_max"
    and "get_range send p wakes rng = Inr (first, ys, e)"
  shows "prefix (concat ys) (drop (resume_base first (range_start rng)) r)
    \<and> (case (e, content_length (bs_headers first)) of
         (None, Some n) \<Rightarrow> length (concat ys) = n
           \<and> concat ys = take n (drop (resume_base first (range_start rng)) r)
       | _ \<Rightarrow> True)"
proof -
  let ?base = "resume_base first (range_start rng)" let ?st = "resumable_body first"
  from assms(4) have raw: "raw_body send 0 (Some rng) True = Inr first"
      and run: "run_body p wakes (refetch_of send first (range_start rng) (range_end rng)) ?st = (ys, e)"
    by (auto simp: get_range_def res_bind_Inr)
  note start = body_start_continues [OF assms(1) raw assms(3)]
  have main: "prefix (concat ys) (drop (?base + consumed ?st) r)
      \<and> (e = None \<longrightarrow> expected_len ?st = Some n \<longrightarrow> counted ?st \<longrightarrow> consumed ?st + length (concat ys) = n)" for n
    by (rule run_body_continues [OF run start(1) assms(2)]) (rule delivered_refetch [OF assms(1)])
  have zero: "consumed ?st = 0" "expected_len ?st = content_length (bs_headers first)"
    by (simp_all add: resumable_body_def)
  have exact: "length (concat ys) = n \<and> concat ys = take n (drop ?base r)"
    if "e = None" "content_length (bs_headers first) = Some n" for n
  proof -
    have "length (concat ys) = n"
      using main [of n] that start(2) zero by simp
    then show ?thesis
      using main [of n] zero(1) by (auto simp: prefix_def)
  qed
  show ?thesis
    using main zero(1) exact by (auto split: option.split)
qed

subsection \<open>Bodies that complete\<close>

text \<open>Faults that a body asks again for, and answers it goes on with.\<close>

definition heals :: "body_event list \<Rightarrow> bool" where
  "heals = list_all (\<lambda>ev. case ev of
     Chunk b \<Rightarrow> True | Stalls \<Rightarrow> True | Fails e \<Rightarrow> retryability_of e \<noteq> Fatal | CancelFires \<Rightarrow> False)"

definition goes_on :: "nat \<Rightarrow> resumed \<Rightarrow> bool" where
  "goes_on t res \<longleftrightarrow> representation_total (bs_partial (res_stream res)) (bs_headers (res_stream res)) = Some t
     \<and> res_skip res \<le> t \<and> heals (bs_events (res_stream res))"

text \<open>The answer brings everything that is still missing before it fails.\<close>

definition brings_rest :: "nat \<Rightarrow> nat \<Rightarrow> resumed \<Rightarrow> bool" where
  "brings_rest len seen res \<longleftrightarrow> res_skip res + (len - seen) \<le> length (delivered (bs_events (res_stream res)))"

lemma next_chunk_Fault:
  assumes "next_chunk st = Fault fault" "heals (inner st)" "expected_len st = Some len"
  shows "retryability_of fault \<noteq> Fatal" "consumed st < len" "delivered (inner st) = []"
  using assms
  by (auto simp: next_chunk_def heals_def body_complete_def split: if_splits list.splits body_event.splits)

lemma resume_goes_on:
  assumes "retryability_of fault \<noteq> Fatal" "resumes st < max_retries p" "\<not> wakes (resumes st + 1)"
    and "refetch (resumes st + 1) (consumed st) = Inr res" "goes_on t res" "known_total st = Some t"
    and "expected_len st = Some len"
  shows "resume p wakes refetch fault st = Inr (st\<lparr>resumes := resumes st + 1, known_total := Some t, expected_len := Some len,
     is_partial := bs_partial (res_stream res), inner := bs_events (res_stream res), to_skip := res_skip res\<rparr>)"
  using assms by (simp add: resume_def goes_on_def Let_def)

lemma take_chunk_counts:
  assumes "take_chunk b (st\<lparr>inner := rest\<rparr>) = (out, st2)" "expected_len st = Some len" "consumed st \<le> len" "len \<le> u64_max"
    and "inner st = Chunk b # rest"
  shows "consumed st2 = consumed st + length (case out of None \<Rightarrow> [] | Some y \<Rightarrow> y)" "consumed st2 \<le> len"
    "to_skip st + (len - consumed st) \<le> length (delivered (inner st)) \<Longrightarrow>
      to_skip st2 + (len - consumed st2) \<le> length (delivered rest)"
  using assms by (auto simp: take_chunk_alt Let_def sat_add_def min_def split: if_splits)

lemma run_body_heals:
  assumes "run_body p wakes refetch st = (ys, e)" "expected_len st = Some len" "known_total st = Some t"
    and "consumed st \<le> len" "len \<le> u64_max" "heals (inner st)" "resumes st \<le> last_try" "last_try \<le> max_retries p"
    and "\<And>k. \<not> wakes k"
    and "resumes st = last_try \<Longrightarrow> to_skip st + (len - consumed st) \<le> length (delivered (inner st))"
    and "\<And>k seen. 0 < k \<Longrightarrow> k \<le> last_try \<Longrightarrow> seen < len \<Longrightarrow> \<exists>res. refetch k seen = Inr res \<and> goes_on t res
      \<and> (k = last_try \<longrightarrow> brings_rest len seen res)"
  shows "e = None \<and> consumed st + length (concat ys) = len"
  using assms
proof (induction p wakes refetch st arbitrary: ys e rule: run_body.induct)
  case (1 p wakes refetch st)
  note prems = "1.prems"
  show ?case
  proof (cases "next_chunk st")
    case BodyEnd
    have "counted st"
      using prems(2,4) by (simp add: counted_def)
    then show ?thesis
      using next_chunk_end [OF BodyEnd prems(2)] prems(1) by (simp add: run_body_cases(1) [OF BodyEnd])
  next
    case (Bytes b st1)
    then obtain rest where rest: "inner st = Chunk b # rest" "st1 = st\<lparr>inner := rest\<rparr>"
      by (auto simp: next_chunk_Bytes)
    obtain out st2 where take: "take_chunk b st1 = (out, st2)"
      by fastforce
    obtain ys' where ys': "run_body p wakes refetch st2 = (ys', e)" "ys = (case out of None \<Rightarrow> [] | Some y \<Rightarrow> [y]) @ ys'"
      using prems(1) run_body_cases(2) [OF Bytes take] by (cases "run_body p wakes refetch st2") auto
    note counts = take_chunk_counts [OF take [unfolded rest(2)] prems(2,4,5) rest(1)]
    note same = take_chunk_fields [OF take]
    have "e = None \<and> consumed st2 + length (concat ys') = len"
      by (rule "1.IH"(1) [OF Bytes take [symmetric] ys'(1)])
         (use prems counts same rest in \<open>simp_all add: heals_def\<close>)
    then show ?thesis
      using counts(1) by (simp add: ys'(2) split: option.splits)
  next
    case (Fault fault)
    note fault = next_chunk_Fault [OF Fault prems(6,2)]
    have less: "resumes st < last_try"
      using prems(7,10) fault(2,3) by (cases "resumes st = last_try") auto
    obtain res where res: "refetch (resumes st + 1) (consumed st) = Inr res" "goes_on t res"
        "resumes st + 1 = last_try \<longrightarrow> brings_rest len (consumed st) res"
      using prems(11) [of "resumes st + 1" "consumed st"] less fault(2) by auto
    define st2 where "st2 = st\<lparr>resumes := resumes st + 1, known_total := Some t, expected_len := Some len,
      is_partial := bs_partial (res_stream res), inner := bs_events (res_stream res), to_skip := res_skip res\<rparr>"
    have again: "resume p wakes refetch fault st = Inr st2"
      using resume_goes_on [where wakes = wakes and refetch = refetch, OF fault(1) _ _ res(1,2) prems(3,2)] less prems(8,9)
      by (simp add: st2_def)
    have run: "run_body p wakes refetch st2 = (ys, e)"
      using prems(1) by (simp add: run_body_cases(4) [OF Fault again])
    have "e = None \<and> consumed st2 + length (concat ys) = len"
      by (rule "1.IH"(2) [OF Fault again run])
         (use prems(4,5,8,9,11) less res in \<open>auto simp: st2_def goes_on_def brings_rest_def\<close>)
    then show ?thesis
      by (simp add: st2_def)
  qed
qed

text \<open>C5: a body completes as long as the server recovers within the retries.  Let the first answer to a
  ranged request be accepted and declare its length and the total, let every later answer be accepted and
  of the same total, let the faults on the way (stalls, lost connections, early ends) be transient and
  nobody cancel, and let some answer within \<open>max_retries\<close> bring what is still missing at that
  point; every answer before it may stop anywhere.  Then the body ends without an error and has yielded exactly the declared length.\<close>

theorem body_completes_within_its_retries:
  assumes "raw_body send 0 (Some rng) True = Inr first" and "heals (bs_events first)"
    and "content_length (bs_headers first) = Some len" and "len \<le> u64_max"
    and "representation_total (bs_partial first) (bs_headers first) = Some t"
    and "0 < last_try" and "last_try \<le> max_retries p" and "\<And>k. \<not> wakes k"
    and "\<And>k seen. 0 < k \<Longrightarrow> k \<le> last_try \<Longrightarrow> seen < len \<Longrightarrow>
      \<exists>res. refetch_of send first (range_start rng) (range_end rng) k seen = Inr res \<and> goes_on t res
        \<and> (k = last_try \<longrightarrow> brings_rest len seen res)"
  shows "\<exists>ys. get_range send p wakes rng = Inr (first, ys, None) \<and> length (concat ys) = len"
proof -
  obtain ys e where run: "run_body p wakes (refetch_of send first (range_start rng) (range_end rng)) (resumable_body first) = (ys, e)"
    by fastforce
  have "e = None \<and> consumed (resumable_body first) + length (concat ys) = len"
    by (rule run_body_heals [OF run, where t = t and last_try = last_try])
       (use assms(2-9) in \<open>simp_all add: resumable_body_def\<close>)
  then show ?thesis
    using assms(1) run by (simp add: get_range_def resumable_body_def)
qed

text \<open>A body asks for its representation at most \<open>max_retries\<close> times again.\<close>

lemma run_body_bounded:
  "(\<And>n seen. n \<le> max_retries p \<Longrightarrow> refetch n seen = refetch' n seen) \<Longrightarrow>
    run_body p wakes refetch st = run_body p wakes refetch' st"
proof (induction p wakes refetch st rule: run_body.induct)
  case (1 p wakes refetch st)
  show ?case
  proof (cases "next_chunk st")
    case (Bytes b st1)
    obtain out st2 where take: "take_chunk b st1 = (out, st2)"
      by fastforce
    then show ?thesis
      using "1.IH"(1) [OF Bytes take [symmetric]] "1.prems" run_body_cases(2) [OF Bytes take] by simp
  next
    case (Fault fault)
    have same: "resume p wakes refetch fault st = resume p wakes refetch' fault st"
      using "1.prems" by (auto simp: resume_def Let_def)
    show ?thesis
    proof (cases "resume p wakes refetch fault st")
      case (Inr st2)
      then show ?thesis
        using "1.IH"(2) [OF Fault Inr] "1.prems" run_body_cases(4) [OF Fault] same by simp
    qed (use run_body_cases(3) [OF Fault] same in simp)
  qed (simp add: run_body_cases(1))
qed

text \<open>A body asks a server for the same representation a bounded number of times: two servers
  that agree on the first \<open>max_retries + 1\<close> requests give the same body, so no later request
  is made, and the stream ends.\<close>

lemma body_requests_bounded:
  assumes "\<And>n g. n \<le> max_retries p \<Longrightarrow> send n g = send' n g"
  shows "get_range send p wakes rng = get_range send' p wakes rng"
proof -
  have raw: "raw_body send n g accept = raw_body send' n g accept" if "n \<le> max_retries p" for n g accept
    using assms [OF that] by (simp add: raw_body_def send_checked_def)
  have "run_body p wakes (refetch_of send first b stop) st = run_body p wakes (refetch_of send' first b stop) st" for first b stop st
    by (rule run_body_bounded) (simp add: refetch_of_def raw)
  then show ?thesis
    by (simp add: get_range_def raw)
qed

subsection \<open>A body at work\<close>

definition demo_rng :: range_spec where
  "demo_rng = \<lparr>range_start = 1, range_end = Some 4\<rparr>"

text \<open>A server that honours the range once and stalls, and then ignores ranges.\<close>

definition demo_send :: transport where
  "demo_send n g =
     (if n = 0 \<and> g = Some demo_rng
      then Inr \<lparr>status_code = 206, raw_headers = [(''content-range'', ''bytes 1-4/5''), (''content-length'', ''4'')],
             resp_events = [Chunk [2, 3], Stalls]\<rparr>
      else Inr \<lparr>status_code = 200, raw_headers = [(''content-length'', ''5'')],
             resp_events = [Chunk [1, 2], Chunk [3, 4, 5]]\<rparr>)"

lemma demo_parse:
  "parse_content_range ''bytes 1-4/5'' = Some \<lparr>cr_total = Some 5, cr_end = 4, cr_start = 1\<rparr>"
  "parse_u64 ''4'' = Some 4" "parse_u64 ''5'' = Some 5"
  by (simp_all add: parse_content_range_def trim_def is_space_def eq_ignore_ascii_case_def to_ascii_lowercase_def
      parse_u64_def digit_of_def u64_max_def)

lemma demo_headers:
  "headers_get ''content-range'' (extract_headers [(''content-range'', ''bytes 1-4/5''), (''content-length'', ''4'')]) = Some ''bytes 1-4/5''"
  "headers_get ''content-length'' (extract_headers [(''content-range'', ''bytes 1-4/5''), (''content-length'', ''4'')]) = Some ''4''"
  "headers_get ''content-range'' (extract_headers [(''content-length'', ''5'')]) = None"
  "headers_get ''content-length'' (extract_headers [(''content-length'', ''5'')]) = Some ''5''"
  by (simp_all add: extract_headers_def headers_get_def headers_insert_def to_ascii_lowercase_def)

lemma demo_serves: "serves demo_send [1, 2, 3, 4, 5]"
proof -
  have part: "\<exists>lo hi len. ''bytes 1-4/5'' = written_range lo hi len \<and> digits lo \<and> digits hi \<and> (len = ''*'' \<or> digits len)
      \<and> prefix [2, 3] (drop (digits_value lo) [1, 2, 3, 4, 5 :: u8])"
    by (rule exI [of _ "''1''"], rule exI [of _ "''4''"], rule exI [of _ "''5''"])
       (simp add: written_range_def digits_def digits_value_def digit_of_def)
  show ?thesis
    using part by (auto simp: serves_def demo_send_def demo_headers)
qed

definition demo_first :: byte_stream where
  "demo_first = \<lparr>bs_headers = extract_headers [(''content-range'', ''bytes 1-4/5''), (''content-length'', ''4'')],
     bs_partial = True, bs_events = [Chunk [2, 3], Stalls]\<rparr>"

lemmas demo_request_simps = raw_body_def send_checked_def demo_send_def accepts_response_status_def
  reject_undecoded_content_encoding_def response_to_stream_def validate_range_response_def Let_def
  validate_partial_response_def demo_headers demo_parse demo_rng_def checked_sub_def checked_add_def u64_max_def
  eq_ignore_ascii_case_def to_ascii_lowercase_def

lemma demo_raw:
  "raw_body demo_send 0 (Some demo_rng) True = Inr demo_first"
  "raw_body demo_send (Suc 0) (Some \<lparr>range_start = 3, range_end = Some 4\<rparr>) True =
    Inr \<lparr>bs_headers = extract_headers [(''content-length'', ''5'')], bs_partial = False,
      bs_events = [Chunk [1, 2], Chunk [3, 4, 5]]\<rparr>"
  by (simp_all add: demo_request_simps demo_first_def)

lemma demo_sums:
  "sat_add u64_max (Suc 0) 2 = 3" "sat_add u64_max 0 (Suc (Suc 0)) = 2" "sat_add u64_max 2 0 = 2"
  "sat_add u64_max 2 (Suc (Suc 0)) = 4"
  by (simp_all add: sat_add_def u64_max_def)

definition demo_second :: byte_stream where
  "demo_second = \<lparr>bs_headers = extract_headers [(''content-length'', ''5'')], bs_partial = False,
     bs_events = [Chunk [1, 2], Chunk [3, 4, 5]]\<rparr>"

lemma demo_refetch:
  "refetch_of demo_send demo_first (Suc 0) (Some 4) (Suc 0) 2 = Inr \<lparr>res_stream = demo_second, res_skip = 3\<rparr>"
  using demo_raw(2) by (simp add: refetch_of_def resume_base_def demo_first_def demo_sums demo_second_def)

lemma demo_start:
  "resumable_body demo_first = \<lparr>inner = [Chunk [2, 3], Stalls], expected_len = Some 4, known_total = Some 5,
     is_partial = True, resumes = 0, consumed = 0, to_skip = 0\<rparr>"
  by (simp add: resumable_body_def demo_first_def content_length_def representation_total_def demo_headers demo_parse)

lemma demo_resume:
  "resume demo_policy (\<lambda>_. False) (refetch_of demo_send demo_first (Suc 0) (Some 4)) Timeout
     \<lparr>inner = [Stalls], expected_len = Some 4, known_total = Some 5, is_partial = True, resumes = 0, consumed = 2, to_skip = 0\<rparr>
   = Inr \<lparr>inner = [Chunk [1, 2], Chunk [3, 4, 5]], expected_len = Some 4, known_total = Some 5, is_partial = False,
      resumes = 1, consumed = 2, to_skip = 3\<rparr>"
  by (simp add: resume_def Let_def demo_policy_def demo_refetch)
     (simp add: demo_second_def representation_total_def demo_headers demo_parse)

lemmas demo_poll = run_body_cases next_chunk_def body_complete_def take_chunk_def Let_def demo_sums

lemma demo_body:
  "get_range demo_send demo_policy (\<lambda>_. False) demo_rng = Inr (demo_first, [[2, 3], [4, 5]], None)"
proof -
  let ?run = "run_body demo_policy (\<lambda>_. False) (refetch_of demo_send demo_first (Suc 0) (Some 4))"
  have 3: "?run \<lparr>inner = [Chunk [1, 2], Chunk [3, 4, 5]], expected_len = Some 4, known_total = Some 5, is_partial = False,
      resumes = Suc 0, consumed = 2, to_skip = 3\<rparr> = ([[4, 5]], None)"
    by (simp add: demo_poll)
  have 2: "?run \<lparr>inner = [Stalls], expected_len = Some 4, known_total = Some 5, is_partial = True, resumes = 0, consumed = 2, to_skip = 0\<rparr>
      = ([[4, 5]], None)"
    by (subst run_body_cases(4) [OF _ demo_resume]) (simp_all add: 3 next_chunk_def body_complete_def)
  have "?run (resumable_body demo_first) = ([[2, 3], [4, 5]], None)"
    by (simp add: demo_start demo_poll 2)
  then show ?thesis
    by (simp add: get_range_def demo_raw(1)) (simp add: demo_rng_def)
qed

lemma healed_body_has_no_gap_witness:
  "prefix (concat [[2, 3], [4, 5]]) (drop 1 [1, 2, 3, 4, 5 :: u8])
    \<and> length (concat [[2, 3], [4, 5 :: u8]]) = 4"
proof -
  have "length [1, 2, 3, 4, 5 :: u8] \<le> u64_max" "range_start demo_rng \<le> u64_max"
    by (simp_all add: u64_max_def demo_rng_def)
  from healed_body_has_no_gap [OF demo_serves this demo_body] show ?thesis
    by (simp add: resume_base_def demo_first_def content_length_def demo_headers demo_parse demo_rng_def)
qed

lemma body_completes_within_its_retries_witness:
  "\<exists>ys. get_range demo_send demo_policy (\<lambda>_. False) demo_rng = Inr (demo_first, ys, None) \<and> length (concat ys) = 4"
proof (rule body_completes_within_its_retries [OF demo_raw(1)])
  show "heals (bs_events demo_first)" "content_length (bs_headers demo_first) = Some 4"
    "representation_total (bs_partial demo_first) (bs_headers demo_first) = Some 5"
    by (simp_all add: demo_first_def heals_def content_length_def representation_total_def demo_headers demo_parse)
  show "\<exists>res. refetch_of demo_send demo_first (range_start demo_rng) (range_end demo_rng) k seen = Inr res \<and> goes_on 5 res
      \<and> (k = 1 \<longrightarrow> brings_rest 4 seen res)" if k: "0 < k" "k \<le> 1" "seen < 4" for k seen
  proof -
    have "refetch_of demo_send demo_first (range_start demo_rng) (range_end demo_rng) k seen
        = Inr \<lparr>res_stream = demo_second, res_skip = 1 + seen\<rparr>"
      using k by (simp add: refetch_of_def resume_base_def demo_request_simps demo_first_def demo_second_def sat_add_def)
    then show ?thesis
      using k by (simp add: goes_on_def brings_rest_def demo_second_def representation_total_def demo_headers demo_parse heals_def)
  qed
qed (simp_all add: demo_policy_def u64_max_def)

end
