(* ===== verification/Budget.thy ===== *)
theory Budget
  imports Prelude
begin

text \<open>
  The byte budget the buffer pools of a region share
  (\<open>crates/kithara-bufpool/src/budget/counter.rs\<close>, \<open>budget/limits.rs\<close>): a counter that
  threads raise and lower by compare-and-swap loops, with a hard limit and a record of the peak, and
  reservations that roll back unless they are committed.  The step relation \<open>budget_step\<close> is the
  counter under interleaving, one atomic access a step; the functions after it are the same
  operations undisturbed.
\<close>

subsection \<open>The counter\<close>

record counter =
  current :: nat
  peak :: nat
  limit :: nat

record budget_snapshot =
  snap_current :: nat
  snap_limit :: nat

definition counter_new :: "nat \<Rightarrow> counter" where
  "counter_new l = \<lparr>current = 0, peak = 0, limit = l\<rparr>"

text \<open>One turn of the acquire loop on the value it has seen: the value to swap in, or the refusal.\<close>

definition acquire_turn :: "nat \<Rightarrow> nat \<Rightarrow> nat \<Rightarrow> (budget_snapshot, nat) result" where
  "acquire_turn seen amount l =
     (case checked_add usize_max seen amount of
        None \<Rightarrow> Inl \<lparr>snap_current = seen, snap_limit = l\<rparr>
      | Some nxt \<Rightarrow> if l < nxt then Inl \<lparr>snap_current = seen, snap_limit = l\<rparr> else Inr nxt)"

definition release_turn :: "nat \<Rightarrow> nat \<Rightarrow> nat option" where
  "release_turn seen amount = checked_sub seen amount"

text \<open>Where a thread is: at rest, before the swap of an acquire or a release with the value it has
  seen, or between a successful swap and the update of the peak.\<close>

datatype thread =
    Rest
  | Acquiring nat nat
  | Raising nat
  | Releasing nat nat

record budget_sys =
  cell :: counter
  threads :: "nat \<Rightarrow> thread"
  charged :: nat

definition budget_start :: "nat \<Rightarrow> budget_sys" where
  "budget_start l = \<lparr>cell = counter_new l, threads = (\<lambda>_. Rest), charged = 0\<rparr>"

text \<open>A weak swap may fail although the cell holds what it expects, so \<open>AcquireRetry\<close> and
  \<open>ReleaseRetry\<close> need no difference.  \<open>charged\<close> is the sum of what was acquired less what
  was released.\<close>

inductive budget_step :: "budget_sys \<Rightarrow> budget_sys \<Rightarrow> bool" where
  AcquireLoad: "threads t i = Rest \<Longrightarrow>
    budget_step t (t\<lparr>threads := (threads t)(i := Acquiring amount (current (cell t)))\<rparr>)"
| AcquireRefused: "threads t i = Acquiring amount seen \<Longrightarrow> acquire_turn seen amount (limit (cell t)) = Inl s \<Longrightarrow>
    budget_step t (t\<lparr>threads := (threads t)(i := Rest)\<rparr>)"
| AcquireSwap: "threads t i = Acquiring amount seen \<Longrightarrow> acquire_turn seen amount (limit (cell t)) = Inr nxt \<Longrightarrow>
    current (cell t) = seen \<Longrightarrow>
    budget_step t (t\<lparr>cell := (cell t)\<lparr>current := nxt\<rparr>, threads := (threads t)(i := Raising nxt),
      charged := charged t + amount\<rparr>)"
| AcquireRetry: "threads t i = Acquiring amount seen \<Longrightarrow> acquire_turn seen amount (limit (cell t)) = Inr nxt \<Longrightarrow>
    budget_step t (t\<lparr>threads := (threads t)(i := Acquiring amount (current (cell t)))\<rparr>)"
| RaisePeak: "threads t i = Raising nxt \<Longrightarrow>
    budget_step t (t\<lparr>cell := (cell t)\<lparr>peak := max (peak (cell t)) nxt\<rparr>, threads := (threads t)(i := Rest)\<rparr>)"
| ReleaseLoad: "threads t i = Rest \<Longrightarrow>
    budget_step t (t\<lparr>threads := (threads t)(i := Releasing amount (current (cell t)))\<rparr>)"
| ReleaseUnderflow: "threads t i = Releasing amount seen \<Longrightarrow> release_turn seen amount = None \<Longrightarrow>
    budget_step t (t\<lparr>threads := (threads t)(i := Rest)\<rparr>)"
| ReleaseSwap: "threads t i = Releasing amount seen \<Longrightarrow> release_turn seen amount = Some nxt \<Longrightarrow>
    current (cell t) = seen \<Longrightarrow>
    budget_step t (t\<lparr>cell := (cell t)\<lparr>current := nxt\<rparr>, threads := (threads t)(i := Rest),
      charged := charged t - amount\<rparr>)"
| ReleaseRetry: "threads t i = Releasing amount seen \<Longrightarrow> release_turn seen amount = Some nxt \<Longrightarrow>
    budget_step t (t\<lparr>threads := (threads t)(i := Releasing amount (current (cell t)))\<rparr>)"

text \<open>Some thread is about to raise the peak to at least \<open>x\<close>.\<close>

definition will_raise :: "(nat \<Rightarrow> thread) \<Rightarrow> nat \<Rightarrow> bool" where
  "will_raise ts x \<longleftrightarrow> (\<exists>i nxt. ts i = Raising nxt \<and> x \<le> nxt)"

definition raises_within :: "(nat \<Rightarrow> thread) \<Rightarrow> nat \<Rightarrow> bool" where
  "raises_within ts l \<longleftrightarrow> (\<forall>i nxt. ts i = Raising nxt \<longrightarrow> nxt \<le> l)"

definition budget_inv :: "nat \<Rightarrow> budget_sys \<Rightarrow> bool" where
  "budget_inv l t \<longleftrightarrow> limit (cell t) = l \<and> current (cell t) = charged t \<and> current (cell t) \<le> l
     \<and> peak (cell t) \<le> l \<and> raises_within (threads t) l
     \<and> (current (cell t) \<le> peak (cell t) \<or> will_raise (threads t) (current (cell t)))"

lemma acquire_turn_Inr [simp]:
  "acquire_turn seen amount l = Inr nxt \<longleftrightarrow> nxt = seen + amount \<and> seen + amount \<le> usize_max \<and> nxt \<le> l"
  by (auto simp: acquire_turn_def split: option.splits)

lemma will_raise_upd:
  "will_raise ts x \<Longrightarrow> (\<And>n. ts i \<noteq> Raising n) \<Longrightarrow> will_raise (ts(i := s)) x"
  "x \<le> n \<Longrightarrow> will_raise (ts(i := Raising n)) x"
  "will_raise ts x \<Longrightarrow> ts i = Raising n \<Longrightarrow> x \<le> n \<or> will_raise (ts(i := s)) x"
  "will_raise ts x \<Longrightarrow> y \<le> x \<Longrightarrow> will_raise ts y"
  unfolding will_raise_def by (metis fun_upd_apply thread.inject(2) order.trans)+

lemma raises_within_upd:
  "raises_within ts l \<Longrightarrow> (\<And>n. s = Raising n \<Longrightarrow> n \<le> l) \<Longrightarrow> raises_within (ts(i := s)) l"
  by (auto simp: raises_within_def)

lemma budget_inv_step: "budget_step t t' \<Longrightarrow> budget_inv l t \<Longrightarrow> budget_inv l t'"
proof (induction rule: budget_step.induct)
  case (RaisePeak t i nxt)
  have "nxt \<le> l"
    using RaisePeak by (auto simp: budget_inv_def raises_within_def)
  then show ?case
    using RaisePeak will_raise_upd(3) [of "threads t" "current (cell t)" i nxt Rest]
    by (auto simp: budget_inv_def intro: raises_within_upd)
next
  case (AcquireSwap t i amount seen nxt)
  then show ?case
    by (auto simp: budget_inv_def intro: raises_within_upd will_raise_upd(2))
next
  case (ReleaseSwap t i amount seen nxt)
  have "current (cell t) \<le> peak (cell t) \<or> will_raise ((threads t)(i := Rest)) (current (cell t))"
    using ReleaseSwap will_raise_upd(1) [of "threads t" _ i Rest] by (auto simp: budget_inv_def)
  then have "nxt \<le> peak (cell t) \<or> will_raise ((threads t)(i := Rest)) nxt"
    using ReleaseSwap.hyps(2,3) will_raise_upd(4) by (auto simp: release_turn_def)
  then show ?case
    using ReleaseSwap by (auto simp: budget_inv_def release_turn_def intro: raises_within_upd)
qed (auto simp: budget_inv_def intro: raises_within_upd will_raise_upd(1))

lemma budget_reachable_inv:
  assumes "budget_step\<^sup>*\<^sup>* (budget_start l) t"
  shows "budget_inv l t"
  using assms
proof (induction rule: rtranclp_induct)
  case base
  show ?case
    by (simp add: budget_inv_def budget_start_def counter_new_def raises_within_def)
qed (rule budget_inv_step)

text \<open>C14: the byte budget is hard under any interleaving: whatever threads acquire, release, lose races
  and retry, the counter is exactly what has been acquired and not released, it never exceeds the
  limit, nor does the recorded peak, and once no thread is about to raise the peak the peak covers the
  counter.\<close>

theorem budget_is_never_exceeded:
  assumes "budget_step\<^sup>*\<^sup>* (budget_start l) t"
  shows "current (cell t) = charged t \<and> charged t \<le> l \<and> peak (cell t) \<le> l
    \<and> (charged t \<le> peak (cell t) \<or> will_raise (threads t) (charged t))"
  using budget_reachable_inv [OF assms] by (auto simp: budget_inv_def)

subsection \<open>Operations undisturbed\<close>

definition try_acquire :: "nat \<Rightarrow> counter \<Rightarrow> (budget_snapshot, unit) result \<times> counter" where
  "try_acquire amount c =
     (case acquire_turn (current c) amount (limit c) of
        Inl s \<Rightarrow> (Inl s, c)
      | Inr nxt \<Rightarrow> (Inr (), c\<lparr>current := nxt, peak := max (peak c) nxt\<rparr>))"

definition release :: "nat \<Rightarrow> counter \<Rightarrow> bool \<times> counter" where
  "release amount c =
     (case release_turn (current c) amount of
        None \<Rightarrow> (False, c) | Some nxt \<Rightarrow> (True, c\<lparr>current := nxt\<rparr>))"

text \<open>A reservation holds the amount it gives back when it is dropped.\<close>

definition reserve :: "nat \<Rightarrow> counter \<Rightarrow> (budget_snapshot, nat) result \<times> counter" where
  "reserve amount c =
     (if 0 < amount
      then (case try_acquire amount c of (Inl s, c') \<Rightarrow> (Inl s, c') | (Inr u, c') \<Rightarrow> (Inr amount, c'))
      else (Inr amount, c))"

definition region_release :: "nat \<Rightarrow> counter \<Rightarrow> counter" where
  "region_release amount c = (if 0 < amount then snd (release amount c) else c)"

definition commit_reservation :: "nat \<Rightarrow> nat" where
  "commit_reservation amount = 0"

definition reduce_reservation :: "nat \<Rightarrow> nat \<Rightarrow> counter \<Rightarrow> nat \<times> counter" where
  "reduce_reservation amount held c = (held - amount, region_release amount c)"

definition drop_reservation :: "nat \<Rightarrow> counter \<Rightarrow> counter" where
  "drop_reservation held c = region_release held c"

definition counter_ok :: "counter \<Rightarrow> bool" where
  "counter_ok c \<longleftrightarrow> current c \<le> limit c \<and> current c \<le> peak c \<and> peak c \<le> limit c \<and> limit c \<le> usize_max"

lemma region_release_exact:
  "amount \<le> current c \<Longrightarrow> region_release amount c = c\<lparr>current := current c - amount\<rparr>"
  by (auto simp: region_release_def release_def release_turn_def checked_sub_def)

lemma reserve_exact:
  assumes "limit c \<le> usize_max"
  shows "reserve amount c =
    (if current c + amount \<le> limit c
     then (Inr amount, c\<lparr>current := current c + amount, peak := (if 0 < amount then max (peak c) (current c + amount) else peak c)\<rparr>)
     else if 0 < amount then (Inl \<lparr>snap_current = current c, snap_limit = limit c\<rparr>, c) else (Inr 0, c))"
  using assms by (auto simp: reserve_def try_acquire_def acquire_turn_def checked_add_def split: option.splits)

text \<open>A reservation that is not committed leaves the counter as it was, a committed one leaves it
  charged with what was reserved less what was given back.\<close>

lemma reservation_rolls_back:
  assumes "counter_ok c" "reserve amount c = (Inr held, c1)" "n \<le> held"
  shows "current (drop_reservation held c1) = current c"
    "(let (rest, c2) = reduce_reservation n held c1 in current (drop_reservation rest c2)) = current c"
    "current (drop_reservation (commit_reservation held) c1) = current c + held"
  using assms
  by (auto simp: reserve_exact counter_ok_def drop_reservation_def reduce_reservation_def commit_reservation_def
      region_release_exact Let_def split: if_splits)

subsection \<open>A counter at work\<close>

definition demo_raising :: budget_sys where
  "demo_raising = \<lparr>cell = \<lparr>current = 4, peak = 0, limit = 10\<rparr>, threads = (\<lambda>_. Rest)(0 := Raising 4), charged = 4\<rparr>"

lemma demo_raising_reachable: "budget_step\<^sup>*\<^sup>* (budget_start 10) demo_raising"
proof -
  let ?t = "(budget_start 10)\<lparr>threads := (\<lambda>_. Rest)(0 := Acquiring 4 0)\<rparr>"
  have "budget_step (budget_start 10) ?t"
    using budget_step.AcquireLoad [of "budget_start 10" 0 4] by (simp add: budget_start_def counter_new_def)
  moreover have "budget_step ?t demo_raising"
    using budget_step.AcquireSwap [of ?t 0 4 0 4]
    by (simp add: budget_start_def counter_new_def demo_raising_def u64_max_def)
  ultimately show ?thesis
    by (meson converse_rtranclp_into_rtranclp rtranclp.rtrancl_refl)
qed

lemma budget_is_never_exceeded_witness:
  "current (cell demo_raising) = charged demo_raising \<and> charged demo_raising \<le> 10 \<and> peak (cell demo_raising) \<le> 10
    \<and> (charged demo_raising \<le> peak (cell demo_raising) \<or> will_raise (threads demo_raising) (charged demo_raising))"
  by (rule budget_is_never_exceeded [OF demo_raising_reachable])

end
