(* ===== verification/Bufpool.thy ===== *)
theory Bufpool
  imports Budget
begin

text \<open>
  The buffer pools of a region (\<open>crates/kithara-bufpool/src/pool/core.rs\<close>,
  \<open>pool/shard.rs\<close>, \<open>pool/storage.rs\<close>, \<open>buffer/owned.rs\<close> and the reclaiming of
  \<open>budget/limits.rs\<close>): sharded queues of idle buffers, a cold queue filled at construction,
  guards that own a buffer and give it back when they are dropped, and one byte budget for all.
  A buffer is its capacity with its contents; the allocator is a parameter, \<open>alloc n\<close> being the
  capacity it grants for \<open>n\<close> elements, if any.  The pools of a region hold the same kind of
  element at a size of their own, and operations do not overlap.
\<close>

subsection \<open>Buffers and pools\<close>

record 'a buf =
  cap :: nat
  items :: "'a list"

definition buf_default :: "'a buf" where
  "buf_default = \<lparr>cap = 0, items = []\<rparr>"

datatype pool_error =
    OverallBudgetExceeded nat nat nat
  | AllocationFailed nat nat nat
  | CapacityOverflow nat nat
  | EmptyRing
  | InvalidConfig string string

record pool_config =
  initial_buffers :: nat
  initial_capacity :: nat
  max_buffers :: nat
  max_retained_capacity :: nat

record 'a pool =
  config :: pool_config
  elem_size :: nat
  slots :: nat
  shards :: "'a buf list list"
  cold_slots :: nat
  cold :: "'a buf list"
  alloc_misses :: nat
  home_hits :: nat
  put_drops :: nat
  steal_hits :: nat

definition MAX_SLOTS :: nat where "MAX_SLOTS = 1024"
definition MAX_PROBE :: nat where "MAX_PROBE = 4"

text \<open>\<open>Storage for Vec<T>\<close>.\<close>

definition bytes_for_capacity :: "'a pool \<Rightarrow> nat \<Rightarrow> nat option" where
  "bytes_for_capacity p c = (if c * elem_size p \<le> usize_max then Some (c * elem_size p) else None)"

definition checked_bytes :: "'a pool \<Rightarrow> nat \<Rightarrow> (pool_error, nat) result" where
  "checked_bytes p c =
     ok_or (CapacityOverflow c (case bytes_for_capacity p 1 of Some n \<Rightarrow> n | None \<Rightarrow> usize_max)) (bytes_for_capacity p c)"

definition move_from :: "'a buf \<Rightarrow> 'a buf \<Rightarrow> 'a buf \<times> 'a buf" where
  "move_from into other = (into\<lparr>items := items into @ items other\<rparr>, other\<lparr>items := []\<rparr>)"

subsection \<open>Shards\<close>

definition normalize_buf :: "pool_config \<Rightarrow> 'a buf \<Rightarrow> bool \<times> 'a buf" where
  "normalize_buf cfg b =
     (0 < cap b \<and> (max_retained_capacity cfg = 0 \<or> cap b \<le> max_retained_capacity cfg), b\<lparr>items := []\<rparr>)"

definition try_get :: "nat \<Rightarrow> 'a pool \<Rightarrow> 'a buf option \<times> 'a pool" where
  "try_get i p =
     (case shards p ! i of
        [] \<Rightarrow> (None, p) | b # bs \<Rightarrow> (Some b, p\<lparr>shards := (shards p)[i := bs]\<rparr>))"

text \<open>The buffer comes back, cleared, when the shard does not keep it.\<close>

definition try_put :: "'a buf \<Rightarrow> nat \<Rightarrow> 'a pool \<Rightarrow> 'a buf option \<times> 'a pool" where
  "try_put b i p =
     (let (keep, b) = normalize_buf (config p) b
      in if \<not> keep then (Some b, p)
         else if length (shards p ! i) < slots p then (None, p\<lparr>shards := (shards p)[i := shards p ! i @ [b]]\<rparr>)
         else (Some b, p))"

subsection \<open>Pool operations\<close>

definition release_value :: "'a pool \<Rightarrow> 'a buf \<Rightarrow> counter \<Rightarrow> nat \<times> counter" where
  "release_value p b c =
     (let bytes = (case bytes_for_capacity p (cap b) of Some n \<Rightarrow> n | None \<Rightarrow> usize_max)
      in (bytes, region_release bytes c))"

definition put :: "'a buf \<Rightarrow> nat \<Rightarrow> 'a pool \<Rightarrow> counter \<Rightarrow> 'a pool \<times> counter" where
  "put b i p c =
     (case try_put b i p of
        (None, p') \<Rightarrow> (p', c)
      | (Some b', p') \<Rightarrow> (p'\<lparr>put_drops := put_drops p' + 1\<rparr>, snd (release_value p' b' c)))"

fun first_hit :: "nat list \<Rightarrow> 'a pool \<Rightarrow> 'a buf option \<times> 'a pool" where
  "first_hit [] p = (None, p)"
| "first_hit (i # is) p =
     (case try_get i p of (Some b, p') \<Rightarrow> (Some b, p') | (None, _) \<Rightarrow> first_hit is p)"

definition try_steal :: "nat \<Rightarrow> 'a pool \<Rightarrow> 'a buf option \<times> 'a pool" where
  "try_steal home p =
     (let n = length (shards p); probes = min MAX_PROBE (n - 1)
      in first_hit (map (\<lambda>k. (home + k) mod n) [1..<probes + 1]) p)"

definition acquire :: "nat \<Rightarrow> 'a pool \<Rightarrow> 'a buf \<times> 'a pool" where
  "acquire home p =
     (case try_get home p of
        (Some b, p1) \<Rightarrow> (b, p1\<lparr>home_hits := home_hits p1 + 1\<rparr>)
      | (None, _) \<Rightarrow> (case try_steal home p of
          (Some b, p1) \<Rightarrow> (b, p1\<lparr>steal_hits := steal_hits p1 + 1\<rparr>)
        | (None, _) \<Rightarrow> (case cold p of
            b # bs \<Rightarrow> (b, p\<lparr>cold := bs, home_hits := home_hits p + 1\<rparr>)
          | [] \<Rightarrow> (buf_default, p\<lparr>alloc_misses := alloc_misses p + 1\<rparr>))))"

definition reserve_bytes :: "nat \<Rightarrow> counter \<Rightarrow> (pool_error, nat) result \<times> counter" where
  "reserve_bytes amount c =
     (case reserve amount c of
        (Inl s, c') \<Rightarrow> (Inl (OverallBudgetExceeded amount (snap_current s) (snap_limit s)), c')
      | (Inr held, c') \<Rightarrow> (Inr held, c'))"

text \<open>The second half of \<open>allocate\<close>: the granted capacity is charged in full, what the request
  did not cover by a reservation of its own.\<close>

definition settle_allocation ::
    "'a pool \<Rightarrow> nat \<Rightarrow> nat \<Rightarrow> nat \<Rightarrow> nat \<Rightarrow> counter \<Rightarrow> (pool_error, 'a buf) result \<times> counter" where
  "settle_allocation p granted old_bytes requested_delta held c =
     (case checked_bytes p granted of
        Inl e \<Rightarrow> (Inl e, drop_reservation held c)
      | Inr actual_bytes \<Rightarrow>
          if actual_bytes < old_bytes
          then (Inl (InvalidConfig ''buffer growth'' ''allocator returned less capacity than the current buffer''),
                drop_reservation held c)
          else if requested_delta < actual_bytes - old_bytes
          then (case reserve_bytes (actual_bytes - old_bytes - requested_delta) c of
                  (Inl e, c1) \<Rightarrow> (Inl e, drop_reservation held c1)
                | (Inr extra, c1) \<Rightarrow>
                    (Inr \<lparr>cap = granted, items = []\<rparr>,
                     drop_reservation (commit_reservation held) (drop_reservation (commit_reservation extra) c1)))
          else (case reduce_reservation (requested_delta - (actual_bytes - old_bytes)) held c of
                  (held', c1) \<Rightarrow>
                    (Inr \<lparr>cap = granted, items = []\<rparr>, drop_reservation (commit_reservation held') c1)))"

definition allocate ::
    "(nat \<Rightarrow> nat option) \<Rightarrow> 'a pool \<Rightarrow> nat \<Rightarrow> nat \<Rightarrow> counter \<Rightarrow> (pool_error, 'a buf) result \<times> counter" where
  "allocate alloc p capacity old_bytes c =
     (case checked_bytes p capacity of
        Inl e \<Rightarrow> (Inl e, c)
      | Inr requested_bytes \<Rightarrow>
          if requested_bytes < old_bytes
          then (Inl (InvalidConfig ''buffer growth'' ''new capacity is smaller than the current capacity''), c)
          else (case reserve_bytes (requested_bytes - old_bytes) c of
              (Inl e, c1) \<Rightarrow> (Inl e, c1)
            | (Inr held, c1) \<Rightarrow> (case alloc capacity of
                None \<Rightarrow> (Inl (AllocationFailed (requested_bytes - old_bytes) (current c1) (limit c1)), drop_reservation held c1)
              | Some granted \<Rightarrow> settle_allocation p granted old_bytes (requested_bytes - old_bytes) held c1)))"

text \<open>\<open>reuse_for_growth\<close>: every idle buffer of a shard is looked at once, the ones too small going
  to the back of the queue they came from.\<close>

fun reuse_shard ::
    "nat \<Rightarrow> nat \<Rightarrow> 'a buf \<Rightarrow> nat \<Rightarrow> nat \<Rightarrow> 'a pool \<Rightarrow> counter \<Rightarrow> 'a buf option \<times> 'a pool \<times> counter" where
  "reuse_shard 0 i cur new_len home p c = (None, p, c)"
| "reuse_shard (Suc n) i cur new_len home p c =
     (case try_get i p of
        (None, _) \<Rightarrow> (None, p, c)
      | (Some b, p1) \<Rightarrow>
          if new_len \<le> cap b
          then (let (b', cur') = move_from b cur; (p2, c2) = put cur' home p1 c in (Some b', p2, c2))
          else (let (p2, c2) = put b i p1 c in reuse_shard n i cur new_len home p2 c2))"

fun reuse_shards ::
    "nat list \<Rightarrow> 'a buf \<Rightarrow> nat \<Rightarrow> nat \<Rightarrow> 'a pool \<Rightarrow> counter \<Rightarrow> 'a buf option \<times> 'a pool \<times> counter" where
  "reuse_shards [] cur new_len home p c = (None, p, c)"
| "reuse_shards (i # is) cur new_len home p c =
     (case reuse_shard (length (shards p ! i)) i cur new_len home p c of
        (Some b, p1, c1) \<Rightarrow> (Some b, p1, c1)
      | (None, p1, c1) \<Rightarrow> reuse_shards is cur new_len home p1 c1)"

fun reuse_cold ::
    "nat \<Rightarrow> 'a buf \<Rightarrow> nat \<Rightarrow> nat \<Rightarrow> 'a pool \<Rightarrow> counter \<Rightarrow> 'a buf option \<times> 'a pool \<times> counter" where
  "reuse_cold 0 cur new_len home p c = (None, p, c)"
| "reuse_cold (Suc n) cur new_len home p c =
     (case cold p of
        [] \<Rightarrow> (None, p, c)
      | b # bs \<Rightarrow>
          let p1 = p\<lparr>cold := bs\<rparr>
          in if new_len \<le> cap b
             then (let (b', cur') = move_from b cur; (p2, c2) = put cur' home p1 c in (Some b', p2, c2))
             else if length bs < cold_slots p
             then reuse_cold n cur new_len home (p1\<lparr>cold := bs @ [b]\<rparr>) c
             else (let (p2, c2) = put b home p1 c in reuse_cold n cur new_len home p2 c2))"

definition reuse_for_growth ::
    "'a buf \<Rightarrow> nat \<Rightarrow> nat \<Rightarrow> 'a pool \<Rightarrow> counter \<Rightarrow> 'a buf option \<times> 'a pool \<times> counter" where
  "reuse_for_growth cur new_len home p c =
     (case reuse_shards (map (\<lambda>k. (home + k) mod length (shards p)) [0..<length (shards p)]) cur new_len home p c of
        (Some b, p1, c1) \<Rightarrow> (Some b, p1, c1)
      | (None, p1, c1) \<Rightarrow> reuse_cold (length (cold p1)) cur new_len home p1 c1)"

subsection \<open>Reclaiming idle buffers\<close>

fun release_list :: "'a pool \<Rightarrow> 'a buf list \<Rightarrow> nat \<Rightarrow> nat \<Rightarrow> counter \<Rightarrow> nat \<times> 'a buf list \<times> counter" where
  "release_list p [] target released c = (released, [], c)"
| "release_list p (b # bs) target released c =
     (let (bytes, c1) = release_value p b c; released = sat_add usize_max released bytes
      in if target \<le> released then (released, bs, c1) else release_list p bs target released c1)"

fun release_lists ::
    "'a pool \<Rightarrow> 'a buf list list \<Rightarrow> nat \<Rightarrow> nat \<Rightarrow> counter \<Rightarrow> nat \<times> 'a buf list list \<times> counter" where
  "release_lists p [] target released c = (released, [], c)"
| "release_lists p (q # qs) target released c =
     (case release_list p q target released c of
        (released, q', c1) \<Rightarrow>
          if target \<le> released then (released, q' # qs, c1)
          else (case release_lists p qs target released c1 of (released, qs', c2) \<Rightarrow> (released, q' # qs', c2)))"

definition release_idle :: "nat \<Rightarrow> 'a pool \<Rightarrow> counter \<Rightarrow> nat \<times> 'a pool \<times> counter" where
  "release_idle target p c =
     (if target = 0 then (0, p, c)
      else case release_lists p (shards p) target 0 c of
        (released, qs, c1) \<Rightarrow>
          if target \<le> released then (released, p\<lparr>shards := qs\<rparr>, c1)
          else (case release_list p (cold p) target released c1 of
            (released, q, c2) \<Rightarrow> (released, p\<lparr>shards := qs, cold := q\<rparr>, c2)))"

record 'a region =
  budget :: counter
  pools :: "'a pool list"
  next_slot :: nat

fun reclaim_loop :: "nat list \<Rightarrow> nat \<Rightarrow> nat \<Rightarrow> 'a region \<Rightarrow> nat \<times> 'a region" where
  "reclaim_loop [] target released r = (released, r)"
| "reclaim_loop (k # ks) target released r =
     (case release_idle (target - released) (pools r ! k) (budget r) of
        (n, p, c) \<Rightarrow>
          let released = sat_add usize_max released n; r = r\<lparr>budget := c, pools := (pools r)[k := p]\<rparr>
          in if target \<le> released then (released, r) else reclaim_loop ks target released r)"

definition reclaim :: "nat \<Rightarrow> 'a region \<Rightarrow> nat \<times> 'a region" where
  "reclaim target r =
     (if target = 0 \<or> pools r = [] then (0, r)
      else let n = length (pools r); start = next_slot r mod n
           in reclaim_loop (map (\<lambda>offset. (start + offset) mod n) [0..<n]) target 0
                (r\<lparr>next_slot := (next_slot r + 1) mod 2 ^ 64\<rparr>))"

definition reclaim_for :: "pool_error \<Rightarrow> 'a region \<Rightarrow> bool \<times> 'a region" where
  "reclaim_for e r =
     (case e of
        OverallBudgetExceeded additional allocated most \<Rightarrow> (True, snd (reclaim (additional - (most - allocated)) r))
      | _ \<Rightarrow> (False, r))"

subsection \<open>Growth\<close>

text \<open>The failure of a growth, if any, with the buffer the guard is left with.\<close>

definition store_pool :: "nat \<Rightarrow> 'a pool \<Rightarrow> counter \<Rightarrow> 'a region \<Rightarrow> 'a region" where
  "store_pool k p c r = r\<lparr>budget := c, pools := (pools r)[k := p]\<rparr>"

definition target_capacity :: "'a pool \<Rightarrow> counter \<Rightarrow> nat \<Rightarrow> nat \<Rightarrow> nat \<Rightarrow> nat" where
  "target_capacity p c old_bytes old_capacity new_len =
     (let available = limit c - current c;
          affordable = sat_add usize_max old_bytes available div elem_size p;
          amortized = max new_len (sat_mul usize_max old_capacity 2)
      in if new_len \<le> affordable then min amortized affordable else new_len)"

definition may_reuse :: "pool_error \<Rightarrow> bool" where
  "may_reuse e = (case e of OverallBudgetExceeded x y z \<Rightarrow> True | AllocationFailed x y z \<Rightarrow> True | _ \<Rightarrow> False)"

text \<open>A growth whose allocation failed with \<open>e\<close>: an idle buffer that is large enough, or the
  allocation once more with idle buffers given up for it.\<close>

definition grow_pressed ::
    "(nat \<Rightarrow> nat option) \<Rightarrow> nat \<Rightarrow> 'a buf \<Rightarrow> nat \<Rightarrow> nat \<Rightarrow> nat \<Rightarrow> nat \<Rightarrow> pool_error \<Rightarrow> 'a region
      \<Rightarrow> pool_error option \<times> 'a buf \<times> 'a region" where
  "grow_pressed alloc k cur new_len home wanted old_bytes e r =
     (case (if may_reuse e then reuse_for_growth cur new_len home (pools r ! k) (budget r) else (None, pools r ! k, budget r)) of
        (Some b, p2, c2) \<Rightarrow> (None, b, store_pool k p2 c2 r)
      | (None, p2, c2) \<Rightarrow>
          (case reclaim_for e (store_pool k p2 c2 r) of
             (False, r3) \<Rightarrow> (Some e, cur, r3)
           | (True, r3) \<Rightarrow>
               (case allocate alloc (pools r3 ! k) wanted old_bytes (budget r3) of
                  (Inr grown, c4) \<Rightarrow> (None, fst (move_from grown cur), r3\<lparr>budget := c4\<rparr>)
                | (Inl e', c4) \<Rightarrow> (Some e', cur, r3\<lparr>budget := c4\<rparr>))))"

definition grow ::
    "(nat \<Rightarrow> nat option) \<Rightarrow> nat \<Rightarrow> 'a buf \<Rightarrow> nat \<Rightarrow> nat \<Rightarrow> 'a region \<Rightarrow> pool_error option \<times> 'a buf \<times> 'a region" where
  "grow alloc k cur new_len home r =
     (let p = pools r ! k; c = budget r
      in if new_len \<le> cap cur then (None, cur, r)
      else case checked_bytes p (cap cur) of
        Inl e \<Rightarrow> (Some e, cur, r)
      | Inr old_bytes \<Rightarrow> (case checked_bytes p 1 of
          Inl e \<Rightarrow> (Some e, cur, r)
        | Inr element_bytes \<Rightarrow>
            if element_bytes = 0 then (None, cur, r)
            else let wanted = target_capacity p c old_bytes (cap cur) new_len
            in (case allocate alloc p wanted old_bytes c of
                (Inr grown, c1) \<Rightarrow> (None, fst (move_from grown cur), r\<lparr>budget := c1\<rparr>)
              | (Inl e, c1) \<Rightarrow> grow_pressed alloc k cur new_len home wanted old_bytes e (r\<lparr>budget := c1\<rparr>))))"

subsection \<open>Bytes of idle buffers\<close>

definition weight :: "'a pool \<Rightarrow> 'a buf \<Rightarrow> nat" where
  "weight p b = cap b * elem_size p"

definition queue_bytes :: "'a pool \<Rightarrow> 'a buf list \<Rightarrow> nat" where
  "queue_bytes p q = sum_list (map (weight p) q)"

definition idle_bytes :: "'a pool \<Rightarrow> nat" where
  "idle_bytes p = sum_list (map (queue_bytes p) (shards p)) + queue_bytes p (cold p)"

definition fits :: "'a pool \<Rightarrow> 'a buf \<Rightarrow> bool" where
  "fits p b \<longleftrightarrow> weight p b \<le> usize_max"

definition pool_wf :: "'a pool \<Rightarrow> bool" where
  "pool_wf p \<longleftrightarrow> shards p \<noteq> [] \<and> (\<forall>b \<in> set (cold p @ concat (shards p)). fits p b \<and> items b = [])"

text \<open>What an operation on a pool and its counter leaves alone.\<close>

definition same_pool :: "'a pool \<Rightarrow> 'a pool \<Rightarrow> bool" where
  "same_pool p p' \<longleftrightarrow> elem_size p' = elem_size p \<and> length (shards p') = length (shards p)"

definition balanced :: "'a pool \<Rightarrow> counter \<Rightarrow> nat \<Rightarrow> bool" where
  "balanced p c x \<longleftrightarrow> pool_wf p \<and> counter_ok c \<and> current c = idle_bytes p + x"

lemma same_pool_refl [simp]: "same_pool p p"
  by (simp add: same_pool_def)

lemma same_pool_trans: "same_pool p q \<Longrightarrow> same_pool q r \<Longrightarrow> same_pool p r"
  by (simp add: same_pool_def)

lemma same_pool_weight: "same_pool p p' \<Longrightarrow> weight p' = weight p" "same_pool p p' \<Longrightarrow> fits p' = fits p"
  by (auto simp: same_pool_def weight_def fits_def fun_eq_iff)

lemma weight_irrelevant [simp]:
  "weight (p\<lparr>shards := a\<rparr>) = weight p" "weight (p\<lparr>cold := b\<rparr>) = weight p"
  "weight (p\<lparr>put_drops := n\<rparr>) = weight p" "weight (p\<lparr>home_hits := n\<rparr>) = weight p"
  "weight (p\<lparr>steal_hits := n\<rparr>) = weight p" "weight (p\<lparr>alloc_misses := n\<rparr>) = weight p"
  by (simp_all add: weight_def fun_eq_iff)

lemma queue_bytes_irrelevant [simp]:
  "queue_bytes (p\<lparr>shards := a\<rparr>) = queue_bytes p" "queue_bytes (p\<lparr>cold := b\<rparr>) = queue_bytes p"
  "queue_bytes (p\<lparr>put_drops := n\<rparr>) = queue_bytes p" "queue_bytes (p\<lparr>home_hits := n\<rparr>) = queue_bytes p"
  "queue_bytes (p\<lparr>steal_hits := n\<rparr>) = queue_bytes p" "queue_bytes (p\<lparr>alloc_misses := n\<rparr>) = queue_bytes p"
  by (simp_all add: queue_bytes_def fun_eq_iff)

lemma fits_irrelevant [simp]:
  "fits (p\<lparr>shards := a\<rparr>) = fits p" "fits (p\<lparr>cold := b\<rparr>) = fits p"
  "fits (p\<lparr>put_drops := n\<rparr>) = fits p" "fits (p\<lparr>home_hits := n\<rparr>) = fits p"
  "fits (p\<lparr>steal_hits := n\<rparr>) = fits p" "fits (p\<lparr>alloc_misses := n\<rparr>) = fits p"
  by (simp_all add: fits_def fun_eq_iff)

lemma stats_irrelevant [simp]:
  "idle_bytes (p\<lparr>put_drops := n\<rparr>) = idle_bytes p" "idle_bytes (p\<lparr>home_hits := n\<rparr>) = idle_bytes p"
  "idle_bytes (p\<lparr>steal_hits := n\<rparr>) = idle_bytes p" "idle_bytes (p\<lparr>alloc_misses := n\<rparr>) = idle_bytes p"
  "pool_wf (p\<lparr>put_drops := n\<rparr>) = pool_wf p" "pool_wf (p\<lparr>home_hits := n\<rparr>) = pool_wf p"
  "pool_wf (p\<lparr>steal_hits := n\<rparr>) = pool_wf p" "pool_wf (p\<lparr>alloc_misses := n\<rparr>) = pool_wf p"
  "same_pool q (p\<lparr>put_drops := n\<rparr>) = same_pool q p" "same_pool q (p\<lparr>home_hits := n\<rparr>) = same_pool q p"
  "same_pool q (p\<lparr>steal_hits := n\<rparr>) = same_pool q p" "same_pool q (p\<lparr>alloc_misses := n\<rparr>) = same_pool q p"
  by (simp_all add: idle_bytes_def pool_wf_def same_pool_def)

lemma queue_bytes_simps [simp]:
  "queue_bytes p [] = 0" "queue_bytes p (b # q) = weight p b + queue_bytes p q"
  "queue_bytes p (q @ q') = queue_bytes p q + queue_bytes p q'"
  by (simp_all add: queue_bytes_def)

lemma sum_list_swap:
  "i < length xs \<Longrightarrow> sum_list (map f (xs[i := y])) + f (xs ! i) = sum_list (map f xs) + (f y :: nat)"
  by (induction xs arbitrary: i) (auto split: nat.split)

lemma idle_bytes_shard:
  "i < length (shards p) \<Longrightarrow>
    idle_bytes (p\<lparr>shards := (shards p)[i := q]\<rparr>) + queue_bytes p (shards p ! i) = idle_bytes p + queue_bytes p q"
  using sum_list_swap [of i "shards p" "queue_bytes p" q] by (simp add: idle_bytes_def)

lemma pool_wf_shard:
  assumes "pool_wf p" "i < length (shards p)" "\<And>b. b \<in> set q \<Longrightarrow> b \<in> set (shards p ! i) \<or> fits p b \<and> items b = []"
  shows "pool_wf (p\<lparr>shards := (shards p)[i := q]\<rparr>)"
  using assms set_update_subset_insert [of "shards p" i q] nth_mem [OF assms(2)]
  by (fastforce simp: pool_wf_def)

lemma release_value_exact:
  assumes "fits p b" "weight p b \<le> current c"
  shows "release_value p b c = (weight p b, c\<lparr>current := current c - weight p b\<rparr>)"
  using assms by (simp add: release_value_def bytes_for_capacity_def fits_def weight_def region_release_exact Let_def)

lemma counter_ok_less [simp]: "counter_ok c \<Longrightarrow> n \<le> current c \<Longrightarrow> counter_ok (c\<lparr>current := n\<rparr>)"
  by (simp add: counter_ok_def)

lemma try_get_Some:
  assumes "try_get i p = (Some b, p')" "i < length (shards p)" "pool_wf p"
  shows "pool_wf p'" "same_pool p p'" "idle_bytes p = weight p b + idle_bytes p'" "fits p b" "items b = []"
proof -
  obtain q where q: "shards p ! i = b # q" "p' = p\<lparr>shards := (shards p)[i := q]\<rparr>"
    using assms(1) by (auto simp: try_get_def split: list.splits)
  have "b \<in> set (concat (shards p))"
    using q(1) assms(2) by (metis list.set_intros(1) nth_mem set_concat UN_I)
  then show "fits p b" "items b = []"
    using assms(3) by (simp_all add: pool_wf_def)
  show "pool_wf p'"
    unfolding q(2) by (rule pool_wf_shard [OF assms(3,2)]) (simp add: q(1))
  show "same_pool p p'"
    by (simp add: q(2) same_pool_def)
  show "idle_bytes p = weight p b + idle_bytes p'"
    using idle_bytes_shard [OF assms(2), of q] by (simp add: q)
qed

lemma put_balanced:
  assumes "balanced p c (weight p b + x)" "i < length (shards p)" "fits p b" "put b i p c = (p', c')"
  shows "balanced p' c' x" "same_pool p p'" "limit c' = limit c"
proof -
  have b: "weight p (b\<lparr>items := []\<rparr>) = weight p b" "fits p (b\<lparr>items := []\<rparr>) = fits p b"
    by (simp_all add: weight_def fits_def)
  let ?q = "shards p ! i @ [b\<lparr>items := []\<rparr>]"
  have kept: "balanced (p\<lparr>shards := (shards p)[i := ?q]\<rparr>) c x"
    using assms(1,3) idle_bytes_shard [OF assms(2), of ?q] b
    by (auto simp: balanced_def intro!: pool_wf_shard [OF _ assms(2)])
  have "weight p b \<le> current c"
    using assms(1) by (simp add: balanced_def)
  from release_value_exact [OF _ this] have rel:
      "snd (release_value p (b\<lparr>items := []\<rparr>) c) = c\<lparr>current := current c - weight p b\<rparr>"
    using assms(3) \<open>weight p b \<le> current c\<close> by (simp add: release_value_exact b)
  have "balanced p (c\<lparr>current := current c - weight p b\<rparr>) x"
    using assms(1) by (auto simp: balanced_def)
  moreover have "p' = p\<lparr>shards := (shards p)[i := ?q]\<rparr> \<and> c' = c
      \<or> p' = p\<lparr>put_drops := put_drops p + 1\<rparr> \<and> c' = c\<lparr>current := current c - weight p b\<rparr>"
    using assms(4) rel by (auto simp: put_def try_put_def normalize_buf_def Let_def split: if_splits)
  ultimately show "balanced p' c' x" "same_pool p p'" "limit c' = limit c"
    using kept by (auto simp: balanced_def same_pool_def)
qed

text \<open>What an operation that takes a buffer out of the idle ones does.\<close>

definition takes :: "'a pool \<Rightarrow> 'a buf \<Rightarrow> 'a pool \<Rightarrow> bool" where
  "takes p b p' \<longleftrightarrow> pool_wf p' \<and> same_pool p p' \<and> idle_bytes p = weight p b + idle_bytes p' \<and> fits p b \<and> items b = []"

lemma try_get_takes: "try_get i p = (Some b, p') \<Longrightarrow> i < length (shards p) \<Longrightarrow> pool_wf p \<Longrightarrow> takes p b p'"
  by (auto simp: takes_def dest: try_get_Some)

lemma first_hit_takes:
  "first_hit is p = (Some b, p') \<Longrightarrow> pool_wf p \<Longrightarrow> (\<And>i. i \<in> set is \<Longrightarrow> i < length (shards p)) \<Longrightarrow> takes p b p'"
proof (induction "is")
  case (Cons i "is")
  then show ?case
    using try_get_takes [of i p b p'] by (auto split: prod.splits option.splits)
qed simp

lemma cold_takes:
  assumes "pool_wf p" "cold p = b # bs"
  shows "takes p b (p\<lparr>cold := bs\<rparr>)"
  using assms by (simp add: takes_def pool_wf_def same_pool_def idle_bytes_def)

lemma takes_stats [simp]:
  "takes p b (p'\<lparr>home_hits := n\<rparr>) = takes p b p'" "takes p b (p'\<lparr>steal_hits := n\<rparr>) = takes p b p'"
  "takes p b (p'\<lparr>alloc_misses := n\<rparr>) = takes p b p'"
  by (simp_all add: takes_def)

lemma acquire_takes:
  assumes "pool_wf p" "home < length (shards p)" "acquire home p = (b, p')"
  shows "takes p b p'"
proof -
  have steal: "takes p x q" if "try_steal home p = (Some x, q)" for x q
    by (rule first_hit_takes [OF that [unfolded try_steal_def Let_def] assms(1)]) (use assms(2) in \<open>auto intro!: mod_less_divisor\<close>)
  have none: "takes p buf_default (p\<lparr>alloc_misses := n\<rparr>)" for n
    using assms(1) by (simp add: takes_def weight_def fits_def buf_default_def)
  have cold: "takes p x (p\<lparr>cold := xs, home_hits := n\<rparr>)" if "cold p = x # xs" for x xs n
    using cold_takes [OF assms(1) that] by simp
  show ?thesis
    using assms(3) try_get_takes [OF _ assms(2,1)] steal none cold
    by (auto simp: acquire_def split: prod.splits option.splits list.splits)
qed

lemma reserve_bytes_spec:
  assumes "counter_ok c" "reserve_bytes amount c = (res, c')"
  shows "counter_ok c'" "limit c' = limit c"
    "case res of Inl e \<Rightarrow> c' = c \<and> (\<exists>x y. e = OverallBudgetExceeded amount x y) | Inr held \<Rightarrow> held = amount \<and> current c' = current c + amount"
proof -
  have l: "limit c \<le> usize_max"
    using assms(1) by (simp add: counter_ok_def)
  have "counter_ok c' \<and> limit c' = limit c \<and>
    (case res of Inl e \<Rightarrow> c' = c \<and> (\<exists>x y. e = OverallBudgetExceeded amount x y) | Inr held \<Rightarrow> held = amount \<and> current c' = current c + amount)"
    using assms unfolding reserve_bytes_def reserve_exact [OF l]
    by (cases "current c + amount \<le> limit c"; cases "0 < amount") (auto simp: counter_ok_def)
  then show "counter_ok c'" "limit c' = limit c"
    "case res of Inl e \<Rightarrow> c' = c \<and> (\<exists>x y. e = OverallBudgetExceeded amount x y) | Inr held \<Rightarrow> held = amount \<and> current c' = current c + amount"
    by auto
qed

lemma checked_bytes_Inr [simp]:
  "checked_bytes p n = Inr m \<longleftrightarrow> m = n * elem_size p \<and> n * elem_size p \<le> usize_max"
  by (auto simp: checked_bytes_def bytes_for_capacity_def)

lemma drop_reservation_spec:
  assumes "counter_ok c" "held \<le> current c"
  shows "drop_reservation held c = c\<lparr>current := current c - held\<rparr>"
  using assms(2) by (simp add: drop_reservation_def region_release_exact)

lemma settle_allocation_spec:
  assumes "counter_ok c" "d \<le> current c" "settle_allocation p granted old d d c = (res, c')"
  shows "counter_ok c' \<and> limit c' = limit c \<and>
    (case res of
       Inl e \<Rightarrow> current c' = current c - d
     | Inr b \<Rightarrow> items b = [] \<and> fits p b \<and> old \<le> weight p b \<and> current c' + old + d = current c + weight p b
         \<and> cap b = granted)"
proof (cases "granted * elem_size p \<le> usize_max \<and> old \<le> granted * elem_size p")
  case False
  then obtain e where "res = Inl e" "c' = drop_reservation d c"
    using assms(3) by (cases "checked_bytes p granted") (auto simp: settle_allocation_def split: if_splits)
  then show ?thesis
    using assms(1,2) by (simp add: drop_reservation_spec)
next
  case True
  define a where "a = granted * elem_size p - old"
  have ok: "checked_bytes p granted = Inr (granted * elem_size p)"
    using True by simp
  show ?thesis
  proof (cases "d < a")
    case d: True
    obtain rr c2 where r2: "reserve_bytes (a - d) c = (rr, c2)"
      by fastforce
    note s2 = reserve_bytes_spec [OF assms(1) r2]
    show ?thesis
      using assms d r2 s2 True
      by (cases rr) (auto simp: settle_allocation_def ok drop_reservation_spec commit_reservation_def fits_def weight_def a_def)
  next
    case d: False
    then show ?thesis
      using assms True
      by (auto simp: settle_allocation_def ok reduce_reservation_def commit_reservation_def drop_reservation_spec
          region_release_exact fits_def weight_def a_def)
  qed
qed

lemma allocate_spec:
  assumes "counter_ok c" "allocate alloc p capacity old c = (res, c')"
  shows "counter_ok c' \<and> limit c' = limit c \<and>
    (case res of
       Inl e \<Rightarrow> current c' = current c
     | Inr b \<Rightarrow> items b = [] \<and> fits p b \<and> old \<le> weight p b \<and> current c' + old = current c + weight p b
         \<and> alloc capacity = Some (cap b))"
proof (cases "capacity * elem_size p \<le> usize_max \<and> old \<le> capacity * elem_size p")
  case False
  then obtain e where "res = Inl e" "c' = c"
    using assms(2) by (cases "checked_bytes p capacity") (auto simp: allocate_def split: if_splits)
  then show ?thesis
    using assms(1) by simp
next
  case True
  define d where "d = capacity * elem_size p - old"
  have ok: "checked_bytes p capacity = Inr (capacity * elem_size p)" "\<not> capacity * elem_size p < old"
    using True by simp_all
  obtain rr c1 where r1: "reserve_bytes d c = (rr, c1)"
    by fastforce
  note s1 = reserve_bytes_spec [OF assms(1) r1]
  show ?thesis
  proof (cases rr)
    case (Inl e)
    then show ?thesis
      using assms ok r1 s1 by (auto simp: allocate_def d_def)
  next
    case (Inr held)
    then have held: "held = d" "current c1 = current c + d"
      using s1(3) by simp_all
    have rest: "(res, c') = (case alloc capacity of
          None \<Rightarrow> (Inl (AllocationFailed d (current c1) (limit c1)), drop_reservation d c1)
        | Some granted \<Rightarrow> settle_allocation p granted old d d c1)"
      using assms(2) ok r1 Inr held(1) by (cases "alloc capacity") (simp_all add: allocate_def d_def)
    show ?thesis
    proof (cases "alloc capacity")
      case None
      then show ?thesis
        using rest s1(1,2) held by (simp add: drop_reservation_spec)
    next
      case (Some granted)
      have "settle_allocation p granted old d d c1 = (res, c')"
        using rest Some by simp
      from settle_allocation_spec [OF s1(1) _ this] show ?thesis
        using Some s1(2) held by (auto split: sum.splits)
    qed
  qed
qed

lemma balanced_take: "balanced p c x \<Longrightarrow> takes p b p' \<Longrightarrow> balanced p' c (weight p b + x)"
  by (simp add: balanced_def takes_def)

text \<open>The outcome of a search for an idle buffer to grow into: contents move over and the bytes of the
  two buffers change places.\<close>

definition reused ::
    "'a pool \<Rightarrow> counter \<Rightarrow> 'a buf \<Rightarrow> nat \<Rightarrow> nat \<Rightarrow> 'a buf option \<times> 'a pool \<times> counter \<Rightarrow> bool" where
  "reused p c cur new_len x out =
     (case out of (res, p', c') \<Rightarrow> same_pool p p' \<and> limit c' = limit c \<and>
        (case res of
           None \<Rightarrow> balanced p' c' (weight p cur + x)
         | Some b \<Rightarrow> new_len \<le> cap b \<and> items b = items cur \<and> fits p b \<and> balanced p' c' (weight p b + x)))"

lemma reused_same:
  assumes "reused p1 c1 cur new_len x out" "same_pool p p1" "limit c1 = limit c"
  shows "reused p c cur new_len x out"
  using assms same_pool_weight [OF assms(2)]
  by (auto simp: reused_def intro: same_pool_trans split: prod.splits option.splits)

lemma reuse_into:
  assumes "balanced p c (weight p cur + x)" "takes p b p1" "fits p cur" "home < length (shards p)"
    and "move_from b cur = (b', cur')" "put cur' home p1 c = (p2, c2)" "new_len \<le> cap b"
  shows "reused p c cur new_len x (Some b', p2, c2)"
proof -
  have same: "same_pool p p1" and b: "fits p b" "items b = []"
    using assms(2) by (simp_all add: takes_def)
  have b': "weight p b' = weight p b" "items b' = items cur" "cap b' = cap b" "weight p cur' = weight p cur"
    using assms(5) b(2) by (auto simp: move_from_def weight_def)
  have "balanced p1 c (weight p1 cur' + (weight p b + x))"
    using balanced_take [OF assms(1,2)] same_pool_weight(1) [OF same] by (simp add: b'(4) add.left_commute)
  moreover have "fits p1 cur'"
    using assms(3) by (simp add: fits_def same_pool_weight(1) [OF same] b'(4))
  moreover have "home < length (shards p1)"
    using assms(4) same by (simp add: same_pool_def)
  ultimately have "balanced p2 c2 (weight p b + x)" "same_pool p1 p2" "limit c2 = limit c"
    using put_balanced [OF _ _ _ assms(6)] by metis+
  then show ?thesis
    using same_pool_trans [OF same] assms(7) b b' by (simp add: reused_def fits_def)
qed

lemma reuse_back:
  assumes "balanced p c (weight p cur + x)" "takes p b p1" "i < length (shards p)" "put b i p1 c = (p2, c2)"
  shows "balanced p2 c2 (weight p2 cur + x)" "same_pool p p2" "limit c2 = limit c"
proof -
  have same: "same_pool p p1" and b: "fits p b"
    using assms(2) by (simp_all add: takes_def)
  have "balanced p1 c (weight p1 b + (weight p cur + x))" "fits p1 b" "i < length (shards p1)"
    using balanced_take [OF assms(1,2)] same_pool_weight [OF same] b assms(3) same by (simp_all add: same_pool_def)
  then have "balanced p2 c2 (weight p cur + x)" "same_pool p1 p2" "limit c2 = limit c"
    using put_balanced [OF _ _ _ assms(4)] by metis+
  then show "balanced p2 c2 (weight p2 cur + x)" "same_pool p p2" "limit c2 = limit c"
    using same_pool_trans [OF same] same_pool_weight by metis+
qed

lemma reuse_shard_reused:
  "balanced p c (weight p cur + x) \<Longrightarrow> fits p cur \<Longrightarrow> i < length (shards p) \<Longrightarrow> home < length (shards p) \<Longrightarrow>
    reused p c cur new_len x (reuse_shard n i cur new_len home p c)"
proof (induction n arbitrary: p c)
  case 0
  then show ?case
    by (simp add: reused_def)
next
  case (Suc n)
  show ?case
  proof (cases "try_get i p")
    case (Pair got p1)
    show ?thesis
    proof (cases got)
      case None
      then show ?thesis
        using Suc.prems Pair by (simp add: reused_def)
    next
      case (Some b)
      have t: "takes p b p1"
        using try_get_takes [of i p b p1] Pair Some Suc.prems by (simp add: balanced_def)
      show ?thesis
      proof (cases "new_len \<le> cap b")
        case True
        obtain b' cur' p2 c2 where mv: "move_from b cur = (b', cur')" "put cur' home p1 c = (p2, c2)"
          by fastforce
        then show ?thesis
          using reuse_into [OF Suc.prems(1) t Suc.prems(2,4) mv True] Pair Some True by simp
      next
        case False
        obtain p2 c2 where pt: "put b i p1 c = (p2, c2)"
          by fastforce
        note bk = reuse_back [OF Suc.prems(1) t Suc.prems(3) pt]
        have "reused p2 c2 cur new_len x (reuse_shard n i cur new_len home p2 c2)"
          by (rule Suc.IH [OF bk(1)])
             (use Suc.prems bk(2) same_pool_weight(2) [OF bk(2)] in \<open>simp_all add: same_pool_def\<close>)
        then show ?thesis
          using reused_same [OF _ bk(2,3)] Pair Some False pt by simp
      qed
    qed
  qed
qed

lemma reused_None:
  "reused p c cur new_len x (None, p1, c1) \<longleftrightarrow> same_pool p p1 \<and> limit c1 = limit c \<and> balanced p1 c1 (weight p cur + x)"
  by (simp add: reused_def)

lemma reuse_shards_reused:
  "balanced p c (weight p cur + x) \<Longrightarrow> fits p cur \<Longrightarrow> (\<And>i. i \<in> set is \<Longrightarrow> i < length (shards p)) \<Longrightarrow>
    home < length (shards p) \<Longrightarrow> reused p c cur new_len x (reuse_shards is cur new_len home p c)"
proof (induction "is" arbitrary: p c)
  case Nil
  then show ?case
    by (simp add: reused_def)
next
  case (Cons i "is")
  obtain res p1 c1 where out: "reuse_shard (length (shards p ! i)) i cur new_len home p c = (res, p1, c1)"
    using prod_cases3 by blast
  have r: "reused p c cur new_len x (res, p1, c1)"
    using reuse_shard_reused [OF Cons.prems(1,2) _ Cons.prems(4), of i new_len "length (shards p ! i)"] Cons.prems(3) out
    by simp
  show ?case
  proof (cases res)
    case None
    then have s: "same_pool p p1" "limit c1 = limit c" "balanced p1 c1 (weight p cur + x)"
      using r by (simp_all add: reused_None)
    have "reused p1 c1 cur new_len x (reuse_shards is cur new_len home p1 c1)"
      by (rule Cons.IH) (use s Cons.prems same_pool_weight [OF s(1)] in \<open>auto simp: same_pool_def\<close>)
    then show ?thesis
      using reused_same [OF _ s(1,2)] out None by simp
  next
    case (Some b)
    then show ?thesis
      using r out by simp
  qed
qed

lemma cold_rotate:
  assumes "balanced p c y" "cold p = b # bs"
  shows "balanced (p\<lparr>cold := bs @ [b]\<rparr>) c y"
  using assms by (auto simp: balanced_def pool_wf_def idle_bytes_def)

lemma reuse_cold_reused:
  "balanced p c (weight p cur + x) \<Longrightarrow> fits p cur \<Longrightarrow> home < length (shards p) \<Longrightarrow>
    reused p c cur new_len x (reuse_cold n cur new_len home p c)"
proof (induction n arbitrary: p c)
  case 0
  then show ?case
    by (simp add: reused_def)
next
  case (Suc n)
  show ?case
  proof (cases "cold p")
    case Nil
    then show ?thesis
      using Suc.prems by (simp add: reused_def)
  next
    case (Cons b bs)
    have t: "takes p b (p\<lparr>cold := bs\<rparr>)"
      using cold_takes [OF _ Cons] Suc.prems(1) by (simp add: balanced_def)
    consider (Into) "new_len \<le> cap b" | (Rotate) "\<not> new_len \<le> cap b" "length bs < cold_slots p"
      | (Away) "\<not> new_len \<le> cap b" "\<not> length bs < cold_slots p"
      by blast
    then show ?thesis
    proof cases
      case Into
      obtain b' cur' p2 c2 where mv: "move_from b cur = (b', cur')" "put cur' home (p\<lparr>cold := bs\<rparr>) c = (p2, c2)"
        by fastforce
      then show ?thesis
        using reuse_into [OF Suc.prems(1) t Suc.prems(2,3) mv Into] Cons Into by simp
    next
      case Rotate
      let ?q = "p\<lparr>cold := bs @ [b]\<rparr>"
      have "reused ?q c cur new_len x (reuse_cold n cur new_len home ?q c)"
        by (rule Suc.IH) (use cold_rotate [OF Suc.prems(1) Cons] Suc.prems in simp_all)
      then show ?thesis
        using reused_same [of ?q c cur new_len x _ p c] Cons Rotate by (simp add: same_pool_def)
    next
      case Away
      obtain p2 c2 where pt: "put b home (p\<lparr>cold := bs\<rparr>) c = (p2, c2)"
        by fastforce
      note bk = reuse_back [OF Suc.prems(1) t Suc.prems(3) pt]
      have "reused p2 c2 cur new_len x (reuse_cold n cur new_len home p2 c2)"
        by (rule Suc.IH [OF bk(1)])
           (use Suc.prems bk(2) same_pool_weight(2) [OF bk(2)] in \<open>simp_all add: same_pool_def\<close>)
      then show ?thesis
        using reused_same [OF _ bk(2,3)] Cons Away pt by simp
    qed
  qed
qed

lemma reuse_for_growth_reused:
  assumes "balanced p c (weight p cur + x)" "fits p cur" "home < length (shards p)"
  shows "reused p c cur new_len x (reuse_for_growth cur new_len home p c)"
proof -
  obtain res p1 c1 where out:
      "reuse_shards (map (\<lambda>k. (home + k) mod length (shards p)) [0..<length (shards p)]) cur new_len home p c = (res, p1, c1)"
    using prod_cases3 by blast
  have r: "reused p c cur new_len x (res, p1, c1)"
    unfolding out [symmetric] by (rule reuse_shards_reused [OF assms(1,2) _ assms(3)])
      (use assms(3) in \<open>auto intro!: mod_less_divisor\<close>)
  show ?thesis
  proof (cases res)
    case None
    then have s: "same_pool p p1" "limit c1 = limit c" "balanced p1 c1 (weight p cur + x)"
      using r by (simp_all add: reused_None)
    have "reused p1 c1 cur new_len x (reuse_cold (length (cold p1)) cur new_len home p1 c1)"
      by (rule reuse_cold_reused) (use s assms same_pool_weight [OF s(1)] in \<open>auto simp: same_pool_def\<close>)
    then show ?thesis
      using reused_same [OF _ s(1,2)] out None by (simp add: reuse_for_growth_def)
  next
    case (Some b)
    then show ?thesis
      using r out by (simp add: reuse_for_growth_def)
  qed
qed

end
