(* ===== verification/Pool_Region.thy ===== *)
theory Pool_Region
  imports Bufpool
begin

text \<open>
  A region of pools keeps its balance (\<open>reclaim\<close> of \<open>budget/limits.rs\<close>, \<open>release_idle\<close>,
  \<open>allocate\<close> and \<open>grow\<close> of \<open>pool/core.rs\<close> in crates/kithara-bufpool): the budget's
  counter is the bytes of the idle buffers of all pools with what is held outside, through releases,
  reuse, reclaiming and growth.
\<close>

subsection \<open>Reclaiming keeps the balance\<close>

lemma release_list_spec:
  assumes "counter_ok c" "queue_bytes p q \<le> current c" "\<And>b. b \<in> set q \<Longrightarrow> fits p b"
    and "release_list p q target released c = (n, q', c')"
  shows "counter_ok c' \<and> limit c' = limit c \<and> current c' + queue_bytes p q = current c + queue_bytes p q' \<and> set q' \<subseteq> set q"
  using assms
proof (induction q arbitrary: released c)
  case (Cons b bs)
  have rel: "release_value p b c = (weight p b, c\<lparr>current := current c - weight p b\<rparr>)"
    using Cons.prems(2,3) by (intro release_value_exact) simp_all
  let ?c = "c\<lparr>current := current c - weight p b\<rparr>"
  show ?case
  proof (cases "target \<le> sat_add usize_max released (weight p b)")
    case True
    then show ?thesis
      using Cons.prems rel by auto
  next
    case False
    then have "release_list p bs target (sat_add usize_max released (weight p b)) ?c = (n, q', c')"
      using Cons.prems(4) rel by simp
    from Cons.IH [OF _ _ _ this] Cons.prems(1,2,3)
    have "counter_ok c' \<and> limit c' = limit ?c \<and> current c' + queue_bytes p bs = current ?c + queue_bytes p q' \<and> set q' \<subseteq> set bs"
      by simp
    then show ?thesis
      using Cons.prems(2) by auto
  qed
qed simp

definition lists_bytes :: "'a pool \<Rightarrow> 'a buf list list \<Rightarrow> nat" where
  "lists_bytes p qs = sum_list (map (queue_bytes p) qs)"

lemma lists_bytes_simps [simp]:
  "lists_bytes p [] = 0" "lists_bytes p (q # qs) = queue_bytes p q + lists_bytes p qs"
  by (simp_all add: lists_bytes_def)

lemma release_lists_spec:
  assumes "counter_ok c" "lists_bytes p qs \<le> current c" "\<And>b. b \<in> set (concat qs) \<Longrightarrow> fits p b"
    and "release_lists p qs target released c = (n, qs', c')"
  shows "counter_ok c' \<and> limit c' = limit c \<and> current c' + lists_bytes p qs = current c + lists_bytes p qs'
    \<and> set (concat qs') \<subseteq> set (concat qs) \<and> length qs' = length qs"
  using assms
proof (induction qs arbitrary: released c n qs' c')
  case (Cons q qs)
  obtain n1 q1 c1 where one: "release_list p q target released c = (n1, q1, c1)"
    using prod_cases3 by blast
  have s1: "counter_ok c1" "limit c1 = limit c" "current c1 + queue_bytes p q = current c + queue_bytes p q1" "set q1 \<subseteq> set q"
    using release_list_spec [OF Cons.prems(1) _ _ one] Cons.prems(2,3) by auto
  show ?case
  proof (cases "target \<le> n1")
    case True
    then show ?thesis
      using Cons.prems(4) one s1 by auto
  next
    case False
    obtain n2 qs2 c2 where two: "release_lists p qs target n1 c1 = (n2, qs2, c2)"
      using prod_cases3 by blast
    have "lists_bytes p qs \<le> current c1"
      using Cons.prems(2) s1(3) by simp
    with Cons.IH [OF s1(1) _ _ two] Cons.prems(3)
    have "counter_ok c2 \<and> limit c2 = limit c1 \<and> current c2 + lists_bytes p qs = current c1 + lists_bytes p qs2
      \<and> set (concat qs2) \<subseteq> set (concat qs) \<and> length qs2 = length qs"
      by simp
    then show ?thesis
      using Cons.prems(4) one two False s1 by (auto simp del: set_concat)
  qed
qed simp

lemma release_idle_spec:
  assumes "balanced p c x" "release_idle target p c = (n, p', c')"
  shows "balanced p' c' x \<and> same_pool p p' \<and> limit c' = limit c"
proof (cases "target = 0")
  case False
  have ib: "idle_bytes p = lists_bytes p (shards p) + queue_bytes p (cold p)" for p :: "'a pool"
    by (simp add: idle_bytes_def lists_bytes_def)
  have wf: "\<And>b. b \<in> set (concat (shards p)) \<Longrightarrow> fits p b" "\<And>b. b \<in> set (cold p) \<Longrightarrow> fits p b"
    using assms(1) by (simp_all add: balanced_def pool_wf_def)
  have cur: "counter_ok c" "current c = idle_bytes p + x"
    using assms(1) by (simp_all add: balanced_def)
  obtain n1 qs c1 where one: "release_lists p (shards p) target 0 c = (n1, qs, c1)"
    using prod_cases3 by blast
  have s1: "counter_ok c1" "limit c1 = limit c" "current c1 + lists_bytes p (shards p) = current c + lists_bytes p qs"
      "set (concat qs) \<subseteq> set (concat (shards p))" "length qs = length (shards p)"
    using release_lists_spec [OF cur(1) _ wf(1) one] cur(2) ib [of p] by auto
  have lists: "lists_bytes (p\<lparr>shards := a, cold := b\<rparr>) = lists_bytes p" "lists_bytes (p\<lparr>shards := a\<rparr>) = lists_bytes p" for a b
    by (simp_all add: lists_bytes_def fun_eq_iff)
  have wf': "pool_wf (p\<lparr>shards := qs, cold := q\<rparr>)" if "set q \<subseteq> set (cold p)" for q
    using assms(1) s1(4,5) that by (auto simp: balanced_def pool_wf_def)
  show ?thesis
  proof (cases "target \<le> n1")
    case True
    then have out: "p' = p\<lparr>shards := qs\<rparr>" "c' = c1"
      using assms(2) False one by (simp_all add: release_idle_def)
    have "pool_wf (p\<lparr>shards := qs\<rparr>)"
      using wf' [of "cold p"] by simp
    then show ?thesis
      unfolding out using s1 cur(2) ib [of p] ib [of "p\<lparr>shards := qs\<rparr>"]
      by (simp add: balanced_def same_pool_def lists)
  next
    case False': False
    obtain n2 q c2 where two: "release_list p (cold p) target n1 c1 = (n2, q, c2)"
      using prod_cases3 by blast
    have out: "p' = p\<lparr>shards := qs, cold := q\<rparr>" "c' = c2"
      using assms(2) False False' one two by (simp_all add: release_idle_def)
    have "queue_bytes p (cold p) \<le> current c1"
      using s1(3) cur(2) ib [of p] by simp
    from release_list_spec [OF s1(1) this wf(2) two]
    have s2: "counter_ok c2" "limit c2 = limit c1" "current c2 + queue_bytes p (cold p) = current c1 + queue_bytes p q"
        "set q \<subseteq> set (cold p)"
      by auto
    show ?thesis
      unfolding out using s1 s2 wf' [OF s2(4)] cur(2) ib [of p] ib [of "p\<lparr>shards := qs, cold := q\<rparr>"]
      by (simp add: balanced_def same_pool_def lists)
  qed
qed (use assms in \<open>simp add: release_idle_def\<close>)

subsection \<open>The region\<close>

definition region_ok :: "'a region \<Rightarrow> nat \<Rightarrow> bool" where
  "region_ok r x \<longleftrightarrow> counter_ok (budget r) \<and> list_all pool_wf (pools r)
     \<and> current (budget r) = sum_list (map idle_bytes (pools r)) + x"

definition same_region :: "'a region \<Rightarrow> 'a region \<Rightarrow> bool" where
  "same_region r r' \<longleftrightarrow> list_all2 same_pool (pools r) (pools r') \<and> limit (budget r') = limit (budget r)"

lemma same_region_refl [simp]: "same_region r r"
  by (simp add: same_region_def list_all2_refl)

lemma same_region_trans: "same_region q r \<Longrightarrow> same_region r t \<Longrightarrow> same_region q t"
  unfolding same_region_def using list_all2_trans [of same_pool same_pool same_pool, OF same_pool_trans] by auto

lemma same_region_pool: "same_region r r' \<Longrightarrow> k < length (pools r) \<Longrightarrow> same_pool (pools r ! k) (pools r' ! k)"
  by (simp add: same_region_def list_all2_nthD)

lemma same_region_length: "same_region r r' \<Longrightarrow> length (pools r') = length (pools r)"
  by (auto simp: same_region_def dest: list_all2_lengthD)

text \<open>One pool with its counter in front of the rest of the region.\<close>

lemma region_focus:
  fixes r :: "'a region"
  assumes "region_ok r x" "k < length (pools r)"
  obtains y where "balanced (pools r ! k) (budget r) (y + x)"
    "\<And>p :: 'a pool. \<And>c z. balanced p c (y + z) \<Longrightarrow> region_ok (store_pool k p c r) z"
proof -
  obtain y where y: "sum_list (map idle_bytes (pools r)) = idle_bytes (pools r ! k) + y"
    using elem_le_sum_list [of k "map idle_bytes (pools r)"] assms(2) by (auto dest: le_Suc_ex)
  show ?thesis
  proof
    show "balanced (pools r ! k) (budget r) (y + x)"
      using assms y by (simp add: region_ok_def balanced_def list_all_length)
    fix p :: "'a pool" and c z
    assume b: "balanced p c (y + z)"
    have "list_all pool_wf ((pools r)[k := p])"
      using assms b by (simp add: region_ok_def balanced_def list_all_length nth_list_update)
    moreover have "sum_list (map idle_bytes ((pools r)[k := p])) = y + idle_bytes p"
      using sum_list_swap [OF assms(2), of idle_bytes p] y by simp
    ultimately show "region_ok (store_pool k p c r) z"
      using b by (simp add: region_ok_def balanced_def store_pool_def)
  qed
qed

lemma same_region_store:
  "k < length (pools r) \<Longrightarrow> same_pool (pools r ! k) p \<Longrightarrow> limit c = limit (budget r) \<Longrightarrow> same_region r (store_pool k p c r)"
  by (simp add: same_region_def store_pool_def list_all2_conv_all_nth nth_list_update)

lemma reclaim_loop_spec:
  "region_ok r x \<Longrightarrow> (\<And>k. k \<in> set ks \<Longrightarrow> k < length (pools r)) \<Longrightarrow> reclaim_loop ks target released r = (n, r') \<Longrightarrow>
    region_ok r' x \<and> same_region r r'"
proof (induction ks arbitrary: r released)
  case (Cons k ks)
  have k: "k < length (pools r)"
    using Cons.prems(2) by simp
  obtain m p c where one: "release_idle (target - released) (pools r ! k) (budget r) = (m, p, c)"
    using prod_cases3 by blast
  from region_focus [OF Cons.prems(1) k] obtain y where y: "balanced (pools r ! k) (budget r) (y + x)"
    "\<And>p c z. balanced p c (y + z) \<Longrightarrow> region_ok (store_pool k p c r) z" by blast
  have r1: "region_ok (store_pool k p c r) x" "same_region r (store_pool k p c r)"
    using release_idle_spec [OF y(1) one] y(2) same_region_store [OF k] by blast+
  have store: "r\<lparr>budget := c, pools := (pools r)[k := p]\<rparr> = store_pool k p c r"
    by (simp add: store_pool_def)
  show ?case
  proof (cases "target \<le> sat_add usize_max released m")
    case True
    then show ?thesis
      using Cons.prems(3) one r1 store by (simp add: Let_def)
  next
    case False
    then have "reclaim_loop ks target (sat_add usize_max released m) (store_pool k p c r) = (n, r')"
      using Cons.prems(3) one store by (simp add: Let_def)
    from Cons.IH [OF r1(1) _ this] show ?thesis
      using Cons.prems(2) same_region_length [OF r1(2)] same_region_trans [OF r1(2)] by auto
  qed
qed simp

lemma reclaim_spec:
  assumes "region_ok r x" "reclaim target r = (n, r')"
  shows "region_ok r' x \<and> same_region r r'"
proof (cases "target = 0 \<or> pools r = []")
  case False
  let ?r = "r\<lparr>next_slot := (next_slot r + 1) mod 2 ^ 64\<rparr>"
  have "reclaim_loop (map (\<lambda>offset. (next_slot r mod length (pools r) + offset) mod length (pools r)) [0..<length (pools r)])
      target 0 ?r = (n, r')"
    using assms(2) False by (simp add: reclaim_def Let_def)
  from reclaim_loop_spec [OF _ _ this, of x] have "region_ok r' x \<and> same_region ?r r'"
    using assms(1) False by (fastforce simp: region_ok_def)
  then show ?thesis
    by (simp add: same_region_def)
qed (use assms in \<open>auto simp: reclaim_def\<close>)

lemma reclaim_for_spec:
  assumes "region_ok r x" "reclaim_for e r = (b, r')"
  shows "region_ok r' x \<and> same_region r r'"
  using assms reclaim_spec [OF assms(1) prod.collapse [symmetric]]
  by (auto simp: reclaim_for_def split: pool_error.splits)


subsection \<open>Growth\<close>

definition roomy :: "(nat \<Rightarrow> nat option) \<Rightarrow> bool" where
  "roomy alloc \<longleftrightarrow> (\<forall>n a. alloc n = Some a \<longrightarrow> n \<le> a)"

lemma target_capacity_ge: "new_len \<le> target_capacity p c old_bytes old_capacity new_len"
  by (simp add: target_capacity_def Let_def)

text \<open>What a growth leaves: on success room for what was asked, on failure the buffer it found, and
  the contents and the balance either way.\<close>

definition grown :: "'a pool \<Rightarrow> 'a buf \<Rightarrow> nat \<Rightarrow> pool_error option \<Rightarrow> 'a buf \<Rightarrow> bool" where
  "grown p cur new_len res b \<longleftrightarrow> items b = items cur \<and> fits p b
     \<and> (case res of None \<Rightarrow> new_len \<le> cap b \<and> cap cur \<le> cap b \<or> elem_size p = 0 | Some e \<Rightarrow> b = cur)"

lemma allocate_grown:
  assumes "balanced p c (weight p cur + x)" "roomy alloc" "new_len \<le> wanted" "cap cur < new_len"
    and "allocate alloc p wanted (weight p cur) c = (res, c')"
  shows "limit c' = limit c" "case res of
      Inl e \<Rightarrow> balanced p c' (weight p cur + x)
    | Inr b \<Rightarrow> balanced p c' (weight p (fst (move_from b cur)) + x) \<and> grown p cur new_len None (fst (move_from b cur))"
proof -
  have ok: "counter_ok c"
    using assms(1) by (simp add: balanced_def)
  note a = allocate_spec [OF ok assms(5)]
  have "grown p cur new_len None (fst (move_from b cur))" "weight p (fst (move_from b cur)) = weight p b" if "res = Inr b" for b
    using a that assms(2-4) by (auto simp: grown_def move_from_def roomy_def fits_def weight_def dest: order.trans)
  with a show "limit c' = limit c" "case res of
      Inl e \<Rightarrow> balanced p c' (weight p cur + x)
    | Inr b \<Rightarrow> balanced p c' (weight p (fst (move_from b cur)) + x) \<and> grown p cur new_len None (fst (move_from b cur))"
    using assms(1) by (auto simp: balanced_def split: sum.splits)
qed

text \<open>The same for a region.\<close>

definition grows :: "nat \<Rightarrow> 'a buf \<Rightarrow> nat \<Rightarrow> nat \<Rightarrow> 'a region \<Rightarrow> pool_error option \<times> 'a buf \<times> 'a region \<Rightarrow> bool" where
  "grows k cur new_len x r out =
     (case out of (res, b, r') \<Rightarrow> region_ok r' (weight (pools r ! k) b + x) \<and> same_region r r'
        \<and> grown (pools r ! k) cur new_len res b)"

lemma region_budget_step:
  fixes r :: "'a region"
  assumes "region_ok r x" "k < length (pools r)"
  obtains y where "balanced (pools r ! k) (budget r) (x + y)"
    "\<And>p :: 'a pool. \<And>c z. balanced p c (z + y) \<Longrightarrow> same_pool (pools r ! k) p \<Longrightarrow> limit c = limit (budget r) \<Longrightarrow>
       region_ok (store_pool k p c r) z \<and> same_region r (store_pool k p c r)"
proof -
  from region_focus [OF assms] obtain y where "balanced (pools r ! k) (budget r) (y + x)"
    "\<And>p :: 'a pool. \<And>c z. balanced p c (y + z) \<Longrightarrow> region_ok (store_pool k p c r) z" by blast
  then show ?thesis
    using that [of y] same_region_store [OF assms(2)] by (simp add: add.commute)
qed

lemma store_same_pool: "k < length (pools r) \<Longrightarrow> store_pool k (pools r ! k) c r = r\<lparr>budget := c\<rparr>"
  by (simp add: store_pool_def)

text \<open>An allocation for the buffer of a guard.\<close>

lemma allocate_grows:
  fixes r :: "'a region"
  assumes "region_ok r (weight (pools r ! k) cur + x)" "k < length (pools r)" "roomy alloc"
    and "new_len \<le> wanted" "cap cur < new_len" "fits (pools r ! k) cur"
    and "allocate alloc (pools r ! k) wanted (weight (pools r ! k) cur) (budget r) = (res, c')"
  shows "case res of
      Inl e \<Rightarrow> grows k cur new_len x r (Some e, cur, r\<lparr>budget := c'\<rparr>)
    | Inr b \<Rightarrow> grows k cur new_len x r (None, fst (move_from b cur), r\<lparr>budget := c'\<rparr>)"
proof -
  let ?p = "pools r ! k"
  from region_budget_step [OF assms(1,2)] obtain y where y: "balanced ?p (budget r) (weight ?p cur + x + y)"
    "\<And>p :: 'a pool. \<And>c z. balanced p c (z + y) \<Longrightarrow> same_pool ?p p \<Longrightarrow> limit c = limit (budget r) \<Longrightarrow>
       region_ok (store_pool k p c r) z \<and> same_region r (store_pool k p c r)" by blast
  note a = allocate_grown [OF y(1) [unfolded add.assoc] assms(3-5) assms(7)]
  have st: "region_ok (r\<lparr>budget := c'\<rparr>) (w + x)" "same_region r (r\<lparr>budget := c'\<rparr>)" if "balanced ?p c' (w + (x + y))" for w
    using y(2) [OF _ same_pool_refl a(1), of "w + x"] that store_same_pool [OF assms(2), of c'] by (simp_all add: add.assoc)
  show ?thesis
  proof (cases res)
    case (Inl e)
    then have "balanced ?p c' (weight ?p cur + (x + y))"
      using a(2) by simp
    then show ?thesis
      using Inl st assms(6) by (simp add: grows_def grown_def)
  next
    case (Inr b)
    then have b: "balanced ?p c' (weight ?p (fst (move_from b cur)) + (x + y))"
        "grown ?p cur new_len None (fst (move_from b cur))"
      using a(2) by simp_all
    then show ?thesis
      using Inr st [OF b(1)] by (simp add: grows_def)
  qed
qed

lemma grown_same:
  assumes "same_pool p p'"
  shows "grown p' = grown p"
proof -
  have "fits p' = fits p" "elem_size p' = elem_size p"
    using same_pool_weight [OF assms] assms by (simp_all add: same_pool_def)
  then show ?thesis
    by (intro ext) (simp add: grown_def split: option.split)
qed

lemma grows_later:
  assumes "grows k cur new_len x r1 out" "same_region r r1" "k < length (pools r)"
  shows "grows k cur new_len x r out"
proof -
  note sp = same_region_pool [OF assms(2,3)]
  obtain res b r' where out: "out = (res, b, r')"
    using prod_cases3 by blast
  then show ?thesis
    using assms(1) same_region_trans [OF assms(2)] by (simp add: grows_def grown_same [OF sp] same_pool_weight [OF sp])
qed

lemma grow_pressed_grows:
  fixes r :: "'a region"
  assumes ok: "region_ok r (weight (pools r ! k) cur + x)" and k: "k < length (pools r)" and alloc: "roomy alloc"
    and new: "new_len \<le> wanted" "cap cur < new_len" and cur: "fits (pools r ! k) cur"
    and home: "home < length (shards (pools r ! k))"
  shows "grows k cur new_len x r (grow_pressed alloc k cur new_len home wanted (weight (pools r ! k) cur) e r)"
proof -
  define p where "p = pools r ! k"
  from region_budget_step [OF ok k] obtain y where y: "balanced p (budget r) (weight p cur + x + y)"
    "\<And>q :: 'a pool. \<And>c z. balanced q c (z + y) \<Longrightarrow> same_pool p q \<Longrightarrow> limit c = limit (budget r) \<Longrightarrow>
       region_ok (store_pool k q c r) z \<and> same_region r (store_pool k q c r)" unfolding p_def by blast
  obtain got p2 c2 where two: "(if may_reuse e then reuse_for_growth cur new_len home p (budget r) else (None, p, budget r)) = (got, p2, c2)"
    using prod_cases3 by blast
  have "reused p (budget r) cur new_len (x + y) (got, p2, c2)"
    using two reuse_for_growth_reused [OF y(1) [unfolded add.assoc] cur [folded p_def] home [folded p_def], of new_len] y(1)
    by (auto simp: reused_None add.assoc split: if_splits)
  note g = grow_pressed_def [of alloc k cur new_len home wanted "weight p cur" e r, folded p_def, unfolded two]
  from \<open>reused _ _ _ _ _ _\<close>
  have s2: "same_pool p p2" "limit c2 = limit (budget r)" "case got of
      None \<Rightarrow> balanced p2 c2 (weight p cur + x + y)
    | Some b \<Rightarrow> new_len \<le> cap b \<and> items b = items cur \<and> fits p b \<and> balanced p2 c2 (weight p b + x + y)"
    by (auto simp: reused_def add.assoc split: option.splits)
  show ?thesis
  proof (cases got)
    case (Some b)
    then show ?thesis
      using y(2) [OF _ s2(1,2), of "weight p b + x"] s2(3) new by (simp add: g p_def [symmetric] grows_def grown_def)
  next
    case None
    obtain again r3 where three: "reclaim_for e (store_pool k p2 c2 r) = (again, r3)"
      by fastforce
    have "region_ok (store_pool k p2 c2 r) (weight p cur + x)" "same_region r (store_pool k p2 c2 r)"
      using y(2) [OF _ s2(1,2)] s2(3) None by simp_all
    with reclaim_for_spec [OF _ three] have r3: "region_ok r3 (weight p cur + x)" "same_region r r3"
      using same_region_trans by blast+
    have p3: "same_pool p (pools r3 ! k)" "k < length (pools r3)"
      using same_region_pool [OF r3(2) k] same_region_length [OF r3(2)] k by (simp_all add: p_def)
    note w3 = same_pool_weight [OF p3(1)]
    show ?thesis
    proof (cases again)
      case False
      then show ?thesis
        using None three r3 cur by (simp add: g p_def [symmetric] grows_def grown_def)
    next
      case True
      obtain res c4 where four: "allocate alloc (pools r3 ! k) wanted (weight p cur) (budget r3) = (res, c4)"
        by fastforce
      have "case res of
          Inl e \<Rightarrow> grows k cur new_len x r3 (Some e, cur, r3\<lparr>budget := c4\<rparr>)
        | Inr b \<Rightarrow> grows k cur new_len x r3 (None, fst (move_from b cur), r3\<lparr>budget := c4\<rparr>)"
        by (rule allocate_grows [OF _ p3(2) alloc new]) (use r3 w3 cur four in \<open>simp_all add: p_def\<close>)
      then have "case res of
          Inl e \<Rightarrow> grows k cur new_len x r (Some e, cur, r3\<lparr>budget := c4\<rparr>)
        | Inr b \<Rightarrow> grows k cur new_len x r (None, fst (move_from b cur), r3\<lparr>budget := c4\<rparr>)"
        using grows_later [OF _ r3(2) k] by (auto split: sum.splits)
      then show ?thesis
        using None three four True by (cases res) (simp_all add: g p_def [symmetric])
    qed
  qed
qed

lemma grow_grows:
  fixes r :: "'a region"
  assumes ok: "region_ok r (weight (pools r ! k) cur + x)" and k: "k < length (pools r)" and alloc: "roomy alloc"
    and cur: "fits (pools r ! k) cur" and home: "home < length (shards (pools r ! k))"
  shows "grows k cur new_len x r (grow alloc k cur new_len home r)"
proof (cases "new_len \<le> cap cur \<or> elem_size (pools r ! k) = 0 \<or> usize_max < elem_size (pools r ! k)")
  case True
  have c: "checked_bytes (pools r ! k) (cap cur) = Inr (weight (pools r ! k) cur)"
    using cur by (simp add: fits_def weight_def)
  have "grow alloc k cur new_len home r = (None, cur, r) \<and> (new_len \<le> cap cur \<or> elem_size (pools r ! k) = 0)
    \<or> (\<exists>e. grow alloc k cur new_len home r = (Some e, cur, r))"
  proof (cases "new_len \<le> cap cur")
    case False
    have "checked_bytes (pools r ! k) (Suc 0) = Inr 0 \<and> elem_size (pools r ! k) = 0
      \<or> (\<exists>e. checked_bytes (pools r ! k) (Suc 0) = Inl e)"
      using True False by (cases "checked_bytes (pools r ! k) (Suc 0)") auto
    then show ?thesis
      using False by (auto simp: grow_def Let_def c simp del: checked_bytes_Inr)
  qed (simp add: grow_def)
  then show ?thesis
    using ok cur by (auto simp: grows_def grown_def)
next
  case False
  define p where "p = pools r ! k"
  define w where "w = target_capacity p (budget r) (weight p cur) (cap cur) new_len"
  have p: "checked_bytes p (cap cur) = Inr (weight p cur)" "checked_bytes p 1 = Inr (elem_size p)" "elem_size p \<noteq> 0"
      "cap cur < new_len" "new_len \<le> w"
    using cur False by (simp_all add: p_def fits_def weight_def w_def target_capacity_ge)
  obtain res c1 where a: "allocate alloc p w (weight p cur) (budget r) = (res, c1)"
    by fastforce
  have g: "grow alloc k cur new_len home r = (case res of
      Inr b \<Rightarrow> (None, fst (move_from b cur), r\<lparr>budget := c1\<rparr>)
    | Inl e \<Rightarrow> grow_pressed alloc k cur new_len home w (weight p cur) e (r\<lparr>budget := c1\<rparr>))"
    using p a by (cases res) (simp_all add: grow_def p_def [symmetric] w_def [symmetric] Let_def del: checked_bytes_Inr)
  have s: "case res of
      Inl e \<Rightarrow> grows k cur new_len x r (Some e, cur, r\<lparr>budget := c1\<rparr>)
    | Inr b \<Rightarrow> grows k cur new_len x r (None, fst (move_from b cur), r\<lparr>budget := c1\<rparr>)"
    by (rule allocate_grows [OF ok k alloc p(5,4) cur]) (simp add: a [unfolded p_def] p_def)
  show ?thesis
  proof (cases res)
    case (Inl e)
    let ?r = "r\<lparr>budget := c1\<rparr>"
    have r1: "region_ok ?r (weight (pools ?r ! k) cur + x)" "same_region r ?r"
      using s Inl by (simp_all add: grows_def)
    have "grows k cur new_len x ?r (grow_pressed alloc k cur new_len home w (weight (pools ?r ! k) cur) e ?r)"
      by (rule grow_pressed_grows [OF r1(1) _ alloc p(5,4)]) (use k cur home in simp_all)
    then show ?thesis
      using grows_later [OF _ r1(2) k] g Inl by (simp add: p_def)
  qed (use s g in simp)
qed

end
