(* ===== verification/Pool_Guards.thy ===== *)
theory Pool_Guards
  imports Pool_Region
begin

text \<open>
  The guards of a region of pools (\<open>crates/kithara-bufpool/src/buffer/owned.rs\<close>), the
  construction of its pools (\<open>Core::new\<close> in \<open>pool/core.rs\<close>, \<open>__build\<close> in
  \<open>region.rs\<close>) and their end.  A guard owns a buffer and remembers the pool and the shard it
  came from.  The allocator is a parameter: the capacity it grants for a request, if any, and the
  capacity it leaves when a buffer of a capacity is shrunk to another.
\<close>

record allocator =
  grants :: "nat \<Rightarrow> nat option"
  shrinks :: "nat \<Rightarrow> nat \<Rightarrow> nat"

definition lawful :: "allocator \<Rightarrow> bool" where
  "lawful a \<longleftrightarrow> roomy (grants a) \<and> (\<forall>c n. n \<le> c \<longrightarrow> n \<le> shrinks a c n \<and> shrinks a c n \<le> c)"

subsection \<open>Construction\<close>

definition shard_slots :: "nat \<Rightarrow> nat" where
  "shard_slots n = min n MAX_SLOTS"

definition core_empty :: "nat \<Rightarrow> nat \<Rightarrow> pool_config \<Rightarrow> 'a pool" where
  "core_empty n_shards size_of cfg =
     \<lparr>config = cfg, elem_size = size_of, slots = shard_slots (max_buffers cfg div n_shards),
      shards = replicate n_shards [], cold_slots = initial_buffers cfg, cold = [],
      alloc_misses = 0, home_hits = 0, put_drops = 0, steal_hits = 0\<rparr>"

definition core_drop :: "'a pool \<Rightarrow> counter \<Rightarrow> counter" where
  "core_drop p c = fold (\<lambda>b c. snd (release_value p b c)) (cold p @ concat (shards p)) c"

fun fill_cold ::
    "allocator \<Rightarrow> nat \<Rightarrow> 'a pool \<Rightarrow> counter \<Rightarrow> (pool_error, 'a pool) result \<times> counter" where
  "fill_cold a 0 p c = (Inr p, c)"
| "fill_cold a (Suc n) p c =
     (case allocate (grants a) p (initial_capacity (config p)) 0 c of
        (Inl e, c1) \<Rightarrow> (Inl e, core_drop p c1)
      | (Inr b, c1) \<Rightarrow>
          if length (cold p) < cold_slots p then fill_cold a n (p\<lparr>cold := cold p @ [b]\<rparr>) c1
          else (case checked_bytes p (cap b) of
              Inl e \<Rightarrow> (Inl e, core_drop p c1)
            | Inr bytes \<Rightarrow>
                (Inl (InvalidConfig ''initial_buffers'' ''cold-start queue rejected a validated payload''),
                 core_drop p (region_release bytes c1))))"

definition core_new ::
    "allocator \<Rightarrow> nat \<Rightarrow> nat \<Rightarrow> pool_config \<Rightarrow> counter \<Rightarrow> (pool_error, 'a pool) result \<times> counter" where
  "core_new a n_shards size_of cfg c =
     (if n_shards = 0 then (Inl (InvalidConfig ''shards'' ''must contain at least one shard''), c)
      else if max_buffers cfg < n_shards
      then (Inl (InvalidConfig ''max_buffers'' ''must provide at least one retained slot per shard''), c)
      else case checked_mul usize_max (shard_slots (max_buffers cfg div n_shards)) n_shards of
        None \<Rightarrow> (Inl (InvalidConfig ''max_buffers'' ''effective shard capacity overflows usize''), c)
      | Some effective \<Rightarrow>
          if effective < initial_buffers cfg
          then (Inl (InvalidConfig ''initial_buffers'' ''exceeds the effective retained-buffer capacity''), c)
          else (case Option.bind (checked_mul usize_max (initial_capacity cfg) size_of)
                       (\<lambda>bytes. checked_mul usize_max bytes (initial_buffers cfg)) of
              None \<Rightarrow> (Inl (InvalidConfig ''initial_capacity'' ''initial payload byte count overflows usize''), c)
            | Some bytes \<Rightarrow> fill_cold a (initial_buffers cfg) (core_empty n_shards size_of cfg) c))"

text \<open>\<open>__build\<close>: the slots of the schema in order, each with its shards and element size.\<close>

record pool_spec =
  spec_shards :: nat
  spec_size :: nat
  spec_config :: pool_config

fun build_schema ::
    "allocator \<Rightarrow> pool_spec list \<Rightarrow> 'a pool list \<Rightarrow> counter \<Rightarrow> (pool_error, 'a pool list) result \<times> counter" where
  "build_schema a [] ps c = (Inr ps, c)"
| "build_schema a (t # ts) ps c =
     (case core_new a (spec_shards t) (spec_size t) (spec_config t) c of
        (Inl e, c1) \<Rightarrow> (Inl e, fold core_drop ps c1)
      | (Inr p, c1) \<Rightarrow> build_schema a ts (ps @ [p]) c1)"

definition region_build :: "allocator \<Rightarrow> nat \<Rightarrow> pool_spec list \<Rightarrow> (pool_error, 'a region) result" where
  "region_build a overall_budget ts =
     (case build_schema a ts [] (counter_new overall_budget) of
        (Inl e, c) \<Rightarrow> Inl e
      | (Inr ps, c) \<Rightarrow> Inr \<lparr>budget = c, pools = ps, next_slot = 0\<rparr>)"

subsection \<open>Guards\<close>

record 'a guard =
  g_pool :: nat
  g_home :: nat
  g_buf :: "'a buf"

type_synonym 'a guard_result = "pool_error option \<times> 'a guard \<times> 'a region"

definition get :: "nat \<Rightarrow> nat \<Rightarrow> 'a region \<Rightarrow> 'a guard \<times> 'a region" where
  "get k home r =
     (case acquire home (pools r ! k) of
        (b, p) \<Rightarrow> (\<lparr>g_pool = k, g_home = home, g_buf = b\<rparr>, store_pool k p (budget r) r))"

definition guard_grow :: "nat \<Rightarrow> allocator \<Rightarrow> 'a guard \<Rightarrow> 'a region \<Rightarrow> 'a guard_result" where
  "guard_grow new_len a g r =
     (case grow (grants a) (g_pool g) (g_buf g) new_len (g_home g) r of (e, b, r') \<Rightarrow> (e, g\<lparr>g_buf := b\<rparr>, r'))"

definition checked_extended_len :: "'a guard \<Rightarrow> nat \<Rightarrow> 'a region \<Rightarrow> (pool_error, nat) result" where
  "checked_extended_len g additional r =
     ok_or (CapacityOverflow usize_max (elem_size (pools r ! g_pool g)))
       (checked_add usize_max (length (items (g_buf g))) additional)"

text \<open>Appends within the capacity the growth left.\<close>

definition append_items :: "'a list \<Rightarrow> 'a guard \<Rightarrow> 'a guard" where
  "append_items vs g = g\<lparr>g_buf := (g_buf g)\<lparr>items := items (g_buf g) @ vs\<rparr>\<rparr>"

definition ensure_len :: "'a \<Rightarrow> nat \<Rightarrow> allocator \<Rightarrow> 'a guard \<Rightarrow> 'a region \<Rightarrow> 'a guard_result" where
  "ensure_len dflt min_len a g r =
     (if min_len \<le> length (items (g_buf g)) then (None, g, r)
      else case guard_grow min_len a g r of
        (Some e, g', r') \<Rightarrow> (Some e, g', r')
      | (None, g', r') \<Rightarrow> (None, append_items (replicate (min_len - length (items (g_buf g'))) dflt) g', r'))"

definition try_reserve :: "nat \<Rightarrow> allocator \<Rightarrow> 'a guard \<Rightarrow> 'a region \<Rightarrow> 'a guard_result" where
  "try_reserve additional a g r =
     (case checked_extended_len g additional r of
        Inl e \<Rightarrow> (Some e, g, r) | Inr new_len \<Rightarrow> guard_grow new_len a g r)"

definition try_extend_from_slice :: "'a list \<Rightarrow> allocator \<Rightarrow> 'a guard \<Rightarrow> 'a region \<Rightarrow> 'a guard_result" where
  "try_extend_from_slice vs a g r =
     (case try_reserve (length vs) a g r of
        (Some e, g', r') \<Rightarrow> (Some e, g', r') | (None, g', r') \<Rightarrow> (None, append_items vs g', r'))"

definition try_push :: "'a \<Rightarrow> allocator \<Rightarrow> 'a guard \<Rightarrow> 'a region \<Rightarrow> 'a guard_result" where
  "try_push v a g r =
     (case try_reserve 1 a g r of
        (Some e, g', r') \<Rightarrow> (Some e, g', r') | (None, g', r') \<Rightarrow> (None, append_items [v] g', r'))"

fun try_extend :: "'a list \<Rightarrow> allocator \<Rightarrow> 'a guard \<Rightarrow> 'a region \<Rightarrow> 'a guard_result" where
  "try_extend [] a g r = (None, g, r)"
| "try_extend (v # vs) a g r =
     (case try_push v a g r of
        (Some e, g', r') \<Rightarrow> (Some e, g', r') | (None, g', r') \<Rightarrow> try_extend vs a g' r')"

definition shrink_to :: "nat \<Rightarrow> allocator \<Rightarrow> 'a guard \<Rightarrow> 'a region \<Rightarrow> 'a guard_result" where
  "shrink_to min_capacity a g r =
     (let p = pools r ! g_pool g; b = g_buf g;
          bytes_before = (case bytes_for_capacity p (cap b) of Some n \<Rightarrow> n | None \<Rightarrow> usize_max);
          wish = max (length (items b)) min_capacity;
          b' = (if wish < cap b then b\<lparr>cap := shrinks a (cap b) wish\<rparr> else b);
          bytes_after = (case bytes_for_capacity p (cap b') of Some n \<Rightarrow> n | None \<Rightarrow> usize_max)
      in (None, g\<lparr>g_buf := b'\<rparr>, r\<lparr>budget := region_release (bytes_before - bytes_after) (budget r)\<rparr>))"

definition shrink_to_fit :: "allocator \<Rightarrow> 'a guard \<Rightarrow> 'a region \<Rightarrow> 'a guard_result" where
  "shrink_to_fit a g r = shrink_to (length (items (g_buf g))) a g r"

definition truncate_len :: "nat \<Rightarrow> allocator \<Rightarrow> 'a guard \<Rightarrow> 'a region \<Rightarrow> 'a guard_result" where
  "truncate_len n a g r = (None, g\<lparr>g_buf := (g_buf g)\<lparr>items := take n (items (g_buf g))\<rparr>\<rparr>, r)"

definition clear_items :: "allocator \<Rightarrow> 'a guard \<Rightarrow> 'a region \<Rightarrow> 'a guard_result" where
  "clear_items a g r = (None, g\<lparr>g_buf := (g_buf g)\<lparr>items := []\<rparr>\<rparr>, r)"

definition retain :: "('a \<Rightarrow> bool) \<Rightarrow> allocator \<Rightarrow> 'a guard \<Rightarrow> 'a region \<Rightarrow> 'a guard_result" where
  "retain keep a g r = (None, g\<lparr>g_buf := (g_buf g)\<lparr>items := filter keep (items (g_buf g))\<rparr>\<rparr>, r)"

definition normalize :: "allocator \<Rightarrow> 'a guard \<Rightarrow> 'a region \<Rightarrow> 'a guard_result" where
  "normalize a g r =
     (let p = pools r ! g_pool g
      in case normalize_buf (config p) (g_buf g) of
        (True, b) \<Rightarrow> (None, g\<lparr>g_buf := b\<rparr>, r)
      | (False, b) \<Rightarrow> (None, g\<lparr>g_buf := buf_default\<rparr>,
            store_pool (g_pool g) (p\<lparr>put_drops := put_drops p + 1\<rparr>) (snd (release_value p b (budget r))) r))"

definition put_back :: "'a guard \<Rightarrow> 'a region \<Rightarrow> 'a region" where
  "put_back g r =
     (case put (g_buf g) (g_home g) (pools r ! g_pool g) (budget r) of (p, c) \<Rightarrow> store_pool (g_pool g) p c r)"

definition renew :: "allocator \<Rightarrow> 'a guard \<Rightarrow> 'a region \<Rightarrow> 'a guard_result" where
  "renew a g r = (None, g\<lparr>g_buf := buf_default\<rparr>, put_back g r)"

text \<open>\<open>get_with_len\<close>: a guard that cannot be grown is dropped.\<close>

definition get_with_len ::
    "'a \<Rightarrow> nat \<Rightarrow> allocator \<Rightarrow> nat \<Rightarrow> nat \<Rightarrow> 'a region \<Rightarrow> (pool_error, 'a guard) result \<times> 'a region" where
  "get_with_len dflt len a k home r =
     (case get k home r of
        (g, r1) \<Rightarrow> (case ensure_len dflt len a g r1 of
          (None, g', r2) \<Rightarrow> (Inr g', r2) | (Some e, g', r2) \<Rightarrow> (Inl e, put_back g' r2)))"

text \<open>The slots of a ring of samples: a buffer without a slot goes back at once.\<close>

definition ring ::
    "'a \<Rightarrow> nat \<Rightarrow> allocator \<Rightarrow> nat \<Rightarrow> nat \<Rightarrow> 'a region \<Rightarrow> (pool_error, 'a guard) result \<times> 'a region" where
  "ring dflt capacity a k home r =
     (case get_with_len dflt capacity a k home r of
        (Inl e, r1) \<Rightarrow> (Inl e, r1)
      | (Inr g, r1) \<Rightarrow> if items (g_buf g) = [] then (Inl EmptyRing, put_back g r1) else (Inr g, r1))"

subsection \<open>What a guard operation keeps\<close>

definition charge :: "'a region \<Rightarrow> 'a guard \<Rightarrow> nat" where
  "charge r g = weight (pools r ! g_pool g) (g_buf g)"

definition guard_in :: "'a region \<Rightarrow> 'a guard \<Rightarrow> bool" where
  "guard_in r g \<longleftrightarrow> g_pool g < length (pools r) \<and> g_home g < length (shards (pools r ! g_pool g))
     \<and> fits (pools r ! g_pool g) (g_buf g) \<and> length (items (g_buf g)) \<le> cap (g_buf g)"

definition sized :: "'a region \<Rightarrow> bool" where
  "sized r \<longleftrightarrow> list_all (\<lambda>p. elem_size p \<noteq> 0) (pools r)"

definition guard_kept :: "nat \<Rightarrow> 'a guard \<Rightarrow> 'a region \<Rightarrow> 'a guard_result \<Rightarrow> bool" where
  "guard_kept x g r out =
     (case out of (e, g', r') \<Rightarrow> region_ok r' (charge r' g' + x) \<and> same_region r r' \<and> guard_in r' g'
        \<and> g_pool g' = g_pool g)"

lemma same_region_guard:
  assumes "same_region r r'" "g_pool g < length (pools r)"
  shows "charge r' g = charge r g" "guard_in r' g = guard_in r g"
proof -
  note p = same_region_pool [OF assms]
  show "charge r' g = charge r g" "guard_in r' g = guard_in r g"
    using same_pool_weight [OF p] same_region_length [OF assms(1)] p by (simp_all add: charge_def guard_in_def same_pool_def)
qed

lemma same_region_sized: "same_region r r' \<Longrightarrow> sized r' = sized r"
  by (auto simp: same_region_def sized_def list_all_length list_all2_conv_all_nth same_pool_def)

lemma guard_kept_trans:
  assumes "guard_kept x g r (e, g1, r1)" "guard_kept x g1 r1 out"
  shows "guard_kept x g r out"
  using assms same_region_trans by (auto simp: guard_kept_def split: prod.splits)

lemma guard_kept_id:
  "region_ok r (charge r g + x) \<Longrightarrow> guard_in r g \<Longrightarrow> guard_kept x g r (e, g, r)"
  by (simp add: guard_kept_def)

text \<open>Contents may change within the capacity.\<close>

lemma guard_kept_items:
  assumes "guard_kept x g r (e, g1, r1)" "length vs \<le> cap (g_buf g1)"
  shows "guard_kept x g r (e', g1\<lparr>g_buf := (g_buf g1)\<lparr>items := vs\<rparr>\<rparr>, r1)"
  using assms by (auto simp: guard_kept_def charge_def guard_in_def weight_def fits_def)

lemma guard_grow_spec:
  assumes "lawful a" "region_ok r (charge r g + x)" "guard_in r g" "sized r" "guard_grow n a g r = (e, g', r')"
  shows "guard_kept x g r (e, g', r')" "items (g_buf g') = items (g_buf g)"
    "e = None \<Longrightarrow> n \<le> cap (g_buf g')" "e \<noteq> None \<Longrightarrow> g' = g"
proof -
  obtain b where g: "grow (grants a) (g_pool g) (g_buf g) n (g_home g) r = (e, b, r')" "g' = g\<lparr>g_buf := b\<rparr>"
    using assms(5) by (auto simp: guard_grow_def split: prod.splits)
  have gs: "grows (g_pool g) (g_buf g) n x r (e, b, r')"
    unfolding g(1) [symmetric] by (rule grow_grows) (use assms in \<open>simp_all add: charge_def guard_in_def lawful_def\<close>)
  have k: "g_pool g < length (pools r)" "elem_size (pools r ! g_pool g) \<noteq> 0"
    using assms(3,4) by (simp_all add: guard_in_def sized_def list_all_length)
  have same: "same_region r r'"
    using gs by (simp add: grows_def)
  have gr: "grown (pools r ! g_pool g) (g_buf g) n e b"
    using gs by (simp add: grows_def)
  have len: "length (items b) \<le> cap b"
    using gr k(2) assms(3) by (cases e) (auto simp: grown_def guard_in_def)
  have "guard_in r g'" "charge r' g' = charge r g'"
    using same_region_guard(1) [OF same, of g'] gr len assms(3) k by (simp_all add: g(2) guard_in_def grown_def)
  then show "guard_kept x g r (e, g', r')"
    using gs same_region_guard(2) [OF same, of g'] k(1) by (simp add: guard_kept_def grows_def g(2) charge_def)
  show "items (g_buf g') = items (g_buf g)" "e = None \<Longrightarrow> n \<le> cap (g_buf g')" "e \<noteq> None \<Longrightarrow> g' = g"
    using gr k(2) by (auto simp: g(2) grown_def)
qed

text \<open>The system: a region with the guards it has handed out.\<close>

record 'a pool_sys =
  region :: "'a region"
  guards :: "'a guard list"

definition sys_ok :: "nat \<Rightarrow> 'a pool_sys \<Rightarrow> bool" where
  "sys_ok l s \<longleftrightarrow> region_ok (region s) (sum_list (map (charge (region s)) (guards s))) \<and> sized (region s)
     \<and> list_all (guard_in (region s)) (guards s) \<and> limit (budget (region s)) = l"

definition apply_guard ::
    "nat \<Rightarrow> ('a guard \<Rightarrow> 'a region \<Rightarrow> 'a guard_result) \<Rightarrow> 'a pool_sys \<Rightarrow> pool_error option \<times> 'a pool_sys" where
  "apply_guard i op s =
     (if i < length (guards s)
      then (case op (guards s ! i) (region s) of
              (e, g, r) \<Rightarrow> (e, s\<lparr>region := r, guards := (guards s)[i := g]\<rparr>))
      else (None, s))"

text \<open>One guard in front of the others.\<close>

lemma sys_focus:
  assumes "sys_ok l s" "i < length (guards s)"
  obtains x where "region_ok (region s) (charge (region s) (guards s ! i) + x)" "guard_in (region s) (guards s ! i)"
    "\<And>e g r. guard_kept x (guards s ! i) (region s) (e, g, r) \<Longrightarrow> sys_ok l (s\<lparr>region := r, guards := (guards s)[i := g]\<rparr>)"
proof -
  let ?r = "region s" and ?gs = "guards s"
  obtain x where x: "sum_list (map (charge ?r) ?gs) = charge ?r (?gs ! i) + x"
    using elem_le_sum_list [of i "map (charge ?r) ?gs"] assms(2) by (auto dest: le_Suc_ex)
  have gi: "list_all (guard_in ?r) ?gs" "sized ?r"
    using assms(1) by (simp_all add: sys_ok_def)
  show ?thesis
  proof
    show "region_ok ?r (charge ?r (?gs ! i) + x)" "guard_in ?r (?gs ! i)"
      using assms x gi by (simp_all add: sys_ok_def list_all_length)
    fix e g r
    assume k: "guard_kept x (?gs ! i) ?r (e, g, r)"
    then have same: "same_region ?r r" "guard_in r g" "region_ok r (charge r g + x)"
      by (simp_all add: guard_kept_def)
    have others: "charge r h = charge ?r h" "guard_in r h = guard_in ?r h" if "h \<in> set ?gs" for h
    proof -
      have "g_pool h < length (pools ?r)"
        using gi(1) that by (auto simp: list_all_iff guard_in_def)
      from same_region_guard [OF same(1) this] show "charge r h = charge ?r h" "guard_in r h = guard_in ?r h" .
    qed
    have "sum_list (map (charge r) (?gs[i := g])) = charge r g + x"
      using sum_list_swap [OF assms(2), of "charge r" g] x others nth_mem [OF assms(2)]
      by (simp add: others cong: map_cong)
    moreover have "list_all (guard_in r) (?gs[i := g])"
      using gi(1) same(2) others set_update_subset_insert [of ?gs i g] by (auto simp: list_all_iff)
    ultimately show "sys_ok l (s\<lparr>region := r, guards := ?gs[i := g]\<rparr>)"
      using same(3) gi(2) same_region_sized [OF same(1)] same(1) assms(1) by (simp add: sys_ok_def same_region_def)
  qed
qed

locale guard_operation =
  fixes op :: "allocator \<Rightarrow> 'a guard \<Rightarrow> 'a region \<Rightarrow> 'a guard_result"
  assumes keeps: "lawful a \<Longrightarrow> region_ok r (charge r g + x) \<Longrightarrow> guard_in r g \<Longrightarrow> sized r \<Longrightarrow>
    guard_kept x g r (op a g r)"
begin

text \<open>Applied to one of the guards of a system, the operation keeps the accounts of all of them.\<close>

lemma keeps_system:
  assumes "sys_ok l s" "lawful a"
  shows "sys_ok l (snd (apply_guard i (op a) s))"
proof (cases "i < length (guards s)")
  case True
  from sys_focus [OF assms(1) True] obtain x where x:
    "region_ok (region s) (charge (region s) (guards s ! i) + x)" "guard_in (region s) (guards s ! i)"
    "\<And>e g r. guard_kept x (guards s ! i) (region s) (e, g, r) \<Longrightarrow> sys_ok l (s\<lparr>region := r, guards := (guards s)[i := g]\<rparr>)"
    by blast
  have "sized (region s)"
    using assms(1) by (simp add: sys_ok_def)
  from keeps [OF assms(2) x(1,2) this] show ?thesis
    using x(3) True by (auto simp: apply_guard_def split: prod.split)
qed (use assms in \<open>simp add: apply_guard_def\<close>)

end

lemma guard_grow_keeps:
  assumes "lawful a" "region_ok r (charge r g + x)" "guard_in r g" "sized r"
  shows "guard_kept x g r (guard_grow n a g r)"
  using guard_grow_spec(1) [OF assms] by (cases "guard_grow n a g r") simp

lemma try_reserve_spec:
  assumes "lawful a" "region_ok r (charge r g + x)" "guard_in r g" "sized r" "try_reserve n a g r = (e, g', r')"
  shows "guard_kept x g r (e, g', r')" "items (g_buf g') = items (g_buf g)"
    "e = None \<Longrightarrow> length (items (g_buf g)) + n \<le> cap (g_buf g')" "e \<noteq> None \<Longrightarrow> g' = g"
proof -
  have "guard_kept x g r (e, g', r') \<and> items (g_buf g') = items (g_buf g)
    \<and> (e = None \<longrightarrow> length (items (g_buf g)) + n \<le> cap (g_buf g')) \<and> (e \<noteq> None \<longrightarrow> g' = g)"
  proof (cases "checked_extended_len g n r")
    case (Inl f)
    then show ?thesis
      using assms guard_kept_id [OF assms(2,3)] by (auto simp: try_reserve_def)
  next
    case (Inr m)
    then have "m = length (items (g_buf g)) + n"
      by (auto simp: checked_extended_len_def)
    moreover have "guard_grow m a g r = (e, g', r')"
      using assms(5) Inr by (simp add: try_reserve_def)
    ultimately have "guard_grow m a g r = (e, g', r')" "m = length (items (g_buf g)) + n"
      by simp_all
    then show ?thesis
      using guard_grow_spec [OF assms(1-4)] by blast
  qed
  then show "guard_kept x g r (e, g', r')" "items (g_buf g') = items (g_buf g)"
    "e = None \<Longrightarrow> length (items (g_buf g)) + n \<le> cap (g_buf g')" "e \<noteq> None \<Longrightarrow> g' = g"
    by auto
qed

lemma append_kept:
  assumes "guard_kept x g r (e, g', r')" "length (items (g_buf g')) + length vs \<le> cap (g_buf g')"
  shows "guard_kept x g r (e', append_items vs g', r')"
  using guard_kept_items [OF assms(1), of "items (g_buf g') @ vs"] assms(2) by (simp add: append_items_def)

interpretation reserving: guard_operation "try_reserve n" for n
  by unfold_locales (metis prod_cases3 try_reserve_spec(1))

interpretation ensuring: guard_operation "ensure_len dflt n" for dflt n
proof unfold_locales
  fix a r x and g :: "'a guard"
  assume h: "lawful a" "region_ok r (charge r g + x)" "guard_in r g" "sized r"
  obtain e g' r' where out: "guard_grow n a g r = (e, g', r')"
    using prod_cases3 by blast
  note s = guard_grow_spec [OF h out]
  show "guard_kept x g r (ensure_len dflt n a g r)"
    using guard_kept_id [OF h(2,3)] s(1,2) s(3) append_kept [OF s(1)] out
    by (cases e) (auto simp: ensure_len_def)
qed

interpretation extending: guard_operation "try_extend_from_slice vs" for vs
proof unfold_locales
  fix a r x and g :: "'a guard"
  assume h: "lawful a" "region_ok r (charge r g + x)" "guard_in r g" "sized r"
  obtain e g' r' where out: "try_reserve (length vs) a g r = (e, g', r')"
    using prod_cases3 by blast
  note s = try_reserve_spec [OF h out]
  show "guard_kept x g r (try_extend_from_slice vs a g r)"
    using s(1,2) s(3) append_kept [OF s(1)] out by (cases e) (auto simp: try_extend_from_slice_def)
qed

lemma try_push_slice: "try_push v a g r = try_extend_from_slice [v] a g r"
  by (simp add: try_push_def try_extend_from_slice_def)

interpretation pushing: guard_operation "try_push v" for v
  by unfold_locales (simp add: try_push_slice extending.keeps)

lemma try_extend_keeps:
  assumes "lawful a" "region_ok r (charge r g + x)" "guard_in r g" "sized r"
  shows "guard_kept x g r (try_extend vs a g r)"
  using assms(2-)
proof (induction vs arbitrary: g r)
  case Nil
  then show ?case
    by (simp add: guard_kept_id)
next
  case (Cons v vs)
  obtain e g' r' where out: "try_push v a g r = (e, g', r')"
    using prod_cases3 by blast
  have k: "guard_kept x g r (e, g', r')"
    unfolding out [symmetric] by (rule pushing.keeps [OF assms(1) Cons.prems])
  then have "region_ok r' (charge r' g' + x)" "guard_in r' g'" "sized r'"
    using Cons.prems(3) by (auto simp: guard_kept_def same_region_sized)
  from guard_kept_trans [OF k Cons.IH [OF this]] show ?case
    using k out by (cases e) simp_all
qed

interpretation extending_each: guard_operation "try_extend vs" for vs
  by unfold_locales (rule try_extend_keeps)

interpretation truncating: guard_operation "truncate_len n" for n
  by unfold_locales (auto simp: truncate_len_def guard_in_def intro!: guard_kept_items guard_kept_id)

interpretation clearing: guard_operation clear_items
  by unfold_locales (auto simp: clear_items_def guard_in_def intro!: guard_kept_items guard_kept_id)

interpretation retaining: guard_operation "retain keep" for keep
  by unfold_locales (auto simp: retain_def guard_in_def intro!: guard_kept_items guard_kept_id
      intro: order.trans [OF length_filter_le])

text \<open>The region of a guard whose pool and counter changed.\<close>

lemma region_guard_step:
  fixes r :: "'a region"
  assumes "region_ok r (charge r g + x)" "guard_in r g"
  obtains y where "balanced (pools r ! g_pool g) (budget r) (charge r g + x + y)"
    "\<And>p :: 'a pool. \<And>c z. balanced p c (z + y) \<Longrightarrow> same_pool (pools r ! g_pool g) p \<Longrightarrow> limit c = limit (budget r) \<Longrightarrow>
       region_ok (store_pool (g_pool g) p c r) z \<and> same_region r (store_pool (g_pool g) p c r)"
  using region_budget_step [of r "charge r g + x" "g_pool g"] assms by (auto simp: guard_in_def)

lemma guard_keptI:
  assumes "region_ok r' (weight (pools r ! g_pool g) b + x)" "same_region r r'" "guard_in r (g\<lparr>g_buf := b\<rparr>)"
  shows "guard_kept x g r (e, g\<lparr>g_buf := b\<rparr>, r')"
proof -
  have "g_pool (g\<lparr>g_buf := b\<rparr>) < length (pools r)"
    using assms(3) by (simp add: guard_in_def)
  from same_region_guard [OF assms(2) this] show ?thesis
    using assms by (simp add: guard_kept_def charge_def)
qed

lemma put_back_spec:
  fixes r :: "'a region"
  assumes "region_ok r (charge r g + x)" "guard_in r g"
  shows "region_ok (put_back g r) x \<and> same_region r (put_back g r)"
proof -
  from region_guard_step [OF assms] obtain y where y:
    "balanced (pools r ! g_pool g) (budget r) (charge r g + x + y)"
    "\<And>p :: 'a pool. \<And>c z. balanced p c (z + y) \<Longrightarrow> same_pool (pools r ! g_pool g) p \<Longrightarrow> limit c = limit (budget r) \<Longrightarrow>
       region_ok (store_pool (g_pool g) p c r) z \<and> same_region r (store_pool (g_pool g) p c r)" by blast
  obtain p c where pt: "put (g_buf g) (g_home g) (pools r ! g_pool g) (budget r) = (p, c)"
    by fastforce
  have "balanced p c (x + y)" "same_pool (pools r ! g_pool g) p" "limit c = limit (budget r)"
    using put_balanced [OF y(1) [unfolded charge_def add.assoc] _ _ pt] assms(2) by (simp_all add: guard_in_def)
  from y(2) [OF this] show ?thesis
    using pt by (simp add: put_back_def)
qed

lemma guard_in_default: "guard_in r g \<Longrightarrow> guard_in r (g\<lparr>g_buf := buf_default\<rparr>)"
  by (simp add: guard_in_def buf_default_def fits_def weight_def)

interpretation renewing: guard_operation renew
proof unfold_locales
  fix a r x and g :: "'a guard"
  assume h: "region_ok r (charge r g + x)" "guard_in r g"
  have "region_ok (put_back g r) (weight (pools r ! g_pool g) buf_default + x)" "same_region r (put_back g r)"
    using put_back_spec [OF h] by (simp_all add: weight_def buf_default_def)
  then show "guard_kept x g r (renew a g r)"
    unfolding renew_def by (rule guard_keptI) (rule guard_in_default [OF h(2)])
qed

interpretation normalizing: guard_operation normalize
proof unfold_locales
  fix a r x and g :: "'a guard"
  assume h: "region_ok r (charge r g + x)" "guard_in r g"
  let ?p = "pools r ! g_pool g"
  show "guard_kept x g r (normalize a g r)"
  proof (cases "fst (normalize_buf (config ?p) (g_buf g))")
    case True
    then show ?thesis
      using guard_kept_items [OF guard_kept_id [OF h], of "[]"] by (auto simp: normalize_def normalize_buf_def)
  next
    case False
    let ?b = "(g_buf g)\<lparr>items := []\<rparr>"
    from region_guard_step [OF h] obtain y where y: "balanced ?p (budget r) (charge r g + x + y)"
      "\<And>p :: 'a pool. \<And>c z. balanced p c (z + y) \<Longrightarrow> same_pool ?p p \<Longrightarrow> limit c = limit (budget r) \<Longrightarrow>
         region_ok (store_pool (g_pool g) p c r) z \<and> same_region r (store_pool (g_pool g) p c r)" by blast
    have w: "fits ?p ?b" "weight ?p ?b = charge r g" "charge r g \<le> current (budget r)"
      using h(2) y(1) by (simp_all add: guard_in_def fits_def weight_def charge_def balanced_def)
    define c where "c = (budget r)\<lparr>current := current (budget r) - charge r g\<rparr>"
    let ?q = "?p\<lparr>put_drops := put_drops ?p + 1\<rparr>"
    have "balanced ?q c (x + y)" "same_pool ?p ?q" "limit c = limit (budget r)"
      using y(1) by (simp_all add: balanced_def c_def)
    from y(2) [OF this] have r': "region_ok (store_pool (g_pool g) ?q c r) (weight ?p buf_default + x)"
        "same_region r (store_pool (g_pool g) ?q c r)"
      by (simp_all add: weight_def buf_default_def)
    have "snd (release_value ?p ?b (budget r)) = c"
      using release_value_exact [OF w(1), of "budget r"] w(2,3) by (simp add: c_def)
    then have "normalize a g r = (None, g\<lparr>g_buf := buf_default\<rparr>, store_pool (g_pool g) ?q c r)"
      using False by (auto simp: normalize_def normalize_buf_def Let_def split: bool.splits)
    then show ?thesis
      using guard_keptI [OF r' guard_in_default [OF h(2)]] by simp
  qed
qed

interpretation shrinking: guard_operation "shrink_to n" for n
proof unfold_locales
  fix a r x and g :: "'a guard"
  assume law: "lawful a" and h: "region_ok r (charge r g + x)" "guard_in r g"
  let ?p = "pools r ! g_pool g" and ?b = "g_buf g"
  define wish where "wish = max (length (items ?b)) n"
  define b where "b = (if wish < cap ?b then ?b\<lparr>cap := shrinks a (cap ?b) wish\<rparr> else ?b)"
  have b: "cap b \<le> cap ?b" "length (items b) \<le> cap b" "items b = items ?b"
  proof -
    have "wish \<le> cap ?b \<Longrightarrow> wish \<le> shrinks a (cap ?b) wish \<and> shrinks a (cap ?b) wish \<le> cap ?b"
      using law by (simp add: lawful_def)
    moreover have "length (items ?b) \<le> wish" "length (items ?b) \<le> cap ?b"
      using h(2) by (simp_all add: wish_def guard_in_def)
    ultimately show "cap b \<le> cap ?b" "length (items b) \<le> cap b" "items b = items ?b"
      by (auto simp: b_def)
  qed
  have fit: "weight ?p b \<le> charge r g" "charge r g \<le> usize_max"
    using b(1) h(2) by (simp_all add: weight_def charge_def guard_in_def fits_def)
  from region_guard_step [OF h] obtain y where y: "balanced ?p (budget r) (charge r g + x + y)"
    "\<And>p :: 'a pool. \<And>c z. balanced p c (z + y) \<Longrightarrow> same_pool ?p p \<Longrightarrow> limit c = limit (budget r) \<Longrightarrow>
       region_ok (store_pool (g_pool g) p c r) z \<and> same_region r (store_pool (g_pool g) p c r)" by blast
  define c where "c = (budget r)\<lparr>current := current (budget r) - (charge r g - weight ?p b)\<rparr>"
  have "balanced ?p c (weight ?p b + x + y)" "limit c = limit (budget r)"
    using y(1) fit(1) by (auto simp: balanced_def c_def)
  from y(2) [OF this(1) same_pool_refl this(2)]
  have r': "region_ok (r\<lparr>budget := c\<rparr>) (weight ?p b + x)" "same_region r (r\<lparr>budget := c\<rparr>)"
    using store_same_pool [of "g_pool g" r c] h(2) by (simp_all add: guard_in_def)
  have "charge r g - weight ?p b \<le> current (budget r)"
    using y(1) by (simp add: balanced_def)
  then have c: "region_release (charge r g - weight ?p b) (budget r) = c"
    by (simp add: c_def region_release_exact)
  have "bytes_for_capacity ?p (cap ?b) = Some (charge r g)" "bytes_for_capacity ?p (cap b) = Some (weight ?p b)"
    using order.trans [OF fit] fit(2) by (simp_all add: bytes_for_capacity_def weight_def charge_def)
  moreover have "shrink_to n a g r = (None, g\<lparr>g_buf := b\<rparr>, r\<lparr>budget := region_release
      ((case bytes_for_capacity ?p (cap ?b) of Some n \<Rightarrow> n | None \<Rightarrow> usize_max)
       - (case bytes_for_capacity ?p (cap b) of Some n \<Rightarrow> n | None \<Rightarrow> usize_max)) (budget r)\<rparr>)"
    by (simp only: shrink_to_def Let_def b_def wish_def)
  ultimately have out: "shrink_to n a g r = (None, g\<lparr>g_buf := b\<rparr>, r\<lparr>budget := c\<rparr>)"
    by (simp add: c)
  show "guard_kept x g r (shrink_to n a g r)"
    unfolding out by (rule guard_keptI [OF r']) (use b h(2) fit in \<open>simp add: guard_in_def fits_def charge_def\<close>)
qed

interpretation shrinking_fit: guard_operation shrink_to_fit
  by unfold_locales (simp add: shrink_to_fit_def shrinking.keeps)

lemma get_spec:
  fixes r :: "'a region"
  assumes "region_ok r x" "k < length (pools r)" "home < length (shards (pools r ! k))" "get k home r = (g, r')"
  shows "region_ok r' (charge r' g + x)" "same_region r r'" "guard_in r' g" "g_pool g = k" "items (g_buf g) = []"
proof -
  obtain b p where ac: "acquire home (pools r ! k) = (b, p)"
    by fastforce
  have g: "g = \<lparr>g_pool = k, g_home = home, g_buf = b\<rparr>" "r' = store_pool k p (budget r) r"
    using assms(4) ac by (simp_all add: get_def)
  from region_budget_step [OF assms(1,2)] obtain y where y: "balanced (pools r ! k) (budget r) (x + y)"
    "\<And>p :: 'a pool. \<And>c z. balanced p c (z + y) \<Longrightarrow> same_pool (pools r ! k) p \<Longrightarrow> limit c = limit (budget r) \<Longrightarrow>
       region_ok (store_pool k p c r) z \<and> same_region r (store_pool k p c r)" by blast
  have t: "takes (pools r ! k) b p"
    using acquire_takes [OF _ assms(3) ac] y(1) by (simp add: balanced_def)
  then have sp: "same_pool (pools r ! k) p" and b: "fits (pools r ! k) b" "items b = []"
    by (simp_all add: takes_def)
  have "region_ok r' (weight (pools r ! k) b + x) \<and> same_region r r'"
    unfolding g(2) by (rule y(2)) (use balanced_take [OF y(1) t] sp in \<open>simp_all add: add.assoc\<close>)
  moreover have "charge r' g = weight (pools r ! k) b" "guard_in r' g = guard_in r g"
    using calculation same_region_guard [of r r' g] assms(2) by (simp_all add: g(1) charge_def)
  ultimately show "region_ok r' (charge r' g + x)" "same_region r r'" "guard_in r' g" "g_pool g = k" "items (g_buf g) = []"
    using b assms(2,3) by (simp_all add: g(1) guard_in_def)
qed

lemma get_with_len_spec:
  fixes r :: "'a region"
  assumes "lawful a" "region_ok r x" "k < length (pools r)" "home < length (shards (pools r ! k))" "sized r"
    and "get_with_len dflt len a k home r = (res, r')"
  shows "same_region r r' \<and> (case res of
      Inl e \<Rightarrow> region_ok r' x
    | Inr g \<Rightarrow> region_ok r' (charge r' g + x) \<and> guard_in r' g \<and> items (g_buf g) = replicate len dflt)"
proof -
  obtain g r1 where one: "get k home r = (g, r1)"
    by fastforce
  note s1 = get_spec [OF assms(2-4) one]
  obtain e g2 r2 where two: "ensure_len dflt len a g r1 = (e, g2, r2)"
    using prod_cases3 by blast
  have sz: "sized r1"
    using assms(5) same_region_sized [OF s1(2)] by simp
  have k2: "guard_kept x g r1 (e, g2, r2)"
    unfolding two [symmetric] by (rule ensuring.keeps [OF assms(1) s1(1,3) sz])
  then have s2: "region_ok r2 (charge r2 g2 + x)" "same_region r r2" "guard_in r2 g2"
    using same_region_trans [OF s1(2)] by (simp_all add: guard_kept_def)
  show ?thesis
  proof (cases e)
    case None
    obtain f g3 r3 where gr: "guard_grow len a g r1 = (f, g3, r3)"
      using prod_cases3 by blast
    have "items (g_buf g2) = replicate len dflt"
      using None two gr guard_grow_spec(2) [OF assms(1) s1(1,3) sz gr] s1(5)
      by (auto simp: ensure_len_def append_items_def split: if_splits option.splits)
    then show ?thesis
      using assms(6) one two None s2 by (auto simp: get_with_len_def)
  next
    case (Some f)
    then show ?thesis
      using assms(6) one two put_back_spec [OF s2(1,3)] same_region_trans [OF s2(2)] by (auto simp: get_with_len_def)
  qed
qed

lemma ring_spec:
  fixes r :: "'a region"
  assumes "lawful a" "region_ok r x" "k < length (pools r)" "home < length (shards (pools r ! k))" "sized r"
    and "ring dflt capacity a k home r = (res, r')"
  shows "same_region r r' \<and> (case res of
      Inl e \<Rightarrow> region_ok r' x
    | Inr g \<Rightarrow> region_ok r' (charge r' g + x) \<and> guard_in r' g \<and> items (g_buf g) = replicate capacity dflt)"
proof -
  obtain res1 r1 where one: "get_with_len dflt capacity a k home r = (res1, r1)"
    by fastforce
  note s = get_with_len_spec [OF assms(1-5) one]
  show ?thesis
  proof (cases res1)
    case (Inr g)
    with s have g: "region_ok r1 (charge r1 g + x)" "guard_in r1 g" "same_region r r1"
      by simp_all
    from s Inr assms(6) show ?thesis
      using put_back_spec [OF g(1,2)] same_region_trans [OF g(3)] by (auto simp: ring_def one split: if_splits)
  qed (use s assms(6) in \<open>auto simp: ring_def one\<close>)
qed

lemma ring_needs_a_slot:
  assumes "lawful a" "region_ok r x" "k < length (pools r)" "home < length (shards (pools r ! k))" "sized r"
  shows "\<exists>e. fst (ring dflt 0 a k home r) = Inl e"
proof -
  obtain res r' where one: "ring dflt 0 a k home r = (res, r')"
    by fastforce
  obtain res1 r1 where two: "get_with_len dflt 0 a k home r = (res1, r1)"
    by fastforce
  from get_with_len_spec [OF assms two] show ?thesis
    by (cases res1) (auto simp: ring_def two)
qed

subsection \<open>Construction and end\<close>

lemma fold_release:
  assumes "counter_ok c" "queue_bytes p bs + x \<le> current c" "\<And>b. b \<in> set bs \<Longrightarrow> fits p b"
  shows "fold (\<lambda>b c. snd (release_value p b c)) bs c = c\<lparr>current := current c - queue_bytes p bs\<rparr>"
  using assms
proof (induction bs arbitrary: c)
  case (Cons b bs)
  have "release_value p b c = (weight p b, c\<lparr>current := current c - weight p b\<rparr>)"
    using Cons.prems by (intro release_value_exact) simp_all
  then show ?case
    using Cons.prems Cons.IH [of "c\<lparr>current := current c - weight p b\<rparr>"] by simp
qed simp

lemma queue_bytes_concat: "queue_bytes p (concat qs) = sum_list (map (queue_bytes p) qs)"
  by (induction qs) simp_all

text \<open>A pool that goes away gives back what its idle buffers hold.\<close>

lemma core_drop_spec:
  assumes "balanced p c x"
  shows "core_drop p c = c\<lparr>current := x\<rparr>"
proof -
  have ib: "idle_bytes p = queue_bytes p (cold p @ concat (shards p))"
    by (simp add: idle_bytes_def queue_bytes_concat)
  then show ?thesis
    using assms fold_release [of c p "cold p @ concat (shards p)" 0] by (auto simp: core_drop_def balanced_def pool_wf_def)
qed

lemma fill_cold_spec:
  assumes "balanced p c x" "length (cold p) + n \<le> cold_slots p" "fill_cold a n p c = (res, c')"
  shows "counter_ok c' \<and> limit c' = limit c \<and> (case res of Inl e \<Rightarrow> current c' = x | Inr q \<Rightarrow> balanced q c' x \<and> same_pool p q)"
  using assms
proof (induction n arbitrary: p c)
  case 0
  then show ?case
    by (auto simp: balanced_def)
next
  case (Suc n)
  obtain got c1 where al: "allocate (grants a) p (initial_capacity (config p)) 0 c = (got, c1)"
    by fastforce
  have "counter_ok c"
    using Suc.prems(1) by (simp add: balanced_def)
  note sa = allocate_spec [OF this al]
  show ?case
  proof (cases got)
    case (Inl e)
    then have "balanced p c1 x"
      using sa Suc.prems(1) by (simp add: balanced_def)
    from core_drop_spec [OF this] have "c' = c1\<lparr>current := x\<rparr>" "res = Inl e"
      using Suc.prems(3) al Inl by simp_all
    then show ?thesis
      using Suc.prems(1) Inl sa by (simp add: balanced_def)
  next
    case (Inr b)
    let ?q = "p\<lparr>cold := cold p @ [b]\<rparr>"
    have room: "length (cold p) < cold_slots p"
      using Suc.prems(2) by simp
    have "balanced ?q c1 x"
      using sa Suc.prems(1) Inr by (auto simp: balanced_def pool_wf_def idle_bytes_def)
    then have "counter_ok c' \<and> limit c' = limit c1 \<and> (case res of Inl e \<Rightarrow> current c' = x | Inr q \<Rightarrow> balanced q c' x \<and> same_pool ?q q)"
      by (rule Suc.IH) (use Suc.prems(2,3) al Inr room in simp_all)
    then show ?thesis
      using sa by (auto simp: same_pool_def split: sum.splits)
  qed
qed

lemma core_new_spec:
  assumes "counter_ok c" "core_new a n sz cfg c = (res, c')"
  shows "counter_ok c' \<and> limit c' = limit c \<and>
    (case res of Inl e \<Rightarrow> current c' = current c | Inr p \<Rightarrow> balanced p c' (current c) \<and> elem_size p = sz \<and> length (shards p) = n)"
proof -
  consider (Refused) e where "res = Inl e" "c' = c"
    | (Filled) "n \<noteq> 0" "fill_cold a (initial_buffers cfg) (core_empty n sz cfg) c = (res, c')"
    using assms(2) by (auto simp: core_new_def split: if_splits option.splits)
  then show ?thesis
  proof cases
    case Filled
    have "balanced (core_empty n sz cfg) c (current c)"
      using assms(1) Filled(1) by (simp add: balanced_def core_empty_def pool_wf_def idle_bytes_def sum_list_replicate)
    from fill_cold_spec [OF this _ Filled(2)] show ?thesis
      by (auto simp: core_empty_def same_pool_def split: sum.splits)
  qed (use assms in simp)
qed

lemma build_schema_spec:
  fixes ps :: "'a pool list"
  assumes "region_ok \<lparr>budget = c, pools = ps, next_slot = 0\<rparr> 0" "list_all (\<lambda>t. spec_size t \<noteq> 0) ts"
    and "list_all (\<lambda>p. elem_size p \<noteq> 0) ps" "build_schema a ts ps c = (Inr qs, c')"
  shows "region_ok \<lparr>budget = c', pools = qs, next_slot = 0\<rparr> 0 \<and> list_all (\<lambda>p. elem_size p \<noteq> 0) qs \<and> limit c' = limit c"
  using assms
proof (induction ts arbitrary: ps c)
  case (Cons t ts)
  obtain got :: "(pool_error, 'a pool) result" and c1 where new: "core_new a (spec_shards t) (spec_size t) (spec_config t) c = (got, c1)"
    by fastforce
  have "counter_ok c"
    using Cons.prems(1) by (simp add: region_ok_def)
  note s = core_new_spec [OF this new]
  obtain p where p: "got = Inr p"
    using Cons.prems(4) new by (cases got) simp_all
  have "region_ok \<lparr>budget = c1, pools = ps @ [p], next_slot = 0\<rparr> 0" "list_all (\<lambda>p. elem_size p \<noteq> 0) (ps @ [p])"
    using Cons.prems(1-3) s p by (auto simp: region_ok_def balanced_def)
  from Cons.IH [OF this(1) _ this(2)] show ?case
    using Cons.prems(2,4) new p s by auto
qed simp

lemma region_build_ok:
  assumes "region_build a l ts = Inr r" "l \<le> usize_max" "list_all (\<lambda>t. spec_size t \<noteq> 0) ts"
  shows "region_ok r 0" "sized r" "limit (budget r) = l"
proof -
  obtain ps c where b: "build_schema a ts [] (counter_new l) = (Inr ps, c)" "r = \<lparr>budget = c, pools = ps, next_slot = 0\<rparr>"
    using assms(1) by (auto simp: region_build_def split: prod.splits sum.splits)
  have "region_ok \<lparr>budget = counter_new l, pools = [], next_slot = 0\<rparr> 0"
    using assms(2) by (simp add: region_ok_def counter_new_def counter_ok_def)
  from build_schema_spec [OF this assms(3) _ b(1)] show "region_ok r 0" "sized r" "limit (budget r) = l"
    by (simp_all add: b(2) sized_def counter_new_def)
qed

subsection \<open>A region at work\<close>

text \<open>Guards are named by their place in the list of guards; a call on a guard, a pool or a shard that
  is not there changes nothing.\<close>

datatype 'a pool_call =
    Get nat nat
  | GetWithLen nat nat nat
  | Ring nat nat nat
  | EnsureLen nat nat
  | Reserve nat nat
  | Push nat 'a
  | ExtendSlice nat "'a list"
  | ExtendEach nat "'a list"
  | ShrinkTo nat nat
  | ShrinkToFit nat
  | Truncate nat nat
  | ClearItems nat
  | Retain nat "'a \<Rightarrow> bool"
  | Normalize nat
  | Renew nat
  | DropGuard nat

definition hand_out :: "'a guard \<Rightarrow> 'a region \<Rightarrow> 'a pool_sys \<Rightarrow> 'a pool_sys" where
  "hand_out g r s = s\<lparr>region := r, guards := guards s @ [g]\<rparr>"

definition has_shard :: "nat \<Rightarrow> nat \<Rightarrow> 'a region \<Rightarrow> bool" where
  "has_shard k home r \<longleftrightarrow> k < length (pools r) \<and> home < length (shards (pools r ! k))"

definition pool_apply :: "allocator \<Rightarrow> 'a \<Rightarrow> 'a pool_call \<Rightarrow> 'a pool_sys \<Rightarrow> 'a pool_sys" where
  "pool_apply a dflt c s =
     (case c of
        Get k home \<Rightarrow>
          if has_shard k home (region s) then (case get k home (region s) of (g, r) \<Rightarrow> hand_out g r s) else s
      | GetWithLen k home len \<Rightarrow>
          if has_shard k home (region s)
          then (case get_with_len dflt len a k home (region s) of
                  (Inl e, r) \<Rightarrow> s\<lparr>region := r\<rparr> | (Inr g, r) \<Rightarrow> hand_out g r s)
          else s
      | Ring k home capacity \<Rightarrow>
          if has_shard k home (region s)
          then (case ring dflt capacity a k home (region s) of
                  (Inl e, r) \<Rightarrow> s\<lparr>region := r\<rparr> | (Inr g, r) \<Rightarrow> hand_out g r s)
          else s
      | EnsureLen i n \<Rightarrow> snd (apply_guard i (ensure_len dflt n a) s)
      | Reserve i n \<Rightarrow> snd (apply_guard i (try_reserve n a) s)
      | Push i v \<Rightarrow> snd (apply_guard i (try_push v a) s)
      | ExtendSlice i vs \<Rightarrow> snd (apply_guard i (try_extend_from_slice vs a) s)
      | ExtendEach i vs \<Rightarrow> snd (apply_guard i (try_extend vs a) s)
      | ShrinkTo i n \<Rightarrow> snd (apply_guard i (shrink_to n a) s)
      | ShrinkToFit i \<Rightarrow> snd (apply_guard i (shrink_to_fit a) s)
      | Truncate i n \<Rightarrow> snd (apply_guard i (truncate_len n a) s)
      | ClearItems i \<Rightarrow> snd (apply_guard i (clear_items a) s)
      | Retain i keep \<Rightarrow> snd (apply_guard i (retain keep a) s)
      | Normalize i \<Rightarrow> snd (apply_guard i (normalize a) s)
      | Renew i \<Rightarrow> snd (apply_guard i (renew a) s)
      | DropGuard i \<Rightarrow>
          if i < length (guards s)
          then s\<lparr>region := put_back (guards s ! i) (region s), guards := remove_at i (guards s)\<rparr> else s)"

definition pool_run :: "allocator \<Rightarrow> 'a \<Rightarrow> 'a pool_call list \<Rightarrow> 'a region \<Rightarrow> 'a pool_sys" where
  "pool_run a dflt cs r = fold (pool_apply a dflt) cs \<lparr>region = r, guards = []\<rparr>"

lemma sys_ok_region:
  assumes "sys_ok l s" "same_region (region s) r" "region_ok r (x + sum_list (map (charge (region s)) gs))"
    "set gs \<subseteq> set (guards s)" "x = sum_list (map (charge r) hs)" "list_all (guard_in r) hs"
  shows "sys_ok l (s\<lparr>region := r, guards := gs @ hs\<rparr>)"
proof -
  have "charge r h = charge (region s) h \<and> guard_in r h" if "h \<in> set gs" for h
  proof -
    have "guard_in (region s) h"
      using assms(1,4) that by (auto simp: sys_ok_def list_all_iff)
    moreover from this have "g_pool h < length (pools (region s))"
      by (simp add: guard_in_def)
    ultimately show ?thesis
      using same_region_guard [OF assms(2)] by simp
  qed
  then have "map (charge r) gs = map (charge (region s)) gs" and ok: "list_all (guard_in r) gs"
    by (simp_all add: list_all_iff)
  then have sum: "sum_list (map (charge r) gs) = sum_list (map (charge (region s)) gs)"
    by metis
  have "sized r" "limit (budget r) = l"
    using assms(1,2) same_region_sized [OF assms(2)] by (simp_all add: sys_ok_def same_region_def)
  then show ?thesis
    using assms(3,5,6) sum ok by (simp add: sys_ok_def add.commute)
qed

lemma sys_ok_hand_out:
  assumes "sys_ok l s" "same_region (region s) r"
    and "region_ok r (charge r g + sum_list (map (charge (region s)) (guards s)))" "guard_in r g"
  shows "sys_ok l (hand_out g r s)"
  unfolding hand_out_def by (rule sys_ok_region [OF assms(1-3)]) (simp_all add: assms(4))

lemma sum_remove_at:
  "i < length xs \<Longrightarrow> sum_list (map f xs) = f (xs ! i) + (sum_list (map f (remove_at i xs)) :: nat)"
  by (subst id_take_nth_drop [of i xs]) (simp_all add: remove_at_def)

lemmas keeps_systems = ensuring.keeps_system reserving.keeps_system pushing.keeps_system extending.keeps_system
  extending_each.keeps_system shrinking.keeps_system shrinking_fit.keeps_system truncating.keeps_system
  clearing.keeps_system retaining.keeps_system normalizing.keeps_system renewing.keeps_system

lemma pool_apply_ok:
  assumes "sys_ok l s" "lawful a"
  shows "sys_ok l (pool_apply a dflt c s)"
proof (cases c)
  case (Get k home)
  obtain g r where g: "get k home (region s) = (g, r)"
    by fastforce
  have r: "region_ok (region s) (sum_list (map (charge (region s)) (guards s)))"
    using assms(1) by (simp add: sys_ok_def)
  show ?thesis
  proof (cases "has_shard k home (region s)")
    case True
    then have "k < length (pools (region s))" "home < length (shards (pools (region s) ! k))"
      by (simp_all add: has_shard_def)
    note s = get_spec [OF r this g]
    have "sys_ok l (hand_out g r s)"
      by (rule sys_ok_hand_out [OF assms(1) s(2,1,3)])
    then show ?thesis
      using Get g True by (simp add: pool_apply_def)
  qed (use Get assms(1) in \<open>simp add: pool_apply_def\<close>)
next
  case (GetWithLen k home len)
  obtain res r where g: "get_with_len dflt len a k home (region s) = (res, r)"
    by fastforce
  have "region_ok (region s) (sum_list (map (charge (region s)) (guards s)))" "sized (region s)"
    using assms(1) by (simp_all add: sys_ok_def)
  note s = get_with_len_spec [OF assms(2) this(1) _ _ this(2) g]
  show ?thesis
    using s GetWithLen g sys_ok_region [OF assms(1), of r 0 "guards s" "[]"] sys_ok_hand_out [OF assms(1)] assms(1)
    by (cases res) (auto simp: pool_apply_def has_shard_def)
next
  case (Ring k home capacity)
  obtain res r where g: "ring dflt capacity a k home (region s) = (res, r)"
    by fastforce
  have "region_ok (region s) (sum_list (map (charge (region s)) (guards s)))" "sized (region s)"
    using assms(1) by (simp_all add: sys_ok_def)
  note s = ring_spec [OF assms(2) this(1) _ _ this(2) g]
  show ?thesis
    using s Ring g sys_ok_region [OF assms(1), of r 0 "guards s" "[]"] sys_ok_hand_out [OF assms(1)] assms(1)
    by (cases res) (auto simp: pool_apply_def has_shard_def)
next
  case (DropGuard i)
  show ?thesis
  proof (cases "i < length (guards s)")
    case True
    let ?g = "guards s ! i"
    have "region_ok (region s) (charge (region s) ?g + sum_list (map (charge (region s)) (remove_at i (guards s))))"
        "guard_in (region s) ?g"
      using assms(1) True sum_remove_at [OF True, of "charge (region s)"] by (simp_all add: sys_ok_def list_all_length)
    note pb = put_back_spec [OF this]
    have "set (remove_at i (guards s)) \<subseteq> set (guards s)"
      by (auto simp: remove_at_def dest: in_set_takeD in_set_dropD)
    then have "sys_ok l (s\<lparr>region := put_back ?g (region s), guards := remove_at i (guards s) @ []\<rparr>)"
      using pb by (intro sys_ok_region [OF assms(1), where x = 0]) simp_all
    then show ?thesis
      using True DropGuard by (simp add: pool_apply_def)
  qed (use assms DropGuard in \<open>simp add: pool_apply_def\<close>)
qed (use keeps_systems [OF assms] in \<open>simp_all add: pool_apply_def\<close>)

lemma pool_run_ok:
  assumes "lawful a" "region_build a l ts = Inr r" "l \<le> usize_max" "list_all (\<lambda>t. spec_size t \<noteq> 0) ts"
  shows "sys_ok l (pool_run a dflt cs r)"
proof -
  have "sys_ok l \<lparr>region = r, guards = []\<rparr>"
    using region_build_ok [OF assms(2-4)] by (simp add: sys_ok_def)
  then have "sys_ok l (fold (pool_apply a dflt) cs \<lparr>region = r, guards = []\<rparr>)"
    by (induction cs rule: rev_induct) (simp_all add: pool_apply_ok [OF _ assms(1)])
  then show ?thesis
    by (simp add: pool_run_def)
qed

text \<open>C15: every byte is accounted for: however a region is built and used, through acquisitions, growths
  with reuse and reclaiming, refused allocations, shrinking, returns and drops, the budget's counter is
  exactly the bytes of the idle buffers and of the buffers the guards own; it never exceeds the limit,
  nor does the recorded peak; and no guard's contents exceed its capacity, so no write reallocates a
  buffer behind the account.\<close>

theorem pool_accounts_every_byte:
  assumes "lawful a" "region_build a l ts = Inr r" "l \<le> usize_max" "list_all (\<lambda>t. spec_size t \<noteq> 0) ts"
    and "pool_run a dflt cs r = s"
  shows "current (budget (region s))
      = sum_list (map idle_bytes (pools (region s)))
        + sum_list (map (\<lambda>g. cap (g_buf g) * elem_size (pools (region s) ! g_pool g)) (guards s))
    \<and> current (budget (region s)) \<le> l \<and> peak (budget (region s)) \<le> l
    \<and> list_all (\<lambda>g. length (items (g_buf g)) \<le> cap (g_buf g)) (guards s)"
proof -
  have ok: "sys_ok l s"
    unfolding assms(5) [symmetric] by (rule pool_run_ok [OF assms(1-4)])
  have "(\<lambda>g. cap (g_buf g) * elem_size (pools (region s) ! g_pool g)) = charge (region s)"
    by (simp add: fun_eq_iff charge_def weight_def)
  then show ?thesis
    using ok by (auto simp: sys_ok_def region_ok_def counter_ok_def guard_in_def list_all_iff)
qed

text \<open>C16: growing keeps the contents: when a guard's buffer is extended, whether in place, by a fresh
  allocation, by taking over an idle buffer or after reclaiming others, the outcome is either the old
  contents followed by the new ones, or an error that leaves the buffer as it was; and resizing to a
  length appends defaults only.\<close>

theorem growth_keeps_the_contents:
  assumes "lawful a" "region_build a l ts = Inr r" "l \<le> usize_max" "list_all (\<lambda>t. spec_size t \<noteq> 0) ts"
    and "pool_run a dflt cs r = s" "i < length (guards s)"
  shows "(case try_extend_from_slice vs a (guards s ! i) (region s) of
      (None, g, _) \<Rightarrow> items (g_buf g) = items (g_buf (guards s ! i)) @ vs
    | (Some e, g, _) \<Rightarrow> g = guards s ! i)
    \<and> (case ensure_len dflt n a (guards s ! i) (region s) of
      (None, g, _) \<Rightarrow> items (g_buf g) = items (g_buf (guards s ! i)) @ replicate (n - length (items (g_buf (guards s ! i)))) dflt
    | (Some e, g, _) \<Rightarrow> g = guards s ! i)"
proof -
  let ?g = "guards s ! i"
  have ok: "sys_ok l s"
    unfolding assms(5) [symmetric] by (rule pool_run_ok [OF assms(1-4)])
  obtain x where x: "region_ok (region s) (charge (region s) ?g + x)" "guard_in (region s) ?g"
    by (rule sys_focus [OF ok assms(6)]) (rule that)
  have sz: "sized (region s)"
    using ok by (simp add: sys_ok_def)
  obtain e g1 r1 where one: "try_reserve (length vs) a ?g (region s) = (e, g1, r1)"
    using prod_cases3 by blast
  obtain f g2 r2 where two: "guard_grow n a ?g (region s) = (f, g2, r2)"
    using prod_cases3 by blast
  have s1: "items (g_buf g1) = items (g_buf ?g)" "e \<noteq> None \<longrightarrow> g1 = ?g"
    using try_reserve_spec(2,4) [OF assms(1) x sz one] by blast+
  have s2: "items (g_buf g2) = items (g_buf ?g)" "f \<noteq> None \<longrightarrow> g2 = ?g"
    using guard_grow_spec(2,4) [OF assms(1) x sz two] by blast+
  have "case try_extend_from_slice vs a ?g (region s) of
      (None, g, _) \<Rightarrow> items (g_buf g) = items (g_buf ?g) @ vs | (Some e, g, _) \<Rightarrow> g = ?g"
  proof (cases e)
    case None
    then show ?thesis
      by (simp add: try_extend_from_slice_def one append_items_def s1(1))
  next
    case (Some f)
    then have "g1 = ?g"
      using s1(2) by simp
    then show ?thesis
      by (simp add: try_extend_from_slice_def one Some)
  qed
  moreover have "case ensure_len dflt n a ?g (region s) of
      (None, g, _) \<Rightarrow> items (g_buf g) = items (g_buf ?g) @ replicate (n - length (items (g_buf ?g))) dflt
    | (Some e, g, _) \<Rightarrow> g = ?g"
  proof (cases f)
    case None
    then show ?thesis
      by (simp add: ensure_len_def two append_items_def s2(1))
  next
    case (Some e)
    then have "g2 = ?g"
      using s2(2) by simp
    then show ?thesis
      by (simp add: ensure_len_def two Some)
  qed
  ultimately show ?thesis ..
qed

subsection \<open>A small region\<close>

text \<open>Ten bytes over one pool of two shards, with a buffer of four bytes made at the start.\<close>

definition demo_alloc :: allocator where
  "demo_alloc = \<lparr>grants = Some, shrinks = (\<lambda>c n. n)\<rparr>"

definition demo_config :: pool_config where
  "demo_config = \<lparr>initial_buffers = 1, initial_capacity = 4, max_buffers = 2, max_retained_capacity = 0\<rparr>"

definition demo_pool :: "nat buf list \<Rightarrow> nat \<Rightarrow> nat \<Rightarrow> nat pool" where
  "demo_pool bs hits misses =
     \<lparr>config = demo_config, elem_size = 1, slots = 1, shards = [[], []], cold_slots = 1, cold = bs,
      alloc_misses = misses, home_hits = hits, put_drops = 0, steal_hits = 0\<rparr>"

definition demo_region :: "nat region" where
  "demo_region = \<lparr>budget = \<lparr>current = 4, peak = 4, limit = 10\<rparr>, pools = [demo_pool [\<lparr>cap = 4, items = []\<rparr>] 0 0],
     next_slot = 0\<rparr>"

definition demo_specs :: "pool_spec list" where
  "demo_specs = [\<lparr>spec_shards = 2, spec_size = 1, spec_config = demo_config\<rparr>]"

lemmas demo_defs = demo_alloc_def demo_config_def demo_pool_def demo_region_def demo_specs_def

lemmas region_eval = region_build_def core_new_def core_empty_def counter_new_def shard_slots_def MAX_SLOTS_def
  allocate_def settle_allocation_def reserve_bytes_def reserve_def try_acquire_def acquire_turn_def
  reduce_reservation_def drop_reservation_def commit_reservation_def region_release_def release_def release_turn_def
  checked_bytes_def bytes_for_capacity_def checked_add_def checked_sub_def checked_mul_def u64_max_def numeral_2_eq_2

lemma demo_build: "region_build demo_alloc 10 demo_specs = Inr demo_region"
  by (simp add: demo_defs region_eval del: checked_bytes_Inr)

lemma demo_lawful: "lawful demo_alloc"
  by (simp add: lawful_def demo_alloc_def roomy_def)

text \<open>A guard of four bytes, another of two dropped into its shard, and the first one grown to nine: the
  idle buffer is too small for it and goes for the allocation to succeed.\<close>

definition demo_calls :: "nat pool_call list" where
  "demo_calls = [GetWithLen 0 0 4, GetWithLen 0 1 2, DropGuard 1, EnsureLen 0 9]"

definition demo_sys :: "nat pool_sys" where
  "demo_sys = \<lparr>region = \<lparr>budget = \<lparr>current = 9, peak = 9, limit = 10\<rparr>, pools = [demo_pool [] 1 1], next_slot = 1\<rparr>,
     guards = [\<lparr>g_pool = 0, g_home = 0, g_buf = \<lparr>cap = 9, items = [0, 0, 0, 0, 0, 0, 0, 0, 0]\<rparr>\<rparr>]\<rparr>"

lemmas call_eval = pool_apply_def has_shard_def get_with_len_def get_def acquire_def try_get_def try_steal_def MAX_PROBE_def
  ensure_len_def guard_grow_def store_pool_def grow_def hand_out_def append_items_def upt_conv_Cons target_capacity_def
  sat_add_def sat_mul_def move_from_def put_back_def put_def try_put_def normalize_buf_def release_value_def remove_at_def
  apply_guard_def grow_pressed_def may_reuse_def reuse_for_growth_def reclaim_for_def reclaim_def release_idle_def buf_default_def
  region_eval demo_defs

definition demo_guard :: "nat \<Rightarrow> nat \<Rightarrow> nat list \<Rightarrow> nat guard" where
  "demo_guard home n vs = \<lparr>g_pool = 0, g_home = home, g_buf = \<lparr>cap = n, items = vs\<rparr>\<rparr>"

definition demo_step :: "nat \<Rightarrow> nat buf list list \<Rightarrow> nat \<Rightarrow> nat guard list \<Rightarrow> nat pool_sys" where
  "demo_step n qs misses gs = \<lparr>region = \<lparr>budget = \<lparr>current = n, peak = n, limit = 10\<rparr>,
     pools = [(demo_pool [] 1 misses)\<lparr>shards := qs\<rparr>], next_slot = 0\<rparr>, guards = gs\<rparr>"

lemma demo_replicate: "replicate 4 0 = [0, 0, 0, 0 :: nat]" "replicate 2 0 = [0, 0 :: nat]" "replicate 5 0 = [0, 0, 0, 0, 0 :: nat]"
  by (simp_all add: numeral_eq_Suc)

lemma demo_step1: "pool_apply demo_alloc 0 (GetWithLen 0 0 4) \<lparr>region = demo_region, guards = []\<rparr>
   = demo_step 4 [[], []] 0 [demo_guard 0 4 [0, 0, 0, 0]]"
  by (simp add: demo_guard_def demo_step_def call_eval demo_replicate Let_def del: checked_bytes_Inr)

lemma demo_step2: "pool_apply demo_alloc 0 (GetWithLen 0 1 2) (demo_step 4 [[], []] 0 [g])
   = demo_step 6 [[], []] 1 [g, demo_guard 1 2 [0, 0]]"
  by (simp add: demo_guard_def demo_step_def call_eval demo_replicate Let_def del: checked_bytes_Inr)

lemma demo_step3: "pool_apply demo_alloc 0 (DropGuard 1) (demo_step 6 [[], []] 1 [g, demo_guard 1 2 [0, 0]])
   = demo_step 6 [[], [\<lparr>cap = 2, items = []\<rparr>]] 1 [g]"
  by (simp add: demo_guard_def demo_step_def call_eval demo_replicate Let_def del: checked_bytes_Inr)

lemma demo_step4: "pool_apply demo_alloc 0 (EnsureLen 0 9) (demo_step 6 [[], [\<lparr>cap = 2, items = []\<rparr>]] 1 [demo_guard 0 4 [0, 0, 0, 0]])
   = demo_sys"
  by (simp add: demo_guard_def demo_sys_def demo_step_def call_eval demo_replicate Let_def del: checked_bytes_Inr)

lemma demo_run: "pool_run demo_alloc 0 demo_calls demo_region = demo_sys"
  by (simp add: pool_run_def demo_calls_def demo_step1 demo_step2 [simplified] demo_step3 [simplified] demo_step4 [simplified])

lemma demo_sized: "list_all (\<lambda>t. spec_size t \<noteq> 0) demo_specs"
  by (simp add: demo_specs_def)

lemma demo_limit: "10 \<le> usize_max"
  by (simp add: u64_max_def)

lemma pool_accounts_every_byte_witness:
  "current (budget (region demo_sys))
      = sum_list (map idle_bytes (pools (region demo_sys)))
        + sum_list (map (\<lambda>g. cap (g_buf g) * elem_size (pools (region demo_sys) ! g_pool g)) (guards demo_sys))
    \<and> current (budget (region demo_sys)) \<le> 10 \<and> peak (budget (region demo_sys)) \<le> 10
    \<and> list_all (\<lambda>g. length (items (g_buf g)) \<le> cap (g_buf g)) (guards demo_sys)"
  by (rule pool_accounts_every_byte [OF demo_lawful demo_build demo_limit demo_sized demo_run])

lemma growth_keeps_the_contents_witness:
  "(case try_extend_from_slice [5, 6] demo_alloc (guards demo_sys ! 0) (region demo_sys) of
      (None, g, _) \<Rightarrow> items (g_buf g) = items (g_buf (guards demo_sys ! 0)) @ [5, 6]
    | (Some e, g, _) \<Rightarrow> g = guards demo_sys ! 0)
    \<and> (case ensure_len 0 10 demo_alloc (guards demo_sys ! 0) (region demo_sys) of
      (None, g, _) \<Rightarrow> items (g_buf g)
         = items (g_buf (guards demo_sys ! 0)) @ replicate (10 - length (items (g_buf (guards demo_sys ! 0)))) 0
    | (Some e, g, _) \<Rightarrow> g = guards demo_sys ! 0)"
  by (rule growth_keeps_the_contents [OF demo_lawful demo_build demo_limit demo_sized demo_run])
     (simp add: demo_sys_def)

end
