(* ===== verification/Storage.thy ===== *)
theory Storage
  imports Prelude "HOL-Library.Monad_Syntax"
begin

text \<open>
  The storage resource (\<open>crates/kithara-storage/src/backend/resource\<close>): the lifecycle state
  machine that every backend shares, with range tracking, commits, failures, reactivation, reads and
  one turn of a wait, over a driver given by its operations (\<open>backend/traits.rs\<close>).  The
  \<open>RangeSet\<close> of the rangemap package is a parameter with its laws.  Every operation on the
  shared core is one step; a wait that parks is the turn that returns nothing.
\<close>

type_synonym byte = u8

datatype storage_error =
    Io
  | Mmap
  | InvalidRange nat nat
  | Failed string
  | NotReadable
  | TmpClaimed string
  | Cancelled

type_synonym range = "nat \<times> nat"

definition slice :: "nat \<Rightarrow> nat \<Rightarrow> byte list \<Rightarrow> byte list" where
  "slice off n bs = take n (drop off bs)"

subsection \<open>Drivers and range sets\<close>

text \<open>\<open>DriverIo\<close>: a read takes the length of the caller's buffer and returns the bytes copied.\<close>

record 'd driver_io =
  io_commit :: "nat option \<Rightarrow> 'd \<Rightarrow> (storage_error, unit) result \<times> 'd"
  io_committed_len :: "'d \<Rightarrow> nat option"
  io_reactivate :: "'d \<Rightarrow> (storage_error, unit) result \<times> 'd"
  io_read_at :: "nat \<Rightarrow> nat \<Rightarrow> nat \<Rightarrow> 'd \<Rightarrow> (storage_error, byte list) result"
  io_read_committed :: "nat \<Rightarrow> nat \<Rightarrow> 'd \<Rightarrow> (storage_error, byte list option) result"
  io_release_backing :: "nat option \<Rightarrow> 'd \<Rightarrow> (storage_error, unit) result \<times> 'd"
  io_storage_len :: "'d \<Rightarrow> nat"
  io_valid_window :: "'d \<Rightarrow> range option"
  io_write_at :: "nat \<Rightarrow> byte list \<Rightarrow> bool \<Rightarrow> 'd \<Rightarrow> (storage_error, unit) result \<times> 'd"

record 'r range_ops =
  rs_empty :: 'r
  rs_insert :: "range \<Rightarrow> 'r \<Rightarrow> 'r"
  rs_remove :: "range \<Rightarrow> 'r \<Rightarrow> 'r"
  rs_gaps :: "range \<Rightarrow> 'r \<Rightarrow> range list"

text \<open>What the code relies on: the points of a set change as the operations say, a range has no gaps when
  it is covered, and the first gap starts at its first point that is not.\<close>

definition lawful_ranges :: "'r range_ops \<Rightarrow> ('r \<Rightarrow> nat set) \<Rightarrow> bool" where
  "lawful_ranges rs pts \<longleftrightarrow>
     pts (rs_empty rs) = {}
     \<and> (\<forall>a b r. a < b \<longrightarrow> pts (rs_insert rs (a, b) r) = pts r \<union> {a..<b})
     \<and> (\<forall>a b r. a < b \<longrightarrow> pts (rs_remove rs (a, b) r) = pts r - {a..<b})
     \<and> (\<forall>a b r. rs_gaps rs (a, b) r = [] \<longleftrightarrow> {a..<b} \<subseteq> pts r)
     \<and> (\<forall>a b r x y gs. rs_gaps rs (a, b) r = (x, y) # gs \<longrightarrow>
          a \<le> x \<and> x < y \<and> y \<le> b \<and> {a..<x} \<subseteq> pts r \<and> {x..<y} \<inter> pts r = {})"

definition range_covered_by :: "'r range_ops \<Rightarrow> 'r \<Rightarrow> range \<Rightarrow> bool" where
  "range_covered_by rs avail r = (if snd r \<le> fst r then True else rs_gaps rs r avail = [])"

subsection \<open>The shared core\<close>

datatype observation = OnCommit nat | OnWrite nat nat

text \<open>\<open>observed\<close> is what the observer has been told, the latest first; \<open>live_committed\<close> is the
  lock-free flag beside the guarded state.\<close>

record ('d, 'r) resource =
  driver :: 'd
  available :: 'r
  live_committed :: bool
  stamp_on_drop :: bool
  cancelled :: bool
  failed :: "string option"
  final_len :: "nat option"
  committed :: bool
  observer :: bool
  observed :: "observation list"

datatype resource_status = Active | Committed "nat option" | HasFailed string | WasCancelled

datatype wait_outcome = Ready | Eof | Interrupted

definition open_with_observer :: "bool \<Rightarrow> bool \<Rightarrow> 'd \<Rightarrow> nat option \<Rightarrow> 'r \<Rightarrow> bool \<Rightarrow> ('d, 'r) resource" where
  "open_with_observer cancel watched d len avail is_committed =
     \<lparr>driver = d, available = avail, live_committed = is_committed, stamp_on_drop = True, cancelled = cancel,
      failed = None, final_len = len, committed = is_committed, observer = watched, observed = []\<rparr>"

definition check_health :: "('d, 'r) resource \<Rightarrow> (storage_error, unit) result" where
  "check_health r =
     (if cancelled r then Inl Cancelled else case failed r of Some reason \<Rightarrow> Inl (Failed reason) | None \<Rightarrow> Inr ())"

definition observe :: "observation \<Rightarrow> ('d, 'r) resource \<Rightarrow> ('d, 'r) resource" where
  "observe what r = (if observer r then r\<lparr>observed := what # observed r\<rparr> else r)"

text \<open>The edit of the available ranges: what lies outside the window of a ring driver goes.\<close>

definition clip :: "'d driver_io \<Rightarrow> 'r range_ops \<Rightarrow> nat \<Rightarrow> 'd \<Rightarrow> 'r \<Rightarrow> 'r" where
  "clip io rs upper d avail =
     (case io_valid_window io d of
        None \<Rightarrow> avail
      | Some (lo, hi) \<Rightarrow>
          let avail = (if 0 < lo then rs_remove rs (0, lo) avail else avail)
          in if hi < upper then rs_remove rs (hi, upper) avail else avail)"

definition abandon :: "('d, 'r) resource \<Rightarrow> ('d, 'r) resource" where
  "abandon r = r\<lparr>stamp_on_drop := False\<rparr>"

definition fail_with :: "string \<Rightarrow> ('d, 'r) resource \<Rightarrow> ('d, 'r) resource" where
  "fail_with reason r = r\<lparr>failed := Some reason\<rparr>"

definition notify_commit :: "nat option \<Rightarrow> ('d, 'r) resource \<Rightarrow> ('d, 'r) resource" where
  "notify_commit len r = (case len of Some n \<Rightarrow> observe (OnCommit n) r | None \<Rightarrow> r)"

definition stage_commit :: "('d, 'r) resource \<Rightarrow> ('d, 'r) resource" where
  "stage_commit r = r\<lparr>live_committed := False, committed := False, final_len := None\<rparr>"

definition publish_commit ::
    "'d driver_io \<Rightarrow> 'r range_ops \<Rightarrow> nat option \<Rightarrow> ('d, 'r) resource \<Rightarrow> ('d, 'r) resource" where
  "publish_commit io rs len r =
     (let r = r\<lparr>live_committed := True, committed := True, final_len := len\<rparr>
      in case len of
           Some n \<Rightarrow>
             if 0 < n then r\<lparr>available := clip io rs n (driver r) (rs_insert rs (0, n) (available r))\<rparr> else r
         | None \<Rightarrow> r)"

definition commit_inner ::
    "'d driver_io \<Rightarrow> 'r range_ops \<Rightarrow> nat option \<Rightarrow> ('d, 'r) resource
      \<Rightarrow> (storage_error, unit) result \<times> ('d, 'r) resource" where
  "commit_inner io rs len r =
     (case check_health r of
        Inl e \<Rightarrow> (Inl e, r)
      | Inr _ \<Rightarrow> (case io_commit io len (driver r) of
          (Inl e, d) \<Rightarrow> (Inl e, r\<lparr>driver := d\<rparr>)
        | (Inr _, d) \<Rightarrow> (Inr (), publish_commit io rs len (notify_commit len (r\<lparr>driver := d\<rparr>)))))"

definition contains_range :: "'d driver_io \<Rightarrow> 'r range_ops \<Rightarrow> range \<Rightarrow> ('d, 'r) resource \<Rightarrow> bool" where
  "contains_range io rs rng r =
     (if snd rng \<le> fst rng then True
      else case io_committed_len io (driver r) of
        Some n \<Rightarrow> snd rng \<le> n
      | None \<Rightarrow> range_covered_by rs (available r) rng)"

definition resource_len :: "'d driver_io \<Rightarrow> ('d, 'r) resource \<Rightarrow> nat option" where
  "resource_len io r =
     (case (if live_committed r then io_committed_len io (driver r) else None) of
        Some n \<Rightarrow> Some n | None \<Rightarrow> final_len r)"

definition next_gap :: "'r range_ops \<Rightarrow> nat \<Rightarrow> nat \<Rightarrow> ('d, 'r) resource \<Rightarrow> range option" where
  "next_gap rs lo most r =
     (let upper = min most (case final_len r of Some n \<Rightarrow> n | None \<Rightarrow> most)
      in if upper \<le> lo then None
         else case rs_gaps rs (lo, upper) (available r) of
           [] \<Rightarrow> None | (x, y) # gs \<Rightarrow> Some (x, min y upper))"

definition reactivate_inner :: "'d driver_io \<Rightarrow> ('d, 'r) resource \<Rightarrow> (storage_error, unit) result \<times> ('d, 'r) resource" where
  "reactivate_inner io r =
     (if cancelled r then (Inl Cancelled, r)
      else case io_reactivate io (driver r) of
        (Inl e, d) \<Rightarrow> (Inl e, r\<lparr>driver := d\<rparr>)
      | (Inr _, d) \<Rightarrow>
          (Inr (), r\<lparr>driver := d, live_committed := False, stamp_on_drop := True, committed := False,
             final_len := None, failed := None\<rparr>))"

definition release_backing_inner ::
    "'d driver_io \<Rightarrow> nat option \<Rightarrow> ('d, 'r) resource \<Rightarrow> (storage_error, unit) result \<times> ('d, 'r) resource" where
  "release_backing_inner io len r =
     (case check_health r of
        Inl e \<Rightarrow> (Inl e, r)
      | Inr _ \<Rightarrow> (case io_release_backing io len (driver r) of (x, d) \<Rightarrow> (x, r\<lparr>driver := d\<rparr>)))"

definition should_fail_on_drop :: "('d, 'r) resource \<Rightarrow> bool" where
  "should_fail_on_drop r =
     (if cancelled r \<or> \<not> stamp_on_drop r then False else \<not> committed r \<and> failed r = None)"

definition resource_status_of :: "('d, 'r) resource \<Rightarrow> resource_status" where
  "resource_status_of r =
     (case failed r of
        Some reason \<Rightarrow> HasFailed reason
      | None \<Rightarrow> if committed r then Committed (final_len r) else if cancelled r then WasCancelled else Active)"

definition drop_writer :: "('d, 'r) resource \<Rightarrow> ('d, 'r) resource" where
  "drop_writer r =
     (if should_fail_on_drop r then fail_with ''active resource writer dropped without commit'' r else r)"

subsection \<open>Reads, writes and waits\<close>

definition read_working ::
    "'d driver_io \<Rightarrow> nat \<Rightarrow> nat \<Rightarrow> ('d, 'r) resource \<Rightarrow> (storage_error, byte list) result" where
  "read_working io off n r =
     (case check_health r of
        Inl e \<Rightarrow> Inl e
      | Inr _ \<Rightarrow>
          let stored = io_storage_len io (driver r);
              effective = min (case final_len r of Some l \<Rightarrow> l | None \<Rightarrow> stored) stored
          in if effective \<le> off then Inr []
             else io_read_at io off (min n (effective - off)) effective (driver r))"

definition read_at_inner ::
    "'d driver_io \<Rightarrow> nat \<Rightarrow> nat \<Rightarrow> ('d, 'r) resource \<Rightarrow> (storage_error, byte list) result" where
  "read_at_inner io off n r =
     (if n = 0 then Inr []
      else case io_committed_len io (driver r) of
        None \<Rightarrow> read_working io off n r
      | Some len \<Rightarrow>
          if cancelled r then Inl Cancelled
          else if len \<le> off then Inr []
          else (case io_read_committed io off (min n (len - off)) (driver r) of
              Inl e \<Rightarrow> Inl e
            | Inr (Some bs) \<Rightarrow> Inr bs
            | Inr None \<Rightarrow> read_working io off n r))"

definition read_inflight_at ::
    "'d driver_io \<Rightarrow> nat \<Rightarrow> nat \<Rightarrow> ('d, 'r) resource \<Rightarrow> (storage_error, byte list) result" where
  "read_inflight_at io off n r = (if n = 0 then Inr [] else read_working io off n r)"

definition write_at_inner ::
    "'d driver_io \<Rightarrow> 'r range_ops \<Rightarrow> nat \<Rightarrow> byte list \<Rightarrow> ('d, 'r) resource
      \<Rightarrow> (storage_error, unit) result \<times> ('d, 'r) resource" where
  "write_at_inner io rs off bs r =
     (if bs = [] then (Inr (), r)
      else case check_health r of
        Inl e \<Rightarrow> (Inl e, r)
      | Inr _ \<Rightarrow> (case checked_add u64_max off (length bs) of
          None \<Rightarrow> (Inl (InvalidRange off u64_max), r)
        | Some past \<Rightarrow> (case io_write_at io off bs (committed r) (driver r) of
            (Inl e, d) \<Rightarrow> (Inl e, r\<lparr>driver := d\<rparr>)
          | (Inr _, d) \<Rightarrow>
              let upper = (case final_len r of Some n \<Rightarrow> n | None \<Rightarrow> u64_max)
              in (Inr (), observe (OnWrite off past)
                    (r\<lparr>driver := d, available := clip io rs upper d (rs_insert rs (off, past) (available r))\<rparr>)))))"

text \<open>A read of everything: what the caller's buffer holds at the end, which it keeps while the length is
  not known.\<close>

definition read_into ::
    "'d driver_io \<Rightarrow> byte list \<Rightarrow> ('d, 'r) resource \<Rightarrow> (storage_error, nat \<times> byte list) result" where
  "read_into io buf r =
     (case resource_len io r of
        None \<Rightarrow> (case read_at_inner io 0 1 r of Inl e \<Rightarrow> Inl e | Inr _ \<Rightarrow> Inr (0, buf))
      | Some len \<Rightarrow>
          if len = 0 then Inr (0, [])
          else (case read_at_inner io 0 len r of Inl e \<Rightarrow> Inl e | Inr bs \<Rightarrow> Inr (length bs, bs)))"

definition resource_is_empty :: "'d driver_io \<Rightarrow> ('d, 'r) resource \<Rightarrow> bool" where
  "resource_is_empty io r \<longleftrightarrow> resource_len io r = Some 0"

definition write_all ::
    "'d driver_io \<Rightarrow> 'r range_ops \<Rightarrow> byte list \<Rightarrow> ('d, 'r) resource
      \<Rightarrow> (storage_error, unit) result \<times> ('d, 'r) resource" where
  "write_all io rs bs r =
     (case write_at_inner io rs 0 bs r of
        (Inl e, r) \<Rightarrow> (Inl e, r)
      | (Inr _, r) \<Rightarrow> commit_inner io rs (Some (length bs)) r)"

text \<open>One turn of a wait: its result, or nothing when the waiter parks until the gate is notified.\<close>

definition wait_range_turn ::
    "'d driver_io \<Rightarrow> 'r range_ops \<Rightarrow> range \<Rightarrow> bool \<Rightarrow> ('d, 'r) resource \<Rightarrow> (storage_error, wait_outcome) result option" where
  "wait_range_turn io rs rng wait_cancelled r =
     (case rng of (lo, hi) \<Rightarrow>
        if hi < lo then Some (Inl (InvalidRange lo hi))
        else if hi = lo then Some (Inr Ready)
        else if cancelled r \<or> wait_cancelled then Some (Inl Cancelled)
        else case failed r of
          Some reason \<Rightarrow> Some (Inl (Failed reason))
        | None \<Rightarrow>
            if range_covered_by rs (available r) (lo, hi) then Some (Inr Ready)
            else if committed r
            then let len = (case final_len r of Some n \<Rightarrow> n | None \<Rightarrow> 0)
                 in if len \<le> lo then Some (Inr Eof)
                    else if range_covered_by rs (available r) (lo, min hi len) then Some (Inr Ready)
                    else if io_valid_window io (driver r) = None then Some (Inr Ready)
                    else None
            else None)"

subsection \<open>Drivers that keep what they publish\<close>

text \<open>
  The contract of a linear driver: what it has published is one byte string that lengths and
  committed reads agree on, and only a commit replaces it.
\<close>

locale linear_driver =
  fixes io :: "'d driver_io" and snap :: "'d \<Rightarrow> byte list option"
  assumes no_window: "io_valid_window io d = None"
    and len_of: "io_committed_len io d = map_option length (snap d)"
    and read_of: "io_read_committed io off n d = Inr (map_option (slice off n) (snap d))"
    and write_keeps: "io_write_at io off bs b d = (x, d') \<Longrightarrow> snap d' = snap d"
    and reactivate_keeps: "io_reactivate io d = (x, d') \<Longrightarrow> snap d' = snap d"
begin

lemma read_published:
  assumes "snap (driver r) = Some bs" "\<not> cancelled r"
  shows "read_at_inner io off n r = Inr (slice off n bs)"
proof (cases "length bs \<le> off")
  case True
  then show ?thesis
    using assms by (simp add: read_at_inner_def len_of slice_def)
next
  case False
  have "slice off (min n (length bs - off)) bs = slice off n bs"
    by (simp add: slice_def min_def)
  then show ?thesis
    using assms False by (simp add: read_at_inner_def len_of read_of slice_def)
qed

lemma contains_published:
  assumes "snap (driver r) = Some bs"
  shows "contains_range io rs (lo, hi) r \<longleftrightarrow> hi \<le> lo \<or> hi \<le> length bs"
  using assms by (simp add: contains_range_def len_of)

lemma commit_settles:
  assumes "committed r"
  shows "wait_range_turn io rs rng b r \<noteq> None"
  using assms by (simp add: wait_range_turn_def no_window Let_def split: prod.splits option.splits)

lemma write_keeps_published: "write_at_inner io rs off bs r = (x, r') \<Longrightarrow> snap (driver r') = snap (driver r)"
  by (auto simp: write_at_inner_def observe_def Let_def dest: write_keeps split: if_splits sum.splits option.splits prod.splits)

lemma reactivate_keeps_published: "reactivate_inner io r = (x, r') \<Longrightarrow> snap (driver r') = snap (driver r)"
  by (auto simp: reactivate_inner_def dest: reactivate_keeps split: if_splits sum.splits prod.splits)

end

end
