(* ===== verification/Memory_Storage.thy ===== *)
theory Memory_Storage
  imports Storage
begin

text \<open>
  The in-memory driver of the storage resource (\<open>crates/kithara-storage/src/backend/memory\<close>):
  a working buffer that grows with the writes and the snapshot a commit publishes; and a resource
  over it at work, with its writer handle, its committed handle and its cancellation.  Growing the
  buffer asks the byte budget of the region, whose answer is a parameter.
\<close>

subsection \<open>The driver\<close>

record mem =
  m_buf :: "byte list"
  m_len :: nat
  m_committed :: "byte list option"

definition budget_error :: storage_error where
  "budget_error = Failed ''byte budget exhausted''"

text \<open>\<open>ByteBuffer::ensure_len\<close>: the buffer grows with zeros, or stays as it was.\<close>

definition grow_buf :: "(nat \<Rightarrow> bool) \<Rightarrow> nat \<Rightarrow> byte list \<Rightarrow> byte list option" where
  "grow_buf room n buf =
     (if n \<le> length buf then Some buf
      else if room n then Some (buf @ replicate (n - length buf) 0) else None)"

definition copy_into :: "nat \<Rightarrow> byte list \<Rightarrow> byte list \<Rightarrow> byte list" where
  "copy_into off bs buf = take off buf @ bs @ drop (off + length bs) buf"

text \<open>The driver with the ranges that are there, the final length and whether it is committed.\<close>

definition mem_open ::
    "(nat \<Rightarrow> bool) \<Rightarrow> 'r range_ops \<Rightarrow> byte list option \<Rightarrow> nat
      \<Rightarrow> (storage_error, mem \<times> 'r \<times> nat option \<times> bool) result" where
  "mem_open room rs initial capacity =
     (case initial of
        Some bs \<Rightarrow>
          (case (if 0 < length bs then map_option (copy_into 0 bs) (grow_buf room (length bs) []) else Some []) of
             None \<Rightarrow> Inl budget_error
           | Some buf \<Rightarrow>
               Inr (\<lparr>m_buf = buf, m_len = length bs, m_committed = (if bs = [] then None else Some bs)\<rparr>,
                    (if 0 < length bs then rs_insert rs (0, length bs) (rs_empty rs) else rs_empty rs),
                    Some (length bs), True))
      | None \<Rightarrow>
          (case (if 0 < capacity then grow_buf room capacity [] else Some []) of
             None \<Rightarrow> Inl budget_error
           | Some buf \<Rightarrow> Inr (\<lparr>m_buf = buf, m_len = 0, m_committed = None\<rparr>, rs_empty rs, None, False)))"

definition mem_commit :: "nat option \<Rightarrow> mem \<Rightarrow> (storage_error, unit) result \<times> mem" where
  "mem_commit len m =
     (let fin = min (case len of Some n \<Rightarrow> n | None \<Rightarrow> m_len m) (m_len m)
      in if length (m_buf m) < fin then (Inr (), m)
         else (Inr (), \<lparr>m_buf = [], m_len = fin, m_committed = (if fin = 0 then None else Some (take fin (m_buf m)))\<rparr>))"

definition mem_committed_len :: "mem \<Rightarrow> nat option" where
  "mem_committed_len m = map_option length (m_committed m)"

definition mem_reactivate :: "(nat \<Rightarrow> bool) \<Rightarrow> mem \<Rightarrow> (storage_error, unit) result \<times> mem" where
  "mem_reactivate room m =
     (case m_committed m of
        None \<Rightarrow> (Inr (), m)
      | Some bs \<Rightarrow> (case grow_buf room (length bs) (m_buf m) of
          None \<Rightarrow> (Inl budget_error, m)
        | Some buf \<Rightarrow> (Inr (), m\<lparr>m_buf := copy_into 0 bs buf, m_len := length bs\<rparr>)))"

definition snapshot_slice :: "byte list \<Rightarrow> nat \<Rightarrow> nat \<Rightarrow> byte list" where
  "snapshot_slice bs off n =
     (if length bs \<le> off then [] else slice off (min n (length bs - off)) bs)"

definition mem_read_at :: "nat \<Rightarrow> nat \<Rightarrow> nat \<Rightarrow> mem \<Rightarrow> (storage_error, byte list) result" where
  "mem_read_at off n effective m =
     (let logical_end = min (m_len m) (length (m_buf m))
      in if off < logical_end then Inr (slice off (min n (logical_end - off)) (m_buf m))
         else case m_committed m of
           Some bs \<Rightarrow> Inr (snapshot_slice bs off n)
         | None \<Rightarrow> Inr [])"

definition mem_read_committed :: "nat \<Rightarrow> nat \<Rightarrow> mem \<Rightarrow> (storage_error, byte list option) result" where
  "mem_read_committed off n m =
     (case m_committed m of None \<Rightarrow> Inr None | Some bs \<Rightarrow> Inr (Some (snapshot_slice bs off n)))"

definition mem_write_at :: "(nat \<Rightarrow> bool) \<Rightarrow> nat \<Rightarrow> byte list \<Rightarrow> bool \<Rightarrow> mem \<Rightarrow> (storage_error, unit) result \<times> mem" where
  "mem_write_at room off bs is_committed m =
     (if is_committed then (Inl (Failed ''cannot write to committed resource''), m)
      else case (if length (m_buf m) < off + length bs then grow_buf room (off + length bs) (m_buf m) else Some (m_buf m)) of
        None \<Rightarrow> (Inl budget_error, m)
      | Some buf \<Rightarrow>
          (Inr (), m\<lparr>m_buf := copy_into off bs buf,
             m_len := (if m_len m < off + length bs then off + length bs else m_len m)\<rparr>))"

definition mem_io :: "(nat \<Rightarrow> bool) \<Rightarrow> mem driver_io" where
  "mem_io room =
     \<lparr>io_commit = mem_commit, io_committed_len = mem_committed_len, io_reactivate = mem_reactivate room,
      io_read_at = mem_read_at, io_read_committed = mem_read_committed,
      io_release_backing = (\<lambda>len m. (Inr (), m)), io_storage_len = m_len,
      io_valid_window = (\<lambda>m. None), io_write_at = mem_write_at room\<rparr>"

interpretation memory: linear_driver "mem_io room" m_committed for room
proof
  fix d :: mem and off n :: nat
  have "snapshot_slice bs off n = slice off n bs" for bs
    by (simp add: snapshot_slice_def slice_def min_def)
  then show "io_read_committed (mem_io room) off n d = Inr (map_option (slice off n) (m_committed d))"
    by (simp add: mem_io_def mem_read_committed_def split: option.split)
qed (auto simp: mem_io_def mem_committed_len_def mem_write_at_def mem_reactivate_def split: if_splits option.splits)

subsection \<open>A resource at work\<close>

text \<open>\<open>writer\<close> and \<open>sealed\<close> tell whether the writing and the committed handle exist; \<open>commit\<close>,
  \<open>fail\<close> and a drop consume the first, \<open>reactivate\<close> the second.\<close>

record 'r store_sys =
  res :: "(mem, 'r) resource"
  writer :: bool
  sealed :: bool

datatype store_call =
    Write nat "byte list"
  | Commit "nat option"
  | Fail string
  | Abandon
  | DropWriter
  | Reactivate
  | Cancel

definition store_open ::
    "(nat \<Rightarrow> bool) \<Rightarrow> 'r range_ops \<Rightarrow> bool \<Rightarrow> byte list option \<Rightarrow> nat \<Rightarrow> (storage_error, 'r store_sys) result" where
  "store_open room rs watched initial capacity =
     (case mem_open room rs initial capacity of
        Inl e \<Rightarrow> Inl e
      | Inr (d, avail, len, is_committed) \<Rightarrow>
          Inr \<lparr>res = open_with_observer False watched d len avail is_committed, writer = True, sealed = False\<rparr>)"

definition store_apply :: "(nat \<Rightarrow> bool) \<Rightarrow> 'r range_ops \<Rightarrow> store_call \<Rightarrow> 'r store_sys \<Rightarrow> 'r store_sys" where
  "store_apply room rs c s =
     (case c of
        Write off bs \<Rightarrow> if writer s then s\<lparr>res := snd (write_at_inner (mem_io room) rs off bs (res s))\<rparr> else s
      | Commit len \<Rightarrow>
          if writer s
          then (case commit_inner (mem_io room) rs len (res s) of
                  (Inl e, r) \<Rightarrow> s\<lparr>res := drop_writer r, writer := False\<rparr>
                | (Inr _, r) \<Rightarrow> s\<lparr>res := drop_writer r, writer := False, sealed := True\<rparr>)
          else s
      | Fail reason \<Rightarrow>
          if writer s then s\<lparr>res := drop_writer (fail_with reason (res s)), writer := False\<rparr> else s
      | Abandon \<Rightarrow> if writer s then s\<lparr>res := abandon (res s)\<rparr> else s
      | DropWriter \<Rightarrow> if writer s then s\<lparr>res := drop_writer (res s), writer := False\<rparr> else s
      | Reactivate \<Rightarrow>
          if sealed s
          then (case reactivate_inner (mem_io room) (res s) of
                  (Inl e, r) \<Rightarrow> s\<lparr>res := r, sealed := False\<rparr>
                | (Inr _, r) \<Rightarrow> s\<lparr>res := r, writer := True, sealed := False\<rparr>)
          else s
      | Cancel \<Rightarrow> s\<lparr>res := (res s)\<lparr>cancelled := True\<rparr>\<rparr>)"

definition store_run :: "(nat \<Rightarrow> bool) \<Rightarrow> 'r range_ops \<Rightarrow> store_call list \<Rightarrow> 'r store_sys \<Rightarrow> 'r store_sys" where
  "store_run room rs cs s = fold (store_apply room rs) cs s"

text \<open>
  What holds all along: while there is a writer the working buffer covers the logical length and is
  zero beyond it; once committed it is empty; a handle is there for one side only; and without a
  writer somebody has left word for the readers.
\<close>

definition working :: "mem \<Rightarrow> bool" where
  "working m \<longleftrightarrow> m_len m \<le> length (m_buf m) \<and> list_all (\<lambda>b. b = 0) (drop (m_len m) (m_buf m))"

definition store_inv :: "'r store_sys \<Rightarrow> bool" where
  "store_inv s \<longleftrightarrow>
     (if writer s then working (driver (res s)) \<and> \<not> sealed s
      else committed (res s) \<or> failed (res s) \<noteq> None \<or> cancelled (res s) \<or> \<not> stamp_on_drop (res s))
     \<and> (if sealed s then m_buf (driver (res s)) = [] \<and> (m_committed (driver (res s)) = None \<longrightarrow> m_len (driver (res s)) = 0)
        else True)"

definition contents :: "mem \<Rightarrow> byte list" where
  "contents m = take (m_len m) (m_buf m)"

definition overlay :: "nat \<Rightarrow> byte list \<Rightarrow> byte list \<Rightarrow> byte list" where
  "overlay off bs file = take off (file @ replicate (off - length file) 0) @ bs @ drop (off + length bs) file"

lemma grow_buf_Some:
  "grow_buf room n buf = Some buf' \<Longrightarrow> buf' = buf @ replicate (n - length buf) 0 \<and> length buf' = max n (length buf)"
  by (auto simp: grow_buf_def split: if_splits)

lemma working_zero: "working m \<Longrightarrow> m_len m \<le> i \<Longrightarrow> i < length (m_buf m) \<Longrightarrow> m_buf m ! i = 0"
  by (auto simp: working_def list_all_length dest: spec [of _ "i - m_len m"])

lemma working_nth: "working m \<Longrightarrow> i < length (m_buf m) \<Longrightarrow> m_buf m ! i = (if i < m_len m then contents m ! i else 0)"
  by (simp add: contents_def working_zero)

lemma length_copy_into: "off + length bs \<le> length buf \<Longrightarrow> length (copy_into off bs buf) = length buf"
  by (simp add: copy_into_def)

lemma nth_copy_into:
  assumes "off + length bs \<le> length buf" "i < length buf"
  shows "copy_into off bs buf ! i = (if i < off then buf ! i else if i < off + length bs then bs ! (i - off) else buf ! i)"
  using assms by (auto simp: copy_into_def nth_append min_def)

lemma mem_write_working:
  assumes "mem_write_at room off bs b m = (Inr u, m')" "working m"
  shows "working m' \<and> contents m' = overlay off bs (contents m)"
proof -
  obtain buf where buf: "buf = m_buf m @ replicate (off + length bs - length (m_buf m)) 0"
      "length buf = max (off + length bs) (length (m_buf m))"
    and m': "m' = m\<lparr>m_buf := copy_into off bs buf, m_len := max (m_len m) (off + length bs)\<rparr>"
    using assms(1) by (auto simp: mem_write_at_def max_def dest: grow_buf_Some split: if_splits option.splits)
  have nth: "buf ! i = (if i < m_len m then contents m ! i else 0)" if "i < length buf" for i
    using that working_nth [OF assms(2), of i] assms(2) unfolding working_def by (auto simp: buf(1) nth_append)
  have len: "off + length bs \<le> length buf" "m_len m \<le> length buf" "length (contents m) = m_len m"
    using buf(2) assms(2) by (auto simp: working_def contents_def)
  have new: "copy_into off bs buf ! i
      = (if i < off then if i < m_len m then contents m ! i else 0 else if i < off + length bs then bs ! (i - off)
         else if i < m_len m then contents m ! i else 0)" if "i < length buf" for i
    using nth_copy_into [OF len(1) that] nth [OF that] by simp
  have l: "length (copy_into off bs buf) = length buf"
    by (rule length_copy_into [OF len(1)])
  have "working m'"
    using len new l by (auto simp: working_def m' list_all_length)
  moreover have "contents m' = overlay off bs (contents m)"
  proof (rule nth_equalityI)
    show "length (contents m') = length (overlay off bs (contents m))"
      using len l by (auto simp: contents_def m' overlay_def)
    fix i
    assume "i < length (contents m')"
    then have i: "i < max (m_len m) (off + length bs)" "i < length buf"
      using len l by (auto simp: contents_def m')
    then have "contents m' ! i = copy_into off bs buf ! i"
      by (simp add: contents_def m')
    also have "\<dots> = overlay off bs (contents m) ! i"
    proof -
      have "min (m_len m) off + (off - m_len m) = off"
        by simp
      then show ?thesis
        unfolding new [OF i(2)] using i(1) len(3) by (auto simp: overlay_def nth_append)
    qed
    finally show "contents m' ! i = overlay off bs (contents m) ! i" .
  qed
  ultimately show ?thesis ..
qed

lemma mem_commit_working:
  assumes "mem_commit len m = (x, m')" "working m"
  shows "x = Inr () \<and> m_buf m' = [] \<and> (m_committed m' = None \<longrightarrow> m_len m' = 0)
    \<and> m_committed m' = (let bs = take (case len of Some n \<Rightarrow> n | None \<Rightarrow> m_len m) (contents m) in if bs = [] then None else Some bs)
    \<and> m_len m' = length (take (case len of Some n \<Rightarrow> n | None \<Rightarrow> m_len m) (contents m))"
proof -
  define n where "n = (case len of Some n \<Rightarrow> n | None \<Rightarrow> m_len m)"
  have le: "m_len m \<le> length (m_buf m)"
    using assms(2) by (simp add: working_def)
  then have "take n (contents m) = take (min n (m_len m)) (m_buf m)" "take (min n (m_len m)) (m_buf m) = [] \<longleftrightarrow> min n (m_len m) = 0"
    by (auto simp: contents_def)
  then show ?thesis
    using assms(1) le by (auto simp: mem_commit_def n_def [symmetric] Let_def split: if_splits)
qed

lemma mem_reactivate_working:
  assumes "mem_reactivate room m = (Inr u, m')" "m_buf m = []" "m_committed m = None \<longrightarrow> m_len m = 0"
  shows "working m' \<and> contents m' = (case m_committed m of Some bs \<Rightarrow> bs | None \<Rightarrow> [])"
proof (cases "m_committed m")
  case None
  then show ?thesis
    using assms by (simp add: mem_reactivate_def working_def contents_def)
next
  case (Some bs)
  then obtain buf where "grow_buf room (length bs) [] = Some buf" "m' = m\<lparr>m_buf := copy_into 0 bs buf, m_len := length bs\<rparr>"
    using assms(1,2) by (auto simp: mem_reactivate_def split: option.splits)
  then show ?thesis
    using Some grow_buf_Some by (fastforce simp: copy_into_def working_def contents_def)
qed

lemma mem_io_simps [simp]:
  "io_commit (mem_io room) = mem_commit" "io_reactivate (mem_io room) = mem_reactivate room"
  "io_write_at (mem_io room) = mem_write_at room" "io_read_at (mem_io room) = mem_read_at"
  "io_storage_len (mem_io room) = m_len" "io_valid_window (mem_io room) = (\<lambda>m. None)"
  "io_committed_len (mem_io room) = mem_committed_len"
  by (simp_all add: mem_io_def)

lemma clip_mem [simp]: "clip (mem_io room) rs upper d avail = avail"
  by (simp add: clip_def)

lemma observe_simps [simp]:
  "driver (observe w r) = driver r" "committed (observe w r) = committed r" "failed (observe w r) = failed r"
  "cancelled (observe w r) = cancelled r" "stamp_on_drop (observe w r) = stamp_on_drop r" "final_len (observe w r) = final_len r"
  "available (observe w r) = available r" "live_committed (observe w r) = live_committed r"
  by (simp_all add: observe_def)

lemma notify_simps [simp]:
  "driver (notify_commit l r) = driver r" "failed (notify_commit l r) = failed r" "cancelled (notify_commit l r) = cancelled r"
  "stamp_on_drop (notify_commit l r) = stamp_on_drop r" "available (notify_commit l r) = available r"
  by (simp_all add: notify_commit_def split: option.split)

lemma publish_simps [simp]:
  "driver (publish_commit io rs l r) = driver r" "committed (publish_commit io rs l r)" "failed (publish_commit io rs l r) = failed r"
  "cancelled (publish_commit io rs l r) = cancelled r" "final_len (publish_commit io rs l r) = l"
  by (simp_all add: publish_commit_def Let_def split: option.split)

lemma drop_writer_simps [simp]:
  "driver (drop_writer r) = driver r" "committed (drop_writer r) = committed r" "cancelled (drop_writer r) = cancelled r"
  "stamp_on_drop (drop_writer r) = stamp_on_drop r" "available (drop_writer r) = available r"
  "final_len (drop_writer r) = final_len r"
  by (simp_all add: drop_writer_def fail_with_def)

lemma drop_writer_leaves_word:
  "committed (drop_writer r) \<or> failed (drop_writer r) \<noteq> None \<or> cancelled (drop_writer r) \<or> \<not> stamp_on_drop (drop_writer r)"
  by (auto simp: drop_writer_def should_fail_on_drop_def fail_with_def)

lemma check_health_Inr [simp]: "check_health r = Inr u \<longleftrightarrow> \<not> cancelled r \<and> failed r = None"
  by (auto simp: check_health_def split: option.splits)

lemma commit_inner_mem:
  assumes "commit_inner (mem_io room) rs len r = (Inr u, r')" "working (driver r)"
  obtains m where "mem_commit len (driver r) = (Inr (), m)" "\<not> cancelled r" "failed r = None"
    "r' = publish_commit (mem_io room) rs len (notify_commit len (r\<lparr>driver := m\<rparr>))"
  using assms by (auto simp: commit_inner_def split: sum.splits prod.splits dest: mem_commit_working)

lemma commit_inner_error: "commit_inner (mem_io room) rs len r = (Inl e, r') \<Longrightarrow> working (driver r) \<Longrightarrow> r' = r"
  by (auto simp: commit_inner_def split: sum.splits prod.splits dest: mem_commit_working)

lemma write_at_inner_working:
  assumes "working (driver r)"
  shows "working (driver (snd (write_at_inner (mem_io room) rs off bs r)))"
proof -
  have "working m'" if "mem_write_at room off bs b (driver r) = (x, m')" for b x m'
    using that mem_write_working [OF _ assms] assms
    by (cases x) (auto simp: mem_write_at_def split: if_splits option.splits)
  then show ?thesis
    using assms by (auto simp: write_at_inner_def Let_def split: sum.splits option.splits prod.splits)
qed

lemma store_apply_inv:
  assumes "store_inv s"
  shows "store_inv (store_apply room rs c s)"
proof (cases c)
  case (Write off bs)
  then show ?thesis
    using assms write_at_inner_working by (auto simp: store_inv_def store_apply_def split: if_splits)
next
  case (Commit len)
  show ?thesis
  proof (cases "writer s")
    case True
    then have w: "working (driver (res s))"
      using assms by (simp add: store_inv_def)
    obtain x r where c: "commit_inner (mem_io room) rs len (res s) = (x, r)"
      by fastforce
    show ?thesis
    proof (cases x)
      case (Inl e)
      then show ?thesis
        using c Commit True assms drop_writer_leaves_word [of r] by (simp add: store_inv_def store_apply_def)
    next
      case (Inr u)
      obtain m where m: "mem_commit len (driver (res s)) = (Inr (), m)"
          and r: "r = publish_commit (mem_io room) rs len (notify_commit len ((res s)\<lparr>driver := m\<rparr>))"
        by (rule commit_inner_mem [OF c [unfolded Inr] w])
      have t: "store_apply room rs (Commit len) s = s\<lparr>res := drop_writer r, writer := False, sealed := True\<rparr>"
        using c Inr True by (simp add: store_apply_def)
      have "driver r = m" "committed r"
        by (simp_all add: r)
      then show ?thesis
        using mem_commit_working [OF m w] by (simp add: Commit t store_inv_def)
    qed
  qed (use Commit assms in \<open>simp add: store_apply_def\<close>)
next
  case Reactivate
  show ?thesis
  proof (cases "sealed s")
    case True
    obtain x r where c: "reactivate_inner (mem_io room) (res s) = (x, r)"
      by fastforce
    have s: "m_buf (driver (res s)) = []" "m_committed (driver (res s)) = None \<longrightarrow> m_len (driver (res s)) = 0" "\<not> writer s"
      using assms True by (auto simp: store_inv_def split: if_splits)
    show ?thesis
    proof (cases x)
      case (Inl e)
      then have "committed r = committed (res s)" "failed r = failed (res s)" "cancelled r = cancelled (res s)"
          "stamp_on_drop r = stamp_on_drop (res s)"
        using c by (auto simp: reactivate_inner_def split: if_splits sum.splits prod.splits)
      then show ?thesis
        using c Inl Reactivate True assms s(3) by (simp add: store_inv_def store_apply_def)
    next
      case (Inr u)
      then obtain m v where "mem_reactivate room (driver (res s)) = (Inr v, m)" "driver r = m"
        using c by (auto simp: reactivate_inner_def split: if_splits sum.splits prod.splits)
      then show ?thesis
        using c Inr Reactivate True mem_reactivate_working [OF _ s(1,2)] by (simp add: store_inv_def store_apply_def)
    qed
  qed (use Reactivate assms in \<open>simp add: store_apply_def\<close>)
next
  case (Fail reason)
  then show ?thesis
    using assms drop_writer_leaves_word [of "fail_with reason (res s)"]
    by (cases "writer s") (simp_all add: store_inv_def store_apply_def)
next
  case Abandon
  then show ?thesis
    using assms by (cases "writer s") (simp_all add: store_inv_def store_apply_def abandon_def)
next
  case DropWriter
  then show ?thesis
    using assms drop_writer_leaves_word [of "res s"] by (cases "writer s") (simp_all add: store_inv_def store_apply_def)
next
  case Cancel
  then show ?thesis
    using assms by (cases "writer s") (simp_all add: store_inv_def store_apply_def)
qed

lemma store_open_inv:
  assumes "store_open room rs watched initial capacity = Inr s"
  shows "store_inv s"
proof -
  obtain m avail len b where m: "mem_open room rs initial capacity = Inr (m, avail, len, b)"
      "s = \<lparr>res = open_with_observer False watched m len avail b, writer = True, sealed = False\<rparr>"
    using assms by (auto simp: store_open_def split: sum.splits prod.splits)
  have "working m"
    using m(1) by (auto simp: mem_open_def working_def copy_into_def grow_buf_def list_all_length split: option.splits if_splits)
  then show ?thesis
    by (simp add: m(2) store_inv_def open_with_observer_def)
qed

lemma store_run_inv:
  assumes "store_open room rs watched initial capacity = Inr s" "store_run room rs cs s = t"
  shows "store_inv t"
proof -
  have "store_inv (fold (store_apply room rs) cs s)"
    using store_open_inv [OF assms(1)] by (induction cs rule: rev_induct) (simp_all add: store_apply_inv)
  then show ?thesis
    using assms(2) by (simp add: store_run_def)
qed

subsection \<open>The file behind the calls\<close>

text \<open>
  What a resource promises: a draft for the writer and the generation last published.  Accepted
  calls edit the draft, publish a prefix of it or take the published bytes up again; a refused
  commit gives the draft up, a refused reactivation its right to write.
\<close>

record stored_file =
  draft :: "byte list option"
  published :: "byte list option"
  closed :: bool

definition file_of :: "'r store_sys \<Rightarrow> stored_file" where
  "file_of s =
     \<lparr>draft = (if writer s then Some (contents (driver (res s))) else None),
      published = m_committed (driver (res s)), closed = sealed s\<rparr>"

definition publish :: "byte list \<Rightarrow> byte list option" where
  "publish bs = (if bs = [] then None else Some bs)"

definition file_apply :: "bool \<Rightarrow> store_call \<Rightarrow> stored_file \<Rightarrow> stored_file" where
  "file_apply accepted c f =
     (case draft f of
        Some bs \<Rightarrow>
          (case c of
             Write off new \<Rightarrow> if accepted \<and> new \<noteq> [] then f\<lparr>draft := Some (overlay off new bs)\<rparr> else f
           | Commit len \<Rightarrow>
               if accepted
               then \<lparr>draft = None, published = publish (case len of Some n \<Rightarrow> take n bs | None \<Rightarrow> bs), closed = True\<rparr>
               else f\<lparr>draft := None\<rparr>
           | Fail reason \<Rightarrow> f\<lparr>draft := None\<rparr>
           | DropWriter \<Rightarrow> f\<lparr>draft := None\<rparr>
           | _ \<Rightarrow> f)
      | None \<Rightarrow>
          if c = Reactivate \<and> closed f
          then f\<lparr>draft := (if accepted then Some (case published f of Some bs \<Rightarrow> bs | None \<Rightarrow> []) else None), closed := False\<rparr>
          else f)"

text \<open>The answer of a call: a resource takes a write while it is healthy and not committed, the range
  ends within 64 bits and the budget has room for a longer buffer.\<close>

definition store_accepts :: "(nat \<Rightarrow> bool) \<Rightarrow> 'r range_ops \<Rightarrow> store_call \<Rightarrow> 'r store_sys \<Rightarrow> bool" where
  "store_accepts room rs c s =
     (case c of
        Write off bs \<Rightarrow> fst (write_at_inner (mem_io room) rs off bs (res s)) = Inr ()
      | Commit len \<Rightarrow> fst (commit_inner (mem_io room) rs len (res s)) = Inr ()
      | Reactivate \<Rightarrow> fst (reactivate_inner (mem_io room) (res s)) = Inr ()
      | _ \<Rightarrow> True)"

lemma write_accepted:
  assumes "write_at_inner (mem_io room) rs off bs r = (Inr u, r')" "bs \<noteq> []"
  obtains m where "mem_write_at room off bs (committed r) (driver r) = (Inr (), m)" "driver r' = m"
  using assms by (auto simp: write_at_inner_def Let_def split: sum.splits option.splits prod.splits)

lemma write_refused:
  assumes "write_at_inner (mem_io room) rs off bs r = (Inl e, r')"
  shows "r' = r"
  using assms
  by (auto simp: write_at_inner_def mem_write_at_def Let_def split: sum.splits option.splits prod.splits if_splits)

lemma file_of_writer: "writer s \<Longrightarrow> file_of s = \<lparr>draft = Some (contents (driver (res s))), published = m_committed (driver (res s)), closed = sealed s\<rparr>"
  by (simp add: file_of_def)

lemma file_of_reader: "\<not> writer s \<Longrightarrow> file_of s = \<lparr>draft = None, published = m_committed (driver (res s)), closed = sealed s\<rparr>"
  by (simp add: file_of_def)

lemma write_simulates:
  assumes "store_inv s" "writer s"
  shows "file_of (store_apply room rs (Write off bs) s)
    = file_apply (store_accepts room rs (Write off bs) s) (Write off bs) (file_of s)"
proof -
  obtain x r where x: "write_at_inner (mem_io room) rs off bs (res s) = (x, r)"
    by fastforce
  show ?thesis
  proof (cases "bs = [] \<or> x \<noteq> Inr ()")
    case True
    then have "r = res s"
      using x write_refused by (cases x) (auto simp: write_at_inner_def)
    then show ?thesis
      using True x assms by (auto simp: store_apply_def store_accepts_def file_apply_def file_of_writer)
  next
    case False
    then obtain m where m: "mem_write_at room off bs (committed (res s)) (driver (res s)) = (Inr (), m)" "driver r = m"
      using x write_accepted by blast
    have "contents m = overlay off bs (contents (driver (res s)))"
      using mem_write_working [OF m(1)] assms by (simp add: store_inv_def)
    moreover have "m_committed m = m_committed (driver (res s))"
      using memory.write_keeps [of room off bs "committed (res s)" "driver (res s)"] m(1) by simp
    ultimately show ?thesis
      using False x m assms by (simp add: store_apply_def store_accepts_def file_apply_def file_of_writer)
  qed
qed

lemma commit_simulates:
  assumes "store_inv s" "writer s"
  shows "file_of (store_apply room rs (Commit len) s)
    = file_apply (store_accepts room rs (Commit len) s) (Commit len) (file_of s)"
proof -
  have w: "working (driver (res s))"
    using assms by (simp add: store_inv_def)
  obtain x r where x: "commit_inner (mem_io room) rs len (res s) = (x, r)"
    by fastforce
  show ?thesis
  proof (cases x)
    case (Inl e)
    then have "r = res s"
      using x commit_inner_error w by blast
    then show ?thesis
      using Inl x assms by (simp add: store_apply_def store_accepts_def file_apply_def file_of_def)
  next
    case (Inr u)
    obtain m where m: "mem_commit len (driver (res s)) = (Inr (), m)"
        and r: "r = publish_commit (mem_io room) rs len (notify_commit len ((res s)\<lparr>driver := m\<rparr>))"
      by (rule commit_inner_mem [OF x [unfolded Inr] w])
    have "length (contents (driver (res s))) = m_len (driver (res s))"
      using w by (simp add: contents_def working_def)
    then have "m_committed m = publish (case len of Some n \<Rightarrow> take n (contents (driver (res s))) | None \<Rightarrow> contents (driver (res s)))"
      using mem_commit_working [OF m w] by (auto simp: publish_def Let_def split: option.splits)
    then show ?thesis
      using x r Inr assms by (simp add: store_apply_def store_accepts_def file_apply_def file_of_def)
  qed
qed

lemma reactivation_simulates:
  assumes "store_inv s" "\<not> writer s"
  shows "file_of (store_apply room rs Reactivate s)
    = file_apply (store_accepts room rs Reactivate s) Reactivate (file_of s)"
proof (cases "sealed s")
  case True
  obtain x r where x: "reactivate_inner (mem_io room) (res s) = (x, r)"
    by fastforce
  have keeps: "m_committed (driver r) = m_committed (driver (res s))"
    using memory.reactivate_keeps_published [OF x] .
  show ?thesis
  proof (cases x)
    case (Inl e)
    then show ?thesis
      using x keeps True assms by (simp add: store_apply_def store_accepts_def file_apply_def file_of_def)
  next
    case (Inr u)
    then obtain m v where m: "mem_reactivate room (driver (res s)) = (Inr v, m)" "driver r = m"
      using x by (auto simp: reactivate_inner_def split: if_splits sum.splits prod.splits)
    have s: "m_buf (driver (res s)) = []" "m_committed (driver (res s)) = None \<longrightarrow> m_len (driver (res s)) = 0"
      using assms(1) True by (simp_all add: store_inv_def)
    have "contents m = (case m_committed (driver (res s)) of Some bs \<Rightarrow> bs | None \<Rightarrow> [])"
      using mem_reactivate_working [OF m(1) s] by blast
    then show ?thesis
      using x Inr m keeps True assms by (simp add: store_apply_def store_accepts_def file_apply_def file_of_def)
  qed
qed (use assms in \<open>simp add: store_apply_def file_apply_def file_of_def\<close>)

lemma store_apply_simulates:
  assumes "store_inv s"
  shows "file_of (store_apply room rs c s) = file_apply (store_accepts room rs c s) c (file_of s)"
proof (cases "writer s")
  case True
  then have "\<not> sealed s"
    using assms by (simp add: store_inv_def)
  show ?thesis
  proof (cases c)
    case (Write off bs)
    then show ?thesis
      using write_simulates [OF assms True] by simp
  next
    case (Commit len)
    then show ?thesis
      using commit_simulates [OF assms True] by simp
  qed (use True \<open>\<not> sealed s\<close> in \<open>simp_all add: store_apply_def file_apply_def file_of_def abandon_def fail_with_def\<close>)
next
  case False
  then show ?thesis
    using assms reactivation_simulates [OF assms False]
    by (cases c) (simp_all add: store_apply_def file_apply_def file_of_def)
qed

text \<open>The answers, and the file, of a run from the start.\<close>

fun file_run :: "(nat \<Rightarrow> bool) \<Rightarrow> 'r range_ops \<Rightarrow> store_call list \<Rightarrow> 'r store_sys \<Rightarrow> stored_file \<Rightarrow> stored_file" where
  "file_run room rs [] s f = f"
| "file_run room rs (c # cs) s f =
     file_run room rs cs (store_apply room rs c s) (file_apply (store_accepts room rs c s) c f)"

lemma store_run_simulates: "store_inv s \<Longrightarrow> file_of (store_run room rs cs s) = file_run room rs cs s (file_of s)"
  by (induction cs arbitrary: s) (simp_all add: store_run_def store_apply_simulates store_apply_inv)

text \<open>A writer that is still at it knows no final length.\<close>

definition open_ended :: "'r store_sys \<Rightarrow> bool" where
  "open_ended s \<longleftrightarrow> (if committed (res s) then True else final_len (res s) = None)"

lemma write_at_inner_fields:
  "write_at_inner io rs off bs r = (x, r') \<Longrightarrow> committed r' = committed r \<and> final_len r' = final_len r \<and> cancelled r' = cancelled r"
  by (auto simp: write_at_inner_def Let_def split: sum.splits option.splits prod.splits if_splits)

lemma reactivate_inner_fields:
  "reactivate_inner io r = (x, r') \<Longrightarrow> (committed r' = committed r \<and> final_len r' = final_len r) \<or> (\<not> committed r' \<and> final_len r' = None)"
  by (auto simp: reactivate_inner_def split: sum.splits prod.splits if_splits)

lemma commit_inner_fields:
  "commit_inner io rs len r = (x, r') \<Longrightarrow> (committed r' = committed r \<and> final_len r' = final_len r) \<or> committed r'"
  by (auto simp: commit_inner_def split: sum.splits prod.splits)

lemma store_apply_open_ended:
  assumes "open_ended s"
  shows "open_ended (store_apply room rs c s)"
proof (cases c)
  case (Write off bs)
  then show ?thesis
    using assms write_at_inner_fields [of "mem_io room" rs off bs "res s"]
    by (cases "write_at_inner (mem_io room) rs off bs (res s)") (simp add: open_ended_def store_apply_def)
next
  case (Commit len)
  obtain x r where x: "commit_inner (mem_io room) rs len (res s) = (x, r)"
    by fastforce
  then show ?thesis
    using Commit assms commit_inner_fields [OF x] by (cases x) (auto simp: open_ended_def store_apply_def)
next
  case Reactivate
  obtain x r where x: "reactivate_inner (mem_io room) (res s) = (x, r)"
    by fastforce
  then show ?thesis
    using Reactivate assms reactivate_inner_fields [OF x] by (cases x) (auto simp: open_ended_def store_apply_def)
qed (use assms in \<open>simp_all add: open_ended_def store_apply_def abandon_def fail_with_def\<close>)

lemma store_open_open_ended: "store_open room rs watched initial capacity = Inr s \<Longrightarrow> open_ended s"
  by (auto simp: store_open_def mem_open_def open_with_observer_def open_ended_def split: sum.splits option.splits if_splits)

lemma store_run_open_ended:
  assumes "store_open room rs watched initial capacity = Inr s" "store_run room rs cs s = t"
  shows "open_ended t"
proof -
  have "open_ended (fold (store_apply room rs) cs s)"
    using store_open_open_ended [OF assms(1)] by (induction cs rule: rev_induct) (simp_all add: store_apply_open_ended)
  then show ?thesis
    using assms(2) by (simp add: store_run_def)
qed

subsection \<open>Reads, waits and a finished writer\<close>

lemma inflight_read:
  assumes "working (driver r)" "check_health r = Inr ()" "final_len r = None"
  shows "read_inflight_at (mem_io room) off n r = Inr (slice off n (contents (driver r)))"
  using assms
  by (auto simp: read_inflight_at_def read_working_def mem_read_at_def slice_def contents_def working_def Let_def min_def take_drop
      simp del: check_health_Inr)

text \<open>A set of points as a list: the first gap is the first point missing.\<close>

definition point_ranges :: "nat list range_ops" where
  "point_ranges =
     \<lparr>rs_empty = [], rs_insert = (\<lambda>r l. [fst r..<snd r] @ l),
      rs_remove = (\<lambda>r l. filter (\<lambda>i. \<not> (fst r \<le> i \<and> i < snd r)) l),
      rs_gaps = (\<lambda>r l. case find (\<lambda>i. \<not> List.member l i) [fst r..<snd r] of None \<Rightarrow> [] | Some x \<Rightarrow> [(x, Suc x)])\<rparr>"

lemma find_upt_Some:
  "find P [a..<b] = Some x \<longleftrightarrow> a \<le> x \<and> x < b \<and> P x \<and> list_all (\<lambda>i. \<not> P i) [a..<x]"
proof
  assume "find P [a..<b] = Some x"
  then obtain i where i: "i < b - a" "P (a + i)" "x = a + i" "\<forall>j<i. \<not> P (a + j)"
    by (auto simp: find_Some_iff)
  moreover have "\<not> P j" if "a \<le> j" "j < x" for j
    using i(4) [rule_format, of "j - a"] that i(3) by auto
  ultimately show "a \<le> x \<and> x < b \<and> P x \<and> list_all (\<lambda>i. \<not> P i) [a..<x]"
    by (auto simp: list_all_iff)
next
  assume "a \<le> x \<and> x < b \<and> P x \<and> list_all (\<lambda>i. \<not> P i) [a..<x]"
  then show "find P [a..<b] = Some x"
    by (auto simp: find_Some_iff list_all_iff intro!: exI [of _ "x - a"])
qed

lemma lawful_point_ranges: "lawful_ranges point_ranges set"
proof -
  have "find (\<lambda>i. i \<notin> set l) [a..<b] = None \<longleftrightarrow> {a..<b} \<subseteq> set l" for a b and l :: "nat list"
    by (auto simp: find_None_iff)
  then show ?thesis
    by (auto simp: lawful_ranges_def point_ranges_def find_upt_Some list_all_iff split: option.splits)
qed

lemma covered_by_points: "lawful_ranges rs pts \<Longrightarrow> range_covered_by rs avail (lo, hi) \<longleftrightarrow> {lo..<hi} \<subseteq> pts avail"
  by (auto simp: range_covered_by_def lawful_ranges_def)

lemma published_points:
  assumes "lawful_ranges rs pts"
  shows "pts (available r) \<subseteq> pts (available (publish_commit (mem_io room) rs len r))"
  using assms by (auto simp: publish_commit_def lawful_ranges_def Let_def split: option.splits)

lemma stale_wait:
  assumes "lawful_ranges rs pts" "{lo..<hi} \<subseteq> pts (available r)" "lo < hi" "check_health r = Inr ()"
  shows "wait_range_turn (mem_io room) rs (lo, hi) False r = Some (Inr Ready)"
  using assms by (simp add: wait_range_turn_def covered_by_points)

lemma published_read_past_the_end:
  assumes "m_buf (driver r) = []" "case m_committed (driver r) of Some bs \<Rightarrow> length bs \<le> off | None \<Rightarrow> m_len (driver r) \<le> off"
    "check_health r = Inr ()"
  shows "read_at_inner (mem_io room) off n r = Inr []"
  using assms
  by (auto simp: read_at_inner_def read_working_def mem_committed_len_def Let_def split: option.splits simp del: check_health_Inr dest: check_health_Inr [THEN iffD1])

lemma commit_leaves_stale_ranges:
  assumes "lawful_ranges rs pts" "working (driver r)" "check_health r = Inr ()"
    and "len \<le> lo" "lo < hi" "{lo..<hi} \<subseteq> pts (available r)"
    and "commit_inner (mem_io room) rs (Some len) r = (Inr u, r')"
  shows "wait_range_turn (mem_io room) rs (lo, hi) False r' = Some (Inr Ready)
    \<and> read_at_inner (mem_io room) lo n r' = Inr []"
proof -
  obtain m where m: "mem_commit (Some len) (driver r) = (Inr (), m)"
      and r': "r' = publish_commit (mem_io room) rs (Some len) (notify_commit (Some len) (r\<lparr>driver := m\<rparr>))"
    by (rule commit_inner_mem [OF assms(7,2)])
  have health: "check_health r' = Inr ()"
    using assms(3) by (simp add: r')
  have "{lo..<hi} \<subseteq> pts (available r')"
    using published_points [OF assms(1), of "notify_commit (Some len) (r\<lparr>driver := m\<rparr>)" room "Some len"] assms(6) by (auto simp: r')
  then have "wait_range_turn (mem_io room) rs (lo, hi) False r' = Some (Inr Ready)"
    by (rule stale_wait [OF assms(1) _ assms(5) health])
  moreover have "driver r' = m"
    by (simp add: r')
  then have "read_at_inner (mem_io room) lo n r' = Inr []"
    using mem_commit_working [OF m assms(2)] assms(4) health
    by (intro published_read_past_the_end) (auto simp: Let_def split: option.splits if_splits)
  ultimately show ?thesis ..
qed

subsection \<open>What the resource promises\<close>

lemma file_of_opened:
  assumes "store_open room rs watched initial capacity = Inr s"
  shows "file_of s =
    \<lparr>draft = Some (case initial of Some bs \<Rightarrow> bs | None \<Rightarrow> []),
     published = (case initial of Some bs \<Rightarrow> publish bs | None \<Rightarrow> None), closed = False\<rparr>"
  using assms
  by (auto simp: store_open_def mem_open_def open_with_observer_def file_of_def contents_def publish_def copy_into_def
      dest!: grow_buf_Some split: sum.splits option.splits if_splits)

text \<open>A resource opened empty, and a run that commits less than was written and writes again.\<close>

definition fresh_store :: "nat list store_sys" where
  "fresh_store =
     \<lparr>res = open_with_observer False True \<lparr>m_buf = [], m_len = 0, m_committed = None\<rparr> None [] False,
      writer = True, sealed = False\<rparr>"

lemma fresh_store_opens: "store_open (\<lambda>n. True) point_ranges True None 0 = Inr fresh_store"
  by (simp add: store_open_def mem_open_def fresh_store_def point_ranges_def)

definition rewritten :: "store_call list" where
  "rewritten = [Write 0 [1, 2, 3, 4], Commit (Some 3), Reactivate, Write 1 [9]]"

lemmas store_eval = store_run_def store_apply_def fresh_store_def rewritten_def open_with_observer_def
  write_at_inner_def check_health_def commit_inner_def publish_commit_def notify_commit_def observe_def
  reactivate_inner_def drop_writer_def should_fail_on_drop_def fail_with_def
  mem_write_at_def mem_commit_def mem_reactivate_def grow_buf_def copy_into_def point_ranges_def
  contents_def overlay_def file_apply_def store_accepts_def publish_def checked_add_def u64_max_def upt_rec

text \<open>C17: a resource is a file with a published generation and a draft.  Whatever the writer, the
  committed handle and cancellation do after a resource was opened, in whatever order, its working
  bytes and its published bytes are those of the plain file on which only the accepted calls
  happened: a write overlays the draft (with zeros in a hole), a commit publishes the prefix it
  names and seals the resource, a reactivation drafts the published bytes again, and a refused or
  abandoned generation never touches what is published.\<close>

theorem resource_is_a_file:
  assumes "store_open room rs watched initial capacity = Inr s"
  shows "file_of (store_run room rs cs s) =
    file_run room rs cs s
      \<lparr>draft = Some (case initial of Some bs \<Rightarrow> bs | None \<Rightarrow> []),
       published = (case initial of Some bs \<Rightarrow> publish bs | None \<Rightarrow> None), closed = False\<rparr>"
  using store_run_simulates [OF store_open_inv [OF assms]] file_of_opened [OF assms] by simp

lemma resource_is_a_file_witness:
  "file_of (store_run (\<lambda>n. True) point_ranges rewritten fresh_store)
     = \<lparr>draft = Some [1, 9, 3], published = Some [1, 2, 3], closed = False\<rparr>"
proof -
  have "file_run (\<lambda>n. True) point_ranges rewritten fresh_store \<lparr>draft = Some [], published = None, closed = False\<rparr>
      = \<lparr>draft = Some [1, 9, 3], published = Some [1, 2, 3], closed = False\<rparr>"
    by (simp add: store_eval del: check_health_Inr)
  then show ?thesis
    using resource_is_a_file [OF fresh_store_opens, of rewritten] by simp
qed

text \<open>C18: readers get the last published generation, whole, while the next one is written.  In every
  state a resource can reach, while it is not cancelled, a read returns the bytes of the published
  generation at its offset and range queries answer for its length, even on a failed resource; and
  a reactivated or new writer that is healthy reads back its own draft instead.\<close>

theorem reads_follow_generations:
  assumes "store_open room rs watched initial capacity = Inr s" "store_run room rs cs s = t"
  shows "(\<not> cancelled (res t) \<longrightarrow> published (file_of t) = Some bs \<longrightarrow>
        read_at_inner (mem_io room) off n (res t) = Inr (slice off n bs)
        \<and> (contains_range (mem_io room) rs (lo, hi) (res t) \<longleftrightarrow> hi \<le> lo \<or> hi \<le> length bs))
    \<and> (check_health (res t) = Inr () \<longrightarrow> \<not> committed (res t) \<longrightarrow> draft (file_of t) = Some bs' \<longrightarrow>
        read_inflight_at (mem_io room) off n (res t) = Inr (slice off n bs'))"
proof (intro conjI impI)
  assume "\<not> cancelled (res t)" "published (file_of t) = Some bs"
  then show "read_at_inner (mem_io room) off n (res t) = Inr (slice off n bs)"
    and "contains_range (mem_io room) rs (lo, hi) (res t) \<longleftrightarrow> hi \<le> lo \<or> hi \<le> length bs"
    by (simp_all add: file_of_def memory.read_published memory.contains_published)
next
  assume *: "check_health (res t) = Inr ()" "\<not> committed (res t)" "draft (file_of t) = Some bs'"
  then have "final_len (res t) = None" "working (driver (res t))" "contents (driver (res t)) = bs'"
    using store_run_open_ended [OF assms] store_run_inv [OF assms]
    by (auto simp: open_ended_def store_inv_def file_of_def split: if_splits)
  then show "read_inflight_at (mem_io room) off n (res t) = Inr (slice off n bs')"
    using inflight_read [OF _ *(1)] by simp
qed

lemma reads_follow_generations_witness:
  "read_at_inner (mem_io (\<lambda>n. True)) 1 5 (res (store_run (\<lambda>n. True) point_ranges rewritten fresh_store)) = Inr [2, 3]
    \<and> read_inflight_at (mem_io (\<lambda>n. True)) 1 5 (res (store_run (\<lambda>n. True) point_ranges rewritten fresh_store)) = Inr [9, 3]"
proof -
  define t where "t = store_run (\<lambda>n. True) point_ranges rewritten fresh_store"
  have t: "\<not> cancelled (res t) \<and> published (file_of t) = Some [1, 2, 3] \<and> draft (file_of t) = Some [1, 9, 3]
      \<and> failed (res t) = None \<and> \<not> committed (res t)"
    unfolding t_def by (simp add: store_eval file_of_def del: check_health_Inr)
  show ?thesis
    using reads_follow_generations [OF fresh_store_opens t_def [symmetric], of "[1, 2, 3]" 1 5 0 0 "[1, 9, 3]"] t
    by (simp add: t_def [symmetric] slice_def)
qed

text \<open>C19: a writer that is gone leaves no reader parked.  In every state a resource can reach, once the
  writing handle has been committed, failed or dropped, a waiter gets an answer (its bytes, the end
  of the resource, or an error), unless the writer had waived this by abandoning the resource.\<close>

theorem finished_writer_leaves_no_waiter:
  assumes "store_open room rs watched initial capacity = Inr s" "store_run room rs cs s = t"
    and "\<not> writer t" "stamp_on_drop (res t)"
  shows "wait_range_turn (mem_io room) rs rng wait_cancelled (res t) \<noteq> None"
proof -
  have "committed (res t) \<or> failed (res t) \<noteq> None \<or> cancelled (res t)"
    using store_run_inv [OF assms(1,2)] assms(3,4) by (simp add: store_inv_def)
  then show ?thesis
    using memory.commit_settles [of "res t"] by (auto simp: wait_range_turn_def split: prod.splits option.splits)
qed

lemma finished_writer_leaves_no_waiter_witness:
  "wait_range_turn (mem_io (\<lambda>n. True)) point_ranges (0, 9) False
     (res (store_run (\<lambda>n. True) point_ranges [Write 0 [1, 2], DropWriter] fresh_store)) \<noteq> None"
proof -
  define t where "t = store_run (\<lambda>n. True) point_ranges [Write 0 [1, 2], DropWriter] fresh_store"
  have "\<not> writer t" "stamp_on_drop (res t)"
    unfolding t_def by (simp_all add: store_eval del: check_health_Inr)
  then show ?thesis
    using finished_writer_leaves_no_waiter [OF fresh_store_opens t_def [symmetric]] by (simp add: t_def)
qed

text \<open>C20: a commit shorter than what was written leaves the ranges past its length behind.  A reader
  waiting at or past the end of the committed resource for bytes that had been written is told they
  are ready, where the outcome for a range that starts past the end is \<open>Eof\<close>; its read then
  returns nothing.\<close>

theorem shorter_commit_keeps_stale_ranges:
  assumes "lawful_ranges rs pts" "store_open room rs watched initial capacity = Inr s" "store_run room rs cs s = t"
    and "writer t" "check_health (res t) = Inr ()"
    and "len \<le> lo" "lo < hi" "{lo..<hi} \<subseteq> pts (available (res t))"
  shows "wait_range_turn (mem_io room) rs (lo, hi) False (res (store_apply room rs (Commit (Some len)) t)) = Some (Inr Ready)
    \<and> read_at_inner (mem_io room) lo n (res (store_apply room rs (Commit (Some len)) t)) = Inr []"
proof -
  have w: "working (driver (res t))"
    using store_run_inv [OF assms(2,3)] assms(4) by (simp add: store_inv_def)
  obtain m where m: "mem_commit (Some len) (driver (res t)) = (Inr (), m)"
    using mem_commit_working [OF _ w] by (metis surj_pair)
  define r where "r = publish_commit (mem_io room) rs (Some len) (notify_commit (Some len) ((res t)\<lparr>driver := m\<rparr>))"
  have c: "commit_inner (mem_io room) rs (Some len) (res t) = (Inr (), r)"
    unfolding commit_inner_def assms(5) by (simp add: m r_def)
  moreover have "drop_writer r = r"
    by (simp add: drop_writer_def should_fail_on_drop_def r_def)
  ultimately have "res (store_apply room rs (Commit (Some len)) t) = r"
    using assms(4) by (simp add: store_apply_def)
  then show ?thesis
    using commit_leaves_stale_ranges [OF assms(1) w assms(5-8) c] by simp
qed

lemma shorter_commit_keeps_stale_ranges_witness:
  "wait_range_turn (mem_io (\<lambda>n. True)) point_ranges (2, 4) False
     (res (store_run (\<lambda>n. True) point_ranges [Write 0 [1, 2, 3, 4], Commit (Some 2)] fresh_store)) = Some (Inr Ready)"
proof -
  define t where "t = store_run (\<lambda>n. True) point_ranges [Write 0 [1, 2, 3, 4]] fresh_store"
  have t: "writer t \<and> \<not> cancelled (res t) \<and> failed (res t) = None \<and> available (res t) = [0, 1, 2, 3]"
    unfolding t_def by (simp add: store_eval del: check_health_Inr)
  have "store_run (\<lambda>n. True) point_ranges [Write 0 [1, 2, 3, 4], Commit (Some 2)] fresh_store
      = store_apply (\<lambda>n. True) point_ranges (Commit (Some 2)) t"
    by (simp add: t_def store_run_def)
  moreover have "{2..<4} \<subseteq> set (available (res t))"
    using t by auto
  ultimately show ?thesis
    using shorter_commit_keeps_stale_ranges [OF lawful_point_ranges fresh_store_opens t_def [symmetric], of 2 2 4 0] t by simp
qed

end
