(* ===== verification/Signal_Time.thy ===== *)
theory Signal_Time
  imports Prelude "HOL-Library.Monad_Syntax"
begin

text \<open>
  Frames and time (\<open>crates/kithara-signal/src/{time,spec}.rs\<close>): the format of decoded audio and
  the conversions between frame counts, sample counts and durations, exact in 128-bit arithmetic.
  A \<open>Duration\<close> is its nanoseconds, bounded by \<open>duration_max\<close>; products of a \<open>u64\<close> with the
  nanoseconds of a second or with a \<open>u32\<close> always fit in 128 bits.
\<close>

subsection \<open>The format and its conversions\<close>

record audio_spec =
  spec_rate :: nat
  channels :: nat

datatype signal_error =
    ChannelCountZero
  | SampleCountOverflow nat nat
  | IncompleteFrame nat nat
  | DurationOverflow nat nat
  | FrameCountOverflow nat nat

definition nanos_per_second :: nat where
  "nanos_per_second = 1000000000"

definition rescale_frame_ceil :: "nat \<Rightarrow> nat \<Rightarrow> nat \<Rightarrow> nat option" where
  "rescale_frame_ceil frame source_rate target_rate =
     (let scaled = (frame * target_rate + source_rate - 1) div source_rate
      in if scaled \<le> u64_max then Some scaled else None)"

definition duration_for :: "audio_spec \<Rightarrow> nat \<Rightarrow> (signal_error, duration) result" where
  "duration_for s frames =
     (let nanos = frames * nanos_per_second div spec_rate s
      in if nanos \<le> u64_max then Inr nanos else Inl (DurationOverflow frames (spec_rate s)))"

definition frames_for :: "audio_spec \<Rightarrow> duration \<Rightarrow> (signal_error, nat) result" where
  "frames_for s d =
     (let frames = d * spec_rate s div nanos_per_second
      in if frames \<le> usize_max then Inr frames else Inl (FrameCountOverflow d (spec_rate s)))"

definition frame_at :: "audio_spec \<Rightarrow> duration \<Rightarrow> (signal_error, nat) result" where
  "frame_at s t =
     ok_or (FrameCountOverflow t (spec_rate s)) (do {
       whole \<leftarrow> checked_mul u64_max (t div nanos_per_second) (spec_rate s);
       subsec \<leftarrow> checked_mul u64_max (t mod nanos_per_second) (spec_rate s);
       rounded \<leftarrow> checked_add u64_max subsec 500000000;
       checked_add u64_max whole (rounded div 1000000000)
     })"

definition audio_channel_count :: "audio_spec \<Rightarrow> (signal_error, nat) result" where
  "audio_channel_count s = (if channels s = 0 then Inl ChannelCountZero else Inr (channels s))"

definition frame_count :: "audio_spec \<Rightarrow> nat \<Rightarrow> (signal_error, nat) result" where
  "frame_count s samples =
     res_bind (audio_channel_count s) (\<lambda>n.
       if samples mod n \<noteq> 0 then Inl (IncompleteFrame n samples) else Inr (samples div n))"

definition sample_count :: "audio_spec \<Rightarrow> nat \<Rightarrow> (signal_error, nat) result" where
  "sample_count s frames =
     res_bind (audio_channel_count s) (\<lambda>n. ok_or (SampleCountOverflow n frames) (checked_mul usize_max frames n))"

definition abs_diff :: "nat \<Rightarrow> nat \<Rightarrow> nat" where
  "abs_diff a b = (if a \<le> b then b - a else a - b)"

definition frame_on_grid :: "audio_spec \<Rightarrow> duration \<Rightarrow> nat option" where
  "frame_on_grid s t =
     (case frame_at s t of
        Inl _ \<Rightarrow> None
      | Inr frame \<Rightarrow> (case duration_for s frame of
          Inl _ \<Rightarrow> None
        | Inr frame_time \<Rightarrow> if abs_diff t frame_time \<le> 1 then Some frame else None))"

definition elapsed_since :: "audio_spec \<Rightarrow> duration \<Rightarrow> duration \<Rightarrow> duration" where
  "elapsed_since s origin t =
     (case (frame_on_grid s origin, frame_on_grid s t) of
        (Some a, Some b) \<Rightarrow> (case duration_for s (b - a) of Inr d \<Rightarrow> d | Inl _ \<Rightarrow> t - origin)
      | _ \<Rightarrow> t - origin)"

subsection \<open>Exactness\<close>

lemma duration_for_Inr:
  "duration_for s f = Inr d \<longleftrightarrow> d = f * nanos_per_second div spec_rate s \<and> d \<le> u64_max"
  by (auto simp: duration_for_def Let_def)

text \<open>Rounding the seconds and the rest apart is rounding the whole.\<close>

lemma split_second: "t div n * r * n + t mod n * r = t * (r :: nat)"
proof -
  have "t div n * r * n + t mod n * r = (t div n * n + t mod n) * r"
    by (simp only: add_mult_distrib mult.assoc mult.commute [of n r])
  then show ?thesis
    by (simp only: div_mult_mod_eq)
qed

lemma frame_at_Inr:
  assumes "frame_at s t = Inr f"
  shows "f = (t * spec_rate s + 500000000) div nanos_per_second"
proof -
  have "f = t div nanos_per_second * spec_rate s + (t mod nanos_per_second * spec_rate s + 500000000) div 1000000000"
    using assms by (auto simp: frame_at_def bind_eq_Some_conv)
  also have "\<dots> = (t div nanos_per_second * spec_rate s * 1000000000 + (t mod nanos_per_second * spec_rate s + 500000000)) div 1000000000"
    by simp
  also have "t div nanos_per_second * spec_rate s * 1000000000 + (t mod nanos_per_second * spec_rate s + 500000000)
      = t * spec_rate s + 500000000"
    using split_second [of t nanos_per_second "spec_rate s"] by (simp add: nanos_per_second_def)
  finally show ?thesis
    by (simp only: nanos_per_second_def)
qed

lemma frame_time_rounds_back:
  fixes f r :: nat
  assumes "0 < r" "r \<le> 500000000"
  shows "(f * 1000000000 div r * r + 500000000) div 1000000000 = f"
proof -
  have "f * 1000000000 div r * r \<le> f * 1000000000"
    by (rule div_times_less_eq_dividend)
  moreover have "f * 1000000000 < f * 1000000000 div r * r + r"
    using assms(1) dividend_less_div_times [of r "f * 1000000000"] by (simp add: add.commute)
  ultimately have "f * 1000000000 \<le> f * 1000000000 div r * r + 500000000"
      "f * 1000000000 div r * r + 500000000 < f * 1000000000 + 1000000000"
    using assms by linarith+
  then show ?thesis
    by (intro div_nat_eqI) (simp_all add: mult.commute)
qed

lemma frame_at_duration:
  assumes "0 < spec_rate s" "spec_rate s \<le> 500000000" "duration_for s f = Inr d" "frame_at s d = Inr g"
  shows "g = f"
  using frame_at_Inr [OF assms(4)] assms(3) frame_time_rounds_back [OF assms(1,2), of f]
  by (simp add: duration_for_Inr nanos_per_second_def)

lemma frame_at_fits:
  assumes "spec_rate s \<le> 500000000" "t \<le> u64_max"
  shows "\<exists>f. frame_at s t = Inr f"
proof -
  have whole: "t div 1000000000 * spec_rate s \<le> u64_max div 1000000000 * 500000000"
    by (rule mult_le_mono [OF div_le_mono [OF assms(2)] assms(1)])
  have "t mod 1000000000 * spec_rate s \<le> 1000000000 * 500000000"
    by (rule mult_le_mono [OF _ assms(1)]) (simp add: less_imp_le)
  then have rest: "t mod 1000000000 * spec_rate s + 500000000 \<le> 500000001000000000"
    by linarith
  then have "(t mod 1000000000 * spec_rate s + 500000000) div 1000000000 \<le> 500000001000000000 div 1000000000"
    by (rule div_le_mono)
  then show ?thesis
    using whole rest
    by (simp add: frame_at_def ok_or_def checked_mul_def checked_add_def nanos_per_second_def u64_max_def)
qed

lemma frame_on_grid_duration:
  assumes "0 < spec_rate s" "spec_rate s \<le> 500000000" "duration_for s f = Inr d"
  shows "frame_on_grid s d = Some f"
proof -
  obtain g where g: "frame_at s d = Inr g"
    using frame_at_fits [OF assms(2), of d] assms(3) by (auto simp: duration_for_Inr)
  then have "g = f"
    by (rule frame_at_duration [OF assms])
  then show ?thesis
    using g assms(3) by (simp add: frame_on_grid_def abs_diff_def)
qed

lemma frames_for_truncates: "frames_for s d = Inr n \<Longrightarrow> n * nanos_per_second \<le> d * spec_rate s"
  by (auto simp: frames_for_def Let_def nanos_per_second_def split: if_splits)

lemma rescale_frame_ceil_exact:
  assumes "rescale_frame_ceil f a b = Some g" "0 < a"
  shows "f * b \<le> g * a \<and> g * a < f * b + a"
proof -
  have g: "g = (f * b + a - 1) div a"
    using assms(1) by (auto simp: rescale_frame_ceil_def Let_def split: if_splits)
  have "g * a \<le> f * b + a - 1" "f * b + a - 1 < g * a + a"
    using dividend_less_div_times [OF assms(2), of "f * b + a - 1"] div_times_less_eq_dividend [of "f * b + a - 1" a]
    unfolding g by (simp_all add: add.commute)
  then show ?thesis
    using assms(2) by linarith
qed

lemma samples_read_back: "sample_count s f = Inr n \<Longrightarrow> frame_count s n = Inr f"
  by (auto simp: sample_count_def frame_count_def audio_channel_count_def res_bind_Inr split: if_splits)

text \<open>A frame survives the way through time: the duration of a frame count, truncated to nanoseconds,
  is read back as that frame, at every rate up to 500 MHz, and a time span between two frames is the
  duration of their difference, with no drift from the two truncations.\<close>

lemma frames_survive_time:
  assumes "0 < spec_rate s" "spec_rate s \<le> 500000000"
    and "duration_for s f = Inr d" "duration_for s g = Inr e" "f \<le> g"
  shows "frame_at s d = Inr f \<and> duration_for s (g - f) = Inr (elapsed_since s d e)"
proof -
  obtain h where h: "frame_at s d = Inr h"
    using frame_at_fits [OF assms(2), of d] assms(3) by (auto simp: duration_for_Inr)
  then have "frame_at s d = Inr f"
    using frame_at_duration [OF assms(1-3) h] by simp
  moreover have "(g - f) * nanos_per_second div spec_rate s \<le> g * nanos_per_second div spec_rate s"
    by (intro div_le_mono mult_le_mono) simp_all
  then obtain x where x: "duration_for s (g - f) = Inr x"
    using assms(4) by (auto simp: duration_for_Inr)
  moreover have "elapsed_since s d e = x"
    using frame_on_grid_duration [OF assms(1,2)] assms(3,4) x by (simp add: elapsed_since_def)
  ultimately show ?thesis
    by simp
qed

definition cd_audio :: audio_spec where
  "cd_audio = \<lparr>spec_rate = 44100, channels = 2\<rparr>"

end
