(* ===== verification/Ratio.thy ===== *)
theory Ratio
  imports Prelude "HOL-Library.Monad_Syntax"
begin

text \<open>
  Exact source coordinates (\<open>crates/kithara-signal/src/chunk/source_span/ratio.rs\<close> and
  \<open>affine.rs\<close>): nonnegative fractions of two \<open>u128\<close> in lowest terms, their checked
  arithmetic, and the affine maps over them.  A \<open>u128\<close> is a natural number; every operation
  that could leave the width is the checked one of the code, and the ones that are not checked are
  shown not to.  A finite nonnegative \<open>f64\<close> is the mantissa and the exponent that the
  \<open>integer_decode\<close> of the num_traits package gives for it.
\<close>

unbundle bit_operations_syntax

subsection \<open>128-bit integers\<close>

definition u128_max :: nat where
  "u128_max = 340282366920938463463374607431768211455"

abbreviation add128 :: "nat \<Rightarrow> nat \<Rightarrow> nat option" where "add128 \<equiv> checked_add u128_max"
abbreviation mul128 :: "nat \<Rightarrow> nat \<Rightarrow> nat option" where "mul128 \<equiv> checked_mul u128_max"

fun trailing_zeros :: "nat \<Rightarrow> nat" where
  "trailing_zeros n = (if n = 0 then 128 else if odd n then 0 else Suc (trailing_zeros (n div 2)))"

declare trailing_zeros.simps [simp del]

definition is_power_of_two :: "nat \<Rightarrow> bool" where
  "is_power_of_two n \<longleftrightarrow> n \<noteq> 0 \<and> drop_bit (trailing_zeros n) n = 1"

definition nonzero :: "nat \<Rightarrow> nat option" where
  "nonzero n = (if n = 0 then None else Some n)"

subsection \<open>Divisors and quotients\<close>

text \<open>One turn of the loop of \<open>divisor\<close>; it is entered with two positive numbers and stays so.\<close>

function divisor_loop :: "nat \<Rightarrow> nat \<Rightarrow> nat" where
  "divisor_loop odd_part rest =
     (if odd_part = 0 \<or> rest = 0 then odd_part
      else let rest = drop_bit (trailing_zeros rest) rest;
               (odd_part, rest) = (if rest < odd_part then (rest, odd_part) else (odd_part, rest));
               rest = rest - odd_part
           in if rest = 0 then odd_part else divisor_loop odd_part rest)"
  by pat_completeness auto
termination
proof (relation "measure (\<lambda>(odd_part, rest). odd_part + rest)")
  fix a r r' p q s :: nat and pr
  assume "\<not> (a = 0 \<or> r = 0)" "r' = drop_bit (trailing_zeros r) r"
    "pr = (if r' < a then (r', a) else (a, r'))" "(p, q) = pr" "s = q - p" "s \<noteq> 0"
  moreover from this have "r' \<le> r"
    by (simp add: drop_bit_eq_div)
  ultimately show "((p, s), a, r) \<in> measure (\<lambda>(odd_part, rest). odd_part + rest)"
    by (auto split: if_splits)
qed simp

declare divisor_loop.simps [simp del]

definition divisor :: "nat \<Rightarrow> nat \<Rightarrow> nat" where
  "divisor one other =
     (if one = 0 then other
      else if other = 0 then one
      else if is_power_of_two other
      then push_bit (min (trailing_zeros one) (trailing_zeros other)) 1
      else let shift = min (trailing_zeros one) (trailing_zeros other)
           in push_bit shift (divisor_loop (drop_bit (trailing_zeros one) one) other))"

definition quotient :: "nat \<Rightarrow> nat \<Rightarrow> nat" where
  "quotient n d = (if is_power_of_two d then drop_bit (trailing_zeros d) n else n div d)"

lemma trailing_zeros_split:
  assumes "0 < n"
  obtains m where "n = m * 2 ^ trailing_zeros n" "odd m"
proof -
  have "\<exists>m. n = m * 2 ^ trailing_zeros n \<and> odd m"
    using assms
  proof (induction n rule: trailing_zeros.induct)
    case (1 n)
    show ?case
    proof (cases "odd n")
      case False
      then have "0 < n div 2"
        using 1(2) by (auto elim!: evenE)
      then have "\<exists>m. n div 2 = m * 2 ^ trailing_zeros (n div 2) \<and> odd m"
        using 1 False by auto
      then obtain m where m: "n div 2 = m * 2 ^ trailing_zeros (n div 2)" "odd m"
        by blast
      have "n = 2 * (n div 2)"
        using False by simp
      also have "\<dots> = m * (2 * 2 ^ trailing_zeros (n div 2))"
        by (subst m(1)) simp
      also have "2 * 2 ^ trailing_zeros (n div 2) = (2 :: nat) ^ trailing_zeros n"
        using 1(2) False by (subst (2) trailing_zeros.simps) simp
      finally show ?thesis
        using m(2) by blast
    next
      case True
      then have "trailing_zeros n = 0"
        by (subst trailing_zeros.simps) (auto elim!: oddE)
      then show ?thesis
        using True by (intro exI [of _ n]) simp
    qed
  qed
  then show thesis
    using that by blast
qed

lemma drop_trailing: "n = m * 2 ^ trailing_zeros n \<Longrightarrow> drop_bit (trailing_zeros n) n = m"
  by (metis drop_bit_eq_div nonzero_mult_div_cancel_right power_not_zero zero_neq_numeral)

lemma is_power_of_two_iff: "is_power_of_two n \<longleftrightarrow> 0 < n \<and> n = 2 ^ trailing_zeros n"
proof (cases "0 < n")
  case True
  obtain m where "n = m * 2 ^ trailing_zeros n" "odd m"
    by (rule trailing_zeros_split [OF True])
  note m = this
  have "is_power_of_two n \<longleftrightarrow> m = 1"
    using True drop_trailing [OF m(1)] by (simp add: is_power_of_two_def)
  moreover have "m * 2 ^ t = 2 ^ t \<longleftrightarrow> m = 1" for t
    by simp
  ultimately show ?thesis
    using True m(1) by metis
qed (simp add: is_power_of_two_def)

lemma quotient_div [simp]: "quotient n d = n div d"
proof (cases "is_power_of_two d")
  case True
  then have "d = 2 ^ trailing_zeros d"
    by (simp add: is_power_of_two_iff)
  then show ?thesis
    using True by (metis quotient_def drop_bit_eq_div)
qed (simp add: quotient_def)

lemma gcd_strip_two: "odd a \<Longrightarrow> gcd a (m * 2 ^ k) = gcd a (m :: nat)"
  by (simp add: gcd_mult_right_right_cancel)

lemma divisor_loop_gcd: "odd a \<Longrightarrow> 0 < r \<Longrightarrow> divisor_loop a r = gcd a r"
proof (induction a r rule: divisor_loop.induct)
  case (1 a r)
  obtain m where m: "r = m * 2 ^ trailing_zeros r" "odd m"
    by (rule trailing_zeros_split [OF 1(3)])
  define p q where "p = (if m < a then m else a)" and "q = (if m < a then a else m)"
  have le: "p \<le> q" "odd p"
    using 1(2) m(2) by (auto simp: p_def q_def)
  have "gcd a r = gcd a m"
    using m gcd_strip_two [OF 1(2)] by metis
  also have "\<dots> = gcd p q"
    by (simp add: p_def q_def gcd.commute)
  also have "\<dots> = gcd p (q - p)"
    using le(1) gcd_diff1_nat [of p q] by (simp add: gcd.commute)
  finally have g: "gcd a r = gcd p (q - p)" .
  have pos: "a \<noteq> 0" "r \<noteq> 0"
    using 1(2,3) by (auto elim!: oddE)
  have loop: "divisor_loop a r = (if q - p = 0 then p else divisor_loop p (q - p))"
    by (subst divisor_loop.simps) (use pos in \<open>simp add: drop_trailing [OF m(1)] p_def q_def Let_def\<close>)
  show ?case
  proof (cases "q - p = 0")
    case False
    have "divisor_loop p (q - p) = gcd p (q - p)"
      using False le(2) pos by (intro 1(1) [OF _ refl _ refl refl]) (auto simp: drop_trailing [OF m(1)] p_def q_def)
    then show ?thesis
      using False loop g by simp
  qed (simp add: loop g)
qed

lemma odd_pos': "odd (n :: nat) \<Longrightarrow> 0 < n"
  by (auto elim: oddE)

lemma gcd_split_two:
  fixes m n :: nat
  assumes "odd m" "odd n"
  shows "gcd (m * 2 ^ i) (n * 2 ^ j) = gcd m n * 2 ^ min i j"
proof -
  have *: "gcd (m * 2 ^ i) (n * 2 ^ j) = gcd m n * 2 ^ min i j" if "odd m" "odd n" "i \<le> j" for m n i j :: nat
  proof -
    have "gcd (m * 2 ^ i) (n * 2 ^ j) = gcd (m * 2 ^ i) ((n * 2 ^ (j - i)) * 2 ^ i)"
      using that(3) by (simp add: mult.assoc flip: power_add)
    also have "\<dots> = gcd m (n * 2 ^ (j - i)) * 2 ^ i"
      by (simp add: gcd_mult_distrib_nat mult.commute)
    finally show ?thesis
      using that gcd_strip_two [OF that(1), of n "j - i"] by (simp add: min_def)
  qed
  show ?thesis
    using *[OF assms] *[OF assms(2,1), of j i] by (cases "i \<le> j") (auto simp: gcd.commute min_def)
qed

lemma divisor_gcd [simp]: "divisor a b = gcd a b"
proof (cases "a = 0 \<or> b = 0")
  case False
  obtain m where m: "a = m * 2 ^ trailing_zeros a" "odd m"
    using False trailing_zeros_split [of a] by blast
  obtain n where n: "b = n * 2 ^ trailing_zeros b" "odd n"
    using False trailing_zeros_split [of b] by blast
  let ?s = "min (trailing_zeros a) (trailing_zeros b)"
  have g: "gcd a b = gcd m n * 2 ^ ?s"
    using gcd_split_two [OF m(2) n(2)] m(1) n(1) by metis
  have "gcd m b = gcd m n"
    using n(1) gcd_strip_two [OF m(2)] by metis
  moreover have "n = 1" if "is_power_of_two b"
    using that n(1) False by (metis drop_trailing is_power_of_two_def)
  ultimately show ?thesis
    using False divisor_loop_gcd [OF m(2), of b] g
    by (auto simp: divisor_def drop_trailing [OF m(1)] push_bit_eq_mult Let_def)
qed (auto simp: divisor_def)

lemma nonzero_Some [simp]: "nonzero n = Some m \<longleftrightarrow> n \<noteq> 0 \<and> m = n"
  by (auto simp: nonzero_def)

lemma nonzero_None [simp]: "nonzero n = None \<longleftrightarrow> n = 0"
  by (simp add: nonzero_def)

lemma nonzero_pos [simp]: "0 < n \<Longrightarrow> nonzero n = Some n"
  by simp

subsection \<open>Fractions\<close>

record ratio =
  numerator :: nat
  denominator :: nat

definition ratio_new :: "nat \<Rightarrow> nat \<Rightarrow> ratio option" where
  "ratio_new n d = do {
     common \<leftarrow> nonzero (divisor n d);
     d' \<leftarrow> nonzero (quotient d common);
     Some \<lparr>numerator = quotient n common, denominator = d'\<rparr>
   }"

definition at_denominator :: "ratio \<Rightarrow> nat \<Rightarrow> nat option" where
  "at_denominator r d = mul128 (numerator r) (quotient d (denominator r))"

definition common_denominator :: "nat \<Rightarrow> nat \<Rightarrow> nat option" where
  "common_denominator one other = do {
     common \<leftarrow> nonzero (divisor one other);
     d \<leftarrow> mul128 (quotient one common) other;
     nonzero d
   }"

definition combine :: "(nat \<Rightarrow> nat \<Rightarrow> nat option) \<Rightarrow> ratio \<Rightarrow> ratio \<Rightarrow> ratio option" where
  "combine f x y = do {
     shared \<leftarrow> nonzero (divisor (denominator x) (denominator y));
     a \<leftarrow> mul128 (numerator x) (quotient (denominator y) shared);
     b \<leftarrow> mul128 (numerator y) (quotient (denominator x) shared);
     combined \<leftarrow> f a b;
     if combined = 0 then ratio_new 0 1
     else do {
       reduction \<leftarrow> nonzero (divisor combined shared);
       d \<leftarrow> mul128 (quotient (denominator x) shared) (quotient (denominator y) reduction);
       d' \<leftarrow> nonzero d;
       Some \<lparr>numerator = quotient combined reduction, denominator = d'\<rparr>
     }
   }"

definition ratio_add :: "ratio \<Rightarrow> ratio \<Rightarrow> ratio option" where
  "ratio_add x y =
     (if numerator y = 0 then Some x else if numerator x = 0 then Some y else combine add128 x y)"

definition ratio_sub :: "ratio \<Rightarrow> ratio \<Rightarrow> ratio option" where
  "ratio_sub x y = (if numerator y = 0 then Some x else combine checked_sub x y)"

definition ratio_mul :: "ratio \<Rightarrow> ratio \<Rightarrow> ratio option" where
  "ratio_mul x y =
     (if numerator x = denominator x then Some y
      else if numerator y = denominator y then Some x
      else do {
        one \<leftarrow> nonzero (divisor (numerator x) (denominator y));
        other \<leftarrow> nonzero (divisor (numerator y) (denominator x));
        n \<leftarrow> mul128 (quotient (numerator x) one) (quotient (numerator y) other);
        d \<leftarrow> mul128 (quotient (denominator x) other) (quotient (denominator y) one);
        d' \<leftarrow> nonzero d;
        Some \<lparr>numerator = n, denominator = d'\<rparr>
      })"

text \<open>Thirty-two binary digits of a remainder over the denominator, with the remainder they leave.\<close>

fun q32_digits :: "nat \<Rightarrow> nat \<Rightarrow> nat \<Rightarrow> nat \<Rightarrow> nat \<times> nat" where
  "q32_digits 0 d remainder fractional = (remainder, fractional)"
| "q32_digits (Suc k) d remainder fractional =
     (if d - remainder \<le> remainder then q32_digits k d (remainder - (d - remainder)) (fractional * 2 + 1)
      else q32_digits k d (remainder * 2) (fractional * 2))"

definition nearest_q32 :: "ratio \<Rightarrow> ratio option" where
  "nearest_q32 r =
     (let d = denominator r; n = numerator r; units = push_bit 32 1
      in do {
        q \<leftarrow> (if is_power_of_two d
              then let bits = trailing_zeros d
                   in if bits \<le> 32 then mul128 n (push_bit (32 - bits) 1)
                      else let bits = bits - 32;
                               rounded = push_bit (bits - 1) 1 \<le> n AND (push_bit bits 1 - 1)
                           in add128 (drop_bit bits n) (if rounded then 1 else 0)
              else do {
                whole \<leftarrow> mul128 (n div d) units;
                let (remainder, fractional) = q32_digits 32 d (n mod d) 0;
                total' \<leftarrow> add128 whole fractional;
                add128 total' (if d - remainder \<le> remainder then 1 else 0)
              });
        u \<leftarrow> nonzero units;
        ratio_new q u
      })"

definition source_frame :: "ratio \<Rightarrow> nat option" where
  "source_frame r =
     (let q = quotient (numerator r) (denominator r) in if q \<le> u64_max then Some q else None)"

text \<open>\<open>TryFrom<f64>\<close>, after the tests that refuse what is not finite or negative; the value is
  zero exactly when its mantissa is.\<close>

definition ratio_try_from :: "nat \<Rightarrow> int \<Rightarrow> ratio option" where
  "ratio_try_from mantissa exponent =
     (if mantissa = 0 then ratio_new 0 1
      else let reduction = (if exponent < 0 then min (trailing_zeros mantissa) (nat \<bar>exponent\<bar>) else 0);
               n = drop_bit reduction mantissa;
               exponent = exponent + int reduction
           in do {
             power \<leftarrow> (if nat \<bar>exponent\<bar> < 128 then Some (push_bit (nat \<bar>exponent\<bar>) 1) else None);
             if 0 \<le> exponent then map_option (\<lambda>n. \<lparr>numerator = n, denominator = 1\<rparr>) (mul128 n power)
             else do {
               d \<leftarrow> nonzero power;
               Some \<lparr>numerator = n, denominator = d\<rparr>
             }
           })"

subsection \<open>Fractions are exact and canonical\<close>

definition rat_of :: "ratio \<Rightarrow> rat" where
  "rat_of r = of_nat (numerator r) / of_nat (denominator r)"

definition ratio_ok :: "ratio \<Rightarrow> bool" where
  "ratio_ok r \<longleftrightarrow> 0 < denominator r \<and> coprime (numerator r) (denominator r)
     \<and> numerator r \<le> u128_max \<and> denominator r \<le> u128_max"

lemma ratio_eqI:
  assumes "ratio_ok x" "ratio_ok y" "rat_of x = rat_of y"
  shows "x = y"
proof -
  let ?a = "numerator x" and ?b = "denominator x" and ?c = "numerator y" and ?d = "denominator y"
  have "(of_nat (?a * ?d) :: rat) = of_nat (?c * ?b)"
    using assms by (simp add: rat_of_def ratio_ok_def field_simps)
  then have e: "?a * ?d = ?c * ?b"
    by (simp only: of_nat_eq_iff)
  then have "?b dvd ?a * ?d" "?d dvd ?c * ?b"
    by (metis dvd_triv_right)+
  then have "?b dvd ?d" "?d dvd ?b"
    using assms(1,2) by (simp_all add: ratio_ok_def coprime_commute coprime_dvd_mult_left_iff coprime_dvd_mult_right_iff)
  then have d: "?b = ?d"
    by (simp add: dvd_antisym)
  moreover have "?a = ?c"
    using e d assms(2) by (simp add: ratio_ok_def)
  ultimately show ?thesis
    by simp
qed

lemma cancel_factor: "0 < g \<Longrightarrow> n = g * a \<Longrightarrow> d = g * b \<Longrightarrow> (of_nat n :: rat) / of_nat d = of_nat a / of_nat b"
  by simp

lemma ratio_new_Some:
  assumes "ratio_new n d = Some r" "0 < d"
  shows "rat_of r = of_nat n / of_nat d" "coprime (numerator r) (denominator r)" "0 < denominator r"
    "numerator r \<le> n" "denominator r \<le> d"
proof -
  have r: "numerator r = n div gcd n d" "denominator r = d div gcd n d"
    using assms by (auto simp: ratio_new_def split: bind_splits)
  obtain a where a: "n = gcd n d * a"
    by (metis dvdE gcd_dvd1)
  obtain b where b: "d = gcd n d * b"
    by (metis dvdE gcd_dvd2)
  have "0 < gcd n d"
    using assms(2) by simp
  then have "n div gcd n d = a" "d div gcd n d = b"
    using a b by (metis nonzero_mult_div_cancel_left less_not_refl)+
  moreover have "(of_nat n :: rat) / of_nat d = of_nat a / of_nat b"
    by (rule cancel_factor [OF \<open>0 < gcd n d\<close> a b])
  ultimately show "rat_of r = of_nat n / of_nat d"
    using r by (simp add: rat_of_def)
  show "coprime (numerator r) (denominator r)"
    using assms(2) r by (simp add: div_gcd_coprime)
  show "0 < denominator r"
    using assms(2) r by (simp add: dvd_imp_le div_greater_zero_iff)
  show "numerator r \<le> n" "denominator r \<le> d"
    using r by simp_all
qed

lemma ratio_new_defined: "0 < d \<Longrightarrow> \<exists>r. ratio_new n d = Some r"
proof -
  assume "0 < d"
  then have "0 < d div gcd n d"
    by (simp add: dvd_imp_le div_greater_zero_iff)
  with \<open>0 < d\<close> show ?thesis
    by (simp add: ratio_new_def)
qed

lemma ratio_new_exact:
  assumes "ratio_new n d = Some r" "0 < d" "n \<le> u128_max" "d \<le> u128_max"
  shows "ratio_ok r" "rat_of r = of_nat n / of_nat d"
  using ratio_new_Some [OF assms(1,2)] assms(3,4) by (simp_all add: ratio_ok_def)

lemma ratio_new_zero [simp]: "ratio_new 0 (Suc 0) = Some \<lparr>numerator = 0, denominator = 1\<rparr>"
  by (simp add: ratio_new_def)

lemma at_denominator_Some:
  assumes "at_denominator r d = Some n" "ratio_ok r" "denominator r dvd d"
  shows "(of_nat n :: rat) = rat_of r * of_nat d" "n \<le> u128_max"
proof -
  have n: "n = numerator r * (d div denominator r)" "n \<le> u128_max"
    using assms(1) by (auto simp: at_denominator_def)
  then show "n \<le> u128_max"
    by simp
  obtain k where k: "d = denominator r * k"
    using assms(3) by blast
  then show "(of_nat n :: rat) = rat_of r * of_nat d"
    using assms(2) n(1) by (simp add: rat_of_def ratio_ok_def)
qed

lemma common_denominator_Some:
  assumes "common_denominator a b = Some d" "0 < a" "0 < b"
  shows "d = lcm a b" "0 < d" "d \<le> u128_max"
  using assms by (auto simp: common_denominator_def lcm_nat_def div_mult_swap dvd_div_mult split: bind_splits)

subsection \<open>Sums, differences and products\<close>

text \<open>
  The contract of the operation \<open>combine\<close> applies to the numerators: it is exact, commutes with a
  common factor and introduces no factor that only one side has.
\<close>

locale numerator_operation =
  fixes f :: "nat \<Rightarrow> nat \<Rightarrow> nat option" and sem :: "rat \<Rightarrow> rat \<Rightarrow> rat"
  assumes exact: "f a b = Some c \<Longrightarrow> of_nat c = sem (of_nat a) (of_nat b)"
    and scales: "sem (u * k) (v * k) = sem u v * k"
    and fits: "f a b = Some c \<Longrightarrow> a \<le> u128_max \<Longrightarrow> b \<le> u128_max \<Longrightarrow> c \<le> u128_max"
    and coprime_left: "f a b = Some c \<Longrightarrow> coprime a n \<Longrightarrow> n dvd b \<Longrightarrow> coprime c n"
    and coprime_right: "f a b = Some c \<Longrightarrow> coprime b n \<Longrightarrow> n dvd a \<Longrightarrow> coprime c n"
begin

lemma combine_exact:
  assumes "combine f x y = Some r" "ratio_ok x" "ratio_ok y"
  shows "ratio_ok r" "rat_of r = sem (rat_of x) (rat_of y)"
proof -
  define g where "g = gcd (denominator x) (denominator y)"
  have g: "0 < g"
    using assms(2) by (simp add: g_def ratio_ok_def)
  obtain b d where b: "denominator x = g * b" and d: "denominator y = g * d" and bd: "coprime b d"
    using g by (metis g_def gcd_coprime_exists less_numeral_extra(3) mult.commute)
  have pos: "0 < b" "0 < d"
    using b d assms(2,3) by (auto simp: ratio_ok_def)
  obtain m where m: "f (numerator x * d) (numerator y * b) = Some m"
      "numerator x * d \<le> u128_max" "numerator y * b \<le> u128_max"
    and r: "(if m = 0 then ratio_new 0 1 else do {
       reduction \<leftarrow> nonzero (gcd m g);
       n \<leftarrow> mul128 b ((g * d) div reduction);
       n' \<leftarrow> nonzero n;
       Some \<lparr>numerator = m div reduction, denominator = n'\<rparr>}) = Some r"
    using assms(1) g by (auto simp: combine_def b d bind_eq_Some_conv gcd_mult_distrib_nat [symmetric] coprime_imp_gcd_eq_1 [OF bd] cong: if_cong)
  have val: "sem (rat_of x) (rat_of y) = of_nat m / of_nat (g * b * d)"
  proof -
    have "rat_of x = of_nat (numerator x * d) * (1 / of_nat (g * b * d))"
      "rat_of y = of_nat (numerator y * b) * (1 / of_nat (g * b * d))"
      using pos by (simp_all add: rat_of_def b d)
    then have "sem (rat_of x) (rat_of y)
        = sem (of_nat (numerator x * d)) (of_nat (numerator y * b)) * (1 / of_nat (g * b * d))"
      by (simp only: scales)
    then show ?thesis
      by (simp only: exact [OF m(1), symmetric]) simp
  qed
  have "ratio_ok r \<and> rat_of r = sem (rat_of x) (rat_of y)"
  proof (cases "m = 0")
    case False
    obtain k l where k: "m = gcd m g * k" and l: "g = gcd m g * l" and kl: "coprime k l"
      using False by (metis gcd_coprime_exists gcd_eq_0_iff mult.commute)
    define h where "h = gcd m g"
    have h: "0 < h" "m = h * k" "g = h * l"
      using False k l by (simp_all add: h_def)
    have mdiv: "m div h = k" "g * d div h = l * d"
      using h by (simp_all add: mult.assoc)
    have rr: "r = \<lparr>numerator = k, denominator = b * (l * d)\<rparr>" "b * (l * d) \<le> u128_max"
      using r False h(1) by (auto simp: bind_eq_Some_conv mdiv simp flip: h_def)
    have "coprime m b" "coprime m d"
      using assms(2,3) bd b d coprime_left [OF m(1), of b] coprime_right [OF m(1), of d]
      by (auto simp: ratio_ok_def coprime_commute)
    then have "coprime k (b * (l * d))"
      using kl h(2) by simp
    moreover have "k \<le> u128_max"
    proof -
      have "k \<le> m"
        using h(1,2) by simp
      then show ?thesis
        using fits [OF m] by simp
    qed
    moreover have "0 < l"
      using g h(3) by simp
    moreover have "(of_nat m :: rat) / of_nat (g * b * d) = of_nat k / of_nat (b * (l * d))"
      using h(1) by (intro cancel_factor [of h]) (simp_all add: h)
    ultimately show ?thesis
      using rr pos val by (simp add: ratio_ok_def rat_of_def)
  next
    case True
    then have "r = \<lparr>numerator = 0, denominator = 1\<rparr>"
      using r by simp
    then show ?thesis
      using True val by (simp add: ratio_ok_def rat_of_def u128_max_def)
  qed
  then show "ratio_ok r" "rat_of r = sem (rat_of x) (rat_of y)"
    by simp_all
qed

end

lemma coprime_add_dvd: "coprime a n \<Longrightarrow> n dvd b \<Longrightarrow> coprime (a + b) (n :: nat)"
  by (metis coprimeI coprime_common_divisor dvd_add_left_iff dvd_trans)

lemma coprime_diff_dvd:
  fixes a b n :: nat
  assumes "b \<le> a" "coprime a n \<and> n dvd b \<or> coprime b n \<and> n dvd a"
  shows "coprime (a - b) n"
proof (rule coprimeI)
  fix k
  assume k: "k dvd a - b" "k dvd n"
  from assms(2) show "is_unit k"
  proof (elim disjE conjE)
    assume "coprime a n" "n dvd b"
    moreover from this k have "k dvd a"
      by (metis assms(1) dvd_diffD dvd_trans)
    ultimately show ?thesis
      using k(2) coprime_common_divisor by metis
  next
    assume "coprime b n" "n dvd a"
    moreover from this k have "k dvd b"
      by (metis assms(1) dvd_diffD1 dvd_trans)
    ultimately show ?thesis
      using k(2) coprime_common_divisor by metis
  qed
qed

interpretation adding: numerator_operation add128 "(+)"
proof
  fix a b c n :: nat
  show "add128 a b = Some c \<Longrightarrow> coprime b n \<Longrightarrow> n dvd a \<Longrightarrow> coprime c n"
    using coprime_add_dvd [of b n a] by (simp add: add.commute)
qed (auto simp: distrib_right coprime_add_dvd)

interpretation subtracting: numerator_operation checked_sub "(-)"
  by unfold_locales (simp_all add: left_diff_distrib of_nat_diff coprime_diff_dvd)

lemma ratio_add_exact:
  assumes "ratio_add x y = Some r" "ratio_ok x" "ratio_ok y"
  shows "ratio_ok r \<and> rat_of r = rat_of x + rat_of y"
  using assms adding.combine_exact [of x y r] by (auto simp: ratio_add_def rat_of_def split: if_splits)

lemma ratio_sub_exact:
  assumes "ratio_sub x y = Some r" "ratio_ok x" "ratio_ok y"
  shows "ratio_ok r \<and> rat_of r = rat_of x - rat_of y"
  using assms subtracting.combine_exact [of x y r] by (auto simp: ratio_sub_def rat_of_def split: if_splits)

lemma ratio_one: "ratio_ok x \<Longrightarrow> numerator x = denominator x \<Longrightarrow> rat_of x = 1"
  by (simp add: ratio_ok_def rat_of_def)

text \<open>The product is refused exactly when the reduced one does not fit.\<close>

definition cross :: "ratio \<Rightarrow> ratio \<Rightarrow> nat \<times> nat" where
  "cross x y =
     ((numerator x div gcd (numerator x) (denominator y)) * (numerator y div gcd (numerator y) (denominator x)),
      (denominator x div gcd (numerator y) (denominator x)) * (denominator y div gcd (numerator x) (denominator y)))"

lemma cross_reduced:
  assumes "ratio_ok x" "ratio_ok y" "cross x y = (n, d)"
  shows "coprime n d" "0 < d" "of_nat n / of_nat d = rat_of x * rat_of y"
proof -
  define g where "g = gcd (numerator x) (denominator y)"
  define h where "h = gcd (numerator y) (denominator x)"
  have g: "0 < g" "0 < h"
    using assms(1,2) by (simp_all add: g_def h_def ratio_ok_def)
  obtain a e where a: "numerator x = g * a" "denominator y = g * e" "coprime a e"
    using g by (metis g_def gcd_coprime_exists less_numeral_extra(3) mult.commute)
  obtain c b where c: "numerator y = h * c" "denominator x = h * b" "coprime c b"
    using g by (metis h_def gcd_coprime_exists less_numeral_extra(3) mult.commute)
  have "numerator x div g = a" "numerator y div h = c" "denominator x div h = b" "denominator y div g = e"
    using g a c by simp_all
  then have nd: "n = a * c" "d = b * e"
    using assms(3) by (simp_all add: cross_def flip: g_def h_def)
  have "coprime a b" "coprime c e"
    using assms(1,2) a c by (simp_all add: ratio_ok_def)
  then show "coprime n d"
    using a c nd by simp
  show "0 < d"
    using assms(1,2) a c nd by (simp add: ratio_ok_def)
  show "of_nat n / of_nat d = rat_of x * rat_of y"
    using g by (simp add: rat_of_def a c nd)
qed

lemma ratio_mul_exact:
  assumes "ratio_mul x y = Some r" "ratio_ok x" "ratio_ok y"
  shows "ratio_ok r \<and> rat_of r = rat_of x * rat_of y"
proof (cases "numerator x = denominator x \<or> numerator y = denominator y")
  case True
  then show ?thesis
    using assms ratio_one by (auto simp: ratio_mul_def split: if_splits)
next
  case False
  obtain n d where c: "cross x y = (n, d)"
    by fastforce
  have "0 < gcd (numerator x) (denominator y)" "0 < gcd (numerator y) (denominator x)"
    using assms(2,3) by (simp_all add: ratio_ok_def)
  then have "r = \<lparr>numerator = n, denominator = d\<rparr>" "n \<le> u128_max" "d \<le> u128_max"
    using assms(1) False c by (auto simp: ratio_mul_def cross_def bind_eq_Some_conv)
  then show ?thesis
    using cross_reduced [OF assms(2,3) c] by (simp add: ratio_ok_def rat_of_def)
qed

lemma ratio_mul_complete:
  assumes "ratio_ok x" "ratio_ok y" "ratio_ok r" "rat_of r = rat_of x * rat_of y"
  shows "ratio_mul x y = Some r"
proof (cases "numerator x = denominator x \<or> numerator y = denominator y")
  case True
  then have "rat_of x = 1 \<or> rat_of y = 1"
    using assms(1,2) ratio_one by blast
  then have "r = (if numerator x = denominator x then y else x)"
    using True assms ratio_one by (auto intro!: ratio_eqI)
  then show ?thesis
    using True by (auto simp: ratio_mul_def)
next
  case False
  obtain n d where c: "cross x y = (n, d)"
    by fastforce
  note red = cross_reduced [OF assms(1,2) c]
  have "(of_nat (numerator r * d) :: rat) = of_nat (n * denominator r)"
    using red assms(3,4) by (simp add: rat_of_def ratio_ok_def field_simps)
  then have e: "numerator r * d = n * denominator r"
    by (simp only: of_nat_eq_iff)
  have "d dvd denominator r" "denominator r dvd d"
    using e red(1) assms(3)
    by (metis coprime_commute coprime_dvd_mult_right_iff dvd_triv_right, metis assms(3) coprime_commute coprime_dvd_mult_right_iff dvd_triv_right ratio_ok_def)
  then have d: "d = denominator r"
    by (simp add: dvd_antisym)
  then have "n = numerator r"
    using e red(2) by simp
  moreover have "0 < gcd (numerator x) (denominator y)" "0 < gcd (numerator y) (denominator x)"
    using assms(1,2) by (simp_all add: ratio_ok_def)
  ultimately show ?thesis
    using False c d assms(3) by (cases r) (simp add: ratio_mul_def cross_def ratio_ok_def bind_eq_Some_conv)
qed

subsection \<open>The nearest multiple of 2 ^ -32\<close>

definition q32_units :: "ratio \<Rightarrow> nat" where
  "q32_units r = (2 * (numerator r * 2 ^ 32) + denominator r) div (2 * denominator r)"

lemma round_half_up:
  fixes n d :: nat
  assumes "0 < d"
  shows "(2 * n + d) div (2 * d) = n div d + (if d - n mod d \<le> n mod d then 1 else 0)"
proof -
  have "2 * n + d = 2 * d * (n div d) + (2 * (n mod d) + d)"
    using div_mult_mod_eq [of n d] by (metis add.assoc mult.assoc mult.commute distrib_left)
  then have "(2 * n + d) div (2 * d) = n div d + (2 * (n mod d) + d) div (2 * d)"
    using assms by (metis div_mult_self4 mult_is_0 not_gr_zero zero_neq_numeral)
  moreover have "n mod d < d"
    using assms by simp
  then have "(2 * (n mod d) + d) div (2 * d) = (if d - n mod d \<le> n mod d then 1 else 0)"
    by (auto intro!: div_nat_eqI)
  ultimately show ?thesis
    by simp
qed

lemma q32_digits_spec:
  "q32_digits k d r f = (r', f') \<Longrightarrow> r < d \<Longrightarrow> r' < d \<and> f' * d + r' = 2 ^ k * (f * d + r)"
proof (induction k arbitrary: r f)
  case (Suc k)
  show ?case
  proof (cases "d - r \<le> r")
    case True
    then have "r' < d \<and> f' * d + r' = 2 ^ k * ((f * 2 + 1) * d + (r - (d - r)))"
      using Suc.prems by (intro Suc.IH) simp_all
    moreover have "(f * 2 + 1) * d + (r - (d - r)) = 2 * (f * d + r)"
      using True Suc.prems(2) by (simp add: algebra_simps)
    ultimately show ?thesis
      by simp
  next
    case False
    then have "r' < d \<and> f' * d + r' = 2 ^ k * (f * 2 * d + r * 2)"
      using Suc.prems by (intro Suc.IH) simp_all
    then show ?thesis
      by (simp add: algebra_simps)
  qed
qed simp

lemma q32_general:
  assumes "q32_digits 32 d (n mod d) 0 = (r, f)" "0 < d"
  shows "n * 2 ^ 32 div d = n div d * 2 ^ 32 + f" "n * 2 ^ 32 mod d = r"
proof -
  have s: "r < d" "f * d + r = 2 ^ 32 * (n mod d)"
    using q32_digits_spec [OF assms(1)] assms(2) by simp_all
  have split: "n * k = (n div d * k + f) * d + r" if "f * d + r = k * (n mod d)" for k
  proof -
    have "n * k = (n div d * d + n mod d) * k"
      by simp
    also have "\<dots> = n div d * k * d + k * (n mod d)"
      by (simp only: distrib_right distrib_left ac_simps)
    also have "\<dots> = (n div d * k + f) * d + r"
      by (simp only: that [symmetric] distrib_right add.assoc)
    finally show ?thesis .
  qed
  note e = split [OF s(2)]
  then show "n * 2 ^ 32 div d = n div d * 2 ^ 32 + f" "n * 2 ^ 32 mod d = r"
    using s(1) assms(2) by (simp_all only: div_mult_self3 mod_mult_self3 div_less mod_less add_0_right)
qed

lemma q32_dyadic:
  fixes n d :: nat
  assumes "d = 2 ^ b"
  shows "b \<le> 32 \<Longrightarrow> (2 * (n * 2 ^ 32) + d) div (2 * d) = n * 2 ^ (32 - b)"
    and "32 < b \<Longrightarrow> (2 * (n * 2 ^ 32) + d) div (2 * d)
      = drop_bit (b - 32) n + (if 2 ^ (b - 32 - 1) \<le> n AND (2 ^ (b - 32) - 1) then 1 else 0)"
proof -
  assume "b \<le> 32"
  then have "(2 :: nat) ^ 32 = 2 ^ b * 2 ^ (32 - b)"
    by (simp flip: power_add)
  then have "2 * (n * 2 ^ 32) + d = 2 ^ b * (2 * (n * 2 ^ (32 - b)) + 1)"
    by (simp only: assms) (simp add: algebra_simps)
  then have "(2 * (n * 2 ^ 32) + d) div (2 * d) = (2 * (n * 2 ^ (32 - b)) + 1) div 2"
    by (simp only: assms mult.commute [of 2 "2 ^ b"]) (simp only: div_mult_mult1_if, simp)
  then show "(2 * (n * 2 ^ 32) + d) div (2 * d) = n * 2 ^ (32 - b)"
    by simp
next
  assume b: "32 < b"
  define c where "c = b - 32"
  have c: "0 < c" "b = 32 + c"
    using b by (simp_all add: c_def)
  have "2 * (n * 2 ^ 32) + d = 2 ^ 32 * (2 * n + 2 ^ c)" "2 * d = 2 ^ 32 * (2 * 2 ^ c)"
    by (simp_all only: assms c(2) power_add) (simp_all add: algebra_simps)
  then have "(2 * (n * 2 ^ 32) + d) div (2 * d) = (2 * n + 2 ^ c) div (2 * 2 ^ c)"
    by (simp only: div_mult_mult1_if) simp
  also have "\<dots> = n div 2 ^ c + (if 2 ^ c - n mod 2 ^ c \<le> n mod 2 ^ c then 1 else 0)"
    by (rule round_half_up) simp
  also have "2 ^ c - n mod 2 ^ c \<le> n mod 2 ^ c \<longleftrightarrow> (2 :: nat) ^ (c - 1) \<le> n mod 2 ^ c"
    using c(1) by (cases c) auto
  also have "n mod 2 ^ c = n AND (2 ^ c - 1)"
    by (simp add: take_bit_eq_mod [symmetric] take_bit_eq_mask mask_eq_exp_minus_1)
  finally show "(2 * (n * 2 ^ 32) + d) div (2 * d)
      = drop_bit (b - 32) n + (if 2 ^ (b - 32 - 1) \<le> n AND (2 ^ (b - 32) - 1) then 1 else 0)"
    by (simp only: drop_bit_eq_div c_def [symmetric])
qed

lemma push_bit_one: "push_bit k 1 = (2 :: nat) ^ k"
  by (simp add: push_bit_eq_mult)

lemma nearest_q32_exact:
  assumes "nearest_q32 r = Some q" "ratio_ok r"
  shows "ratio_ok q \<and> rat_of q = of_nat (q32_units r) / 2 ^ 32"
proof -
  define d where "d = denominator r"
  define n where "n = numerator r"
  have d: "0 < d"
    using assms(2) by (simp add: d_def ratio_ok_def)
  obtain m where m: "m \<le> u128_max" "ratio_new m (2 ^ 32) = Some q" "m = q32_units r"
  proof (cases "is_power_of_two d")
    case True
    define b where "b = trailing_zeros d"
    have db: "d = 2 ^ b"
      using True by (simp add: b_def is_power_of_two_iff)
    show thesis
      using assms(1) q32_dyadic [OF db, of n] that True
      by (auto simp: nearest_q32_def Let_def push_bit_one q32_units_def simp flip: d_def n_def b_def
          split: bind_splits if_splits)
  next
    case False
    obtain s f where sf: "q32_digits 32 d (n mod d) 0 = (s, f)"
      by fastforce
    show thesis
      using assms(1) q32_general [OF sf d] that False round_half_up [OF d, of "n * 2 ^ 32"]
      by (auto simp: nearest_q32_def Let_def push_bit_one q32_units_def sf simp flip: d_def n_def
          split: bind_splits if_splits)
  qed
  then show ?thesis
    using ratio_new_exact [OF m(2)] by (simp add: u128_max_def)
qed

lemma source_frame_Some: "source_frame r = Some f \<longleftrightarrow> f = numerator r div denominator r \<and> f \<le> u64_max"
  by (auto simp: source_frame_def Let_def)

lemma powi_neg:
  assumes "e < 0"
  shows "(2 :: rat) powi e = 1 / 2 ^ nat \<bar>e\<bar>"
proof -
  obtain k where e: "e = - int k"
    using assms by (intro that [of "nat (- e)"]) simp
  have "(2 :: rat) powi (- int k) = inverse (2 ^ k)"
    by (simp only: power_int_minus power_int_of_nat)
  then show ?thesis
    by (simp add: e divide_inverse)
qed

text \<open>A decoded float is taken over without rounding.\<close>

lemma ratio_try_from_exact:
  assumes "ratio_try_from m e = Some r" "m \<le> u64_max"
  shows "ratio_ok r \<and> rat_of r = of_nat m * 2 powi e"
proof (cases "m = 0")
  case True
  then show ?thesis
    using assms(1) by (auto simp: ratio_try_from_def ratio_ok_def rat_of_def u128_max_def)
next
  case False
  define k where "k = (if e < 0 then min (trailing_zeros m) (nat \<bar>e\<bar>) else 0)"
  define e' where "e' = e + int k"
  obtain l where l: "m = l * 2 ^ trailing_zeros m" "odd l"
    using False trailing_zeros_split [of m] by blast
  have k: "k \<le> trailing_zeros m" "0 \<le> e' \<or> k = trailing_zeros m"
    by (auto simp: k_def e'_def)
  define n where "n = drop_bit k m"
  have "m = l * 2 ^ (trailing_zeros m - k) * 2 ^ k"
    using l(1) k(1) by (metis le_add_diff_inverse2 mult.assoc power_add)
  note split = this
  have "n = l * 2 ^ (trailing_zeros m - k)"
    unfolding n_def drop_bit_eq_div by (subst (1) split) simp
  then have n: "m = n * 2 ^ k" "n = l * 2 ^ (trailing_zeros m - k)"
    using split by simp_all
  have le: "n \<le> u128_max"
  proof -
    have "n \<le> m"
      by (simp add: n_def drop_bit_eq_div)
    then show ?thesis
      using assms(2) by (simp add: u128_max_def u64_max_def)
  qed
  have small: "nat \<bar>e'\<bar> < 128"
    and r: "0 \<le> e' \<Longrightarrow> n * 2 ^ nat \<bar>e'\<bar> \<le> u128_max \<and> r = \<lparr>numerator = n * 2 ^ nat \<bar>e'\<bar>, denominator = 1\<rparr>"
      "e' < 0 \<Longrightarrow> r = \<lparr>numerator = n, denominator = 2 ^ nat \<bar>e'\<bar>\<rparr>"
    using assms(1) False by (auto simp: ratio_try_from_def Let_def push_bit_one simp flip: k_def e'_def n_def split: if_splits)
  have val: "of_nat m * 2 powi e = (of_nat n * 2 powi e' :: rat)"
  proof -
    have "(2 :: rat) powi e' = 2 powi e * 2 ^ k"
      by (simp add: e'_def power_int_add)
    moreover have "(of_nat m :: rat) = of_nat n * 2 ^ k"
      by (subst n(1)) simp
    ultimately show ?thesis
      by simp
  qed
  show ?thesis
  proof (cases "0 \<le> e'")
    case True
    then have "(2 :: rat) powi e' = 2 ^ nat \<bar>e'\<bar>"
      by (simp add: power_int_def)
    then show ?thesis
      using r(1) [OF True] val by (simp add: ratio_ok_def rat_of_def u128_max_def)
  next
    case neg: False
    then have "n = l"
      using k(2) n(2) by simp
    then have "coprime n (2 ^ nat \<bar>e'\<bar>)"
      using l(2) by simp
    moreover have "(2 :: nat) ^ nat \<bar>e'\<bar> \<le> u128_max"
    proof -
      have "(2 :: nat) ^ nat \<bar>e'\<bar> \<le> 2 ^ 127"
        using small by (intro power_increasing) simp_all
      also have "\<dots> \<le> u128_max"
        by (simp add: u128_max_def)
      finally show ?thesis .
    qed
    moreover have r': "r = \<lparr>numerator = n, denominator = 2 ^ nat \<bar>e'\<bar>\<rparr>"
      using r(2) neg by simp
    ultimately have "ratio_ok r"
      using le by (simp add: ratio_ok_def)
    moreover have "(2 :: rat) powi e' = 1 / 2 ^ nat \<bar>e'\<bar>"
      using neg by (intro powi_neg) simp
    then have "rat_of r = of_nat m * 2 powi e"
      unfolding val by (simp add: r' rat_of_def)
    ultimately show ?thesis
      by simp
  qed
qed

end
