(* ===== verification/Source_Map.thy ===== *)
theory Source_Map
  imports Ratio
begin

text \<open>
  The maps from physical output frames to source coordinates
  (\<open>crates/kithara-signal/src/chunk/source_span/affine.rs\<close>, \<open>approach.rs\<close> and
  \<open>mapping.rs\<close>): affine maps over exact fractions, arithmetic progressions of advances, and
  exponential approaches.  The exponential itself is floating-point and stays a parameter: for a
  curve, its target rate, the signed transient advance after some frames, and the bits of its three
  parameters.
\<close>

subsection \<open>Affine maps\<close>

datatype offset = Add ratio | Subtract ratio

record affine =
  scale :: ratio
  offset :: offset

definition difference :: "ratio \<Rightarrow> ratio \<Rightarrow> offset option" where
  "difference x y = do {
     d \<leftarrow> common_denominator (denominator x) (denominator y);
     a \<leftarrow> at_denominator x d;
     b \<leftarrow> at_denominator y d;
     if b \<le> a then map_option Add (ratio_new (a - b) d) else map_option Subtract (ratio_new (b - a) d)
   }"

definition scaled :: "ratio \<Rightarrow> offset \<Rightarrow> offset option" where
  "scaled s off =
     (case off of
        Add v \<Rightarrow> map_option Add (ratio_mul v s) | Subtract v \<Rightarrow> map_option Subtract (ratio_mul v s))"

definition offset_add :: "offset \<Rightarrow> offset \<Rightarrow> offset option" where
  "offset_add p q =
     (case (p, q) of
        (Add x, Add y) \<Rightarrow> map_option Add (ratio_add x y)
      | (Subtract x, Subtract y) \<Rightarrow> map_option Subtract (ratio_add x y)
      | (Add x, Subtract y) \<Rightarrow> difference x y
      | (Subtract x, Add y) \<Rightarrow> difference y x)"

definition offset_apply :: "offset \<Rightarrow> ratio \<Rightarrow> ratio option" where
  "offset_apply off v = (case off of Add x \<Rightarrow> ratio_add v x | Subtract x \<Rightarrow> ratio_sub v x)"

definition affine_new :: "ratio \<Rightarrow> ratio \<Rightarrow> ratio \<Rightarrow> affine option" where
  "affine_new pivot place s =
     (if numerator s = 0 then None
      else do {
        moved \<leftarrow> ratio_mul pivot s;
        off \<leftarrow> difference place moved;
        Some \<lparr>scale = s, offset = off\<rparr>
      })"

definition identity :: "affine option" where
  "identity = do {
     one \<leftarrow> ratio_new 1 1;
     zero \<leftarrow> ratio_new 0 1;
     Some \<lparr>scale = one, offset = Add zero\<rparr>
   }"

definition affine_apply :: "affine \<Rightarrow> ratio \<Rightarrow> ratio option" where
  "affine_apply a v = do { s \<leftarrow> ratio_mul v (scale a); offset_apply (offset a) s }"

definition affine_scale :: "affine \<Rightarrow> ratio \<Rightarrow> ratio option" where
  "affine_scale a v = ratio_mul v (scale a)"

definition affine_then :: "affine \<Rightarrow> affine \<Rightarrow> affine option" where
  "affine_then a b = do {
     s \<leftarrow> ratio_mul (scale a) (scale b);
     off \<leftarrow> scaled (scale b) (offset a);
     off' \<leftarrow> offset_add off (offset b);
     Some \<lparr>scale = s, offset = off'\<rparr>
   }"

text \<open>What an offset and an affine map stand for.\<close>

fun offset_val :: "offset \<Rightarrow> rat" where
  "offset_val (Add r) = rat_of r"
| "offset_val (Subtract r) = - rat_of r"

fun offset_ok :: "offset \<Rightarrow> bool" where
  "offset_ok (Add r) = ratio_ok r"
| "offset_ok (Subtract r) = ratio_ok r"

definition affine_ok :: "affine \<Rightarrow> bool" where
  "affine_ok a \<longleftrightarrow> ratio_ok (scale a) \<and> numerator (scale a) \<noteq> 0 \<and> offset_ok (offset a)"

definition affine_val :: "affine \<Rightarrow> rat \<Rightarrow> rat" where
  "affine_val a v = v * rat_of (scale a) + offset_val (offset a)"

lemma difference_exact:
  assumes "difference x y = Some p" "ratio_ok x" "ratio_ok y"
  shows "offset_ok p \<and> offset_val p = rat_of x - rat_of y"
proof -
  obtain d a b where d: "common_denominator (denominator x) (denominator y) = Some d"
    and a: "at_denominator x d = Some a" and b: "at_denominator y d = Some b"
    and p: "(if b \<le> a then map_option Add (ratio_new (a - b) d) else map_option Subtract (ratio_new (b - a) d)) = Some p"
    using assms(1) by (auto simp: difference_def bind_eq_Some_conv)
  have pos: "0 < denominator x" "0 < denominator y"
    using assms(2,3) by (simp_all add: ratio_ok_def)
  note lcm = common_denominator_Some [OF d pos]
  have ab: "(of_nat a :: rat) = rat_of x * of_nat d" "a \<le> u128_max"
      "(of_nat b :: rat) = rat_of y * of_nat d" "b \<le> u128_max"
    using at_denominator_Some [OF a assms(2)] at_denominator_Some [OF b assms(3)] lcm(1) by simp_all
  have sub: "of_nat a / of_nat d = rat_of x" "of_nat b / of_nat d = rat_of y"
    using ab(1,3) lcm(2) by simp_all
  show ?thesis
  proof (cases "b \<le> a")
    case True
    then obtain r where r: "ratio_new (a - b) d = Some r" "p = Add r"
      using p by auto
    have "a - b \<le> u128_max"
      using ab(2) by simp
    note ex = ratio_new_exact [OF r(1) lcm(2) this lcm(3)]
    show ?thesis
      using ex True by (simp add: r(2) of_nat_diff diff_divide_distrib sub)
  next
    case False
    then obtain r where r: "ratio_new (b - a) d = Some r" "p = Subtract r"
      using p by auto
    have "b - a \<le> u128_max"
      using ab(4) by simp
    note ex = ratio_new_exact [OF r(1) lcm(2) this lcm(3)]
    show ?thesis
      using ex False by (simp add: r(2) of_nat_diff diff_divide_distrib sub)
  qed
qed

lemma scaled_exact:
  "scaled s p = Some q \<Longrightarrow> ratio_ok s \<Longrightarrow> offset_ok p \<Longrightarrow> offset_ok q \<and> offset_val q = offset_val p * rat_of s"
  by (cases p) (auto simp: scaled_def dest: ratio_mul_exact)

lemma offset_add_exact:
  "offset_add p q = Some r \<Longrightarrow> offset_ok p \<Longrightarrow> offset_ok q \<Longrightarrow> offset_ok r \<and> offset_val r = offset_val p + offset_val q"
  by (cases p; cases q) (auto simp: offset_add_def dest: ratio_add_exact difference_exact)

lemma offset_apply_exact:
  "offset_apply p v = Some r \<Longrightarrow> offset_ok p \<Longrightarrow> ratio_ok v \<Longrightarrow> ratio_ok r \<and> rat_of r = rat_of v + offset_val p"
  by (cases p) (auto simp: offset_apply_def dest: ratio_add_exact ratio_sub_exact)

lemma affine_apply_exact:
  "affine_apply a v = Some r \<Longrightarrow> affine_ok a \<Longrightarrow> ratio_ok v \<Longrightarrow> ratio_ok r \<and> rat_of r = affine_val a (rat_of v)"
  by (auto simp: affine_apply_def affine_ok_def affine_val_def bind_eq_Some_conv dest!: ratio_mul_exact offset_apply_exact)

lemma affine_scale_exact:
  "affine_scale a v = Some r \<Longrightarrow> affine_ok a \<Longrightarrow> ratio_ok v \<Longrightarrow> ratio_ok r \<and> rat_of r = rat_of v * rat_of (scale a)"
  by (auto simp: affine_scale_def affine_ok_def dest: ratio_mul_exact)

lemma rat_of_zero: "ratio_ok r \<Longrightarrow> rat_of r = 0 \<longleftrightarrow> numerator r = 0"
  by (simp add: rat_of_def ratio_ok_def)

lemma rat_of_nonneg: "0 \<le> rat_of r"
  by (simp add: rat_of_def)

lemma affine_new_exact:
  assumes "affine_new pivot place s = Some a" "ratio_ok pivot" "ratio_ok place" "ratio_ok s"
  shows "affine_ok a \<and> affine_val a v = rat_of place + rat_of s * (v - rat_of pivot)"
  using assms
  by (auto simp: affine_new_def affine_ok_def affine_val_def bind_eq_Some_conv algebra_simps
      dest!: ratio_mul_exact difference_exact split: if_splits)

lemma identity_exact: "identity = Some a \<Longrightarrow> affine_ok a \<and> affine_val a v = v"
  by (auto simp: identity_def affine_ok_def affine_val_def bind_eq_Some_conv ratio_new_def ratio_ok_def
      rat_of_def u128_max_def)

lemma affine_then_exact:
  assumes "affine_then a b = Some c" "affine_ok a" "affine_ok b"
  shows "affine_ok c \<and> affine_val c v = affine_val b (affine_val a v)"
proof -
  obtain s p q where *: "ratio_mul (scale a) (scale b) = Some s" "scaled (scale b) (offset a) = Some p"
      "offset_add p (offset b) = Some q" "c = \<lparr>scale = s, offset = q\<rparr>"
    using assms(1) by (auto simp: affine_then_def bind_eq_Some_conv)
  note ab = assms(2,3) [unfolded affine_ok_def]
  have s: "ratio_ok s" "rat_of s = rat_of (scale a) * rat_of (scale b)"
    using ratio_mul_exact [OF *(1)] ab by simp_all
  moreover from this ab have "numerator s \<noteq> 0"
    using rat_of_zero by (metis mult_eq_0_iff)
  moreover have "offset_ok p" "offset_val p = offset_val (offset a) * rat_of (scale b)"
    using scaled_exact [OF *(2)] ab by simp_all
  ultimately show ?thesis
    using offset_add_exact [OF *(3)] ab by (simp add: *(4) affine_ok_def affine_val_def algebra_simps)
qed

subsection \<open>Exponential approaches\<close>

text \<open>
  The floating-point side of a curve: the target rate and the transient advance, each decoded into
  a mantissa and an exponent, the transient with its sign; and the three bit patterns the curve is
  stored as, with the validated construction from them.
\<close>

record 'c curves =
  target_of :: "'c \<Rightarrow> nat \<times> int"
  transient_of :: "'c \<Rightarrow> nat \<Rightarrow> (bool \<times> nat \<times> int) option"
  bits_of :: "'c \<Rightarrow> nat \<times> nat \<times> nat"
  of_bits :: "nat \<times> nat \<times> nat \<Rightarrow> 'c option"

definition lawful_curves :: "'c curves \<Rightarrow> bool" where
  "lawful_curves cv \<longleftrightarrow>
     (\<forall>c. fst (target_of cv c) \<le> u64_max)
     \<and> (\<forall>c k neg m e. transient_of cv c k = Some (neg, m, e) \<longrightarrow> m \<le> u64_max)
     \<and> (\<forall>c. of_bits cv (bits_of cv c) = Some c)
     \<and> (\<forall>c x y z. bits_of cv c = (x, y, z) \<longrightarrow> x \<le> u64_max \<and> y \<le> u64_max \<and> z \<le> u64_max)"

record 'c approach =
  curve :: 'c
  elapsed :: nat
  origin :: ratio
  aff :: affine

definition advance_at :: "'c curves \<Rightarrow> 'c approach \<Rightarrow> nat \<Rightarrow> ratio option" where
  "advance_at cv a k = do {
     target \<leftarrow> (case target_of cv (curve a) of (m, e) \<Rightarrow> ratio_try_from m e);
     frames \<leftarrow> ratio_new k 1;
     linear \<leftarrow> ratio_mul target frames;
     (neg, m, e) \<leftarrow> transient_of cv (curve a) k;
     correction \<leftarrow> ratio_try_from m e;
     advanced \<leftarrow> (if neg then ratio_sub linear correction else ratio_add linear correction);
     nearest_q32 advanced
   }"

definition approach_ratio_at :: "'c curves \<Rightarrow> 'c approach \<Rightarrow> nat \<Rightarrow> ratio option" where
  "approach_ratio_at cv a frame = do {
     k \<leftarrow> checked_add u64_max (elapsed a) frame;
     advance \<leftarrow> advance_at cv a k;
     v \<leftarrow> ratio_add (origin a) advance;
     affine_apply (aff a) v
   }"

definition approach_sliced :: "'c approach \<Rightarrow> nat \<Rightarrow> 'c approach option" where
  "approach_sliced a start = do {
     k \<leftarrow> checked_add u64_max (elapsed a) start;
     Some (a\<lparr>elapsed := k\<rparr>)
   }"

definition approach_transformed :: "'c approach \<Rightarrow> affine \<Rightarrow> 'c approach option" where
  "approach_transformed a b = do { c \<leftarrow> affine_then (aff a) b; Some (a\<lparr>aff := c\<rparr>) }"

definition approach_followed_by :: "'c approach \<Rightarrow> 'c approach \<Rightarrow> nat \<Rightarrow> 'c approach option" where
  "approach_followed_by a b frames =
     (if curve a \<noteq> curve b \<or> origin a \<noteq> origin b \<or> aff a \<noteq> aff b then None
      else do {
        k \<leftarrow> checked_add u64_max (elapsed a) frames;
        if k \<noteq> elapsed b then None else Some a
      })"

definition approach_ok :: "'c approach \<Rightarrow> bool" where
  "approach_ok a \<longleftrightarrow> elapsed a \<le> u64_max \<and> ratio_ok (origin a) \<and> affine_ok (aff a)"

lemma advance_at_ok:
  assumes "lawful_curves cv" "advance_at cv a k = Some r" "k \<le> u64_max"
  shows "ratio_ok r"
proof -
  obtain m e where target: "target_of cv (curve a) = (m, e)"
    by fastforce
  obtain t f l neg n d c v where *: "ratio_try_from m e = Some t" "ratio_new k 1 = Some f" "ratio_mul t f = Some l" "transient_of cv (curve a) k = Some (neg, n, d)"
      "ratio_try_from n d = Some c" "(if neg then ratio_sub l c else ratio_add l c) = Some v"
      "nearest_q32 v = Some r"
    using assms(2) by (auto simp: advance_at_def bind_eq_Some_conv target)
  have "m \<le> u64_max" "n \<le> u64_max"
    using assms(1) target *(4) unfolding lawful_curves_def by (metis fst_conv, metis)
  then have tc: "ratio_ok t" "ratio_ok c"
    using *(1,5) ratio_try_from_exact by blast+
  have "ratio_ok f"
    using ratio_new_exact(1) [OF *(2)] assms(3) by (simp add: u64_max_def u128_max_def)
  then have "ratio_ok l"
    using ratio_mul_exact [OF *(3)] tc by simp
  then have "ratio_ok v"
    using *(6) tc by (auto dest: ratio_sub_exact ratio_add_exact split: if_splits)
  then show ?thesis
    using nearest_q32_exact [OF *(7)] by simp
qed

lemma approach_ratio_at_exact:
  assumes "lawful_curves cv" "approach_ok a" "approach_ratio_at cv a k = Some r"
  shows "ratio_ok r \<and> (\<exists>x. advance_at cv a (elapsed a + k) = Some x
     \<and> rat_of r = affine_val (aff a) (rat_of (origin a) + rat_of x))"
proof -
  obtain x v where *: "elapsed a + k \<le> u64_max" "advance_at cv a (elapsed a + k) = Some x"
      "ratio_add (origin a) x = Some v" "affine_apply (aff a) v = Some r"
    using assms(3) by (auto simp: approach_ratio_at_def bind_eq_Some_conv)
  have "ratio_ok x"
    by (rule advance_at_ok [OF assms(1) *(2,1)])
  then have "ratio_ok v \<and> rat_of v = rat_of (origin a) + rat_of x"
    using ratio_add_exact [OF *(3)] assms(2) by (simp add: approach_ok_def)
  then show ?thesis
    using affine_apply_exact [OF *(4)] assms(2) *(2) by (simp add: approach_ok_def)
qed

subsection \<open>Progressions of advances\<close>

text \<open>Source frames per output frame start at \<open>step\<close> and change by \<open>step_change\<close> with
  every frame, all over one denominator.\<close>

record rational =
  num :: nat
  den :: nat
  step :: nat
  step_change :: int

definition step_at :: "rational \<Rightarrow> nat \<Rightarrow> nat option" where
  "step_at m frame = do {
     change \<leftarrow> mul128 (nat \<bar>step_change m\<bar>) frame;
     if step_change m < 0 then checked_sub (step m) change else add128 (step m) change
   }"

definition numerator_at :: "rational \<Rightarrow> nat \<Rightarrow> nat option" where
  "numerator_at m frame = do {
     linear \<leftarrow> mul128 (step m) frame;
     product \<leftarrow> mul128 frame (frame - 1);
     change \<leftarrow> mul128 (product div 2) (nat \<bar>step_change m\<bar>);
     advance \<leftarrow> (if step_change m < 0 then checked_sub linear change else add128 linear change);
     add128 (num m) advance
   }"

definition rational_sliced :: "rational \<Rightarrow> nat \<Rightarrow> nat \<Rightarrow> rational option" where
  "rational_sliced m start frames = do {
     n \<leftarrow> numerator_at m start;
     s \<leftarrow> (if frames = 0 \<and> step_change m \<noteq> 0 then Some 0 else step_at m start);
     Some (m\<lparr>num := n, step := s\<rparr>)
   }"

definition rational_followed_by :: "rational \<Rightarrow> rational \<Rightarrow> nat \<Rightarrow> rational option" where
  "rational_followed_by m m' frames = do {
     s \<leftarrow> step_at m frames;
     if s \<noteq> step m' \<or> step_change m \<noteq> step_change m' \<or> den m \<noteq> den m' then None
     else do {
       n \<leftarrow> numerator_at m frames;
       if n \<noteq> num m' then None else Some m
     }
   }"

definition i128_max :: nat where
  "i128_max = 170141183460469231731687303715884105727"

definition transformed_step_change :: "rational \<Rightarrow> nat \<Rightarrow> int option" where
  "transformed_step_change m magnitude =
     (if step_change m < 0 \<and> magnitude \<noteq> 0
      then (if magnitude - 1 \<le> i128_max then Some (- int (magnitude - 1) - 1) else None)
      else (if magnitude \<le> i128_max then Some (int magnitude) else None))"

definition rational_transformed :: "rational \<Rightarrow> affine \<Rightarrow> rational option" where
  "rational_transformed m a = do {
     r \<leftarrow> ratio_new (num m) (den m);
     start \<leftarrow> affine_apply a r;
     r \<leftarrow> ratio_new (step m) (den m);
     s \<leftarrow> affine_scale a r;
     r \<leftarrow> ratio_new (nat \<bar>step_change m\<bar>) (den m);
     change \<leftarrow> affine_scale a r;
     d \<leftarrow> common_denominator (denominator start) (denominator s);
     d \<leftarrow> common_denominator d (denominator change);
     magnitude \<leftarrow> at_denominator change d;
     sc \<leftarrow> transformed_step_change m magnitude;
     n \<leftarrow> at_denominator start d;
     k \<leftarrow> at_denominator s d;
     Some \<lparr>num = n, den = d, step = k, step_change = sc\<rparr>
   }"

definition rational_ok :: "rational \<Rightarrow> bool" where
  "rational_ok m \<longleftrightarrow> 0 < den m \<and> den m \<le> u128_max \<and> num m \<le> u128_max \<and> step m \<le> u128_max
     \<and> - int (i128_max + 1) \<le> step_change m \<and> step_change m \<le> int i128_max"

definition steps_at :: "rational \<Rightarrow> nat \<Rightarrow> int" where
  "steps_at m k = int (step m) + step_change m * int k"

definition units_at :: "rational \<Rightarrow> nat \<Rightarrow> int" where
  "units_at m k = int (num m) + int (step m) * int k + step_change m * int (k * (k - 1) div 2)"

definition rational_val :: "rational \<Rightarrow> nat \<Rightarrow> rat" where
  "rational_val m k = of_int (units_at m k) / of_nat (den m)"

lemma signed_change: "(if sc < 0 then checked_sub a (nat \<bar>sc\<bar> * k) else add128 a (nat \<bar>sc\<bar> * k)) = Some b
   \<Longrightarrow> int b = int a + sc * int k"
  by (auto simp: of_nat_diff split: if_splits)

lemma step_at_exact: "step_at m k = Some s \<Longrightarrow> int s = steps_at m k"
  using signed_change [of "step_change m" "step m" k s]
  by (auto simp: step_at_def steps_at_def bind_eq_Some_conv)

lemma numerator_at_exact:
  assumes "numerator_at m k = Some n"
  shows "int n = units_at m k" "n \<le> u128_max"
proof -
  obtain a where *: "(if step_change m < 0 then checked_sub (step m * k) (nat \<bar>step_change m\<bar> * (k * (k - 1) div 2))
        else add128 (step m * k) (nat \<bar>step_change m\<bar> * (k * (k - 1) div 2))) = Some a"
      "n = num m + a" "n \<le> u128_max"
    using assms by (auto simp: numerator_at_def bind_eq_Some_conv mult.commute cong: if_cong)
  show "int n = units_at m k" "n \<le> u128_max"
    using signed_change [OF *(1)] *(2,3) by (simp_all add: units_at_def)
qed

lemma triangle_add: "(s + k) * (s + k - 1) div 2 = s * (s - 1) div 2 + k * (k - 1) div 2 + s * (k :: nat)"
proof -
  have even: "even (n * (n - 1))" for n :: nat
    by (cases n) auto
  have "(s + k) * (s + k - 1) = s * (s - 1) + k * (k - 1) + 2 * (s * k)"
    by (cases s; cases k) (simp_all add: algebra_simps)
  then show ?thesis
    using even [of s] even [of k] by (auto elim!: evenE)
qed

lemma units_at_shift:
  assumes "int n = units_at m s" "int p = steps_at m s"
  shows "units_at (m\<lparr>num := n, step := p\<rparr>) k = units_at m (s + k)"
  unfolding units_at_def triangle_add [of s k] using assms by (simp add: units_at_def steps_at_def algebra_simps)

lemma rational_sliced_exact:
  assumes "rational_sliced m s f = Some m'" "rational_ok m" "f = 0 \<longrightarrow> k = 0"
  shows "rational_ok m' \<and> units_at m' k = units_at m (s + k) \<and> den m' = den m"
proof -
  obtain n p where *: "numerator_at m s = Some n" "m' = m\<lparr>num := n, step := p\<rparr>"
      "(if f = 0 \<and> step_change m \<noteq> 0 then Some 0 else step_at m s) = Some p"
    using assms(1) by (auto simp: rational_sliced_def bind_eq_Some_conv)
  note n = numerator_at_exact [OF *(1)]
  show ?thesis
  proof (cases "f = 0 \<and> step_change m \<noteq> 0")
    case True
    then show ?thesis
      using * n assms(2,3) by (simp add: rational_ok_def units_at_def)
  next
    case False
    then have p: "step_at m s = Some p"
      using *(3) by auto
    then have "p \<le> u128_max"
      using assms(2) by (auto simp: step_at_def bind_eq_Some_conv rational_ok_def split: if_splits)
    then show ?thesis
      using *(2) n units_at_shift [OF n(1) step_at_exact [OF p], of k] assms(2) by (simp add: rational_ok_def)
  qed
qed

lemma rational_val_split:
  "rational_val m k = of_nat (num m) / of_nat (den m) + of_nat (step m) / of_nat (den m) * of_nat k
     + of_int (step_change m) / of_nat (den m) * of_nat (k * (k - 1) div 2)"
  by (simp add: rational_val_def units_at_def add_divide_distrib)

lemma transformed_step_change_exact:
  assumes "transformed_step_change m n = Some sc"
  shows "sc = (if step_change m < 0 then - int n else int n)"
    "- int (i128_max + 1) \<le> sc" "sc \<le> int i128_max"
  using assms by (auto simp: transformed_step_change_def of_nat_diff split: if_splits)

lemma rational_transformed_exact:
  assumes "rational_transformed m a = Some m'" "rational_ok m" "affine_ok a"
  shows "rational_ok m' \<and> rational_val m' k = affine_val a (rational_val m k)"
proof -
  obtain r1 start r2 s r3 change d1 d mag sc n p where *:
      "ratio_new (num m) (den m) = Some r1" "affine_apply a r1 = Some start"
      "ratio_new (step m) (den m) = Some r2" "affine_scale a r2 = Some s"
      "ratio_new (nat \<bar>step_change m\<bar>) (den m) = Some r3" "affine_scale a r3 = Some change"
      "common_denominator (denominator start) (denominator s) = Some d1"
      "common_denominator d1 (denominator change) = Some d"
      "at_denominator change d = Some mag" "transformed_step_change m mag = Some sc"
      "at_denominator start d = Some n" "at_denominator s d = Some p"
      "m' = \<lparr>num = n, den = d, step = p, step_change = sc\<rparr>"
    using assms(1) by (auto simp: rational_transformed_def bind_eq_Some_conv)
  have m: "0 < den m" "den m \<le> u128_max" "num m \<le> u128_max" "step m \<le> u128_max" "nat \<bar>step_change m\<bar> \<le> u128_max"
    using assms(2) by (auto simp: rational_ok_def i128_max_def u128_max_def)
  note r = ratio_new_exact [OF *(1) m(1,3,2)] ratio_new_exact [OF *(3) m(1,4,2)] ratio_new_exact [OF *(5) m(1,5,2)]
  have start: "ratio_ok start" "rat_of start = affine_val a (of_nat (num m) / of_nat (den m))"
    using affine_apply_exact [OF *(2) assms(3) r(1)] r(2) by simp_all
  have s: "ratio_ok s" "rat_of s = of_nat (step m) / of_nat (den m) * rat_of (scale a)"
    using affine_scale_exact [OF *(4) assms(3) r(3)] r(4) by simp_all
  have change: "ratio_ok change" "rat_of change = of_nat (nat \<bar>step_change m\<bar>) / of_nat (den m) * rat_of (scale a)"
    using affine_scale_exact [OF *(6) assms(3) r(5)] r(6) by simp_all
  have pos: "0 < denominator start" "0 < denominator s" "0 < denominator change"
    using start(1) s(1) change(1) by (simp_all add: ratio_ok_def)
  note d1 = common_denominator_Some [OF *(7) pos(1,2)]
  note d = common_denominator_Some [OF *(8) d1(2) pos(3)]
  have "denominator start dvd d1" "denominator s dvd d1" "d1 dvd d" "denominator change dvd d"
    by (simp_all add: d1(1) d(1))
  then have dvd: "denominator start dvd d" "denominator s dvd d" "denominator change dvd d"
    by (blast intro: dvd_trans)+
  note n = at_denominator_Some [OF *(11) start(1) dvd(1)]
  note p = at_denominator_Some [OF *(12) s(1) dvd(2)]
  note mag = at_denominator_Some [OF *(9) change(1) dvd(3)]
  note sc = transformed_step_change_exact [OF *(10)]
  have over: "of_nat n / of_nat d = rat_of start" "of_nat p / of_nat d = rat_of s" "of_nat mag / of_nat d = rat_of change"
    using n(1) p(1) mag(1) d(2) by simp_all
  have "(of_int sc :: rat) / of_nat d = of_int (step_change m) / of_nat (den m) * rat_of (scale a)"
    using sc(1) over(3) change(2) by (cases "step_change m < 0") auto
  then have "rational_val m' k = affine_val a (rational_val m k)"
    unfolding rational_val_split *(13) using over(1,2) start(2) s(2) by (simp add: affine_val_def algebra_simps)
  moreover have "rational_ok m'"
    using *(13) d n(2) p(2) sc(2,3) by (simp add: rational_ok_def)
  ultimately show ?thesis
    by simp
qed

subsection \<open>Maps\<close>

datatype 'c mapping = Rational rational | Approach "'c approach"

definition mapping_ratio_at :: "'c curves \<Rightarrow> 'c mapping \<Rightarrow> nat \<Rightarrow> ratio option" where
  "mapping_ratio_at cv m frame =
     (case m of
        Rational r \<Rightarrow> do { n \<leftarrow> numerator_at r frame; ratio_new n (den r) }
      | Approach a \<Rightarrow> approach_ratio_at cv a frame)"

definition mapping_validate :: "'c curves \<Rightarrow> 'c mapping \<Rightarrow> nat \<Rightarrow> unit option" where
  "mapping_validate cv m frames = do {
     (case m of
        Rational r \<Rightarrow> (if 0 < frames then do { _ \<leftarrow> step_at r (frames - 1); Some () } else Some ())
      | Approach a \<Rightarrow> Some ());
     first \<leftarrow> mapping_ratio_at cv m 0;
     _ \<leftarrow> source_frame first;
     final \<leftarrow> mapping_ratio_at cv m frames;
     _ \<leftarrow> source_frame final;
     Some ()
   }"

definition mapping_sliced :: "'c mapping \<Rightarrow> nat \<Rightarrow> nat \<Rightarrow> 'c mapping option" where
  "mapping_sliced m start frames =
     (case m of
        Rational r \<Rightarrow> map_option Rational (rational_sliced r start frames)
      | Approach a \<Rightarrow> map_option Approach (approach_sliced a start))"

definition mapping_transformed :: "'c mapping \<Rightarrow> affine \<Rightarrow> 'c mapping option" where
  "mapping_transformed m a =
     (case m of
        Rational r \<Rightarrow> map_option Rational (rational_transformed r a)
      | Approach b \<Rightarrow> map_option Approach (approach_transformed b a))"

definition mapping_followed_by :: "'c mapping \<Rightarrow> 'c mapping \<Rightarrow> nat \<Rightarrow> 'c mapping option" where
  "mapping_followed_by m m' frames =
     (case (m, m') of
        (Rational r, Rational r') \<Rightarrow> map_option Rational (rational_followed_by r r' frames)
      | (Approach a, Approach a') \<Rightarrow> map_option Approach (approach_followed_by a a' frames)
      | _ \<Rightarrow> None)"

fun mapping_ok :: "'c mapping \<Rightarrow> bool" where
  "mapping_ok (Rational r) = rational_ok r"
| "mapping_ok (Approach a) = approach_ok a"

lemma mapping_ratio_at_rational:
  assumes "mapping_ratio_at cv (Rational m) k = Some r" "rational_ok m"
  shows "ratio_ok r \<and> rat_of r = rational_val m k"
proof -
  obtain n where *: "numerator_at m k = Some n" "ratio_new n (den m) = Some r"
    using assms(1) by (auto simp: mapping_ratio_at_def bind_eq_Some_conv)
  note n = numerator_at_exact [OF *(1)]
  have "0 < den m" "den m \<le> u128_max"
    using assms(2) by (simp_all add: rational_ok_def)
  then show ?thesis
    using ratio_new_exact [OF *(2) _ n(2)] by (simp add: rational_val_def flip: n(1))
qed

lemma mapping_ratio_at_ok:
  "lawful_curves cv \<Longrightarrow> mapping_ok m \<Longrightarrow> mapping_ratio_at cv m k = Some r \<Longrightarrow> ratio_ok r"
  by (cases m) (auto dest: mapping_ratio_at_rational, auto simp: mapping_ratio_at_def dest: approach_ratio_at_exact)

lemma mapping_sliced_exact:
  assumes "lawful_curves cv" "mapping_ok m" "mapping_sliced m s f = Some m'" "f = 0 \<longrightarrow> k = 0"
    and "mapping_ratio_at cv m' k = Some a" "mapping_ratio_at cv m (s + k) = Some b"
  shows "a = b"
proof (cases m)
  case (Rational r)
  then obtain r' where r': "rational_sliced r s f = Some r'" "m' = Rational r'"
    using assms(3) by (auto simp: mapping_sliced_def)
  have ok: "rational_ok r"
    using assms(2) Rational by simp
  note sl = rational_sliced_exact [OF r'(1) ok assms(4)]
  show ?thesis
    using mapping_ratio_at_rational [of cv r' k a] mapping_ratio_at_rational [of cv r "s + k" b] assms(5,6) r'(2) Rational ok sl
    by (auto intro!: ratio_eqI simp: rational_val_def)
next
  case (Approach p)
  then show ?thesis
    using assms(3,5,6)
    by (auto simp: mapping_sliced_def mapping_ratio_at_def approach_sliced_def approach_ratio_at_def advance_at_def
        bind_eq_Some_conv add.assoc)
qed

lemma mapping_sliced_ok:
  "mapping_ok m \<Longrightarrow> mapping_sliced m s f = Some m' \<Longrightarrow> mapping_ok m'"
  by (cases m) (auto simp: mapping_sliced_def approach_sliced_def approach_ok_def bind_eq_Some_conv
      dest!: rational_sliced_exact [where k = 0])

lemma mapping_transformed_exact:
  assumes "lawful_curves cv" "mapping_ok m" "affine_ok a" "mapping_transformed m a = Some m'"
  shows "mapping_ok m'"
    and "mapping_ratio_at cv m' k = Some r' \<Longrightarrow> mapping_ratio_at cv m k = Some r \<Longrightarrow> rat_of r' = affine_val a (rat_of r)"
proof -
  have "mapping_ok m' \<and> (mapping_ratio_at cv m' k = Some r' \<longrightarrow> mapping_ratio_at cv m k = Some r
      \<longrightarrow> rat_of r' = affine_val a (rat_of r))"
  proof (cases m)
    case (Rational p)
    then obtain p' where p': "rational_transformed p a = Some p'" "m' = Rational p'"
      using assms(4) by (auto simp: mapping_transformed_def)
    have ok: "rational_ok p"
      using assms(2) Rational by simp
    then show ?thesis
      using rational_transformed_exact [OF p'(1) ok assms(3), of k] p'(2) Rational
        mapping_ratio_at_rational [of cv p' k r'] mapping_ratio_at_rational [of cv p k r] by auto
  next
    case (Approach p)
    then obtain c where c: "affine_then (aff p) a = Some c" "m' = Approach (p\<lparr>aff := c\<rparr>)"
      using assms(4) by (auto simp: mapping_transformed_def approach_transformed_def bind_eq_Some_conv)
    have ok: "approach_ok p"
      using assms(2) Approach by simp
    then have th: "affine_ok c \<and> affine_val c v = affine_val a (affine_val (aff p) v)" for v
      using affine_then_exact [OF c(1) _ assms(3)] by (simp add: approach_ok_def)
    then have ok': "approach_ok (p\<lparr>aff := c\<rparr>)"
      using ok by (simp add: approach_ok_def)
    have "advance_at cv (p\<lparr>aff := c\<rparr>) = advance_at cv p"
      by (simp add: fun_eq_iff advance_at_def)
    then show ?thesis
      using c(2) ok' Approach th approach_ratio_at_exact [OF assms(1) ok', of k r'] approach_ratio_at_exact [OF assms(1) ok, of k r]
      by (auto simp: mapping_ratio_at_def)
  qed
  then show "mapping_ok m'"
    and "mapping_ratio_at cv m' k = Some r' \<Longrightarrow> mapping_ratio_at cv m k = Some r \<Longrightarrow> rat_of r' = affine_val a (rat_of r)"
    by simp_all
qed

lemma mapping_followed_by_same: "mapping_followed_by m m' f = Some m'' \<Longrightarrow> m'' = m"
  by (auto simp: mapping_followed_by_def rational_followed_by_def approach_followed_by_def bind_eq_Some_conv
      split: mapping.splits if_splits)

end
