(* ===== verification/Source_Span.thy ===== *)
theory Source_Span
  imports Source_Map
begin

text \<open>
  Source spans (\<open>crates/kithara-signal/src/chunk/source_span/span.rs\<close>): the interval of decoded
  source frames that an interval of physical output frames stands for, with its constructors,
  slicing, joining, inversion, composition and word encoding.  \<open>Result<_, ()>\<close> is an option, the
  array of 24 words a list, and \<open>start\<close> and \<open>end\<close> return nothing where the code panics.
  The position in seconds as a float is not modelled.
\<close>

subsection \<open>Spans\<close>

record 'c span =
  sample_rate :: nat
  mapping_revision :: "nat option"
  span_map :: "'c mapping"
  output_frames :: nat
  render_revision :: nat

type_synonym fraction = "nat \<times> nat"

definition try_u64 :: "nat \<Rightarrow> nat option" where
  "try_u64 n = (if n \<le> u64_max then Some n else None)"

definition try_u32 :: "nat \<Rightarrow> nat option" where
  "try_u32 n = (if n \<le> u32_max then Some n else None)"

text \<open>The product of a proper fraction with 10 ^ 9, one binary digit of the factor per turn.\<close>

fun nanos_digits :: "nat \<Rightarrow> nat \<Rightarrow> nat \<Rightarrow> nat \<Rightarrow> nat \<Rightarrow> nat" where
  "nanos_digits 0 n d remainder nanos = nanos"
| "nanos_digits (Suc b) n d remainder nanos =
     (let complement = d - remainder;
          (remainder, carry) = (if complement \<le> remainder then (remainder - complement, 1) else (remainder + remainder, 0));
          (remainder, carry) =
            (if 1000000000 AND push_bit b 1 \<noteq> (0 :: nat)
             then let complement = d - n
                  in if complement \<le> remainder then (remainder - complement, carry + 1) else (remainder + n, carry)
             else (remainder, carry))
      in nanos_digits b n d remainder (nanos * 2 + carry))"

definition fractional_nanos :: "nat \<Rightarrow> nat \<Rightarrow> nat" where
  "fractional_nanos n d = nanos_digits 32 n d 0 0"

definition source_ratio_at :: "'c curves \<Rightarrow> 'c span \<Rightarrow> nat \<Rightarrow> fraction option" where
  "source_ratio_at cv s frame =
     (if output_frames s < frame then None
      else do {
        r \<leftarrow> mapping_ratio_at cv (span_map s) frame;
        Some (numerator r, denominator r)
      })"

definition position_at :: "'c curves \<Rightarrow> 'c span \<Rightarrow> nat \<Rightarrow> duration option" where
  "position_at cv s frame = do {
     (n, d) \<leftarrow> source_ratio_at cv s frame;
     let frames = n div d;
     let rate = sample_rate s;
     seconds \<leftarrow> try_u64 (frames div rate);
     let fraction = fractional_nanos (n mod d) d;
     nanos \<leftarrow> try_u32 ((frames mod rate * 1000000000 + fraction) div rate);
     Some (seconds * 1000000000 + nanos)
   }"

definition span_start :: "'c curves \<Rightarrow> 'c span \<Rightarrow> nat option" where
  "span_start cv s = Option.bind (mapping_ratio_at cv (span_map s) 0) source_frame"

definition span_end :: "'c curves \<Rightarrow> 'c span \<Rightarrow> nat option" where
  "span_end cv s = Option.bind (mapping_ratio_at cv (span_map s) (output_frames s)) source_frame"

subsection \<open>Constructors\<close>

definition span_progression :: "'c curves \<Rightarrow> nat \<Rightarrow> nat \<Rightarrow> int \<Rightarrow> nat \<Rightarrow> nat \<Rightarrow> nat \<Rightarrow> 'c span option" where
  "span_progression cv start_numerator step_numerator change d rate frames =
     (if frames = 0 then None
      else do {
        let m = Rational \<lparr>num = start_numerator, den = d, step = step_numerator, step_change = change\<rparr>;
        mapping_validate cv m frames;
        Some \<lparr>sample_rate = rate, mapping_revision = None, span_map = m, output_frames = frames, render_revision = 0\<rparr>
      })"

definition span_affine :: "'c curves \<Rightarrow> nat \<Rightarrow> nat \<Rightarrow> nat \<Rightarrow> nat \<Rightarrow> nat \<Rightarrow> 'c span option" where
  "span_affine cv start_numerator step_numerator d rate frames =
     span_progression cv start_numerator step_numerator 0 d rate frames"

fun euclid :: "nat \<Rightarrow> nat \<Rightarrow> nat" where
  "euclid a b = (if b = 0 then a else euclid b (a mod b))"

declare euclid.simps [simp del]

definition span_new :: "'c curves \<Rightarrow> nat \<Rightarrow> nat \<Rightarrow> nat \<Rightarrow> nat \<Rightarrow> 'c span option" where
  "span_new cv lo hi rate frames = do {
     source_frames \<leftarrow> checked_sub hi lo;
     let g = euclid source_frames frames;
     q \<leftarrow> (if g = 0 then None else Some (frames div g));
     d \<leftarrow> nonzero q;
     span_affine cv (lo * d) (source_frames div g) d rate frames
   }"

definition approaching :: "'c curves \<Rightarrow> fraction \<Rightarrow> 'c \<Rightarrow> nat \<Rightarrow> nat \<Rightarrow> nat \<Rightarrow> 'c span option" where
  "approaching cv start c k rate frames =
     (if frames = 0 then None
      else do {
        r \<leftarrow> ratio_new (fst start) (snd start);
        a \<leftarrow> identity;
        let m = Approach \<lparr>curve = c, elapsed = k, origin = r, aff = a\<rparr>;
        mapping_validate cv m frames;
        Some \<lparr>sample_rate = rate, mapping_revision = None, span_map = m, output_frames = frames, render_revision = 0\<rparr>
      })"

subsection \<open>Operations\<close>

definition scaled_from :: "'c curves \<Rightarrow> fraction \<Rightarrow> fraction \<Rightarrow> fraction \<Rightarrow> 'c span \<Rightarrow> 'c span option" where
  "scaled_from cv pivot place factor s = do {
     p \<leftarrow> ratio_new (fst pivot) (snd pivot);
     q \<leftarrow> ratio_new (fst place) (snd place);
     f \<leftarrow> ratio_new (fst factor) (snd factor);
     a \<leftarrow> affine_new p q f;
     m \<leftarrow> mapping_transformed (span_map s) a;
     mapping_validate cv m (output_frames s);
     Some (s\<lparr>span_map := m\<rparr>)
   }"

definition is_affine :: "'c span \<Rightarrow> bool" where
  "is_affine s = (case span_map s of Rational m \<Rightarrow> step_change m = 0 | Approach a \<Rightarrow> False)"

definition affine_basis :: "'c span \<Rightarrow> (ratio \<times> ratio) option" where
  "affine_basis s =
     (case span_map s of
        Rational m \<Rightarrow>
          if step_change m = 0 then do { o' \<leftarrow> ratio_new (num m) (den m); p \<leftarrow> ratio_new (step m) (den m); Some (o', p) }
          else None
      | Approach a \<Rightarrow> None)"

definition source_inverse :: "nat \<Rightarrow> 'c span \<Rightarrow> affine option" where
  "source_inverse output_origin s =
     (case span_map s of
        Rational m \<Rightarrow>
          if step_change m = 0
          then do {
            p \<leftarrow> nonzero (step m);
            f \<leftarrow> ratio_new (den m) p;
            x \<leftarrow> ratio_new output_origin 1;
            y \<leftarrow> ratio_new (num m) p;
            off \<leftarrow> difference x y;
            Some \<lparr>scale = f, offset = off\<rparr>
          }
          else None
      | Approach a \<Rightarrow> None)"

definition output_at :: "affine \<Rightarrow> fraction \<Rightarrow> fraction option" where
  "output_at a place = do {
     r \<leftarrow> ratio_new (fst place) (snd place);
     p \<leftarrow> affine_apply a r;
     Some (numerator p, denominator p)
   }"

definition output_ratio_at_source :: "nat \<Rightarrow> fraction \<Rightarrow> 'c span \<Rightarrow> fraction option" where
  "output_ratio_at_source output_origin place s = do { a \<leftarrow> source_inverse output_origin s; output_at a place }"

definition map_output_span :: "'c curves \<Rightarrow> nat \<Rightarrow> 'c span \<Rightarrow> 'c span \<Rightarrow> 'c span option" where
  "map_output_span cv output_origin other s = do {
     (o', p) \<leftarrow> affine_basis s;
     rate \<leftarrow> ratio_new (sample_rate other) (sample_rate s);
     o' \<leftarrow> ratio_mul o' rate;
     p \<leftarrow> ratio_mul p rate;
     scaled_from cv (output_origin, 1) (numerator o', denominator o') (numerator p, denominator p) other
   }"

definition rebase_output :: "'c curves \<Rightarrow> nat \<Rightarrow> nat \<Rightarrow> 'c span \<Rightarrow> 'c span option" where
  "rebase_output cv previous later s = do {
     (o', p) \<leftarrow> affine_basis s;
     k \<leftarrow> ratio_new (if previous \<le> later then later - previous else previous - later) 1;
     advance \<leftarrow> ratio_mul p k;
     place \<leftarrow> (if later < previous then ratio_sub o' advance else ratio_add o' advance);
     scaled_from cv (numerator o', denominator o') (numerator place, denominator place) (1, 1) s
   }"

definition followed_by :: "'c curves \<Rightarrow> 'c span \<Rightarrow> 'c span \<Rightarrow> 'c span option" where
  "followed_by cv s t =
     (if sample_rate s \<noteq> sample_rate t \<or> render_revision s \<noteq> render_revision t
         \<or> mapping_revision s \<noteq> mapping_revision t then None
      else do {
        m \<leftarrow> mapping_followed_by (span_map s) (span_map t) (output_frames s);
        frames \<leftarrow> checked_add u64_max (output_frames s) (output_frames t);
        mapping_validate cv m frames;
        Some (s\<lparr>span_map := m, output_frames := frames\<rparr>)
      })"

definition for_output_range :: "'c curves \<Rightarrow> nat \<Rightarrow> nat \<Rightarrow> 'c span \<Rightarrow> 'c span option" where
  "for_output_range cv lo hi s =
     (if hi < lo \<or> output_frames s < hi then None
      else if lo = 0 \<and> hi = output_frames s \<and> output_frames s \<noteq> 0 then Some s
      else do {
        let frames = hi - lo;
        m \<leftarrow> mapping_sliced (span_map s) lo frames;
        mapping_validate cv m frames;
        Some (s\<lparr>span_map := m, output_frames := frames\<rparr>)
      })"

subsection \<open>Word encoding\<close>

definition split_words :: "nat \<Rightarrow> nat list" where
  "split_words v = [take_bit 64 v, drop_bit 64 v]"

definition joined :: "nat list \<Rightarrow> nat" where
  "joined ws = ws ! 0 OR push_bit 64 (ws ! 1)"

definition write_ratio :: "ratio \<Rightarrow> nat list" where
  "write_ratio r = split_words (numerator r) @ split_words (denominator r)"

definition read_ratio :: "nat list \<Rightarrow> ratio option" where
  "read_ratio ws = do { d \<leftarrow> nonzero (joined (drop 2 ws)); ratio_new (joined ws) d }"

definition i128_bits :: "int \<Rightarrow> nat" where
  "i128_bits i = nat (i mod 2 ^ 128)"

definition i128_of_bits :: "nat \<Rightarrow> int" where
  "i128_of_bits n = (if n \<le> i128_max then int n else int n - 2 ^ 128)"

definition encode :: "'c curves \<Rightarrow> 'c span \<Rightarrow> nat list" where
  "encode cv s =
     (let tail = [sample_rate s, output_frames s, render_revision s, (case mapping_revision s of Some r \<Rightarrow> r | None \<Rightarrow> 0)]
      in case span_map s of
        Rational m \<Rightarrow>
          [1, 0] @ tail @ split_words (num m) @ split_words (den m) @ split_words (step m)
            @ split_words (i128_bits (step_change m)) @ replicate 10 0
      | Approach a \<Rightarrow>
          (case bits_of cv (curve a) of (x, y, z) \<Rightarrow>
             let (subtract, off) = (case offset (aff a) of Add r \<Rightarrow> (0, r) | Subtract r \<Rightarrow> (1, r))
             in [1, 1] @ tail @ [x, y, z, elapsed a] @ write_ratio (origin a) @ write_ratio (scale (aff a))
                  @ [subtract] @ write_ratio off @ [0]))"

definition read_approach :: "'c curves \<Rightarrow> nat list \<Rightarrow> 'c approach option" where
  "read_approach cv ws = do {
     r \<leftarrow> read_ratio (drop 19 ws);
     off \<leftarrow> (if ws ! 18 = 0 then Some (Add r) else if ws ! 18 = 1 then Some (Subtract r) else None);
     f \<leftarrow> read_ratio (drop 14 ws);
     if numerator f = 0 then None
     else do {
       c \<leftarrow> of_bits cv (ws ! 6, ws ! 7, ws ! 8);
       o' \<leftarrow> read_ratio (drop 10 ws);
       Some \<lparr>curve = c, elapsed = ws ! 9, origin = o', aff = \<lparr>scale = f, offset = off\<rparr>\<rparr>
     }
   }"

definition decode :: "'c curves \<Rightarrow> nat list \<Rightarrow> 'c span option" where
  "decode cv ws =
     (if ws ! 0 \<noteq> 1 then None
      else do {
        rate \<leftarrow> try_u32 (ws ! 2);
        rate \<leftarrow> nonzero rate;
        m \<leftarrow> (if ws ! 1 = 0 then do {
                d \<leftarrow> nonzero (joined (drop 8 ws));
                Some (Rational \<lparr>num = joined (drop 6 ws), den = d, step = joined (drop 10 ws),
                   step_change = i128_of_bits (joined (drop 12 ws))\<rparr>)
              }
              else if ws ! 1 = 1 then do { a \<leftarrow> read_approach cv ws; Some (Approach a) }
              else None);
        mapping_validate cv m (ws ! 3);
        let s = \<lparr>sample_rate = rate, mapping_revision = nonzero (ws ! 5), span_map = m,
                 output_frames = ws ! 3, render_revision = ws ! 4\<rparr>;
        if encode cv s \<noteq> ws then None else Some s
      })"

subsection \<open>Validated spans\<close>

definition span_ok :: "'c curves \<Rightarrow> 'c span \<Rightarrow> bool" where
  "span_ok cv s \<longleftrightarrow> 0 < sample_rate s \<and> sample_rate s \<le> u32_max \<and> output_frames s \<le> u64_max
     \<and> render_revision s \<le> u64_max
     \<and> (case mapping_revision s of Some r \<Rightarrow> 0 < r \<and> r \<le> u64_max | None \<Rightarrow> True)
     \<and> mapping_ok (span_map s) \<and> mapping_validate cv (span_map s) (output_frames s) = Some ()"

definition fraction_ok :: "fraction \<Rightarrow> bool" where
  "fraction_ok p \<longleftrightarrow> fst p \<le> u128_max \<and> 0 < snd p \<and> snd p \<le> u128_max"

text \<open>Spans the public constructors and operations make from arguments of their types.\<close>

inductive built :: "'c curves \<Rightarrow> 'c span \<Rightarrow> bool" for cv where
  new: "span_new cv lo hi rate frames = Some s \<Longrightarrow> lo \<le> u64_max \<Longrightarrow> hi \<le> u64_max \<Longrightarrow> 0 < rate
     \<Longrightarrow> rate \<le> u32_max \<Longrightarrow> frames \<le> u64_max \<Longrightarrow> built cv s"
| progression: "span_progression cv n k sc d rate frames = Some s
     \<Longrightarrow> rational_ok \<lparr>num = n, den = d, step = k, step_change = sc\<rparr> \<Longrightarrow> 0 < rate \<Longrightarrow> rate \<le> u32_max
     \<Longrightarrow> frames \<le> u64_max \<Longrightarrow> built cv s"
| approach: "approaching cv p c k rate frames = Some s \<Longrightarrow> fraction_ok p \<Longrightarrow> k \<le> u64_max \<Longrightarrow> 0 < rate
     \<Longrightarrow> rate \<le> u32_max \<Longrightarrow> frames \<le> u64_max \<Longrightarrow> built cv s"
| scaled: "built cv s \<Longrightarrow> scaled_from cv p q f s = Some t \<Longrightarrow> fraction_ok p \<Longrightarrow> fraction_ok q \<Longrightarrow> fraction_ok f
     \<Longrightarrow> built cv t"
| mapped: "built cv s \<Longrightarrow> built cv other \<Longrightarrow> map_output_span cv output_origin other s = Some t
     \<Longrightarrow> output_origin \<le> u64_max \<Longrightarrow> built cv t"
| rebased: "built cv s \<Longrightarrow> rebase_output cv previous later s = Some t \<Longrightarrow> previous \<le> u64_max
     \<Longrightarrow> later \<le> u64_max \<Longrightarrow> built cv t"
| joined: "built cv s \<Longrightarrow> built cv t \<Longrightarrow> followed_by cv s t = Some u \<Longrightarrow> built cv u"
| sliced: "built cv s \<Longrightarrow> for_output_range cv lo hi s = Some t \<Longrightarrow> built cv t"
| decoded: "decode cv ws = Some s \<Longrightarrow> length ws = 24 \<Longrightarrow> list_all (\<lambda>w. w \<le> u64_max) ws \<Longrightarrow> built cv s"
| revised: "built cv s \<Longrightarrow> r \<le> u64_max \<Longrightarrow> built cv (s\<lparr>render_revision := r\<rparr>)"
| remapped: "built cv s \<Longrightarrow> (case r of Some n \<Rightarrow> 0 < n \<and> n \<le> u64_max | None \<Rightarrow> True)
     \<Longrightarrow> built cv (s\<lparr>mapping_revision := r\<rparr>)"

lemma fraction_ratio:
  "ratio_new (fst p) (snd p) = Some r \<Longrightarrow> fraction_ok p \<Longrightarrow> ratio_ok r \<and> rat_of r = of_nat (fst p) / of_nat (snd p)"
  using ratio_new_exact [of "fst p" "snd p" r] by (simp add: fraction_ok_def)

lemma ratio_fraction: "ratio_ok r \<Longrightarrow> fraction_ok (numerator r, denominator r)"
  by (simp add: fraction_ok_def ratio_ok_def)

lemma whole_fraction: "n \<le> u64_max \<Longrightarrow> fraction_ok (n, 1)"
  by (simp add: fraction_ok_def u64_max_def u128_max_def)

lemma scaled_from_exact:
  assumes "lawful_curves cv" "span_ok cv s" "scaled_from cv p q f s = Some t"
    "fraction_ok p" "fraction_ok q" "fraction_ok f"
  shows "span_ok cv t"
    and "mapping_ratio_at cv (span_map t) k = Some y \<Longrightarrow> mapping_ratio_at cv (span_map s) k = Some x \<Longrightarrow>
      rat_of y = of_nat (fst q) / of_nat (snd q)
        + of_nat (fst f) / of_nat (snd f) * (rat_of x - of_nat (fst p) / of_nat (snd p))"
proof -
  obtain rp rq rf a m where *: "ratio_new (fst p) (snd p) = Some rp" "ratio_new (fst q) (snd q) = Some rq"
      "ratio_new (fst f) (snd f) = Some rf" "affine_new rp rq rf = Some a"
      "mapping_transformed (span_map s) a = Some m" "mapping_validate cv m (output_frames s) = Some ()"
      "t = s\<lparr>span_map := m\<rparr>"
    using assms(3) by (auto simp: scaled_from_def bind_eq_Some_conv)
  note r = fraction_ratio [OF *(1) assms(4)] fraction_ratio [OF *(2) assms(5)] fraction_ratio [OF *(3) assms(6)]
  have a: "affine_ok a \<and> affine_val a v = rat_of rq + rat_of rf * (v - rat_of rp)" for v
    using affine_new_exact [OF *(4)] r by blast
  have m: "mapping_ok (span_map s)"
    using assms(2) by (simp add: span_ok_def)
  note tr = mapping_transformed_exact [OF assms(1) m conjunct1 [OF a] *(5)]
  show "span_ok cv t"
    using assms(2) tr(1) *(6,7) by (simp add: span_ok_def)
  assume "mapping_ratio_at cv (span_map t) k = Some y" "mapping_ratio_at cv (span_map s) k = Some x"
  then have "rat_of y = affine_val a (rat_of x)"
    using tr(2) *(7) by simp
  then show "rat_of y = of_nat (fst q) / of_nat (snd q)
        + of_nat (fst f) / of_nat (snd f) * (rat_of x - of_nat (fst p) / of_nat (snd p))"
    using a r by simp
qed

lemma affine_basis_exact:
  assumes "affine_basis s = Some (x, p)" "span_ok cv s"
  obtains m where "span_map s = Rational m" "rational_ok m" "step_change m = 0" "ratio_ok x" "ratio_ok p"
    "rat_of x = of_nat (num m) / of_nat (den m)" "rat_of p = of_nat (step m) / of_nat (den m)"
proof -
  obtain m where m: "span_map s = Rational m" "step_change m = 0"
      "ratio_new (num m) (den m) = Some x" "ratio_new (step m) (den m) = Some p"
    using assms(1) by (auto simp: affine_basis_def bind_eq_Some_conv split: mapping.splits if_splits)
  have "rational_ok m"
    using assms(2) m(1) by (simp add: span_ok_def)
  then show thesis
    using that m ratio_new_exact [OF m(3)] ratio_new_exact [OF m(4)] by (simp add: rational_ok_def)
qed

text \<open>The source coordinate an affine span gives to a fractional output frame of its own.\<close>

definition affine_line :: "rational \<Rightarrow> rat \<Rightarrow> rat" where
  "affine_line m v = (of_nat (num m) + of_nat (step m) * v) / of_nat (den m)"

lemma map_output_span_exact:
  assumes "lawful_curves cv" "span_ok cv s" "span_ok cv other"
    "map_output_span cv output_origin other s = Some t" "output_origin \<le> u64_max"
  shows "span_ok cv t"
    and "\<exists>m. span_map s = Rational m \<and> (\<forall>k x y. mapping_ratio_at cv (span_map t) k = Some y
      \<longrightarrow> mapping_ratio_at cv (span_map other) k = Some x
      \<longrightarrow> rat_of y = affine_line m (rat_of x - of_nat output_origin) * of_nat (sample_rate other) / of_nat (sample_rate s))"
proof -
  obtain a b rate c d where *: "affine_basis s = Some (a, b)" "ratio_new (sample_rate other) (sample_rate s) = Some rate"
      "ratio_mul a rate = Some c" "ratio_mul b rate = Some d"
      "scaled_from cv (output_origin, 1) (numerator c, denominator c) (numerator d, denominator d) other = Some t"
    using assms(4) by (auto simp: map_output_span_def bind_eq_Some_conv split: prod.splits)
  obtain m where m: "span_map s = Rational m" "rational_ok m" "step_change m = 0" "ratio_ok a" "ratio_ok b"
    "rat_of a = of_nat (num m) / of_nat (den m)" "rat_of b = of_nat (step m) / of_nat (den m)"
    by (rule affine_basis_exact [OF *(1) assms(2)])
  have "0 < sample_rate s" "sample_rate s \<le> u128_max" "sample_rate other \<le> u128_max"
    using assms(2,3) by (simp_all add: span_ok_def u32_max_def u128_max_def)
  note rate = ratio_new_exact [OF *(2) this(1,3,2)]
  have c: "ratio_ok c" "rat_of c = rat_of a * rat_of rate" "ratio_ok d" "rat_of d = rat_of b * rat_of rate"
    using ratio_mul_exact [OF *(3) m(4) rate(1)] ratio_mul_exact [OF *(4) m(5) rate(1)] by simp_all
  note sc = scaled_from_exact [OF assms(1,3) *(5) whole_fraction [OF assms(5)] ratio_fraction [OF c(1)] ratio_fraction [OF c(3)]]
  show "span_ok cv t"
    by (rule sc(1))
  have "rat_of y = affine_line m (rat_of x - of_nat output_origin) * of_nat (sample_rate other) / of_nat (sample_rate s)"
    if "mapping_ratio_at cv (span_map t) k = Some y" "mapping_ratio_at cv (span_map other) k = Some x" for k x y
    using sc(2) [OF that] c(2,4) m(6,7) rate(2)
    by (simp add: affine_line_def add_divide_distrib distrib_right flip: rat_of_def)
  then show "\<exists>m. span_map s = Rational m \<and> (\<forall>k x y. mapping_ratio_at cv (span_map t) k = Some y
      \<longrightarrow> mapping_ratio_at cv (span_map other) k = Some x
      \<longrightarrow> rat_of y = affine_line m (rat_of x - of_nat output_origin) * of_nat (sample_rate other) / of_nat (sample_rate s))"
    using m(1) by blast
qed

lemma rebase_output_exact:
  assumes "lawful_curves cv" "span_ok cv s" "rebase_output cv previous later s = Some t"
    "previous \<le> u64_max" "later \<le> u64_max"
  shows "span_ok cv t"
    and "\<exists>m. span_map s = Rational m \<and> (\<forall>k x y. mapping_ratio_at cv (span_map t) k = Some y
      \<longrightarrow> mapping_ratio_at cv (span_map s) k = Some x
      \<longrightarrow> rat_of y = rat_of x + of_nat (step m) / of_nat (den m) * (of_nat later - of_nat previous))"
proof -
  let ?n = "if previous \<le> later then later - previous else previous - later"
  obtain a b k adv place where *: "affine_basis s = Some (a, b)" "ratio_new ?n 1 = Some k"
      "ratio_mul b k = Some adv" "(if later < previous then ratio_sub a adv else ratio_add a adv) = Some place"
      "scaled_from cv (numerator a, denominator a) (numerator place, denominator place) (1, 1) s = Some t"
    using assms(3) by (auto simp: rebase_output_def bind_eq_Some_conv split: prod.splits)
  obtain m where m: "span_map s = Rational m" "rational_ok m" "step_change m = 0" "ratio_ok a" "ratio_ok b"
    "rat_of a = of_nat (num m) / of_nat (den m)" "rat_of b = of_nat (step m) / of_nat (den m)"
    by (rule affine_basis_exact [OF *(1) assms(2)])
  have "?n \<le> u128_max" "(1 :: nat) \<le> u128_max"
    using assms(4,5) by (auto simp: u64_max_def u128_max_def)
  note k = ratio_new_exact [OF *(2) zero_less_one this]
  have adv: "ratio_ok adv" "rat_of adv = rat_of b * of_nat ?n"
    using ratio_mul_exact [OF *(3) m(5) k(1)] k(2) by simp_all
  have place: "ratio_ok place" "rat_of place = rat_of a + rat_of b * (of_nat later - of_nat previous)"
    using *(4) adv m(4)
    by (auto simp: of_nat_diff right_diff_distrib dest!: ratio_sub_exact ratio_add_exact split: if_splits)
  have "fraction_ok (1, 1)"
    by (simp add: fraction_ok_def u128_max_def)
  note sc = scaled_from_exact [OF assms(1,2) *(5) ratio_fraction [OF m(4)] ratio_fraction [OF place(1)] this]
  show "span_ok cv t"
    by (rule sc(1))
  have "rat_of y = rat_of x + of_nat (step m) / of_nat (den m) * (of_nat later - of_nat previous)"
    if "mapping_ratio_at cv (span_map t) k = Some y" "mapping_ratio_at cv (span_map s) k = Some x" for k x y
    using sc(2) [OF that] place(2) m(7) by (simp flip: rat_of_def)
  then show "\<exists>m. span_map s = Rational m \<and> (\<forall>k x y. mapping_ratio_at cv (span_map t) k = Some y
      \<longrightarrow> mapping_ratio_at cv (span_map s) k = Some x
      \<longrightarrow> rat_of y = rat_of x + of_nat (step m) / of_nat (den m) * (of_nat later - of_nat previous))"
    using m(1) by blast
qed

lemma followed_by_ok:
  assumes "span_ok cv s" "followed_by cv s t = Some u"
  shows "span_ok cv u"
proof -
  obtain m frames where *: "mapping_followed_by (span_map s) (span_map t) (output_frames s) = Some m"
      "frames \<le> u64_max" "mapping_validate cv m frames = Some ()" "u = s\<lparr>span_map := m, output_frames := frames\<rparr>"
    using assms(2) by (auto simp: followed_by_def bind_eq_Some_conv split: if_splits)
  have "m = span_map s"
    using mapping_followed_by_same [OF *(1)] .
  then show ?thesis
    using assms(1) *(2,3) unfolding *(4) by (simp add: span_ok_def)
qed

lemma for_output_range_slice:
  assumes "for_output_range cv lo hi s = Some t" "\<not> (lo = 0 \<and> hi = output_frames s \<and> output_frames s \<noteq> 0)"
  obtains m where "lo \<le> hi" "hi \<le> output_frames s" "mapping_sliced (span_map s) lo (hi - lo) = Some m"
    "mapping_validate cv m (hi - lo) = Some ()" "t = s\<lparr>span_map := m, output_frames := hi - lo\<rparr>"
proof -
  have range: "\<not> (hi < lo \<or> output_frames s < hi)"
    using assms(1) by (cases "hi < lo \<or> output_frames s < hi") (simp_all add: for_output_range_def)
  then have "do {
      m \<leftarrow> mapping_sliced (span_map s) lo (hi - lo);
      mapping_validate cv m (hi - lo);
      Some (s\<lparr>span_map := m, output_frames := hi - lo\<rparr>)
    } = Some t"
    using assms unfolding for_output_range_def Let_def by (simp only: if_False)
  then show thesis
    using range that by (auto simp: bind_eq_Some_conv)
qed

lemma for_output_range_ok:
  assumes "span_ok cv s" "for_output_range cv lo hi s = Some t"
  shows "span_ok cv t"
proof (cases "lo = 0 \<and> hi = output_frames s \<and> output_frames s \<noteq> 0")
  case True
  then show ?thesis
    using assms by (simp add: for_output_range_def)
next
  case False
  obtain m where *: "hi \<le> output_frames s" "mapping_sliced (span_map s) lo (hi - lo) = Some m"
      "mapping_validate cv m (hi - lo) = Some ()" "t = s\<lparr>span_map := m, output_frames := hi - lo\<rparr>"
    by (rule for_output_range_slice [OF assms(2) False])
  have "mapping_ok m"
    using mapping_sliced_ok [OF _ *(2)] assms(1) by (simp add: span_ok_def)
  moreover have "output_frames s \<le> u64_max"
    using assms(1) by (simp add: span_ok_def)
  then have "hi - lo \<le> u64_max"
    using *(1) by linarith
  ultimately show ?thesis
    using assms(1) *(1,3) unfolding *(4) by (simp add: span_ok_def)
qed


subsection \<open>New spans\<close>

lemma euclid_gcd [simp]: "euclid a b = gcd a b"
proof (induction a b rule: euclid.induct)
  case (1 a b)
  then show ?case
    by (subst euclid.simps) (simp add: gcd_red_nat [of a b])
qed

lemma span_progression_ok:
  assumes "span_progression cv n k sc d rate frames = Some s" "rational_ok \<lparr>num = n, den = d, step = k, step_change = sc\<rparr>"
    "0 < rate" "rate \<le> u32_max" "frames \<le> u64_max"
  shows "span_ok cv s"
  using assms by (auto simp: span_progression_def span_ok_def bind_eq_Some_conv Let_def split: if_splits)

lemma ratio_new_div:
  assumes "ratio_new n d = Some r" "0 < d"
  shows "numerator r div denominator r = n div d"
proof -
  have r: "numerator r = n div gcd n d" "denominator r = d div gcd n d"
    using assms by (auto simp: ratio_new_def bind_eq_Some_conv)
  obtain a b where ab: "n = gcd n d * a" "d = gcd n d * b"
    by (metis dvdE gcd_dvd1 gcd_dvd2)
  have g: "0 < gcd n d"
    using assms(2) by simp
  have "n div gcd n d = a" "d div gcd n d = b"
    using ab g by (metis nonzero_mult_div_cancel_left less_not_refl)+
  moreover have "(gcd n d * a) div (gcd n d * b) = a div b"
    using g by (simp only: div_mult_mult1 less_imp_neq [symmetric] not_False_eq_True)
  ultimately show ?thesis
    using ab r by metis
qed

lemma square_fits: "a \<le> u64_max \<Longrightarrow> b \<le> u64_max \<Longrightarrow> a * b \<le> u128_max"
  using mult_le_mono [of a u64_max b u64_max] by (simp add: u64_max_def u128_max_def)

lemma reduced_steps:
  fixes lo hi frames :: nat
  assumes "lo \<le> hi" "0 < frames"
  obtains d p where "0 < d" "d \<le> frames" "p \<le> hi" "frames div gcd (hi - lo) frames = d" "(hi - lo) div gcd (hi - lo) frames = p"
    "d * (hi - lo) = p * frames"
proof -
  let ?g = "gcd (hi - lo) frames"
  have "0 < ?g"
    using assms(2) by (simp add: gcd_pos_nat)
  moreover have "?g dvd frames" "?g dvd hi - lo"
    by (rule gcd_dvd2, rule gcd_dvd1)
  moreover from this obtain a b where ab: "frames = ?g * a" "hi - lo = ?g * b"
    by (metis dvdE)
  ultimately have div: "frames div ?g = a" "(hi - lo) div ?g = b"
    by (metis nonzero_mult_div_cancel_left less_numeral_extra(3))+
  show thesis
  proof (rule that [OF _ _ _ div])
    show "0 < a"
      using ab(1) assms(2) by (metis mult_0_right not_gr_zero less_numeral_extra(3))
    show "a \<le> frames"
      using div(1) by (metis div_le_dividend)
    show "b \<le> hi"
      using div(2) by (metis div_le_dividend diff_le_self le_trans)
    show "a * (hi - lo) = b * frames"
      using ab by (metis mult.assoc mult.commute)
  qed
qed

lemma span_new_unfold:
  assumes "lo \<le> hi" "hi \<le> u64_max" "0 < frames" "frames \<le> u64_max"
  obtains d p where "span_new cv lo hi rate frames = span_affine cv (lo * d) p d rate frames"
    "0 < d" "d \<le> frames" "p \<le> hi" "p * frames = (hi - lo) * d"
proof -
  obtain d p where dp: "0 < d" "d \<le> frames" "p \<le> hi" "frames div gcd (hi - lo) frames = d"
      "(hi - lo) div gcd (hi - lo) frames = p" "d * (hi - lo) = p * frames"
    by (rule reduced_steps [OF assms(1,3)])
  have "span_new cv lo hi rate frames = span_affine cv (lo * d) p d rate frames"
    using assms(1,3) dp by (simp add: span_new_def Let_def checked_sub_def)
  then show thesis
    using dp(1-3) dp(6) by (intro that [of d p]) (simp_all add: mult.commute)
qed

lemma line_numerator:
  assumes "lo \<le> hi" "hi \<le> u64_max" "d \<le> u64_max" "p * frames = (hi - lo) * d" "frames \<le> u64_max" "k \<le> frames"
  shows "numerator_at \<lparr>num = lo * d, den = d, step = p, step_change = 0\<rparr> k = Some (lo * d + p * k)"
proof -
  have "lo * d + p * k \<le> lo * d + p * frames"
    using assms(6) by simp
  also have "\<dots> = hi * d"
    using assms(1,4) by (simp flip: distrib_right)
  also have "\<dots> \<le> u128_max"
    by (rule square_fits [OF assms(2,3)])
  finally have "lo * d + p * k \<le> u128_max" .
  moreover have "k * (k - 1) \<le> u128_max"
    using assms(5,6) by (intro square_fits) simp_all
  ultimately show ?thesis
    by (simp add: numerator_at_def checked_mul_def checked_add_def)
qed

lemma line_validates:
  assumes "lo \<le> hi" "hi \<le> u64_max" "0 < d" "d \<le> u64_max" "p * frames = (hi - lo) * d" "0 < frames" "frames \<le> u64_max"
  defines "m \<equiv> \<lparr>num = lo * d, den = d, step = p, step_change = 0\<rparr>"
  shows "mapping_validate cv (Rational m) frames = Some ()" "rational_ok m"
    "Option.bind (mapping_ratio_at cv (Rational m) 0) source_frame = Some lo"
    "Option.bind (mapping_ratio_at cv (Rational m) frames) source_frame = Some hi"
proof -
  have ends: "numerator_at m 0 = Some (lo * d)" "numerator_at m frames = Some (hi * d)"
    using line_numerator [OF assms(1,2,4,5,7), of 0] line_numerator [OF assms(1,2,4,5,7), of frames] assms(1,5)
    by (simp_all add: m_def flip: distrib_right)
  obtain r where r: "ratio_new (lo * d) d = Some r"
    using ratio_new_defined [OF assms(3)] by blast
  obtain q where q: "ratio_new (hi * d) d = Some q"
    using ratio_new_defined [OF assms(3)] by blast
  have div: "numerator r div denominator r = lo" "numerator q div denominator q = hi"
    using ratio_new_div [OF r assms(3)] ratio_new_div [OF q assms(3)] assms(3) by simp_all
  have "p * 1 \<le> p * frames"
    using assms(6) by (intro mult_le_mono2) simp
  also have "\<dots> \<le> hi * d"
    unfolding assms(5) by (intro mult_le_mono1) simp
  finally have p: "p \<le> u128_max"
    using square_fits [OF assms(2,4)] by simp
  have "lo * d \<le> u128_max"
    using assms(1,2,4) by (intro square_fits) simp_all
  then show "rational_ok m"
    using assms(3,4) p by (simp add: m_def rational_ok_def u64_max_def u128_max_def)
  have at: "mapping_ratio_at cv (Rational m) 0 = Some r" "mapping_ratio_at cv (Rational m) frames = Some q"
    using ends r q by (simp_all add: mapping_ratio_at_def) (simp_all add: m_def)
  have fits: "source_frame r = Some lo" "source_frame q = Some hi"
    using div assms(1,2) by (simp_all add: source_frame_def Let_def)
  then show "Option.bind (mapping_ratio_at cv (Rational m) 0) source_frame = Some lo"
    "Option.bind (mapping_ratio_at cv (Rational m) frames) source_frame = Some hi"
    by (simp_all add: at)
  have "step_at m (frames - 1) = Some p"
    using p by (simp add: step_at_def m_def checked_mul_def checked_add_def)
  then show "mapping_validate cv (Rational m) frames = Some ()"
    by (simp add: mapping_validate_def at fits)
qed

lemma span_new_ok:
  assumes "span_new cv lo hi rate frames = Some s" "lo \<le> u64_max" "hi \<le> u64_max" "0 < rate" "rate \<le> u32_max" "frames \<le> u64_max"
  shows "span_ok cv s"
proof -
  have le: "lo \<le> hi" "0 < frames"
    using assms(1) by (auto simp: span_new_def Let_def bind_eq_Some_conv split: if_splits intro!: gr0I)
  obtain d p where dp: "span_new cv lo hi rate frames = span_affine cv (lo * d) p d rate frames"
    "0 < d" "d \<le> frames" "p \<le> hi" "p * frames = (hi - lo) * d"
    by (rule span_new_unfold [OF le(1) assms(3) le(2) assms(6)])
  have "d \<le> u64_max"
    using dp(3) assms(6) by simp
  note line = line_validates [OF le(1) assms(3) dp(2) this dp(5) le(2) assms(6)]
  show ?thesis
    using assms(1) line(2) assms(4-6) by (intro span_progression_ok) (simp_all add: dp(1) span_affine_def)
qed

lemma approaching_ok:
  assumes "approaching cv p c k rate frames = Some s" "fraction_ok p" "k \<le> u64_max" "0 < rate" "rate \<le> u32_max" "frames \<le> u64_max"
  shows "span_ok cv s"
proof -
  obtain r a where *: "ratio_new (fst p) (snd p) = Some r" "identity = Some a"
      "mapping_validate cv (Approach \<lparr>curve = c, elapsed = k, origin = r, aff = a\<rparr>) frames = Some ()"
      "s = \<lparr>sample_rate = rate, mapping_revision = None,
        span_map = Approach \<lparr>curve = c, elapsed = k, origin = r, aff = a\<rparr>, output_frames = frames, render_revision = 0\<rparr>"
    using assms(1) by (auto simp: approaching_def bind_eq_Some_conv Let_def split: if_splits)
  then show ?thesis
    using fraction_ratio [OF *(1) assms(2)] identity_exact [OF *(2)] assms(3-6)
    by (simp add: span_ok_def approach_ok_def)
qed

lemma joined_fits:
  assumes "ws ! 0 \<le> u64_max" "ws ! 1 \<le> u64_max"
  shows "joined ws \<le> u128_max"
proof -
  have "ws ! 0 < 2 ^ 128" "push_bit 64 (ws ! 1) < 2 ^ 128"
    using assms by (simp_all add: push_bit_eq_mult u64_max_def)
  then have "take_bit 128 (joined ws) = joined ws"
    by (simp only: joined_def take_bit_or take_bit_nat_eq_self)
  then have "joined ws < 2 ^ 128"
    by (metis take_bit_nat_less_exp)
  then show ?thesis
    by (simp add: u128_max_def)
qed

lemma read_ratio_ok:
  assumes "read_ratio (drop i ws) = Some r" "list_all (\<lambda>w. w \<le> u64_max) ws" "i + 4 \<le> length ws"
  shows "ratio_ok r"
proof -
  have w: "ws ! j \<le> u64_max" if "j < length ws" for j
    using that assms(2) by (simp add: list_all_length)
  have fits: "joined (drop i ws) \<le> u128_max" "joined (drop (2 + i) ws) \<le> u128_max"
    by (rule joined_fits; use assms(3) w in \<open>simp add: add.commute\<close>)+
  obtain n where "n \<noteq> 0" "n = joined (drop (2 + i) ws)" "ratio_new (joined (drop i ws)) n = Some r"
    using assms(1) by (auto simp: read_ratio_def bind_eq_Some_conv add.commute)
  then show ?thesis
    using fits ratio_new_exact(1) [of "joined (drop i ws)" n r] by simp
qed

lemma i128_of_bits_range: "n \<le> u128_max \<Longrightarrow> - int (i128_max + 1) \<le> i128_of_bits n \<and> i128_of_bits n \<le> int i128_max"
  by (auto simp: i128_of_bits_def i128_max_def u128_max_def)

lemma read_approach_ok:
  assumes "read_approach cv ws = Some a" "list_all (\<lambda>w. w \<le> u64_max) ws" "length ws = 24"
  shows "approach_ok a"
proof -
  obtain r off f c p where *: "read_ratio (drop 19 ws) = Some r"
      "(if ws ! 18 = 0 then Some (Add r) else if ws ! 18 = 1 then Some (Subtract r) else None) = Some off"
      "read_ratio (drop 14 ws) = Some f" "numerator f \<noteq> 0" "read_ratio (drop 10 ws) = Some p"
      "a = \<lparr>curve = c, elapsed = ws ! 9, origin = p, aff = \<lparr>scale = f, offset = off\<rparr>\<rparr>"
    using assms(1) by (auto simp: read_approach_def bind_eq_Some_conv split: if_split_asm)
  have "ratio_ok r" "ratio_ok f" "ratio_ok p"
    using read_ratio_ok [OF *(1) assms(2)] read_ratio_ok [OF *(3) assms(2)] read_ratio_ok [OF *(5) assms(2)] assms(3)
    by simp_all
  moreover have "ws ! 9 \<le> u64_max"
    using assms(2,3) by (simp add: list_all_length)
  ultimately show ?thesis
    using *(2,4,6) by (auto simp: approach_ok_def affine_ok_def split: if_split_asm)
qed

lemma decode_ok:
  assumes "decode cv ws = Some s" "length ws = 24" "list_all (\<lambda>w. w \<le> u64_max) ws"
  shows "span_ok cv s"
proof -
  have w: "ws ! j \<le> u64_max" if "j < 24" for j
    using that assms(2,3) by (simp add: list_all_length)
  have j: "joined (drop i ws) \<le> u128_max" if "i + 1 < 24" for i
    using that assms(2) w by (intro joined_fits) simp_all
  obtain m where *: "0 < ws ! 2" "ws ! 2 \<le> u32_max" "mapping_validate cv m (ws ! 3) = Some ()"
      "s = \<lparr>sample_rate = ws ! 2, mapping_revision = nonzero (ws ! 5), span_map = m, output_frames = ws ! 3,
        render_revision = ws ! 4\<rparr>"
      "(if ws ! 1 = 0 then do {
          d \<leftarrow> nonzero (joined (drop 8 ws));
          Some (Rational \<lparr>num = joined (drop 6 ws), den = d, step = joined (drop 10 ws),
            step_change = i128_of_bits (joined (drop 12 ws))\<rparr>)
        }
        else if ws ! 1 = 1 then do { a \<leftarrow> read_approach cv ws; Some (Approach a) } else None) = Some m"
    using assms(1) by (auto simp: decode_def bind_eq_Some_conv try_u32_def Let_def cong: if_cong split: if_split_asm)
  have "mapping_ok m"
  proof (cases "ws ! 1 = 0")
    case True
    then show ?thesis
      using *(5) j [of 6] j [of 8] j [of 10] i128_of_bits_range [OF j [of 12]] by (auto simp: bind_eq_Some_conv rational_ok_def)
  next
    case False
    then show ?thesis
      using *(5) read_approach_ok [OF _ assms(3,2)] by (auto simp: bind_eq_Some_conv split: if_split_asm)
  qed
  then show ?thesis
    using *(1-3) w [of 3] w [of 4] w [of 5] by (auto simp: *(4) span_ok_def nonzero_def)
qed

lemma built_ok: "built cv s \<Longrightarrow> lawful_curves cv \<Longrightarrow> span_ok cv s"
proof (induction rule: built.induct)
  case (new lo hi rate frames s)
  then show ?case
    by (intro span_new_ok)
next
  case (progression n k sc d rate frames s)
  then show ?case
    by (intro span_progression_ok)
next
  case (approach p c k rate frames s)
  then show ?case
    by (intro approaching_ok)
next
  case (scaled s p q f t)
  then show ?case
    using scaled_from_exact(1) by blast
next
  case (mapped s other output_origin t)
  then show ?case
    using map_output_span_exact(1) by blast
next
  case (rebased s previous later t)
  then show ?case
    using rebase_output_exact(1) by blast
next
  case (joined s t u)
  then show ?case
    using followed_by_ok by blast
next
  case (sliced s lo hi t)
  then show ?case
    using for_output_range_ok by blast
next
  case (decoded ws s)
  then show ?case
    using decode_ok by blast
qed (simp_all add: span_ok_def)

lemma span_ok_ends:
  assumes "span_ok cv s"
  shows "\<exists>a b. span_start cv s = Some a \<and> span_end cv s = Some b \<and> a \<le> u64_max \<and> b \<le> u64_max"
proof -
  have "mapping_validate cv (span_map s) (output_frames s) = Some ()"
    using assms by (simp add: span_ok_def)
  then show ?thesis
    by (auto simp: mapping_validate_def bind_eq_Some_conv span_start_def span_end_def source_frame_Some)
qed


subsection \<open>Words\<close>

lemma split_joined: "take_bit 64 v OR push_bit 64 (drop_bit 64 v) = (v :: nat)"
  by (rule bit_eqI) (simp add: bit_or_iff bit_take_bit_iff bit_push_bit_iff bit_drop_bit_eq, metis le_add_diff_inverse not_less)

lemma joined_split [simp]:
  "joined (split_words v @ ws) = v" "joined (split_words v) = v"
  by (simp_all add: joined_def split_words_def split_joined)

lemma length_words [simp]: "length (split_words v) = 2" "length (write_ratio r) = 4"
  by (simp_all add: split_words_def write_ratio_def)

lemma read_write_ratio [simp]: "ratio_ok r \<Longrightarrow> read_ratio (write_ratio r @ ws) = Some r"
  by (simp add: read_ratio_def write_ratio_def ratio_ok_def ratio_new_def)

lemma i128_roundtrip:
  assumes "- int (i128_max + 1) \<le> i" "i \<le> int i128_max"
  shows "i128_of_bits (i128_bits i) = i"
proof (cases "0 \<le> i")
  case True
  then have "i mod 2 ^ 128 = i"
    using assms(2) by (intro mod_pos_pos_trivial) (simp_all add: i128_max_def)
  then show ?thesis
    using True assms(2) by (simp add: i128_bits_def i128_of_bits_def nat_le_iff)
next
  case False
  have "i mod 2 ^ 128 = (i + 2 ^ 128) mod 2 ^ 128"
    by simp
  also have "\<dots> = i + 2 ^ 128"
    using False assms(1) by (intro mod_pos_pos_trivial) (simp_all add: i128_max_def)
  finally have "i128_bits i = nat (i + 2 ^ 128)" "0 \<le> i + 2 ^ 128" "int i128_max < i + 2 ^ 128"
    using assms(1) by (simp_all add: i128_bits_def i128_max_def)
  then have "\<not> i128_bits i \<le> i128_max" "int (i128_bits i) = i + 2 ^ 128"
    by (simp_all only: nat_le_iff not_le int_nat_eq if_True)
  then show ?thesis
    by (simp add: i128_of_bits_def)
qed

lemma drop_app: "length xs = n \<Longrightarrow> drop n (xs @ ys) = ys"
  by auto

lemma decode_encode_rational:
  assumes "span_ok cv s" "span_map s = Rational m"
  shows "decode cv (encode cv s) = Some s"
proof -
  define ws where "ws = encode cv s"
  have ok: "rational_ok m"
    using assms by (simp add: span_ok_def)
  have ws: "ws = [1, 0, sample_rate s, output_frames s, render_revision s,
        (case mapping_revision s of Some r \<Rightarrow> r | None \<Rightarrow> 0)] @ split_words (num m) @ split_words (den m)
        @ split_words (step m) @ split_words (i128_bits (step_change m)) @ replicate 10 0"
    by (simp add: ws_def encode_def assms(2))
  have parts: "joined (drop 6 ws) = num m" "joined (drop 8 ws) = den m" "joined (drop 10 ws) = step m"
      "joined (drop 12 ws) = i128_bits (step_change m)"
    by (simp_all add: ws joined_def split_words_def split_joined)
  have cells: "ws ! 0 = 1" "ws ! Suc 0 = 0" "ws ! 2 = sample_rate s" "ws ! 3 = output_frames s" "ws ! 4 = render_revision s"
      "nonzero (ws ! 5) = mapping_revision s"
    using assms(1) by (simp_all add: ws span_ok_def nonzero_def split: option.splits)
  have change: "i128_of_bits (i128_bits (step_change m)) = step_change m"
    using ok by (intro i128_roundtrip) (simp_all add: rational_ok_def)
  have whole: "\<lparr>sample_rate = sample_rate s, mapping_revision = mapping_revision s, span_map = Rational m,
      output_frames = output_frames s, render_revision = render_revision s\<rparr> = s"
    using assms(2) by (cases s) simp
  moreover have eta: "\<lparr>num = num m, den = den m, step = step m, step_change = step_change m\<rparr> = m"
    by (cases m) simp
  ultimately have "decode cv ws = Some s"
    using assms ok
    by (simp add: decode_def cells parts change eta whole try_u32_def span_ok_def rational_ok_def Let_def flip: ws_def)
  then show ?thesis
    by (simp add: ws_def)
qed

lemma decode_encode_approach:
  assumes "lawful_curves cv" "span_ok cv s" "span_map s = Approach a"
  shows "decode cv (encode cv s) = Some s"
proof -
  define ws where "ws = encode cv s"
  obtain x y z where bits: "bits_of cv (curve a) = (x, y, z)"
    using prod_cases3 by blast
  have of_bits: "of_bits cv (x, y, z) = Some (curve a)"
    using assms(1) unfolding lawful_curves_def bits [symmetric] by blast
  have ok: "ratio_ok (origin a)" "ratio_ok (scale (aff a))" "numerator (scale (aff a)) \<noteq> 0" "offset_ok (offset (aff a))"
    using assms by (simp_all add: span_ok_def approach_ok_def affine_ok_def)
  obtain subtract off where off: "(case offset (aff a) of Add r \<Rightarrow> (0 :: nat, r) | Subtract r \<Rightarrow> (1, r)) = (subtract, off)"
    by fastforce
  then have off': "ratio_ok off" "(if subtract = 0 then Some (Add off) else if subtract = 1 then Some (Subtract off) else None)
      = Some (offset (aff a))"
    using ok(4) by (auto split: offset.splits)
  have ws: "ws = [1, 1, sample_rate s, output_frames s, render_revision s,
        (case mapping_revision s of Some r \<Rightarrow> r | None \<Rightarrow> 0), x, y, z, elapsed a] @ write_ratio (origin a)
        @ write_ratio (scale (aff a)) @ [subtract] @ write_ratio off @ [0]"
    by (simp add: ws_def encode_def assms(3) bits off)
  have "drop 10 ws = write_ratio (origin a) @ write_ratio (scale (aff a)) @ [subtract] @ write_ratio off @ [0]"
      "drop 14 ws = write_ratio (scale (aff a)) @ [subtract] @ write_ratio off @ [0]"
      "drop 19 ws = write_ratio off @ [0]"
    by (simp_all add: ws)
  then have parts: "read_ratio (drop 10 ws) = Some (origin a)" "read_ratio (drop 14 ws) = Some (scale (aff a))"
      "read_ratio (drop 19 ws) = Some off"
    using ok off' by simp_all
  have cells: "ws ! 0 = 1" "ws ! Suc 0 = 1" "ws ! 2 = sample_rate s" "ws ! 3 = output_frames s" "ws ! 4 = render_revision s"
      "nonzero (ws ! 5) = mapping_revision s" "ws ! 6 = x" "ws ! 7 = y" "ws ! 8 = z" "ws ! 9 = elapsed a" "ws ! 18 = subtract"
    using assms(2) by (simp_all add: ws span_ok_def nonzero_def write_ratio_def split_words_def split: option.splits)
  have "read_approach cv ws = Some a"
    unfolding read_approach_def cells parts using off' ok(3) of_bits by (cases a) (simp add: Let_def)
  moreover have whole: "\<lparr>sample_rate = sample_rate s, mapping_revision = mapping_revision s, span_map = Approach a,
      output_frames = output_frames s, render_revision = render_revision s\<rparr> = s"
    using assms(3) by (cases s) simp
  ultimately have "decode cv ws = Some s"
    using assms by (simp add: decode_def cells whole try_u32_def span_ok_def Let_def flip: ws_def)
  then show ?thesis
    by (simp add: ws_def)
qed

lemma encode_words:
  assumes "lawful_curves cv" "span_ok cv s"
  shows "length (encode cv s) = 24" "\<forall>w \<in> set (encode cv s). w \<le> u64_max"
proof -
  show "length (encode cv s) = 24"
    by (auto simp: encode_def Let_def split: mapping.splits prod.splits offset.splits)
  have words: "w \<le> u64_max" if "w \<in> set (split_words v)" "v \<le> u128_max" for w v
  proof -
    have "take_bit 64 v < 2 ^ 64"
      by (rule take_bit_nat_less_exp)
    moreover have "drop_bit 64 v \<le> u128_max div 2 ^ 64"
      using that(2) by (simp only: drop_bit_eq_div div_le_mono)
    ultimately show ?thesis
      using that(1) by (auto simp: split_words_def u64_max_def u128_max_def)
  qed
  have ratios: "w \<le> u64_max" if "w \<in> set (write_ratio r)" "ratio_ok r" for w r
    using that words by (auto simp: write_ratio_def ratio_ok_def)
  have change: "i128_bits i \<le> u128_max" for i
  proof -
    have "i mod 2 ^ 128 < 2 ^ 128"
      by simp
    then show ?thesis
      by (simp add: i128_bits_def u128_max_def nat_le_iff)
  qed
  have tail: "sample_rate s \<le> u64_max" "output_frames s \<le> u64_max" "render_revision s \<le> u64_max"
      "(case mapping_revision s of Some r \<Rightarrow> r | None \<Rightarrow> 0) \<le> u64_max"
    using assms(2) by (auto simp: span_ok_def u32_max_def u64_max_def split: option.splits)
  show "\<forall>w \<in> set (encode cv s). w \<le> u64_max"
  proof (cases "span_map s")
    case (Rational m)
    then have "rational_ok m"
      using assms(2) by (simp add: span_ok_def)
    then show ?thesis
      using tail words change by (auto simp: encode_def Rational rational_ok_def u64_max_def)
  next
    case (Approach a)
    obtain x y z where bits: "bits_of cv (curve a) = (x, y, z)"
      using prod_cases3 by blast
    then have "x \<le> u64_max" "y \<le> u64_max" "z \<le> u64_max"
      using assms(1) by (auto simp: lawful_curves_def)
    moreover have "elapsed a \<le> u64_max" "ratio_ok (origin a)" "ratio_ok (scale (aff a))" "offset_ok (offset (aff a))"
      using assms(2) Approach by (simp_all add: span_ok_def approach_ok_def affine_ok_def)
    moreover have "(0 :: nat) \<le> u64_max" "(1 :: nat) \<le> u64_max"
      by (simp_all add: u64_max_def)
    ultimately show ?thesis
      using tail ratios by (auto simp: encode_def Approach bits Let_def split: offset.splits)
  qed
qed


subsection \<open>Positions\<close>

lemma drop_bit_step: "drop_bit b k = 2 * drop_bit (Suc b) k + (if k AND push_bit b 1 \<noteq> 0 then 1 else 0 :: nat)"
proof -
  have "drop_bit b k = 2 * (drop_bit b k div 2) + drop_bit b k mod 2"
    by simp
  moreover have "drop_bit b k div 2 = drop_bit (Suc b) k"
    by (simp add: drop_bit_Suc drop_bit_half)
  moreover have "drop_bit b k mod 2 = (if k AND push_bit b 1 \<noteq> 0 then 1 else 0)"
    using bit_iff_and_push_bit_not_eq_0 [of k b] bit_iff_odd_drop_bit [of k b] by (simp only: mod_2_eq_odd of_bool_def)
  ultimately show ?thesis
    by presburger
qed

lemma nanos_digits_exact:
  "n < d \<Longrightarrow> rem < d \<Longrightarrow> nanos * d + rem = n * drop_bit b 1000000000
   \<Longrightarrow> nanos_digits b n d rem nanos = n * 1000000000 div d"
proof (induction b arbitrary: rem nanos)
  case 0
  then show ?case
    by (metis drop_bit_0 id_apply nanos_digits.simps(1) div_mult_self3 div_less add_0_right not_less_zero)
next
  case (Suc b)
  let ?bit = "1000000000 AND push_bit b 1 \<noteq> (0 :: nat)"
  define r1 c1 where "r1 = (if d - rem \<le> rem then rem - (d - rem) else rem + rem)"
    and "c1 = (if d - rem \<le> rem then 1 else 0 :: nat)"
  define r2 c2 where "r2 = (if ?bit then if d - n \<le> r1 then r1 - (d - n) else r1 + n else r1)"
    and "c2 = (if ?bit \<and> d - n \<le> r1 then c1 + 1 else c1)"
  have one: "c1 * d + r1 = 2 * rem" "r1 < d"
    using Suc.prems(2) by (auto simp: r1_def c1_def)
  have two: "c2 * d + r2 = 2 * rem + (if ?bit then n else 0)" "r2 < d"
    using one Suc.prems(1) by (auto simp: r2_def c2_def)
  have "(nanos * 2 + c2) * d + r2 = 2 * (nanos * d + rem) + (if ?bit then n else 0)"
    using two(1) by (simp add: algebra_simps)
  also have "\<dots> = n * (2 * drop_bit (Suc b) 1000000000 + (if ?bit then 1 else 0))"
    by (simp only: Suc.prems(3)) (simp add: distrib_left)
  also have "\<dots> = n * drop_bit b 1000000000"
    by (subst drop_bit_step [of b]) simp
  finally have "nanos_digits b n d r2 (nanos * 2 + c2) = n * 1000000000 div d"
    using Suc.IH Suc.prems(1) two(2) by blast
  moreover have "nanos_digits (Suc b) n d rem nanos = nanos_digits b n d r2 (nanos * 2 + c2)"
    using Suc.prems(1,2) by (auto simp: r1_def r2_def c1_def c2_def Let_def)
  ultimately show ?case
    by simp
qed

lemma fractional_nanos_exact: "n < d \<Longrightarrow> fractional_nanos n d = n * 1000000000 div d"
  by (simp add: fractional_nanos_def nanos_digits_exact)

lemma times_split: "n * c = n div d * c * d + n mod d * (c :: nat)"
proof -
  have "n * c = (n div d * d + n mod d) * c"
    by simp
  also have "\<dots> = n div d * c * d + n mod d * c"
    by (simp only: distrib_right mult.assoc mult.commute [of d])
  finally show ?thesis .
qed

lemma position_at_exact:
  assumes "lawful_curves cv" "span_ok cv s" "position_at cv s k = Some t"
  shows "\<exists>n d. source_ratio_at cv s k = Some (n, d) \<and> t = n * 1000000000 div (d * sample_rate s)"
proof -
  let ?r = "sample_rate s"
  obtain n d where *: "source_ratio_at cv s k = Some (n, d)"
      "t = n div d div ?r * 1000000000 + (n div d mod ?r * 1000000000 + fractional_nanos (n mod d) d) div ?r"
    using assms(3) by (auto simp: position_at_def bind_eq_Some_conv Let_def try_u32_def try_u64_def split: if_splits)
  have pos: "0 < d" "0 < ?r"
  proof -
    obtain r where "mapping_ratio_at cv (span_map s) k = Some r" "d = denominator r"
      using *(1) by (auto simp: source_ratio_at_def bind_eq_Some_conv split: if_splits)
    then show "0 < d"
      using mapping_ratio_at_ok [OF assms(1), of "span_map s" k r] assms(2) by (simp add: span_ok_def ratio_ok_def)
    show "0 < ?r"
      using assms(2) by (simp add: span_ok_def)
  qed
  have nanos: "n * 1000000000 div d = n div d * 1000000000 + fractional_nanos (n mod d) d"
  proof -
    have "n * 1000000000 div d = n div d * 1000000000 + n mod d * 1000000000 div d"
      by (subst times_split [of n _ d]) (use pos(1) in \<open>simp only: div_mult_self3 less_imp_neq [symmetric] not_False_eq_True\<close>)
    then show ?thesis
      using pos(1) by (simp add: fractional_nanos_exact)
  qed
  have "n div d * 1000000000 = n div d div ?r * 1000000000 * ?r + n div d mod ?r * 1000000000"
    by (rule times_split)
  then have "n * 1000000000 div d div ?r = t"
    using pos(2) nanos *(2) by (simp add: add.assoc)
  then show ?thesis
    using *(1) by (auto simp: div_mult2_eq)
qed

subsection \<open>Slices and inverses\<close>

lemma slice_exact:
  assumes "lawful_curves cv" "span_ok cv s" "for_output_range cv lo hi s = Some t"
    "source_ratio_at cv t k = Some a" "source_ratio_at cv s (lo + k) = Some b"
  shows "a = b"
proof (cases "lo = 0 \<and> hi = output_frames s \<and> output_frames s \<noteq> 0")
  case True
  then show ?thesis
    using assms(3-5) by (simp add: for_output_range_def split: if_splits)
next
  case False
  then obtain m where m: "mapping_sliced (span_map s) lo (hi - lo) = Some m"
      "t = s\<lparr>span_map := m, output_frames := hi - lo\<rparr>"
    using for_output_range_slice [OF assms(3)] by blast
  obtain x y where xy: "mapping_ratio_at cv m k = Some x" "a = (numerator x, denominator x)"
      "mapping_ratio_at cv (span_map s) (lo + k) = Some y" "b = (numerator y, denominator y)" "k \<le> hi - lo"
    using assms(4,5) m(2) by (auto simp: source_ratio_at_def bind_eq_Some_conv split: if_splits)
  have "hi - lo = 0 \<longrightarrow> k = 0"
    using xy(5) by linarith
  moreover have "mapping_ok (span_map s)"
    using assms(2) by (simp add: span_ok_def)
  ultimately have "x = y"
    by (intro mapping_sliced_exact [OF assms(1) _ m(1) _ xy(1,3)])
  then show ?thesis
    using xy by simp
qed

lemma mapping_sliced_start:
  assumes "mapping_sliced m 0 f = Some m'" "0 < f"
  shows "m' = m"
proof (cases m)
  case (Rational r)
  obtain n p where *: "numerator_at r 0 = Some n" "step_at r 0 = Some p" "m' = Rational (r\<lparr>num := n, step := p\<rparr>)"
    using assms by (auto simp: Rational mapping_sliced_def rational_sliced_def bind_eq_Some_conv)
  have "n = num r" "p = step r"
    using numerator_at_exact(1) [OF *(1)] step_at_exact [OF *(2)] by (simp_all add: units_at_def steps_at_def)
  then show ?thesis
    using *(3) Rational by simp
next
  case (Approach a)
  then show ?thesis
    using assms by (auto simp: mapping_sliced_def approach_sliced_def bind_eq_Some_conv)
qed

lemma mapping_followed_by_slice:
  assumes "mapping_sliced m k f = Some m'" "0 < f"
  shows "mapping_followed_by m m' k = Some m"
  using assms
  by (auto simp: mapping_sliced_def mapping_followed_by_def rational_sliced_def rational_followed_by_def
      approach_sliced_def approach_followed_by_def bind_eq_Some_conv split: mapping.splits)

lemma slices_join:
  assumes "span_ok cv s" "0 < k" "k < output_frames s"
    "for_output_range cv 0 k s = Some a" "for_output_range cv k (output_frames s) s = Some b"
  shows "followed_by cv a b = Some s"
proof -
  have no: "\<not> (0 = 0 \<and> k = output_frames s \<and> output_frames s \<noteq> 0)"
    "\<not> (k = 0 \<and> output_frames s = output_frames s \<and> output_frames s \<noteq> 0)"
    using assms(2,3) by simp_all
  obtain m where m: "mapping_sliced (span_map s) 0 (k - 0) = Some m" "a = s\<lparr>span_map := m, output_frames := k - 0\<rparr>"
    by (rule for_output_range_slice [OF assms(4) no(1)])
  obtain m' where m': "mapping_sliced (span_map s) k (output_frames s - k) = Some m'"
      "b = s\<lparr>span_map := m', output_frames := output_frames s - k\<rparr>"
    by (rule for_output_range_slice [OF assms(5) no(2)])
  have "m = span_map s"
    using mapping_sliced_start [OF m(1)] assms(2) by simp
  moreover have "mapping_followed_by (span_map s) m' k = Some (span_map s)"
    using mapping_followed_by_slice [OF m'(1)] assms(3) by simp
  moreover have "s\<lparr>span_map := span_map s, output_frames := output_frames s\<rparr> = s"
    by (cases s) simp
  ultimately show ?thesis
    using assms(1,3) m(2) m'(2) by (simp add: followed_by_def span_ok_def checked_add_def)
qed

lemma inverse_exact:
  assumes "lawful_curves cv" "span_ok cv s" "source_inverse output_origin s = Some a" "output_origin \<le> u64_max"
    "source_ratio_at cv s k = Some p" "output_at a p = Some q"
  shows "q = (output_origin + k, 1)"
proof -
  obtain m f x y off where m: "span_map s = Rational m" "step_change m = 0" "0 < step m"
      "ratio_new (den m) (step m) = Some f" "ratio_new output_origin 1 = Some x" "ratio_new (num m) (step m) = Some y"
      "difference x y = Some off" "a = \<lparr>scale = f, offset = off\<rparr>"
    using assms(3) by (auto simp: source_inverse_def bind_eq_Some_conv split: mapping.splits if_splits)
  have ok: "rational_ok m" "output_frames s \<le> u64_max"
    using assms(2) m(1) by (simp_all add: span_ok_def)
  have b: "0 < den m" "den m \<le> u128_max" "num m \<le> u128_max" "step m \<le> u128_max" "output_origin \<le> u128_max" "(1 :: nat) \<le> u128_max"
    using ok(1) assms(4) by (auto simp: rational_ok_def u64_max_def u128_max_def)
  note f = ratio_new_exact [OF m(4) m(3) b(2,4)]
  note x = ratio_new_exact [OF m(5) zero_less_one b(5,6)]
  note y = ratio_new_exact [OF m(6) m(3) b(3,4)]
  note off = difference_exact [OF m(7) x(1) y(1)]
  have "rat_of f \<noteq> 0"
    using f(2) b(1) m(3) by simp
  then have "numerator f \<noteq> 0"
    using rat_of_zero [OF f(1)] by simp
  then have a: "affine_ok a" "affine_val a v = v * of_nat (den m) / of_nat (step m) + of_nat output_origin - of_nat (num m) / of_nat (step m)" for v
    using f off x(2) y(2) by (simp_all add: m(8) affine_ok_def affine_val_def)
  obtain r where r: "mapping_ratio_at cv (Rational m) k = Some r" "p = (numerator r, denominator r)" "k \<le> output_frames s"
    using assms(5) m(1) by (auto simp: source_ratio_at_def bind_eq_Some_conv split: if_splits)
  note rv = mapping_ratio_at_rational [OF r(1) ok(1)]
  obtain r' z where z: "ratio_new (numerator r) (denominator r) = Some r'" "affine_apply a r' = Some z"
      "q = (numerator z, denominator z)"
    using assms(6) r(2) by (auto simp: output_at_def bind_eq_Some_conv)
  have r': "ratio_ok r'" "rat_of r' = rational_val m k"
    using fraction_ratio [of "(numerator r, denominator r)" r'] z(1) ratio_fraction [of r] rv by (simp_all add: rat_of_def)
  have zv: "ratio_ok z" "rat_of z = of_nat (output_origin + k)"
  proof -
    have "rational_val m k * of_nat (den m) / of_nat (step m) = of_nat (num m) / of_nat (step m) + of_nat k"
      using b(1) m(2,3) by (simp add: rational_val_def units_at_def field_simps)
    then show "ratio_ok z" "rat_of z = of_nat (output_origin + k)"
      using affine_apply_exact [OF z(2) a(1) r'(1)] a(2) [of "rational_val m k"] r'(2) by simp_all
  qed
  have "z = \<lparr>numerator = output_origin + k, denominator = 1\<rparr>"
    using zv r(3) ok(2) assms(4) by (intro ratio_eqI) (simp_all add: ratio_ok_def rat_of_def u64_max_def u128_max_def)
  then show ?thesis
    using z(3) by simp
qed


subsection \<open>Properties\<close>

lemma q32_units_floor:
  assumes "ratio_ok x"
  shows "(of_nat (q32_units x) :: rat) = of_int \<lfloor>rat_of x * 2 ^ 32 + 1 / 2\<rfloor>"
proof -
  let ?n = "2 * (numerator x * 2 ^ 32) + denominator x" and ?d = "2 * denominator x"
  have "(of_nat ?n :: rat) / of_nat ?d = rat_of x * 2 ^ 32 + 1 / 2"
    using assms by (simp add: rat_of_def ratio_ok_def field_simps)
  then have "\<lfloor>rat_of x * 2 ^ 32 + 1 / 2\<rfloor> = int (?n div ?d)"
    using floor_divide_of_nat_eq [of ?n ?d, where 'a = rat] by simp
  then show ?thesis
    by (simp only: q32_units_def of_int_of_nat_eq)
qed

text \<open>C27: the arithmetic of source coordinates is exact and canonical: the binary divisor is the greatest
  common divisor; a sum or difference that is returned is the exact one, in lowest terms and within 128
  bits; a product is refused only when its reduced form does not fit; and rounding to the 2 ^ -32 lattice
  takes the nearest point, halves upwards.\<close>

theorem coordinates_are_exact:
  assumes "ratio_ok x" "ratio_ok y"
  shows "divisor a b = gcd a b
    \<and> (case ratio_add x y of Some r \<Rightarrow> ratio_ok r \<and> rat_of r = rat_of x + rat_of y | None \<Rightarrow> True)
    \<and> (case ratio_sub x y of Some r \<Rightarrow> ratio_ok r \<and> rat_of r = rat_of x - rat_of y | None \<Rightarrow> True)
    \<and> (ratio_mul x y = Some z \<longleftrightarrow> ratio_ok z \<and> rat_of z = rat_of x * rat_of y)
    \<and> (case nearest_q32 x of
         Some r \<Rightarrow> ratio_ok r \<and> rat_of r = of_int \<lfloor>rat_of x * 2 ^ 32 + 1 / 2\<rfloor> / 2 ^ 32 | None \<Rightarrow> True)"
proof -
  have "ratio_mul x y = Some z \<longleftrightarrow> ratio_ok z \<and> rat_of z = rat_of x * rat_of y"
    using ratio_mul_exact [of x y z] ratio_mul_complete [of x y z] assms by blast
  then show ?thesis
    using ratio_add_exact [of x y] ratio_sub_exact [of x y] nearest_q32_exact [of x] q32_units_floor [of x] assms
    by (auto split: option.splits)
qed

text \<open>C28: a span that was built is valid for good: whatever sequence of constructors and operations made it,
  its start and end are defined 64-bit frames, so the code never panics on them, and every coordinate
  it gives is a positive-denominator fraction in lowest terms within 128 bits.\<close>

theorem built_spans_are_valid:
  assumes "built cv s" "lawful_curves cv"
  shows "(\<exists>a b. span_start cv s = Some a \<and> span_end cv s = Some b \<and> a \<le> u64_max \<and> b \<le> u64_max)
    \<and> (case source_ratio_at cv s k of
         Some (n, d) \<Rightarrow> 0 < d \<and> coprime n d \<and> n \<le> u128_max \<and> d \<le> u128_max | None \<Rightarrow> True)"
proof -
  have ok: "span_ok cv s"
    by (rule built_ok [OF assms])
  have "ratio_ok r" if "mapping_ratio_at cv (span_map s) k = Some r" for r
    using mapping_ratio_at_ok [OF assms(2) _ that] ok by (simp add: span_ok_def)
  then show ?thesis
    using span_ok_ends [OF ok]
    by (auto simp: source_ratio_at_def bind_eq_Some_conv ratio_ok_def split: option.splits prod.splits if_splits)
qed

text \<open>A span built in any way, rational or exponential, encodes into 24 words of 64 bits and decodes to
  itself: nothing the encoding checks rejects a valid span, and nothing is rounded on the way.\<close>

lemma span_words_read_back:
  assumes "built cv s" "lawful_curves cv"
  shows "decode cv (encode cv s) = Some s \<and> length (encode cv s) = 24 \<and> list_all (\<lambda>w. w \<le> u64_max) (encode cv s)"
proof -
  have ok: "span_ok cv s"
    by (rule built_ok [OF assms])
  have "decode cv (encode cv s) = Some s"
    using decode_encode_rational [OF ok] decode_encode_approach [OF assms(2) ok] by (cases "span_map s") auto
  then show ?thesis
    using encode_words [OF assms(2) ok] by (simp add: list_all_iff)
qed

text \<open>A span over the source frames from \<open>lo\<close> to \<open>hi\<close> exists for every nonempty output interval, starts
  and ends exactly there, and in between every output frame has the coordinate on the straight line,
  with no overflow for any 64-bit bounds.\<close>

lemma new_span_is_linear:
  fixes cv :: "'a curves"
  assumes "lo \<le> hi" "hi \<le> u64_max" "0 < frames" "frames \<le> u64_max" "0 < rate" "rate \<le> u32_max" "k \<le> frames"
  shows "\<exists>s n d. span_new cv lo hi rate frames = Some s \<and> span_start cv s = Some lo \<and> span_end cv s = Some hi
    \<and> source_ratio_at cv s k = Some (n, d) \<and> 0 < d \<and> n * frames = (lo * frames + (hi - lo) * k) * d"
proof -
  obtain d p where dp: "span_new cv lo hi rate frames = span_affine cv (lo * d) p d rate frames"
    "0 < d" "d \<le> frames" "p \<le> hi" "p * frames = (hi - lo) * d"
    by (rule span_new_unfold [OF assms(1-4)])
  have le: "d \<le> u64_max"
    using dp(3) assms(4) by simp
  let ?m = "\<lparr>num = lo * d, den = d, step = p, step_change = 0\<rparr>"
  note line = line_validates [OF assms(1,2) dp(2) le dp(5) assms(3,4)]
  define s :: "'a span" where "s = \<lparr>sample_rate = rate, mapping_revision = None, span_map = Rational ?m,
    output_frames = frames, render_revision = 0\<rparr>"
  have s: "span_new cv lo hi rate frames = Some s" "span_start cv s = Some lo" "span_end cv s = Some hi"
    using line(1) [of cv] line(3) [of cv] line(4) [of cv] assms(3)
    by (simp_all add: dp(1) span_affine_def span_progression_def s_def span_start_def span_end_def Let_def)
  obtain r where r: "ratio_new (lo * d + p * k) d = Some r"
    using ratio_new_defined [OF dp(2)] by blast
  have at: "source_ratio_at cv s k = Some (numerator r, denominator r)"
    using line_numerator [OF assms(1,2) le dp(5) assms(4,7)] r assms(7)
    by (simp add: source_ratio_at_def s_def mapping_ratio_at_def)
  have "(of_nat (numerator r) :: rat) / of_nat (denominator r) = of_nat (lo * d + p * k) / of_nat d" "0 < denominator r"
    using ratio_new_Some [OF r dp(2)] by (simp_all add: rat_of_def)
  then have "(of_nat (numerator r * d) :: rat) = of_nat ((lo * d + p * k) * denominator r)"
    using dp(2) by (simp add: field_simps)
  then have eq: "numerator r * d = (lo * d + p * k) * denominator r"
    by (simp only: of_nat_eq_iff)
  have "numerator r * frames * d = numerator r * d * frames"
    by (simp only: ac_simps)
  also have "\<dots> = (lo * frames * d + p * frames * k) * denominator r"
    unfolding eq by (simp add: algebra_simps)
  also have "\<dots> = (lo * frames + (hi - lo) * k) * denominator r * d"
    by (simp only: dp(5)) (simp add: algebra_simps)
  finally have "numerator r * frames = (lo * frames + (hi - lo) * k) * denominator r"
    using dp(2) by simp
  then show ?thesis
    using s at \<open>0 < denominator r\<close> by blast
qed

text \<open>The position of a frame as a duration is the exact source time rounded down to a nanosecond:
  the digit-by-digit product with 10 ^ 9 and the separate seconds and nanoseconds lose nothing more.\<close>

lemma positions_truncate_once:
  assumes "built cv s" "lawful_curves cv" "position_at cv s k = Some t"
  shows "\<exists>n d. source_ratio_at cv s k = Some (n, d) \<and> t = n * 1000000000 div (d * sample_rate s)"
  using position_at_exact [OF assms(2) built_ok [OF assms(1,2)] assms(3)] .

text \<open>Slicing keeps the basis: a slice gives its frames the coordinates the whole span gives them, and
  the two slices of a span at an inner frame join to the span they were cut from.\<close>

lemma slices_keep_the_basis:
  assumes "built cv s" "lawful_curves cv" "0 < k" "k < output_frames s"
    "for_output_range cv 0 k s = Some a" "for_output_range cv k (output_frames s) s = Some b"
    "source_ratio_at cv b i = Some x" "source_ratio_at cv s (k + i) = Some y"
  shows "x = y \<and> followed_by cv a b = Some s"
proof -
  have ok: "span_ok cv s"
    by (rule built_ok [OF assms(1,2)])
  have "x = y"
    by (rule slice_exact [OF assms(2) ok assms(6,7,8)])
  moreover have "followed_by cv a b = Some s"
    by (rule slices_join [OF ok assms(3-6)])
  ultimately show ?thesis ..
qed

text \<open>The inverse of an affine span takes the source coordinate of an output frame back to that frame,
  exactly and in lowest terms, whenever the arithmetic stays within 128 bits.\<close>

lemma inverse_recovers_the_frame:
  assumes "built cv s" "lawful_curves cv" "output_origin \<le> u64_max"
    "source_ratio_at cv s k = Some p" "output_ratio_at_source output_origin p s = Some q"
  shows "q = (output_origin + k, 1)"
proof -
  obtain a where a: "source_inverse output_origin s = Some a" "output_at a p = Some q"
    using assms(5) by (auto simp: output_ratio_at_source_def bind_eq_Some_conv)
  show ?thesis
    by (rule inverse_exact [OF assms(2) built_ok [OF assms(1,2)] a(1) assms(3,4) a(2)])
qed

text \<open>C29: publishing a span through an affine clock composes the two clocks: the coordinate of a frame is the
  clock's line at the span's own coordinate, counted from the output origin and rescaled from one sample
  rate to the other; nothing is rounded in between.\<close>

theorem published_span_composes:
  assumes "built cv s" "built cv other" "lawful_curves cv" "output_origin \<le> u64_max"
    "map_output_span cv output_origin other s = Some t" "span_map s = Rational m"
    "source_ratio_at cv t k = Some (n, d)" "source_ratio_at cv other k = Some (i, j)"
  shows "(of_nat n / of_nat d :: rat)
    = (of_nat (num m) + of_nat (step m) * (of_nat i / of_nat j - of_nat output_origin)) / of_nat (den m)
        * of_nat (sample_rate other) / of_nat (sample_rate s)"
proof -
  have ok: "span_ok cv s" "span_ok cv other"
    using built_ok assms(1-3) by blast+
  obtain x where x: "mapping_ratio_at cv (span_map t) k = Some x" "n = numerator x" "d = denominator x"
    using assms(7) by (auto simp: source_ratio_at_def bind_eq_Some_conv split: if_splits)
  obtain y where y: "mapping_ratio_at cv (span_map other) k = Some y" "i = numerator y" "j = denominator y"
    using assms(8) by (auto simp: source_ratio_at_def bind_eq_Some_conv split: if_splits)
  show ?thesis
    using map_output_span_exact(2) [OF assms(3) ok assms(5,4)] assms(6) x y by (auto simp: affine_line_def rat_of_def)
qed

subsection \<open>A small span\<close>

text \<open>Forty-eight source frames from frame ten over thirty-two output frames, with a curve that is constantly one.\<close>

definition demo_curves :: "unit curves" where
  "demo_curves = \<lparr>target_of = (\<lambda>c. (1, 0)), transient_of = (\<lambda>c k. Some (False, 0, 0)),
     bits_of = (\<lambda>c. (0, 0, 0)), of_bits = (\<lambda>b. Some ())\<rparr>"

definition demo_rational :: "nat \<Rightarrow> rational" where
  "demo_rational n = \<lparr>num = n, den = 2, step = 3, step_change = 0\<rparr>"

definition demo_span :: "unit span" where
  "demo_span = \<lparr>sample_rate = 48000, mapping_revision = None, span_map = Rational (demo_rational 20),
     output_frames = 32, render_revision = 0\<rparr>"

lemmas span_eval = span_new_def span_affine_def span_progression_def mapping_validate_def mapping_ratio_at_def numerator_at_def
  step_at_def ratio_new_def source_frame_def checked_sub_def checked_add_def checked_mul_def u128_max_def u64_max_def
  nonzero_def Let_def

lemma demo_lawful_curves: "lawful_curves demo_curves"
  by (simp add: lawful_curves_def demo_curves_def u64_max_def)

lemma demo_gcds: "gcd 48 (32 :: nat) = 16" "gcd 20 (2 :: nat) = 2" "gcd 116 (2 :: nat) = 2" "gcd 35 (2 :: nat) = 1"
  by (simp_all add: gcd_nat.simps)

lemma demo_span_new: "span_new demo_curves 10 58 48000 32 = Some demo_span"
  by (simp add: span_eval demo_gcds demo_span_def demo_rational_def)

lemma demo_built: "built demo_curves demo_span"
  by (rule built.new [OF demo_span_new]) (simp_all add: u64_max_def u32_max_def)


text \<open>The frame at sixteen, the two halves, the span moved to another origin and published through itself.\<close>

definition demo_half :: "nat \<Rightarrow> unit span" where
  "demo_half n = demo_span\<lparr>span_map := Rational (demo_rational n), output_frames := 16\<rparr>"

lemma demo_frame: "source_ratio_at demo_curves demo_span 16 = Some (34, 1)"
  by (simp add: source_ratio_at_def demo_span_def demo_rational_def span_eval gcd_nat.simps)

lemma demo_slices:
  "for_output_range demo_curves 0 16 demo_span = Some (demo_half 20)"
  "for_output_range demo_curves 16 32 demo_span = Some (demo_half 68)"
  by (simp_all add: for_output_range_def mapping_sliced_def rational_sliced_def demo_span_def demo_half_def demo_rational_def
      span_eval gcd_nat.simps)

lemma demo_half_frame: "source_ratio_at demo_curves (demo_half 68) 5 = Some (83, 2)"
    "source_ratio_at demo_curves demo_span 21 = Some (83, 2)"
  by (simp_all add: source_ratio_at_def demo_half_def demo_span_def demo_rational_def span_eval gcd_nat.simps)

lemma demo_position: "position_at demo_curves demo_span 16 = Some 708333"
proof -
  have "sample_rate demo_span = 48000"
    by (simp add: demo_span_def)
  then show ?thesis
    by (simp add: position_at_def demo_frame try_u64_def try_u32_def u64_max_def u32_max_def
      fractional_nanos_exact Let_def)
qed

lemma demo_inverse: "output_ratio_at_source 7 (34, 1) demo_span = Some (23, 1)"
  by (simp add: output_ratio_at_source_def source_inverse_def output_at_def affine_apply_def offset_apply_def
      difference_def common_denominator_def at_denominator_def ratio_add_def ratio_sub_def ratio_mul_def combine_def
      demo_span_def demo_rational_def span_eval gcd_nat.simps)


definition demo_published :: "unit span" where
  "demo_published = demo_span\<lparr>span_map := Rational \<lparr>num = 100, den = 4, step = 9, step_change = 0\<rparr>\<rparr>"

lemmas map_eval = map_output_span_def affine_basis_def scaled_from_def affine_new_def mapping_transformed_def
  rational_transformed_def transformed_step_change_def affine_apply_def affine_scale_def offset_apply_def
  difference_def common_denominator_def at_denominator_def ratio_add_def ratio_sub_def ratio_mul_def combine_def
  span_eval gcd_nat.simps

lemma demo_map: "map_output_span demo_curves 0 demo_span demo_span = Some demo_published"
  by (simp add: map_eval i128_max_def demo_span_def demo_published_def demo_rational_def)

lemma demo_published_frame: "source_ratio_at demo_curves demo_published 16 = Some (61, 1)"
  by (simp add: source_ratio_at_def demo_published_def demo_span_def span_eval gcd_nat.simps)

lemma demo_map_is: "span_map demo_span = Rational (demo_rational 20)"
  by (simp add: demo_span_def)

theorem coordinates_are_exact_witness:
  "divisor 12 18 = gcd 12 18
    \<and> (case ratio_add \<lparr>numerator = 1, denominator = 2\<rparr> \<lparr>numerator = 1, denominator = 3\<rparr> of
        Some r \<Rightarrow> ratio_ok r \<and> rat_of r = rat_of \<lparr>numerator = 1, denominator = 2\<rparr> + rat_of \<lparr>numerator = 1, denominator = 3\<rparr>
      | None \<Rightarrow> True)
    \<and> (case ratio_sub \<lparr>numerator = 1, denominator = 2\<rparr> \<lparr>numerator = 1, denominator = 3\<rparr> of
        Some r \<Rightarrow> ratio_ok r \<and> rat_of r = rat_of \<lparr>numerator = 1, denominator = 2\<rparr> - rat_of \<lparr>numerator = 1, denominator = 3\<rparr>
      | None \<Rightarrow> True)
    \<and> (ratio_mul \<lparr>numerator = 1, denominator = 2\<rparr> \<lparr>numerator = 1, denominator = 3\<rparr> = Some \<lparr>numerator = 1, denominator = 6\<rparr>
       \<longleftrightarrow> ratio_ok \<lparr>numerator = 1, denominator = 6\<rparr>
         \<and> rat_of \<lparr>numerator = 1, denominator = 6\<rparr> = rat_of \<lparr>numerator = 1, denominator = 2\<rparr> * rat_of \<lparr>numerator = 1, denominator = 3\<rparr>)
    \<and> (case nearest_q32 \<lparr>numerator = 1, denominator = 2\<rparr> of
        Some r \<Rightarrow> ratio_ok r \<and> rat_of r = of_int \<lfloor>rat_of \<lparr>numerator = 1, denominator = 2\<rparr> * 2 ^ 32 + 1 / 2\<rfloor> / 2 ^ 32
      | None \<Rightarrow> True)"
  by (rule coordinates_are_exact) (simp_all add: ratio_ok_def u128_max_def)

theorem built_spans_are_valid_witness:
  "(\<exists>a b. span_start demo_curves demo_span = Some a \<and> span_end demo_curves demo_span = Some b \<and> a \<le> u64_max \<and> b \<le> u64_max)
    \<and> (case source_ratio_at demo_curves demo_span 16 of
         Some (n, d) \<Rightarrow> 0 < d \<and> coprime n d \<and> n \<le> u128_max \<and> d \<le> u128_max | None \<Rightarrow> True)"
  by (rule built_spans_are_valid [OF demo_built demo_lawful_curves])

theorem published_span_composes_witness:
  "(of_nat 61 / of_nat 1 :: rat)
    = (of_nat (num (demo_rational 20)) + of_nat (step (demo_rational 20)) * (of_nat 34 / of_nat 1 - of_nat 0))
        / of_nat (den (demo_rational 20)) * of_nat (sample_rate demo_span) / of_nat (sample_rate demo_span)"
  by (rule published_span_composes [OF demo_built demo_built demo_lawful_curves _ demo_map demo_map_is demo_published_frame demo_frame])
     (simp add: u64_max_def)

end
