(* ===== verification/Gapless.thy ===== *)
theory Gapless
  imports Signal_Time Source_Span
begin

text \<open>
  Gapless trimming of decoded audio (\<open>crates/kithara-decode/src/gapless/trimmer\<close>): a stream of
  chunks loses its encoder priming at the front and its padding at the end, whatever the chunks it
  arrives in.  The padding can only be cut when the end is known, so the trimmer holds back that many
  frames.  Of a chunk (\<open>crates/kithara-signal/src/chunk/audio.rs\<close>) the model keeps the samples and
  the fields the trimmer reads or writes; the raised cosine of the fade, a product of floats, is a
  parameter.
\<close>

subsection \<open>Chunks\<close>

record ('s, 'c) chunk =
  samples :: "'s list"
  spec :: audio_spec
  frame_offset :: nat
  meta_frames :: nat
  timestamp :: duration
  end_timestamp :: duration
  source_span :: "'c span option"

datatype decode_error = InvalidGeometry

definition chunk_frames :: "('s, 'c, 'm) chunk_scheme \<Rightarrow> nat" where
  "chunk_frames c = (if channels (spec c) = 0 then 0 else length (samples c) div channels (spec c))"

definition validate_geometry :: "('s, 'c) chunk \<Rightarrow> (decode_error, unit) result" where
  "validate_geometry c =
     (case source_span c of
        Some s \<Rightarrow>
          if output_frames s \<noteq> chunk_frames c \<or> meta_frames c \<noteq> chunk_frames c then Inl InvalidGeometry else Inr ()
      | None \<Rightarrow> Inr ())"

text \<open>Whether the chunk is mapped, with its span, start and end those of the range of its frames.\<close>

definition trim_source_span ::
    "'c curves \<Rightarrow> nat \<Rightarrow> nat \<Rightarrow> ('s, 'c) chunk \<Rightarrow> (decode_error, bool \<times> ('s, 'c) chunk) result" where
  "trim_source_span cv lo hi c =
     (case source_span c of
        None \<Rightarrow> Inr (False, c)
      | Some s \<Rightarrow>
          res_bind (validate_geometry c) (\<lambda>_.
          res_bind (ok_or InvalidGeometry (for_output_range cv lo hi s)) (\<lambda>s.
          res_bind (ok_or InvalidGeometry (position_at cv s 0)) (\<lambda>t.
          res_bind (ok_or InvalidGeometry (position_at cv s (output_frames s))) (\<lambda>e.
            Inr (True, c\<lparr>source_span := Some s, timestamp := t, end_timestamp := e\<rparr>))))))"

definition to_u32 :: "nat \<Rightarrow> nat" where
  "to_u32 n = (if n \<le> u32_max then n else u32_max)"

definition trim_chunk_start :: "'c curves \<Rightarrow> nat \<Rightarrow> ('s, 'c) chunk \<Rightarrow> (decode_error, ('s, 'c) chunk) result" where
  "trim_chunk_start cv n c =
     res_bind (trim_source_span cv n (chunk_frames c) c) (\<lambda>(mapped, c).
       let chans = max 1 (channels (spec c));
           trim_samples = sat_mul usize_max n chans;
           original_offset = frame_offset c;
           kept = take (length (samples c) - trim_samples) (drop trim_samples (samples c));
           c = c\<lparr>samples := kept, frame_offset := sat_add u64_max original_offset n,
                 meta_frames := to_u32 (length kept div chans)\<rparr>
       in if mapped then Inr c
          else
            let trim_duration =
                  (case res_bind (duration_for (spec c) (frame_offset c)) (\<lambda>e.
                          res_bind (duration_for (spec c) original_offset) (\<lambda>s. Inr (e - s))) of
                     Inr d \<Rightarrow> d | Inl _ \<Rightarrow> u64_max)
            in Inr (c\<lparr>timestamp := sat_add duration_max (timestamp c) trim_duration\<rparr>))"

definition trim_chunk_end :: "'c curves \<Rightarrow> nat \<Rightarrow> ('s, 'c) chunk \<Rightarrow> (decode_error, ('s, 'c) chunk) result" where
  "trim_chunk_end cv n c =
     (let chans = max 1 (channels (spec c));
          keep_frames = chunk_frames c - n;
          keep_samples = sat_mul usize_max keep_frames chans
      in res_bind (trim_source_span cv 0 keep_frames c) (\<lambda>(mapped, c).
           Inr (c\<lparr>samples := take keep_samples (samples c), meta_frames := to_u32 keep_frames\<rparr>)))"

text \<open>The chunk that is left and the frames still to trim.\<close>

definition trim_leading ::
    "'c curves \<Rightarrow> ('s, 'c) chunk \<Rightarrow> nat \<Rightarrow> (decode_error, ('s, 'c) chunk option) result \<times> nat" where
  "trim_leading cv c leading =
     (if 0 < leading
      then if chunk_frames c \<le> leading then (Inr None, leading - chunk_frames c)
           else (map_sum id Some (trim_chunk_start cv leading c), 0)
      else (Inr (Some c), leading))"

subsection \<open>The tail that is held back\<close>

record ('s, 'c) buffered_chunks =
  chunks :: "('s, 'c) chunk list"
  buffered :: nat

definition buffer_empty :: "('s, 'c) buffered_chunks" where
  "buffer_empty = \<lparr>chunks = [], buffered = 0\<rparr>"

definition buffer_push :: "('s, 'c) chunk \<Rightarrow> ('s, 'c) buffered_chunks \<Rightarrow> ('s, 'c) buffered_chunks" where
  "buffer_push c b = \<lparr>chunks = chunks b @ [c], buffered = sat_add u64_max (buffered b) (chunk_frames c)\<rparr>"

fun release_scan :: "nat \<Rightarrow> nat \<Rightarrow> ('s, 'c) chunk list \<Rightarrow> nat \<times> nat" where
  "release_scan trailing remaining [] = (0, remaining)"
| "release_scan trailing remaining (c # cs) =
     (let next_remaining = remaining - chunk_frames c
      in if next_remaining < trailing then (0, remaining)
         else case release_scan trailing next_remaining cs of (n, r) \<Rightarrow> (Suc n, r))"

definition buffer_release :: "nat \<Rightarrow> ('s, 'c) buffered_chunks \<Rightarrow> ('s, 'c) chunk list \<times> ('s, 'c) buffered_chunks" where
  "buffer_release trailing b =
     (case release_scan trailing (buffered b) (chunks b) of
        (n, remaining) \<Rightarrow> (take n (chunks b), \<lparr>chunks = drop n (chunks b), buffered = remaining\<rparr>))"

text \<open>The chunks are given latest first.\<close>

fun trim_back ::
    "'c curves \<Rightarrow> nat \<Rightarrow> ('s, 'c) chunk list \<Rightarrow> nat
      \<Rightarrow> (decode_error, unit) result \<times> ('s, 'c) chunk list \<times> nat" where
  "trim_back cv drop_frames [] frames = (Inr (), [], frames)"
| "trim_back cv drop_frames (c # cs) frames =
     (if drop_frames = 0 then (Inr (), c # cs, frames)
      else if chunk_frames c \<le> drop_frames
      then trim_back cv (drop_frames - chunk_frames c) cs (frames - chunk_frames c)
      else case trim_chunk_end cv drop_frames c of
             Inl e \<Rightarrow> (Inl e, c # cs, frames)
           | Inr c \<Rightarrow> (Inr (), c # cs, frames - drop_frames))"

definition buffer_trim ::
    "'c curves \<Rightarrow> nat \<Rightarrow> ('s, 'c) buffered_chunks \<Rightarrow> (decode_error, unit) result \<times> ('s, 'c) buffered_chunks" where
  "buffer_trim cv trim_frames b =
     (case trim_back cv (min trim_frames (buffered b)) (rev (chunks b)) (buffered b) of
        (x, cs, frames) \<Rightarrow> (x, \<lparr>chunks = rev cs, buffered = frames\<rparr>))"

subsection \<open>The fade after estimated priming\<close>

record fade_in =
  applied_frames :: nat
  total_frames :: nat

definition FADE_IN_DURATION_MS :: nat where
  "FADE_IN_DURATION_MS = 3"

definition u16_max :: nat where
  "u16_max = 65535"

definition fade_for_sample_rate :: "nat \<Rightarrow> fade_in" where
  "fade_for_sample_rate rate =
     \<lparr>applied_frames = 0,
      total_frames = min (max (sat_mul u64_max (max 1 rate) FADE_IN_DURATION_MS div 1000) 1) u16_max\<rparr>"

definition fade_done :: "fade_in \<Rightarrow> bool" where
  "fade_done f \<longleftrightarrow> total_frames f \<le> applied_frames f"

text \<open>\<open>shape k n x\<close> is the sample \<open>x\<close> with the gain of frame \<open>k\<close> of a fade of \<open>n\<close> frames; only whole
  frames of the prefix are shaped.\<close>

definition fade_apply ::
    "(nat \<Rightarrow> nat \<Rightarrow> 's \<Rightarrow> 's) \<Rightarrow> fade_in \<Rightarrow> ('s, 'c) chunk \<Rightarrow> fade_in \<times> ('s, 'c) chunk" where
  "fade_apply shape f c =
     (if fade_done f \<or> chunk_frames c = 0 then (f, c)
      else
        let chans = max 1 (channels (spec c));
            remaining = total_frames f - applied_frames f;
            to_shape = min remaining (min (chunk_frames c) u16_max);
            prefix_len = min (to_shape * chans) (length (samples c));
            whole = prefix_len div chans * chans;
            gained = map (\<lambda>(i, x). shape (applied_frames f + i div chans) (max 1 (total_frames f)) x)
                       (enumerate 0 (take whole (samples c)))
        in (f\<lparr>applied_frames := applied_frames f + to_shape\<rparr>, c\<lparr>samples := gained @ drop whole (samples c)\<rparr>))"

definition apply_fade_in ::
    "(nat \<Rightarrow> nat \<Rightarrow> 's \<Rightarrow> 's) \<Rightarrow> fade_in option \<Rightarrow> ('s, 'c) chunk \<Rightarrow> fade_in option \<times> ('s, 'c) chunk" where
  "apply_fade_in shape fade c =
     (case fade of
        None \<Rightarrow> (None, c)
      | Some f \<Rightarrow> (case fade_apply shape f c of (f, c) \<Rightarrow> (if fade_done f then None else Some f, c)))"

subsection \<open>The trimmer\<close>

record gapless_info =
  leading_frames :: nat
  trailing_frames :: nat

datatype trim_mode = Disabled | Fixed nat "fade_in option"

text \<open>\<open>tail_compensation\<close> is the ideal number of decoded frames before the trim.\<close>

record ('s, 'c) trimmer =
  mode :: trim_mode
  tail_compensation :: "nat option"
  tail_buffer :: "('s, 'c) buffered_chunks"
  input_frames_seen :: nat
  held_back :: nat

definition for_source_frames :: "nat \<Rightarrow> nat \<Rightarrow> nat \<Rightarrow> nat option" where
  "for_source_frames source_frames source_rate output_rate =
     (if source_rate = 0 \<or> output_rate = 0 then None
      else let ideal = (source_frames * output_rate + (source_rate - 1)) div source_rate
           in if ideal \<le> u64_max then Some ideal else None)"

definition deficit_frames :: "nat \<Rightarrow> nat \<Rightarrow> nat" where
  "deficit_frames ideal actual = ideal - actual"

definition trimmer_disabled :: "('s, 'c) trimmer" where
  "trimmer_disabled =
     \<lparr>mode = Disabled, tail_compensation = None, tail_buffer = buffer_empty, input_frames_seen = 0, held_back = 0\<rparr>"

definition codec_priming :: "nat \<Rightarrow> nat \<Rightarrow> ('s, 'c) trimmer" where
  "codec_priming leading rate =
     (if leading = 0 then trimmer_disabled
      else trimmer_disabled\<lparr>mode := Fixed leading (Some (fade_for_sample_rate rate))\<rparr>)"

definition trimmer_of_info :: "gapless_info \<Rightarrow> ('s, 'c) trimmer" where
  "trimmer_of_info info =
     \<lparr>mode = (if 0 < leading_frames info \<or> 0 < trailing_frames info then Fixed (leading_frames info) None else Disabled),
      tail_compensation = None, tail_buffer = buffer_empty, input_frames_seen = 0,
      held_back = trailing_frames info\<rparr>"

definition compensated_trailing_frames :: "('s, 'c) trimmer \<Rightarrow> nat" where
  "compensated_trailing_frames t =
     (case tail_compensation t of
        None \<Rightarrow> held_back t
      | Some ideal \<Rightarrow> held_back t - min (deficit_frames ideal (input_frames_seen t)) 1)"

definition trimmer_flush ::
    "'c curves \<Rightarrow> ('s, 'c) trimmer \<Rightarrow> (decode_error, ('s, 'c) chunk list) result \<times> ('s, 'c) trimmer" where
  "trimmer_flush cv t =
     (case mode t of
        Disabled \<Rightarrow> (Inr [], t)
      | Fixed _ _ \<Rightarrow> (case buffer_trim cv (compensated_trailing_frames t) (tail_buffer t) of
          (Inl e, b) \<Rightarrow> (Inl e, t\<lparr>tail_buffer := b\<rparr>)
        | (Inr _, b) \<Rightarrow> (Inr (chunks b), t\<lparr>tail_buffer := buffer_empty\<rparr>)))"

definition notify_seek :: "('s, 'c) trimmer \<Rightarrow> ('s, 'c) trimmer" where
  "notify_seek t =
     t\<lparr>mode := (case mode t of Disabled \<Rightarrow> Disabled | Fixed _ _ \<Rightarrow> Fixed 0 None),
       tail_compensation := None, input_frames_seen := 0, tail_buffer := buffer_empty\<rparr>"

definition trimmer_push ::
    "'c curves \<Rightarrow> (nat \<Rightarrow> nat \<Rightarrow> 's \<Rightarrow> 's) \<Rightarrow> ('s, 'c) chunk \<Rightarrow> ('s, 'c) trimmer
      \<Rightarrow> (decode_error, ('s, 'c) chunk list) result \<times> ('s, 'c) trimmer" where
  "trimmer_push cv shape c t =
     (case validate_geometry c of
        Inl e \<Rightarrow> (Inl e, t)
      | Inr _ \<Rightarrow> (case mode t of
          Disabled \<Rightarrow> (Inr [c], t)
        | Fixed leading fade \<Rightarrow>
            let t = t\<lparr>input_frames_seen := sat_add u64_max (input_frames_seen t) (chunk_frames c)\<rparr>
            in (case trim_leading cv c leading of
                 (Inl e, leading) \<Rightarrow> (Inl e, t\<lparr>mode := Fixed leading fade\<rparr>)
               | (Inr None, leading) \<Rightarrow> (Inr [], t\<lparr>mode := Fixed leading fade\<rparr>)
               | (Inr (Some c), leading) \<Rightarrow>
                   if chunk_frames c = 0 then (Inr [], t\<lparr>mode := Fixed leading fade\<rparr>)
                   else (case apply_fade_in shape fade c of
                     (fade, c) \<Rightarrow> (case buffer_release (held_back t) (buffer_push c (tail_buffer t)) of
                       (ready, b) \<Rightarrow> (Inr ready, t\<lparr>mode := Fixed leading fade, tail_buffer := b\<rparr>))))))"

subsection \<open>Whole frames\<close>

text \<open>A chunk of whole frames of \<open>n\<close> channels, of the size its metadata says.\<close>

definition chunk_ok :: "nat \<Rightarrow> ('s, 'c) chunk \<Rightarrow> bool" where
  "chunk_ok n c \<longleftrightarrow> channels (spec c) = n \<and> length (samples c) = chunk_frames c * n \<and> meta_frames c = chunk_frames c
     \<and> chunk_frames c \<le> u32_max \<and> length (samples c) \<le> usize_max \<and> frame_offset c + chunk_frames c \<le> u64_max"

definition pcm :: "('s, 'c) chunk list \<Rightarrow> 's list" where
  "pcm cs = concat (map samples cs)"

definition total :: "('s, 'c) chunk list \<Rightarrow> nat" where
  "total cs = sum_list (map chunk_frames cs)"

text \<open>The chunks follow each other on the frames of the track.\<close>

fun timeline :: "nat \<Rightarrow> ('s, 'c) chunk list \<Rightarrow> bool" where
  "timeline frame [] \<longleftrightarrow> True"
| "timeline frame (c # cs) \<longleftrightarrow> frame_offset c = frame \<and> timeline (frame + chunk_frames c) cs"

lemma pcm_simps [simp]: "pcm [] = []" "pcm (c # cs) = samples c @ pcm cs" "pcm (xs @ ys) = pcm xs @ pcm ys"
  by (simp_all add: pcm_def)

lemma total_simps [simp]: "total [] = 0" "total (c # cs) = chunk_frames c + total cs" "total (xs @ ys) = total xs + total ys"
  by (simp_all add: total_def)

lemma timeline_append [simp]: "timeline k (xs @ ys) \<longleftrightarrow> timeline k xs \<and> timeline (k + total xs) ys"
  by (induction xs arbitrary: k) (auto simp: add.assoc)

lemma length_pcm: "list_all (chunk_ok n) cs \<Longrightarrow> length (pcm cs) = total cs * n"
  by (induction cs) (simp_all add: chunk_ok_def add_mult_distrib)

lemma frames_of_length: "0 < channels (spec c) \<Longrightarrow> length (samples c) = k * channels (spec c) \<Longrightarrow> chunk_frames c = k"
  by (simp add: chunk_frames_def)

lemma trim_source_span_fields:
  assumes "trim_source_span cv lo hi c = Inr (m, c')"
  shows "samples c' = samples c \<and> spec c' = spec c \<and> frame_offset c' = frame_offset c \<and> meta_frames c' = meta_frames c
    \<and> chunk_frames c' = chunk_frames c"
  using assms by (auto simp: trim_source_span_def res_bind_Inr chunk_frames_def split: option.splits)

lemma trim_chunk_start_ok:
  assumes "trim_chunk_start cv k c = Inr c'" "chunk_ok n c" "0 < n" "k < chunk_frames c"
  shows "chunk_ok n c' \<and> samples c' = drop (k * n) (samples c) \<and> chunk_frames c' = chunk_frames c - k
    \<and> frame_offset c' = frame_offset c + k"
proof -
  obtain m d where d: "trim_source_span cv k (chunk_frames c) c = Inr (m, d)"
    using assms(1) by (auto simp: trim_chunk_start_def res_bind_Inr)
  note fields = trim_source_span_fields [OF d]
  have n: "channels (spec c) = n" and len: "length (samples c) = chunk_frames c * n"
    and fits: "chunk_frames c * n \<le> usize_max" "chunk_frames c \<le> u32_max" "frame_offset c + chunk_frames c \<le> u64_max"
    using assms(2) by (simp_all add: chunk_ok_def)
  have "k * n \<le> usize_max"
    using mult_le_mono [of k "chunk_frames c" n n] assms(4) fits(1) by linarith
  then have trim: "sat_mul usize_max k (max 1 n) = k * n" and keep: "sat_add u64_max (frame_offset c) k = frame_offset c + k"
    using assms(3,4) fits(3) by (simp_all add: sat_mul_def sat_add_def max_def)
  have rest: "length (drop (k * n) (samples c)) = (chunk_frames c - k) * n"
    by (simp add: len diff_mult_distrib)
  then have all: "take (length (samples c) - k * n) (drop (k * n) (samples c)) = drop (k * n) (samples c)"
    by (simp add: len)
  have "chunk_frames c - k \<le> u32_max"
    using fits(2) by linarith
  then have div: "(chunk_frames c - k) * n div max 1 n = chunk_frames c - k" "to_u32 (chunk_frames c - k) = chunk_frames c - k"
    using assms(3) fits(2) by (simp_all add: max_def to_u32_def)
  have "samples c' = drop (k * n) (samples c) \<and> spec c' = spec c \<and> frame_offset c' = frame_offset c + k
      \<and> meta_frames c' = chunk_frames c - k"
    using assms(1) d fields n trim keep rest all div
    by (auto simp: trim_chunk_start_def Let_def split: if_splits)
  moreover from this have "chunk_frames c' = chunk_frames c - k"
    using frames_of_length [of c' "chunk_frames c - k"] n assms(3) rest by simp
  ultimately show ?thesis
    using n fits rest assms(4) len by (auto simp: chunk_ok_def)
qed

lemma trim_chunk_end_ok:
  assumes "trim_chunk_end cv k c = Inr c'" "chunk_ok n c" "0 < n" "k \<le> chunk_frames c"
  shows "chunk_ok n c' \<and> samples c' = take ((chunk_frames c - k) * n) (samples c) \<and> chunk_frames c' = chunk_frames c - k
    \<and> frame_offset c' = frame_offset c"
proof -
  obtain m d where d: "trim_source_span cv 0 (chunk_frames c - k) c = Inr (m, d)"
    using assms(1) by (auto simp: trim_chunk_end_def res_bind_Inr Let_def)
  note fields = trim_source_span_fields [OF d]
  have n: "channels (spec c) = n" and len: "length (samples c) = chunk_frames c * n"
    and fits: "chunk_frames c * n \<le> usize_max" "chunk_frames c \<le> u32_max" "frame_offset c + chunk_frames c \<le> u64_max"
    using assms(2) by (simp_all add: chunk_ok_def)
  have le: "(chunk_frames c - k) * n \<le> chunk_frames c * n"
    by (intro mult_le_mono) simp_all
  then have small: "(chunk_frames c - k) * n \<le> usize_max"
    using fits(1) by linarith
  then have keep: "sat_mul usize_max (chunk_frames c - k) (max 1 n) = (chunk_frames c - k) * n"
    using assms(3) by (simp add: sat_mul_def max_def)
  have rest: "length (take ((chunk_frames c - k) * n) (samples c)) = (chunk_frames c - k) * n"
    using le by (simp add: len)
  have "samples c' = take ((chunk_frames c - k) * n) (samples c) \<and> spec c' = spec c \<and> frame_offset c' = frame_offset c
      \<and> meta_frames c' = chunk_frames c - k"
    using assms(1) d fields n keep fits(2) by (auto simp: trim_chunk_end_def Let_def to_u32_def)
  moreover from this have "chunk_frames c' = chunk_frames c - k"
    using frames_of_length [of c' "chunk_frames c - k"] n assms(3) rest by simp
  ultimately show ?thesis
    using n fits rest le small by (auto simp: chunk_ok_def)
qed

lemma release_scan_spec:
  assumes "release_scan trailing (total cs) cs = (k, r)"
  shows "k \<le> length cs \<and> r = total (drop k cs) \<and> (0 < k \<longrightarrow> trailing \<le> r)
    \<and> (case drop k cs of [] \<Rightarrow> True | c # rest \<Rightarrow> total rest < trailing)"
  using assms
proof (induction cs arbitrary: k)
  case (Cons c cs)
  show ?case
  proof (cases "total cs < trailing")
    case True
    then show ?thesis
      using Cons.prems by (auto simp: Let_def)
  next
    case False
    then obtain j where j: "release_scan trailing (total cs) cs = (j, r)" "k = Suc j"
      using Cons.prems by (auto simp: Let_def split: prod.splits)
    show ?thesis
      using Cons.IH [OF j(1)] j(2) False by (cases j) auto
  qed
qed simp

lemma buffer_release_spec:
  assumes "buffer_release trailing b = (ready, b')" "buffered b = total (chunks b)"
  shows "ready @ chunks b' = chunks b \<and> buffered b' = total (chunks b') \<and> (ready \<noteq> [] \<longrightarrow> trailing \<le> buffered b')
    \<and> (case chunks b' of [] \<Rightarrow> True | c # rest \<Rightarrow> total rest < trailing)"
proof -
  obtain k r where k: "release_scan trailing (total (chunks b)) (chunks b) = (k, r)"
    by fastforce
  then show ?thesis
    using release_scan_spec [OF k] assms by (auto simp: buffer_release_def)
qed

lemma trim_back_spec:
  assumes "trim_back cv k (rev cs) (total cs) = (Inr u, ds, frames)" "list_all (chunk_ok n) cs" "0 < n" "k \<le> total cs"
  shows "list_all (chunk_ok n) ds \<and> total ds = total cs - k \<and> frames = total ds
    \<and> pcm (rev ds) = take ((total cs - k) * n) (pcm cs) \<and> (timeline off cs \<longrightarrow> timeline off (rev ds))"
  using assms
proof (induction cs arbitrary: k rule: rev_induct)
  case Nil
  then show ?case by auto
next
  case (snoc c cs)
  have c: "chunk_ok n c" and cs: "list_all (chunk_ok n) cs"
    using snoc.prems(2) by simp_all
  have len: "length (pcm cs) = total cs * n" "length (samples c) = chunk_frames c * n"
    using length_pcm [OF cs] c by (simp_all add: chunk_ok_def)
  consider "k = 0" | "0 < k" "chunk_frames c \<le> k" | "k < chunk_frames c" "0 < k"
    by linarith
  then show ?case
  proof cases
    case 1
    then have "ds = rev (cs @ [c])" "frames = total (cs @ [c])"
      using snoc.prems(1) by simp_all
    then show ?thesis
      using snoc.prems(2) len 1 by (simp add: total_def rev_map [symmetric] sum_list_rev add_mult_distrib)
  next
    case 2
    then have "trim_back cv (k - chunk_frames c) (rev cs) (total cs) = (Inr u, ds, frames)"
      using snoc.prems(1) by simp
    moreover have "k - chunk_frames c \<le> total cs"
      using snoc.prems(4) by simp
    ultimately have *: "list_all (chunk_ok n) ds \<and> total ds = total cs - (k - chunk_frames c) \<and> frames = total ds
        \<and> pcm (rev ds) = take ((total cs - (k - chunk_frames c)) * n) (pcm cs) \<and> (timeline off cs \<longrightarrow> timeline off (rev ds))"
      using snoc.IH cs snoc.prems(3) by blast
    have "total cs - (k - chunk_frames c) = total (cs @ [c]) - k"
      using 2 by simp
    moreover have "(total cs + chunk_frames c - k) * n \<le> total cs * n"
      using 2 by (intro mult_le_mono) simp_all
    ultimately show ?thesis
      using * len by simp
  next
    case 3
    then obtain d where d: "trim_chunk_end cv k c = Inr d" "ds = d # rev cs" "frames = total (cs @ [c]) - k"
      using snoc.prems(1) by (auto split: sum.splits)
    note d_ok = trim_chunk_end_ok [OF d(1) c snoc.prems(3)]
    have eq: "total (cs @ [c]) - k = total cs + (chunk_frames c - k)"
      using 3 by simp
    have "pcm (rev ds) = pcm cs @ take ((chunk_frames c - k) * n) (samples c)"
      using d_ok 3 by (simp add: d(2))
    moreover have "take ((total cs + (chunk_frames c - k)) * n) (pcm (cs @ [c])) = pcm cs @ take ((chunk_frames c - k) * n) (samples c)"
      using len by (simp add: add_mult_distrib)
    moreover have "total (rev cs) = total cs"
      by (simp add: total_def rev_map [symmetric] sum_list_rev)
    ultimately have "pcm (rev ds) = take ((total (cs @ [c]) - k) * n) (pcm (cs @ [c]))" "total ds = total (cs @ [c]) - k"
      unfolding eq using d_ok 3 by (simp_all add: d(2))
    then show ?thesis
      using d_ok cs d(3) 3 by (simp add: d(2))
  qed
qed

lemma buffer_trim_spec:
  assumes "buffer_trim cv k b = (Inr u, b')" "buffered b = total (chunks b)" "list_all (chunk_ok n) (chunks b)" "0 < n"
  shows "list_all (chunk_ok n) (chunks b') \<and> pcm (chunks b') = take ((total (chunks b) - k) * n) (pcm (chunks b))
    \<and> (timeline off (chunks b) \<longrightarrow> timeline off (chunks b'))"
proof -
  obtain ds frames where ds: "trim_back cv (min k (total (chunks b))) (rev (chunks b)) (total (chunks b)) = (Inr u, ds, frames)"
      "chunks b' = rev ds"
    using assms(1,2) by (auto simp: buffer_trim_def split: prod.splits)
  have "total (chunks b) - min k (total (chunks b)) = total (chunks b) - k"
    by simp
  then show ?thesis
    using trim_back_spec [OF ds(1) assms(3,4), of off] ds(2) by simp
qed

subsection \<open>The fade over a stream\<close>

text \<open>The samples from frame \<open>k\<close> on of a stream of \<open>n\<close> channels whose first \<open>m\<close> frames are shaped.\<close>

definition shaped :: "(nat \<Rightarrow> nat \<Rightarrow> 's \<Rightarrow> 's) \<Rightarrow> nat \<Rightarrow> nat \<Rightarrow> nat \<Rightarrow> 's list \<Rightarrow> 's list" where
  "shaped shape m n k xs = map (\<lambda>(i, x). if i div n < m then shape (i div n) m x else x) (enumerate (k * n) xs)"

lemma length_shaped [simp]: "length (shaped shape m n k xs) = length xs"
  by (simp add: shaped_def)

lemma nth_shaped: "i < length xs \<Longrightarrow> 0 < n \<Longrightarrow> shaped shape m n k xs ! i = (if k + i div n < m then shape (k + i div n) m (xs ! i) else xs ! i)"
  by (simp add: shaped_def nth_enumerate_eq)

lemma shaped_append: "length xs = j * n \<Longrightarrow> shaped shape m n k (xs @ ys) = shaped shape m n k xs @ shaped shape m n (k + j) ys"
  by (simp add: shaped_def enumerate_append_eq add_mult_distrib)

lemma shaped_id: "0 < n \<Longrightarrow> m \<le> k \<Longrightarrow> shaped shape m n k xs = xs"
  by (rule nth_equalityI) (simp_all add: nth_shaped)

text \<open>Where a fade stands after \<open>k\<close> frames.\<close>

definition fade_at :: "nat \<Rightarrow> nat \<Rightarrow> fade_in option" where
  "fade_at m k = (if k < m then Some \<lparr>applied_frames = k, total_frames = m\<rparr> else None)"

lemma fade_apply_shapes:
  assumes "chunk_ok n c" "0 < n" "k < m" "m \<le> u16_max" "0 < chunk_frames c"
    and "fade_apply shape \<lparr>applied_frames = k, total_frames = m\<rparr> c = (f, c')"
  shows "f = \<lparr>applied_frames = min m (k + chunk_frames c), total_frames = m\<rparr> \<and> c' = c\<lparr>samples := shaped shape m n k (samples c)\<rparr>"
proof -
  let ?t = "min (m - k) (chunk_frames c)"
  have n: "channels (spec c) = n" and len: "length (samples c) = chunk_frames c * n"
    using assms(1) by (simp_all add: chunk_ok_def)
  have t: "min (m - k) (min (chunk_frames c) u16_max) = ?t"
    using assms(4) by simp
  have le: "?t * n \<le> chunk_frames c * n"
    by (intro mult_le_mono) simp_all
  then have prefix_len: "min (?t * n) (length (samples c)) div n * n = ?t * n"
    using assms(2) by (simp add: len)
  have "map (\<lambda>(i, x). shape (k + i div n) m x) (enumerate 0 (take (?t * n) (samples c))) @ drop (?t * n) (samples c)
      = shaped shape m n k (samples c)" (is "?l = _")
  proof (rule nth_equalityI)
    show "length ?l = length (shaped shape m n k (samples c))"
      using le by (simp add: len)
    fix i
    assume "i < length ?l"
    then have i: "i < chunk_frames c * n"
      using le by (simp add: len)
    show "?l ! i = shaped shape m n k (samples c) ! i"
    proof (cases "i < ?t * n")
      case True
      then have "i div n < ?t"
        by (rule less_mult_imp_div_less)
      then have "k + i div n < m"
        by linarith
      then show ?thesis
        using True le nth_shaped [of i "samples c" n shape m k] i assms(2) by (simp add: nth_append nth_enumerate_eq len)
    next
      case False
      then have "?t \<noteq> chunk_frames c"
        using i by auto
      then have "?t = m - k"
        by linarith
      then have "m - k \<le> i div n"
        using False assms(2) by (metis div_le_mono linorder_not_less nonzero_mult_div_cancel_right not_gr0)
      then have "\<not> k + i div n < m"
        by linarith
      then show ?thesis
        using False i assms(2) le by (simp add: nth_append nth_shaped len)
    qed
  qed
  moreover have "max 1 n = n" "max 1 m = m" "k + ?t = min m (k + chunk_frames c)"
    using assms(2,3) by auto
  ultimately show ?thesis
    using assms(3,5,6) unfolding fade_apply_def fade_done_def n Let_def by (auto simp: t prefix_len simp del: min_less_iff_conj)
qed

lemma apply_fade_in_shapes:
  assumes "chunk_ok n c" "0 < n" "m \<le> u16_max" "0 < chunk_frames c"
    and "apply_fade_in shape (fade_at m k) c = (f, c')"
  shows "f = fade_at m (k + chunk_frames c) \<and> c' = c\<lparr>samples := shaped shape m n k (samples c)\<rparr>"
proof (cases "k < m")
  case True
  obtain g d where g: "fade_apply shape \<lparr>applied_frames = k, total_frames = m\<rparr> c = (g, d)"
    by fastforce
  have "g = \<lparr>applied_frames = min m (k + chunk_frames c), total_frames = m\<rparr> \<and> d = c\<lparr>samples := shaped shape m n k (samples c)\<rparr>"
    by (rule fade_apply_shapes [OF assms(1,2) True assms(3,4) g])
  then show ?thesis
    using assms(5) g True by (auto simp: apply_fade_in_def fade_at_def fade_done_def)
next
  case False
  then show ?thesis
    using assms(2,5) by (simp add: apply_fade_in_def fade_at_def shaped_id)
qed

lemma chunk_frames_shaped [simp]: "chunk_frames (c\<lparr>samples := shaped shape m k j (samples c)\<rparr>) = chunk_frames c"
  by (simp add: chunk_frames_def)

lemma chunk_ok_shaped: "chunk_ok n c \<Longrightarrow> chunk_ok n (c\<lparr>samples := shaped shape m k j (samples c)\<rparr>)"
  by (simp add: chunk_ok_def)

subsection \<open>A track through the trimmer\<close>

text \<open>All chunks of a track pushed, then the flush at its end; the first error ends the track.\<close>

fun trim_pushes ::
    "'c curves \<Rightarrow> (nat \<Rightarrow> nat \<Rightarrow> 's \<Rightarrow> 's) \<Rightarrow> ('s, 'c) chunk list \<Rightarrow> ('s, 'c) trimmer
      \<Rightarrow> (decode_error, ('s, 'c) chunk list) result \<times> ('s, 'c) trimmer" where
  "trim_pushes cv shape [] t = (Inr [], t)"
| "trim_pushes cv shape (c # cs) t =
     (case trimmer_push cv shape c t of
        (Inl e, t) \<Rightarrow> (Inl e, t)
      | (Inr ready, t) \<Rightarrow> (case trim_pushes cv shape cs t of
          (Inl e, t) \<Rightarrow> (Inl e, t)
        | (Inr rest, t) \<Rightarrow> (Inr (ready @ rest), t)))"

definition trim_track ::
    "'c curves \<Rightarrow> (nat \<Rightarrow> nat \<Rightarrow> 's \<Rightarrow> 's) \<Rightarrow> ('s, 'c) chunk list \<Rightarrow> ('s, 'c) trimmer
      \<Rightarrow> (decode_error, ('s, 'c) chunk list) result" where
  "trim_track cv shape cs t =
     (case trim_pushes cv shape cs t of
        (Inl e, t) \<Rightarrow> Inl e
      | (Inr ready, t) \<Rightarrow> res_bind (fst (trimmer_flush cv t)) (\<lambda>tail. Inr (ready @ tail)))"

text \<open>The buffer starts with a chunk the padding reaches into.\<close>

definition lean :: "('s, 'c) trimmer \<Rightarrow> bool" where
  "lean t \<longleftrightarrow> (case chunks (tail_buffer t) of [] \<Rightarrow> True | d # ds \<Rightarrow> total ds < held_back t)"

text \<open>
  After the chunks \<open>cs\<close> went in and \<open>out\<close> came out: nothing but the priming is lost, the fade has run
  over what survived, and what came out leaves the padding in the buffer.
\<close>

definition trimming ::
    "(nat \<Rightarrow> nat \<Rightarrow> 's \<Rightarrow> 's) \<Rightarrow> nat \<Rightarrow> nat \<Rightarrow> nat \<Rightarrow> nat \<Rightarrow> ('s, 'c) chunk list \<Rightarrow> ('s, 'c) chunk list \<Rightarrow> ('s, 'c) trimmer \<Rightarrow> bool" where
  "trimming shape m n lead off cs out t \<longleftrightarrow>
     mode t = Fixed (lead - total cs) (fade_at m (total cs - lead))
     \<and> input_frames_seen t = total cs
     \<and> buffered (tail_buffer t) = total (chunks (tail_buffer t))
     \<and> list_all (chunk_ok n) (out @ chunks (tail_buffer t))
     \<and> pcm (out @ chunks (tail_buffer t)) = shaped shape m n 0 (drop (lead * n) (pcm cs))
     \<and> (out = [] \<or> held_back t \<le> buffered (tail_buffer t))
     \<and> (timeline off cs \<longrightarrow> timeline (off + lead) (out @ chunks (tail_buffer t)))
     \<and> lean t"

lemma trim_leading_ok:
  assumes "trim_leading cv c lead = (Inr x, lead')" "chunk_ok n c" "0 < n"
  shows "lead' = lead - chunk_frames c
    \<and> (case x of
         None \<Rightarrow> chunk_frames c \<le> lead
       | Some d \<Rightarrow> (lead < chunk_frames c \<or> lead = 0) \<and> chunk_ok n d \<and> samples d = drop (lead * n) (samples c)
           \<and> chunk_frames d = chunk_frames c - lead \<and> frame_offset d = frame_offset c + lead)"
proof (cases "0 < lead \<and> lead < chunk_frames c")
  case True
  then obtain d where "trim_chunk_start cv lead c = Inr d" "x = Some d" "lead' = 0"
    using assms(1) by (cases "trim_chunk_start cv lead c") (auto simp: trim_leading_def)
  then show ?thesis
    using trim_chunk_start_ok [of cv lead c d n] True assms(2,3) by simp
next
  case False
  then show ?thesis
    using assms by (auto simp: trim_leading_def split: if_splits)
qed

lemma total_surviving:
  assumes "list_all (chunk_ok n) (cs :: ('s, 'c) chunk list)" "list_all (chunk_ok n) (ds :: ('s, 'c) chunk list)"
    "pcm ds = shaped shape m n 0 (drop (lead * n) (pcm cs))" "0 < n"
  shows "total ds = total cs - lead"
proof -
  have "total ds * n = (total cs - lead) * n"
    using arg_cong [OF assms(3), of length] length_pcm [OF assms(1)] length_pcm [OF assms(2)] by (simp add: diff_mult_distrib)
  then show ?thesis
    using assms(4) by simp
qed

lemma push_keeps_trimming:
  assumes "trimming shape m n lead off cs out t" "trimmer_push cv shape c t = (Inr ready, t')"
    and "list_all (chunk_ok n) (cs @ [c])" "0 < n" "m \<le> u16_max" "total (cs @ [c]) \<le> u64_max"
  shows "trimming shape m n lead off (cs @ [c]) (out @ ready) t'
    \<and> held_back t' = held_back t \<and> tail_compensation t' = tail_compensation t"
proof -
  let ?b = "tail_buffer t"
  have ok: "chunk_ok n c" "list_all (chunk_ok n) cs"
    using assms(3) by simp_all
  have t: "mode t = Fixed (lead - total cs) (fade_at m (total cs - lead))" "input_frames_seen t = total cs"
      "buffered ?b = total (chunks ?b)" "list_all (chunk_ok n) (out @ chunks ?b)"
      "pcm (out @ chunks ?b) = shaped shape m n 0 (drop (lead * n) (pcm cs))"
      "out = [] \<or> held_back t \<le> buffered ?b" "timeline off cs \<longrightarrow> timeline (off + lead) (out @ chunks ?b)"
      "lean t"
    using assms(1) unfolding trimming_def by blast+
  have surviving: "total (out @ chunks ?b) = total cs - lead"
    by (rule total_surviving [OF ok(2) t(4,5) assms(4)])
  have len: "length (pcm cs) = total cs * n" "length (samples c) = chunk_frames c * n"
    using length_pcm [OF ok(2)] ok(1) by (simp_all add: chunk_ok_def)
  have seen: "sat_add u64_max (total cs) (chunk_frames c) = total cs + chunk_frames c"
    using assms(6) by (simp add: sat_add_def)
  obtain x lead' where x: "trim_leading cv c (lead - total cs) = (Inr x, lead')"
    using assms(2) t(1) by (auto simp: trimmer_push_def Let_def split: sum.splits prod.splits)
  note leading = trim_leading_ok [OF x ok(1) assms(4)]
  have lead': "lead' = lead - total (cs @ [c])"
    using leading by simp
  define y where "y = (case x of None \<Rightarrow> None | Some d \<Rightarrow> if chunk_frames d = 0 then None else Some d)"
  show ?thesis
  proof (cases y)
    case None
    have all: "chunk_frames c \<le> lead - total cs"
      using None leading by (auto simp: y_def split: option.splits if_splits)
    have t': "ready = []" "t' = t\<lparr>input_frames_seen := total cs + chunk_frames c, mode := Fixed lead' (fade_at m (total cs - lead))\<rparr>"
      using assms(2) t(1,2) x None seen
      by (auto simp: trimmer_push_def y_def Let_def split: sum.splits option.splits if_splits)
    have "drop (lead * n) (pcm (cs @ [c])) = drop (lead * n) (pcm cs)"
    proof (cases "chunk_frames c = 0")
      case False
      then have "total cs + chunk_frames c \<le> lead"
        using all by linarith
      then have "(total cs + chunk_frames c) * n \<le> lead * n" "total cs * n \<le> lead * n"
        by (intro mult_le_mono; simp)+
      then show ?thesis
        using len by (simp add: add_mult_distrib)
    qed (use len in simp)
    moreover have "total (cs @ [c]) - lead = total cs - lead"
      using all by simp
    moreover have "lean t'"
      using t(8) by (cases "chunks ?b") (simp_all add: t'(2) lean_def)
    ultimately show ?thesis
      using t surviving t' lead' by (simp add: trimming_def)
  next
    case (Some d)
    then have d: "x = Some d" "0 < chunk_frames d"
      by (simp_all add: y_def split: option.splits if_splits)
    then have d_ok: "chunk_ok n d" "samples d = drop ((lead - total cs) * n) (samples c)"
        "chunk_frames d = chunk_frames c - (lead - total cs)" "frame_offset d = frame_offset c + (lead - total cs)"
      using leading by simp_all
    have step: "total cs - lead + chunk_frames d = total (cs @ [c]) - lead"
      using d(2) d_ok(3) by simp
    obtain f e where e: "apply_fade_in shape (fade_at m (total cs - lead)) d = (f, e)"
      by fastforce
    have shape: "f = fade_at m (total (cs @ [c]) - lead)" "e = d\<lparr>samples := shaped shape m n (total cs - lead) (samples d)\<rparr>"
      using apply_fade_in_shapes [OF d_ok(1) assms(4,5) d(2) e] step by simp_all
    have e_ok: "chunk_ok n e" "chunk_frames e = chunk_frames d" "frame_offset e = frame_offset d"
      using d_ok(1) by (simp_all add: shape(2) chunk_ok_shaped)
    obtain b' where b': "buffer_release (held_back t) (buffer_push e ?b) = (ready, b')"
      and t': "t' = t\<lparr>input_frames_seen := total cs + chunk_frames c, mode := Fixed lead' f, tail_buffer := b'\<rparr>"
      using assms(2) t(1,2) x d e seen e_ok(2)
      by (auto simp: trimmer_push_def Let_def split: sum.splits option.splits if_splits prod.splits)
    have fits: "total (chunks ?b) + chunk_frames e \<le> u64_max"
      using assms(6) surviving e_ok(2) d_ok(3) by simp
    have pushed: "chunks (buffer_push e ?b) = chunks ?b @ [e]" "buffered (buffer_push e ?b) = total (chunks ?b @ [e])"
      using fits t(3) by (simp_all add: buffer_push_def sat_add_def)
    have "buffered (buffer_push e ?b) = total (chunks (buffer_push e ?b))"
      by (simp only: pushed)
    note released = buffer_release_spec [OF b' this, unfolded pushed(1)]
    have b: "ready @ chunks b' = chunks ?b @ [e]" "buffered b' = total (chunks b')" "ready \<noteq> [] \<longrightarrow> held_back t \<le> buffered b'"
      using released by blast+
    have lean': "lean t'"
      using released by (cases "chunks b'") (simp_all add: lean_def t')
    have out: "(out @ ready) @ chunks b' = (out @ chunks ?b) @ [e]"
      by (simp add: b(1))
    have dropped: "drop (lead * n) (pcm (cs @ [c])) = drop (lead * n) (pcm cs) @ samples d"
      using len by (simp add: d_ok(2) diff_mult_distrib)
    have "length (drop (lead * n) (pcm cs)) = (total cs - lead) * n"
      using len by (simp add: diff_mult_distrib)
    from shaped_append [OF this, of shape m 0 "samples d"]
    have "pcm ((out @ ready) @ chunks b') = shaped shape m n 0 (drop (lead * n) (pcm (cs @ [c])))"
      unfolding out dropped using t(5) shape(2) by simp
    moreover have "out @ ready = [] \<or> held_back t \<le> buffered b'"
    proof (cases "ready = []")
      case True
      then have "buffered b' = total (chunks ?b) + chunk_frames e"
        using b(1,2) by simp
      then show ?thesis
        using True t(3,6) by auto
    qed (use b(3) in blast)
    moreover have "timeline (off + lead) ((out @ ready) @ chunks b')" if "timeline off (cs @ [c])"
    proof -
      have "frame_offset e = off + lead + (total cs - lead)"
        using that e_ok(3) d_ok(4) by simp
      then show ?thesis
        unfolding out using that t(7) surviving by (simp del: total_simps(3) add: total_simps(3) [symmetric])
    qed
    moreover have "list_all (chunk_ok n) ((out @ ready) @ chunks b')"
      unfolding out using t(4) e_ok(1) by simp
    ultimately show ?thesis
      unfolding trimming_def using t' lead' shape(1) b(2) lean' by simp
  qed
qed

lemma pushes_keep_trimming:
  assumes "trimming shape m n lead off cs out t" "trim_pushes cv shape ds t = (Inr ready, t')"
    and "list_all (chunk_ok n) (cs @ ds)" "0 < n" "m \<le> u16_max" "total (cs @ ds) \<le> u64_max"
  shows "trimming shape m n lead off (cs @ ds) (out @ ready) t'
    \<and> held_back t' = held_back t \<and> tail_compensation t' = tail_compensation t"
  using assms
proof (induction ds arbitrary: cs out t ready)
  case (Cons d ds)
  obtain x t1 where p: "trimmer_push cv shape d t = (x, t1)"
    by fastforce
  with Cons.prems(2) obtain now later where r: "x = Inr now" "trim_pushes cv shape ds t1 = (Inr later, t')" "ready = now @ later"
    by (auto split: sum.splits prod.splits)
  have step: "trimming shape m n lead off (cs @ [d]) (out @ now) t1 \<and> held_back t1 = held_back t
      \<and> tail_compensation t1 = tail_compensation t"
    using push_keeps_trimming [OF Cons.prems(1) p [unfolded r(1)] _ Cons.prems(4,5)] Cons.prems(3,6) by simp
  show ?case
    using Cons.IH [OF conjunct1 [OF step] r(2) _ Cons.prems(4,5)] Cons.prems(3,6) step r(3) by simp
qed simp

lemma trim_track_exact:
  assumes "trimming shape m n lead off [] [] t" "trim_track cv shape cs t = Inr out"
    and "list_all (chunk_ok n) cs" "0 < n" "m \<le> u16_max" "total cs \<le> u64_max"
  shows "pcm out = (let trailing = (case tail_compensation t of None \<Rightarrow> held_back t | Some ideal \<Rightarrow> held_back t - min (ideal - total cs) 1)
      in take ((total cs - lead - trailing) * n) (shaped shape m n 0 (drop (lead * n) (pcm cs))))
    \<and> list_all (chunk_ok n) out \<and> (timeline off cs \<longrightarrow> timeline (off + lead) out)"
proof -
  obtain ready t' where p: "trim_pushes cv shape cs t = (Inr ready, t')"
    using assms(2) by (auto simp: trim_track_def split: prod.splits sum.splits)
  have "trimming shape m n lead off cs ready t' \<and> held_back t' = held_back t \<and> tail_compensation t' = tail_compensation t"
    using pushes_keep_trimming [OF assms(1) p _ assms(4,5)] assms(3,6) by simp
  then have t': "mode t' = Fixed (lead - total cs) (fade_at m (total cs - lead))" "input_frames_seen t' = total cs"
      "buffered (tail_buffer t') = total (chunks (tail_buffer t'))" "list_all (chunk_ok n) (ready @ chunks (tail_buffer t'))"
      "pcm (ready @ chunks (tail_buffer t')) = shaped shape m n 0 (drop (lead * n) (pcm cs))"
      "ready = [] \<or> held_back t \<le> total (chunks (tail_buffer t'))"
      "timeline off cs \<longrightarrow> timeline (off + lead) (ready @ chunks (tail_buffer t'))"
      "held_back t' = held_back t" "tail_compensation t' = tail_compensation t"
    unfolding trimming_def by (blast | metis)+
  define k where "k = compensated_trailing_frames t'"
  let ?b = "tail_buffer t'"
  have k: "k = (case tail_compensation t of None \<Rightarrow> held_back t | Some ideal \<Rightarrow> held_back t - min (ideal - total cs) 1)"
    using t'(2,8,9) by (simp add: k_def compensated_trailing_frames_def deficit_frames_def split: option.split)
  obtain b where b: "buffer_trim cv k ?b = (Inr (), b)" "out = ready @ chunks b"
    using assms(2) p t'(1) by (auto simp: trim_track_def trimmer_flush_def k_def res_bind_Inr split: prod.splits sum.splits)
  have ok: "list_all (chunk_ok n) (chunks ?b)" "list_all (chunk_ok n) ready"
    using t'(4) by simp_all
  note trimmed = buffer_trim_spec [OF b(1) t'(3) ok(1) assms(4)]
  have surviving: "total ready + total (chunks ?b) = total cs - lead"
    using total_surviving [OF assms(3) t'(4,5) assms(4)] by simp
  have "ready = [] \<or> k \<le> total (chunks ?b)"
    using t'(6) by (auto simp: k split: option.split)
  then have left: "total cs - lead - k = total ready + (total (chunks ?b) - k)"
    using surviving by auto
  have len: "length (pcm ready) = total ready * n" "length (pcm (chunks ?b)) = total (chunks ?b) * n"
    using length_pcm ok by blast+
  have "take ((total cs - lead - k) * n) (pcm (ready @ chunks ?b)) = pcm ready @ take ((total (chunks ?b) - k) * n) (pcm (chunks ?b))"
    unfolding left using len by (simp add: add_mult_distrib)
  moreover have "pcm out = pcm ready @ take ((total (chunks ?b) - k) * n) (pcm (chunks ?b))"
    using trimmed b(2) by simp
  ultimately have "pcm out = take ((total cs - lead - k) * n) (shaped shape m n 0 (drop (lead * n) (pcm cs)))"
    by (simp only: t'(5))
  moreover have "list_all (chunk_ok n) out"
    using trimmed ok(2) b(2) by simp
  moreover have "timeline off cs \<longrightarrow> timeline (off + lead) out"
    using trimmed t'(7) by (auto simp: b(2))
  ultimately show ?thesis
    by (simp add: k Let_def)
qed

subsection \<open>Unmapped chunks never fail\<close>

definition unmapped :: "('s, 'c) chunk \<Rightarrow> bool" where
  "unmapped c \<longleftrightarrow> source_span c = None"

lemma trim_unmapped:
  assumes "unmapped c"
  shows "(\<exists>d. trim_chunk_start cv k c = Inr d \<and> unmapped d)" "(\<exists>d. trim_chunk_end cv k c = Inr d \<and> unmapped d)"
  using assms by (simp_all add: trim_chunk_start_def trim_chunk_end_def trim_source_span_def unmapped_def Let_def)

lemma trim_back_unmapped:
  "list_all unmapped cs \<Longrightarrow> \<exists>ds frames. trim_back cv k cs f = (Inr (), ds, frames) \<and> list_all unmapped ds"
proof (induction cs arbitrary: k f)
  case (Cons c cs)
  then show ?case
    using trim_unmapped(2) [of c cv k] by auto
qed simp

lemma fade_apply_span: "source_span (snd (fade_apply shape f c)) = source_span c"
  by (simp add: fade_apply_def Let_def)

lemma apply_fade_unmapped:
  assumes "apply_fade_in shape f c = (g, d)" "unmapped c"
  shows "unmapped d"
proof (cases f)
  case (Some h)
  obtain x e where e: "fade_apply shape h c = (x, e)"
    by fastforce
  then show ?thesis
    using assms Some fade_apply_span [of shape h c] by (simp add: apply_fade_in_def unmapped_def)
qed (use assms in \<open>simp add: apply_fade_in_def\<close>)

lemma release_unmapped:
  assumes "buffer_release trailing b = (ready, b')" "list_all unmapped (chunks b)"
  shows "list_all unmapped (chunks b')"
  using assms set_drop_subset [of _ "chunks b"] by (fastforce simp: buffer_release_def list_all_iff split: prod.splits)

lemma push_unmapped:
  assumes "unmapped c" "list_all unmapped (chunks (tail_buffer t))"
  shows "\<exists>ready t'. trimmer_push cv shape c t = (Inr ready, t') \<and> list_all unmapped (chunks (tail_buffer t'))"
proof (cases "mode t")
  case Disabled
  then show ?thesis
    using assms by (simp add: trimmer_push_def validate_geometry_def unmapped_def)
next
  case (Fixed lead fade)
  have valid: "validate_geometry c = Inr ()"
    using assms(1) by (simp add: validate_geometry_def unmapped_def)
  obtain d where d: "trim_chunk_start cv lead c = Inr d" "unmapped d"
    using trim_unmapped(1) [OF assms(1)] by blast
  have "\<exists>x lead'. trim_leading cv c lead = (Inr x, lead') \<and> (case x of Some d \<Rightarrow> unmapped d | None \<Rightarrow> True)"
    using d assms(1) by (simp add: trim_leading_def)
  then obtain x lead' where x: "trim_leading cv c lead = (Inr x, lead')" "case x of Some d \<Rightarrow> unmapped d | None \<Rightarrow> True"
    by blast
  show ?thesis
  proof (cases "case x of Some d \<Rightarrow> chunk_frames d = 0 | None \<Rightarrow> True")
    case True
    then show ?thesis
      using valid Fixed x assms(2) by (cases x) (simp_all add: trimmer_push_def Let_def)
  next
    case False
    then obtain d where d: "x = Some d" "unmapped d" "chunk_frames d \<noteq> 0"
      using x(2) by (cases x) auto
    obtain f e where e: "apply_fade_in shape fade d = (f, e)"
      by fastforce
    obtain ready b where b: "buffer_release (held_back t) (buffer_push e (tail_buffer t)) = (ready, b)"
      by fastforce
    have "list_all unmapped (chunks (buffer_push e (tail_buffer t)))"
      using assms(2) apply_fade_unmapped [OF e d(2)] by (simp add: buffer_push_def)
    then show ?thesis
      using release_unmapped [OF b] valid Fixed x(1) d e b by (simp add: trimmer_push_def Let_def)
  qed
qed

lemma pushes_unmapped:
  "list_all unmapped cs \<Longrightarrow> list_all unmapped (chunks (tail_buffer t))
    \<Longrightarrow> \<exists>ready t'. trim_pushes cv shape cs t = (Inr ready, t') \<and> list_all unmapped (chunks (tail_buffer t'))"
proof (induction cs arbitrary: t)
  case (Cons c cs)
  obtain ready t1 where p: "trimmer_push cv shape c t = (Inr ready, t1)" "list_all unmapped (chunks (tail_buffer t1))"
    using push_unmapped [of c t cv shape] Cons.prems by auto
  obtain rest t2 where "trim_pushes cv shape cs t1 = (Inr rest, t2)" "list_all unmapped (chunks (tail_buffer t2))"
    using Cons.IH [OF _ p(2)] Cons.prems(1) by auto
  then show ?case
    using p by simp
qed simp

lemma trim_track_unmapped:
  assumes "list_all unmapped cs" "chunks (tail_buffer t) = []"
  shows "\<exists>out. trim_track cv shape cs t = Inr out"
proof -
  obtain ready t' where p: "trim_pushes cv shape cs t = (Inr ready, t')" "list_all unmapped (chunks (tail_buffer t'))"
    using pushes_unmapped [of cs t cv shape] assms by auto
  have "\<exists>tail. fst (trimmer_flush cv t') = Inr tail"
    using trim_back_unmapped [of "rev (chunks (tail_buffer t'))"] p(2)
    by (auto simp: trimmer_flush_def buffer_trim_def list_all_rev split: trim_mode.split prod.split sum.split)
      (metis fst_conv old.prod.inject sum.simps(4))+
  then show ?thesis
    using p(1) by (auto simp: trim_track_def)
qed

lemma disabled_track:
  "mode t = Disabled \<Longrightarrow> trim_track cv shape cs t = Inr out \<Longrightarrow> out = cs"
proof -
  have "trim_pushes cv shape cs t = (Inr ready, t') \<Longrightarrow> ready = cs \<and> t' = t" if "mode t = Disabled" for ready t'
    using that
  proof (induction cs arbitrary: ready t')
    case (Cons c cs)
    then show ?case
      by (fastforce simp: trimmer_push_def split: sum.splits prod.splits)
  qed simp
  then show "mode t = Disabled \<Longrightarrow> trim_track cv shape cs t = Inr out \<Longrightarrow> out = cs"
    by (auto simp: trim_track_def trimmer_flush_def split: prod.splits sum.splits)
qed

lemma trimming_starts:
  assumes "mode t = Fixed lead (fade_at m 0)" "tail_buffer t = buffer_empty" "input_frames_seen t = 0"
  shows "trimming shape m n lead off [] [] t"
  using assms by (simp add: trimming_def buffer_empty_def shaped_def lean_def)

subsection \<open>What the trimmer promises\<close>

text \<open>C21: gapless trimming is exact and does not see the chunks.  However a track is cut into chunks of
  whole frames, what comes out of a trimmer for its encoder delay and padding is, in order and
  frame by frame, the track without its leading frames and without its trailing ones (one fewer when
  the resampler came out a frame short), on the frame numbers the kept frames had; chunks without a
  source mapping never fail.\<close>

theorem gapless_trim_is_exact:
  assumes "list_all (chunk_ok n) cs" "0 < n" "total cs \<le> u64_max" "timeline off cs"
    and "t = (trimmer_of_info info)\<lparr>tail_compensation := ideal\<rparr>"
  shows "case trim_track cv shape cs t of
      Inl e \<Rightarrow> \<not> list_all unmapped cs
    | Inr out \<Rightarrow>
        pcm out = (let trailing = (case ideal of None \<Rightarrow> trailing_frames info | Some k \<Rightarrow> trailing_frames info - min (k - total cs) 1)
          in take ((total cs - leading_frames info - trailing) * n) (drop (leading_frames info * n) (pcm cs)))
        \<and> timeline (off + leading_frames info) out"
proof (cases "trim_track cv shape cs t")
  case (Inl e)
  then show ?thesis
    using trim_track_unmapped [of cs t cv shape] assms(5) by (auto simp: trimmer_of_info_def buffer_empty_def)
next
  case (Inr out)
  show ?thesis
  proof (cases "mode t = Disabled")
    case True
    then have "out = cs" "leading_frames info = 0" "trailing_frames info = 0"
      using disabled_track [OF True Inr] assms(5) by (auto simp: trimmer_of_info_def split: if_splits)
    then show ?thesis
      using Inr length_pcm [OF assms(1)] assms(4) by (simp split: option.split)
  next
    case False
    then have "mode t = Fixed (leading_frames info) (fade_at 0 0)" "tail_buffer t = buffer_empty" "input_frames_seen t = 0"
        "held_back t = trailing_frames info" "tail_compensation t = ideal"
      using assms(5) by (auto simp: trimmer_of_info_def fade_at_def split: if_splits)
    then show ?thesis
      using trim_track_exact [OF trimming_starts Inr assms(1,2) _ assms(3), of _ 0 off] Inr assms(2,4)
      by (simp add: shaped_id split: option.split)
  qed
qed

text \<open>With an estimated delay the first milliseconds that survive are faded in, once over the track.\<close>

lemma priming_trim_is_exact:
  assumes "list_all (chunk_ok n) cs" "0 < n" "total cs \<le> u64_max" "0 < lead"
    and "trim_track cv shape cs (codec_priming lead rate) = Inr out"
  shows "pcm out = shaped shape (total_frames (fade_for_sample_rate rate)) n 0 (drop (lead * n) (pcm cs))"
proof -
  let ?t = "codec_priming lead rate :: ('a, 'b) trimmer"
  let ?m = "total_frames (fade_for_sample_rate rate)"
  have m: "?m \<le> u16_max" "0 < ?m"
    by (simp_all add: fade_for_sample_rate_def u16_max_def)
  have t: "mode ?t = Fixed lead (fade_at ?m 0)" "tail_buffer ?t = buffer_empty" "input_frames_seen ?t = 0" "held_back ?t = 0"
      "tail_compensation ?t = None"
    using assms(4) m(2) by (simp_all add: codec_priming_def trimmer_disabled_def fade_at_def fade_for_sample_rate_def)
  show ?thesis
    using trim_track_exact [OF trimming_starts [OF t(1-3)] assms(5,1,2) m(1) assms(3)] t(4,5) length_pcm [OF assms(1)]
    by (simp add: diff_mult_distrib)
qed

text \<open>C22: the trimmer holds back the padding and no more.  Once a track going through a trimmer has come
  out in part, the buffer has the trailing frames the trimmer may have to cut; and after every chunk it
  keeps less than one chunk beyond them, so playback is not delayed further.\<close>

theorem trimmer_holds_back_the_padding:
  assumes "list_all (chunk_ok n) cs" "0 < n" "total cs \<le> u64_max"
    and "trim_pushes cv shape cs (trimmer_of_info info) = (Inr out, t)" "0 < leading_frames info + trailing_frames info"
  shows "(out = [] \<or> trailing_frames info \<le> buffered (tail_buffer t))
    \<and> (case chunks (tail_buffer t) of [] \<Rightarrow> True | d # ds \<Rightarrow> buffered (tail_buffer t) < trailing_frames info + chunk_frames d)"
proof -
  let ?t = "trimmer_of_info info :: ('a, 'b) trimmer"
  have "mode ?t = Fixed (leading_frames info) (fade_at 0 0)" "tail_buffer ?t = buffer_empty" "input_frames_seen ?t = 0"
    using assms(5) by (auto simp: trimmer_of_info_def fade_at_def)
  then have "trimming shape 0 n (leading_frames info) 0 [] [] ?t"
    by (rule trimming_starts)
  then have "trimming shape 0 n (leading_frames info) 0 cs out t \<and> held_back t = held_back ?t"
    using pushes_keep_trimming [OF _ assms(4), of 0 n "leading_frames info" 0 "[]" "[]"] assms(1-3) by simp
  moreover have "held_back ?t = trailing_frames info"
    by (simp add: trimmer_of_info_def)
  ultimately have "out = [] \<or> trailing_frames info \<le> buffered (tail_buffer t)" "lean t" "held_back t = trailing_frames info"
      "buffered (tail_buffer t) = total (chunks (tail_buffer t))"
    unfolding trimming_def by metis+
  then show ?thesis
    by (cases "chunks (tail_buffer t)") (simp_all add: lean_def)
qed

lemma slice_frames:
  assumes "for_output_range cv lo hi s = Some t"
  shows "output_frames t = hi - lo"
proof (cases "lo = 0 \<and> hi = output_frames s \<and> output_frames s \<noteq> 0")
  case True
  then show ?thesis
    using assms by (simp add: for_output_range_def)
next
  case False
  show ?thesis
    by (rule for_output_range_slice [OF assms False]) simp
qed

lemma trim_source_span_mapped:
  assumes "trim_source_span cv lo hi c = Inr (m, d)" "source_span c = Some s"
  obtains u where "m" "validate_geometry c = Inr ()" "for_output_range cv lo hi s = Some u" "source_span d = Some u"
    "position_at cv u 0 = Some (timestamp d)" "position_at cv u (output_frames u) = Some (end_timestamp d)"
  using assms by (auto simp: trim_source_span_def res_bind_Inr)

text \<open>Trimming a mapped chunk keeps its place in the source: the frames that are left have the source
  coordinates they had in the whole chunk, their number is that of the samples left, and the chunk's start
  and end are the exact positions of its ends, to the nanosecond below.\<close>

lemma trimmed_chunk_keeps_its_place:
  assumes "source_span c = Some s" "built cv s" "lawful_curves cv" "chunk_ok n c" "0 < n" "0 < k" "k < chunk_frames c"
    and "trim_chunk_start cv k c = Inr a" "trim_chunk_end cv k c = Inr b"
  shows "case (source_span a, source_span b) of
      (Some u, Some v) \<Rightarrow>
        output_frames u = chunk_frames a \<and> output_frames v = chunk_frames b
        \<and> (source_ratio_at cv u i = Some x \<and> source_ratio_at cv s (k + i) = Some y \<longrightarrow> x = y)
        \<and> (source_ratio_at cv v i = Some x \<and> source_ratio_at cv s i = Some y \<longrightarrow> x = y)
        \<and> position_at cv u 0 = Some (timestamp a) \<and> position_at cv v (output_frames v) = Some (end_timestamp b)
        \<and> built cv u \<and> built cv v
    | _ \<Rightarrow> False"
proof -
  obtain m d where d: "trim_source_span cv k (chunk_frames c) c = Inr (m, d)"
    using assms(8) by (auto simp: trim_chunk_start_def res_bind_Inr)
  obtain u where u: "m" "validate_geometry c = Inr ()" "for_output_range cv k (chunk_frames c) s = Some u"
      "source_span d = Some u" "position_at cv u 0 = Some (timestamp d)"
    by (rule trim_source_span_mapped [OF d assms(1)])
  obtain m' d' where d': "trim_source_span cv 0 (chunk_frames c - k) c = Inr (m', d')"
    using assms(9) by (auto simp: trim_chunk_end_def res_bind_Inr Let_def)
  obtain v where v: "m'" "for_output_range cv 0 (chunk_frames c - k) s = Some v"
      "source_span d' = Some v" "position_at cv v (output_frames v) = Some (end_timestamp d')"
    by (rule trim_source_span_mapped [OF d' assms(1)])
  have a: "source_span a = Some u" "timestamp a = timestamp d"
    using assms(8) u(1,4) by (auto simp: trim_chunk_start_def d Let_def)
  have b: "source_span b = Some v" "end_timestamp b = end_timestamp d'"
    using assms(9) v(3) by (auto simp: trim_chunk_end_def d' Let_def)
  have geometry: "output_frames s = chunk_frames c"
    using u(2) assms(1) by (auto simp: validate_geometry_def split: if_splits)
  have ok: "span_ok cv s"
    by (rule built_ok [OF assms(2,3)])
  have sizes: "output_frames u = chunk_frames c - k" "output_frames v = chunk_frames c - k"
    using slice_frames [OF u(3)] slice_frames [OF v(2)] by simp_all
  have "x = y" if "source_ratio_at cv u i = Some x" "source_ratio_at cv s (k + i) = Some y"
    by (rule slice_exact [OF assms(3) ok u(3) that])
  moreover have "x = y" if "source_ratio_at cv v i = Some x" "source_ratio_at cv s i = Some y"
    using slice_exact [OF assms(3) ok v(2), of i x y] that by simp
  moreover have "chunk_frames a = chunk_frames c - k" "chunk_frames b = chunk_frames c - k"
    using trim_chunk_start_ok [OF assms(8,4,5,7)] trim_chunk_end_ok [OF assms(9,4,5)] assms(7) by simp_all
  ultimately show ?thesis
    using u v sizes a b built.sliced [OF assms(2) u(3)] built.sliced [OF assms(2) v(2)] by simp
qed

subsection \<open>A short track\<close>

definition demo_chunk :: "nat \<Rightarrow> nat list \<Rightarrow> (nat, unit) chunk" where
  "demo_chunk off xs =
     \<lparr>samples = xs, spec = cd_audio, frame_offset = off, meta_frames = length xs div 2,
      timestamp = off * nanos_per_second div 44100, end_timestamp = (off + length xs div 2) * nanos_per_second div 44100,
      source_span = None\<rparr>"

definition demo_track :: "(nat, unit) chunk list" where
  "demo_track = [demo_chunk 0 [1, 2, 3, 4], demo_chunk 2 [5, 6], demo_chunk 3 [7, 8, 9, 10]]"

definition demo_info :: gapless_info where
  "demo_info = \<lparr>leading_frames = 1, trailing_frames = 2\<rparr>"

lemma demo_chunks:
  "list_all (chunk_ok 2) demo_track" "total demo_track = 5" "timeline 0 demo_track" "list_all unmapped demo_track"
  by (simp_all add: demo_track_def demo_chunk_def chunk_ok_def chunk_frames_def cd_audio_def unmapped_def
      u32_max_def u64_max_def)

lemma gapless_trim_is_exact_witness:
  "case trim_track demo_curves (\<lambda>k m x. x) demo_track ((trimmer_of_info demo_info)\<lparr>tail_compensation := Some 6\<rparr>) of
     Inl e \<Rightarrow> False
   | Inr out \<Rightarrow> pcm out = [3, 4, 5, 6, 7, 8] \<and> timeline 1 out"
proof -
  have "total demo_track \<le> u64_max" "0 < (2 :: nat)"
    by (simp_all add: demo_chunks u64_max_def)
  from gapless_trim_is_exact [OF demo_chunks(1) this(2,1) demo_chunks(3) refl,
      where cv = demo_curves and shape = "\<lambda>k m x. x" and info = demo_info and ideal = "Some 6"]
  show ?thesis
    using demo_chunks(2,4) by (simp add: demo_info_def demo_track_def demo_chunk_def split: sum.splits)
qed

lemma trimmer_holds_back_the_padding_witness:
  "\<exists>out t. trim_pushes demo_curves (\<lambda>k m x. x) demo_track (trimmer_of_info demo_info) = (Inr out, t)
     \<and> (out = [] \<or> 2 \<le> buffered (tail_buffer t))"
proof -
  have fits: "total demo_track \<le> u64_max" "0 < (2 :: nat)" "0 < leading_frames demo_info + trailing_frames demo_info"
    by (simp_all add: demo_chunks u64_max_def demo_info_def)
  obtain out t where t: "trim_pushes demo_curves (\<lambda>k m x. x) demo_track (trimmer_of_info demo_info) = (Inr out, t)"
    using pushes_unmapped [OF demo_chunks(4), of "trimmer_of_info demo_info" demo_curves "\<lambda>k m x. x"]
    by (auto simp: trimmer_of_info_def buffer_empty_def)
  show ?thesis
    using trimmer_holds_back_the_padding [OF demo_chunks(1) fits(2,1) t fits(3)] t by (simp add: demo_info_def)
qed

definition mono :: audio_spec where
  "mono = \<lparr>spec_rate = 48000, channels = 1\<rparr>"

definition mapped_chunk :: "(nat, unit) chunk" where
  "mapped_chunk =
     \<lparr>samples = replicate 32 0, spec = mono, frame_offset = 0, meta_frames = 32, timestamp = 208333,
      end_timestamp = 1208333, source_span = Some demo_span\<rparr>"

lemma demo_half_positions:
  "position_at demo_curves (demo_half 68) 0 = Some 708333" "position_at demo_curves (demo_half 68) 16 = Some 1208333"
  "position_at demo_curves (demo_half 20) 0 = Some 208333" "position_at demo_curves (demo_half 20) 16 = Some 708333"
proof -
  have "source_ratio_at demo_curves (demo_half 68) 0 = Some (34, 1)" "source_ratio_at demo_curves (demo_half 68) 16 = Some (58, 1)"
      "source_ratio_at demo_curves (demo_half 20) 0 = Some (10, 1)" "source_ratio_at demo_curves (demo_half 20) 16 = Some (34, 1)"
      "sample_rate (demo_half n) = 48000" for n
    by (simp_all add: source_ratio_at_def demo_half_def demo_span_def demo_rational_def span_eval gcd_nat.simps)
  then show
    "position_at demo_curves (demo_half 68) 0 = Some 708333" "position_at demo_curves (demo_half 68) 16 = Some 1208333"
    "position_at demo_curves (demo_half 20) 0 = Some 208333" "position_at demo_curves (demo_half 20) 16 = Some 708333"
    by (simp_all add: position_at_def try_u64_def try_u32_def u64_max_def u32_max_def fractional_nanos_exact Let_def)
qed

lemma mapped_chunk_trims:
  "trim_chunk_start demo_curves 16 mapped_chunk
     = Inr (mapped_chunk\<lparr>samples := replicate 16 0, frame_offset := 16, meta_frames := 16, timestamp := 708333,
         source_span := Some (demo_half 68)\<rparr>)"
  "trim_chunk_end demo_curves 16 mapped_chunk
     = Inr (mapped_chunk\<lparr>samples := replicate 16 0, meta_frames := 16, end_timestamp := 708333,
         source_span := Some (demo_half 20)\<rparr>)"
proof -
  have frames: "output_frames demo_span = 32" "output_frames (demo_half n) = 16" for n
    by (simp_all add: demo_span_def demo_half_def)
  show "trim_chunk_start demo_curves 16 mapped_chunk
     = Inr (mapped_chunk\<lparr>samples := replicate 16 0, frame_offset := 16, meta_frames := 16, timestamp := 708333,
         source_span := Some (demo_half 68)\<rparr>)"
    by (simp add: trim_chunk_start_def trim_source_span_def validate_geometry_def chunk_frames_def mapped_chunk_def mono_def
        frames demo_slices demo_half_positions sat_mul_def sat_add_def to_u32_def u64_max_def u32_max_def drop_replicate)
  show "trim_chunk_end demo_curves 16 mapped_chunk
     = Inr (mapped_chunk\<lparr>samples := replicate 16 0, meta_frames := 16, end_timestamp := 708333,
         source_span := Some (demo_half 20)\<rparr>)"
    by (simp add: trim_chunk_end_def trim_source_span_def validate_geometry_def chunk_frames_def mapped_chunk_def mono_def
        frames demo_slices demo_half_positions sat_mul_def to_u32_def u64_max_def u32_max_def take_replicate)
qed

end
