(* ===== verification/Gapless_Pipeline.thy ===== *)
theory Gapless_Pipeline
  imports Gapless
begin

text \<open>
  Where the trims come from and what they do to the clock of a track: the gapless counts derived from
  the edit list of an MP4 track (\<open>crates/kithara-decode/src/gapless/mp4.rs\<close> and
  \<open>mp4/presentation.rs\<close>, on the events of the box scanner), the choice of the trimmer and the
  stage that hands its output out chunk by chunk, and the visible origin, duration and end that the
  pipeline publishes (\<open>crates/kithara-audio/src/pipeline/gapless.rs\<close>).
\<close>

subsection \<open>MP4 edit lists\<close>

record mp4_media_timing =
  timescale :: nat
  media_duration :: nat

record mp4_edit =
  media_time :: int
  segment_duration :: nat
  media_rate :: int

datatype mp4_event =
    ItunSmpb gapless_info
  | MovieTimescale nat
  | TrackBegin
  | TrackId nat
  | TrackCodec "u8 list"
  | TrackEditList "mp4_edit list"
  | TrackEnd
  | TrackMediaTiming mp4_media_timing
  | TrackSampleRate nat

definition scale_frames :: "nat \<Rightarrow> nat \<Rightarrow> nat \<Rightarrow> nat option" where
  "scale_frames n rate per_second =
     (if per_second = 0 then None
      else let scaled = (n * rate + per_second div 2) div per_second
           in if scaled \<le> u64_max then Some scaled else None)"

definition derive_from_edit :: "mp4_edit \<Rightarrow> mp4_media_timing \<Rightarrow> nat \<Rightarrow> nat \<Rightarrow> gapless_info option" where
  "derive_from_edit edit media rate movie_timescale =
     (if media_rate edit \<noteq> 65536 \<or> media_time edit < 0 then None
      else do {
        leading \<leftarrow> scale_frames (nat (media_time edit)) rate (timescale media);
        valid \<leftarrow> scale_frames (segment_duration edit) rate movie_timescale;
        whole \<leftarrow> scale_frames (media_duration media) rate (timescale media);
        used \<leftarrow> checked_add u64_max leading valid;
        trailing \<leftarrow> checked_sub whole used;
        if leading = 0 \<and> trailing = 0 then None
        else Some \<lparr>leading_frames = leading, trailing_frames = trailing\<rparr>
      })"

record track_state =
  ts_edit :: "mp4_edit option"
  ts_media :: "mp4_media_timing option"
  ts_rate :: "nat option"

record gapless_probe =
  current :: "track_state option"
  elst_derived :: "gapless_info option"
  itunsmpb :: "gapless_info option"
  movie_timescale :: "nat option"

definition probe_default :: gapless_probe where
  "probe_default = \<lparr>current = None, elst_derived = None, itunsmpb = None, movie_timescale = None\<rparr>"

definition derive_from_track :: "track_state \<Rightarrow> nat option \<Rightarrow> gapless_info option" where
  "derive_from_track t per_second = do {
     edit \<leftarrow> ts_edit t; media \<leftarrow> ts_media t; rate \<leftarrow> ts_rate t; per_second \<leftarrow> per_second;
     derive_from_edit edit media rate per_second
   }"

text \<open>Whether the scan goes on, and the probe.\<close>

definition finish_track :: "gapless_probe \<Rightarrow> bool \<times> gapless_probe" where
  "finish_track p =
     (case current p of
        None \<Rightarrow> (True, p)
      | Some t \<Rightarrow> (case derive_from_track t (movie_timescale p) of
          None \<Rightarrow> (True, p\<lparr>current := None\<rparr>)
        | Some info \<Rightarrow> (False, p\<lparr>current := None, elst_derived := Some info\<rparr>)))"

definition probe_visit :: "mp4_event \<Rightarrow> gapless_probe \<Rightarrow> bool \<times> gapless_probe" where
  "probe_visit e p =
     (case e of
        ItunSmpb info \<Rightarrow>
          if leading_frames info = 0 \<and> trailing_frames info = 0 then (True, p) else (False, p\<lparr>itunsmpb := Some info\<rparr>)
      | MovieTimescale per_second \<Rightarrow> (True, p\<lparr>movie_timescale := Some per_second\<rparr>)
      | TrackBegin \<Rightarrow> (True, p\<lparr>current := Some \<lparr>ts_edit = None, ts_media = None, ts_rate = None\<rparr>\<rparr>)
      | TrackEditList edits \<Rightarrow>
          (True, p\<lparr>current := map_option (\<lambda>t. t\<lparr>ts_edit := (case edits of [edit] \<Rightarrow> Some edit | _ \<Rightarrow> None)\<rparr>) (current p)\<rparr>)
      | TrackEnd \<Rightarrow> finish_track p
      | TrackMediaTiming timing \<Rightarrow> (True, p\<lparr>current := map_option (\<lambda>t. t\<lparr>ts_media := Some timing\<rparr>) (current p)\<rparr>)
      | TrackSampleRate rate \<Rightarrow> (True, p\<lparr>current := map_option (\<lambda>t. t\<lparr>ts_rate := Some rate\<rparr>) (current p)\<rparr>)
      | TrackCodec kind \<Rightarrow> (True, p)
      | TrackId k \<Rightarrow> (True, p))"

fun probe_events :: "mp4_event list \<Rightarrow> gapless_probe \<Rightarrow> gapless_probe" where
  "probe_events [] p = p"
| "probe_events (e # es) p = (case probe_visit e p of (goes_on, p) \<Rightarrow> if goes_on then probe_events es p else p)"

definition probe_result :: "gapless_probe \<Rightarrow> gapless_info option" where
  "probe_result p = (case elst_derived p of Some info \<Rightarrow> Some info | None \<Rightarrow> itunsmpb p)"

subsection \<open>MP4 presentations\<close>

datatype track_edit = Identity | Offset mp4_edit | Unsupported

record mp4_track =
  track_id :: "nat option"
  track_media :: "mp4_media_timing option"
  track_rate :: "nat option"
  track_edit :: track_edit

record presentation =
  pr_track_id :: nat
  pr_media_origin :: "duration option"
  pr_media_end :: "duration option"
  pr_gapless :: "gapless_info option"

definition ticks_duration :: "nat \<Rightarrow> nat \<Rightarrow> duration option" where
  "ticks_duration ticks per_second =
     (if per_second = 0 then None
      else let nanos = ticks * 1000000000 div per_second in if nanos \<le> u64_max then Some nanos else None)"

definition nonzero_end :: "duration option \<Rightarrow> duration option" where
  "nonzero_end e = (case e of Some d \<Rightarrow> if d = 0 then None else Some d | None \<Rightarrow> None)"

definition track_presentation :: "mp4_track \<Rightarrow> nat option \<Rightarrow> presentation option" where
  "track_presentation t per_second = do {
     k \<leftarrow> track_id t; media \<leftarrow> track_media t; rate \<leftarrow> track_rate t;
     Some (case track_edit t of
        Identity \<Rightarrow>
          \<lparr>pr_track_id = k, pr_media_origin = Some 0,
           pr_media_end = nonzero_end (ticks_duration (media_duration media) (timescale media)), pr_gapless = None\<rparr>
      | Offset edit \<Rightarrow>
          \<lparr>pr_track_id = k,
           pr_media_origin = (if media_time edit < 0 then None else ticks_duration (nat (media_time edit)) (timescale media)),
           pr_media_end = nonzero_end (Option.bind per_second (ticks_duration (segment_duration edit))),
           pr_gapless = Option.bind per_second (derive_from_edit edit media rate)\<rparr>
      | Unsupported \<Rightarrow> \<lparr>pr_track_id = k, pr_media_origin = None, pr_media_end = None, pr_gapless = None\<rparr>)
   }"

record presentation_scan =
  sc_scale :: "nat option"
  sc_track :: "mp4_track option"
  sc_result :: "presentation list"
  sc_itunsmpb :: "gapless_info option"

definition scan_visit :: "mp4_event \<Rightarrow> presentation_scan \<Rightarrow> presentation_scan" where
  "scan_visit e s =
     (case e of
        MovieTimescale per_second \<Rightarrow> s\<lparr>sc_scale := Some per_second\<rparr>
      | TrackBegin \<Rightarrow> s\<lparr>sc_track := Some \<lparr>track_id = None, track_media = None, track_rate = None, track_edit = Identity\<rparr>\<rparr>
      | TrackId k \<Rightarrow> s\<lparr>sc_track := map_option (\<lambda>t. t\<lparr>track_id := Some k\<rparr>) (sc_track s)\<rparr>
      | TrackMediaTiming media \<Rightarrow> s\<lparr>sc_track := map_option (\<lambda>t. t\<lparr>track_media := Some media\<rparr>) (sc_track s)\<rparr>
      | TrackSampleRate rate \<Rightarrow> s\<lparr>sc_track := map_option (\<lambda>t. t\<lparr>track_rate := Some rate\<rparr>) (sc_track s)\<rparr>
      | ItunSmpb info \<Rightarrow>
          if leading_frames info \<noteq> 0 \<or> trailing_frames info \<noteq> 0 then s\<lparr>sc_itunsmpb := Some info\<rparr> else s
      | TrackEditList edits \<Rightarrow>
          s\<lparr>sc_track := map_option (\<lambda>t. t\<lparr>track_edit :=
               (case edits of
                  [] \<Rightarrow> Identity
                | [edit] \<Rightarrow> if 0 \<le> media_time edit \<and> media_rate edit = 65536 then Offset edit else Unsupported
                | _ \<Rightarrow> Unsupported)\<rparr>) (sc_track s)\<rparr>
      | TrackEnd \<Rightarrow>
          (case sc_track s of
             None \<Rightarrow> s
           | Some t \<Rightarrow> (case track_presentation t (sc_scale s) of
               None \<Rightarrow> s\<lparr>sc_track := None\<rparr>
             | Some p \<Rightarrow> s\<lparr>sc_track := None, sc_result := sc_result s @ [p]\<rparr>))
      | TrackCodec kind \<Rightarrow> s)"

definition probe_presentations :: "mp4_event list \<Rightarrow> presentation list" where
  "probe_presentations es =
     (let s = fold scan_visit es \<lparr>sc_scale = None, sc_track = None, sc_result = [], sc_itunsmpb = None\<rparr>
      in case sc_result s of
           [p] \<Rightarrow> [p\<lparr>pr_gapless := (case pr_gapless p of Some g \<Rightarrow> Some g | None \<Rightarrow> sc_itunsmpb s)\<rparr>]
         | ps \<Rightarrow> ps)"

subsection \<open>The profile of a track and its trimmer\<close>

datatype audio_codec = AacLc | AacHe | AacHeV2 | Mp3 | Flac | Vorbis | Opus | Alac | Pcm | Adpcm | Ape

definition transform_padded :: "audio_codec \<Rightarrow> bool" where
  "transform_padded c = (case c of
       AacLc \<Rightarrow> True | AacHe \<Rightarrow> True | AacHeV2 \<Rightarrow> True | Mp3 \<Rightarrow> True | Vorbis \<Rightarrow> True | Opus \<Rightarrow> True
     | Flac \<Rightarrow> False | Alac \<Rightarrow> False | Pcm \<Rightarrow> False | Adpcm \<Rightarrow> False | Ape \<Rightarrow> False)"

datatype gapless_mode = NoTrim | MediaOnly | CodecPriming

record gapless_profile =
  pf_spec :: audio_spec
  pf_gapless :: "gapless_info option"
  pf_tail :: "nat option"
  default_priming_frames :: nat

definition compensation_for :: "gapless_profile \<Rightarrow> audio_codec option \<Rightarrow> nat option" where
  "compensation_for p codec =
     (case codec of Some c \<Rightarrow> if transform_padded c then None else pf_tail p | None \<Rightarrow> pf_tail p)"

definition resolve_codec_priming :: "gapless_profile \<Rightarrow> ('s, 'c) trimmer" where
  "resolve_codec_priming p =
     (if default_priming_frames p = 0 then trimmer_disabled
      else codec_priming (default_priming_frames p) (spec_rate (pf_spec p)))"

definition build_trimmer :: "gapless_profile \<Rightarrow> gapless_mode \<Rightarrow> audio_codec option \<Rightarrow> ('s, 'c) trimmer" where
  "build_trimmer p m codec =
     (let from_info = (\<lambda>info. (trimmer_of_info info)\<lparr>tail_compensation := compensation_for p codec\<rparr>)
      in case m of
           MediaOnly \<Rightarrow> (case pf_gapless p of Some info \<Rightarrow> from_info info | None \<Rightarrow> trimmer_disabled)
         | CodecPriming \<Rightarrow> (case pf_gapless p of Some info \<Rightarrow> from_info info | None \<Rightarrow> resolve_codec_priming p)
         | NoTrim \<Rightarrow> trimmer_disabled)"

text \<open>The stage: the trimmer and what is left of its last batch; \<open>retired\<close> counts the exhausted batches
  whose storage waits to be dropped.\<close>

record ('s, 'c) stage =
  trimmer :: "('s, 'c) trimmer"
  pending :: "('s, 'c) chunk list option"
  retired :: nat

definition stage_build :: "gapless_profile \<Rightarrow> gapless_mode \<Rightarrow> audio_codec option \<Rightarrow> ('s, 'c) stage" where
  "stage_build p m codec = \<lparr>trimmer = build_trimmer p m codec, pending = None, retired = 0\<rparr>"

definition prepare_deferred :: "('s, 'c) stage \<Rightarrow> ('s, 'c) stage" where
  "prepare_deferred g = g\<lparr>retired := 0\<rparr>"

definition has_output :: "('s, 'c) stage \<Rightarrow> bool" where
  "has_output g = (case pending g of Some cs \<Rightarrow> cs \<noteq> [] | None \<Rightarrow> False)"

definition replace_pending :: "('s, 'c) chunk list \<Rightarrow> ('s, 'c) stage \<Rightarrow> ('s, 'c) stage" where
  "replace_pending out g = g\<lparr>pending := (if out = [] then None else Some out)\<rparr>"

definition stage_next :: "('s, 'c) stage \<Rightarrow> ('s, 'c) chunk option \<times> ('s, 'c) stage" where
  "stage_next g =
     (case pending g of
        None \<Rightarrow> (None, g)
      | Some [] \<Rightarrow> (None, g\<lparr>pending := None, retired := retired g + 1\<rparr>)
      | Some [c] \<Rightarrow> (Some c, g\<lparr>pending := None, retired := retired g + 1\<rparr>)
      | Some (c # cs) \<Rightarrow> (Some c, g\<lparr>pending := Some cs\<rparr>))"

definition stage_push ::
    "'c curves \<Rightarrow> (nat \<Rightarrow> nat \<Rightarrow> 's \<Rightarrow> 's) \<Rightarrow> ('s, 'c) chunk \<Rightarrow> ('s, 'c) stage
      \<Rightarrow> (decode_error, unit) result \<times> ('s, 'c) stage" where
  "stage_push cv shape c g =
     (case trimmer_push cv shape c (trimmer g) of
        (Inl e, t) \<Rightarrow> (Inl e, g\<lparr>trimmer := t\<rparr>)
      | (Inr out, t) \<Rightarrow> (Inr (), replace_pending out (g\<lparr>trimmer := t\<rparr>)))"

definition stage_flush :: "'c curves \<Rightarrow> ('s, 'c) stage \<Rightarrow> (decode_error, unit) result \<times> ('s, 'c) stage" where
  "stage_flush cv g =
     (case trimmer_flush cv (trimmer g) of
        (Inl e, t) \<Rightarrow> (Inl e, g\<lparr>trimmer := t\<rparr>)
      | (Inr out, t) \<Rightarrow> (Inr (), replace_pending out (g\<lparr>trimmer := t\<rparr>)))"

definition stage_seek :: "('s, 'c) stage \<Rightarrow> ('s, 'c) stage" where
  "stage_seek g = g\<lparr>retired := 0, pending := None, trimmer := notify_seek (trimmer g)\<rparr>"

definition set_tail_compensation :: "gapless_profile \<Rightarrow> audio_codec option \<Rightarrow> ('s, 'c) stage \<Rightarrow> ('s, 'c) stage" where
  "set_tail_compensation p codec g = g\<lparr>trimmer := (trimmer g)\<lparr>tail_compensation := compensation_for p codec\<rparr>\<rparr>"

subsection \<open>The clock the pipeline publishes\<close>

datatype decoder_duration = RawLength duration | MediaEnd duration

definition ok :: "('e, 'a) result \<Rightarrow> 'a option" where
  "ok r = (case r of Inl _ \<Rightarrow> None | Inr a \<Rightarrow> Some a)"

definition visible_origin :: "duration \<Rightarrow> gapless_profile \<Rightarrow> gapless_mode \<Rightarrow> duration option" where
  "visible_origin raw p m =
     (let leading = (case m of
            NoTrim \<Rightarrow> 0
          | MediaOnly \<Rightarrow> (case pf_gapless p of Some info \<Rightarrow> leading_frames info | None \<Rightarrow> 0)
          | CodecPriming \<Rightarrow> (case pf_gapless p of Some info \<Rightarrow> leading_frames info | None \<Rightarrow> default_priming_frames p))
      in if leading = 0 then Some raw
         else do {
           start \<leftarrow> ok (frame_at (pf_spec p) raw);
           past \<leftarrow> checked_add u64_max start leading;
           e \<leftarrow> ok (duration_for (pf_spec p) past);
           s \<leftarrow> ok (duration_for (pf_spec p) start);
           offset \<leftarrow> checked_sub e s;
           checked_add duration_max raw offset
         })"

definition trimmed_media_end :: "duration \<Rightarrow> gapless_profile \<Rightarrow> gapless_mode \<Rightarrow> duration option" where
  "trimmed_media_end e p m =
     (let trailing = (if m = NoTrim then 0 else case pf_gapless p of Some info \<Rightarrow> trailing_frames info | None \<Rightarrow> 0)
      in Option.bind (ok (duration_for (pf_spec p) trailing)) (checked_sub e))"

definition visible_duration ::
    "decoder_duration option \<Rightarrow> gapless_profile \<Rightarrow> gapless_mode \<Rightarrow> duration option \<Rightarrow> duration option \<Rightarrow> duration option" where
  "visible_duration declared p m base media =
     (case declared of
        None \<Rightarrow> None
      | Some (MediaEnd e) \<Rightarrow> do {
          media \<leftarrow> media;
          e \<leftarrow> trimmed_media_end e p m;
          e \<leftarrow> checked_add duration_max media e;
          base \<leftarrow> base;
          checked_sub e base
        }
      | Some (RawLength raw) \<Rightarrow>
          if m = NoTrim then Some raw
          else (case (case pf_gapless p of
                        Some info \<Rightarrow> Some (sat_add u64_max (leading_frames info) (trailing_frames info))
                      | None \<Rightarrow> if m = CodecPriming then Some (default_priming_frames p) else None) of
                  None \<Rightarrow> Some raw
                | Some trim_frames \<Rightarrow>
                    if trim_frames = 0 then Some raw
                    else Some (raw - (case duration_for (pf_spec p) trim_frames of Inr d \<Rightarrow> d | Inl _ \<Rightarrow> u64_max))))"

definition published_media_end ::
    "decoder_duration option \<Rightarrow> gapless_profile \<Rightarrow> gapless_mode \<Rightarrow> duration option \<Rightarrow> duration option
      \<Rightarrow> duration option \<Rightarrow> duration option \<Rightarrow> duration option" where
  "published_media_end declared p m physical physical_origin media_origin decoded_end =
     (case (decoded_end, media_origin) of
        (Some e, Some base) \<Rightarrow> checked_sub e base
      | _ \<Rightarrow> (case declared of
          Some (MediaEnd e) \<Rightarrow> trimmed_media_end e p m
        | _ \<Rightarrow> do {
            start \<leftarrow> physical_origin;
            len \<leftarrow> physical;
            e \<leftarrow> checked_add duration_max start len;
            base \<leftarrow> media_origin;
            checked_sub e base
          }))"

subsection \<open>Counts from an edit list\<close>

lemma scale_frames_nearest:
  assumes "scale_frames n rate per_second = Some f"
  shows "0 < per_second \<and> f * per_second \<le> n * rate + per_second div 2 \<and> n * rate + per_second div 2 < f * per_second + per_second"
proof -
  have f: "0 < per_second" "f = (n * rate + per_second div 2) div per_second"
    using assms by (auto simp: scale_frames_def Let_def split: if_splits)
  show ?thesis
    using dividend_less_div_times [OF f(1), of "n * rate + per_second div 2"]
      div_times_less_eq_dividend [of "n * rate + per_second div 2" per_second] f(1)
    unfolding f(2) by linarith
qed

lemma derive_from_edit_Some:
  assumes "derive_from_edit edit media rate per_second = Some info"
  shows "media_rate edit = 65536 \<and> 0 \<le> media_time edit \<and> (0 < leading_frames info \<or> 0 < trailing_frames info)
    \<and> scale_frames (nat (media_time edit)) rate (timescale media) = Some (leading_frames info)
    \<and> (\<exists>valid. scale_frames (segment_duration edit) rate per_second = Some valid
        \<and> scale_frames (media_duration media) rate (timescale media) = Some (leading_frames info + valid + trailing_frames info))"
proof -
  have edit: "media_rate edit = 65536" "\<not> media_time edit < 0"
    using assms by (auto simp: derive_from_edit_def split: if_splits)
  obtain leading valid whole where *: "scale_frames (nat (media_time edit)) rate (timescale media) = Some leading"
      "scale_frames (segment_duration edit) rate per_second = Some valid"
      "scale_frames (media_duration media) rate (timescale media) = Some whole" "leading + valid \<le> whole"
      "\<not> (leading = 0 \<and> whole - (leading + valid) = 0)"
      "info = \<lparr>leading_frames = leading, trailing_frames = whole - (leading + valid)\<rparr>"
    using assms edit unfolding derive_from_edit_def by (simp add: bind_eq_Some_conv split: if_splits) blast
  then show ?thesis
    using edit by auto
qed

subsection \<open>The two scans agree\<close>

definition same_edit :: "mp4_edit option \<Rightarrow> track_edit \<Rightarrow> bool" where
  "same_edit e f \<longleftrightarrow>
     (case f of
        Offset edit \<Rightarrow> e = Some edit
      | Identity \<Rightarrow> e = None
      | Unsupported \<Rightarrow> (case e of Some edit \<Rightarrow> media_time edit < 0 \<or> media_rate edit \<noteq> 65536 | None \<Rightarrow> True))"

definition same_track :: "gapless_probe \<Rightarrow> presentation_scan \<Rightarrow> bool" where
  "same_track p s \<longleftrightarrow>
     (case (current p, sc_track s) of
        (Some t, Some u) \<Rightarrow> ts_media t = track_media u \<and> ts_rate t = track_rate u \<and> same_edit (ts_edit t) (track_edit u)
      | (None, None) \<Rightarrow> True
      | _ \<Rightarrow> False)
     \<and> movie_timescale p = sc_scale s"

text \<open>The events between the begin and the end of a track.\<close>

fun track_event :: "mp4_event \<Rightarrow> bool" where
  "track_event (TrackId k) = True"
| "track_event (TrackCodec kind) = True"
| "track_event (TrackEditList edits) = True"
| "track_event (TrackMediaTiming timing) = True"
| "track_event (TrackSampleRate rate) = True"
| "track_event e = False"

lemma same_edit_list:
  "same_edit (case edits of [edit] \<Rightarrow> Some edit | _ \<Rightarrow> None)
     (case edits of [] \<Rightarrow> Identity
      | [edit] \<Rightarrow> if 0 \<le> media_time edit \<and> media_rate edit = 65536 then Offset edit else Unsupported
      | _ \<Rightarrow> Unsupported)"
  by (auto simp: same_edit_def split: list.split)

lemma track_event_visits:
  assumes "track_event e" "same_track p s"
  shows "\<exists>p'. probe_visit e p = (True, p') \<and> same_track p' (scan_visit e s)
    \<and> elst_derived p' = elst_derived p \<and> itunsmpb p' = itunsmpb p
    \<and> sc_result (scan_visit e s) = sc_result s \<and> sc_itunsmpb (scan_visit e s) = sc_itunsmpb s"
proof (cases e)
  case (TrackEditList edits)
  then show ?thesis
    using assms same_edit_list [of edits]
    by (cases "current p"; cases "sc_track s") (simp_all add: probe_visit_def scan_visit_def same_track_def)
qed (use assms in \<open>auto simp: probe_visit_def scan_visit_def same_track_def split: option.splits\<close>)

lemma presentation_gapless:
  assumes "ts_media t = track_media u" "ts_rate t = track_rate u" "same_edit (ts_edit t) (track_edit u)"
    and "track_presentation u per_second = Some r"
  shows "pr_gapless r = derive_from_track t per_second"
proof -
  obtain media rate where *: "track_media u = Some media" "track_rate u = Some rate"
    using assms(4) by (auto simp: track_presentation_def bind_eq_Some_conv)
  show ?thesis
  proof (cases "track_edit u")
    case Identity
    then show ?thesis
      using assms * by (auto simp: track_presentation_def derive_from_track_def same_edit_def bind_eq_Some_conv)
  next
    case (Offset edit)
    then show ?thesis
      using assms * by (auto simp: track_presentation_def derive_from_track_def same_edit_def bind_eq_Some_conv
          split: option.splits bind_splits)
  next
    case Unsupported
    then have "derive_from_track t per_second = None"
      using assms(1-3) * by (cases "ts_edit t"; cases per_second)
        (auto simp: derive_from_track_def same_edit_def derive_from_edit_def)
    then show ?thesis
      using assms(4) Unsupported by (auto simp: track_presentation_def bind_eq_Some_conv)
  qed
qed

text \<open>The tags come after the tracks of a movie, at most one of them.\<close>

lemma track_events_visits:
  assumes "list_all track_event es" "same_track p s"
  shows "\<exists>p'. probe_events (es @ rest) p = probe_events rest p' \<and> same_track p' (fold scan_visit es s)
    \<and> elst_derived p' = elst_derived p \<and> itunsmpb p' = itunsmpb p
    \<and> sc_result (fold scan_visit es s) = sc_result s \<and> sc_itunsmpb (fold scan_visit es s) = sc_itunsmpb s"
  using assms
proof (induction es arbitrary: p s)
  case (Cons e es)
  obtain p' where p': "probe_visit e p = (True, p')" "same_track p' (scan_visit e s)" "elst_derived p' = elst_derived p"
      "itunsmpb p' = itunsmpb p" "sc_result (scan_visit e s) = sc_result s" "sc_itunsmpb (scan_visit e s) = sc_itunsmpb s"
    using track_event_visits [of e p s] Cons.prems by auto
  show ?case
    using Cons.IH [of p' "scan_visit e s"] Cons.prems(1) p' by simp
qed auto

text \<open>C24: the two scans of an MP4 agree on the trims.  For a movie with one complete track, whose tag (if
  it has one) follows the track, the streaming probe, which stops at the first source it can prove, and
  the presentation of the track find the same gapless counts, or none; and counts taken from the edit
  list split the media: the leading frames, the edited ones and the trailing ones are all its frames.\<close>

theorem gapless_scans_agree:
  assumes "list_all track_event body" "probe_presentations (MovieTimescale per_second # TrackBegin # body @ TrackEnd # tag) = [r]"
    and "tag = [] \<or> (\<exists>info. tag = [ItunSmpb info])"
  shows "probe_result (probe_events (MovieTimescale per_second # TrackBegin # body @ TrackEnd # tag) probe_default) = pr_gapless r
    \<and> (derive_from_edit edit media rate per_second = Some info \<longrightarrow>
        (\<exists>valid. scale_frames (segment_duration edit) rate per_second = Some valid
          \<and> scale_frames (media_duration media) rate (timescale media)
            = Some (leading_frames info + valid + trailing_frames info)))"
proof -
  define s where "s = \<lparr>sc_scale = Some per_second, sc_track = Some \<lparr>track_id = None, track_media = None, track_rate = None,
      track_edit = Identity\<rparr>, sc_result = [], sc_itunsmpb = None\<rparr>"
  define p where "p = probe_default\<lparr>movie_timescale := Some per_second, current := Some \<lparr>ts_edit = None, ts_media = None, ts_rate = None\<rparr>\<rparr>"
  have "same_track p s"
    by (simp add: same_track_def p_def s_def same_edit_def)
  from track_events_visits [OF assms(1) this, of "TrackEnd # tag"]
  obtain p' where p': "probe_events (body @ TrackEnd # tag) p = probe_events (TrackEnd # tag) p'" "same_track p' (fold scan_visit body s)"
      "elst_derived p' = None" "itunsmpb p' = None"
    and s': "sc_result (fold scan_visit body s) = []" "sc_itunsmpb (fold scan_visit body s) = None"
    by (auto simp: p_def s_def probe_default_def)
  define s2 where "s2 = fold scan_visit body s"
  have probe: "probe_events (MovieTimescale per_second # TrackBegin # body @ TrackEnd # tag) probe_default = probe_events (TrackEnd # tag) p'"
    using p'(1) by (simp add: probe_visit_def p_def)
  have scan: "fold scan_visit (MovieTimescale per_second # TrackBegin # body @ TrackEnd # tag)
      \<lparr>sc_scale = None, sc_track = None, sc_result = [], sc_itunsmpb = None\<rparr> = fold scan_visit tag (scan_visit TrackEnd s2)"
    by (simp add: s2_def s_def scan_visit_def)
  have result: "sc_result (fold scan_visit tag x) = sc_result x" for x
    using assms(3) by (auto simp: scan_visit_def)
  obtain u q where u: "sc_track s2 = Some u" "track_presentation u (sc_scale s2) = Some q"
    using assms(2) s'(1) unfolding probe_presentations_def scan Let_def
    by (auto simp: result scan_visit_def s2_def [symmetric] split: option.splits list.splits)
  obtain t where t: "current p' = Some t" "ts_media t = track_media u" "ts_rate t = track_rate u"
      "same_edit (ts_edit t) (track_edit u)" "movie_timescale p' = sc_scale s2"
    using p'(2) u(1) by (auto simp: same_track_def s2_def split: option.splits)
  have q: "pr_gapless q = derive_from_track t (sc_scale s2)"
    by (rule presentation_gapless [OF t(2-4) u(2)])
  have "probe_result (probe_events (TrackEnd # tag) p') = pr_gapless r"
  proof (cases "derive_from_track t (sc_scale s2)")
    case None
    then show ?thesis
      using assms(2,3) s' u q t(1,5) p'(3,4) unfolding probe_presentations_def scan Let_def
      by (auto simp: scan_visit_def probe_visit_def finish_track_def probe_result_def s2_def [symmetric] split: if_splits)
  next
    case (Some info)
    then show ?thesis
      using assms(2,3) s' u q t(1,5) p'(3,4) unfolding probe_presentations_def scan Let_def
      by (auto simp: scan_visit_def probe_visit_def finish_track_def probe_result_def s2_def [symmetric] split: if_splits)
  qed
  then show ?thesis
    using probe derive_from_edit_Some [of edit media rate per_second info] by auto
qed

subsection \<open>What holds of every chunk\<close>

text \<open>A fact about single chunks that cutting and shaping keep holds of all that comes out of a trimmer.\<close>

locale chunk_fact =
  fixes cv :: "'c curves" and P :: "('s, 'c) chunk \<Rightarrow> bool"
  assumes start_keeps: "P c \<Longrightarrow> k < chunk_frames c \<Longrightarrow> trim_chunk_start cv k c = Inr d \<Longrightarrow> P d"
    and end_keeps: "P c \<Longrightarrow> k < chunk_frames c \<Longrightarrow> trim_chunk_end cv k c = Inr d \<Longrightarrow> P d"
    and shape_keeps: "P c \<Longrightarrow> length xs = length (samples c) \<Longrightarrow> P (c\<lparr>samples := xs\<rparr>)"
begin

lemma fade_keeps:
  assumes "apply_fade_in shape f c = (g, d)" "P c"
  shows "P d"
proof -
  have "\<exists>xs. snd (fade_apply shape h c) = c\<lparr>samples := xs\<rparr> \<and> length xs = length (samples c)" for h
  proof (cases "fade_done h \<or> chunk_frames c = 0")
    case True
    then show ?thesis
      by (auto simp: fade_apply_def intro!: exI [of _ "samples c"])
  next
    case False
    have len: "length (map f (enumerate 0 (take n xs)) @ drop n xs) = length xs" for f :: "nat \<times> 's \<Rightarrow> 's" and n and xs :: "'s list"
      by (simp add: min_def)
    show ?thesis
      unfolding fade_apply_def Let_def if_not_P [OF False] snd_conv by (intro exI conjI) (rule refl, rule len)
  qed
  then show ?thesis
    using assms shape_keeps [OF assms(2)]
    by (auto simp: apply_fade_in_def split: option.splits prod.splits) (metis snd_conv)
qed

lemma leading_keeps: "trim_leading cv c k = (Inr (Some d), k') \<Longrightarrow> P c \<Longrightarrow> P d"
  by (cases "trim_chunk_start cv k c") (auto simp: trim_leading_def not_le intro: start_keeps split: if_splits)

lemma push_keeps:
  assumes "trimmer_push cv shape c t = (Inr ready, t')" "P c" "list_all P (chunks (tail_buffer t))"
  shows "list_all P ready \<and> list_all P (chunks (tail_buffer t'))"
proof (cases "mode t")
  case Disabled
  then show ?thesis
    using assms by (auto simp: trimmer_push_def split: sum.splits)
next
  case (Fixed lead fade)
  obtain x lead' where x: "trim_leading cv c lead = (Inr x, lead')"
    using assms(1) Fixed by (auto simp: trimmer_push_def Let_def split: sum.splits prod.splits)
  show ?thesis
  proof (cases "case x of Some d \<Rightarrow> chunk_frames d = 0 | None \<Rightarrow> True")
    case True
    then show ?thesis
      using assms Fixed x by (auto simp: trimmer_push_def Let_def split: sum.splits option.splits)
  next
    case False
    then obtain d where d: "x = Some d" "chunk_frames d \<noteq> 0"
      by (cases x) auto
    obtain f e where e: "apply_fade_in shape fade d = (f, e)"
      by fastforce
    obtain b where b: "buffer_release (held_back t) (buffer_push e (tail_buffer t)) = (ready, b)" "tail_buffer t' = b"
      using assms(1) Fixed x d e by (auto simp: trimmer_push_def Let_def split: sum.splits prod.splits)
    have "P e"
      using fade_keeps [OF e] leading_keeps x d(1) assms(2) by blast
    then have all: "list_all P (chunks (buffer_push e (tail_buffer t)))"
      using assms(3) by (simp add: buffer_push_def)
    obtain k where "ready = take k (chunks (buffer_push e (tail_buffer t)))" "chunks b = drop k (chunks (buffer_push e (tail_buffer t)))"
      using b(1) by (auto simp: buffer_release_def split: prod.splits)
    then show ?thesis
      using all b(2) by (metis append_take_drop_id list_all_append)
  qed
qed

lemma pushes_keep:
  "trim_pushes cv shape cs t = (Inr ready, t') \<Longrightarrow> list_all P cs \<Longrightarrow> list_all P (chunks (tail_buffer t))
    \<Longrightarrow> list_all P ready \<and> list_all P (chunks (tail_buffer t'))"
proof (induction cs arbitrary: t ready)
  case (Cons c cs)
  obtain x t1 where p: "trimmer_push cv shape c t = (x, t1)"
    by fastforce
  with Cons.prems(1) obtain now later where r: "x = Inr now" "trim_pushes cv shape cs t1 = (Inr later, t')" "ready = now @ later"
    by (auto split: sum.splits prod.splits)
  show ?case
    using push_keeps [OF p [unfolded r(1)]] Cons.IH [OF r(2)] Cons.prems(2,3) r(3) by simp
qed simp

lemma trim_back_keeps:
  "trim_back cv k cs f = (x, ds, f') \<Longrightarrow> list_all P cs \<Longrightarrow> list_all P ds"
proof (induction cs arbitrary: k f)
  case (Cons c cs)
  then show ?case
    by (auto simp: not_le intro: end_keeps split: if_splits sum.splits)
qed simp

lemma track_keeps:
  assumes "trim_track cv shape cs t = Inr out" "list_all P cs" "list_all P (chunks (tail_buffer t))"
  shows "list_all P out"
proof -
  obtain ready t' tail where t': "trim_pushes cv shape cs t = (Inr ready, t')" "fst (trimmer_flush cv t') = Inr tail" "out = ready @ tail"
    using assms(1) by (auto simp: trim_track_def res_bind_Inr split: prod.splits sum.splits)
  have kept: "list_all P ready" "list_all P (chunks (tail_buffer t'))"
    using pushes_keep [OF t'(1) assms(2,3)] by simp_all
  have "list_all P tail"
    using t'(2) kept(2)
    by (auto simp: trimmer_flush_def buffer_trim_def list_all_rev split: trim_mode.splits prod.splits sum.splits
        dest!: trim_back_keeps)
  then show ?thesis
    using kept(1) t'(3) by simp
qed

end

subsection \<open>Chunks on the frame clock\<close>

text \<open>A chunk without a source mapping whose start is the time of its first frame.\<close>

definition on_grid :: "nat \<Rightarrow> audio_spec \<Rightarrow> ('s, 'c) chunk \<Rightarrow> bool" where
  "on_grid n sp c \<longleftrightarrow>
     0 < n \<and> chunk_ok n c \<and> unmapped c \<and> spec c = sp \<and> duration_for sp (frame_offset c) = Inr (timestamp c)
     \<and> (case duration_for sp (frame_offset c + chunk_frames c) of Inl _ \<Rightarrow> False | Inr _ \<Rightarrow> True)"

lemma duration_mono: "duration_for sp g = Inr e \<Longrightarrow> f \<le> g \<Longrightarrow> \<exists>d. duration_for sp f = Inr d \<and> d \<le> e"
  using div_le_mono [of "f * nanos_per_second" "g * nanos_per_second" "spec_rate sp"]
  by (auto simp: duration_for_Inr intro: order_trans)

lemma on_grid_start:
  assumes "on_grid n sp c" "k < chunk_frames c" "trim_chunk_start cv k c = Inr d"
  shows "on_grid n sp d"
proof -
  have c: "0 < n" "chunk_ok n c" "source_span c = None" "spec c = sp" "duration_for sp (frame_offset c) = Inr (timestamp c)"
    using assms(1) by (simp_all add: on_grid_def unmapped_def)
  obtain e where e: "duration_for sp (frame_offset c + chunk_frames c) = Inr e"
    using assms(1) by (auto simp: on_grid_def split: sum.splits)
  note cut = trim_chunk_start_ok [OF assms(3) c(2,1) assms(2)]
  obtain t where t: "duration_for sp (frame_offset c + k) = Inr t" "t \<le> e"
    using duration_mono [OF e, of "frame_offset c + k"] assms(2) by auto
  have "timestamp c \<le> t"
    using duration_mono [OF t(1), of "frame_offset c"] c(5) by auto
  moreover have "e \<le> duration_max"
    using e by (simp add: duration_for_Inr duration_max_def u64_max_def nanos_per_second_def)
  ultimately have sum: "sat_add duration_max (timestamp c) (t - timestamp c) = t"
    using t(2) by (simp add: sat_add_def)
  have "sat_add u64_max (frame_offset c) k = frame_offset c + k"
    using c(2) assms(2) by (simp add: chunk_ok_def sat_add_def)
  then have "spec d = sp \<and> source_span d = None \<and> timestamp d = t"
    using assms(3) c(3-5) t(1) sum by (auto simp: trim_chunk_start_def trim_source_span_def Let_def)
  moreover have "frame_offset d + chunk_frames d = frame_offset c + chunk_frames c"
    using cut assms(2) by simp
  ultimately show ?thesis
    using cut c(1) t(1) e by (simp add: on_grid_def unmapped_def)
qed

lemma on_grid_end:
  assumes "on_grid n sp c" "k < chunk_frames c" "trim_chunk_end cv k c = Inr d"
  shows "on_grid n sp d"
proof -
  have c: "0 < n" "chunk_ok n c" "source_span c = None" "spec c = sp" "duration_for sp (frame_offset c) = Inr (timestamp c)"
    using assms(1) by (simp_all add: on_grid_def unmapped_def)
  obtain e where e: "duration_for sp (frame_offset c + chunk_frames c) = Inr e"
    using assms(1) by (auto simp: on_grid_def split: sum.splits)
  note cut = trim_chunk_end_ok [OF assms(3) c(2,1) less_imp_le [OF assms(2)]]
  have "spec d = sp \<and> source_span d = None \<and> timestamp d = timestamp c"
    using assms(3) c(3,4) by (auto simp: trim_chunk_end_def trim_source_span_def Let_def)
  moreover obtain t where "duration_for sp (frame_offset d + chunk_frames d) = Inr t"
    using duration_mono [OF e, of "frame_offset d + chunk_frames d"] cut by auto
  ultimately show ?thesis
    using cut c(1,5) by (simp add: on_grid_def unmapped_def)
qed

lemma on_grid_samples:
  assumes "on_grid n sp c" "length xs = length (samples c)"
  shows "on_grid n sp (c\<lparr>samples := xs\<rparr>)"
proof -
  have "chunk_frames (c\<lparr>samples := xs\<rparr>) = chunk_frames c"
    using assms(2) by (simp add: chunk_frames_def)
  then show ?thesis
    using assms by (auto simp: on_grid_def chunk_ok_def unmapped_def)
qed

interpretation grid: chunk_fact cv "on_grid n sp" for cv n sp
  by unfold_locales (fact on_grid_start on_grid_end on_grid_samples)+

text \<open>The frames each choice of trimmer drops at the start.\<close>

definition leading_of :: "gapless_profile \<Rightarrow> gapless_mode \<Rightarrow> nat" where
  "leading_of p m =
     (case m of
        NoTrim \<Rightarrow> 0
      | MediaOnly \<Rightarrow> (case pf_gapless p of Some info \<Rightarrow> leading_frames info | None \<Rightarrow> 0)
      | CodecPriming \<Rightarrow> (case pf_gapless p of Some info \<Rightarrow> leading_frames info | None \<Rightarrow> default_priming_frames p))"

lemma built_trimmer:
  assumes "t = build_trimmer p m codec"
  shows "tail_buffer t = buffer_empty \<and> input_frames_seen t = 0
    \<and> (mode t = Disabled \<and> leading_of p m = 0 \<or> (\<exists>f \<le> u16_max. mode t = Fixed (leading_of p m) (fade_at f 0)))"
proof -
  have "fade_at 0 0 = None"
    by (simp add: fade_at_def)
  moreover have "Some (fade_for_sample_rate r) = fade_at (total_frames (fade_for_sample_rate r)) 0"
    and "total_frames (fade_for_sample_rate r) \<le> u16_max" for r
    by (simp_all add: fade_for_sample_rate_def fade_at_def u16_max_def)
  ultimately show ?thesis
    unfolding assms build_trimmer_def leading_of_def resolve_codec_priming_def codec_priming_def trimmer_disabled_def trimmer_of_info_def
    by (cases m; cases "pf_gapless p"; simp; metis zero_le)
qed

text \<open>C23: the origin the pipeline publishes for a track is the time of the first frame that comes out.  For
  a track of unmapped chunks on the frame clock, in each gapless mode, adding the time of the dropped
  frames to the raw start gives, to the nanosecond, the timestamp of the first trimmed chunk, whatever
  chunks the dropped frames were spread over.\<close>

theorem visible_origin_is_the_first_frame:
  assumes "list_all (on_grid n (pf_spec p)) (c # cs)" "timeline (frame_offset c) (c # cs)" "total (c # cs) \<le> u64_max"
    and "0 < spec_rate (pf_spec p)" "spec_rate (pf_spec p) \<le> 500000000"
    and "trim_track cv shape (c # cs) (build_trimmer p m codec) = Inr (d # ds)"
  shows "visible_origin (timestamp c) p m = Some (timestamp d)"
proof -
  let ?sp = "pf_spec p"
  define t where "t = (build_trimmer p m codec :: ('a, 'b) trimmer)"
  note built = built_trimmer [OF t_def] and track = assms(6) [folded t_def]
  have c: "0 < n" "list_all (chunk_ok n) (c # cs)" "duration_for ?sp (frame_offset c) = Inr (timestamp c)"
    using assms(1) by (auto simp: on_grid_def list_all_iff)
  have "list_all (on_grid n ?sp) (d # ds)"
    by (rule grid.track_keeps [OF track assms(1)]) (simp add: built buffer_empty_def)
  then have d: "duration_for ?sp (frame_offset d) = Inr (timestamp d)" "frame_offset d \<le> u64_max"
    by (auto simp: on_grid_def chunk_ok_def)
  have "frame_offset d = frame_offset c + leading_of p m"
  proof (cases "mode t = Disabled")
    case True
    then show ?thesis
      using disabled_track [OF True track] built by auto
  next
    case False
    then obtain f where f: "f \<le> u16_max" "mode t = Fixed (leading_of p m) (fade_at f 0)" "tail_buffer t = buffer_empty"
        "input_frames_seen t = 0"
      using built by auto
    show ?thesis
      using trim_track_exact [OF trimming_starts [OF f(2-4)] track c(2,1) f(1) assms(3), of "frame_offset c"] assms(2) by simp
  qed
  then have lead: "duration_for ?sp (frame_offset c + leading_of p m) = Inr (timestamp d)" "frame_offset c + leading_of p m \<le> u64_max"
    using d by simp_all
  obtain g where "frame_at ?sp (timestamp c) = Inr g"
    using frame_at_fits [OF assms(5), of "timestamp c"] c(3) by (auto simp: duration_for_Inr)
  then have at: "frame_at ?sp (timestamp c) = Inr (frame_offset c)"
    using frame_at_duration [OF assms(4,5) c(3)] by simp
  have le: "timestamp c \<le> timestamp d" "timestamp d \<le> duration_max"
    using duration_mono [OF lead(1), of "frame_offset c"] c(3) lead(1)
    by (auto simp: duration_for_Inr duration_max_def u64_max_def nanos_per_second_def)
  have "visible_origin (timestamp c) p m =
      (if leading_of p m = 0 then Some (timestamp c) else Some (timestamp d))"
    unfolding visible_origin_def leading_of_def [symmetric] Let_def
    using at lead c(3) le by (simp add: ok_def checked_add_def checked_sub_def)
  moreover have "timestamp d = timestamp c" if "leading_of p m = 0"
    using that lead(1) c(3) by simp
  ultimately show ?thesis
    by auto
qed

subsection \<open>A short movie and a short track\<close>

definition demo_edit :: mp4_edit where
  "demo_edit = \<lparr>media_time = 2, segment_duration = 3, media_rate = 65536\<rparr>"

definition demo_body :: "mp4_event list" where
  "demo_body = [TrackId 7, TrackEditList [demo_edit], TrackMediaTiming \<lparr>timescale = 4, media_duration = 9\<rparr>, TrackSampleRate 4]"

lemma gapless_scans_agree_witness:
  "probe_result (probe_events (MovieTimescale 4 # TrackBegin # demo_body @ [TrackEnd]) probe_default)
    = Some \<lparr>leading_frames = 2, trailing_frames = 4\<rparr>"
proof -
  have counts: "scale_frames 2 4 4 = Some 2" "scale_frames 3 4 4 = Some 3" "scale_frames 9 4 4 = Some 9"
    by (simp_all add: scale_frames_def u64_max_def)
  have edit: "derive_from_edit demo_edit \<lparr>timescale = 4, media_duration = 9\<rparr> 4 4 = Some \<lparr>leading_frames = 2, trailing_frames = 4\<rparr>"
    by (simp add: derive_from_edit_def demo_edit_def counts checked_add_def checked_sub_def u64_max_def)
  have "0 \<le> media_time demo_edit \<and> media_rate demo_edit = 65536"
    by (simp add: demo_edit_def)
  then have "\<exists>r. probe_presentations (MovieTimescale 4 # TrackBegin # demo_body @ TrackEnd # []) = [r]
      \<and> pr_gapless r = Some \<lparr>leading_frames = 2, trailing_frames = 4\<rparr>"
    by (simp add: probe_presentations_def demo_body_def scan_visit_def track_presentation_def Let_def edit)
  moreover have "list_all track_event demo_body"
    by (simp add: demo_body_def)
  ultimately show ?thesis
    using gapless_scans_agree [where tag = "[]" and body = demo_body and per_second = 4] by auto
qed

definition demo_profile :: gapless_profile where
  "demo_profile = \<lparr>pf_spec = cd_audio, pf_gapless = Some demo_info, pf_tail = None, default_priming_frames = 0\<rparr>"

lemma demo_on_grid: "list_all (on_grid 2 cd_audio) demo_track"
proof -
  have "duration_for cd_audio f = Inr (f * nanos_per_second div 44100)" if "f \<le> 5" for f
    using that by (simp add: duration_for_Inr cd_audio_def nanos_per_second_def u64_max_def div_le_mono)
  then show ?thesis
    using demo_chunks(1,4) by (simp add: demo_track_def demo_chunk_def on_grid_def chunk_frames_def) (simp add: cd_audio_def)
qed

lemma visible_origin_is_the_first_frame_witness:
  "case trim_track demo_curves (\<lambda>k m x. x) demo_track (build_trimmer demo_profile MediaOnly None) of
     Inr (d # ds) \<Rightarrow> visible_origin 0 demo_profile MediaOnly = Some (timestamp d)
   | _ \<Rightarrow> False"
proof -
  let ?t = "build_trimmer demo_profile MediaOnly None :: (nat, unit) trimmer"
  have t: "?t = trimmer_of_info demo_info"
    by (simp add: build_trimmer_def demo_profile_def compensation_for_def trimmer_of_info_def)
  have start: "mode ?t = Fixed 1 (fade_at 0 0)" "tail_buffer ?t = buffer_empty" "input_frames_seen ?t = 0"
      "tail_compensation ?t = None" "held_back ?t = 2"
    by (simp_all add: t trimmer_of_info_def demo_info_def fade_at_def)
  obtain out where out: "trim_track demo_curves (\<lambda>k m x. x) demo_track ?t = Inr out"
    using trim_track_unmapped [OF demo_chunks(4), of ?t demo_curves "\<lambda>k m x. x"] start(2) by (auto simp: buffer_empty_def)
  have "total demo_track \<le> u64_max"
    by (simp add: demo_chunks u64_max_def)
  then have "pcm out = take ((5 - 1 - 2) * 2) (shaped (\<lambda>k m x. x) 0 2 0 (drop (1 * 2) (pcm demo_track)))"
    using trim_track_exact [OF trimming_starts [OF start(1-3)] out demo_chunks(1), of 0] start(4,5) by (simp add: demo_chunks)
  then have "pcm out \<noteq> []"
    by (simp add: shaped_def demo_track_def demo_chunk_def)
  then obtain d ds where d: "out = d # ds"
    by (cases out) auto
  define first rest where "first = demo_chunk 0 [1, 2, 3, 4]" and "rest = [demo_chunk 2 [5, 6], demo_chunk 3 [7, 8, 9, 10]]"
  have track: "demo_track = first # rest"
    by (simp add: demo_track_def first_def rest_def)
  have first: "frame_offset first = 0" "timestamp first = 0"
    by (simp_all add: first_def demo_chunk_def)
  have p: "pf_spec demo_profile = cd_audio" "0 < spec_rate cd_audio" "spec_rate cd_audio \<le> 500000000"
    by (simp_all add: demo_profile_def cd_audio_def)
  have "visible_origin (timestamp first) demo_profile MediaOnly = Some (timestamp d)"
    by (rule visible_origin_is_the_first_frame)
      (use demo_on_grid demo_chunks(3) \<open>total demo_track \<le> u64_max\<close> out in \<open>simp_all only: track p first d\<close>)
  then show ?thesis
    using out d first(2) by simp
qed

end
