(* ===== verification/Mp4_Scan.thy ===== *)
theory Mp4_Scan
  imports Gapless_Pipeline Blob
begin

text \<open>
  The scanner that walks the boxes of an MP4 file and reports what the gapless probes and the codec
  sniffers need (\<open>crates/kithara-decode/src/mp4\<close>: \<open>boxes.rs\<close>, \<open>parse.rs\<close>,
  \<open>freeform.rs\<close>, \<open>scan.rs\<close>), and its callers in \<open>gapless/mp4.rs\<close> and
  \<open>gapless/probe.rs\<close>.  The reader is a seekable list of bytes: a seek succeeds, a read past the end is
  the only I/O error, and an operation is given the position it starts at.  Whether the pool grants a
  payload buffer of some length is a parameter.  A visitor is a function on its state that says
  whether the scan goes on.
\<close>

datatype scan_error = UnexpectedEof | PoolExhausted | InvalidMp4 string

definition read_exact :: "u8 list \<Rightarrow> nat \<Rightarrow> nat \<Rightarrow> u8 list option" where
  "read_exact file pos n = (if n = 0 \<or> pos + n \<le> length file then Some (take n (drop pos file)) else None)"

subsection \<open>Payloads\<close>

definition read_be_u32 :: "u8 list \<Rightarrow> nat option" where
  "read_be_u32 data = (if 4 \<le> length data then Some (be_nat (take 4 data)) else None)"

definition read_be_u64 :: "u8 list \<Rightarrow> nat option" where
  "read_be_u64 data = (if 8 \<le> length data then Some (be_nat (take 8 data)) else None)"

definition signed_of :: "nat \<Rightarrow> nat \<Rightarrow> int" where
  "signed_of bits n = (if n < 2 ^ (bits - 1) then int n else int n - 2 ^ bits)"

definition read_be_i32 :: "u8 list \<Rightarrow> int option" where
  "read_be_i32 data = map_option (signed_of 32) (read_be_u32 data)"

definition read_be_i64 :: "u8 list \<Rightarrow> int option" where
  "read_be_i64 data = map_option (signed_of 64) (read_be_u64 data)"

definition bytes_range :: "u8 list \<Rightarrow> nat \<Rightarrow> nat \<Rightarrow> u8 list option" where
  "bytes_range data start n = (if start + n \<le> length data then Some (take n (drop start data)) else None)"

definition payload_slice :: "u8 list \<Rightarrow> nat \<Rightarrow> nat \<Rightarrow> string \<Rightarrow> (scan_error, u8 list) result" where
  "payload_slice data start n label = ok_or (InvalidMp4 (label @ '' is truncated'')) (bytes_range data start n)"

definition parse_stsd_codec :: "u8 list \<Rightarrow> u8 list option" where
  "parse_stsd_codec payload = bytes_range payload 12 4"

definition parse_stsd_sample_rate :: "u8 list \<Rightarrow> nat option" where
  "parse_stsd_sample_rate payload =
     (if length payload < 16 \<or> length (drop 16 payload) < 28 then None
      else map_option (\<lambda>rate. rate div 2 ^ 16) (read_be_u32 (take 4 (drop 24 (drop 16 payload)))))"

definition elst_field :: "u8 list \<Rightarrow> nat \<Rightarrow> nat \<Rightarrow> (u8 list \<Rightarrow> 'a option) \<Rightarrow> string \<Rightarrow> (scan_error, 'a) result" where
  "elst_field payload off n reads label =
     res_bind (payload_slice payload off n label) (\<lambda>bytes. ok_or (InvalidMp4 (label @ '' is truncated'')) (reads bytes))"

definition parse_elst_v0 :: "u8 list \<Rightarrow> nat \<Rightarrow> (scan_error, mp4_edit) result" where
  "parse_elst_v0 payload off =
     res_bind (elst_field payload off 4 read_be_u32 ''elst v0 segment duration'') (\<lambda>duration.
     res_bind (elst_field payload (off + 4) 4 read_be_i32 ''elst v0 media time'') (\<lambda>time.
     res_bind (elst_field payload (off + 8) 4 read_be_i32 ''elst v0 media rate'') (\<lambda>rate.
       Inr \<lparr>media_time = time, segment_duration = duration, media_rate = rate\<rparr>)))"

definition parse_elst_v1 :: "u8 list \<Rightarrow> nat \<Rightarrow> (scan_error, mp4_edit) result" where
  "parse_elst_v1 payload off =
     res_bind (elst_field payload off 8 read_be_u64 ''elst v1 segment duration'') (\<lambda>duration.
     res_bind (elst_field payload (off + 8) 8 read_be_i64 ''elst v1 media time'') (\<lambda>time.
     res_bind (elst_field payload (off + 16) 4 read_be_i32 ''elst v1 media rate'') (\<lambda>rate.
       Inr \<lparr>media_time = time, segment_duration = duration, media_rate = rate\<rparr>)))"

definition ELST_MAX_ENTRIES :: nat where
  "ELST_MAX_ENTRIES = 4096"

fun parse_entries :: "nat \<Rightarrow> nat \<Rightarrow> u8 list \<Rightarrow> nat \<Rightarrow> (scan_error, mp4_edit list) result" where
  "parse_entries version 0 payload off = Inr []"
| "parse_entries version (Suc n) payload off =
     res_bind
       (if version = 0 then map_sum id (\<lambda>e. (e, off + 12)) (parse_elst_v0 payload off)
        else if version = 1 then map_sum id (\<lambda>e. (e, off + 20)) (parse_elst_v1 payload off)
        else Inl (InvalidMp4 ''unsupported elst version''))
       (\<lambda>(entry, off). res_bind (parse_entries version n payload off) (\<lambda>entries. Inr (entry # entries)))"

definition parse_elst :: "u8 list \<Rightarrow> (scan_error, mp4_edit list) result" where
  "parse_elst payload =
     (case payload of
        [] \<Rightarrow> Inl (InvalidMp4 ''elst is empty'')
      | version # _ \<Rightarrow>
          res_bind (elst_field payload 4 4 read_be_u32 ''elst entry count'') (\<lambda>entry_count.
            parse_entries (unat version) (min entry_count ELST_MAX_ENTRIES) payload 8))"

definition parse_tkhd_track_id :: "u8 list \<Rightarrow> nat option" where
  "parse_tkhd_track_id payload =
     (case payload of
        [] \<Rightarrow> None
      | version # _ \<Rightarrow>
          if version = 0 then Option.bind (bytes_range payload 12 4) read_be_u32
          else if version = 1 then Option.bind (bytes_range payload 20 4) read_be_u32
          else None)"

definition parse_data_box :: "u8 list \<Rightarrow> (nat \<times> u8 list) option" where
  "parse_data_box payload = do {
     header \<leftarrow> Option.bind (bytes_range payload 0 4) read_be_u32;
     (if 8 \<le> length payload then Some (header mod 2 ^ 24, drop 8 payload) else None)
   }"

definition parse_mvhd_timescale :: "u8 list \<Rightarrow> nat option" where
  "parse_mvhd_timescale payload =
     (case payload of
        [] \<Rightarrow> None
      | version # _ \<Rightarrow>
          if version = 0 \<and> 16 \<le> length payload then read_be_u32 (take 4 (drop 12 payload))
          else if version = 1 \<and> 24 \<le> length payload then read_be_u32 (take 4 (drop 20 payload))
          else None)"

definition parse_mdhd :: "u8 list \<Rightarrow> mp4_media_timing option" where
  "parse_mdhd payload =
     (case payload of
        [] \<Rightarrow> None
      | version # _ \<Rightarrow>
          if version = 0 \<and> 20 \<le> length payload then do {
            per_second \<leftarrow> read_be_u32 (take 4 (drop 12 payload));
            ticks \<leftarrow> read_be_u32 (take 4 (drop 16 payload));
            Some \<lparr>timescale = per_second, media_duration = ticks\<rparr>
          }
          else if version = 1 \<and> 32 \<le> length payload then do {
            per_second \<leftarrow> read_be_u32 (take 4 (drop 20 payload));
            ticks \<leftarrow> read_be_u64 (take 8 (drop 24 payload));
            Some \<lparr>timescale = per_second, media_duration = ticks\<rparr>
          }
          else None)"

text \<open>The \<open>mean\<close> and \<open>name\<close> texts: the four bytes of the full box are skipped and the zeros at the end cut.\<close>

definition trim_zeros :: "u8 list \<Rightarrow> u8 list" where
  "trim_zeros body = rev (dropWhile (\<lambda>b. b = 0) (rev body))"

definition read_text_fullbox_bytes :: "u8 list \<Rightarrow> u8 list option" where
  "read_text_fullbox_bytes payload = (if 4 \<le> length payload then Some (trim_zeros (drop 4 payload)) else None)"

subsection \<open>The iTunSMPB text\<close>

definition continuation :: "u8 \<Rightarrow> bool" where
  "continuation b \<longleftrightarrow> 128 \<le> unat b \<and> unat b \<le> 191"

text \<open>\<open>str::from_utf8\<close> of the standard library: no overlong forms, no surrogates, nothing past U+10FFFF.\<close>

fun utf8 :: "u8 list \<Rightarrow> bool" where
  "utf8 [] \<longleftrightarrow> True"
| "utf8 (a # bs) \<longleftrightarrow>
     (let n = unat a in
      if n \<le> 127 then utf8 bs
      else if 194 \<le> n \<and> n \<le> 223 then
        (case bs of b # bs \<Rightarrow> continuation b \<and> utf8 bs | [] \<Rightarrow> False)
      else if 224 \<le> n \<and> n \<le> 239 then
        (case bs of b # c # bs \<Rightarrow>
           continuation b \<and> continuation c \<and> (n = 224 \<longrightarrow> 160 \<le> unat b) \<and> (n = 237 \<longrightarrow> unat b \<le> 159) \<and> utf8 bs
         | _ \<Rightarrow> False)
      else if 240 \<le> n \<and> n \<le> 244 then
        (case bs of b # c # d # bs \<Rightarrow>
           continuation b \<and> continuation c \<and> continuation d
             \<and> (n = 240 \<longrightarrow> 144 \<le> unat b) \<and> (n = 244 \<longrightarrow> unat b \<le> 143) \<and> utf8 bs
         | _ \<Rightarrow> False)
      else False)"

definition ascii_space :: "u8 \<Rightarrow> bool" where
  "ascii_space b \<longleftrightarrow> b \<in> {9, 10, 12, 13, 32}"

fun ascii_words :: "u8 list \<Rightarrow> u8 list \<Rightarrow> u8 list list" where
  "ascii_words word [] = (if word = [] then [] else [word])"
| "ascii_words word (b # bs) =
     (if ascii_space b then (if word = [] then [] else [word]) @ ascii_words [] bs else ascii_words (word @ [b]) bs)"

definition hex_value :: "u8 \<Rightarrow> nat option" where
  "hex_value b =
     (let n = unat b in
      if 48 \<le> n \<and> n \<le> 57 then Some (n - 48)
      else if 65 \<le> n \<and> n \<le> 70 then Some (n - 55)
      else if 97 \<le> n \<and> n \<le> 102 then Some (n - 87)
      else None)"

fun hex_digits :: "nat \<Rightarrow> u8 list \<Rightarrow> nat option" where
  "hex_digits acc [] = Some acc"
| "hex_digits acc (b # bs) =
     (case hex_value b of
        None \<Rightarrow> None
      | Some d \<Rightarrow> if acc * 16 + d \<le> u64_max then hex_digits (acc * 16 + d) bs else None)"

text \<open>\<open>u64::from_str_radix\<close> at radix 16: an optional plus sign and at least one digit, rejecting overflow.\<close>

definition parse_hex :: "u8 list \<Rightarrow> nat option" where
  "parse_hex bs =
     (let digits = (case bs of b # rest \<Rightarrow> if b = 43 then rest else bs | [] \<Rightarrow> [])
      in if digits = [] then None else hex_digits 0 digits)"

definition parse_itunsmpb :: "u8 list \<Rightarrow> gapless_info option" where
  "parse_itunsmpb value =
     (if utf8 value
      then case ascii_words [] (trim_zeros value) of
             version # leading # trailing # _ \<Rightarrow> do {
               leading \<leftarrow> parse_hex leading;
               trailing \<leftarrow> parse_hex trailing;
               Some \<lparr>leading_frames = leading, trailing_frames = trailing\<rparr>
             }
           | _ \<Rightarrow> None
      else None)"

subsection \<open>Boxes\<close>

text \<open>The kind of a box and the position past its last byte.\<close>

record box_ref =
  box_kind :: "u8 list"
  box_end :: nat

text \<open>The next box and where its payload starts; nothing at the limit, or at the end of a file without one.\<close>

definition next_box :: "u8 list \<Rightarrow> nat option \<Rightarrow> nat \<Rightarrow> (scan_error, (box_ref \<times> nat) option) result" where
  "next_box file limit start =
     (if case limit of Some l \<Rightarrow> l \<le> start | None \<Rightarrow> False then Inr None
      else case read_exact file start 8 of
        None \<Rightarrow> if limit \<noteq> None then Inl (InvalidMp4 ''truncated MP4 box header'') else Inr None
      | Some header \<Rightarrow>
          (let size32 = be_nat (take 4 header) in
           res_bind
             (if size32 = 1 then
                map_sum id (\<lambda>extended. Some (16, be_nat extended))
                  (ok_or (InvalidMp4 ''truncated extended MP4 box size'') (read_exact file (start + 8) 8))
              else if size32 = 0 then Inr (map_option (\<lambda>l. (8, l - start)) limit)
              else Inr (Some (8, size32)))
             (\<lambda>sizes. case sizes of
                None \<Rightarrow> Inr None
              | Some (header_len, total_size) \<Rightarrow>
                  if total_size < header_len then Inl (InvalidMp4 ''MP4 box size is smaller than its header'')
                  else res_bind (ok_or (InvalidMp4 ''MP4 box size overflow'') (checked_add u64_max start total_size)) (\<lambda>stop.
                    if case limit of Some l \<Rightarrow> l < stop | None \<Rightarrow> False
                    then Inl (InvalidMp4 ''MP4 box extends past available bytes'')
                    else Inr (Some (\<lparr>box_kind = drop 4 header, box_end = stop\<rparr>, start + header_len))))))"

definition read_payload :: "(nat \<Rightarrow> bool) \<Rightarrow> u8 list \<Rightarrow> string \<Rightarrow> nat \<Rightarrow> nat \<Rightarrow> (scan_error, u8 list) result" where
  "read_payload grant file label stop start =
     res_bind (ok_or (InvalidMp4 (label @ '' payload range underflow'')) (checked_sub stop start)) (\<lambda>payload_len.
       if grant payload_len then ok_or UnexpectedEof (read_exact file start payload_len) else Inl PoolExhausted)"

lemma read_exact_Some: "read_exact file pos n = Some bs \<Longrightarrow> 0 < n \<Longrightarrow> pos + n \<le> length file \<and> length bs = n"
  by (auto simp: read_exact_def split: if_splits)

lemma map_sum_Inr: "map_sum f g x = Inr y \<longleftrightarrow> (\<exists>a. x = Inr a \<and> y = g a)"
  by (cases x) auto

lemma next_box_advances:
  assumes "next_box file limit start = Inr (Some (b, body))"
  shows "start + 8 \<le> length file \<and> start + 8 \<le> body \<and> body \<le> box_end b \<and> box_end b \<le> u64_max
    \<and> (case limit of Some l \<Rightarrow> box_end b \<le> l | None \<Rightarrow> True)"
proof -
  obtain header where h: "read_exact file start 8 = Some header"
    using assms by (auto simp: next_box_def split: if_splits option.splits)
  then have "start + 8 \<le> length file"
    using read_exact_Some by fastforce
  then show ?thesis
    using assms h
    by (auto simp: next_box_def Let_def res_bind_Inr map_sum_Inr split: if_splits option.splits)
qed

type_synonym 'v flow = "(scan_error, bool) result \<times> 'v"

text \<open>The loop over the boxes up to a limit; \<open>visit\<close> answers whether to go on.  Wherever a visit leaves
  the reader, the loop seeks to the end of the box.\<close>

function walk_boxes :: "u8 list \<Rightarrow> nat option \<Rightarrow> (box_ref \<Rightarrow> nat \<Rightarrow> 'v \<Rightarrow> 'v flow) \<Rightarrow> nat \<Rightarrow> 'v \<Rightarrow> 'v flow" where
  "walk_boxes file limit visit pos v =
     (case next_box file limit pos of
        Inl e \<Rightarrow> (Inl e, v)
      | Inr None \<Rightarrow> (Inr True, v)
      | Inr (Some (b, body)) \<Rightarrow> (case visit b body v of
          (Inl e, v) \<Rightarrow> (Inl e, v)
        | (Inr goes_on, v) \<Rightarrow> if goes_on then walk_boxes file limit visit (box_end b) v else (Inr False, v)))"
  by pat_completeness auto

termination
  by (relation "measure (\<lambda>(file, limit, visit, pos, v). length file - pos)") (auto dest!: next_box_advances)

declare walk_boxes.simps [simp del]

definition walk_children :: "u8 list \<Rightarrow> nat \<Rightarrow> (box_ref \<Rightarrow> nat \<Rightarrow> 'v \<Rightarrow> 'v flow) \<Rightarrow> nat \<Rightarrow> 'v \<Rightarrow> 'v flow" where
  "walk_children file stop visit pos v = walk_boxes file (Some stop) visit pos v"

definition walk_matching_child ::
    "u8 list \<Rightarrow> u8 list \<Rightarrow> nat \<Rightarrow> (box_ref \<Rightarrow> nat \<Rightarrow> 'v \<Rightarrow> 'v flow) \<Rightarrow> nat \<Rightarrow> 'v \<Rightarrow> 'v flow" where
  "walk_matching_child file target stop visit pos v =
     walk_children file stop (\<lambda>b body v. if box_kind b = target then visit b body v else (Inr True, v)) pos v"

definition with_payload ::
    "(nat \<Rightarrow> bool) \<Rightarrow> u8 list \<Rightarrow> string \<Rightarrow> (u8 list \<Rightarrow> 'v \<Rightarrow> 'v flow) \<Rightarrow> box_ref \<Rightarrow> nat \<Rightarrow> 'v \<Rightarrow> 'v flow" where
  "with_payload grant file label visit b body v =
     (case read_payload grant file label (box_end b) body of Inl e \<Rightarrow> (Inl e, v) | Inr payload \<Rightarrow> visit payload v)"

definition walk_payload_child ::
    "(nat \<Rightarrow> bool) \<Rightarrow> u8 list \<Rightarrow> u8 list \<Rightarrow> string \<Rightarrow> nat \<Rightarrow> (u8 list \<Rightarrow> 'v \<Rightarrow> 'v flow) \<Rightarrow> nat \<Rightarrow> 'v \<Rightarrow> 'v flow" where
  "walk_payload_child grant file target label stop visit pos v =
     walk_matching_child file target stop (with_payload grant file label visit) pos v"

subsection \<open>The scan of a movie\<close>

definition BOX_DATA :: "u8 list" where "BOX_DATA = bytes_of ''data''"
definition BOX_EDTS :: "u8 list" where "BOX_EDTS = bytes_of ''edts''"
definition BOX_ELST :: "u8 list" where "BOX_ELST = bytes_of ''elst''"
definition BOX_FREEFORM :: "u8 list" where "BOX_FREEFORM = bytes_of ''----''"
definition BOX_ILST :: "u8 list" where "BOX_ILST = bytes_of ''ilst''"
definition BOX_MDHD :: "u8 list" where "BOX_MDHD = bytes_of ''mdhd''"
definition BOX_MDIA :: "u8 list" where "BOX_MDIA = bytes_of ''mdia''"
definition BOX_MEAN :: "u8 list" where "BOX_MEAN = bytes_of ''mean''"
definition BOX_META :: "u8 list" where "BOX_META = bytes_of ''meta''"
definition BOX_MINF :: "u8 list" where "BOX_MINF = bytes_of ''minf''"
definition BOX_MOOF :: "u8 list" where "BOX_MOOF = bytes_of ''moof''"
definition BOX_MOOV :: "u8 list" where "BOX_MOOV = bytes_of ''moov''"
definition BOX_MVEX :: "u8 list" where "BOX_MVEX = bytes_of ''mvex''"
definition BOX_MVHD :: "u8 list" where "BOX_MVHD = bytes_of ''mvhd''"
definition BOX_NAME :: "u8 list" where "BOX_NAME = bytes_of ''name''"
definition BOX_STBL :: "u8 list" where "BOX_STBL = bytes_of ''stbl''"
definition BOX_STSD :: "u8 list" where "BOX_STSD = bytes_of ''stsd''"
definition BOX_TRAK :: "u8 list" where "BOX_TRAK = bytes_of ''trak''"
definition BOX_TKHD :: "u8 list" where "BOX_TKHD = bytes_of ''tkhd''"
definition BOX_UDTA :: "u8 list" where "BOX_UDTA = bytes_of ''udta''"
definition ITUNES_MEAN :: "u8 list" where "ITUNES_MEAN = bytes_of ''com.apple.iTunes''"
definition ITUNSMPB_NAME :: "u8 list" where "ITUNSMPB_NAME = bytes_of ''iTunSMPB''"
definition FREEFORM_MAX_BYTES :: nat where "FREEFORM_MAX_BYTES = 65536"

text \<open>What a freeform atom says of itself: its \<open>mean\<close>, its \<open>name\<close> and where its data is.\<close>

record freeform =
  ff_mean :: "u8 list option"
  ff_name :: "u8 list option"
  ff_data :: "(nat \<times> nat) option"

definition freeform_child :: "(nat \<Rightarrow> bool) \<Rightarrow> u8 list \<Rightarrow> box_ref \<Rightarrow> nat \<Rightarrow> freeform \<Rightarrow> freeform flow" where
  "freeform_child grant file b body s =
     (if box_kind b = BOX_MEAN then
        with_payload grant file ''mean'' (\<lambda>payload s. (Inr True, s\<lparr>ff_mean := read_text_fullbox_bytes payload\<rparr>)) b body s
      else if box_kind b = BOX_NAME then
        with_payload grant file ''name'' (\<lambda>payload s. (Inr True, s\<lparr>ff_name := read_text_fullbox_bytes payload\<rparr>)) b body s
      else if box_kind b = BOX_DATA then (Inr True, s\<lparr>ff_data := Some (body, box_end b)\<rparr>)
      else (Inr True, s))"

definition read_itunsmpb :: "(nat \<Rightarrow> bool) \<Rightarrow> u8 list \<Rightarrow> nat \<Rightarrow> nat \<Rightarrow> (scan_error, gapless_info option) result" where
  "read_itunsmpb grant file stop start =
     (let payload_len = stop - start in
      if payload_len = 0 \<or> FREEFORM_MAX_BYTES < payload_len then Inr None
      else case walk_children file stop (freeform_child grant file) start \<lparr>ff_mean = None, ff_name = None, ff_data = None\<rparr> of
        (Inl e, s) \<Rightarrow> Inl e
      | (Inr _, s) \<Rightarrow>
          if ff_mean s = Some ITUNES_MEAN \<and> ff_name s = Some ITUNSMPB_NAME
          then case ff_data s of
                 None \<Rightarrow> Inr None
               | Some (data_start, data_end) \<Rightarrow>
                   res_bind (read_payload grant file ''iTunSMPB data'' data_end data_start) (\<lambda>payload.
                     Inr (Option.bind (parse_data_box payload) (\<lambda>(data_type, value). parse_itunsmpb value)))
          else Inr None)"

type_synonym 'v visitor = "mp4_event \<Rightarrow> 'v \<Rightarrow> bool \<times> 'v"

definition emit :: "'v visitor \<Rightarrow> mp4_event \<Rightarrow> 'v \<Rightarrow> 'v flow" where
  "emit visitor e v = (case visitor e v of (goes_on, v) \<Rightarrow> (Inr goes_on, v))"

text \<open>What the payload of each box reports.\<close>

definition on_elst :: "'v visitor \<Rightarrow> u8 list \<Rightarrow> 'v \<Rightarrow> 'v flow" where
  "on_elst visitor payload v =
     (case parse_elst payload of Inl e \<Rightarrow> (Inl e, v) | Inr entries \<Rightarrow> emit visitor (TrackEditList entries) v)"

definition on_mdhd :: "'v visitor \<Rightarrow> u8 list \<Rightarrow> 'v \<Rightarrow> 'v flow" where
  "on_mdhd visitor payload v =
     (case parse_mdhd payload of Some timing \<Rightarrow> emit visitor (TrackMediaTiming timing) v | None \<Rightarrow> (Inr True, v))"

definition on_mvhd :: "'v visitor \<Rightarrow> u8 list \<Rightarrow> 'v \<Rightarrow> 'v flow" where
  "on_mvhd visitor payload v =
     (case parse_mvhd_timescale payload of Some per_second \<Rightarrow> emit visitor (MovieTimescale per_second) v | None \<Rightarrow> (Inr True, v))"

definition on_tkhd :: "'v visitor \<Rightarrow> u8 list \<Rightarrow> 'v \<Rightarrow> 'v flow" where
  "on_tkhd visitor payload v =
     (case parse_tkhd_track_id payload of None \<Rightarrow> (Inr True, v) | Some k \<Rightarrow> emit visitor (TrackId k) v)"

definition on_stsd :: "'v visitor \<Rightarrow> u8 list \<Rightarrow> 'v \<Rightarrow> 'v flow" where
  "on_stsd visitor payload v =
     (case (case parse_stsd_codec payload of Some fourcc \<Rightarrow> visitor (TrackCodec fourcc) v | None \<Rightarrow> (True, v)) of
        (False, v) \<Rightarrow> (Inr False, v)
      | (True, v) \<Rightarrow> (case parse_stsd_sample_rate payload of
          Some rate \<Rightarrow> emit visitor (TrackSampleRate rate) v
        | None \<Rightarrow> (Inr True, v)))"

definition parse_edts :: "(nat \<Rightarrow> bool) \<Rightarrow> u8 list \<Rightarrow> 'v visitor \<Rightarrow> nat \<Rightarrow> nat \<Rightarrow> 'v \<Rightarrow> 'v flow" where
  "parse_edts grant file visitor stop pos v =
     walk_payload_child grant file BOX_ELST ''elst'' stop (on_elst visitor) pos v"

definition parse_ilst :: "(nat \<Rightarrow> bool) \<Rightarrow> u8 list \<Rightarrow> 'v visitor \<Rightarrow> nat \<Rightarrow> nat \<Rightarrow> 'v \<Rightarrow> 'v flow" where
  "parse_ilst grant file visitor stop pos v =
     walk_matching_child file BOX_FREEFORM stop
       (\<lambda>b body v. case read_itunsmpb grant file (box_end b) body of
          Inl e \<Rightarrow> (Inl e, v)
        | Inr (Some info) \<Rightarrow> emit visitor (ItunSmpb info) v
        | Inr None \<Rightarrow> (Inr True, v)) pos v"

definition parse_meta :: "(nat \<Rightarrow> bool) \<Rightarrow> u8 list \<Rightarrow> 'v visitor \<Rightarrow> nat \<Rightarrow> nat \<Rightarrow> 'v \<Rightarrow> 'v flow" where
  "parse_meta grant file visitor stop payload_start v =
     (case (if 4 \<le> stop - payload_start
            then map_option (\<lambda>probe. if probe \<noteq> [0, 0, 0, 0] then payload_start else payload_start + 4)
                   (read_exact file payload_start 4)
            else Some payload_start) of
        None \<Rightarrow> (Inl UnexpectedEof, v)
      | Some pos \<Rightarrow>
          walk_matching_child file BOX_ILST stop (\<lambda>b body v. parse_ilst grant file visitor (box_end b) body v) pos v)"

definition parse_stbl :: "(nat \<Rightarrow> bool) \<Rightarrow> u8 list \<Rightarrow> 'v visitor \<Rightarrow> nat \<Rightarrow> nat \<Rightarrow> 'v \<Rightarrow> 'v flow" where
  "parse_stbl grant file visitor stop pos v =
     walk_payload_child grant file BOX_STSD ''stsd'' stop (on_stsd visitor) pos v"

definition parse_minf :: "(nat \<Rightarrow> bool) \<Rightarrow> u8 list \<Rightarrow> 'v visitor \<Rightarrow> nat \<Rightarrow> nat \<Rightarrow> 'v \<Rightarrow> 'v flow" where
  "parse_minf grant file visitor stop pos v =
     walk_matching_child file BOX_STBL stop (\<lambda>b body v. parse_stbl grant file visitor (box_end b) body v) pos v"

definition parse_mdia :: "(nat \<Rightarrow> bool) \<Rightarrow> u8 list \<Rightarrow> 'v visitor \<Rightarrow> nat \<Rightarrow> nat \<Rightarrow> 'v \<Rightarrow> 'v flow" where
  "parse_mdia grant file visitor stop pos v =
     walk_children file stop
       (\<lambda>b body v.
          if box_kind b = BOX_MDHD then with_payload grant file ''mdhd'' (on_mdhd visitor) b body v
          else if box_kind b = BOX_MINF then parse_minf grant file visitor (box_end b) body v
          else (Inr True, v)) pos v"

definition parse_trak :: "(nat \<Rightarrow> bool) \<Rightarrow> u8 list \<Rightarrow> 'v visitor \<Rightarrow> nat \<Rightarrow> nat \<Rightarrow> 'v \<Rightarrow> 'v flow" where
  "parse_trak grant file visitor stop pos v =
     (case visitor TrackBegin v of
        (False, v) \<Rightarrow> (Inr False, v)
      | (True, v) \<Rightarrow>
          (case walk_children file stop
             (\<lambda>b body v.
                if box_kind b = BOX_TKHD then with_payload grant file ''tkhd'' (on_tkhd visitor) b body v
                else if box_kind b = BOX_MDIA then parse_mdia grant file visitor (box_end b) body v
                else if box_kind b = BOX_EDTS then parse_edts grant file visitor (box_end b) body v
                else (Inr True, v)) pos v of
             (Inl e, v) \<Rightarrow> (Inl e, v)
           | (Inr walked, v) \<Rightarrow> (case visitor TrackEnd v of (ended, v) \<Rightarrow> (Inr (walked \<and> ended), v))))"

definition parse_udta :: "(nat \<Rightarrow> bool) \<Rightarrow> u8 list \<Rightarrow> 'v visitor \<Rightarrow> nat \<Rightarrow> nat \<Rightarrow> 'v \<Rightarrow> 'v flow" where
  "parse_udta grant file visitor stop pos v =
     walk_matching_child file BOX_META stop (\<lambda>b body v. parse_meta grant file visitor (box_end b) body v) pos v"

definition parse_moov :: "(nat \<Rightarrow> bool) \<Rightarrow> u8 list \<Rightarrow> 'v visitor \<Rightarrow> nat \<Rightarrow> nat \<Rightarrow> 'v \<Rightarrow> 'v flow" where
  "parse_moov grant file visitor stop pos v =
     walk_children file stop
       (\<lambda>b body v.
          if box_kind b = BOX_MVHD then with_payload grant file ''mvhd'' (on_mvhd visitor) b body v
          else if box_kind b = BOX_TRAK then parse_trak grant file visitor (box_end b) body v
          else if box_kind b = BOX_META then parse_meta grant file visitor (box_end b) body v
          else if box_kind b = BOX_UDTA then parse_udta grant file visitor (box_end b) body v
          else (Inr True, v)) pos v"

text \<open>The scan ends at the first \<open>moov\<close>; the position it started at is restored whatever it finds.\<close>

definition scan :: "(nat \<Rightarrow> bool) \<Rightarrow> u8 list \<Rightarrow> 'v visitor \<Rightarrow> nat \<Rightarrow> 'v \<Rightarrow> (scan_error, unit) result \<times> 'v" where
  "scan grant file visitor pos v =
     map_prod (map_sum id (\<lambda>_. ())) id
       (walk_boxes file None
          (\<lambda>b body v.
             if box_kind b = BOX_MOOV
             then (case parse_moov grant file visitor (box_end b) body v of (Inl e, v) \<Rightarrow> (Inl e, v) | (Inr _, v) \<Rightarrow> (Inr False, v))
             else (Inr True, v)) pos v)"

definition scan_mp4 :: "(nat \<Rightarrow> bool) \<Rightarrow> u8 list \<Rightarrow> 'v visitor \<Rightarrow> nat \<Rightarrow> 'v \<Rightarrow> (scan_error, unit) result \<times> 'v \<times> nat" where
  "scan_mp4 grant file visitor pos v = (case scan grant file visitor pos v of (r, v) \<Rightarrow> (r, v, pos))"

text \<open>The codec of the first sample entry; whether the movie is fragmented.\<close>

definition sniff_mp4_codec :: "(nat \<Rightarrow> bool) \<Rightarrow> u8 list \<Rightarrow> nat \<Rightarrow> (scan_error, u8 list option) result" where
  "sniff_mp4_codec grant file pos =
     (case scan_mp4 grant file (\<lambda>e v. case e of TrackCodec codec \<Rightarrow> (False, Some codec) | _ \<Rightarrow> (True, v)) pos None of
        (Inr _, fourcc, _) \<Rightarrow> Inr fourcc
      | (Inl (InvalidMp4 _), _, _) \<Rightarrow> Inr None
      | (Inl e, _, _) \<Rightarrow> Inl e)"

definition scan_moov_for_mvex :: "u8 list \<Rightarrow> nat \<Rightarrow> nat \<Rightarrow> (scan_error, bool) result" where
  "scan_moov_for_mvex file stop pos =
     map_sum id (\<lambda>goes_on. \<not> goes_on)
       (fst (walk_boxes file (Some stop) (\<lambda>b body v. (Inr (box_kind b \<noteq> BOX_MVEX), v)) pos ()))"

definition scan_mp4_fragment_hint :: "u8 list \<Rightarrow> nat \<Rightarrow> (scan_error, bool) result" where
  "scan_mp4_fragment_hint file pos =
     map_sum id (\<lambda>goes_on. \<not> goes_on)
       (fst (walk_boxes file None
          (\<lambda>b body v.
             (if box_kind b = BOX_MOOF then Inr False
              else if box_kind b = BOX_MOOV then map_sum id (\<lambda>found. \<not> found) (scan_moov_for_mvex file (box_end b) body)
              else Inr True, v)) pos ()))"

definition sniff_mp4_fragmented :: "u8 list \<Rightarrow> nat \<Rightarrow> bool option" where
  "sniff_mp4_fragmented file pos = ok (scan_mp4_fragment_hint file pos)"

definition probe_mp4_gapless :: "(nat \<Rightarrow> bool) \<Rightarrow> u8 list \<Rightarrow> nat \<Rightarrow> (scan_error, gapless_info option) result" where
  "probe_mp4_gapless grant file pos =
     (case scan_mp4 grant file probe_visit pos probe_default of
        (Inr _, p, _) \<Rightarrow> Inr (probe_result p)
      | (Inl (InvalidMp4 _), _, _) \<Rightarrow> Inr None
      | (Inl e, _, _) \<Rightarrow> Inl e)"

end
