(* ===== verification/Mp4_Movie.thy ===== *)
theory Mp4_Movie
  imports Mp4_Scan
begin

text \<open>
  What the MP4 scanner sees.  A file of boxes is a list of trees (\<open>atom\<close>), whose bytes a writer may lay
  out with 32-bit or 64-bit sizes; the scanner, which works on positions, seeks and reads, delivers
  the events of the trees.  Written payloads read back, so the gapless counts of a written movie are
  those of its edit list, or of its tag.
\<close>

subsection \<open>Trees of boxes\<close>

datatype atom = Atom (wide: bool) (atom_kind: "u8 list") (prefix: "u8 list") (children: "atom list")

fun atom_bytes :: "atom \<Rightarrow> u8 list" where
  "atom_bytes (Atom w k p cs) =
     (let body = p @ concat (map atom_bytes cs)
      in (if w then be_bytes 4 1 @ k @ be_bytes 8 (16 + length body) else be_bytes 4 (8 + length body) @ k) @ body)"

definition atoms_bytes :: "atom list \<Rightarrow> u8 list" where
  "atoms_bytes cs = concat (map atom_bytes cs)"

definition atom_body :: "atom \<Rightarrow> u8 list" where
  "atom_body a = prefix a @ atoms_bytes (children a)"

definition header_len :: "atom \<Rightarrow> nat" where
  "header_len a = (if wide a then 16 else 8)"

text \<open>The boxes the scanner descends into hold boxes only, save for the full-box header of \<open>meta\<close>; the
  others are leaves, and edit lists are readable.\<close>

definition container_kinds :: "u8 list set" where
  "container_kinds = {BOX_MOOV, BOX_TRAK, BOX_MDIA, BOX_MINF, BOX_STBL, BOX_EDTS, BOX_UDTA, BOX_ILST, BOX_FREEFORM}"

fun atom_ok :: "atom \<Rightarrow> bool" where
  "atom_ok (Atom w k p cs) \<longleftrightarrow>
     length k = 4 \<and> (w \<or> 8 + length (p @ atoms_bytes cs) < 2 ^ 32) \<and> 16 + length (p @ atoms_bytes cs) < 2 ^ 64
     \<and> (if k \<in> container_kinds then p = [] else if k = BOX_META then p = [] \<or> p = [0, 0, 0, 0] else cs = [])
     \<and> (k = BOX_ELST \<longrightarrow> (\<exists>es. parse_elst p = Inr es)) \<and> list_all atom_ok cs"

lemma bytes_of_eq [simp]: "bytes_of a = bytes_of b \<longleftrightarrow> a = b"
proof -
  have "inj (of_char :: char \<Rightarrow> u8)"
  proof (rule injI)
    fix x y :: char assume "(of_char x :: u8) = of_char y"
    then have "unat (of_nat (of_char x) :: u8) = unat (of_nat (of_char y) :: u8)"
      by (simp add: of_nat_of_char)
    then have "(of_char x mod 256 :: nat) = of_char y mod 256"
      by (simp only: unat_of_nat) simp
    then show "x = y"
      by simp
  qed
  then show ?thesis
    by (simp add: bytes_of_def inj_map_eq_map)
qed

lemmas box_kinds = BOX_DATA_def BOX_EDTS_def BOX_ELST_def BOX_FREEFORM_def BOX_ILST_def BOX_MDHD_def BOX_MDIA_def
  BOX_MEAN_def BOX_META_def BOX_MINF_def BOX_MOOF_def BOX_MOOV_def BOX_MVEX_def BOX_MVHD_def BOX_NAME_def BOX_STBL_def
  BOX_STSD_def BOX_TRAK_def BOX_TKHD_def BOX_UDTA_def

lemma atoms_bytes_simps [simp]:
  "atoms_bytes [] = []" "atoms_bytes (a # cs) = atom_bytes a @ atoms_bytes cs"
  "atoms_bytes (cs @ ds) = atoms_bytes cs @ atoms_bytes ds"
  by (simp_all add: atoms_bytes_def)

lemma atom_bytes_eq:
  "atom_bytes a = (if wide a then be_bytes 4 1 @ atom_kind a @ be_bytes 8 (16 + length (atom_body a))
     else be_bytes 4 (8 + length (atom_body a)) @ atom_kind a) @ atom_body a"
  by (cases a) (simp add: atom_body_def atoms_bytes_def Let_def)

lemma atom_okD:
  assumes "atom_ok a"
  shows "length (atom_kind a) = 4" "wide a \<or> 8 + length (atom_body a) < 2 ^ 32" "16 + length (atom_body a) < 2 ^ 64"
    "list_all atom_ok (children a)" "atom_kind a \<in> container_kinds \<Longrightarrow> atom_body a = atoms_bytes (children a)"
    "atom_kind a = BOX_META \<Longrightarrow> prefix a = [] \<or> prefix a = [0, 0, 0, 0]"
    "atom_kind a = BOX_ELST \<Longrightarrow> \<exists>es. parse_elst (atom_body a) = Inr es"
proof -
  show "length (atom_kind a) = 4" "wide a \<or> 8 + length (atom_body a) < 2 ^ 32" "16 + length (atom_body a) < 2 ^ 64"
      "list_all atom_ok (children a)"
    using assms by (cases a; simp add: atom_body_def)+
  show "atom_body a = atoms_bytes (children a)" if "atom_kind a \<in> container_kinds"
    using assms that by (cases a) (simp add: atom_body_def)
  show "prefix a = [] \<or> prefix a = [0, 0, 0, 0]" if "atom_kind a = BOX_META"
    using assms that by (cases a) (auto simp: container_kinds_def box_kinds)
  show "\<exists>es. parse_elst (atom_body a) = Inr es" if "atom_kind a = BOX_ELST"
    using assms that by (cases a) (simp add: atom_body_def container_kinds_def box_kinds)
qed

lemma length_atom_bytes: "atom_ok a \<Longrightarrow> length (atom_bytes a) = header_len a + length (atom_body a)"
  by (simp add: atom_bytes_eq header_len_def atom_okD)

subsection \<open>Bytes at a position\<close>

definition placed :: "u8 list \<Rightarrow> nat \<Rightarrow> u8 list \<Rightarrow> bool" where
  "placed file pos bs \<longleftrightarrow> (\<exists>pre post. file = pre @ bs @ post \<and> length pre = pos)"

lemma placed_append: "placed file pos (as @ bs) \<longleftrightarrow> placed file pos as \<and> placed file (pos + length as) bs"
proof
  assume "placed file pos as \<and> placed file (pos + length as) bs"
  then obtain pre post pre' post' where *: "file = pre @ as @ post" "length pre = pos" "file = pre' @ bs @ post'"
      "length pre' = pos + length as"
    unfolding placed_def by blast
  then have "pre @ as = pre'"
    by (metis append_assoc append_eq_append_conv length_append)
  then show "placed file pos (as @ bs)"
    using * unfolding placed_def by (metis append_assoc)
qed (auto simp: placed_def, metis append.assoc length_append)

lemma placed_le: "placed file pos bs \<Longrightarrow> pos + length bs \<le> length file"
  by (auto simp: placed_def)

lemma placed_read: "placed file pos bs \<Longrightarrow> n = length bs \<Longrightarrow> read_exact file pos n = Some bs"
  by (auto simp: placed_def read_exact_def)

lemma placed_payload: "placed file pos bs \<Longrightarrow> grant (length bs) \<Longrightarrow> read_payload grant file label (pos + length bs) pos = Inr bs"
  by (simp add: read_payload_def checked_sub_def placed_read)

lemma next_box_atom:
  assumes "placed file pos (atom_bytes a)" "atom_ok a" "length file \<le> u64_max"
    and "limit = None \<or> (\<exists>l. limit = Some l \<and> pos + length (atom_bytes a) \<le> l)"
  shows "next_box file limit pos
    = Inr (Some (\<lparr>box_kind = atom_kind a, box_end = pos + length (atom_bytes a)\<rparr>, pos + header_len a))"
proof -
  note ok = atom_okD [OF assms(2)]
  define size32 where "size32 = be_bytes 4 (if wide a then 1 else 8 + length (atom_body a))"
  have size32: "be_nat size32 = (if wide a then 1 else 8 + length (atom_body a))" "length size32 = 4"
    using ok(2) by (auto simp: size32_def intro!: be_nat_be_bytes)
  have "placed file pos ((size32 @ atom_kind a) @ (if wide a then be_bytes 8 (16 + length (atom_body a)) else []) @ atom_body a)"
    using assms(1) by (simp add: atom_bytes_eq size32_def split: if_splits)
  then have *: "read_exact file pos 8 = Some (size32 @ atom_kind a)"
      "wide a \<Longrightarrow> read_exact file (pos + 8) 8 = Some (be_bytes 8 (16 + length (atom_body a)))"
    by (auto simp: placed_append placed_read ok(1) size32(2) add.commute [of pos] split: if_splits)
  have extended: "be_nat (be_bytes 8 (16 + length (atom_body a))) = 16 + length (atom_body a)"
    using ok(3) by (intro be_nat_be_bytes) simp
  have len: "length (atom_bytes a) = header_len a + length (atom_body a)" "pos + length (atom_bytes a) \<le> u64_max"
    using length_atom_bytes [OF assms(2)] placed_le [OF assms(1)] assms(3) by simp_all
  have "0 < header_len a"
    by (simp add: header_len_def)
  then have limit: "\<not> (case limit of Some l \<Rightarrow> l \<le> pos | None \<Rightarrow> False)"
      "\<not> (case limit of Some l \<Rightarrow> l < pos + (header_len a + length (atom_body a)) | None \<Rightarrow> False)"
    using assms(4) len(1) by auto
  show ?thesis
    using limit len * size32 extended
    by (cases "wide a"; cases limit) (simp_all add: next_box_def Let_def header_len_def checked_add_def)
qed

subsection \<open>Walks over trees\<close>

text \<open>The elements in order, as long as they go on.\<close>

fun run :: "('a \<Rightarrow> 'v \<Rightarrow> bool \<times> 'v) \<Rightarrow> 'a list \<Rightarrow> 'v \<Rightarrow> bool \<times> 'v" where
  "run g [] v = (True, v)"
| "run g (a # xs) v = (case g a v of (goes_on, v) \<Rightarrow> if goes_on then run g xs v else (False, v))"

lemma run_append: "run g (xs @ ys) v = (case run g xs v of (goes_on, v) \<Rightarrow> if goes_on then run g ys v else (False, v))"
  by (induction xs arbitrary: v) (auto split: prod.split)

lemma run_concat: "run (\<lambda>a. run g (f a)) xs v = run g (concat (map f xs)) v"
  by (induction xs arbitrary: v) (auto simp: run_append split: prod.split)

lemma run_cong: "(\<And>a v. a \<in> set xs \<Longrightarrow> g a v = h a v) \<Longrightarrow> run g xs v = run h xs v"
  by (induction xs arbitrary: v) (auto split: prod.split)

definition flowing :: "bool \<times> 'v \<Rightarrow> 'v flow" where
  "flowing f = (Inr (fst f), snd f)"

lemma flowing_simps [simp]: "flowing (go, v) = (Inr go, v)"
  by (simp add: flowing_def)

lemma walk_atoms_rel:
  assumes "placed file pos (atoms_bytes cs)" "list_all atom_ok cs" "length file \<le> u64_max" "R v w"
    and "limit = Some (pos + length (atoms_bytes cs)) \<or> limit = None \<and> pos + length (atoms_bytes cs) = length file"
    and visit: "\<And>a q v w. a \<in> set cs \<Longrightarrow> placed file q (atom_body a) \<Longrightarrow> R v w \<Longrightarrow>
      \<exists>go v' w'. visit \<lparr>box_kind = atom_kind a, box_end = q + length (atom_body a)\<rparr> q v = (Inr go, v') \<and> g a w = (go, w') \<and> R v' w'"
  shows "\<exists>go v' w'. walk_boxes file limit visit pos v = (Inr go, v') \<and> run g cs w = (go, w') \<and> R v' w'"
  using assms
proof (induction cs arbitrary: pos v w)
  case Nil
  then have "next_box file limit pos = Inr None"
    by (auto simp: next_box_def read_exact_def)
  then show ?case
    using Nil.prems(4) by (subst walk_boxes.simps) auto
next
  case (Cons a cs)
  have placed: "placed file pos (atom_bytes a)" "placed file (pos + length (atom_bytes a)) (atoms_bytes cs)" "atom_ok a"
    using Cons.prems(1,2) by (simp_all add: placed_append)
  have body: "placed file (pos + header_len a) (atom_body a)"
    using placed(1,3) by (simp add: atom_bytes_eq placed_append header_len_def atom_okD(1) add.assoc split: if_splits)
  have len: "length (atom_bytes a) = header_len a + length (atom_body a)"
    by (rule length_atom_bytes [OF placed(3)])
  have "next_box file limit pos
      = Inr (Some (\<lparr>box_kind = atom_kind a, box_end = pos + length (atom_bytes a)\<rparr>, pos + header_len a))"
    by (rule next_box_atom [OF placed(1,3) Cons.prems(3)]) (use Cons.prems(5) in auto)
  moreover obtain go v' w' where *: "visit \<lparr>box_kind = atom_kind a, box_end = pos + length (atom_bytes a)\<rparr> (pos + header_len a) v = (Inr go, v')"
      "g a w = (go, w')" "R v' w'"
    using Cons.prems(6) [OF _ body Cons.prems(4)] by (auto simp: len add.assoc)
  ultimately have step: "walk_boxes file limit visit pos v
      = (if go then walk_boxes file limit visit (pos + length (atom_bytes a)) v' else (Inr False, v'))"
    by (subst walk_boxes.simps) simp
  show ?case
  proof (cases go)
    case True
    have "\<exists>go v'' w''. walk_boxes file limit visit (pos + length (atom_bytes a)) v' = (Inr go, v'') \<and> run g cs w' = (go, w'') \<and> R v'' w''"
      by (rule Cons.IH [OF placed(2) _ Cons.prems(3) *(3)]) (use Cons.prems(2,5,6) in \<open>auto simp: add.assoc\<close>)
    then show ?thesis
      using True *(2) step by simp
  qed (use step *(2,3) in auto)
qed

lemma walk_atoms:
  assumes "placed file pos (atoms_bytes cs)" "list_all atom_ok cs" "length file \<le> u64_max"
    and "limit = Some (pos + length (atoms_bytes cs)) \<or> limit = None \<and> pos + length (atoms_bytes cs) = length file"
    and "\<And>a q v. a \<in> set cs \<Longrightarrow> atom_ok a \<Longrightarrow> placed file q (atom_body a) \<Longrightarrow>
      visit \<lparr>box_kind = atom_kind a, box_end = q + length (atom_body a)\<rparr> q v = flowing (g a v)"
  shows "walk_boxes file limit visit pos v = flowing (run g cs v)"
proof -
  have "\<exists>go v' w'. walk_boxes file limit visit pos v = (Inr go, v') \<and> run g cs v = (go, w') \<and> v' = w'"
    by (rule walk_atoms_rel [where R = "(=)", OF assms(1-3) refl assms(4)])
      (use assms(2,5) in \<open>auto simp: flowing_def list_all_iff intro: prod_eqI\<close>)
  then show ?thesis
    by auto
qed

text \<open>Where the children of a box are.\<close>

lemma children_placed:
  assumes "atom_ok a" "placed file q (atom_body a)" "atom_kind a \<in> container_kinds"
  shows "placed file q (atoms_bytes (children a))" "q + length (atom_body a) = q + length (atoms_bytes (children a))"
    "list_all atom_ok (children a)"
  using assms by (simp_all add: atom_okD)

subsection \<open>The events of a movie\<close>

definition optional :: "('a \<Rightarrow> mp4_event) \<Rightarrow> 'a option \<Rightarrow> mp4_event list" where
  "optional f x = (case x of None \<Rightarrow> [] | Some a \<Rightarrow> [f a])"

text \<open>The texts of a freeform atom and its data; of several the last.\<close>

definition freeform_part :: "atom \<Rightarrow> u8 list option \<times> u8 list option \<times> u8 list option \<Rightarrow> u8 list option \<times> u8 list option \<times> u8 list option" where
  "freeform_part a s = (case s of (mean, name, value) \<Rightarrow>
     if atom_kind a = BOX_MEAN then (read_text_fullbox_bytes (atom_body a), name, value)
     else if atom_kind a = BOX_NAME then (mean, read_text_fullbox_bytes (atom_body a), value)
     else if atom_kind a = BOX_DATA then (mean, name, Some (atom_body a))
     else s)"

definition atom_tag :: "atom \<Rightarrow> gapless_info option" where
  "atom_tag a =
     (if atom_body a = [] \<or> FREEFORM_MAX_BYTES < length (atom_body a) then None
      else case fold freeform_part (children a) (None, None, None) of
        (mean, name, value) \<Rightarrow>
          if mean = Some ITUNES_MEAN \<and> name = Some ITUNSMPB_NAME
          then Option.bind value (\<lambda>payload. Option.bind (parse_data_box payload) (\<lambda>(data_type, text). parse_itunsmpb text))
          else None)"

definition ilst_events :: "atom list \<Rightarrow> mp4_event list" where
  "ilst_events cs = concat (map (\<lambda>a. if atom_kind a = BOX_FREEFORM then optional ItunSmpb (atom_tag a) else []) cs)"

definition meta_events :: "atom list \<Rightarrow> mp4_event list" where
  "meta_events cs = concat (map (\<lambda>a. if atom_kind a = BOX_ILST then ilst_events (children a) else []) cs)"

definition udta_events :: "atom list \<Rightarrow> mp4_event list" where
  "udta_events cs = concat (map (\<lambda>a. if atom_kind a = BOX_META then meta_events (children a) else []) cs)"

definition edts_events :: "atom list \<Rightarrow> mp4_event list" where
  "edts_events cs = concat (map (\<lambda>a. if atom_kind a = BOX_ELST then optional TrackEditList (ok (parse_elst (atom_body a))) else []) cs)"

definition stbl_events :: "atom list \<Rightarrow> mp4_event list" where
  "stbl_events cs = concat (map (\<lambda>a. if atom_kind a = BOX_STSD
     then optional TrackCodec (parse_stsd_codec (atom_body a)) @ optional TrackSampleRate (parse_stsd_sample_rate (atom_body a))
     else []) cs)"

definition minf_events :: "atom list \<Rightarrow> mp4_event list" where
  "minf_events cs = concat (map (\<lambda>a. if atom_kind a = BOX_STBL then stbl_events (children a) else []) cs)"

definition mdia_events :: "atom list \<Rightarrow> mp4_event list" where
  "mdia_events cs = concat (map (\<lambda>a.
     if atom_kind a = BOX_MDHD then optional TrackMediaTiming (parse_mdhd (atom_body a))
     else if atom_kind a = BOX_MINF then minf_events (children a)
     else []) cs)"

definition trak_events :: "atom list \<Rightarrow> mp4_event list" where
  "trak_events cs = concat (map (\<lambda>a.
     if atom_kind a = BOX_TKHD then optional TrackId (parse_tkhd_track_id (atom_body a))
     else if atom_kind a = BOX_MDIA then mdia_events (children a)
     else if atom_kind a = BOX_EDTS then edts_events (children a)
     else []) cs)"

definition moov_child_events :: "atom \<Rightarrow> mp4_event list" where
  "moov_child_events a =
     (if atom_kind a = BOX_MVHD then optional MovieTimescale (parse_mvhd_timescale (atom_body a))
      else if atom_kind a = BOX_TRAK then TrackBegin # trak_events (children a) @ [TrackEnd]
      else if atom_kind a = BOX_META then meta_events (children a)
      else if atom_kind a = BOX_UDTA then udta_events (children a)
      else [])"

text \<open>The movie is the first \<open>moov\<close> of the file.\<close>

definition movie_events :: "atom list \<Rightarrow> mp4_event list" where
  "movie_events tops =
     (case find (\<lambda>a. atom_kind a = BOX_MOOV) tops of None \<Rightarrow> [] | Some a \<Rightarrow> concat (map moov_child_events (children a)))"

text \<open>A visitor that stops inside a track still hears of its end.\<close>

fun deliver :: "'v visitor \<Rightarrow> bool \<Rightarrow> mp4_event list \<Rightarrow> 'v \<Rightarrow> 'v" where
  "deliver visitor inside [] v = v"
| "deliver visitor inside (e # es) v =
     (case visitor e v of (goes_on, v) \<Rightarrow>
        if goes_on then deliver visitor (e = TrackBegin \<or> inside \<and> e \<noteq> TrackEnd) es v
        else if inside \<and> e \<noteq> TrackEnd then snd (visitor TrackEnd v) else v)"

subsection \<open>The scanner delivers the events\<close>

lemma emit_run: "emit visitor e v = flowing (run visitor [e] v)"
  by (auto simp: emit_def split: prod.split)

text \<open>A file whose positions fit in 64 bits and whose payloads the pool can hold.\<close>

definition readable :: "(nat \<Rightarrow> bool) \<Rightarrow> u8 list \<Rightarrow> bool" where
  "readable grant file \<longleftrightarrow> length file \<le> u64_max \<and> (\<forall>n \<le> length file. grant n)"

lemma read_children:
  assumes "readable grant file" "placed file q bs"
  shows "with_payload grant file label visit \<lparr>box_kind = k, box_end = q + length bs\<rparr> q v = visit bs v"
  using placed_le [OF assms(2)] assms(1) by (simp add: with_payload_def readable_def placed_payload [OF assms(2)])

lemma on_payload_runs:
  "on_mdhd visitor payload v = flowing (run visitor (optional TrackMediaTiming (parse_mdhd payload)) v)"
  "on_mvhd visitor payload v = flowing (run visitor (optional MovieTimescale (parse_mvhd_timescale payload)) v)"
  "on_tkhd visitor payload v = flowing (run visitor (optional TrackId (parse_tkhd_track_id payload)) v)"
  "on_stsd visitor payload v = flowing (run visitor
     (optional TrackCodec (parse_stsd_codec payload) @ optional TrackSampleRate (parse_stsd_sample_rate payload)) v)"
  "parse_elst payload = Inr es \<Longrightarrow> on_elst visitor payload v = flowing (run visitor [TrackEditList es] v)"
  by (auto simp: on_mdhd_def on_mvhd_def on_tkhd_def on_stsd_def on_elst_def optional_def emit_run split: option.split prod.split)

lemma walk_children_run:
  assumes "readable grant file" "placed file pos (atoms_bytes cs)" "list_all atom_ok cs" "stop = pos + length (atoms_bytes cs)"
    and "\<And>a q v. atom_ok a \<Longrightarrow> placed file q (atom_body a) \<Longrightarrow>
      visit \<lparr>box_kind = atom_kind a, box_end = q + length (atom_body a)\<rparr> q v = flowing (run visitor (ev a) v)"
  shows "walk_children file stop visit pos v = flowing (run visitor (concat (map ev cs)) v)"
  unfolding walk_children_def run_concat [symmetric]
  by (rule walk_atoms) (use assms in \<open>auto simp: readable_def\<close>)

lemma walk_matching_child_run:
  assumes "readable grant file" "placed file pos (atoms_bytes cs)" "list_all atom_ok cs" "stop = pos + length (atoms_bytes cs)"
    and "\<And>a q v. atom_ok a \<Longrightarrow> atom_kind a = target \<Longrightarrow> placed file q (atom_body a) \<Longrightarrow>
      visit \<lparr>box_kind = atom_kind a, box_end = q + length (atom_body a)\<rparr> q v = flowing (run visitor (ev a) v)"
  shows "walk_matching_child file target stop visit pos v
    = flowing (run visitor (concat (map (\<lambda>a. if atom_kind a = target then ev a else []) cs)) v)"
  unfolding walk_matching_child_def by (rule walk_children_run [OF assms(1-4)]) (use assms(5) in auto)

lemma container_kinds [simp]:
  "BOX_MOOV \<in> container_kinds" "BOX_TRAK \<in> container_kinds" "BOX_MDIA \<in> container_kinds" "BOX_MINF \<in> container_kinds"
  "BOX_STBL \<in> container_kinds" "BOX_EDTS \<in> container_kinds" "BOX_UDTA \<in> container_kinds" "BOX_ILST \<in> container_kinds"
  "BOX_FREEFORM \<in> container_kinds"
  by (simp_all add: container_kinds_def)

lemma parse_edts_run:
  assumes "readable grant file" "placed file pos (atoms_bytes cs)" "list_all atom_ok cs" "stop = pos + length (atoms_bytes cs)"
  shows "parse_edts grant file visitor stop pos v = flowing (run visitor (edts_events cs) v)"
  unfolding parse_edts_def walk_payload_child_def edts_events_def
proof (rule walk_matching_child_run [OF assms])
  fix a q v assume a: "atom_ok a" "atom_kind a = BOX_ELST" "placed file q (atom_body a)"
  then obtain es where "parse_elst (atom_body a) = Inr es"
    using atom_okD(7) by blast
  then show "with_payload grant file ''elst'' (on_elst visitor) \<lparr>box_kind = atom_kind a, box_end = q + length (atom_body a)\<rparr> q v
      = flowing (run visitor (optional TrackEditList (ok (parse_elst (atom_body a)))) v)"
    using on_payload_runs(5) by (simp add: read_children [OF assms(1) a(3)] ok_def optional_def)
qed

lemma parse_stbl_run:
  assumes "readable grant file" "placed file pos (atoms_bytes cs)" "list_all atom_ok cs" "stop = pos + length (atoms_bytes cs)"
  shows "parse_stbl grant file visitor stop pos v = flowing (run visitor (stbl_events cs) v)"
  unfolding parse_stbl_def walk_payload_child_def stbl_events_def
  by (rule walk_matching_child_run [OF assms]) (simp add: read_children [OF assms(1)] on_payload_runs)

lemma parse_minf_run:
  assumes "readable grant file" "placed file pos (atoms_bytes cs)" "list_all atom_ok cs" "stop = pos + length (atoms_bytes cs)"
  shows "parse_minf grant file visitor stop pos v = flowing (run visitor (minf_events cs) v)"
  unfolding parse_minf_def minf_events_def
  by (rule walk_matching_child_run [OF assms]) (simp add: parse_stbl_run [OF assms(1)] children_placed)

lemma parse_mdia_run:
  assumes "readable grant file" "placed file pos (atoms_bytes cs)" "list_all atom_ok cs" "stop = pos + length (atoms_bytes cs)"
  shows "parse_mdia grant file visitor stop pos v = flowing (run visitor (mdia_events cs) v)"
  unfolding parse_mdia_def mdia_events_def
  by (rule walk_children_run [OF assms])
    (auto simp: read_children [OF assms(1)] on_payload_runs parse_minf_run [OF assms(1)] children_placed)

text \<open>What the loop over a freeform atom has collected: the data by its position.\<close>

definition collected :: "u8 list \<Rightarrow> freeform \<Rightarrow> u8 list option \<times> u8 list option \<times> u8 list option \<Rightarrow> bool" where
  "collected file s parts \<longleftrightarrow> (case parts of (mean, name, value) \<Rightarrow>
     ff_mean s = mean \<and> ff_name s = name
     \<and> (case ff_data s of
          None \<Rightarrow> value = None
        | Some (start, stop) \<Rightarrow> \<exists>bs. value = Some bs \<and> placed file start bs \<and> stop = start + length bs))"

lemma freeform_child_part:
  assumes "readable grant file" "placed file q (atom_body a)" "collected file s parts"
  shows "\<exists>s'. freeform_child grant file \<lparr>box_kind = atom_kind a, box_end = q + length (atom_body a)\<rparr> q s = (Inr True, s')
    \<and> collected file s' (freeform_part a parts)"
  using assms(2,3)
  by (auto simp: freeform_child_def freeform_part_def collected_def read_children [OF assms(1,2)] box_kinds split: option.splits)

lemma run_all: "run (\<lambda>a v. (True, f a v)) xs v = (True, fold f xs v)"
  by (induction xs arbitrary: v) simp_all

lemma read_itunsmpb_tag:
  assumes "readable grant file" "placed file q (atom_body a)" "atom_ok a" "atom_kind a = BOX_FREEFORM"
  shows "read_itunsmpb grant file (q + length (atom_body a)) q = Inr (atom_tag a)"
proof (cases "atom_body a = [] \<or> FREEFORM_MAX_BYTES < length (atom_body a)")
  case True
  then show ?thesis
    by (auto simp: read_itunsmpb_def atom_tag_def)
next
  case False
  let ?s = "\<lparr>ff_mean = None, ff_name = None, ff_data = None\<rparr>"
  note in_box = children_placed [OF assms(3,2)]
  have "\<exists>go s' parts. walk_boxes file (Some (q + length (atom_body a))) (freeform_child grant file) q ?s = (Inr go, s')
      \<and> run (\<lambda>a parts. (True, freeform_part a parts)) (children a) (None, None, None) = (go, parts) \<and> collected file s' parts"
  proof (rule walk_atoms_rel [where R = "collected file"])
    show "\<exists>go v' w'. freeform_child grant file \<lparr>box_kind = atom_kind b, box_end = p + length (atom_body b)\<rparr> p v = (Inr go, v')
        \<and> (True, freeform_part b w) = (go, w') \<and> collected file v' w'"
      if "placed file p (atom_body b)" "collected file v w" for b p v w
      using freeform_child_part [OF assms(1) that] by blast
  qed (use in_box assms(1,4) in \<open>simp_all add: readable_def collected_def\<close>)
  then obtain s' where walk: "walk_children file (q + length (atom_body a)) (freeform_child grant file) q ?s = (Inr True, s')"
      and s': "collected file s' (fold freeform_part (children a) (None, None, None))"
    by (auto simp: run_all walk_children_def)
  obtain mean name "value" where parts: "fold freeform_part (children a) (None, None, None) = (mean, name, value)"
    by (metis prod_cases3)
  have payload: "read_payload grant file label stop start = Inr bs" if "placed file start bs" "stop = start + length bs" for label stop start bs
    using that assms(1) placed_le [OF that(1)] by (simp add: placed_payload readable_def)
  show ?thesis
    using False walk s' unfolding read_itunsmpb_def atom_tag_def parts collected_def
    by (auto simp: payload split: option.splits)
qed

lemma parse_ilst_run:
  assumes "readable grant file" "placed file pos (atoms_bytes cs)" "list_all atom_ok cs" "stop = pos + length (atoms_bytes cs)"
  shows "parse_ilst grant file visitor stop pos v = flowing (run visitor (ilst_events cs) v)"
  unfolding parse_ilst_def ilst_events_def
  by (rule walk_matching_child_run [OF assms])
    (auto simp: read_itunsmpb_tag [OF assms(1)] emit_run optional_def split: option.split)

text \<open>A \<open>meta\<close> of either form: the full-box header is zero, a first box of its own is not.\<close>

lemma atom_head:
  assumes "atom_ok a"
  shows "take 4 (atom_bytes a) \<noteq> [0, 0, 0, 0]" "4 \<le> length (atom_bytes a)"
proof -
  define n where "n = (if wide a then 1 else 8 + length (atom_body a))"
  have "be_nat (be_bytes 4 n) = n"
    using atom_okD(2) [OF assms] by (auto simp: n_def intro!: be_nat_be_bytes)
  moreover have "take 4 (atom_bytes a) = be_bytes 4 n"
    by (simp add: atom_bytes_eq n_def)
  moreover have "be_nat [0, 0, 0, 0] = 0" "n \<noteq> 0"
    by (simp_all add: be_nat_def n_def)
  ultimately show "take 4 (atom_bytes a) \<noteq> [0, 0, 0, 0]"
    by metis
  show "4 \<le> length (atom_bytes a)"
    using length_atom_bytes [OF assms] by (simp add: header_len_def split: if_splits)
qed

lemma parse_meta_run:
  assumes "readable grant file" "placed file q (atom_body a)" "atom_ok a" "atom_kind a = BOX_META"
  shows "parse_meta grant file visitor (q + length (atom_body a)) q v = flowing (run visitor (meta_events (children a)) v)"
proof -
  define start where "start = q + length (prefix a)"
  have placed: "placed file q (prefix a)" "placed file start (atoms_bytes (children a))"
      "q + length (atom_body a) = start + length (atoms_bytes (children a))"
    using assms(2) by (simp_all add: atom_body_def placed_append start_def)
  have probe: "(if 4 \<le> q + length (atom_body a) - q
      then map_option (\<lambda>probe. if probe \<noteq> [0, 0, 0, 0] then q else q + 4) (read_exact file q 4) else Some q) = Some start"
  proof (cases "prefix a = []")
    case True
    show ?thesis
    proof (cases "children a")
      case Nil
      then show ?thesis
        using True by (simp add: start_def atom_body_def)
    next
      case (Cons b bs)
      then have b: "take 4 (atom_bytes b) \<noteq> [0, 0, 0, 0]" "4 \<le> length (atom_bytes b)"
        using atom_head atom_okD(4) [OF assms(3)] by auto
      have "placed file q (take 4 (atom_bytes b) @ drop 4 (atom_bytes b))"
        using placed(2) True Cons by (simp add: start_def placed_append)
      then have "read_exact file q 4 = Some (take 4 (atom_bytes b))"
        using b(2) by (simp only: placed_append) (simp add: placed_read)
      then show ?thesis
        using True b Cons by (simp add: start_def atom_body_def)
    qed
  next
    case False
    then have "prefix a = [0, 0, 0, 0]"
      using atom_okD(6) [OF assms(3,4)] by simp
    then show ?thesis
      using placed(1) by (simp add: start_def atom_body_def placed_read)
  qed
  show ?thesis
    unfolding parse_meta_def meta_events_def probe
    by (simp, rule walk_matching_child_run [OF assms(1) placed(2) atom_okD(4) [OF assms(3)] placed(3)])
      (simp add: parse_ilst_run [OF assms(1)] children_placed)
qed

lemma parse_udta_run:
  assumes "readable grant file" "placed file pos (atoms_bytes cs)" "list_all atom_ok cs" "stop = pos + length (atoms_bytes cs)"
  shows "parse_udta grant file visitor stop pos v = flowing (run visitor (udta_events cs) v)"
  unfolding parse_udta_def udta_events_def
  by (rule walk_matching_child_run [OF assms]) (simp add: parse_meta_run [OF assms(1)])

text \<open>A track ends for the visitor even if it stopped inside.\<close>

definition run_track :: "'v visitor \<Rightarrow> mp4_event list \<Rightarrow> 'v \<Rightarrow> bool \<times> 'v" where
  "run_track visitor es v =
     (case visitor TrackBegin v of (begun, v) \<Rightarrow>
        if begun then (case run visitor es v of (walked, v) \<Rightarrow> case visitor TrackEnd v of (ended, v) \<Rightarrow> (walked \<and> ended, v))
        else (False, v))"

definition run_moov_child :: "'v visitor \<Rightarrow> atom \<Rightarrow> 'v \<Rightarrow> bool \<times> 'v" where
  "run_moov_child visitor a v =
     (if atom_kind a = BOX_TRAK then run_track visitor (trak_events (children a)) v else run visitor (moov_child_events a) v)"

lemma parse_trak_run:
  assumes "readable grant file" "placed file pos (atoms_bytes cs)" "list_all atom_ok cs" "stop = pos + length (atoms_bytes cs)"
  shows "parse_trak grant file visitor stop pos v = flowing (run_track visitor (trak_events cs) v)"
proof -
  have "walk_children file stop
      (\<lambda>b body v.
         if box_kind b = BOX_TKHD then with_payload grant file ''tkhd'' (on_tkhd visitor) b body v
         else if box_kind b = BOX_MDIA then parse_mdia grant file visitor (box_end b) body v
         else if box_kind b = BOX_EDTS then parse_edts grant file visitor (box_end b) body v
         else (Inr True, v)) pos v = flowing (run visitor (trak_events cs) v)" for v
    unfolding trak_events_def
    by (rule walk_children_run [OF assms])
      (auto simp: read_children [OF assms(1)] on_payload_runs parse_mdia_run [OF assms(1)] parse_edts_run [OF assms(1)] children_placed)
  then show ?thesis
    by (auto simp: parse_trak_def run_track_def flowing_def split: prod.split)
qed

lemma parse_moov_run:
  assumes "readable grant file" "placed file pos (atoms_bytes cs)" "list_all atom_ok cs" "stop = pos + length (atoms_bytes cs)"
  shows "parse_moov grant file visitor stop pos v = flowing (run (run_moov_child visitor) cs v)"
proof -
  have "BOX_TRAK \<noteq> BOX_MVHD" "length file \<le> u64_max"
    using assms(1) by (simp_all add: box_kinds readable_def)
  then show ?thesis
    unfolding parse_moov_def walk_children_def
    by (intro walk_atoms)
      (use assms(2-4) in \<open>auto simp: run_moov_child_def moov_child_events_def read_children [OF assms(1)] on_payload_runs
        parse_trak_run [OF assms(1)] parse_meta_run [OF assms(1)] parse_udta_run [OF assms(1)] children_placed\<close>)
qed

lemma deliver_outside:
  "TrackBegin \<notin> set es \<Longrightarrow> deliver visitor False (es @ rest) v
    = (case run visitor es v of (goes_on, v) \<Rightarrow> if goes_on then deliver visitor False rest v else v)"
  by (induction es arbitrary: v) (auto split: prod.split)

lemma deliver_inside:
  "TrackEnd \<notin> set es \<Longrightarrow> deliver visitor True (es @ rest) v
    = (case run visitor es v of (goes_on, v) \<Rightarrow> if goes_on then deliver visitor True rest v else snd (visitor TrackEnd v))"
  by (induction es arbitrary: v) (auto split: prod.split)

lemma no_marks:
  "TrackEnd \<notin> set (trak_events cs)" "TrackBegin \<notin> set (udta_events cs)" "TrackBegin \<notin> set (meta_events cs)"
  by (auto simp: trak_events_def mdia_events_def minf_events_def stbl_events_def edts_events_def udta_events_def meta_events_def
      ilst_events_def optional_def split: if_splits option.splits)

lemma deliver_moov:
  "snd (run (run_moov_child visitor) cs v) = deliver visitor False (concat (map moov_child_events cs)) v"
proof (induction cs arbitrary: v)
  case (Cons a cs)
  show ?case
  proof (cases "atom_kind a = BOX_TRAK")
    case True
    then have "moov_child_events a = TrackBegin # trak_events (children a) @ [TrackEnd]"
      by (simp add: moov_child_events_def box_kinds)
    then show ?thesis
      using True Cons.IH by (auto simp: run_moov_child_def run_track_def deliver_inside no_marks split: prod.split)
  next
    case False
    then have "TrackBegin \<notin> set (moov_child_events a)"
      using no_marks by (auto simp: moov_child_events_def optional_def split: option.split)
    then show ?thesis
      using False Cons.IH by (auto simp: run_moov_child_def deliver_outside split: prod.split)
  qed
qed simp

text \<open>C25: the scanner delivers exactly the events of the movie.  On a file of well-formed boxes, whatever
  their sizes, their number, and what lies in the boxes it passes over, the scanner, which works on
  positions and reads only the payloads it needs, tells a visitor the events of the first movie in
  order, up to where the visitor stops (a track it stops inside is still ended), reports success, and
  leaves the reader where it was.\<close>

theorem scan_delivers_the_movie:
  assumes "list_all atom_ok tops" "readable grant (before @ atoms_bytes tops)"
  shows "scan_mp4 grant (before @ atoms_bytes tops) visitor (length before) v
    = (Inr (), deliver visitor False (movie_events tops) v, length before)"
proof -
  let ?file = "before @ atoms_bytes tops"
  define g where "g a v = (if atom_kind a = BOX_MOOV then (False, snd (run (run_moov_child visitor) (children a) v)) else (True, v))" for a v
  have fits: "length ?file \<le> u64_max"
    using assms(2) by (simp add: readable_def)
  have moov: "parse_moov grant ?file visitor (q + length (atom_body a)) q v = flowing (run (run_moov_child visitor) (children a) v)"
    if "atom_ok a" "placed ?file q (atom_body a)" "atom_kind a = BOX_MOOV" for a q v
    using children_placed [OF that(1,2)] that(3) by (intro parse_moov_run [OF assms(2)]) simp_all
  have "placed ?file (length before) (atoms_bytes tops)"
    unfolding placed_def by (intro exI [of _ before] exI [of _ "[]"]) simp
  then have "walk_boxes ?file None
      (\<lambda>b body v.
         if box_kind b = BOX_MOOV
         then (case parse_moov grant ?file visitor (box_end b) body v of (Inl e, v) \<Rightarrow> (Inl e, v) | (Inr _, v) \<Rightarrow> (Inr False, v))
         else (Inr True, v)) (length before) v = flowing (run g tops v)"
    by (rule walk_atoms)
      (use assms(1) fits in \<open>auto simp: g_def moov flowing_def\<close>)
  moreover have "snd (run g tops v) = deliver visitor False (movie_events tops) v"
    by (induction tops) (auto simp: g_def movie_events_def deliver_moov)
  ultimately show ?thesis
    by (simp add: scan_mp4_def scan_def flowing_def)
qed

subsection \<open>Payloads as a writer lays them out\<close>

definition unsigned :: "nat \<Rightarrow> int \<Rightarrow> nat" where
  "unsigned bits i = nat (i mod 2 ^ bits)"

definition edit_bytes :: "bool \<Rightarrow> mp4_edit \<Rightarrow> u8 list" where
  "edit_bytes long e =
     (if long then be_bytes 8 (segment_duration e) @ be_bytes 8 (unsigned 64 (media_time e)) @ be_bytes 4 (unsigned 32 (media_rate e))
      else be_bytes 4 (segment_duration e) @ be_bytes 4 (unsigned 32 (media_time e)) @ be_bytes 4 (unsigned 32 (media_rate e)))"

definition elst_bytes :: "bool \<Rightarrow> mp4_edit list \<Rightarrow> u8 list" where
  "elst_bytes long es = (if long then 1 else 0) # [0, 0, 0] @ be_bytes 4 (length es) @ concat (map (edit_bytes long) es)"

definition edit_ok :: "bool \<Rightarrow> mp4_edit \<Rightarrow> bool" where
  "edit_ok long e \<longleftrightarrow> - (2 ^ 31) \<le> media_rate e \<and> media_rate e < 2 ^ 31
     \<and> (if long then segment_duration e < 2 ^ 64 \<and> - (2 ^ 63) \<le> media_time e \<and> media_time e < 2 ^ 63
        else segment_duration e < 2 ^ 32 \<and> - (2 ^ 31) \<le> media_time e \<and> media_time e < 2 ^ 31)"

definition mvhd_bytes :: "bool \<Rightarrow> nat \<Rightarrow> u8 list" where
  "mvhd_bytes long per_second = (if long then 1 # replicate 19 0 else 0 # replicate 11 0) @ be_bytes 4 per_second"

definition mdhd_bytes :: "bool \<Rightarrow> mp4_media_timing \<Rightarrow> u8 list" where
  "mdhd_bytes long t = mvhd_bytes long (timescale t) @ be_bytes (if long then 8 else 4) (media_duration t)"

definition tkhd_bytes :: "bool \<Rightarrow> nat \<Rightarrow> u8 list" where
  "tkhd_bytes long k = (if long then 1 # replicate 19 0 else 0 # replicate 11 0) @ be_bytes 4 k"

definition stsd_bytes :: "u8 list \<Rightarrow> nat \<Rightarrow> u8 list" where
  "stsd_bytes fourcc rate = replicate 4 0 @ be_bytes 4 1 @ be_bytes 4 36 @ fourcc @ replicate 24 0 @ be_bytes 4 (rate * 65536)"

lemma signed_of_unsigned:
  assumes "0 < bits" "- (2 ^ (bits - 1)) \<le> i" "i < 2 ^ (bits - 1)"
  shows "signed_of bits (unsigned bits i) = i" "unsigned bits i < 2 ^ bits"
proof -
  have pow: "(2 :: int) ^ bits = 2 * 2 ^ (bits - 1)"
    using assms(1) by (cases bits) simp_all
  show "unsigned bits i < 2 ^ bits"
    by (simp add: unsigned_def nat_less_iff)
  show "signed_of bits (unsigned bits i) = i"
  proof (cases "0 \<le> i")
    case True
    then have "i mod 2 ^ bits = i"
      using assms(3) pow by (intro mod_pos_pos_trivial) linarith+
    moreover have "nat i < 2 ^ (bits - 1)"
      using assms(3) True by (simp add: nat_less_iff)
    ultimately show ?thesis
      using True by (simp add: signed_of_def unsigned_def)
  next
    case False
    then have "(i + 2 ^ bits) mod 2 ^ bits = i + 2 ^ bits"
      using assms(2) pow by (intro mod_pos_pos_trivial) linarith+
    then have i: "i mod 2 ^ bits = i + 2 ^ bits"
      by simp
    moreover have "\<not> nat (i + 2 ^ bits) < 2 ^ (bits - 1)" "0 \<le> i + 2 ^ bits"
      using assms(2) False pow by (simp_all add: nat_less_iff)
    ultimately show ?thesis
      by (simp add: signed_of_def unsigned_def)
  qed
qed

lemma read_be_written:
  "n < 2 ^ 32 \<Longrightarrow> read_be_u32 (be_bytes 4 n) = Some n" "n < 2 ^ 64 \<Longrightarrow> read_be_u64 (be_bytes 8 n) = Some n"
  "- (2 ^ 31) \<le> i \<Longrightarrow> i < 2 ^ 31 \<Longrightarrow> read_be_i32 (be_bytes 4 (unsigned 32 i)) = Some i"
  "- (2 ^ 63) \<le> i \<Longrightarrow> i < 2 ^ 63 \<Longrightarrow> read_be_i64 (be_bytes 8 (unsigned 64 i)) = Some i"
  using signed_of_unsigned [of 32 i] signed_of_unsigned [of 64 i]
  by (simp_all add: read_be_u32_def read_be_u64_def read_be_i32_def read_be_i64_def be_nat_be_bytes)

lemma bytes_range_at: "start = length pre \<Longrightarrow> n = length bs \<Longrightarrow> bytes_range (pre @ bs @ post) start n = Some bs"
  by (simp add: bytes_range_def)

lemma elst_field_at:
  "start = length pre \<Longrightarrow> n = length bs \<Longrightarrow> reads bs = Some x \<Longrightarrow> elst_field (pre @ bs @ post) start n reads label = Inr x"
  by (simp add: elst_field_def payload_slice_def bytes_range_at)

lemma parse_edit:
  assumes "edit_ok long e" "off = length pre"
  shows "(if long then parse_elst_v1 else parse_elst_v0) (pre @ edit_bytes long e @ post) off = Inr e"
proof (cases long)
  case True
  let ?d = "be_bytes 8 (segment_duration e)" and ?t = "be_bytes 8 (unsigned 64 (media_time e))" and ?r = "be_bytes 4 (unsigned 32 (media_rate e))"
  have reads: "read_be_u64 ?d = Some (segment_duration e)" "read_be_i64 ?t = Some (media_time e)" "read_be_i32 ?r = Some (media_rate e)"
    using assms(1) True by (auto simp: edit_ok_def intro: read_be_written)
  show ?thesis
    using True assms(2) elst_field_at [of off pre 8 ?d read_be_u64 _ "?t @ ?r @ post", OF _ _ reads(1)]
      elst_field_at [of "off + 8" "pre @ ?d" 8 ?t read_be_i64 _ "?r @ post", OF _ _ reads(2)]
      elst_field_at [of "off + 16" "pre @ ?d @ ?t" 4 ?r read_be_i32 _ post, OF _ _ reads(3)]
    by (simp add: parse_elst_v1_def edit_bytes_def)
next
  case False
  let ?d = "be_bytes 4 (segment_duration e)" and ?t = "be_bytes 4 (unsigned 32 (media_time e))" and ?r = "be_bytes 4 (unsigned 32 (media_rate e))"
  have reads: "read_be_u32 ?d = Some (segment_duration e)" "read_be_i32 ?t = Some (media_time e)" "read_be_i32 ?r = Some (media_rate e)"
    using assms(1) False by (auto simp: edit_ok_def intro: read_be_written)
  show ?thesis
    using False assms(2) elst_field_at [of off pre 4 ?d read_be_u32 _ "?t @ ?r @ post", OF _ _ reads(1)]
      elst_field_at [of "off + 4" "pre @ ?d" 4 ?t read_be_i32 _ "?r @ post", OF _ _ reads(2)]
      elst_field_at [of "off + 8" "pre @ ?d @ ?t" 4 ?r read_be_i32 _ post, OF _ _ reads(3)]
    by (simp add: parse_elst_v0_def edit_bytes_def)
qed

lemma parse_entries_written:
  assumes "list_all (edit_ok long) es" "off = length pre"
  shows "parse_entries (if long then 1 else 0) (length es) (pre @ concat (map (edit_bytes long) es) @ post) off = Inr es"
  using assms
proof (induction es arbitrary: off pre)
  case (Cons e es)
  have len: "length (edit_bytes long e) = (if long then 20 else 12)"
    by (simp add: edit_bytes_def)
  show ?case
    using Cons.IH [of "off + (if long then 20 else 12)" "pre @ edit_bytes long e"] Cons.prems len
      parse_edit [of long e off pre "concat (map (edit_bytes long) es) @ post"]
    by (simp split: if_splits)
qed simp

lemma parse_elst_written:
  assumes "list_all (edit_ok long) es" "length es \<le> ELST_MAX_ENTRIES"
  shows "parse_elst (elst_bytes long es) = Inr es"
proof -
  let ?head = "(if long then 1 else 0) # [0, 0, 0] :: u8 list" and ?count = "be_bytes 4 (length es)"
  have "length es < 2 ^ 32"
    using assms(2) by (simp add: ELST_MAX_ENTRIES_def)
  then have "elst_field (elst_bytes long es) 4 4 read_be_u32 ''elst entry count'' = Inr (length es)"
    using elst_field_at [of 4 ?head 4 ?count read_be_u32 "length es" "concat (map (edit_bytes long) es)"]
    by (simp add: elst_bytes_def read_be_written)
  moreover have "parse_entries (if long then 1 else 0) (length es) (elst_bytes long es) 8 = Inr es"
    using parse_entries_written [OF assms(1), of 8 "?head @ ?count" "[]"] by (simp add: elst_bytes_def)
  ultimately show ?thesis
    using assms(2) by (cases long) (simp_all add: parse_elst_def min_def, simp_all add: elst_bytes_def)
qed

lemma parse_written:
  "n < 2 ^ 32 \<Longrightarrow> parse_mvhd_timescale (mvhd_bytes long n) = Some n"
  "n < 2 ^ 32 \<Longrightarrow> parse_tkhd_track_id (tkhd_bytes long n) = Some n"
  "timescale t < 2 ^ 32 \<Longrightarrow> media_duration t < (if long then 2 ^ 64 else 2 ^ 32) \<Longrightarrow> parse_mdhd (mdhd_bytes long t) = Some t"
  "length fourcc = 4 \<Longrightarrow> parse_stsd_codec (stsd_bytes fourcc rate) = Some fourcc"
  "length fourcc = 4 \<Longrightarrow> rate < 2 ^ 16 \<Longrightarrow> parse_stsd_sample_rate (stsd_bytes fourcc rate) = Some rate"
proof -
  show "parse_mvhd_timescale (mvhd_bytes long n) = Some n" "parse_tkhd_track_id (tkhd_bytes long n) = Some n" if "n < 2 ^ 32"
    using that by (simp_all add: parse_mvhd_timescale_def mvhd_bytes_def parse_tkhd_track_id_def tkhd_bytes_def bytes_range_def read_be_written)
  show "parse_mdhd (mdhd_bytes long t) = Some t" if "timescale t < 2 ^ 32" "media_duration t < (if long then 2 ^ 64 else 2 ^ 32)"
    using that by (cases long) (simp_all add: parse_mdhd_def mdhd_bytes_def mvhd_bytes_def read_be_written)
  show "parse_stsd_codec (stsd_bytes fourcc rate) = Some fourcc" if "length fourcc = 4"
    using that by (simp add: parse_stsd_codec_def stsd_bytes_def bytes_range_def)
  show "parse_stsd_sample_rate (stsd_bytes fourcc rate) = Some rate" if "length fourcc = 4" "rate < 2 ^ 16"
    using that by (simp add: parse_stsd_sample_rate_def stsd_bytes_def read_be_written)
qed

subsection \<open>The tag as a writer lays it out\<close>

definition hex_char :: "nat \<Rightarrow> u8" where
  "hex_char d = of_nat (if d < 10 then 48 + d else 55 + d)"

fun hex_text :: "nat \<Rightarrow> nat \<Rightarrow> u8 list" where
  "hex_text 0 n = []"
| "hex_text (Suc k) n = hex_text k (n div 16) @ [hex_char (n mod 16)]"

definition tag_text :: "nat \<Rightarrow> nat \<Rightarrow> u8 list" where
  "tag_text leading trailing =
     32 # hex_text 8 0 @ 32 # hex_text 8 leading @ 32 # hex_text 8 trailing @ 32 # hex_text 16 0"

lemma hex_char_facts:
  assumes "d < 16"
  shows "hex_value (hex_char d) = Some d" "\<not> ascii_space (hex_char d)" "hex_char d \<noteq> 43" "hex_char d \<noteq> 0" "unat (hex_char d) \<le> 127"
proof -
  have n: "unat (hex_char d) = (if d < 10 then 48 + d else 55 + d)"
    using assms by (simp add: hex_char_def unat_of_nat)
  then show "hex_value (hex_char d) = Some d" "unat (hex_char d) \<le> 127"
    using assms by (auto simp: hex_value_def Let_def)
  have "unat (hex_char d) \<noteq> unat b" if "b \<in> {0, 9, 10, 12, 13, 32, 43}" for b :: u8
    using that n assms by auto
  then show "\<not> ascii_space (hex_char d)" "hex_char d \<noteq> 43" "hex_char d \<noteq> 0"
    by (auto simp: ascii_space_def)
qed

lemma hex_text_chars: "b \<in> set (hex_text k n) \<Longrightarrow> \<exists>d < 16. b = hex_char d"
proof (induction k arbitrary: n)
  case (Suc k)
  then have "b \<in> set (hex_text k (n div 16)) \<or> b = hex_char (n mod 16)"
    by auto
  moreover have "\<exists>d < 16. hex_char (n mod 16) = hex_char d"
    by (rule exI [of _ "n mod 16"]) simp
  ultimately show ?case
    using Suc.IH [of "n div 16"] by blast
qed simp

lemma length_hex_text [simp]: "length (hex_text k n) = k"
  by (induction k arbitrary: n) simp_all

lemma hex_digits_append: "hex_digits acc (xs @ ys) = Option.bind (hex_digits acc xs) (\<lambda>a. hex_digits a ys)"
  by (induction xs arbitrary: acc) (simp_all split: option.split)

lemma hex_digits_text:
  "n < 16 ^ k \<Longrightarrow> acc * 16 ^ k + n \<le> u64_max \<Longrightarrow> hex_digits acc (hex_text k n) = Some (acc * 16 ^ k + n)"
proof (induction k arbitrary: n)
  case (Suc k)
  have "n div 16 < 16 ^ k"
    using Suc.prems(1) by (simp add: less_mult_imp_div_less mult.commute)
  moreover have "acc * 16 ^ k + n div 16 \<le> acc * 16 ^ Suc k + n"
    by (simp add: add_mono)
  ultimately have "hex_digits acc (hex_text k (n div 16)) = Some (acc * 16 ^ k + n div 16)"
    using Suc by simp
  moreover have "(acc * 16 ^ k + n div 16) * 16 + n mod 16 = acc * 16 ^ Suc k + n"
    by (simp add: algebra_simps)
  ultimately show ?case
    using Suc.prems(2) by (simp add: hex_digits_append hex_char_facts)
qed simp

lemma parse_hex_text:
  assumes "0 < k" "k \<le> 16" "n < 16 ^ k"
  shows "parse_hex (hex_text k n) = Some n"
proof -
  obtain b bs where b: "hex_text k n = b # bs"
    using assms(1) by (metis length_hex_text list.exhaust list.size(3) less_numeral_extra(3))
  then have "b \<noteq> 43"
    using hex_text_chars [of b k n] hex_char_facts(3) by auto
  moreover have "n \<le> u64_max"
    using assms(3) power_increasing [OF assms(2), of "16 :: nat"] by (simp add: u64_max_def)
  ultimately show ?thesis
    using hex_digits_text [OF assms(3), of 0] b by (simp add: parse_hex_def)
qed

lemma ascii_words_word: "list_all (\<lambda>b. \<not> ascii_space b) w \<Longrightarrow> ascii_words u (w @ rest) = ascii_words (u @ w) rest"
  by (induction w arbitrary: u) simp_all

lemma hex_text_word: "list_all (\<lambda>b. \<not> ascii_space b) (hex_text k n)"
  using hex_text_chars [of _ k n] hex_char_facts(2) by (auto simp: list_all_iff)

lemma utf8_ascii: "list_all (\<lambda>b. unat b \<le> 127) bs \<Longrightarrow> utf8 bs"
  by (induction bs) (simp_all add: Let_def)

lemma hex_text_ascii: "list_all (\<lambda>b. unat b \<le> 127) (hex_text k n)"
  using hex_text_chars [of _ k n] hex_char_facts(5) by (auto simp: list_all_iff)

lemma trim_zeros_keeps: "bs \<noteq> [] \<Longrightarrow> last bs \<noteq> 0 \<Longrightarrow> trim_zeros bs = bs"
  by (cases bs rule: rev_cases) (simp_all add: trim_zeros_def)

text \<open>Printed counts read back.\<close>

lemma parse_tag_text:
  assumes "leading < 2 ^ 32" "trailing < 2 ^ 32"
  shows "parse_itunsmpb (tag_text leading trailing) = Some \<lparr>leading_frames = leading, trailing_frames = trailing\<rparr>"
proof -
  have "utf8 (tag_text leading trailing)"
    by (rule utf8_ascii) (simp add: tag_text_def hex_text_ascii)
  moreover have ends: "hex_text 16 0 \<noteq> []"
    by (simp flip: length_greater_0_conv)
  then have "last (hex_text 16 0) \<noteq> 0"
    using hex_text_chars [OF last_in_set [OF ends]] hex_char_facts(4) by auto
  with ends have "trim_zeros (tag_text leading trailing) = tag_text leading trailing"
    by (intro trim_zeros_keeps) (simp_all add: tag_text_def)
  moreover have words: "ascii_words [] (hex_text k n @ 32 # rest) = hex_text k n # ascii_words [] rest" if "0 < k" for k n rest
    using ascii_words_word [OF hex_text_word, of "[]" k n "32 # rest"] that
    by (auto simp: ascii_space_def simp flip: length_greater_0_conv)
  have "ascii_words [] (tag_text leading trailing)
      = hex_text 8 0 # hex_text 8 leading # hex_text 8 trailing # ascii_words [] (hex_text 16 0)"
    by (simp add: tag_text_def words ascii_space_def)
  ultimately show ?thesis
    using parse_hex_text [of 8] assms by (simp add: parse_itunsmpb_def)
qed

subsection \<open>A written movie\<close>

record movie =
  mv_wide :: bool
  mv_long :: bool
  mv_per_second :: nat
  mv_track :: nat
  mv_edits :: "mp4_edit list"
  mv_timing :: mp4_media_timing
  mv_codec :: "u8 list"
  mv_rate :: nat
  mv_tag :: "(nat \<times> nat) option"

definition leaf :: "bool \<Rightarrow> u8 list \<Rightarrow> u8 list \<Rightarrow> atom" where
  "leaf w k payload = Atom w k payload []"

definition tag_atom :: "bool \<Rightarrow> nat \<times> nat \<Rightarrow> atom" where
  "tag_atom w counts =
     Atom w BOX_UDTA [] [Atom w BOX_META [0, 0, 0, 0] [Atom w BOX_ILST [] [Atom w BOX_FREEFORM []
       [leaf w BOX_MEAN (replicate 4 0 @ ITUNES_MEAN), leaf w BOX_NAME (replicate 4 0 @ ITUNSMPB_NAME),
        leaf w BOX_DATA (be_bytes 4 1 @ be_bytes 4 0 @ tag_text (fst counts) (snd counts))]]]]"

definition movie_atom :: "movie \<Rightarrow> atom" where
  "movie_atom m = (let w = mv_wide m; long = mv_long m in
     Atom w BOX_MOOV []
       ([leaf w BOX_MVHD (mvhd_bytes long (mv_per_second m)),
         Atom w BOX_TRAK []
           [leaf w BOX_TKHD (tkhd_bytes long (mv_track m)),
            Atom w BOX_EDTS [] [leaf w BOX_ELST (elst_bytes long (mv_edits m))],
            Atom w BOX_MDIA []
              [leaf w BOX_MDHD (mdhd_bytes long (mv_timing m)),
               Atom w BOX_MINF [] [Atom w BOX_STBL [] [leaf w BOX_STSD (stsd_bytes (mv_codec m) (mv_rate m))]]]]]
        @ (case mv_tag m of None \<Rightarrow> [] | Some counts \<Rightarrow> [tag_atom w counts])))"

text \<open>Every field fits the width it is written at.\<close>

definition movie_ok :: "movie \<Rightarrow> bool" where
  "movie_ok m \<longleftrightarrow> mv_per_second m < 2 ^ 32 \<and> mv_track m < 2 ^ 32 \<and> list_all (edit_ok (mv_long m)) (mv_edits m)
     \<and> length (mv_edits m) \<le> ELST_MAX_ENTRIES \<and> timescale (mv_timing m) < 2 ^ 32
     \<and> media_duration (mv_timing m) < (if mv_long m then 2 ^ 64 else 2 ^ 32) \<and> length (mv_codec m) = 4 \<and> mv_rate m < 2 ^ 16
     \<and> (case mv_tag m of None \<Rightarrow> True | Some (leading, trailing) \<Rightarrow> leading < 2 ^ 32 \<and> trailing < 2 ^ 32)"

definition movie_tag :: "movie \<Rightarrow> gapless_info option" where
  "movie_tag m = map_option (\<lambda>(leading, trailing). \<lparr>leading_frames = leading, trailing_frames = trailing\<rparr>) (mv_tag m)"

lemma leaf_sel [simp]:
  "atom_kind (leaf w k p) = k" "atom_body (leaf w k p) = p" "children (leaf w k p) = []" "wide (leaf w k p) = w"
  by (simp_all add: leaf_def atom_body_def)

lemma leaf_ok: "atom_ok (leaf w k p) \<longleftrightarrow> length k = 4 \<and> (w \<or> 8 + length p < 2 ^ 32) \<and> 16 + length p < 2 ^ 64
    \<and> (k \<in> container_kinds \<or> k = BOX_META \<longrightarrow> p = []) \<and> (k = BOX_ELST \<longrightarrow> (\<exists>es. parse_elst p = Inr es))
    \<or> length k = 4 \<and> k = BOX_META \<and> p = [0, 0, 0, 0]"
  by (auto simp: leaf_def container_kinds_def box_kinds)

lemma length_box_kinds [simp]:
  "length BOX_DATA = 4" "length BOX_EDTS = 4" "length BOX_ELST = 4" "length BOX_FREEFORM = 4" "length BOX_ILST = 4"
  "length BOX_MDHD = 4" "length BOX_MDIA = 4" "length BOX_MEAN = 4" "length BOX_META = 4" "length BOX_MINF = 4"
  "length BOX_MOOV = 4" "length BOX_MVHD = 4" "length BOX_NAME = 4" "length BOX_STBL = 4" "length BOX_STSD = 4"
  "length BOX_TRAK = 4" "length BOX_TKHD = 4" "length BOX_UDTA = 4"
  by (simp_all add: box_kinds)

lemma leaf_kinds [simp]:
  "BOX_DATA \<notin> container_kinds" "BOX_ELST \<notin> container_kinds" "BOX_MDHD \<notin> container_kinds" "BOX_MEAN \<notin> container_kinds"
  "BOX_MVHD \<notin> container_kinds" "BOX_NAME \<notin> container_kinds" "BOX_STSD \<notin> container_kinds" "BOX_TKHD \<notin> container_kinds"
  "BOX_META \<notin> container_kinds"
  by (simp_all add: container_kinds_def box_kinds)

lemma kinds_differ [simp]:
  "BOX_DATA \<noteq> BOX_META" "BOX_ELST \<noteq> BOX_META" "BOX_MDHD \<noteq> BOX_META" "BOX_MEAN \<noteq> BOX_META" "BOX_MVHD \<noteq> BOX_META"
  "BOX_NAME \<noteq> BOX_META" "BOX_STSD \<noteq> BOX_META" "BOX_TKHD \<noteq> BOX_META" "BOX_DATA \<noteq> BOX_ELST" "BOX_MDHD \<noteq> BOX_ELST"
  "BOX_MEAN \<noteq> BOX_ELST" "BOX_MVHD \<noteq> BOX_ELST" "BOX_NAME \<noteq> BOX_ELST" "BOX_STSD \<noteq> BOX_ELST" "BOX_TKHD \<noteq> BOX_ELST"
  "BOX_UDTA \<noteq> BOX_ELST" "BOX_META \<noteq> BOX_ELST" "BOX_ILST \<noteq> BOX_ELST" "BOX_FREEFORM \<noteq> BOX_ELST" "BOX_MOOV \<noteq> BOX_ELST"
  "BOX_TRAK \<noteq> BOX_ELST" "BOX_EDTS \<noteq> BOX_ELST" "BOX_MDIA \<noteq> BOX_ELST" "BOX_MINF \<noteq> BOX_ELST" "BOX_STBL \<noteq> BOX_ELST"
  by (simp_all add: box_kinds)

lemma length_elst_bytes: "length (elst_bytes long es) = 8 + length es * (if long then 20 else 12)"
proof -
  have "length (concat (map (edit_bytes long) es)) = length es * (if long then 20 else 12)"
    by (induction es) (simp_all add: edit_bytes_def)
  then show ?thesis
    by (simp add: elst_bytes_def)
qed

lemma length_payloads [simp]:
  "length (mvhd_bytes long n) = (if long then 24 else 16)" "length (mdhd_bytes long t) = (if long then 32 else 20)"
  "length (tkhd_bytes long n) = (if long then 24 else 16)" "length (stsd_bytes fourcc rate) = 40 + length fourcc"
  "length (tag_text leading trailing) = 44" "length ITUNES_MEAN = 16" "length ITUNSMPB_NAME = 8"
  by (simp_all add: mvhd_bytes_def mdhd_bytes_def tkhd_bytes_def stsd_bytes_def tag_text_def ITUNES_MEAN_def ITUNSMPB_NAME_def)

lemma length_atom: "length (atom_bytes (Atom w k p cs)) = (if w then 12 else 4) + length k + length p + length (atoms_bytes cs)"
  by (simp add: Let_def atoms_bytes_def)

lemma tag_atom_ok: "atom_ok (tag_atom w counts)"
  by (simp add: tag_atom_def leaf_ok length_atom del: atom_bytes.simps) (simp add: leaf_def length_atom del: atom_bytes.simps)

lemma movie_atom_ok:
  assumes "movie_ok m"
  shows "atom_ok (movie_atom m)"
proof -
  let ?edits = "mv_edits m"
  have edits: "parse_elst (elst_bytes (mv_long m) ?edits) = Inr ?edits" "length (elst_bytes (mv_long m) ?edits) \<le> 81928"
    using assms parse_elst_written [of "mv_long m" ?edits]
    by (auto simp: movie_ok_def length_elst_bytes ELST_MAX_ENTRIES_def)
  have tag: "length (atom_bytes (tag_atom w counts)) \<le> 1000" for w counts
    by (simp add: tag_atom_def leaf_def length_atom del: atom_bytes.simps)
  have codec: "length (mv_codec m) = 4"
    using assms by (simp add: movie_ok_def)
  note sizes = leaf_ok length_atom leaf_def [of _ BOX_MVHD] leaf_def [of _ BOX_TKHD] leaf_def [of _ BOX_ELST]
    leaf_def [of _ BOX_MDHD] leaf_def [of _ BOX_STSD]
  show ?thesis
  proof (cases "mv_tag m")
    case None
    then show ?thesis
      using edits codec by (auto simp: movie_atom_def Let_def sizes simp del: atom_bytes.simps)
  next
    case (Some counts)
    then show ?thesis
      using edits codec tag [of "mv_wide m" counts] tag_atom_ok [of "mv_wide m" counts]
      by (auto simp: movie_atom_def Let_def sizes simp del: atom_bytes.simps)
  qed
qed

lemma tag_atom_events:
  assumes "leading < 2 ^ 32" "trailing < 2 ^ 32"
  shows "moov_child_events (tag_atom w (leading, trailing)) = [ItunSmpb \<lparr>leading_frames = leading, trailing_frames = trailing\<rparr>]"
proof -
  let ?parts = "[leaf w BOX_MEAN (replicate 4 0 @ ITUNES_MEAN), leaf w BOX_NAME (replicate 4 0 @ ITUNSMPB_NAME),
        leaf w BOX_DATA (be_bytes 4 1 @ be_bytes 4 0 @ tag_text leading trailing)]"
  let ?form = "Atom w BOX_FREEFORM [] ?parts"
  have texts: "read_text_fullbox_bytes (replicate 4 0 @ ITUNES_MEAN) = Some ITUNES_MEAN"
      "read_text_fullbox_bytes (replicate 4 0 @ ITUNSMPB_NAME) = Some ITUNSMPB_NAME"
    by (simp_all add: read_text_fullbox_bytes_def ITUNES_MEAN_def ITUNSMPB_NAME_def bytes_of_def trim_zeros_keeps)
  have payload: "parse_data_box (be_bytes 4 1 @ be_bytes 4 0 @ tag_text leading trailing) = Some (1, tag_text leading trailing)"
    by (simp add: parse_data_box_def bytes_range_def read_be_written)
  have size: "length (atom_body ?form) \<le> 1000" "atom_body ?form \<noteq> []"
    by (simp_all add: atom_body_def leaf_def length_atom del: atom_bytes.simps flip: length_greater_0_conv)
  have "fold freeform_part ?parts (None, None, None)
      = (Some ITUNES_MEAN, Some ITUNSMPB_NAME, Some (be_bytes 4 1 @ be_bytes 4 0 @ tag_text leading trailing))"
    by (simp add: freeform_part_def texts) (simp add: box_kinds)
  then have "atom_tag ?form = Some \<lparr>leading_frames = leading, trailing_frames = trailing\<rparr>"
    using size payload parse_tag_text [OF assms] by (simp add: atom_tag_def FREEFORM_MAX_BYTES_def)
  then show ?thesis
    by (simp add: tag_atom_def moov_child_events_def udta_events_def meta_events_def ilst_events_def optional_def) (simp add: box_kinds)
qed

lemma movie_atom_events:
  assumes "movie_ok m"
  shows "concat (map moov_child_events (children (movie_atom m)))
    = [MovieTimescale (mv_per_second m), TrackBegin, TrackId (mv_track m), TrackEditList (mv_edits m), TrackMediaTiming (mv_timing m),
       TrackCodec (mv_codec m), TrackSampleRate (mv_rate m), TrackEnd] @ optional ItunSmpb (movie_tag m)"
proof -
  have parsed: "parse_mvhd_timescale (mvhd_bytes (mv_long m) (mv_per_second m)) = Some (mv_per_second m)"
      "parse_tkhd_track_id (tkhd_bytes (mv_long m) (mv_track m)) = Some (mv_track m)"
      "parse_elst (elst_bytes (mv_long m) (mv_edits m)) = Inr (mv_edits m)"
      "parse_mdhd (mdhd_bytes (mv_long m) (mv_timing m)) = Some (mv_timing m)"
      "parse_stsd_codec (stsd_bytes (mv_codec m) (mv_rate m)) = Some (mv_codec m)"
      "parse_stsd_sample_rate (stsd_bytes (mv_codec m) (mv_rate m)) = Some (mv_rate m)"
    using assms by (auto simp: movie_ok_def parse_written parse_elst_written)
  have kinds: "BOX_TRAK \<noteq> BOX_MVHD" "BOX_MDIA \<noteq> BOX_TKHD" "BOX_EDTS \<noteq> BOX_TKHD" "BOX_EDTS \<noteq> BOX_MDIA" "BOX_MINF \<noteq> BOX_MDHD"
    by (simp_all add: box_kinds)
  have tag: "concat (map moov_child_events (case mv_tag m of None \<Rightarrow> [] | Some counts \<Rightarrow> [tag_atom w counts]))
      = optional ItunSmpb (movie_tag m)" for w
    using assms tag_atom_events by (auto simp: movie_ok_def movie_tag_def optional_def split: option.splits)
  show ?thesis
    using kinds parsed tag
    by (simp add: movie_atom_def Let_def moov_child_events_def trak_events_def edts_events_def mdia_events_def minf_events_def
        stbl_events_def optional_def ok_def)
qed

text \<open>C26: the gapless counts of a written movie are the ones it was written with.  Whatever widths its
  boxes and fields use and whatever boxes stand before and after, the probe finds the counts of a
  single edit if they are provable, and otherwise those of the tag, if there is one that is not zero.\<close>

theorem written_movie_keeps_its_counts:
  assumes "movie_ok m" "list_all atom_ok (before @ after)" "\<forall>a \<in> set before. atom_kind a \<noteq> BOX_MOOV"
    and "readable grant (atoms_bytes (before @ movie_atom m # after))"
  shows "probe_mp4_gapless grant (atoms_bytes (before @ movie_atom m # after)) 0
    = Inr (case (case mv_edits m of [edit] \<Rightarrow> derive_from_edit edit (mv_timing m) (mv_rate m) (mv_per_second m) | _ \<Rightarrow> None) of
        Some info \<Rightarrow> Some info
      | None \<Rightarrow> (case movie_tag m of
          Some info \<Rightarrow> if leading_frames info = 0 \<and> trailing_frames info = 0 then None else Some info
        | None \<Rightarrow> None))"
proof -
  let ?tops = "before @ movie_atom m # after"
  have "list_all atom_ok ?tops"
    using assms(1,2) movie_atom_ok by simp
  from scan_delivers_the_movie [OF this, of grant "[]" probe_visit probe_default]
  have scan: "scan_mp4 grant (atoms_bytes ?tops) probe_visit 0 probe_default
      = (Inr (), deliver probe_visit False (movie_events ?tops) probe_default, 0)"
    using assms(4) by simp
  have "find (\<lambda>a. atom_kind a = BOX_MOOV) ?tops = Some (movie_atom m)"
    using assms(3) by (induction before) (simp_all add: movie_atom_def Let_def)
  then have events: "movie_events ?tops = [MovieTimescale (mv_per_second m), TrackBegin, TrackId (mv_track m), TrackEditList (mv_edits m),
      TrackMediaTiming (mv_timing m), TrackCodec (mv_codec m), TrackSampleRate (mv_rate m), TrackEnd] @ optional ItunSmpb (movie_tag m)"
    by (simp add: movie_events_def movie_atom_events [OF assms(1)])
  show ?thesis
    unfolding probe_mp4_gapless_def scan events
    by (cases "mv_edits m" rule: remdups_adj.cases; cases "movie_tag m")
      (auto simp: probe_visit_def finish_track_def derive_from_track_def probe_result_def probe_default_def optional_def split: option.split)
qed

subsection \<open>Fragmented or not\<close>

lemma walk_any:
  assumes "placed file pos (atoms_bytes cs)" "list_all atom_ok cs" "length file \<le> u64_max"
    and "limit = Some (pos + length (atoms_bytes cs)) \<or> limit = None \<and> pos + length (atoms_bytes cs) = length file"
    and "\<And>a q. a \<in> set cs \<Longrightarrow> atom_ok a \<Longrightarrow> placed file q (atom_body a) \<Longrightarrow>
      visit \<lparr>box_kind = atom_kind a, box_end = q + length (atom_body a)\<rparr> q () = (Inr (\<not> P a), ())"
  shows "walk_boxes file limit visit pos () = (Inr (\<not> list_ex P cs), ())"
proof -
  have "run (\<lambda>a v. (\<not> P a, ())) cs () = (\<not> list_ex P cs, ())"
    by (induction cs) simp_all
  then show ?thesis
    using walk_atoms [OF assms(1-4), of visit "\<lambda>a v. (\<not> P a, ())" "()"] assms(5) by simp
qed

text \<open>The sniffer tells a fragmented file by its boxes.  On a file of well-formed boxes it answers, and
  says yes exactly when there is a fragment at the top level or a \<open>mvex\<close> in a \<open>moov\<close>, wherever they
  stand.\<close>

lemma sniffed_by_its_boxes:
  assumes "list_all atom_ok tops" "length (before @ atoms_bytes tops) \<le> u64_max"
  shows "sniff_mp4_fragmented (before @ atoms_bytes tops) (length before)
    = Some (\<exists>a \<in> set tops. atom_kind a = BOX_MOOF
        \<or> atom_kind a = BOX_MOOV \<and> (\<exists>c \<in> set (children a). atom_kind c = BOX_MVEX))"
proof -
  let ?file = "before @ atoms_bytes tops"
  let ?P = "\<lambda>a. atom_kind a = BOX_MOOF \<or> atom_kind a = BOX_MOOV \<and> list_ex (\<lambda>c. atom_kind c = BOX_MVEX) (children a)"
  have kinds: "BOX_MOOF \<noteq> BOX_MOOV"
    by (simp add: box_kinds)
  have mvex: "scan_moov_for_mvex ?file (q + length (atom_body a)) q = Inr (list_ex (\<lambda>c. atom_kind c = BOX_MVEX) (children a))"
    if "atom_ok a" "placed ?file q (atom_body a)" "atom_kind a = BOX_MOOV" for a q
    unfolding scan_moov_for_mvex_def
    using walk_any [of ?file q "children a" "Some (q + length (atom_body a))" "\<lambda>b body v. (Inr (box_kind b \<noteq> BOX_MVEX), v)"
        "\<lambda>c. atom_kind c = BOX_MVEX"] children_placed [OF that(1,2)] that(3) assms(2)
    by simp
  have "placed ?file (length before) (atoms_bytes tops)"
    unfolding placed_def by (intro exI [of _ before] exI [of _ "[]"]) simp
  then have "walk_boxes ?file None
      (\<lambda>b body v.
         (if box_kind b = BOX_MOOF then Inr False
          else if box_kind b = BOX_MOOV then map_sum id (\<lambda>found. \<not> found) (scan_moov_for_mvex ?file (box_end b) body)
          else Inr True, v)) (length before) () = (Inr (\<not> list_ex ?P tops), ())"
    by (rule walk_any) (use assms kinds mvex in auto)
  then show ?thesis
    by (simp add: sniff_mp4_fragmented_def scan_mp4_fragment_hint_def ok_def list_ex_iff)
qed

subsection \<open>A short file\<close>

definition demo_movie :: movie where
  "demo_movie =
     \<lparr>mv_wide = False, mv_long = False, mv_per_second = 4, mv_track = 7, mv_edits = [demo_edit],
      mv_timing = \<lparr>timescale = 4, media_duration = 9\<rparr>, mv_codec = bytes_of ''mp4a'', mv_rate = 4, mv_tag = Some (1, 1)\<rparr>"

definition demo_media :: atom where
  "demo_media = leaf True (bytes_of ''mdat'') [1, 2, 3]"

lemma demo_media_ok: "atom_ok demo_media" "atom_kind demo_media \<noteq> BOX_MOOV"
  by (simp_all add: demo_media_def leaf_ok box_kinds container_kinds_def)

lemma demo_movie_ok: "movie_ok demo_movie"
  by (simp add: movie_ok_def demo_movie_def edit_ok_def demo_edit_def ELST_MAX_ENTRIES_def)

lemma demo_readable: "readable (\<lambda>n. True) (before @ atoms_bytes [demo_media, movie_atom demo_movie])" if "length before \<le> 8"
proof -
  have "length (atom_bytes (movie_atom demo_movie)) \<le> 1000"
    by (simp add: movie_atom_def demo_movie_def tag_atom_def leaf_def length_atom length_elst_bytes del: atom_bytes.simps)
  moreover have "length (atom_bytes demo_media) \<le> 100"
    by (simp add: demo_media_def leaf_def length_atom del: atom_bytes.simps)
  ultimately show ?thesis
    using that by (simp add: readable_def u64_max_def)
qed

lemma scan_delivers_the_movie_witness:
  "scan_mp4 (\<lambda>n. True) ([0] @ atoms_bytes [demo_media, movie_atom demo_movie]) (\<lambda>e es. (True, es @ [e])) 1 []
    = (Inr (), [MovieTimescale 4, TrackBegin, TrackId 7, TrackEditList [demo_edit], TrackMediaTiming \<lparr>timescale = 4, media_duration = 9\<rparr>,
        TrackCodec (bytes_of ''mp4a''), TrackSampleRate 4, TrackEnd, ItunSmpb \<lparr>leading_frames = 1, trailing_frames = 1\<rparr>], 1)"
proof -
  have "movie_events [demo_media, movie_atom demo_movie] = concat (map moov_child_events (children (movie_atom demo_movie)))"
    using demo_media_ok(2) by (simp add: movie_events_def) (simp add: movie_atom_def Let_def)
  then have "movie_events [demo_media, movie_atom demo_movie] = [MovieTimescale 4, TrackBegin, TrackId 7, TrackEditList [demo_edit],
      TrackMediaTiming \<lparr>timescale = 4, media_duration = 9\<rparr>, TrackCodec (bytes_of ''mp4a''), TrackSampleRate 4, TrackEnd,
      ItunSmpb \<lparr>leading_frames = 1, trailing_frames = 1\<rparr>]"
    unfolding movie_atom_events [OF demo_movie_ok] by (simp add: demo_movie_def movie_tag_def optional_def)
  then show ?thesis
    using scan_delivers_the_movie [of "[demo_media, movie_atom demo_movie]" "\<lambda>n. True" "[0]" "\<lambda>e es. (True, es @ [e])" "[]"]
      demo_media_ok demo_readable [of "[0]"] movie_atom_ok [OF demo_movie_ok]
    by simp
qed

lemma written_movie_keeps_its_counts_witness:
  "probe_mp4_gapless (\<lambda>n. True) (atoms_bytes [demo_media, movie_atom demo_movie]) 0
    = Inr (Some \<lparr>leading_frames = 2, trailing_frames = 4\<rparr>)"
proof -
  have "scale_frames 2 4 4 = Some 2" "scale_frames 3 4 4 = Some 3" "scale_frames 9 4 4 = Some 9"
    by (simp_all add: scale_frames_def u64_max_def)
  then have "derive_from_edit demo_edit \<lparr>timescale = 4, media_duration = 9\<rparr> 4 4 = Some \<lparr>leading_frames = 2, trailing_frames = 4\<rparr>"
    by (simp add: derive_from_edit_def demo_edit_def checked_add_def checked_sub_def u64_max_def)
  then show ?thesis
    using written_movie_keeps_its_counts [OF demo_movie_ok, of "[demo_media]" "[]" "\<lambda>n. True"] demo_media_ok demo_readable [of "[]"]
    by (simp add: demo_movie_def)
qed

end
