(* ===== verification/Hls_Anchor.thy ===== *)
theory Hls_Anchor
  imports Prelude "HOL-Library.Monad_Syntax"
begin

text \<open>
  The lock-free cells in which the seeks of an HLS variant leave their demand
  (\<open>crates/kithara-hls/src/variant/flow/cas_anchor.rs\<close> and \<open>flow/seqlock.rs\<close>).  A cell holds a
  segment and an anchor, two atomics, with a version that is odd while they are written and an active
  generation that is zero when there is no demand.  The operations are run atomic access by atomic
  access, by any number of threads in any order; a state is reached by a schedule, and what has been
  published and answered is recorded beside it.  Versions and generations are naturals: their wraps
  are out of the model.  The accesses are sequentially consistent; the fences of the code are what
  makes its weaker orderings look so.
\<close>

record anchor_cell =
  at_segment :: nat
  at_version :: nat
  at_active :: nat
  at_anchor :: nat
  at_next_gen :: nat

definition cell_new :: anchor_cell where
  "cell_new = \<lparr>at_segment = 0, at_version = 0, at_active = 0, at_anchor = 0, at_next_gen = 0\<rparr>"

definition clear :: "anchor_cell \<Rightarrow> anchor_cell" where
  "clear c = c\<lparr>at_active := 0\<rparr>"

definition clear_if_generation :: "nat \<Rightarrow> anchor_cell \<Rightarrow> bool \<times> anchor_cell" where
  "clear_if_generation g c = (if at_active c = g then (True, c\<lparr>at_active := 0\<rparr>) else (False, c))"

definition next_gen :: "anchor_cell \<Rightarrow> nat \<times> anchor_cell" where
  "next_gen c = (at_next_gen c + 1, c\<lparr>at_next_gen := at_next_gen c + 1\<rparr>)"

text \<open>What an access makes known: a generation published with its entry, or an entry a load answers.\<close>

datatype effect = Quiet | Published nat nat nat | Answered nat nat nat

record 'p cell_sys =
  cell :: anchor_cell
  threads :: "nat \<Rightarrow> 'p"
  published :: "nat \<rightharpoonup> nat \<times> nat"
  answers :: "(nat \<times> nat \<times> nat) list"

definition note_effect :: "effect \<Rightarrow> 'p cell_sys \<Rightarrow> 'p cell_sys" where
  "note_effect e s = (case e of
     Quiet \<Rightarrow> s
   | Published g a b \<Rightarrow> s\<lparr>published := (published s)(g \<mapsto> (a, b))\<rparr>
   | Answered g a b \<Rightarrow> s\<lparr>answers := answers s @ [(g, a, b)]\<rparr>)"

subsection \<open>The cell of many writers\<close>

text \<open>Where a thread stands in \<open>set\<close>, \<open>load\<close> and the clears: the access it makes next.\<close>

datatype cas_pc =
    CIdle
  | CSet nat nat | CAcquire nat nat nat | CMint nat nat nat | CHide nat nat nat nat | CSegment nat nat nat nat
  | CAnchor nat nat nat nat | CShow nat nat nat nat | CRelease nat
  | CLoad | CGeneration nat | CReadSegment nat nat | CReadAnchor nat nat nat | CRecheck nat nat nat nat | CConfirm nat nat nat
  | CClear | CClearIf nat

text \<open>\<open>fails\<close>: a weak compare-and-exchange fails although the version is the one it expects.\<close>

definition cas_exec :: "bool \<Rightarrow> cas_pc \<Rightarrow> anchor_cell \<Rightarrow> cas_pc \<times> anchor_cell \<times> effect" where
  "cas_exec fails p c = (case p of
     CIdle \<Rightarrow> (CIdle, c, Quiet)
   | CSet s a \<Rightarrow> (if even (at_version c) then CAcquire s a (at_version c) else CSet s a, c, Quiet)
   | CAcquire s a cur \<Rightarrow>
       if at_version c = cur \<and> \<not> fails then (CMint s a (cur + 1), c\<lparr>at_version := cur + 1\<rparr>, Quiet) else (CSet s a, c, Quiet)
   | CMint s a held \<Rightarrow> (case next_gen c of (g, c) \<Rightarrow> (CHide s a held g, c, Quiet))
   | CHide s a held g \<Rightarrow> (CSegment s a held g, c\<lparr>at_active := 0\<rparr>, Quiet)
   | CSegment s a held g \<Rightarrow> (CAnchor s a held g, c\<lparr>at_segment := s\<rparr>, Quiet)
   | CAnchor s a held g \<Rightarrow> (CShow s a held g, c\<lparr>at_anchor := a\<rparr>, Quiet)
   | CShow s a held g \<Rightarrow> (CRelease held, c\<lparr>at_active := g\<rparr>, Published g s a)
   | CRelease held \<Rightarrow> (CIdle, c\<lparr>at_version := held + 1\<rparr>, Quiet)
   | CLoad \<Rightarrow> (if odd (at_version c) then CIdle else CGeneration (at_version c), c, Quiet)
   | CGeneration start \<Rightarrow> (if at_active c = 0 then CIdle else CReadSegment start (at_active c), c, Quiet)
   | CReadSegment start g \<Rightarrow> (CReadAnchor start g (at_segment c), c, Quiet)
   | CReadAnchor start g s \<Rightarrow> (CRecheck start g s (at_anchor c), c, Quiet)
   | CRecheck start g s a \<Rightarrow> (if at_version c \<noteq> start then CIdle else CConfirm g s a, c, Quiet)
   | CConfirm g s a \<Rightarrow> (CIdle, c, if at_active c \<noteq> g then Quiet else Answered g s a)
   | CClear \<Rightarrow> (CIdle, clear c, Quiet)
   | CClearIf g \<Rightarrow> (CIdle, snd (clear_if_generation g c), Quiet))"

text \<open>A schedule: a thread that is idle calls an operation, or a thread makes its next access.\<close>

datatype 'p turn = Call nat 'p | Run nat bool

definition run_turn ::
    "(bool \<Rightarrow> 'p \<Rightarrow> anchor_cell \<Rightarrow> 'p \<times> anchor_cell \<times> effect) \<Rightarrow> 'p \<Rightarrow> 'p turn \<Rightarrow> 'p cell_sys \<Rightarrow> 'p cell_sys" where
  "run_turn exec idle turn s = (case turn of
     Call i p \<Rightarrow> if threads s i = idle then s\<lparr>threads := (threads s)(i := p)\<rparr> else s
   | Run i fails \<Rightarrow> (case exec fails (threads s i) (cell s) of
       (p, c, e) \<Rightarrow> note_effect e (s\<lparr>threads := (threads s)(i := p), cell := c\<rparr>)))"

definition cell_start :: "'p \<Rightarrow> 'p cell_sys" where
  "cell_start idle = \<lparr>cell = cell_new, threads = (\<lambda>i. idle), published = Map.empty, answers = []\<rparr>"

fun cas_call :: "cas_pc \<Rightarrow> bool" where
  "cas_call (CSet s a) = True"
| "cas_call CLoad = True"
| "cas_call CClear = True"
| "cas_call (CClearIf g) = True"
| "cas_call p = False"

fun cas_turn :: "cas_pc turn \<Rightarrow> bool" where
  "cas_turn (Call i p) = cas_call p"
| "cas_turn (Run i fails) = True"

definition cas_run :: "cas_pc turn list \<Rightarrow> cas_pc cell_sys" where
  "cas_run turns = fold (run_turn cas_exec CIdle) turns (cell_start CIdle)"

subsection \<open>No torn entry\<close>

text \<open>The version a writer holds.\<close>

fun held :: "cas_pc \<Rightarrow> nat option" where
  "held (CMint s a h) = Some h"
| "held (CHide s a h g) = Some h"
| "held (CSegment s a h g) = Some h"
| "held (CAnchor s a h g) = Some h"
| "held (CShow s a h g) = Some h"
| "held (CRelease h) = Some h"
| "held p = None"

text \<open>The active entry is the one published for its generation.\<close>

definition intact :: "(nat \<rightharpoonup> nat \<times> nat) \<Rightarrow> anchor_cell \<Rightarrow> bool" where
  "intact m c \<longleftrightarrow> (at_active c \<noteq> 0 \<longrightarrow> m (at_active c) = Some (at_segment c, at_anchor c))"

definition fresh :: "(nat \<rightharpoonup> nat \<times> nat) \<Rightarrow> anchor_cell \<Rightarrow> nat \<Rightarrow> bool" where
  "fresh m c g \<longleftrightarrow> g \<noteq> 0 \<and> g \<le> at_next_gen c \<and> m g = None"

definition cas_local :: "(nat \<rightharpoonup> nat \<times> nat) \<Rightarrow> anchor_cell \<Rightarrow> cas_pc \<Rightarrow> bool" where
  "cas_local m c p \<longleftrightarrow> (case p of
     CAcquire s a cur \<Rightarrow> even cur
   | CMint s a h \<Rightarrow> intact m c
   | CHide s a h g \<Rightarrow> fresh m c g \<and> intact m c
   | CSegment s a h g \<Rightarrow> fresh m c g \<and> at_active c = 0
   | CAnchor s a h g \<Rightarrow> fresh m c g \<and> at_active c = 0 \<and> at_segment c = s
   | CShow s a h g \<Rightarrow> fresh m c g \<and> at_active c = 0 \<and> at_segment c = s \<and> at_anchor c = a
   | CRelease h \<Rightarrow> intact m c
   | CGeneration start \<Rightarrow> even start \<and> start \<le> at_version c
   | CReadSegment start g \<Rightarrow> even start \<and> start \<le> at_version c
       \<and> (at_version c = start \<longrightarrow> m g = Some (at_segment c, at_anchor c))
   | CReadAnchor start g s \<Rightarrow> even start \<and> start \<le> at_version c
       \<and> (at_version c = start \<longrightarrow> m g = Some (at_segment c, at_anchor c) \<and> s = at_segment c)
   | CRecheck start g s a \<Rightarrow> even start \<and> start \<le> at_version c \<and> (at_version c = start \<longrightarrow> m g = Some (s, a))
   | CConfirm g s a \<Rightarrow> m g = Some (s, a)
   | _ \<Rightarrow> True)"

definition cas_inv :: "cas_pc cell_sys \<Rightarrow> bool" where
  "cas_inv s \<longleftrightarrow>
     (\<forall>i h. held (threads s i) = Some h \<longrightarrow> h = at_version (cell s) \<and> odd h)
     \<and> (\<forall>i j. held (threads s i) \<noteq> None \<longrightarrow> held (threads s j) \<noteq> None \<longrightarrow> i = j)
     \<and> (\<forall>g x. published s g = Some x \<longrightarrow> g \<noteq> 0 \<and> g \<le> at_next_gen (cell s))
     \<and> (even (at_version (cell s)) \<longrightarrow> intact (published s) (cell s))
     \<and> (\<forall>i. cas_local (published s) (cell s) (threads s i))
     \<and> (\<forall>(g, a, b) \<in> set (answers s). published s g = Some (a, b))"

text \<open>What the step of one thread leaves to the others.\<close>

definition undisturbed :: "(nat \<rightharpoonup> nat \<times> nat) \<Rightarrow> anchor_cell \<Rightarrow> (nat \<rightharpoonup> nat \<times> nat) \<Rightarrow> anchor_cell \<Rightarrow> bool" where
  "undisturbed m c m' c' \<longleftrightarrow>
     at_version c \<le> at_version c' \<and> (\<forall>g x. m g = Some x \<longrightarrow> m' g = Some x)
     \<and> (at_version c' = at_version c \<and> even (at_version c) \<longrightarrow> at_segment c' = at_segment c \<and> at_anchor c' = at_anchor c)"

lemma reader_local_stable:
  assumes "cas_local m c p" "held p = None" "undisturbed m c m' c'"
  shows "cas_local m' c' p"
  using assms by (cases p) (auto simp: cas_local_def undisturbed_def)

lemma writer_local_stable:
  assumes "cas_local m c p" "held p \<noteq> None" "c' = c \<or> c' = c\<lparr>at_active := 0\<rparr>"
  shows "cas_local m c' p"
  using assms by (cases p) (auto simp: cas_local_def intact_def fresh_def)

definition noted :: "effect \<Rightarrow> (nat \<rightharpoonup> nat \<times> nat) \<Rightarrow> (nat \<rightharpoonup> nat \<times> nat)" where
  "noted e m = (case e of Published g a b \<Rightarrow> m(g \<mapsto> (a, b)) | _ \<Rightarrow> m)"

lemma note_effect_fields [simp]:
  "cell (note_effect e s) = cell s" "threads (note_effect e s) = threads s" "published (note_effect e s) = noted e (published s)"
  "answers (note_effect e s) = answers s @ (case e of Answered g a b \<Rightarrow> [(g, a, b)] | _ \<Rightarrow> [])"
  by (simp_all add: note_effect_def noted_def split: effect.split)

lemmas cas_defs = cas_exec_def cas_local_def clear_def clear_if_generation_def next_gen_def fresh_def

lemma cas_exec_local:
  assumes "cas_exec fails p c = (p', c', e)" "cas_local m c p" "even (at_version c) \<longrightarrow> intact m c"
    and "\<forall>g x. m g = Some x \<longrightarrow> g \<noteq> 0 \<and> g \<le> at_next_gen c"
  shows "cas_local (noted e m) c' p'"
proof -
  have "m (Suc (at_next_gen c)) = None"
    using assms(4) not_less_eq_eq by (metis not_None_eq order_refl)
  then show ?thesis
    using assms(1-3) by (cases p) (auto simp: cas_defs noted_def intact_def split: if_splits)
qed

lemma cas_exec_undisturbed:
  assumes "cas_exec fails p c = (p', c', e)" "cas_local m c p" "\<forall>h. held p = Some h \<longrightarrow> h = at_version c \<and> odd h"
  shows "undisturbed m c (noted e m) c'"
  using assms by (cases p) (auto simp: cas_defs noted_def undisturbed_def split: if_splits)

lemma cas_exec_held:
  assumes "cas_exec fails p c = (p', c', e)" "cas_local m c p" "\<forall>h. held p = Some h \<longrightarrow> h = at_version c \<and> odd h"
  shows "\<forall>h. held p' = Some h \<longrightarrow> h = at_version c' \<and> odd h"
  using assms by (cases p) (auto simp: cas_defs split: if_splits)

lemma cas_exec_intact:
  assumes "cas_exec fails p c = (p', c', e)" "cas_local m c p" "\<forall>h. held p = Some h \<longrightarrow> h = at_version c \<and> odd h"
    and "even (at_version c) \<longrightarrow> intact m c"
  shows "even (at_version c') \<longrightarrow> intact (noted e m) c'"
  using assms by (cases p) (auto simp: cas_defs noted_def intact_def split: if_splits)

lemma cas_exec_bystander:
  assumes "cas_exec fails p c = (p', c', e)" "held p = None"
  shows "held p' = None \<longrightarrow> c' = c \<or> c' = c\<lparr>at_active := 0\<rparr>" "held p' \<noteq> None \<longrightarrow> at_version c' = at_version c + 1"
    "noted e m = m"
proof -
  show "held p' = None \<longrightarrow> c' = c \<or> c' = c\<lparr>at_active := 0\<rparr>"
    using assms by (cases p) (auto simp: cas_exec_def clear_def clear_if_generation_def split: if_splits)
  show "held p' \<noteq> None \<longrightarrow> at_version c' = at_version c + 1"
    using assms by (cases p) (auto simp: cas_exec_def split: if_splits)
  show "noted e m = m"
    using assms by (cases p) (auto simp: cas_exec_def noted_def split: if_splits)
qed

lemma cas_exec_published:
  assumes "cas_exec fails p c = (p', c', e)" "cas_local m c p" "\<forall>g x. m g = Some x \<longrightarrow> g \<noteq> 0 \<and> g \<le> at_next_gen c"
  shows "\<forall>g x. noted e m g = Some x \<longrightarrow> g \<noteq> 0 \<and> g \<le> at_next_gen c'"
proof -
  have grows: "at_next_gen c \<le> at_next_gen c'"
    using assms(1) by (cases p) (auto simp: cas_exec_def clear_def clear_if_generation_def next_gen_def split: if_splits)
  have known: "m g = Some x \<or> g \<noteq> 0 \<and> g \<le> at_next_gen c" if "noted e m g = Some x" for g x
  proof (cases e)
    case (Published g' a b)
    then have "\<exists>h. p = CShow a b h g'"
      using assms(1) by (cases p) (auto simp: cas_exec_def next_gen_def split: if_splits)
    then have "g' \<noteq> 0 \<and> g' \<le> at_next_gen c"
      using assms(2) by (auto simp: cas_local_def fresh_def)
    then show ?thesis
      using that Published by (simp add: noted_def split: if_splits)
  qed (use that in \<open>simp_all add: noted_def\<close>)
  show ?thesis
  proof (intro allI impI)
    fix g x
    assume "noted e m g = Some x"
    then have "g \<noteq> 0 \<and> g \<le> at_next_gen c"
      using known assms(3) by blast
    then show "g \<noteq> 0 \<and> g \<le> at_next_gen c'"
      using grows by simp
  qed
qed

lemma cas_exec_answer: "cas_exec fails p c = (p', c', Answered g s a) \<Longrightarrow> cas_local m c p \<Longrightarrow> m g = Some (s, a)"
  by (cases p) (auto simp: cas_exec_def cas_local_def split: if_splits prod.splits)

lemma cas_run_inv:
  assumes "list_all cas_turn turns"
  shows "cas_inv (cas_run turns)"
  using assms
proof (induction turns rule: rev_induct)
  case Nil
  then show ?case
    by (simp add: cas_run_def cas_inv_def cell_start_def cell_new_def intact_def cas_local_def)
next
  case (snoc turn turns)
  define s where "s = cas_run turns"
  then have inv: "cas_inv s"
    using snoc by simp
  have next_s: "cas_run (turns @ [turn]) = run_turn cas_exec CIdle turn s"
    by (simp add: cas_run_def s_def)
  show ?case
  proof (cases turn)
    case (Call i p)
    then have "cas_call p"
      using snoc.prems by simp
    then have "held p = None" "cas_local m c p" for m c
      by (cases p; simp add: cas_local_def)+
    then show ?thesis
      using inv Call unfolding next_s by (auto simp: run_turn_def cas_inv_def)
  next
    case (Run i fails)
    let ?m = "published s" and ?c = "cell s" and ?p = "threads s i"
    obtain p' c' e where step: "cas_exec fails ?p ?c = (p', c', e)"
      by (metis prod_cases3)
    define t where "t = run_turn cas_exec CIdle turn s"
    have t: "cell t = c'" "threads t = (threads s)(i := p')" "published t = noted e ?m"
        "answers t = answers s @ (case e of Answered g a b \<Rightarrow> [(g, a, b)] | _ \<Rightarrow> [])"
      by (simp_all add: t_def Run run_turn_def step)
    have local: "cas_local ?m ?c (threads s j)" and holds: "\<forall>h. held (threads s j) = Some h \<longrightarrow> h = at_version ?c \<and> odd h"
      and alone: "held (threads s j) \<noteq> None \<Longrightarrow> held (threads s k) \<noteq> None \<Longrightarrow> j = k" for j k
      using inv by (auto simp: cas_inv_def)
    have sound: "\<forall>g x. ?m g = Some x \<longrightarrow> g \<noteq> 0 \<and> g \<le> at_next_gen ?c" and even: "even (at_version ?c) \<longrightarrow> intact ?m ?c"
      and answered: "\<forall>(g, a, b) \<in> set (answers s). ?m g = Some (a, b)"
      using inv by (simp_all add: cas_inv_def)
    note quiet = cas_exec_undisturbed [OF step local holds] and bystander = cas_exec_bystander [OF step]
    have other: "cas_local (noted e ?m) c' (threads s j) \<and> (\<forall>h. held (threads s j) = Some h \<longrightarrow> h = at_version c' \<and> odd h)
        \<and> (held (threads s j) \<noteq> None \<longrightarrow> held p' = None)" if "j \<noteq> i" for j
    proof (cases "held (threads s j) = None")
      case True
      then show ?thesis
        using reader_local_stable [OF local True quiet] by simp
    next
      case False
      then have "held ?p = None"
        using alone that by blast
      moreover have "odd (at_version ?c)"
        using holds False by blast
      then have "held p' = None"
        using bystander(2) [OF \<open>held ?p = None\<close>] cas_exec_held [OF step local holds] by (metis even_plus_one_iff not_None_eq)
      ultimately show ?thesis
        using bystander(1,3) [OF \<open>held ?p = None\<close>] False holds [of j] writer_local_stable [OF local False, of c'] by auto
    qed
    have "cas_inv t"
      unfolding cas_inv_def t
    proof (intro conjI allI impI)
      show "h = at_version c'" "odd h" if "held (((threads s)(i := p')) j) = Some h" for j h
        using that other [of j] cas_exec_held [OF step local holds] by (auto split: if_splits)
      show "j = k" if "held (((threads s)(i := p')) j) \<noteq> None" "held (((threads s)(i := p')) k) \<noteq> None" for j k
        using that other alone by (auto split: if_splits)
      show "g \<noteq> 0" "g \<le> at_next_gen c'" if "noted e ?m g = Some x" for g x
        using that cas_exec_published [OF step local sound] by blast+
      show "intact (noted e ?m) c'" if "even (at_version c')"
        using that cas_exec_intact [OF step local holds even] by blast
      show "cas_local (noted e ?m) c' (((threads s)(i := p')) j)" for j
        using other [of j] cas_exec_local [OF step local even sound] by simp
      have "\<forall>g x. ?m g = Some x \<longrightarrow> noted e ?m g = Some x"
        using quiet by (simp add: undisturbed_def)
      then show "\<forall>(g, a, b) \<in> set (answers s @ (case e of Answered g a b \<Rightarrow> [(g, a, b)] | _ \<Rightarrow> [])). noted e ?m g = Some (a, b)"
        using answered step cas_exec_answer [OF _ local] by (fastforce split: effect.splits)
    qed
    then show ?thesis
      unfolding next_s t_def .
  qed
qed


subsection \<open>The cell of one writer\<close>

text \<open>\<open>SeqVersion\<close> is the version of the cell: \<open>begin\<close> and \<open>end\<close> add one to it, and \<open>read\<close> takes the
  body again until it has stood between two equal, even versions.\<close>

datatype seq_pc =
    SIdle
  | SSet nat nat | SHide nat nat nat | SBegin nat nat nat | SSegment nat nat nat | SAnchor nat nat nat | SEnd nat nat nat | SShow nat nat nat
  | SLoad | SStart nat | SReadSegment nat nat | SReadAnchor nat nat nat | SRecheck nat nat nat nat | SConfirm nat nat nat
  | SClear | SClearIf nat

definition seq_exec :: "bool \<Rightarrow> seq_pc \<Rightarrow> anchor_cell \<Rightarrow> seq_pc \<times> anchor_cell \<times> effect" where
  "seq_exec fails p c = (case p of
     SIdle \<Rightarrow> (SIdle, c, Quiet)
   | SSet s a \<Rightarrow> (case next_gen c of (g, c) \<Rightarrow> (SHide s a g, c, Quiet))
   | SHide s a g \<Rightarrow> (SBegin s a g, c\<lparr>at_active := 0\<rparr>, Quiet)
   | SBegin s a g \<Rightarrow> (SSegment s a g, c\<lparr>at_version := at_version c + 1\<rparr>, Quiet)
   | SSegment s a g \<Rightarrow> (SAnchor s a g, c\<lparr>at_segment := s\<rparr>, Quiet)
   | SAnchor s a g \<Rightarrow> (SEnd s a g, c\<lparr>at_anchor := a\<rparr>, Quiet)
   | SEnd s a g \<Rightarrow> (SShow s a g, c\<lparr>at_version := at_version c + 1\<rparr>, Quiet)
   | SShow s a g \<Rightarrow> (SIdle, c\<lparr>at_active := g\<rparr>, Published g s a)
   | SLoad \<Rightarrow> (if at_active c = 0 then SIdle else SStart (at_active c), c, Quiet)
   | SStart g \<Rightarrow> (if odd (at_version c) then SStart g else SReadSegment g (at_version c), c, Quiet)
   | SReadSegment g v \<Rightarrow> (SReadAnchor g v (at_segment c), c, Quiet)
   | SReadAnchor g v s \<Rightarrow> (SRecheck g v s (at_anchor c), c, Quiet)
   | SRecheck g v s a \<Rightarrow> (if at_version c \<noteq> v then SStart g else SConfirm g s a, c, Quiet)
   | SConfirm g s a \<Rightarrow> if at_active c = g then (SIdle, c, Answered g s a) else (SLoad, c, Quiet)
   | SClear \<Rightarrow> (SIdle, clear c, Quiet)
   | SClearIf g \<Rightarrow> (SIdle, snd (clear_if_generation g c), Quiet))"

definition seq_run :: "seq_pc turn list \<Rightarrow> seq_pc cell_sys" where
  "seq_run turns = fold (run_turn seq_exec SIdle) turns (cell_start SIdle)"

text \<open>The calls of the threads when only thread \<open>w\<close> sets.\<close>

fun seq_call :: "nat \<Rightarrow> nat \<Rightarrow> seq_pc \<Rightarrow> bool" where
  "seq_call w i (SSet s a) = (i = w)"
| "seq_call w i SLoad = True"
| "seq_call w i SClear = True"
| "seq_call w i (SClearIf g) = True"
| "seq_call w i p = False"

fun seq_turn :: "nat \<Rightarrow> seq_pc turn \<Rightarrow> bool" where
  "seq_turn w (Call i p) = seq_call w i p"
| "seq_turn w (Run i fails) = True"

fun seq_writes :: "seq_pc \<Rightarrow> bool" where
  "seq_writes (SSet s a) = True"
| "seq_writes (SHide s a g) = True"
| "seq_writes (SBegin s a g) = True"
| "seq_writes (SSegment s a g) = True"
| "seq_writes (SAnchor s a g) = True"
| "seq_writes (SEnd s a g) = True"
| "seq_writes (SShow s a g) = True"
| "seq_writes p = False"

definition seq_local :: "(nat \<rightharpoonup> nat \<times> nat) \<Rightarrow> anchor_cell \<Rightarrow> seq_pc \<Rightarrow> bool" where
  "seq_local m c p \<longleftrightarrow> (case p of
     SHide s a g \<Rightarrow> fresh m c g
   | SBegin s a g \<Rightarrow> fresh m c g \<and> at_active c = 0
   | SSegment s a g \<Rightarrow> fresh m c g \<and> at_active c = 0
   | SAnchor s a g \<Rightarrow> fresh m c g \<and> at_active c = 0 \<and> at_segment c = s
   | SEnd s a g \<Rightarrow> fresh m c g \<and> at_active c = 0 \<and> at_segment c = s \<and> at_anchor c = a
   | SShow s a g \<Rightarrow> fresh m c g \<and> at_active c = 0 \<and> at_segment c = s \<and> at_anchor c = a
   | SStart g \<Rightarrow> m g \<noteq> None
   | SReadSegment g v \<Rightarrow> m g \<noteq> None
   | SReadAnchor g v s \<Rightarrow> m g \<noteq> None \<and> (at_active c = g \<longrightarrow> s = fst (the (m g)))
   | SRecheck g v s a \<Rightarrow> m g \<noteq> None \<and> (at_active c = g \<longrightarrow> m g = Some (s, a))
   | SConfirm g s a \<Rightarrow> m g \<noteq> None \<and> (at_active c = g \<longrightarrow> m g = Some (s, a))
   | _ \<Rightarrow> True)"

definition seq_inv :: "nat \<Rightarrow> seq_pc cell_sys \<Rightarrow> bool" where
  "seq_inv w s \<longleftrightarrow>
     (\<forall>i. seq_writes (threads s i) \<longrightarrow> i = w)
     \<and> (\<forall>g x. published s g = Some x \<longrightarrow> g \<noteq> 0 \<and> g \<le> at_next_gen (cell s))
     \<and> intact (published s) (cell s)
     \<and> (\<forall>i. seq_local (published s) (cell s) (threads s i))
     \<and> (\<forall>(g, a, b) \<in> set (answers s). published s g = Some (a, b))"

lemmas seq_defs = seq_exec_def seq_local_def clear_def clear_if_generation_def next_gen_def fresh_def

lemma seq_exec_local:
  assumes "seq_exec fails p c = (p', c', e)" "seq_local m c p" "intact m c" "m (Suc (at_next_gen c)) = None" "m 0 = None"
  shows "seq_local (noted e m) c' p'"
proof -
  have positive: "m g = Some x \<Longrightarrow> 0 < g" for g x
    using assms(5) by (cases g) simp_all
  show ?thesis
    using assms by (cases p) (auto simp: seq_defs noted_def intact_def intro: positive split: if_splits)
qed

lemma seq_exec_intact:
  assumes "seq_exec fails p c = (p', c', e)" "seq_local m c p" "intact m c"
  shows "intact (noted e m) c'"
  using assms by (cases p) (auto simp: seq_defs noted_def intact_def split: if_splits)

text \<open>A step of another thread: a generation once published keeps its entry, and it is active after the
  step only when it was before.\<close>

definition bygone :: "(nat \<rightharpoonup> nat \<times> nat) \<Rightarrow> anchor_cell \<Rightarrow> (nat \<rightharpoonup> nat \<times> nat) \<Rightarrow> anchor_cell \<Rightarrow> bool" where
  "bygone m c m' c' \<longleftrightarrow> (\<forall>g. m g \<noteq> None \<longrightarrow> m' g = m g \<and> (at_active c' = g \<longrightarrow> at_active c = g))"

lemma seq_exec_bygone:
  assumes "seq_exec fails p c = (p', c', e)" "seq_local m c p" "m 0 = None"
  shows "bygone m c (noted e m) c'"
  using assms by (cases p) (auto simp: seq_defs noted_def bygone_def split: if_splits)

lemma seq_exec_grows: "seq_exec fails p c = (p', c', e) \<Longrightarrow> at_next_gen c \<le> at_next_gen c'"
  by (cases p) (auto simp: seq_exec_def clear_def clear_if_generation_def next_gen_def split: if_splits)

lemma seq_exec_published:
  assumes "seq_exec fails p c = (p', c', e)" "seq_local m c p" "noted e m g = Some x"
  shows "m g = Some x \<or> g \<noteq> 0 \<and> g \<le> at_next_gen c"
proof (cases e)
  case (Published g' a b)
  then have "p = SShow a b g'"
    using assms(1) by (cases p) (auto simp: seq_exec_def next_gen_def split: if_splits)
  then show ?thesis
    using assms(2,3) Published by (auto simp: seq_local_def fresh_def noted_def split: if_splits)
qed (use assms(3) in \<open>simp_all add: noted_def\<close>)

lemma seq_exec_writes: "seq_exec fails p c = (p', c', e) \<Longrightarrow> seq_writes p' \<Longrightarrow> seq_writes p"
  by (cases p) (auto simp: seq_exec_def next_gen_def split: if_splits)

lemma seq_exec_quiet:
  assumes "seq_exec fails p c = (p', c', e)" "\<not> seq_writes p"
  shows "c' = c \<or> c' = c\<lparr>at_active := 0\<rparr>" "noted e m = m"
proof -
  show "c' = c \<or> c' = c\<lparr>at_active := 0\<rparr>"
    using assms by (cases p) (auto simp: seq_exec_def clear_def clear_if_generation_def split: if_splits)
  show "noted e m = m"
    using assms by (cases p) (auto simp: seq_exec_def noted_def split: if_splits)
qed

lemma seq_exec_answer:
  "seq_exec fails p c = (p', c', Answered g s a) \<Longrightarrow> seq_local m c p \<Longrightarrow> m g = Some (s, a)"
  by (cases p) (auto simp: seq_exec_def seq_local_def split: if_splits prod.splits)

lemma seq_reader_stable:
  assumes "seq_local m c p" "\<not> seq_writes p" "bygone m c m' c'"
  shows "seq_local m' c' p"
  using assms by (cases p) (fastforce simp: seq_local_def bygone_def)+

lemma seq_writer_stable:
  assumes "seq_local m c p" "seq_writes p" "c' = c \<or> c' = c\<lparr>at_active := 0\<rparr>"
  shows "seq_local m c' p"
  using assms by (cases p) (auto simp: seq_local_def fresh_def)

lemma seq_run_inv:
  assumes "list_all (seq_turn w) turns"
  shows "seq_inv w (seq_run turns)"
  using assms
proof (induction turns rule: rev_induct)
  case Nil
  then show ?case
    by (simp add: seq_run_def seq_inv_def cell_start_def cell_new_def intact_def seq_local_def)
next
  case (snoc turn turns)
  define s where "s = seq_run turns"
  then have inv: "seq_inv w s"
    using snoc by simp
  have next_s: "seq_run (turns @ [turn]) = run_turn seq_exec SIdle turn s"
    by (simp add: seq_run_def s_def)
  show ?case
  proof (cases turn)
    case (Call i p)
    then have "seq_call w i p"
      using snoc.prems by simp
    then have "seq_writes p \<longrightarrow> i = w" "seq_local m c p" for m c
      by (cases p; simp add: seq_local_def)+
    then show ?thesis
      using inv Call unfolding next_s by (auto simp: run_turn_def seq_inv_def)
  next
    case (Run i fails)
    let ?m = "published s" and ?c = "cell s" and ?p = "threads s i"
    obtain p' c' e where step: "seq_exec fails ?p ?c = (p', c', e)"
      by (metis prod_cases3)
    define t where "t = run_turn seq_exec SIdle turn s"
    have t: "cell t = c'" "threads t = (threads s)(i := p')" "published t = noted e ?m"
        "answers t = answers s @ (case e of Answered g a b \<Rightarrow> [(g, a, b)] | _ \<Rightarrow> [])"
      by (simp_all add: t_def Run run_turn_def step)
    have local: "seq_local ?m ?c (threads s j)" and writer: "seq_writes (threads s j) \<longrightarrow> j = w" for j
      using inv by (simp_all add: seq_inv_def)
    have sound: "\<forall>g x. ?m g = Some x \<longrightarrow> g \<noteq> 0 \<and> g \<le> at_next_gen ?c" and whole: "intact ?m ?c"
      and answered: "\<forall>(g, a, b) \<in> set (answers s). ?m g = Some (a, b)"
      using inv by (simp_all add: seq_inv_def)
    have zero: "?m 0 = None" and unminted: "?m (Suc (at_next_gen ?c)) = None"
      using sound by (metis not_None_eq, metis not_None_eq not_less_eq_eq order_refl)
    note later = seq_exec_bygone [OF step local zero]
    have other: "seq_local (noted e ?m) c' (threads s j)" if "j \<noteq> i" for j
    proof (cases "seq_writes (threads s j)")
      case True
      then have "\<not> seq_writes ?p"
        using writer that by metis
      then show ?thesis
        using seq_exec_quiet [OF step] seq_writer_stable [OF local True] by metis
    qed (use seq_reader_stable [OF local _ later] in blast)
    have "seq_inv w t"
      unfolding seq_inv_def t
    proof (intro conjI allI impI)
      show "j = w" if "seq_writes (((threads s)(i := p')) j)" for j
        using that writer seq_exec_writes [OF step] by (auto split: if_splits)
      fix g x
      assume "noted e ?m g = Some x"
      then have "g \<noteq> 0 \<and> g \<le> at_next_gen ?c"
        using seq_exec_published [OF step local] sound by blast
      then show "g \<noteq> 0" "g \<le> at_next_gen c'"
        using seq_exec_grows [OF step] by simp_all
    next
      show "intact (noted e ?m) c'"
        by (rule seq_exec_intact [OF step local whole])
      show "seq_local (noted e ?m) c' (((threads s)(i := p')) j)" for j
        using other [of j] seq_exec_local [OF step local whole unminted zero] by simp
      have "\<forall>g x. ?m g = Some x \<longrightarrow> noted e ?m g = Some x"
        using later by (auto simp: bygone_def)
      then show "\<forall>(g, a, b) \<in> set (answers s @ (case e of Answered g a b \<Rightarrow> [(g, a, b)] | _ \<Rightarrow> [])). noted e ?m g = Some (a, b)"
        using answered step seq_exec_answer [OF _ local] by (fastforce split: effect.splits)
    qed
    then show ?thesis
      unfolding next_s t_def .
  qed
qed


subsection \<open>The alias of a seek\<close>

text \<open>The alias is a cell of one writer with the exact anchor a resolver attached to it, none being
  \<open>u64::MAX\<close>, and the generation the anchor was attached to.\<close>

record alias_cell =
  al_base :: anchor_cell
  al_exact :: "nat option"
  al_exact_gen :: nat

definition alias_new :: alias_cell where
  "alias_new = \<lparr>al_base = cell_new, al_exact = None, al_exact_gen = 0\<rparr>"

record alias_snapshot =
  snap_exact :: "nat option"
  snap_segment :: nat
  snap_anchor :: nat
  snap_generation :: nat

definition covers_position :: "alias_snapshot \<Rightarrow> nat \<Rightarrow> bool" where
  "covers_position a pos \<longleftrightarrow> pos = snap_anchor a \<or> snap_exact a = Some pos"

text \<open>The operations stand on those of the base: \<open>LBase\<close> runs one of them and says what is next.\<close>

datatype alias_next = NDone | NExact | NResolve nat nat nat

datatype alias_pc =
    LIdle
  | LBase seq_pc alias_next
  | LLoadGen nat nat nat | LLoadExact nat nat nat
  | LStoreExact nat nat | LStoreGen nat
  | LForget nat nat | LErase nat nat
  | LClear | LClearGen | LClearExact
  | LClearIf nat | LClearIfGen nat

definition alias_set :: "nat \<Rightarrow> nat \<Rightarrow> alias_pc" where
  "alias_set anchor segment = LForget anchor segment"

definition alias_load :: alias_pc where
  "alias_load = LBase SLoad NExact"

definition alias_resolve :: "nat \<Rightarrow> nat \<Rightarrow> nat \<Rightarrow> alias_pc" where
  "alias_resolve segment anchor exact = LBase SLoad (NResolve segment anchor exact)"

text \<open>The answer of a base load decides how its caller goes on.\<close>

definition alias_after :: "alias_next \<Rightarrow> effect \<Rightarrow> alias_pc" where
  "alias_after n e = (case e of
     Answered g s a \<Rightarrow> (case n of
         NDone \<Rightarrow> LIdle
       | NExact \<Rightarrow> LLoadGen g s a
       | NResolve s' a' x \<Rightarrow> if s \<noteq> s' \<or> a \<noteq> a' then LIdle else LStoreExact x g)
   | _ \<Rightarrow> LIdle)"

text \<open>An access of the alias; the snapshot is that of a load that ends with it.\<close>

definition alias_exec :: "bool \<Rightarrow> alias_pc \<Rightarrow> alias_cell \<Rightarrow> alias_pc \<times> alias_cell \<times> alias_snapshot option" where
  "alias_exec fails p c = (case p of
     LIdle \<Rightarrow> (LIdle, c, None)
   | LBase q n \<Rightarrow> (case seq_exec fails q (al_base c) of
       (q, b, e) \<Rightarrow> (if q = SIdle then alias_after n e else LBase q n, c\<lparr>al_base := b\<rparr>, None))
   | LLoadGen g s a \<Rightarrow>
       if al_exact_gen c = g then (LLoadExact g s a, c, None)
       else (LIdle, c, Some \<lparr>snap_exact = None, snap_segment = s, snap_anchor = a, snap_generation = g\<rparr>)
   | LLoadExact g s a \<Rightarrow>
       (LIdle, c, Some \<lparr>snap_exact = al_exact c, snap_segment = s, snap_anchor = a, snap_generation = g\<rparr>)
   | LStoreExact x g \<Rightarrow> (LStoreGen g, c\<lparr>al_exact := Some x\<rparr>, None)
   | LStoreGen g \<Rightarrow> (LIdle, c\<lparr>al_exact_gen := g\<rparr>, None)
   | LForget a s \<Rightarrow> (LErase a s, c\<lparr>al_exact_gen := 0\<rparr>, None)
   | LErase a s \<Rightarrow> (LBase (SSet s a) NDone, c\<lparr>al_exact := None\<rparr>, None)
   | LClear \<Rightarrow> (LClearGen, c\<lparr>al_base := clear (al_base c)\<rparr>, None)
   | LClearGen \<Rightarrow> (LClearExact, c\<lparr>al_exact_gen := 0\<rparr>, None)
   | LClearExact \<Rightarrow> (LIdle, c\<lparr>al_exact := None\<rparr>, None)
   | LClearIf g \<Rightarrow> (case clear_if_generation g (al_base c) of
       (cleared, b) \<Rightarrow> (if cleared then LClearIfGen g else LIdle, c\<lparr>al_base := b\<rparr>, None))
   | LClearIfGen g \<Rightarrow>
       (LIdle, if al_exact_gen c = g then c\<lparr>al_exact_gen := 0\<rparr> else c, None))"

record alias_sys =
  al_cell :: alias_cell
  al_threads :: "nat \<Rightarrow> alias_pc"
  al_answers :: "alias_snapshot list"

definition alias_start :: alias_sys where
  "alias_start = \<lparr>al_cell = alias_new, al_threads = (\<lambda>i. LIdle), al_answers = []\<rparr>"

definition alias_turn :: "alias_pc turn \<Rightarrow> alias_sys \<Rightarrow> alias_sys" where
  "alias_turn turn s = (case turn of
     Call i p \<Rightarrow> if al_threads s i = LIdle then s\<lparr>al_threads := (al_threads s)(i := p)\<rparr> else s
   | Run i fails \<Rightarrow> (case alias_exec fails (al_threads s i) (al_cell s) of
       (p, c, answer) \<Rightarrow>
         s\<lparr>al_threads := (al_threads s)(i := p), al_cell := c,
           al_answers := al_answers s @ (case answer of None \<Rightarrow> [] | Some a \<Rightarrow> [a])\<rparr>))"

definition alias_run :: "alias_pc turn list \<Rightarrow> alias_sys" where
  "alias_run turns = fold alias_turn turns alias_start"

text \<open>A thread that runs on its own, so many accesses.\<close>

definition runs :: "nat \<Rightarrow> nat \<Rightarrow> 'p turn list" where
  "runs n i = replicate n (Run i False)"

lemma runs_numeral [simp]: "runs (numeral k) i = Run i False # runs (pred_numeral k) i" "runs 1 i = [Run i False]" "runs 0 i = []"
  "runs (Suc n) i = Run i False # runs n i"
  by (simp_all add: runs_def numeral_eq_Suc)

subsection \<open>Operations that nothing interrupts\<close>

text \<open>What the programs do when their accesses follow one another: the operations the rest of the
  variant is written with.\<close>

definition cell_set :: "nat \<Rightarrow> nat \<Rightarrow> anchor_cell \<Rightarrow> anchor_cell" where
  "cell_set s a c =
     (case next_gen c of (g, c) \<Rightarrow>
        c\<lparr>at_version := at_version c + 2, at_segment := s, at_anchor := a, at_active := g\<rparr>)"

definition cell_load :: "anchor_cell \<Rightarrow> (nat \<times> nat \<times> nat) option" where
  "cell_load c =
     (if odd (at_version c) \<or> at_active c = 0 then None else Some (at_active c, at_segment c, at_anchor c))"

definition alias_clear_now :: "alias_cell \<Rightarrow> alias_cell" where
  "alias_clear_now c = c\<lparr>al_base := clear (al_base c), al_exact_gen := 0, al_exact := None\<rparr>"

definition alias_clear_if_now :: "nat \<Rightarrow> alias_cell \<Rightarrow> bool \<times> alias_cell" where
  "alias_clear_if_now g c =
     (case clear_if_generation g (al_base c) of
        (False, b) \<Rightarrow> (False, c)
      | (True, b) \<Rightarrow> (True, c\<lparr>al_base := b, al_exact_gen := if al_exact_gen c = g then 0 else al_exact_gen c\<rparr>))"

definition alias_load_now :: "alias_cell \<Rightarrow> alias_snapshot option" where
  "alias_load_now c =
     Option.bind (cell_load (al_base c)) (\<lambda>(g, s, a).
     Some \<lparr>snap_exact = (if al_exact_gen c = g then al_exact c else None), snap_segment = s, snap_anchor = a,
       snap_generation = g\<rparr>)"

definition alias_resolve_now :: "nat \<Rightarrow> nat \<Rightarrow> nat \<Rightarrow> alias_cell \<Rightarrow> alias_cell" where
  "alias_resolve_now s a x c =
     (case cell_load (al_base c) of
        None \<Rightarrow> c
      | Some (g, s', a') \<Rightarrow> if s' \<noteq> s \<or> a' \<noteq> a then c else c\<lparr>al_exact := Some x, al_exact_gen := g\<rparr>)"

definition alias_set_now :: "nat \<Rightarrow> nat \<Rightarrow> alias_cell \<Rightarrow> alias_cell" where
  "alias_set_now a s c = c\<lparr>al_exact_gen := 0, al_exact := None, al_base := cell_set s a (al_base c)\<rparr>"

text \<open>A program run alone, so many accesses: where it stands, the cell, what the accesses made known.\<close>

fun solo :: "(bool \<Rightarrow> 'p \<Rightarrow> 'c \<Rightarrow> 'p \<times> 'c \<times> 'e) \<Rightarrow> nat \<Rightarrow> 'p \<Rightarrow> 'c \<Rightarrow> 'p \<times> 'c \<times> 'e list" where
  "solo exec 0 p c = (p, c, [])"
| "solo exec (Suc n) p c = (case exec False p c of (p, c, e) \<Rightarrow> (case solo exec n p c of (p, c, es) \<Rightarrow> (p, c, e # es)))"

lemma solo_numeral [simp]:
  "solo exec (numeral k) p c =
     (case exec False p c of (p, c, e) \<Rightarrow> (case solo exec (pred_numeral k) p c of (p, c, es) \<Rightarrow> (p, c, e # es)))"
  by (simp add: numeral_eq_Suc)

lemma cas_set_alone:
  assumes "even (at_version c)"
  shows "\<exists>es. solo cas_exec 8 (CSet s a) c = (CIdle, cell_set s a c, es)"
  using assms by (simp add: cas_exec_def next_gen_def cell_set_def)

lemma cas_load_alone:
  "\<exists>es. solo cas_exec 6 CLoad c = (CIdle, c, es)
     \<and> (\<forall>g s a. Answered g s a \<in> set es \<longleftrightarrow> cell_load c = Some (g, s, a))"
  by (auto simp: cas_exec_def cell_load_def)

lemma seq_set_alone: "\<exists>es. solo seq_exec 7 (SSet s a) c = (SIdle, cell_set s a c, es)"
  by (simp add: seq_exec_def next_gen_def cell_set_def)

lemma seq_load_alone:
  assumes "even (at_version c)"
  shows "\<exists>es. solo seq_exec 6 SLoad c = (SIdle, c, es)
     \<and> (\<forall>g s a. Answered g s a \<in> set es \<longleftrightarrow> cell_load c = Some (g, s, a))"
  using assms by (auto simp: seq_exec_def cell_load_def)

lemma alias_set_alone: "\<exists>es. solo alias_exec 9 (alias_set a s) c = (LIdle, alias_set_now a s c, es)"
  by (simp add: alias_exec_def alias_set_def alias_after_def seq_exec_def next_gen_def cell_set_def alias_set_now_def)

lemma alias_load_alone:
  assumes "even (at_version (al_base c))"
  shows "\<exists>es. solo alias_exec 8 alias_load c = (LIdle, c, es)
     \<and> (\<forall>x. Some x \<in> set es \<longleftrightarrow> alias_load_now c = Some x)"
  using assms by (auto simp: alias_exec_def alias_load_def alias_after_def seq_exec_def alias_load_now_def cell_load_def)

lemma alias_resolve_alone:
  assumes "even (at_version (al_base c))"
  shows "\<exists>es. solo alias_exec 8 (alias_resolve s a x) c = (LIdle, alias_resolve_now s a x c, es)"
  using assms by (auto simp: alias_exec_def alias_resolve_def alias_after_def seq_exec_def alias_resolve_now_def cell_load_def)

lemma alias_clear_alone: "\<exists>es. solo alias_exec 3 LClear c = (LIdle, alias_clear_now c, es)"
  by (simp add: alias_exec_def alias_clear_now_def)

lemma alias_clear_if_alone: "\<exists>es. solo alias_exec 2 (LClearIf g) c = (LIdle, snd (alias_clear_if_now g c), es)"
  by (auto simp: alias_exec_def alias_clear_if_now_def clear_if_generation_def)

subsection \<open>What the cells promise\<close>

text \<open>C10: Whatever the threads do and however their accesses interleave, with any number of writers,
  readers and clears, every entry a load of the many-writer cell answers is the segment and the anchor
  one \<open>set\<close> published under the generation the answer names: no torn pair is ever read.\<close>

theorem no_torn_demand:
  assumes "list_all cas_turn turns" "(g, s, a) \<in> set (answers (cas_run turns))"
  shows "published (cas_run turns) g = Some (s, a)"
  using cas_run_inv [OF assms(1)] assms(2) by (auto simp: cas_inv_def)

text \<open>The same holds of the cell of one writer as long as all the \<open>set\<close>s are of one thread.\<close>

lemma no_torn_alias:
  assumes "list_all (seq_turn w) turns" "(g, s, a) \<in> set (answers (seq_run turns))"
  shows "published (seq_run turns) g = Some (s, a)"
  using seq_run_inv [OF assms(1)] assms(2) by (auto simp: seq_inv_def)

text \<open>With two threads that set, the second between the two body accesses of the first, the cell
  of one writer answers the segment of one with the anchor of the other.\<close>

definition overlapping_sets :: "seq_pc turn list" where
  "overlapping_sets =
     [Call 0 (SSet 1 10)] @ runs 4 0 @ [Call 1 (SSet 2 20)] @ runs 7 1 @ runs 2 0 @ [Call 2 SLoad] @ runs 6 2"

definition overlapping_demands :: "cas_pc turn list" where
  "overlapping_demands =
     [Call 0 (CSet 1 10)] @ runs 5 0 @ [Call 1 (CSet 2 20)] @ runs 9 1 @ runs 3 0 @ runs 8 1 @ [Call 2 CLoad] @ runs 6 2"

lemma overlapping_sets_tear:
  "answers (seq_run overlapping_sets) = [(2, 2, 10)] \<and> published (seq_run overlapping_sets) 2 = Some (2, 20)"
  by (simp add: seq_run_def overlapping_sets_def cell_start_def cell_new_def run_turn_def seq_exec_def next_gen_def note_effect_def)

theorem no_torn_demand_witness:
  "published (cas_run overlapping_demands) 2 = Some (2, 20)"
  by (rule no_torn_demand) (simp_all add: cas_run_def overlapping_demands_def cell_start_def cell_new_def run_turn_def
      cas_exec_def next_gen_def note_effect_def)

lemma no_torn_alias_witness:
  "published (seq_run (Call 0 (SSet 1 10) # runs 7 0 @ [Call 2 SLoad] @ runs 6 2)) 1 = Some (1, 10)"
  by (rule no_torn_alias [where w = 0]) (simp_all add: seq_run_def cell_start_def cell_new_def run_turn_def seq_exec_def
      next_gen_def note_effect_def)

text \<open>A resolver that has read the base before a new alias was set stores its anchor after the
  resolver of the new one has tagged its own: a load in between answers the exact anchor of the old
  base under the generation of the new.\<close>

definition overlapping_resolvers :: "alias_pc turn list" where
  "overlapping_resolvers =
     [Call 0 (alias_set 10 1)] @ runs 9 0 @ [Call 1 (alias_resolve 1 10 11)] @ runs 6 1
     @ [Call 0 (alias_set 20 2)] @ runs 9 0 @ [Call 2 (alias_resolve 2 20 22)] @ runs 8 2
     @ runs 1 1 @ [Call 3 alias_load] @ runs 8 3"

lemma stale_resolver_attaches_to_the_newer_base:
  "al_answers (alias_run overlapping_resolvers)
     = [\<lparr>snap_exact = Some 11, snap_segment = 2, snap_anchor = 20, snap_generation = 2\<rparr>]"
  by (simp add: alias_run_def overlapping_resolvers_def alias_start_def alias_new_def cell_new_def alias_turn_def alias_exec_def
      alias_set_def alias_load_def alias_resolve_def alias_after_def seq_exec_def next_gen_def)

end
