(* ===== verification/Hls_Seek.thy ===== *)
theory Hls_Seek
  imports Hls_Layout Plan_Queue Hls_Anchor
begin

text \<open>
  How a seek lands in an HLS variant (\<open>crates/kithara-hls/src/variant/flow/seek.rs\<close>,
  \<open>flow/size.rs\<close>, \<open>flow/lifecycle.rs\<close>, \<open>flow/cursor.rs\<close>, \<open>map/layout.rs\<close>,
  \<open>map/descriptor.rs\<close>, \<open>map/media.rs\<close>, the exact-size half of \<open>flow/probe.rs\<close> and the position of
  \<open>stream/session/hls.rs\<close>).  A seek leaves an alias, where the reader believes its segment begins, and,
  for a container that is addressed by bytes, a demand for the exact sizes in front of it; a tail
  freezes the byte space behind the reader for the others.  The operations are those of one thread
  after another: their cells are used as nothing interrupts them (\<open>Hls_Anchor\<close> has the accesses), and
  the layout is between two publications unless the state says otherwise.  The index of the variant,
  which every anchor and descriptor repeats, is left out.
\<close>

subsection \<open>A variant\<close>

record hls_segment =
  seg_size :: segment_size
  seg_plain :: bool
  seg_decode :: duration
  seg_duration :: duration

record hls_variant =
  hv_exact :: bool
  hv_init :: "hls_segment option"
  hv_segments :: "hls_segment list"
  hv_layout :: layout
  hv_alias :: alias_cell
  hv_demand :: anchor_cell
  hv_byte_demand :: "nat option"
  hv_tail :: nat
  hv_deferred :: "(nat \<times> nat) list"
  hv_size_demands :: size_demand_state
  hv_plan :: plan_queue
  hv_prefetch_anchor :: nat
  hv_resume_at :: nat
  hv_wait_end :: nat

definition no_seek_tail :: nat where
  "no_seek_tail = u32_max"

definition no_prefetch_deferral :: nat where
  "no_prefetch_deferral = u64_max"

definition media_sizes :: "hls_variant \<Rightarrow> segment_size list" where
  "media_sizes v = map seg_size (hv_segments v)"

definition init_route_size :: "hls_variant \<Rightarrow> nat" where
  "init_route_size v = (case hv_init v of None \<Rightarrow> 0 | Some s \<Rightarrow> size_get (seg_size s))"

definition init_size :: "hls_variant \<Rightarrow> nat" where
  "init_size v = (case hv_init v of None \<Rightarrow> 0 | Some s \<Rightarrow> size_read_len (seg_size s))"

definition into_variant :: "bool \<Rightarrow> hls_segment option \<Rightarrow> hls_segment list \<Rightarrow> hls_variant" where
  "into_variant needs_exact init segs =
     \<lparr>hv_exact = needs_exact, hv_init = init, hv_segments = segs,
      hv_layout = layout_new (case init of None \<Rightarrow> 0 | Some s \<Rightarrow> size_get (seg_size s)) (map seg_size segs),
      hv_alias = alias_new, hv_demand = cell_new, hv_byte_demand = None, hv_tail = no_seek_tail, hv_deferred = [],
      hv_size_demands = demand_default, hv_plan = plan_new (length segs), hv_prefetch_anchor = 0,
      hv_resume_at = no_prefetch_deferral, hv_wait_end = 0\<rparr>"

text \<open>A lookup in the layout while no publication is under way: \<open>try_published\<close> samples the counter
  before and after.\<close>

definition stable :: "hls_variant \<Rightarrow> 'a option \<Rightarrow> 'a option" where
  "stable v x = try_published (publication_seq (hv_layout v)) x (publication_seq (hv_layout v))"

abbreviation hv_frame :: "hls_variant \<Rightarrow> layout_frame" where
  "hv_frame v \<equiv> lay_frame (hv_layout v)"

definition hv_offset :: "nat \<Rightarrow> hls_variant \<Rightarrow> nat option" where
  "hv_offset idx v = segment_byte_offset idx (hv_frame v)"

definition segment_len :: "nat \<Rightarrow> hls_variant \<Rightarrow> nat option" where
  "segment_len idx v = map_option size_read_len (slice_get (media_sizes v) idx)"

subsection \<open>Lookups under an alias\<close>

fun alias_walk :: "nat \<Rightarrow> nat \<Rightarrow> nat \<Rightarrow> segment_size list \<Rightarrow> (nat \<times> nat \<times> nat) option" where
  "alias_walk byte idx start [] = None"
| "alias_walk byte idx start (s # ss) =
     (let size = size_get s; stop = sat_add u64_max start size
      in if byte < stop then map_option (\<lambda>i. (i, start, size)) (u32_of_usize idx)
         else alias_walk byte (idx + 1) stop ss)"

definition segment_aware_seek_alias_at :: "alias_snapshot \<Rightarrow> nat \<Rightarrow> hls_variant \<Rightarrow> (nat \<times> nat \<times> nat) option" where
  "segment_aware_seek_alias_at al byte v =
     alias_walk byte (snap_segment al) (snap_anchor al) (drop (snap_segment al) (media_sizes v))"

definition seek_alias_at :: "nat \<Rightarrow> hls_variant \<Rightarrow> (nat \<times> nat \<times> nat) option" where
  "seek_alias_at byte v =
     Option.bind (alias_load_now (hv_alias v)) (\<lambda>al.
     if byte < snap_anchor al then None
     else if \<not> hv_exact v then segment_aware_seek_alias_at al byte v
     else Option.bind (segment_len (snap_segment al) v) (\<lambda>size.
       if byte < sat_add u64_max (snap_anchor al) size then Some (snap_segment al, snap_anchor al, size) else None))"

definition find_at_offset :: "nat \<Rightarrow> hls_variant \<Rightarrow> (nat \<times> nat \<times> nat) option" where
  "find_at_offset byte v =
     (case seek_alias_at byte v of Some r \<Rightarrow> Some r | None \<Rightarrow> find_virtual byte (media_sizes v) (hv_frame v))"

definition hv_total :: "hls_variant \<Rightarrow> nat" where
  "hv_total v =
     variant_total (hv_exact v) (map_option (\<lambda>al. (snap_segment al, snap_anchor al)) (alias_load_now (hv_alias v)))
       (lay_total (hv_layout v)) (hv_frame v)"

definition init_descriptor_at :: "nat \<Rightarrow> hls_variant \<Rightarrow> (nat \<times> nat) option" where
  "init_descriptor_at byte v =
     (if served_from (hv_frame v) \<noteq> 0 \<or> hv_init v = None then None
      else if init_size v = 0 \<or> \<not> byte < init_size v then None else Some (0, init_size v))"

definition demand_segment_at_offset :: "nat \<Rightarrow> hls_variant \<Rightarrow> nat option" where
  "demand_segment_at_offset byte v =
     (if init_descriptor_at byte v \<noteq> None \<and> hv_segments v \<noteq> [] then Some 0
      else map_option fst (find_at_offset byte v))"

record segment_descriptor =
  desc_start :: nat
  desc_stop :: nat
  desc_decode :: duration
  desc_duration :: duration
  desc_index :: nat

definition descriptor_offset :: "nat \<Rightarrow> hls_variant \<Rightarrow> nat option" where
  "descriptor_offset idx v =
     (case alias_load_now (hv_alias v) of
        Some al \<Rightarrow>
          if idx = snap_segment al \<or> (snap_segment al < idx \<and> \<not> hv_exact v)
          then fold (\<lambda>s off. Option.bind off (\<lambda>off. checked_add u64_max off (size_get s)))
                 (take (idx - snap_segment al) (drop (snap_segment al) (media_sizes v))) (Some (snap_anchor al))
          else natural_offset idx (hv_layout v)
      | None \<Rightarrow> natural_offset idx (hv_layout v))"

definition descriptor :: "nat \<Rightarrow> hls_variant \<Rightarrow> segment_descriptor option" where
  "descriptor idx v =
     Option.bind (slice_get (hv_segments v) idx) (\<lambda>s.
     Option.bind (u32_of_usize idx) (\<lambda>i.
     Option.bind (descriptor_offset idx v) (\<lambda>start.
     Option.bind (segment_len idx v) (\<lambda>size.
     Some \<lparr>desc_start = start, desc_stop = start + size, desc_decode = seg_decode s, desc_duration = seg_duration s,
       desc_index = i\<rparr>))))"

definition descriptor_at_byte :: "nat \<Rightarrow> hls_variant \<Rightarrow> segment_descriptor option" where
  "descriptor_at_byte byte v =
     Option.bind (find_at_offset byte v) (\<lambda>(idx, start, size).
     Option.bind (slice_get (hv_segments v) idx) (\<lambda>s.
     Some \<lparr>desc_start = start, desc_stop = start + size, desc_decode = seg_decode s, desc_duration = seg_duration s,
       desc_index = idx\<rparr>))"

definition descriptor_after_byte :: "nat \<Rightarrow> hls_variant \<Rightarrow> segment_descriptor option" where
  "descriptor_after_byte byte v =
     (case seek_alias_at byte v of
        Some (idx, start, _) \<Rightarrow> descriptor (idx + (if start < byte then 1 else 0)) v
      | None \<Rightarrow>
          let idx = bisect_left byte (hv_frame v)
          in if length (hv_segments v) \<le> idx then None
             else Option.bind (natural_offset idx (hv_layout v)) (\<lambda>off.
               let idx = (if off < byte then idx + 1 else idx)
               in if length (hv_segments v) \<le> idx then None else descriptor idx v))"

subsection \<open>Times\<close>

function bisect_right_loop :: "duration list \<Rightarrow> duration \<Rightarrow> nat \<Rightarrow> nat \<Rightarrow> nat" where
  "bisect_right_loop decs t lo hi =
     (if lo < hi then
        let mid = lo + (hi - lo) div 2
        in if decs ! mid \<le> t then bisect_right_loop decs t (mid + 1) hi else bisect_right_loop decs t lo mid
      else lo)"
  by pat_completeness auto
termination
  by (relation "measure (\<lambda>(decs, t, lo, hi). hi - lo)") auto

declare bisect_right_loop.simps [simp del]

definition bisect_right_decode_time :: "hls_segment list \<Rightarrow> duration \<Rightarrow> nat" where
  "bisect_right_decode_time segs t = bisect_right_loop (map seg_decode segs) t 0 (length segs)"

definition index_at_time :: "duration \<Rightarrow> hls_variant \<Rightarrow> nat option" where
  "index_at_time t v =
     (if hv_segments v = [] then None
      else Some (min (bisect_right_decode_time (hv_segments v) t - 1) (length (hv_segments v) - 1)))"

definition seek_point_at_time :: "duration \<Rightarrow> hls_variant \<Rightarrow> (nat \<times> duration \<times> duration) option" where
  "seek_point_at_time t v =
     Option.bind (index_at_time t v) (\<lambda>idx.
     Option.bind (slice_get (hv_segments v) idx) (\<lambda>s.
     Option.bind (u32_of_usize idx) (\<lambda>i.
     Some (i, seg_decode s, sat_add duration_max (seg_decode s) (seg_duration s)))))"

definition descriptor_at_time :: "duration \<Rightarrow> hls_variant \<Rightarrow> segment_descriptor option" where
  "descriptor_at_time t v = Option.bind (index_at_time t v) (\<lambda>idx. descriptor idx v)"

subsection \<open>Completeness of sizes\<close>

definition sizes_complete :: "hls_variant \<Rightarrow> bool" where
  "sizes_complete v = lay_sizes_complete (hv_layout v)"

definition exact_init_complete :: "hls_variant \<Rightarrow> bool" where
  "exact_init_complete v = (case hv_init v of None \<Rightarrow> True | Some s \<Rightarrow> is_exact (seg_size s))"

definition all_sizes_complete :: "hls_variant \<Rightarrow> bool" where
  "all_sizes_complete v =
     (case stable v (Some (sizes_complete v \<and> exact_init_complete v)) of Some b \<Rightarrow> b | None \<Rightarrow> False)"

definition exact_prefix_complete_now :: "nat \<Rightarrow> hls_variant \<Rightarrow> bool" where
  "exact_prefix_complete_now seg v =
     (exact_init_complete v
      \<and> (let last = min seg (length (hv_segments v) - 1)
         in last < length (hv_segments v) \<and> list_all is_exact (take (last + 1) (media_sizes v))))"

definition segment_aware_seek_tail_complete :: "hls_variant \<Rightarrow> bool" where
  "segment_aware_seek_tail_complete v =
     (if hv_exact v \<or> hv_tail v = no_seek_tail \<or> length (hv_segments v) < hv_tail v then False
      else let tail = drop (hv_tail v) (media_sizes v) in tail \<noteq> [] \<and> list_all is_exact tail)"

definition eof_ready :: "hls_variant \<Rightarrow> bool" where
  "eof_ready v = (sizes_complete v \<or> segment_aware_seek_tail_complete v)"

definition eof_at :: "nat \<Rightarrow> hls_variant \<Rightarrow> bool" where
  "eof_at byte v =
     (case stable v (Some (0 < hv_total v \<and> hv_total v \<le> byte \<and> eof_ready v)) of Some b \<Rightarrow> b | None \<Rightarrow> False)"

definition exact_byte_position_ready :: "nat \<Rightarrow> hls_variant \<Rightarrow> bool" where
  "exact_byte_position_ready byte v =
     (case stable v (Some (
          if init_descriptor_at byte v \<noteq> None then exact_init_complete v
          else if sizes_complete v \<and> exact_init_complete v then True
          else (case find_at_offset byte v of Some (seg, _, _) \<Rightarrow> exact_prefix_complete_now seg v | None \<Rightarrow> False)))
      of Some b \<Rightarrow> b | None \<Rightarrow> False)"

subsection \<open>Asking for exact sizes\<close>

definition demanded_entry :: "size_demand \<Rightarrow> hls_variant \<Rightarrow> hls_segment option" where
  "demanded_entry d v = (case d of DemandInit \<Rightarrow> hv_init v | DemandSegment idx \<Rightarrow> slice_get (hv_segments v) idx)"

definition size_probe_allowed :: "size_demand \<Rightarrow> hls_variant \<Rightarrow> bool" where
  "size_probe_allowed d v = (case demanded_entry d v of None \<Rightarrow> False | Some s \<Rightarrow> \<not> is_exact (seg_size s) \<and> seg_plain s)"

definition body_fetch :: "size_demand \<Rightarrow> planned_fetch" where
  "body_fetch d = (case d of DemandInit \<Rightarrow> Init | DemandSegment idx \<Rightarrow> Segment idx)"

definition request_exact_size :: "size_demand \<Rightarrow> hls_variant \<Rightarrow> hls_variant" where
  "request_exact_size d v =
     (if size_probe_allowed d v then v\<lparr>hv_size_demands := demand_enqueue d (hv_size_demands v)\<rparr>
      else v\<lparr>hv_plan := enqueue_body_fetch (body_fetch d) (hv_plan v)\<rparr>)"

definition request_exact_prefix_through :: "nat \<Rightarrow> hls_variant \<Rightarrow> hls_variant" where
  "request_exact_prefix_through seg v =
     (let v = (if exact_init_complete v then v else request_exact_size DemandInit v);
          last = min seg (num_segments (media_sizes v) - 1)
      in fold (\<lambda>idx v. case slice_get (media_sizes v) idx of
             Some s \<Rightarrow> if is_exact s then v else request_exact_size (DemandSegment idx) v
           | None \<Rightarrow> v) [0..<last + 1] v)"

definition request_exact_prefix_for_byte :: "nat \<Rightarrow> hls_variant \<Rightarrow> hls_variant" where
  "request_exact_prefix_for_byte byte v =
     (if init_descriptor_at byte v \<noteq> None then (if exact_init_complete v then v else request_exact_size DemandInit v)
      else (case find_at_offset byte v of
          Some (seg, _, _) \<Rightarrow> request_exact_prefix_through seg v
        | None \<Rightarrow>
            let last = num_segments (media_sizes v) - 1
            in if 0 < last \<or> hv_segments v \<noteq> [] then request_exact_prefix_through last v else v))"

subsection \<open>The demand of an exact seek\<close>

definition resolve_seek_alias :: "nat \<Rightarrow> nat \<Rightarrow> nat \<Rightarrow> hls_variant \<Rightarrow> hls_variant" where
  "resolve_seek_alias segment anchor exact_anchor v =
     v\<lparr>hv_alias := alias_resolve_now segment anchor exact_anchor (hv_alias v)\<rparr>"

definition exact_anchor_now :: "nat \<Rightarrow> hls_variant \<Rightarrow> nat option" where
  "exact_anchor_now segment v = (if exact_prefix_complete_now segment v then hv_offset segment v else None)"

definition complete_exact_seek_if_ready :: "hls_variant \<Rightarrow> hls_variant" where
  "complete_exact_seek_if_ready v =
     (case cell_load (hv_demand v) of
        None \<Rightarrow> v
      | Some (_, segment, anchor) \<Rightarrow>
          (case stable v (exact_anchor_now segment v) of None \<Rightarrow> v | Some x \<Rightarrow> resolve_seek_alias segment anchor x v))"

definition resolved_seek_anchor :: "nat \<Rightarrow> hls_variant \<Rightarrow> nat option" where
  "resolved_seek_anchor anchor v =
     Option.bind (alias_load_now (hv_alias v)) (\<lambda>al. if snap_anchor al = anchor then snap_exact al else None)"

definition exact_seek_projection_ready :: "nat \<Rightarrow> nat \<Rightarrow> hls_variant \<Rightarrow> bool" where
  "exact_seek_projection_ready segment anchor v =
     (case stable v (map_option (\<lambda>x. resolved_seek_anchor anchor v = Some x) (exact_anchor_now segment v)) of
        Some b \<Rightarrow> b | None \<Rightarrow> False)"

datatype source_phase = PhaseCancelled | PhaseEof | PhaseReady | PhaseWaiting | WaitingDemand | WaitingMetadata

definition exact_seek_metadata_phase :: "hls_variant \<Rightarrow> source_phase option \<times> hls_variant" where
  "exact_seek_metadata_phase v =
     (if cell_load (hv_demand v) = None then (None, v)
      else let v = complete_exact_seek_if_ready v
        in case cell_load (hv_demand v) of
             None \<Rightarrow> (None, v)
           | Some (_, segment, anchor) \<Rightarrow>
               if exact_seek_projection_ready segment anchor v then (None, v)
               else (Some WaitingDemand, request_exact_prefix_through segment v))"

definition exact_byte_metadata_phase :: "hls_variant \<Rightarrow> source_phase option \<times> hls_variant" where
  "exact_byte_metadata_phase v =
     (case hv_byte_demand v of
        None \<Rightarrow> (None, v)
      | Some byte \<Rightarrow>
          if exact_byte_position_ready byte v then (None, v\<lparr>hv_byte_demand := None\<rparr>)
          else (Some WaitingDemand, request_exact_prefix_for_byte byte v))"

definition clear_exact_seek :: "hls_variant \<Rightarrow> hls_variant" where
  "clear_exact_seek v = v\<lparr>hv_demand := clear (hv_demand v)\<rparr>"

definition clear_seek_alias :: "hls_variant \<Rightarrow> hls_variant" where
  "clear_seek_alias v = v\<lparr>hv_alias := alias_clear_now (hv_alias v)\<rparr>"

definition set_exact_seek_demand :: "nat \<Rightarrow> nat \<Rightarrow> hls_variant \<Rightarrow> hls_variant" where
  "set_exact_seek_demand anchor segment v =
     (if \<not> hv_exact v \<or> all_sizes_complete v then clear_exact_seek v
      else let v = (case cell_load (hv_demand v) of
               Some (_, s, _) \<Rightarrow> if s = segment then v else v\<lparr>hv_demand := cell_set segment anchor (hv_demand v)\<rparr>
             | None \<Rightarrow> v\<lparr>hv_demand := cell_set segment anchor (hv_demand v)\<rparr>)
        in complete_exact_seek_if_ready (request_exact_prefix_through segment v))"

definition set_exact_byte_seek_demand :: "nat \<Rightarrow> hls_variant \<Rightarrow> hls_variant" where
  "set_exact_byte_seek_demand byte v =
     (if \<not> hv_exact v \<or> all_sizes_complete v then v\<lparr>hv_byte_demand := None\<rparr>
      else request_exact_prefix_for_byte byte (v\<lparr>hv_byte_demand := Some byte\<rparr>))"

subsection \<open>Seeking\<close>

definition readahead_start :: "nat \<Rightarrow> hls_variant \<Rightarrow> nat" where
  "readahead_start target v = (if hv_exact v then target else target - 1)"

definition set_segment_aware_seek_tail :: "nat \<Rightarrow> hls_variant \<Rightarrow> hls_variant" where
  "set_segment_aware_seek_tail segment v = (if hv_exact v then v else v\<lparr>hv_tail := segment\<rparr>)"

datatype seek_error = SeekPointNotFound | SeekOffsetNotFound | PrefetchOffsetNotFound

record seek_anchor =
  sa_byte :: nat
  sa_start :: duration
  sa_stop :: duration
  sa_segment :: nat

definition prepare_seek_time_anchor :: "duration \<Rightarrow> hls_variant \<Rightarrow> (seek_error, seek_anchor) result \<times> hls_variant" where
  "prepare_seek_time_anchor t v =
     (case seek_point_at_time t v of
        None \<Rightarrow> (Inl SeekPointNotFound, v)
      | Some (seg, start, stop) \<Rightarrow>
          (case hv_offset seg v of
             None \<Rightarrow> (Inl SeekOffsetNotFound, v)
           | Some byte \<Rightarrow>
               (case hv_offset (readahead_start seg v) v of
                  None \<Rightarrow> (Inl PrefetchOffsetNotFound, v)
                | Some ahead \<Rightarrow>
                    let v1 = v\<lparr>hv_prefetch_anchor := ahead\<rparr>;
                        v2 = v1\<lparr>hv_alias := alias_set_now byte seg (hv_alias v1)\<rparr>;
                        v3 = set_segment_aware_seek_tail (readahead_start seg v) v2;
                        v4 = set_exact_seek_demand byte seg v3
                    in (Inr \<lparr>sa_byte = byte, sa_start = start, sa_stop = stop, sa_segment = seg\<rparr>,
                        v4\<lparr>hv_wait_end := 0\<rparr>))))"

record seek_projection =
  proj_demand_generation :: "nat option"
  proj_alias_generation :: nat
  proj_exact :: nat

definition resolved_seek_projection :: "nat \<Rightarrow> hls_variant \<Rightarrow> seek_projection option" where
  "resolved_seek_projection anchor v =
     Option.bind (alias_load_now (hv_alias v)) (\<lambda>al.
     if snap_anchor al \<noteq> anchor then None
     else Option.bind (snap_exact al) (\<lambda>x.
       Some \<lparr>proj_demand_generation = Option.bind (cell_load (hv_demand v)) (\<lambda>(g, s, a).
               if s = snap_segment al \<and> a = snap_anchor al then Some g else None),
             proj_alias_generation = snap_generation al, proj_exact = x\<rparr>))"

definition retire_seek_projection :: "seek_projection \<Rightarrow> hls_variant \<Rightarrow> hls_variant" where
  "retire_seek_projection p v =
     (case alias_clear_if_now (proj_alias_generation p) (hv_alias v) of
        (False, _) \<Rightarrow> v
      | (True, al) \<Rightarrow>
          let v = v\<lparr>hv_alias := al\<rparr>
          in case proj_demand_generation p of
               None \<Rightarrow> v
             | Some g \<Rightarrow> v\<lparr>hv_demand := snd (clear_if_generation g (hv_demand v))\<rparr>)"

definition retire_seek_projection_if_moved :: "nat \<Rightarrow> hls_variant \<Rightarrow> hls_variant" where
  "retire_seek_projection_if_moved pos v =
     (case alias_load_now (hv_alias v) of
        None \<Rightarrow> v
      | Some al \<Rightarrow>
          if \<not> covers_position al pos \<and> (hv_exact v \<or> pos < snap_anchor al)
          then clear_exact_seek (clear_seek_alias v) else v)"

definition register_session_seek :: "nat \<Rightarrow> bool \<Rightarrow> hls_variant \<Rightarrow> hls_variant" where
  "register_session_seek pos moved v =
     (if moved
      then let v = (case alias_load_now (hv_alias v) of
               Some al \<Rightarrow> if covers_position al pos then v else clear_exact_seek (clear_seek_alias v)
             | None \<Rightarrow> v)
        in set_exact_byte_seek_demand pos (v\<lparr>hv_wait_end := 0\<rparr>)
      else v)"

definition take_prefetch_resume_at :: "nat \<Rightarrow> hls_variant \<Rightarrow> bool \<times> hls_variant" where
  "take_prefetch_resume_at consumed v =
     (if hv_resume_at v \<noteq> no_prefetch_deferral \<and> hv_resume_at v \<le> consumed
      then (True, v\<lparr>hv_resume_at := no_prefetch_deferral\<rparr>) else (False, v))"

subsection \<open>Sizes that arrive\<close>

definition set_seg_size :: "(segment_size \<Rightarrow> segment_size) \<Rightarrow> size_demand \<Rightarrow> hls_variant \<Rightarrow> hls_variant" where
  "set_seg_size f d v =
     (case d of
        DemandInit \<Rightarrow> v\<lparr>hv_init := map_option (seg_size_update f) (hv_init v)\<rparr>
      | DemandSegment idx \<Rightarrow>
          if idx < length (hv_segments v)
          then v\<lparr>hv_segments := (hv_segments v)[idx := seg_size_update f (hv_segments v ! idx)]\<rparr> else v)"

definition apply_loaded_size :: "planned_fetch \<Rightarrow> nat \<Rightarrow> hls_variant \<Rightarrow> hls_variant" where
  "apply_loaded_size p len v =
     set_seg_size (set_exact len) (case p of Init \<Rightarrow> DemandInit | Segment idx \<Rightarrow> DemandSegment idx) v"

text \<open>The cycle of the layout's writer, with what the caller's \<open>store\<close> left.\<close>

definition publish :: "mutation \<Rightarrow> hls_variant \<Rightarrow> hls_variant" where
  "publish m v = v\<lparr>hv_layout := mutate_frame m (media_sizes v) (init_route_size v) (hv_layout v)\<rparr>"

definition defer_prefix_settle :: "planned_fetch \<Rightarrow> nat \<Rightarrow> hls_variant \<Rightarrow> hls_variant option" where
  "defer_prefix_settle p len v =
     (if hv_tail v = no_seek_tail then None
      else (case p of
          Init \<Rightarrow> None
        | Segment idx \<Rightarrow> if hv_tail v \<le> idx then None else Some (v\<lparr>hv_deferred := hv_deferred v @ [(idx, len)]\<rparr>)))"

definition apply_commit :: "planned_fetch \<Rightarrow> nat \<Rightarrow> hls_variant \<Rightarrow> hls_variant" where
  "apply_commit p len v =
     complete_exact_seek_if_ready (publish ApplyCommit
       (case defer_prefix_settle p len v of Some v \<Rightarrow> v | None \<Rightarrow> apply_loaded_size p len v))"

definition store_resolved_size :: "size_demand \<Rightarrow> nat \<Rightarrow> hls_variant \<Rightarrow> bool \<times> hls_variant" where
  "store_resolved_size d len v =
     (if len = 0 then (False, v)
      else (case demanded_entry d v of
          Some s \<Rightarrow>
            if seg_plain s
            then (fst (set_exact_if_unknown len (seg_size s)),
                  publish ApplyCommit (set_seg_size (\<lambda>z. snd (set_exact_if_unknown len z)) d v))
            else (False, publish ApplyCommit v)
        | None \<Rightarrow> (False, publish ApplyCommit v)))"

definition apply_resolved_size :: "size_demand \<Rightarrow> nat \<Rightarrow> hls_variant \<Rightarrow> bool \<times> hls_variant" where
  "apply_resolved_size d len v =
     (case store_resolved_size d len v of
        (changed, v) \<Rightarrow> (changed, if changed then complete_exact_seek_if_ready v else v))"

definition finish_size_probe :: "size_demand \<Rightarrow> nat option \<Rightarrow> bool \<Rightarrow> hls_variant \<Rightarrow> hls_variant" where
  "finish_size_probe d header_len failed v =
     (let v = v\<lparr>hv_size_demands := demand_finish d (hv_size_demands v)\<rparr>;
          size = (case header_len of None \<Rightarrow> 0 | Some n \<Rightarrow> n)
      in if failed \<or> size = 0 then v else snd (apply_resolved_size d size v))"

definition layout_seek_invariant :: "hls_variant \<Rightarrow> bool" where
  "layout_seek_invariant v = (is_canonical_complete (media_sizes v) (hv_layout v) \<and> hv_deferred v = [])"

definition reset_layout_to_full_range :: "hls_variant \<Rightarrow> hls_variant" where
  "reset_layout_to_full_range v =
     (if layout_seek_invariant v then v
      else let v1 = v\<lparr>hv_tail := no_seek_tail\<rparr>;
               v2 = fold (\<lambda>(idx, len). apply_loaded_size (Segment idx) len) (hv_deferred v1) (v1\<lparr>hv_deferred := []\<rparr>)
        in publish Reset v2)"

definition reset_to_full_range :: "hls_variant \<Rightarrow> hls_variant" where
  "reset_to_full_range v =
     reset_layout_to_full_range ((clear_exact_seek (clear_seek_alias v))\<lparr>hv_byte_demand := None\<rparr>)"

text \<open>The position of a session, with the projection that stands for it.\<close>

definition projected_position :: "nat \<Rightarrow> hls_variant \<Rightarrow> (nat \<times> seek_projection option) \<times> hls_variant" where
  "projected_position provisional v =
     (case resolved_seek_projection provisional v of
        None \<Rightarrow> ((provisional, None), v)
      | Some p \<Rightarrow> ((proj_exact p, Some p), v\<lparr>hv_prefetch_anchor := proj_exact p\<rparr>))"

definition advance_from :: "nat \<times> seek_projection option \<Rightarrow> nat \<Rightarrow> hls_variant \<Rightarrow> nat \<times> hls_variant" where
  "advance_from pos bytes v =
     (let next = (fst pos + bytes) mod (u64_max + 1)
      in (next,
          if bytes = 0 then v
          else (case snd pos of
              Some p \<Rightarrow> retire_seek_projection p v
            | None \<Rightarrow> retire_seek_projection_if_moved next v)))"

subsection \<open>Placeholders\<close>

definition estimated_bytes :: "duration \<Rightarrow> nat option \<Rightarrow> nat" where
  "estimated_bytes d bandwidth_bps =
     (let by_time = (d * 4096 + 999999999) div 1000000000
      in case bandwidth_bps of
           Some bps \<Rightarrow> if 0 < bps then min by_time ((bps * d + 7999999999) div 8000000000) else by_time
         | None \<Rightarrow> by_time)"

definition segment_placeholder_size :: "duration \<Rightarrow> nat option \<Rightarrow> nat" where
  "segment_placeholder_size d bandwidth_bps =
     (if d = 0 then 4096
      else let n = estimated_bytes d bandwidth_bps
        in max 4096 (min 262144 (if n \<le> u64_max then n else u64_max)))"

text \<open>A placeholder never counts for more than its duration does, between the two clamps, and more
  bandwidth never makes it smaller.\<close>

lemma placeholder_estimate_mono:
  "estimated_bytes d b \<le> estimated_bytes d c \<Longrightarrow> segment_placeholder_size d b \<le> segment_placeholder_size d c"
  by (auto simp: segment_placeholder_size_def Let_def max_def min_def)

lemma placeholder_bounds:
  "4096 \<le> segment_placeholder_size d b" "segment_placeholder_size d b \<le> 262144"
  "segment_placeholder_size d b \<le> segment_placeholder_size d None"
proof -
  have "estimated_bytes d b \<le> estimated_bytes d None"
    by (simp add: estimated_bytes_def Let_def split: option.split)
  then show "segment_placeholder_size d b \<le> segment_placeholder_size d None"
    by (rule placeholder_estimate_mono)
  show "4096 \<le> segment_placeholder_size d b" "segment_placeholder_size d b \<le> 262144"
    by (simp_all add: segment_placeholder_size_def Let_def)
qed

lemma placeholder_mono:
  assumes "b \<le> c" "0 < b"
  shows "segment_placeholder_size d (Some b) \<le> segment_placeholder_size d (Some c)"
proof (rule placeholder_estimate_mono)
  have "(b * d + 7999999999) div 8000000000 \<le> (c * d + 7999999999) div 8000000000"
    using assms(1) by (intro div_le_mono) simp
  then show "estimated_bytes d (Some b) \<le> estimated_bytes d (Some c)"
    using assms by (simp add: estimated_bytes_def Let_def)
qed

subsection \<open>What the operations keep\<close>

text \<open>The layout is published and was computed from the sizes the segments have now; an exact size is
  read and routed alike; the cells are between two writes and name a segment of the variant; only a
  container addressed by bytes has a demand, and only one that is not has a tail.\<close>

definition sized :: "segment_size \<Rightarrow> bool" where
  "sized z \<longleftrightarrow> (is_exact z \<longrightarrow> read_bytes z = route_bytes z)"

definition init_sized :: "hls_variant \<Rightarrow> bool" where
  "init_sized v = (case hv_init v of None \<Rightarrow> True | Some s \<Rightarrow> sized (seg_size s))"

definition geometry_ok :: "hls_variant \<Rightarrow> bool" where
  "geometry_ok v \<longleftrightarrow> length (hv_segments v) < u32_max \<and> canonical (media_sizes v) (hv_frame v)
     \<and> view_ok (media_sizes v) (init_route_size v) (hv_layout v) \<and> even (publication_seq (hv_layout v))
     \<and> list_all sized (media_sizes v) \<and> init_sized v"

definition names_segment :: "hls_variant \<Rightarrow> anchor_cell \<Rightarrow> bool" where
  "names_segment v c \<longleftrightarrow> even (at_version c) \<and> at_active c \<le> at_next_gen c
     \<and> (at_active c \<noteq> 0 \<longrightarrow> at_segment c < length (hv_segments v))"

definition cells_ok :: "hls_variant \<Rightarrow> bool" where
  "cells_ok v \<longleftrightarrow> names_segment v (al_base (hv_alias v)) \<and> names_segment v (hv_demand v)
     \<and> (\<not> hv_exact v \<longrightarrow> at_active (hv_demand v) = 0 \<and> hv_byte_demand v = None)
     \<and> (hv_exact v \<longrightarrow> hv_tail v = no_seek_tail)"

definition hv_inv :: "hls_variant \<Rightarrow> bool" where
  "hv_inv v \<longleftrightarrow> geometry_ok v \<and> cells_ok v"

text \<open>What an operation that is not a settle leaves alone.\<close>

definition same_geometry :: "hls_variant \<Rightarrow> hls_variant \<Rightarrow> bool" where
  "same_geometry v v' \<longleftrightarrow> hv_exact v' = hv_exact v \<and> hv_init v' = hv_init v \<and> hv_segments v' = hv_segments v
     \<and> hv_layout v' = hv_layout v"

lemma same_geometry_refl [simp]: "same_geometry v v"
  by (simp add: same_geometry_def)

lemma same_geometry_trans: "same_geometry u v \<Longrightarrow> same_geometry v w \<Longrightarrow> same_geometry u w"
  by (simp add: same_geometry_def)

lemma same_geometryD:
  assumes "same_geometry v v'"
  shows "media_sizes v' = media_sizes v" "init_route_size v' = init_route_size v" "geometry_ok v' = geometry_ok v"
    "hv_offset i v' = hv_offset i v" "exact_prefix_complete_now i v' = exact_prefix_complete_now i v"
    "exact_init_complete v' = exact_init_complete v" "stable v' x = stable v x" "exact_anchor_now i v' = exact_anchor_now i v"
    "names_segment v' = names_segment v"
  using assms
  by (simp_all add: same_geometry_def media_sizes_def init_route_size_def geometry_ok_def init_sized_def hv_offset_def
      exact_prefix_complete_now_def exact_init_complete_def stable_def exact_anchor_now_def names_segment_def fun_eq_iff)

lemma request_exact_size_fields:
  "same_geometry v (request_exact_size d v)" "hv_alias (request_exact_size d v) = hv_alias v"
  "hv_demand (request_exact_size d v) = hv_demand v" "hv_byte_demand (request_exact_size d v) = hv_byte_demand v"
  "hv_tail (request_exact_size d v) = hv_tail v" "hv_deferred (request_exact_size d v) = hv_deferred v"
  by (simp_all add: request_exact_size_def same_geometry_def)

text \<open>Such an operation only asks for sizes.\<close>

definition only_asks :: "hls_variant \<Rightarrow> hls_variant \<Rightarrow> bool" where
  "only_asks v v' \<longleftrightarrow> same_geometry v v' \<and> hv_alias v' = hv_alias v \<and> hv_demand v' = hv_demand v
     \<and> hv_byte_demand v' = hv_byte_demand v \<and> hv_tail v' = hv_tail v \<and> hv_deferred v' = hv_deferred v"

lemma only_asks_refl [simp]: "only_asks v v"
  by (simp add: only_asks_def)

lemma only_asks_trans: "only_asks u v \<Longrightarrow> only_asks v w \<Longrightarrow> only_asks u w"
  by (auto simp: only_asks_def intro: same_geometry_trans)

lemma request_only_asks: "only_asks v (request_exact_size d v)"
  by (simp add: only_asks_def request_exact_size_fields)

lemma fold_only_asks: "(\<And>x u. only_asks u (f x u)) \<Longrightarrow> only_asks v (fold f xs v)"
  by (induction xs arbitrary: v) (auto intro: only_asks_trans)

lemma request_prefix_only_asks: "only_asks v (request_exact_prefix_through seg v)"
proof -
  have "only_asks u (fold (\<lambda>idx u. case slice_get (media_sizes u) idx of
             Some s \<Rightarrow> if is_exact s then u else request_exact_size (DemandSegment idx) u
           | None \<Rightarrow> u) xs u)" for xs u
    by (rule fold_only_asks) (auto simp: request_only_asks split: option.split)
  then have "only_asks u (fold (\<lambda>idx u. case slice_get (media_sizes u) idx of
             Some s \<Rightarrow> if is_exact s then u else request_exact_size (DemandSegment idx) u
           | None \<Rightarrow> u) xs u')" if "only_asks u u'" for xs u u'
    using that only_asks_trans by blast
  then show ?thesis
    unfolding request_exact_prefix_through_def Let_def by (simp add: request_only_asks del: upt_Suc)
qed

lemma request_byte_only_asks: "only_asks v (request_exact_prefix_for_byte byte v)"
  by (auto simp: request_exact_prefix_for_byte_def Let_def request_only_asks request_prefix_only_asks split: option.split)

lemma only_asks_cells: "only_asks v v' \<Longrightarrow> cells_ok v' = cells_ok v"
  by (simp add: only_asks_def cells_ok_def same_geometry_def names_segment_def)

lemma only_asks_inv: "only_asks v v' \<Longrightarrow> hv_inv v' = hv_inv v"
  using only_asks_cells [of v v'] same_geometryD(3) [of v v'] by (simp add: hv_inv_def only_asks_def)

lemma stable_even: "even (publication_seq (hv_layout v)) \<Longrightarrow> stable v x = x"
  by (cases x) (simp_all add: stable_def try_published_def)

lemma stable_ok: "geometry_ok v \<Longrightarrow> stable v x = x"
  by (simp add: geometry_ok_def stable_even)

text \<open>The offsets of a variant are the sums of the sizes in front.\<close>

definition natural_start :: "hls_variant \<Rightarrow> nat \<Rightarrow> nat" where
  "natural_start v i = init_route_size v + sum_list (take i (map size_get (media_sizes v)))"

definition stream_fits :: "hls_variant \<Rightarrow> bool" where
  "stream_fits v \<longleftrightarrow> init_route_size v + sum_list (map size_get (media_sizes v)) \<le> i64_max"

lemma length_media_sizes [simp]: "length (media_sizes v) = length (hv_segments v)"
  by (simp add: media_sizes_def)

lemma geometry_offsets:
  assumes "geometry_ok v" "i < length (hv_segments v)"
  shows "offsets (hv_frame v) ! i = natural_start v i" "length (offsets (hv_frame v)) = length (hv_segments v)"
    "natural_offset i (hv_layout v) = Some (natural_start v i)"
proof -
  have laid: "laid_out (init_route_size v) (media_sizes v) (hv_frame v)"
    using assms(1) by (simp add: geometry_ok_def view_ok_def)
  then show "length (offsets (hv_frame v)) = length (hv_segments v)"
    by (simp add: laid_out_def)
  moreover show "offsets (hv_frame v) ! i = natural_start v i"
    using offsets_nth [OF laid, of i] assms(2) by (simp add: natural_start_def)
  ultimately show "natural_offset i (hv_layout v) = Some (natural_start v i)"
    using assms(2) by (simp add: natural_offset_def slice_get_def)
qed

lemma hv_offset_is_natural:
  assumes "geometry_ok v" "stream_fits v" "i < length (hv_segments v)"
  shows "hv_offset i v = Some (natural_start v i)"
proof -
  have laid: "laid_out (init_route_size v) (media_sizes v) (hv_frame v)" and shift: "byte_shift (hv_frame v) = 0"
    using assms(1) by (simp_all add: geometry_ok_def view_ok_def canonical_def)
  then have "natural_start v i \<le> i64_max"
    using segment_end_le [OF laid, of i] assms geometry_offsets [OF assms(1,3)] by (simp add: stream_fits_def)
  then show ?thesis
    using segment_byte_offset_Some [OF laid, of i "natural_start v i"] assms geometry_offsets [OF assms(1,3)] shift
    by (simp add: hv_offset_def stream_fits_def)
qed

lemma hv_lookup_is_natural:
  assumes "geometry_ok v" "stream_fits v"
  shows "find_virtual byte (media_sizes v) (hv_frame v) = Some (i, off, len) \<longleftrightarrow>
    byte \<le> i64_max \<and> i < length (hv_segments v) \<and> off = natural_start v i \<and> len = size_get (media_sizes v ! i)
    \<and> off \<le> byte \<and> byte < off + len"
proof -
  have laid: "laid_out (init_route_size v) (media_sizes v) (hv_frame v)" and small: "length (media_sizes v) \<le> u32_max"
    and canon: "served_from (hv_frame v) = 0" "served_until (hv_frame v) = length (hv_segments v)"
    using assms(1) by (simp_all add: geometry_ok_def view_ok_def canonical_def)
  have "segment_byte_offset i (hv_frame v) = Some off \<longleftrightarrow> off = natural_start v i" if "i < length (hv_segments v)"
    using hv_offset_is_natural [OF assms that] by (auto simp: hv_offset_def)
  then show ?thesis
    using find_virtual_spec [OF laid small, of byte i off len] assms(2) canon by (auto simp: stream_fits_def)
qed


subsection \<open>Calls\<close>

text \<open>The calls of the reader, the settles and the peer, in any order.\<close>

datatype hv_call =
    Seek duration | SeekToByte nat bool | PollSeek | PollBytes | Advance nat nat
  | Commit planned_fetch nat | ProbeEnd size_demand "nat option" bool | PopSizeDemand
  | ResetForSeek | ResetToFullRange | DeferPrefetch nat | TakeResume nat

definition hv_step :: "hv_call \<Rightarrow> hls_variant \<Rightarrow> hls_variant" where
  "hv_step c v = (case c of
     Seek t \<Rightarrow> snd (prepare_seek_time_anchor t v)
   | SeekToByte pos moved \<Rightarrow> register_session_seek pos moved v
   | PollSeek \<Rightarrow> snd (exact_seek_metadata_phase v)
   | PollBytes \<Rightarrow> snd (exact_byte_metadata_phase v)
   | Advance pos bytes \<Rightarrow> (case projected_position pos v of (p, v) \<Rightarrow> snd (advance_from p bytes v))
   | Commit p len \<Rightarrow> apply_commit p len v
   | ProbeEnd d header_len failed \<Rightarrow> finish_size_probe d header_len failed v
   | PopSizeDemand \<Rightarrow> v\<lparr>hv_size_demands := snd (pop_dispatchable (hv_size_demands v))\<rparr>
   | ResetForSeek \<Rightarrow> reset_layout_to_full_range v
   | ResetToFullRange \<Rightarrow> reset_to_full_range v
   | DeferPrefetch byte \<Rightarrow> v\<lparr>hv_resume_at := byte\<rparr>
   | TakeResume consumed \<Rightarrow> snd (take_prefetch_resume_at consumed v))"

definition hv_run :: "hv_call list \<Rightarrow> hls_variant \<Rightarrow> hls_variant" where
  "hv_run = fold hv_step"

lemma hv_run_simps [simp]: "hv_run [] v = v" "hv_run (c # cs) v = hv_run cs (hv_step c v)"
  by (simp_all add: hv_run_def)

lemma names_segment_cells:
  "names_segment v cell_new"
  "names_segment v c \<Longrightarrow> s < length (hv_segments v) \<Longrightarrow> names_segment v (cell_set s a c)"
  "names_segment v c \<Longrightarrow> names_segment v (clear c)"
  "names_segment v c \<Longrightarrow> names_segment v (snd (clear_if_generation g c))"
  by (simp_all add: names_segment_def cell_new_def cell_set_def next_gen_def clear_def clear_if_generation_def)

lemma cell_load_even: "even (at_version c) \<Longrightarrow> cell_load c =
    (if at_active c = 0 then None else Some (at_active c, at_segment c, at_anchor c))"
  by (simp add: cell_load_def)

lemma cell_load_inactive [simp]: "at_active c = 0 \<Longrightarrow> cell_load c = None" "cell_load (clear c) = None"
  by (simp_all add: cell_load_def clear_def)

lemma clear_if_generation_inactive: "at_active c = 0 \<Longrightarrow> at_active (snd (clear_if_generation g c)) = 0"
  by (simp add: clear_if_generation_def)

lemma alias_bases [simp]:
  "al_base (alias_clear_now c) = clear (al_base c)" "al_base (alias_resolve_now s a x c) = al_base c"
  "al_base (alias_set_now a s c) = cell_set s a (al_base c)"
  "al_base (snd (alias_clear_if_now g c)) = snd (clear_if_generation g (al_base c))"
  by (auto simp: alias_clear_now_def alias_resolve_now_def alias_set_now_def alias_clear_if_now_def clear_if_generation_def
      split: option.split)

lemma complete_fields:
  "same_geometry v (complete_exact_seek_if_ready v)" "hv_demand (complete_exact_seek_if_ready v) = hv_demand v"
  "hv_byte_demand (complete_exact_seek_if_ready v) = hv_byte_demand v" "hv_tail (complete_exact_seek_if_ready v) = hv_tail v"
  "hv_deferred (complete_exact_seek_if_ready v) = hv_deferred v"
  "al_base (hv_alias (complete_exact_seek_if_ready v)) = al_base (hv_alias v)"
  "hv_plan (complete_exact_seek_if_ready v) = hv_plan v"
  "hv_size_demands (complete_exact_seek_if_ready v) = hv_size_demands v"
  by (auto simp: complete_exact_seek_if_ready_def resolve_seek_alias_def same_geometry_def split: option.split)

lemma same_geometry_cells:
  assumes "same_geometry v v'" "names_segment v (al_base (hv_alias v'))" "names_segment v (hv_demand v')"
    "\<not> hv_exact v \<longrightarrow> at_active (hv_demand v') = 0 \<and> hv_byte_demand v' = None" "hv_exact v \<longrightarrow> hv_tail v' = no_seek_tail"
    "hv_inv v"
  shows "hv_inv v'"
  using assms same_geometryD [OF assms(1)] by (auto simp: hv_inv_def cells_ok_def same_geometry_def)

lemma complete_inv: "hv_inv v \<Longrightarrow> hv_inv (complete_exact_seek_if_ready v)"
  by (rule same_geometry_cells [OF complete_fields(1)]) (simp_all add: complete_fields hv_inv_def cells_ok_def)

lemma clear_exact_seek_inv: "hv_inv v \<Longrightarrow> hv_inv (clear_exact_seek v)"
  by (rule same_geometry_cells [of v])
    (simp_all add: clear_exact_seek_def same_geometry_def hv_inv_def cells_ok_def names_segment_cells, simp add: clear_def)

lemma clear_seek_alias_inv: "hv_inv v \<Longrightarrow> hv_inv (clear_seek_alias v)"
  by (rule same_geometry_cells [of v])
    (simp_all add: clear_seek_alias_def same_geometry_def hv_inv_def cells_ok_def names_segment_cells)

lemma set_exact_seek_demand_inv:
  assumes "hv_inv v" "segment < length (hv_segments v)"
  shows "hv_inv (set_exact_seek_demand anchor segment v)"
proof -
  have "hv_inv (v\<lparr>hv_demand := cell_set segment anchor (hv_demand v)\<rparr>)" if "hv_exact v"
    by (rule same_geometry_cells [of v])
      (use that assms in \<open>simp_all add: same_geometry_def hv_inv_def cells_ok_def names_segment_cells\<close>)
  then show ?thesis
    using assms(1) only_asks_inv [OF request_prefix_only_asks] clear_exact_seek_inv complete_inv
    by (auto simp: set_exact_seek_demand_def Let_def split: option.split)
qed

lemma set_exact_byte_seek_demand_inv:
  assumes "hv_inv v"
  shows "hv_inv (set_exact_byte_seek_demand byte v)"
proof -
  have "hv_inv (v\<lparr>hv_byte_demand := x\<rparr>)" if "hv_exact v \<or> x = None" for x
    by (rule same_geometry_cells [of v]) (use that assms in \<open>auto simp: same_geometry_def hv_inv_def cells_ok_def\<close>)
  then show ?thesis
    using only_asks_inv [OF request_byte_only_asks] by (auto simp: set_exact_byte_seek_demand_def)
qed

lemma index_at_time_less: "index_at_time t v = Some i \<Longrightarrow> i < length (hv_segments v)"
  by (auto simp: index_at_time_def min_less_iff_disj split: if_splits)

lemma seek_point_less: "seek_point_at_time t v = Some (i, a, b) \<Longrightarrow> i < length (hv_segments v)"
  by (auto simp: seek_point_at_time_def Option.bind_eq_Some_conv slice_get_def u32_of_usize_def split: if_splits)

lemma prepare_inv:
  assumes "hv_inv v"
  shows "hv_inv (snd (prepare_seek_time_anchor t v))"
proof -
  have "hv_inv (set_exact_seek_demand byte seg (set_segment_aware_seek_tail tail
      (v\<lparr>hv_prefetch_anchor := p, hv_alias := alias_set_now byte seg (hv_alias v)\<rparr>))\<lparr>hv_wait_end := 0\<rparr>)" (is "hv_inv (?w\<lparr>hv_wait_end := 0\<rparr>)")
    if "seg < length (hv_segments v)" for seg byte tail p
  proof -
    have "hv_inv (set_segment_aware_seek_tail tail (v\<lparr>hv_prefetch_anchor := p, hv_alias := alias_set_now byte seg (hv_alias v)\<rparr>))"
      by (rule same_geometry_cells [of v])
        (use that assms in \<open>auto simp: same_geometry_def set_segment_aware_seek_tail_def hv_inv_def cells_ok_def
          names_segment_cells\<close>)
    then have inv: "hv_inv ?w"
      by (rule set_exact_seek_demand_inv) (use that in \<open>simp add: set_segment_aware_seek_tail_def\<close>)
    show ?thesis
      by (rule same_geometry_cells [of ?w]) (use inv in \<open>simp_all add: same_geometry_def hv_inv_def cells_ok_def\<close>)
  qed
  then show ?thesis
    using assms
    by (auto simp: prepare_seek_time_anchor_def Let_def dest: seek_point_less split: option.split)
qed


text \<open>A settle changes sizes, never their number, and publishes a layout computed from them.\<close>

definition resized :: "hls_variant \<Rightarrow> hls_variant \<Rightarrow> bool" where
  "resized v v' \<longleftrightarrow> hv_exact v' = hv_exact v \<and> length (hv_segments v') = length (hv_segments v) \<and> hv_layout v' = hv_layout v
     \<and> hv_alias v' = hv_alias v \<and> hv_demand v' = hv_demand v \<and> hv_byte_demand v' = hv_byte_demand v
     \<and> (hv_tail v' = hv_tail v \<or> hv_tail v' = no_seek_tail)
     \<and> (list_all sized (media_sizes v) \<longrightarrow> list_all sized (media_sizes v'))
     \<and> (init_sized v \<longrightarrow> init_sized v')"

lemma resized_refl [simp]: "resized v v"
  by (simp add: resized_def)

lemma resized_trans: "resized u v \<Longrightarrow> resized v w \<Longrightarrow> resized u w"
  unfolding resized_def by (elim conjE disjE) simp_all

lemma sized_exact [simp]: "sized (set_exact n z)"
  by (simp add: sized_def set_exact_def)

lemma sized_if_unknown: "sized z \<Longrightarrow> sized (snd (set_exact_if_unknown n z))"
  by (simp add: set_exact_if_unknown_def)

lemma set_seg_size_resized:
  assumes "\<And>z. sized z \<Longrightarrow> sized (f z)"
  shows "resized v (set_seg_size f d v)"
  using assms
  by (cases d) (auto simp: resized_def set_seg_size_def media_sizes_def list_all_length nth_list_update init_sized_def split: option.splits)

lemma apply_loaded_size_resized: "resized v (apply_loaded_size p len v)"
  by (simp add: apply_loaded_size_def set_seg_size_resized)

lemma fold_loaded_resized: "resized v (fold (\<lambda>(idx, len). apply_loaded_size (Segment idx) len) xs v)"
proof (induction xs arbitrary: v)
  case (Cons x xs)
  then show ?case
    by (cases x) (auto intro: resized_trans [OF apply_loaded_size_resized])
qed simp

lemma publish_geometry:
  assumes "geometry_ok v" "resized v w"
  shows "geometry_ok (publish m w)"
proof -
  have len: "length (hv_segments w) = length (hv_segments v)" and lay: "hv_layout w = hv_layout v"
    using assms(2) by (simp_all add: resized_def)
  note mutated = mutate_canonical [where segs = "media_sizes v" and f = "hv_frame v" and segs' = "media_sizes w" and m = m
      and init_size = "init_route_size w"]
  have fields: "media_sizes (publish m w) = media_sizes w" "init_route_size (publish m w) = init_route_size w"
    "hv_segments (publish m w) = hv_segments w" "hv_init (publish m w) = hv_init w"
    by (simp_all add: publish_def media_sizes_def init_route_size_def)
  have "view_ok (media_sizes w) (init_route_size w) (hv_layout (publish m w))"
    using assms mutated len lay
    by (simp add: publish_def mutate_frame_def republish_def Let_def view_ok_def frame_snapshot_of_def geometry_ok_def)
  moreover have "canonical (media_sizes w) (hv_frame (publish m w))"
    using assms mutated len lay
    by (simp add: publish_def mutate_frame_def republish_def Let_def geometry_ok_def)
  moreover have "even (publication_seq (hv_layout (publish m w)))"
    using assms lay by (simp add: publish_def mutate_frame_def republish_def Let_def geometry_ok_def)
  moreover have "list_all sized (media_sizes w)" "init_sized (publish m w)" "length (hv_segments w) < u32_max"
    using assms len by (simp_all add: geometry_ok_def resized_def publish_def init_sized_def)
  ultimately show ?thesis
    unfolding geometry_ok_def fields by blast
qed

lemma publish_inv:
  assumes "hv_inv v" "resized v w"
  shows "hv_inv (publish m w)"
proof -
  have "cells_ok (publish m w)"
    using assms by (auto simp: hv_inv_def cells_ok_def resized_def publish_def names_segment_def)
  then show ?thesis
    using publish_geometry [of v w m] assms by (simp add: hv_inv_def)
qed

lemma deferred_resized: "defer_prefix_settle p len v = Some w \<Longrightarrow> resized v w"
  by (auto simp: defer_prefix_settle_def resized_def media_sizes_def init_sized_def split: if_splits planned_fetch.splits)

lemma apply_commit_inv: "hv_inv v \<Longrightarrow> hv_inv (apply_commit p len v)"
  unfolding apply_commit_def
  by (intro complete_inv publish_inv) (auto intro: deferred_resized apply_loaded_size_resized split: option.split)

lemma store_resolved_size_inv: "hv_inv v \<Longrightarrow> hv_inv (snd (store_resolved_size d len v))"
  by (auto simp: store_resolved_size_def intro: publish_inv set_seg_size_resized sized_if_unknown split: option.split)

lemma apply_resolved_size_inv: "hv_inv v \<Longrightarrow> hv_inv (snd (apply_resolved_size d len v))"
  using store_resolved_size_inv [of v d len] complete_inv by (auto simp: apply_resolved_size_def split: prod.split)

lemma indifferent_inv:
  "hv_inv (v\<lparr>hv_size_demands := x\<rparr>) = hv_inv v" "hv_inv (v\<lparr>hv_resume_at := n\<rparr>) = hv_inv v"
  "hv_inv (v\<lparr>hv_prefetch_anchor := n\<rparr>) = hv_inv v" "hv_inv (v\<lparr>hv_wait_end := n\<rparr>) = hv_inv v"
  by (simp_all add: hv_inv_def geometry_ok_def cells_ok_def names_segment_def media_sizes_def init_route_size_def init_sized_def)

lemma finish_size_probe_inv: "hv_inv v \<Longrightarrow> hv_inv (finish_size_probe d h e v)"
  by (simp add: finish_size_probe_def Let_def indifferent_inv apply_resolved_size_inv)

lemma reset_layout_inv:
  assumes "hv_inv v"
  shows "hv_inv (reset_layout_to_full_range v)"
proof -
  let ?w = "v\<lparr>hv_tail := no_seek_tail, hv_deferred := []\<rparr>"
  have "resized v ?w"
    by (simp add: resized_def media_sizes_def init_sized_def)
  then have "resized v (fold (\<lambda>(idx, len). apply_loaded_size (Segment idx) len) xs ?w)" for xs
    using fold_loaded_resized resized_trans by blast
  then show ?thesis
    using assms by (auto simp: reset_layout_to_full_range_def Let_def intro: publish_inv)
qed

lemma reset_to_full_range_inv: "hv_inv v \<Longrightarrow> hv_inv (reset_to_full_range v)"
proof -
  assume "hv_inv v"
  then have inv: "hv_inv (clear_exact_seek (clear_seek_alias v))" (is "hv_inv ?w")
    by (intro clear_exact_seek_inv clear_seek_alias_inv)
  have "hv_inv (?w\<lparr>hv_byte_demand := None\<rparr>)"
    by (rule same_geometry_cells [of ?w]) (use inv in \<open>auto simp: same_geometry_def hv_inv_def cells_ok_def\<close>)
  then show ?thesis
    by (simp add: reset_to_full_range_def reset_layout_inv)
qed

lemma retire_seek_projection_inv:
  assumes "hv_inv v"
  shows "hv_inv (retire_seek_projection p v)"
proof (cases "alias_clear_if_now (proj_alias_generation p) (hv_alias v)")
  case (Pair cleared al)
  then have base: "al_base al = snd (clear_if_generation (proj_alias_generation p) (al_base (hv_alias v)))"
    using alias_bases(4) [of "proj_alias_generation p" "hv_alias v"] by simp
  let ?v = "v\<lparr>hv_alias := al\<rparr>"
  have al: "hv_inv ?v"
    by (rule same_geometry_cells [of v])
      (use assms base in \<open>auto simp: same_geometry_def hv_inv_def cells_ok_def names_segment_cells\<close>)
  have "hv_inv (?v\<lparr>hv_demand := snd (clear_if_generation g (hv_demand v))\<rparr>)" for g
    by (rule same_geometry_cells [of ?v])
      (use al in \<open>auto simp: same_geometry_def hv_inv_def cells_ok_def names_segment_cells clear_if_generation_inactive\<close>)
  then show ?thesis
    using Pair assms al by (auto simp: retire_seek_projection_def Let_def split: bool.split option.split)
qed

lemma retire_if_moved_inv: "hv_inv v \<Longrightarrow> hv_inv (retire_seek_projection_if_moved pos v)"
  by (auto simp: retire_seek_projection_if_moved_def clear_exact_seek_inv clear_seek_alias_inv split: option.split)

lemma register_session_seek_inv: "hv_inv v \<Longrightarrow> hv_inv (register_session_seek pos moved v)"
  by (auto simp: register_session_seek_def Let_def indifferent_inv clear_exact_seek_inv clear_seek_alias_inv
      intro: set_exact_byte_seek_demand_inv split: option.split)

lemma metadata_phase_inv: "hv_inv v \<Longrightarrow> hv_inv (snd (exact_seek_metadata_phase v))"
  using complete_inv [of v] only_asks_inv [OF request_prefix_only_asks]
  by (auto simp: exact_seek_metadata_phase_def Let_def split: option.split)

lemma byte_metadata_phase_inv:
  assumes "hv_inv v"
  shows "hv_inv (snd (exact_byte_metadata_phase v))"
proof -
  have "hv_inv (v\<lparr>hv_byte_demand := None\<rparr>)"
    by (rule same_geometry_cells [of v]) (use assms in \<open>auto simp: same_geometry_def hv_inv_def cells_ok_def\<close>)
  then show ?thesis
    using assms only_asks_inv [OF request_byte_only_asks] by (auto simp: exact_byte_metadata_phase_def split: option.split)
qed

lemma advance_inv:
  assumes "hv_inv v"
  shows "hv_inv (hv_step (Advance pos bytes) v)"
proof -
  have "hv_inv (snd (projected_position pos v))"
    using assms by (auto simp: projected_position_def indifferent_inv split: option.split)
  moreover have "hv_inv w \<Longrightarrow> hv_inv (snd (advance_from p bytes w))" for p w
    by (auto simp: advance_from_def Let_def retire_seek_projection_inv retire_if_moved_inv split: option.split)
  ultimately show ?thesis
    by (auto simp: hv_step_def split: prod.split)
qed

lemma hv_step_inv: "hv_inv v \<Longrightarrow> hv_inv (hv_step c v)"
  using advance_inv
  by (cases c) (simp_all add: hv_step_def prepare_inv register_session_seek_inv metadata_phase_inv byte_metadata_phase_inv
      apply_commit_inv finish_size_probe_inv indifferent_inv reset_layout_inv reset_to_full_range_inv take_prefetch_resume_at_def)

lemma hv_run_inv: "hv_inv v \<Longrightarrow> hv_inv (hv_run cs v)"
  by (induction cs arbitrary: v) (simp_all add: hv_step_inv)

lemma into_variant_inv:
  assumes "length segs < u32_max" "list_all sized (map seg_size segs)" "\<And>s. init = Some s \<Longrightarrow> sized (seg_size s)"
  shows "hv_inv (into_variant e init segs)"
proof -
  have "canonical (map seg_size segs) (lay_frame (layout_new n (map seg_size segs)))
      \<and> view_ok (map seg_size segs) n (layout_new n (map seg_size segs))
      \<and> even (publication_seq (layout_new n (map seg_size segs)))" for n
    using layout_new_ok [of "map seg_size segs" n] assms(1) by simp
  moreover have "at_active cell_new = 0"
    by (simp add: cell_new_def)
  ultimately show ?thesis
    using assms
    by (simp add: hv_inv_def geometry_ok_def cells_ok_def into_variant_def media_sizes_def init_route_size_def alias_new_def
        init_sized_def names_segment_cells split: option.split)
qed


subsection \<open>A live tail freezes the stream\<close>

lemma frame_eqI:
  assumes "canonical segs f" "canonical segs g" "laid_out c segs f" "laid_out c segs g"
  shows "f = g"
  using assms by (simp add: canonical_def laid_out_def)

lemma mutate_frame_fields:
  "lay_frame (mutate_frame m segs n l) = mutate m segs n (lay_frame l)"
  "lay_total (mutate_frame m segs n l) = frame_total_bytes segs n (mutate m segs n (lay_frame l))"
  "lay_sizes_complete (mutate_frame m segs n l) = frame_sizes_complete segs (mutate m segs n (lay_frame l))"
  "even (publication_seq (mutate_frame m segs n l)) = even (publication_seq l)"
  by (simp_all add: mutate_frame_def republish_def Let_def frame_snapshot_of_def)

lemma republish_unchanged:
  assumes "geometry_ok v"
  shows "lay_frame (mutate_frame m (media_sizes v) (init_route_size v) (hv_layout v)) = hv_frame v"
    "lay_total (mutate_frame m (media_sizes v) (init_route_size v) (hv_layout v)) = lay_total (hv_layout v)"
    "lay_sizes_complete (mutate_frame m (media_sizes v) (init_route_size v) (hv_layout v)) = lay_sizes_complete (hv_layout v)"
proof -
  have canon: "canonical (media_sizes v) (hv_frame v)" and view: "view_ok (media_sizes v) (init_route_size v) (hv_layout v)"
    and small: "length (media_sizes v) \<le> u32_max"
    using assms by (simp_all add: geometry_ok_def)
  note new = mutate_canonical [OF canon refl small, where m = m and init_size = "init_route_size v"]
  have "mutate m (media_sizes v) (init_route_size v) (hv_frame v) = hv_frame v"
    by (rule frame_eqI [OF new(1) canon new(2)]) (use view in \<open>simp add: view_ok_def\<close>)
  then show "lay_frame (mutate_frame m (media_sizes v) (init_route_size v) (hv_layout v)) = hv_frame v"
    "lay_total (mutate_frame m (media_sizes v) (init_route_size v) (hv_layout v)) = lay_total (hv_layout v)"
    "lay_sizes_complete (mutate_frame m (media_sizes v) (init_route_size v) (hv_layout v)) = lay_sizes_complete (hv_layout v)"
    using view by (simp_all add: mutate_frame_fields view_ok_def)
qed

text \<open>Two variants that answer alike: same sizes, same frame, same published totals, same alias.\<close>

definition answers_alike :: "hls_variant \<Rightarrow> hls_variant \<Rightarrow> bool" where
  "answers_alike v w \<longleftrightarrow> hv_exact w = hv_exact v \<and> hv_init w = hv_init v \<and> hv_segments w = hv_segments v
     \<and> hv_frame w = hv_frame v \<and> lay_total (hv_layout w) = lay_total (hv_layout v)
     \<and> lay_sizes_complete (hv_layout w) = lay_sizes_complete (hv_layout v)
     \<and> even (publication_seq (hv_layout w)) = even (publication_seq (hv_layout v))
     \<and> hv_alias w = hv_alias v \<and> hv_tail w = hv_tail v"

lemma stable_parity: "stable v x = (if even (publication_seq (hv_layout v)) then x else None)"
  by (cases x) (simp_all add: stable_def try_published_def)

lemma alike_answers:
  assumes "answers_alike v w"
  shows "find_at_offset b w = find_at_offset b v" "hv_total w = hv_total v" "eof_at b w = eof_at b v"
    "descriptor k w = descriptor k v" "descriptor_at_byte b w = descriptor_at_byte b v" "hv_offset k w = hv_offset k v"
proof -
  have sizes: "media_sizes w = media_sizes v"
    using assms by (simp add: answers_alike_def media_sizes_def)
  have aliased: "seek_alias_at x w = seek_alias_at x v" for x
    using assms sizes
    by (simp add: answers_alike_def seek_alias_at_def segment_aware_seek_alias_at_def segment_len_def cong: if_cong)
  show lookup: "find_at_offset b w = find_at_offset b v"
    using assms sizes aliased by (simp add: answers_alike_def find_at_offset_def split: option.split)
  show total: "hv_total w = hv_total v"
    using assms by (simp add: answers_alike_def hv_total_def)
  show "eof_at b w = eof_at b v"
    using assms sizes by (simp add: eof_at_def total stable_parity answers_alike_def eof_ready_def sizes_complete_def
        segment_aware_seek_tail_complete_def)
  have "descriptor_offset k w = descriptor_offset k v"
    using assms sizes
    by (simp add: descriptor_offset_def answers_alike_def natural_offset_def cong: if_cong option.case_cong)
  then show "descriptor k w = descriptor k v"
    using assms sizes by (simp add: descriptor_def segment_len_def answers_alike_def)
  show "descriptor_at_byte b w = descriptor_at_byte b v"
    using assms by (simp add: descriptor_at_byte_def lookup answers_alike_def)
  show "hv_offset k w = hv_offset k v"
    using assms by (simp add: hv_offset_def answers_alike_def)
qed

lemma no_demand_no_completion: "cell_load (hv_demand v) = None \<Longrightarrow> complete_exact_seek_if_ready v = v"
  by (simp add: complete_exact_seek_if_ready_def)

lemma live_tail:
  assumes "hv_inv v" "hv_tail v \<noteq> no_seek_tail"
  shows "\<not> hv_exact v" "at_active (hv_demand v) = 0"
  using assms by (auto simp: hv_inv_def cells_ok_def)

lemma parked:
  assumes "hv_inv v" "hv_tail v \<noteq> no_seek_tail" "i < hv_tail v"
  shows "apply_commit (Segment i) len v = publish ApplyCommit (v\<lparr>hv_deferred := hv_deferred v @ [(i, len)]\<rparr>)"
  using assms live_tail [OF assms(1,2)]
  by (simp add: apply_commit_def defer_prefix_settle_def no_demand_no_completion publish_def)

lemma parked_alike:
  assumes "hv_inv v" "hv_tail v \<noteq> no_seek_tail" "i < hv_tail v"
  shows "answers_alike v (apply_commit (Segment i) len v)"
proof -
  have geometry: "geometry_ok v"
    using assms(1) by (simp add: hv_inv_def)
  have fields: "media_sizes (v\<lparr>hv_deferred := x\<rparr>) = media_sizes v" "init_route_size (v\<lparr>hv_deferred := x\<rparr>) = init_route_size v" for x
    by (simp_all add: media_sizes_def init_route_size_def)
  show ?thesis
    unfolding parked [OF assms] publish_def fields
    using republish_unchanged [OF geometry, of ApplyCommit]
    by (simp add: answers_alike_def mutate_frame_fields(4))
qed

lemma loaded_segments_cong:
  "hv_segments w = hv_segments u
    \<Longrightarrow> hv_segments (apply_loaded_size (Segment i) n w) = hv_segments (apply_loaded_size (Segment i) n u)"
  by (simp add: apply_loaded_size_def set_seg_size_def)

lemma fold_loaded_segments:
  "hv_segments w = hv_segments u
    \<Longrightarrow> hv_segments (fold (\<lambda>(idx, len). apply_loaded_size (Segment idx) len) xs w)
      = hv_segments (fold (\<lambda>(idx, len). apply_loaded_size (Segment idx) len) xs u)"
proof (induction xs arbitrary: u w)
  case (Cons x xs)
  obtain i n where x: "x = (i, n)"
    by (cases x)
  from Cons.IH [OF loaded_segments_cong [OF Cons.prems, of i n]] show ?case
    by (simp add: x)
qed simp

lemma loaded_size_fields [simp]:
  "hv_init (apply_loaded_size (Segment i) n w) = hv_init w" "hv_deferred (apply_loaded_size (Segment i) n w) = hv_deferred w"
  "hv_tail (apply_loaded_size (Segment i) n w) = hv_tail w" "hv_exact (apply_loaded_size (Segment i) n w) = hv_exact w"
  "hv_demand (apply_loaded_size (Segment i) n w) = hv_demand w"
  by (simp_all add: apply_loaded_size_def set_seg_size_def)

lemma reset_sizes:
  assumes "\<not> layout_seek_invariant v"
  shows "hv_segments (reset_layout_to_full_range v)
      = hv_segments (fold (\<lambda>(idx, len). apply_loaded_size (Segment idx) len) (hv_deferred v) v)"
    "hv_init (reset_layout_to_full_range v) = hv_init v" "hv_deferred (reset_layout_to_full_range v) = []"
    "hv_tail (reset_layout_to_full_range v) = no_seek_tail" "hv_exact (reset_layout_to_full_range v) = hv_exact v"
    "hv_demand (reset_layout_to_full_range v) = hv_demand v"
proof -
  have "hv_init (fold (\<lambda>(idx, len). apply_loaded_size (Segment idx) len) xs w) = hv_init w
      \<and> hv_deferred (fold (\<lambda>(idx, len). apply_loaded_size (Segment idx) len) xs w) = hv_deferred w
      \<and> hv_tail (fold (\<lambda>(idx, len). apply_loaded_size (Segment idx) len) xs w) = hv_tail w
      \<and> hv_exact (fold (\<lambda>(idx, len). apply_loaded_size (Segment idx) len) xs w) = hv_exact w
      \<and> hv_demand (fold (\<lambda>(idx, len). apply_loaded_size (Segment idx) len) xs w) = hv_demand w" for xs w
    by (induction xs arbitrary: w) (simp_all split: prod.split)
  moreover have "hv_segments (fold (\<lambda>(idx, len). apply_loaded_size (Segment idx) len) (hv_deferred v)
      (v\<lparr>hv_tail := no_seek_tail, hv_deferred := []\<rparr>))
    = hv_segments (fold (\<lambda>(idx, len). apply_loaded_size (Segment idx) len) (hv_deferred v) v)"
    by (rule fold_loaded_segments) simp
  ultimately show "hv_segments (reset_layout_to_full_range v)
      = hv_segments (fold (\<lambda>(idx, len). apply_loaded_size (Segment idx) len) (hv_deferred v) v)"
    "hv_init (reset_layout_to_full_range v) = hv_init v" "hv_deferred (reset_layout_to_full_range v) = []"
    "hv_tail (reset_layout_to_full_range v) = no_seek_tail" "hv_exact (reset_layout_to_full_range v) = hv_exact v"
    "hv_demand (reset_layout_to_full_range v) = hv_demand v"
    using assms by (simp_all add: reset_layout_to_full_range_def Let_def publish_def)
qed

text \<open>The geometry of a variant is the one its sizes are laid out in anew.\<close>

lemma geometry_is_new:
  assumes "geometry_ok v"
  shows "hv_frame v = lay_frame (layout_new (init_route_size v) (media_sizes v))"
    "lay_total (hv_layout v) = lay_total (layout_new (init_route_size v) (media_sizes v))"
    "lay_sizes_complete (hv_layout v) = lay_sizes_complete (layout_new (init_route_size v) (media_sizes v))"
proof -
  let ?l = "layout_new (init_route_size v) (media_sizes v)"
  have "length (media_sizes v) \<le> u32_max"
    using assms by (simp add: geometry_ok_def media_sizes_def)
  from layout_new_ok [OF this, of "init_route_size v"]
  have fresh: "canonical (media_sizes v) (lay_frame ?l)" "view_ok (media_sizes v) (init_route_size v) ?l"
    by simp_all
  show frame: "hv_frame v = lay_frame ?l"
    by (rule frame_eqI [of "media_sizes v" _ _ "init_route_size v"]) (use assms fresh in \<open>simp_all add: geometry_ok_def view_ok_def\<close>)
  then show "lay_total (hv_layout v) = lay_total ?l" "lay_sizes_complete (hv_layout v) = lay_sizes_complete ?l"
    using assms fresh by (simp_all add: geometry_ok_def view_ok_def)
qed

text \<open>The segments with the parked sizes and then one more, in the order they arrived.\<close>

definition with_parked :: "nat \<Rightarrow> nat \<Rightarrow> hls_variant \<Rightarrow> hls_segment list" where
  "with_parked i len v = hv_segments (apply_loaded_size (Segment i) len
     (fold (\<lambda>(idx, n). apply_loaded_size (Segment idx) n) (hv_deferred v) v))"

lemma length_loaded: "length (hv_segments (apply_loaded_size p n w)) = length (hv_segments w)"
  by (simp add: apply_loaded_size_def set_seg_size_def split: planned_fetch.split)

lemma length_fold_loaded:
  "length (hv_segments (fold (\<lambda>(idx, n). apply_loaded_size (Segment idx) n) xs w)) = length (hv_segments w)"
  by (induction xs arbitrary: w) (simp_all add: length_loaded split: prod.split)

lemma with_parked_size:
  "i < length (hv_segments v) \<Longrightarrow> \<exists>s. seg_size (with_parked i len v ! i) = set_exact len s"
  using length_fold_loaded [of "hv_deferred v" v]
  by (auto simp: with_parked_def apply_loaded_size_def set_seg_size_def)

lemma parking_then_reset:
  assumes "hv_inv v" "hv_tail v \<noteq> no_seek_tail" "i < hv_tail v"
    and a_def: "a = reset_layout_to_full_range (apply_commit (Segment i) len v)"
  shows "hv_deferred a = [] \<and> hv_tail a = no_seek_tail \<and> hv_init a = hv_init v \<and> hv_segments a = with_parked i len v
    \<and> hv_frame a = lay_frame (layout_new (init_route_size a) (media_sizes a))
    \<and> lay_total (hv_layout a) = lay_total (layout_new (init_route_size a) (media_sizes a))
    \<and> lay_sizes_complete (hv_layout a) = lay_sizes_complete (layout_new (init_route_size a) (media_sizes a))"
proof -
  let ?p = "apply_commit (Segment i) len v"
  have p: "hv_segments ?p = hv_segments v" "hv_init ?p = hv_init v" "hv_deferred ?p = hv_deferred v @ [(i, len)]"
    by (simp_all add: parked [OF assms(1-3)] publish_def)
  then have "\<not> layout_seek_invariant ?p"
    by (simp add: layout_seek_invariant_def)
  note after = reset_sizes [OF this]
  have "hv_segments a = with_parked i len v"
    unfolding a_def after(1) p(3) with_parked_def using fold_loaded_segments [OF p(1), of "hv_deferred v"]
    by (simp add: loaded_segments_cong [OF fold_loaded_segments [OF p(1)]])
  moreover have "geometry_ok a"
    using assms(1) reset_layout_inv apply_commit_inv by (simp add: a_def hv_inv_def)
  ultimately show ?thesis
    using geometry_is_new [of a] after p(2) by (simp add: a_def)
qed


subsection \<open>The gate of an exact seek\<close>

text \<open>A size that is missing, and one that is asked for: a probe is queued or out, or its body is planned.\<close>

definition missing :: "size_demand \<Rightarrow> hls_variant \<Rightarrow> bool" where
  "missing d v = (case demanded_entry d v of None \<Rightarrow> False | Some s \<Rightarrow> \<not> is_exact (seg_size s))"

definition asked :: "size_demand \<Rightarrow> hls_variant \<Rightarrow> bool" where
  "asked d v \<longleftrightarrow> d \<in> queued (hv_size_demands v) \<union> inflight (hv_size_demands v) \<or> body_fetch d \<in> set (queue (hv_plan v))"

definition in_front :: "nat \<Rightarrow> size_demand \<Rightarrow> bool" where
  "in_front seg d = (case d of DemandInit \<Rightarrow> True | DemandSegment i \<Rightarrow> i \<le> seg)"

lemma asked_request: "asked d (request_exact_size d v)"
  by (auto simp: asked_def request_exact_size_def demand_enqueue_def enqueue_body_fetch_def push_front_def mark_def
      split: planned_fetch.split)

lemma asked_stays: "asked d v \<Longrightarrow> asked d (request_exact_size d' v)"
  by (auto simp: asked_def request_exact_size_def demand_enqueue_def enqueue_body_fetch_def push_front_def mark_def
      split: planned_fetch.split)

lemma missing_same: "only_asks v w \<Longrightarrow> missing d w = missing d v"
  by (auto simp: only_asks_def same_geometry_def missing_def demanded_entry_def split: size_demand.split)

lemma missing_media: "missing (DemandSegment i) v \<longleftrightarrow> i < length (hv_segments v) \<and> \<not> is_exact (media_sizes v ! i)"
  by (auto simp: missing_def demanded_entry_def slice_get_def media_sizes_def)

lemma missing_init: "missing DemandInit v \<longleftrightarrow> \<not> exact_init_complete v"
  by (auto simp: missing_def demanded_entry_def exact_init_complete_def split: option.split)

abbreviation ask_step :: "nat \<Rightarrow> hls_variant \<Rightarrow> hls_variant" where
  "ask_step \<equiv> (\<lambda>idx v. case slice_get (media_sizes v) idx of
       Some s \<Rightarrow> if is_exact s then v else request_exact_size (DemandSegment idx) v
     | None \<Rightarrow> v)"

lemma ask_step_only: "only_asks v (ask_step i v)"
  by (auto simp: request_only_asks split: option.split)

lemma ask_step_keeps: "asked d v \<Longrightarrow> asked d (ask_step i v)"
  by (auto simp: asked_stays split: option.split)

lemma ask_step_asks: "missing (DemandSegment i) v \<Longrightarrow> asked (DemandSegment i) (ask_step i v)"
  by (auto simp: missing_media slice_get_def asked_request)

lemma fold_keeps: "asked d v \<Longrightarrow> asked d (fold ask_step xs v)"
proof (induction xs arbitrary: v)
  case (Cons x xs)
  from Cons.IH [OF ask_step_keeps [OF Cons.prems]] show ?case
    by simp
qed simp

lemma fold_asks:
  "missing (DemandSegment i) v \<Longrightarrow> i \<in> set xs \<Longrightarrow> asked (DemandSegment i) (fold ask_step xs v)"
proof (induction xs arbitrary: v)
  case (Cons x xs)
  have later: "missing (DemandSegment i) (ask_step x v)"
    using missing_same [OF ask_step_only] Cons.prems(1) by blast
  have "asked (DemandSegment i) (fold ask_step xs (ask_step x v))"
  proof (cases "i = x")
    case True
    then show ?thesis
      using fold_keeps [OF ask_step_asks [OF Cons.prems(1)]] by blast
  next
    case False
    then show ?thesis
      using Cons.IH [OF later] Cons.prems(2) by simp
  qed
  then show ?case
    by simp
qed simp

lemma request_prefix_asks:
  assumes "geometry_ok v" "missing d v" "in_front seg d"
  shows "asked d (request_exact_prefix_through seg v)"
proof -
  let ?v = "if exact_init_complete v then v else request_exact_size DemandInit v"
  have only: "only_asks v ?v"
    by (simp add: request_only_asks)
  then have count: "num_segments (media_sizes ?v) = length (hv_segments v)"
    using assms(1) num_segments_small [of "media_sizes ?v"]
    by (simp add: only_asks_def same_geometry_def geometry_ok_def split: if_splits)
  show ?thesis
  proof (cases d)
    case DemandInit
    then have "asked d ?v"
      using assms(2) by (simp add: missing_init asked_request)
    then show ?thesis
      unfolding request_exact_prefix_through_def Let_def by (rule fold_keeps)
  next
    case (DemandSegment i)
    then have "i < length (hv_segments v)" "i \<le> seg" "missing (DemandSegment i) ?v"
      using assms missing_same [OF only] by (simp_all add: missing_media in_front_def)
    then show ?thesis
      unfolding request_exact_prefix_through_def Let_def count DemandSegment by (intro fold_asks) auto
  qed
qed

lemma prefix_complete_iff:
  assumes "seg < length (hv_segments v)"
  shows "exact_prefix_complete_now seg v \<longleftrightarrow> \<not> (\<exists>d. missing d v \<and> in_front seg d)"
proof -
  have "min seg (length (hv_segments v) - 1) = seg"
    using assms by simp
  moreover have "list_all is_exact (take (seg + 1) (media_sizes v)) \<longleftrightarrow> (\<forall>i \<le> seg. is_exact (media_sizes v ! i))"
    using assms by (auto simp: list_all_length less_Suc_eq_le)
  ultimately have "exact_prefix_complete_now seg v \<longleftrightarrow>
      \<not> missing DemandInit v \<and> (\<forall>i \<le> seg. \<not> missing (DemandSegment i) v)"
    using assms by (auto simp: exact_prefix_complete_now_def missing_init missing_media Let_def)
  moreover have "(\<exists>d. missing d v \<and> in_front seg d) \<longleftrightarrow>
      missing DemandInit v \<or> (\<exists>i \<le> seg. missing (DemandSegment i) v)"
  proof
    assume "\<exists>d. missing d v \<and> in_front seg d"
    then obtain d where "missing d v" "in_front seg d"
      by blast
    then show "missing DemandInit v \<or> (\<exists>i \<le> seg. missing (DemandSegment i) v)"
      by (cases d) (auto simp: in_front_def)
  qed (auto simp: in_front_def intro: exI [of _ DemandInit] exI [of _ "DemandSegment _"])
  ultimately show ?thesis
    by blast
qed

lemma alias_load_resolved:
  assumes "alias_load_now c = Some al" "snap_segment al = s" "snap_anchor al = a"
  shows "alias_load_now (alias_resolve_now s a x c) = Some (al\<lparr>snap_exact := Some x\<rparr>)"
  using assms by (auto simp: alias_load_now_def alias_resolve_now_def Option.bind_eq_Some_conv)

lemma alias_load_unmatched:
  assumes "alias_load_now c = Some al" "snap_segment al \<noteq> s \<or> snap_anchor al \<noteq> a"
  shows "alias_resolve_now s a x c = c"
  using assms by (auto simp: alias_load_now_def alias_resolve_now_def Option.bind_eq_Some_conv)

text \<open>The demand of a live exact seek and the alias that goes with it.\<close>

definition seeks_to :: "hls_variant \<Rightarrow> nat \<Rightarrow> nat \<Rightarrow> bool" where
  "seeks_to v s a \<longleftrightarrow> map_option snd (cell_load (hv_demand v)) = Some (s, a)
     \<and> map_option (\<lambda>al. (snap_segment al, snap_anchor al)) (alias_load_now (hv_alias v)) = Some (s, a)"

lemma seeks_to_less: "hv_inv v \<Longrightarrow> seeks_to v s a \<Longrightarrow> s < length (hv_segments v)"
  by (auto simp: seeks_to_def hv_inv_def cells_ok_def names_segment_def cell_load_def split: if_splits)

lemma gate:
  assumes "hv_inv v" "stream_fits v" "seeks_to v s a"
  shows "exact_prefix_complete_now s v \<Longrightarrow> fst (exact_seek_metadata_phase v) = None
      \<and> resolved_seek_anchor a (snd (exact_seek_metadata_phase v)) = Some (natural_start v s)"
    and "\<not> exact_prefix_complete_now s v \<Longrightarrow> fst (exact_seek_metadata_phase v) = Some WaitingDemand
      \<and> (\<forall>d. missing d v \<longrightarrow> in_front s d \<longrightarrow> asked d (snd (exact_seek_metadata_phase v)))"
proof -
  obtain g where demand: "cell_load (hv_demand v) = Some (g, s, a)"
    using assms(3) by (auto simp: seeks_to_def)
  obtain al where al: "alias_load_now (hv_alias v) = Some al" "snap_segment al = s" "snap_anchor al = a"
    using assms(3) by (auto simp: seeks_to_def)
  have geometry: "geometry_ok v" and less: "s < length (hv_segments v)"
    using assms seeks_to_less by (auto simp: hv_inv_def)
  let ?w = "complete_exact_seek_if_ready v"
  have same: "same_geometry v ?w" and load: "cell_load (hv_demand ?w) = Some (g, s, a)"
    using complete_fields demand by simp_all
  have geometry_w: "geometry_ok ?w"
    using geometry same_geometryD(3) [OF same] by simp
  have anchor: "exact_anchor_now s v = (if exact_prefix_complete_now s v then Some (natural_start v s) else None)"
    using hv_offset_is_natural [OF geometry assms(2) less] by (simp add: exact_anchor_now_def)
  have phase: "exact_seek_metadata_phase v =
      (if exact_seek_projection_ready s a ?w then (None, ?w) else (Some WaitingDemand, request_exact_prefix_through s ?w))"
    using demand load by (simp add: exact_seek_metadata_phase_def Let_def)
  show "fst (exact_seek_metadata_phase v) = None
      \<and> resolved_seek_anchor a (snd (exact_seek_metadata_phase v)) = Some (natural_start v s)" if "exact_prefix_complete_now s v"
  proof -
    have "?w = resolve_seek_alias s a (natural_start v s) v"
      using demand anchor that by (simp add: complete_exact_seek_if_ready_def stable_ok [OF geometry])
    then have resolved: "resolved_seek_anchor a ?w = Some (natural_start v s)"
      using alias_load_resolved [OF al] al(3) by (simp add: resolved_seek_anchor_def resolve_seek_alias_def)
    then have "exact_seek_projection_ready s a ?w"
      using anchor that same_geometryD(8) [OF same] by (simp add: exact_seek_projection_ready_def stable_ok [OF geometry_w])
    then show ?thesis
      using phase resolved by simp
  qed
  show "fst (exact_seek_metadata_phase v) = Some WaitingDemand
      \<and> (\<forall>d. missing d v \<longrightarrow> in_front s d \<longrightarrow> asked d (snd (exact_seek_metadata_phase v)))" if "\<not> exact_prefix_complete_now s v"
  proof -
    have "?w = v"
      using demand anchor that by (simp add: complete_exact_seek_if_ready_def stable_ok [OF geometry])
    then have "\<not> exact_seek_projection_ready s a ?w"
      using anchor that \<open>?w = v\<close> by (simp add: exact_seek_projection_ready_def stable_ok [OF geometry])
    then show ?thesis
      using phase \<open>?w = v\<close> request_prefix_asks [OF geometry] by simp
  qed
qed

subsection \<open>A second seek into the segment of the first\<close>

text \<open>The second seek has moved the alias and kept the demand, which still names the old anchor.\<close>

definition astray :: "hls_variant \<Rightarrow> bool" where
  "astray v = (case (cell_load (hv_demand v), alias_load_now (hv_alias v)) of
     (Some (_, s, a), Some al) \<Rightarrow> snap_anchor al \<noteq> a
   | _ \<Rightarrow> False)"

lemma astray_keeps: "astray v \<Longrightarrow> complete_exact_seek_if_ready v = v"
proof -
  assume "astray v"
  then obtain g s a al where "cell_load (hv_demand v) = Some (g, s, a)" "alias_load_now (hv_alias v) = Some al" "snap_anchor al \<noteq> a"
    by (auto simp: astray_def split: option.splits)
  then show ?thesis
    using alias_load_unmatched [of "hv_alias v" al s a]
    by (simp add: complete_exact_seek_if_ready_def resolve_seek_alias_def split: option.split)
qed

lemma astray_waits:
  assumes "astray v"
  shows "fst (exact_seek_metadata_phase v) = Some WaitingDemand"
proof -
  obtain g s a al where "cell_load (hv_demand v) = Some (g, s, a)" "alias_load_now (hv_alias v) = Some al" "snap_anchor al \<noteq> a"
    using assms by (auto simp: astray_def split: option.splits)
  moreover from this have "\<not> exact_seek_projection_ready s a v"
    by (simp add: exact_seek_projection_ready_def resolved_seek_anchor_def stable_parity split: option.split)
  ultimately show ?thesis
    by (simp add: exact_seek_metadata_phase_def Let_def astray_keeps [OF assms])
qed

lemma astray_cells: "astray v \<Longrightarrow> hv_demand w = hv_demand v \<Longrightarrow> hv_alias w = hv_alias v \<Longrightarrow> astray w"
  by (simp add: astray_def)

text \<open>What the downloader and the polls of the reader do.\<close>

fun settles :: "hv_call \<Rightarrow> bool" where
  "settles (Commit p len) = True"
| "settles (ProbeEnd d header_len failed) = True"
| "settles PollSeek = True"
| "settles PollBytes = True"
| "settles PopSizeDemand = True"
| "settles (DeferPrefetch byte) = True"
| "settles (TakeResume consumed) = True"
| "settles c = False"

lemma publish_cells [simp]: "hv_demand (publish m v) = hv_demand v" "hv_alias (publish m v) = hv_alias v"
  by (simp_all add: publish_def)

lemma set_seg_size_cells [simp]: "hv_demand (set_seg_size f d v) = hv_demand v" "hv_alias (set_seg_size f d v) = hv_alias v"
  by (cases d; simp add: set_seg_size_def)+

lemma astray_commit: "astray v \<Longrightarrow> astray (apply_commit p len v)"
proof -
  assume v: "astray v"
  let ?w = "publish ApplyCommit (case defer_prefix_settle p len v of Some v \<Rightarrow> v | None \<Rightarrow> apply_loaded_size p len v)"
  have "astray ?w"
    by (rule astray_cells [OF v])
      (auto simp: defer_prefix_settle_def apply_loaded_size_def split: planned_fetch.split option.split)
  then show ?thesis
    by (simp add: apply_commit_def astray_keeps)
qed

lemma astray_probe: "astray v \<Longrightarrow> astray (finish_size_probe d h e v)"
proof -
  assume v: "astray v"
  let ?v = "v\<lparr>hv_size_demands := demand_finish d (hv_size_demands v)\<rparr>"
  have "astray ?v"
    by (rule astray_cells [OF v]) simp_all
  moreover have "astray (snd (apply_resolved_size d n ?v))" for n
  proof (cases "store_resolved_size d n ?v")
    case (Pair changed w)
    have "astray (snd (store_resolved_size d n ?v))"
      by (rule astray_cells [OF v]) (auto simp: store_resolved_size_def split: option.split)
    then show ?thesis
      by (simp add: apply_resolved_size_def Pair astray_keeps)
  qed
  ultimately show ?thesis
    by (simp add: finish_size_probe_def Let_def)
qed

lemma astray_poll: "astray v \<Longrightarrow> astray (snd (exact_seek_metadata_phase v))"
proof -
  assume v: "astray v"
  have "astray (request_exact_prefix_through s v)" for s
    by (rule astray_cells [OF v]) (use request_prefix_only_asks [of v s] in \<open>simp_all add: only_asks_def\<close>)
  then show ?thesis
    using v by (simp add: exact_seek_metadata_phase_def Let_def astray_keeps split: option.split prod.split)
qed

lemma astray_poll_bytes: "astray v \<Longrightarrow> astray (snd (exact_byte_metadata_phase v))"
proof -
  assume v: "astray v"
  have "astray (request_exact_prefix_for_byte b v)" for b
    by (rule astray_cells [OF v]) (use request_byte_only_asks [of v b] in \<open>simp_all add: only_asks_def\<close>)
  moreover have "astray (v\<lparr>hv_byte_demand := None\<rparr>)"
    by (rule astray_cells [OF v]) simp_all
  ultimately show ?thesis
    using v by (simp add: exact_byte_metadata_phase_def split: option.split)
qed

lemma astray_other:
  assumes "astray v"
  shows "astray (v\<lparr>hv_size_demands := x\<rparr>)" "astray (v\<lparr>hv_resume_at := n\<rparr>)"
  by (rule astray_cells [OF assms]; simp)+

lemma astray_step: "settles c \<Longrightarrow> astray v \<Longrightarrow> astray (hv_step c v)"
  by (cases c) (simp_all add: hv_step_def astray_commit astray_probe astray_poll astray_poll_bytes astray_other
      take_prefetch_resume_at_def)

lemma astray_run: "list_all settles cs \<Longrightarrow> astray v \<Longrightarrow> astray (hv_run cs v)"
  by (induction cs arbitrary: v) (simp_all add: astray_step)


subsection \<open>Where a seek lands\<close>

lemma bisect_right_spec:
  assumes "sorted decs" "lo \<le> hi" "hi \<le> length decs" "\<forall>i < lo. decs ! i \<le> t"
    and "\<forall>i. hi \<le> i \<and> i < length decs \<longrightarrow> t < decs ! i"
  shows "bisect_right_loop decs t lo hi \<le> length decs
    \<and> (\<forall>i < length decs. i < bisect_right_loop decs t lo hi \<longleftrightarrow> decs ! i \<le> t)"
  using assms
proof (induction decs t lo hi rule: bisect_right_loop.induct)
  case (1 decs t lo hi)
  have mono: "i \<le> j \<Longrightarrow> j < length decs \<Longrightarrow> decs ! i \<le> decs ! j" for i j
    using "1.prems"(1) by (rule sorted_nth_mono)
  show ?case
  proof (cases "lo < hi")
    case True
    define mid where "mid = lo + (hi - lo) div 2"
    have mid: "lo \<le> mid" "mid < hi"
      using True by (auto simp: mid_def)
    show ?thesis
    proof (cases "decs ! mid \<le> t")
      case le: True
      have "\<forall>i < mid + 1. decs ! i \<le> t"
        using mono [of _ mid] le mid "1.prems"(3) by (auto simp: less_Suc_eq_le intro: order.trans)
      moreover have "bisect_right_loop decs t lo hi = bisect_right_loop decs t (mid + 1) hi"
        using True le by (subst bisect_right_loop.simps) (simp add: Let_def mid_def)
      ultimately show ?thesis
        using "1.IH"(1) [OF True mid_def le] "1.prems" mid by simp
    next
      case gt: False
      have "\<forall>i. mid \<le> i \<and> i < length decs \<longrightarrow> t < decs ! i"
        using mono [of mid] gt by (auto simp: not_le intro: less_le_trans)
      moreover have "bisect_right_loop decs t lo hi = bisect_right_loop decs t lo mid"
        using True gt by (subst bisect_right_loop.simps) (simp add: Let_def mid_def)
      ultimately show ?thesis
        using "1.IH"(2) [OF True mid_def gt] "1.prems" mid by simp
    qed
  next
    case False
    then have "bisect_right_loop decs t lo hi = lo"
      by (subst bisect_right_loop.simps) simp
    then show ?thesis
      using "1.prems" False by (auto simp: not_less)
  qed
qed

text \<open>The segment of a time: the last that begins no later, or the first.\<close>

definition covers_time :: "hls_variant \<Rightarrow> duration \<Rightarrow> nat \<Rightarrow> bool" where
  "covers_time v t i \<longleftrightarrow> i < length (hv_segments v) \<and> (i = 0 \<or> seg_decode (hv_segments v ! i) \<le> t)
     \<and> (\<forall>j < length (hv_segments v). i < j \<longrightarrow> t < seg_decode (hv_segments v ! j))"

lemma index_at_time_covers:
  assumes "sorted (map seg_decode (hv_segments v))" "hv_segments v \<noteq> []"
  shows "\<exists>i. index_at_time t v = Some i \<and> covers_time v t i"
proof -
  let ?n = "length (hv_segments v)" and ?b = "bisect_right_decode_time (hv_segments v) t"
  have b: "?b \<le> ?n" "\<forall>i < ?n. i < ?b \<longleftrightarrow> seg_decode (hv_segments v ! i) \<le> t"
    using bisect_right_spec [OF assms(1), of 0 ?n t] by (simp_all add: bisect_right_decode_time_def)
  have "covers_time v t (?b - 1)"
  proof (cases "?b = 0")
    case True
    then show ?thesis
      using b assms(2) by (auto simp: covers_time_def not_le)
  next
    case False
    then obtain k where k: "?b = Suc k"
      using not0_implies_Suc by blast
    have "k < ?n"
      using b k by simp
    moreover from this have "seg_decode (hv_segments v ! k) \<le> t"
      using b(2) k by (metis lessI)
    moreover have "t < seg_decode (hv_segments v ! j)" if "j < ?n" "k < j" for j
      using b(2) that k by (metis not_le not_less_eq)
    ultimately show ?thesis
      by (simp add: covers_time_def k)
  qed
  moreover from this have "?b - 1 \<le> ?n - 1"
    unfolding covers_time_def by linarith
  ultimately show ?thesis
    using assms(2) by (simp add: index_at_time_def min_absorb1)
qed

lemma set_exact_seek_demand_fields:
  "same_geometry v (set_exact_seek_demand a s v)" "al_base (hv_alias (set_exact_seek_demand a s v)) = al_base (hv_alias v)"
proof -
  have w: "same_geometry v (complete_exact_seek_if_ready (request_exact_prefix_through s w))
      \<and> al_base (hv_alias (complete_exact_seek_if_ready (request_exact_prefix_through s w))) = al_base (hv_alias v)"
    if "same_geometry v w" "hv_alias w = hv_alias v" for w
    using that request_prefix_only_asks [of w s] complete_fields(1,6) [of "request_exact_prefix_through s w"]
    by (auto simp: only_asks_def intro: same_geometry_trans)
  have "same_geometry v (v\<lparr>hv_demand := c\<rparr>)" "same_geometry v (clear_exact_seek v)" for c
    by (simp_all add: same_geometry_def clear_exact_seek_def)
  then show "same_geometry v (set_exact_seek_demand a s v)"
    "al_base (hv_alias (set_exact_seek_demand a s v)) = al_base (hv_alias v)"
    using w [of v] w [of "v\<lparr>hv_demand := c\<rparr>" for c]
    by (auto simp: set_exact_seek_demand_def Let_def clear_exact_seek_def split: option.split)
qed

lemma prepare_value:
  assumes "hv_inv v" "stream_fits v" "seek_point_at_time t v = Some (i, start, stop)"
  shows "fst (prepare_seek_time_anchor t v)
      = Inr \<lparr>sa_byte = natural_start v i, sa_start = start, sa_stop = stop, sa_segment = i\<rparr>"
    and "same_geometry v (snd (prepare_seek_time_anchor t v))"
    and "al_base (hv_alias (snd (prepare_seek_time_anchor t v))) = cell_set i (natural_start v i) (al_base (hv_alias v))"
proof -
  have geometry: "geometry_ok v"
    using assms(1) by (simp add: hv_inv_def)
  have i: "i < length (hv_segments v)" "readahead_start i v < length (hv_segments v)"
    using seek_point_less [OF assms(3)] by (auto simp: readahead_start_def)
  note offs = hv_offset_is_natural [OF geometry assms(2) i(1)] hv_offset_is_natural [OF geometry assms(2) i(2)]
  let ?u = "set_segment_aware_seek_tail (readahead_start i v)
      (v\<lparr>hv_prefetch_anchor := natural_start v (readahead_start i v),
         hv_alias := alias_set_now (natural_start v i) i (hv_alias v)\<rparr>)"
  have "prepare_seek_time_anchor t v =
      (Inr \<lparr>sa_byte = natural_start v i, sa_start = start, sa_stop = stop, sa_segment = i\<rparr>,
       (set_exact_seek_demand (natural_start v i) i ?u)\<lparr>hv_wait_end := 0\<rparr>)"
    using assms(3) offs by (simp add: prepare_seek_time_anchor_def Let_def)
  moreover have "same_geometry v ?u" "al_base (hv_alias ?u) = cell_set i (natural_start v i) (al_base (hv_alias v))"
    by (simp_all add: same_geometry_def set_segment_aware_seek_tail_def)
  moreover have "same_geometry w (w\<lparr>hv_wait_end := 0\<rparr>)" for w
    by (simp add: same_geometry_def)
  ultimately show "fst (prepare_seek_time_anchor t v)
      = Inr \<lparr>sa_byte = natural_start v i, sa_start = start, sa_stop = stop, sa_segment = i\<rparr>"
    "same_geometry v (snd (prepare_seek_time_anchor t v))"
    "al_base (hv_alias (snd (prepare_seek_time_anchor t v))) = cell_set i (natural_start v i) (al_base (hv_alias v))"
    using set_exact_seek_demand_fields [where v = ?u and s = i and a = "natural_start v i"]
    by (auto intro: same_geometry_trans)
qed

lemma alias_walk_head: "start \<le> b \<Longrightarrow> b < start + size_get z \<Longrightarrow> start + size_get z \<le> u64_max \<Longrightarrow> idx \<le> u32_max
    \<Longrightarrow> alias_walk b idx start (z # zs) = Some (idx, start, size_get z)"
  by (simp add: Let_def sat_add_exact u32_of_usize_def)

lemma i64_below_u64: "i64_max \<le> u64_max"
  by (simp add: i64_max_def u64_max_def)

lemma natural_end:
  assumes "stream_fits v" "i < length (hv_segments v)"
  shows "natural_start v i + size_get (media_sizes v ! i) \<le> i64_max"
proof -
  have "sum_list (take (Suc i) (map size_get (media_sizes v))) \<le> sum_list (map size_get (media_sizes v))"
    using sum_list_take_mono [of "Suc i" "length (hv_segments v)" "map size_get (media_sizes v)"] assms(2) by simp
  then show ?thesis
    using assms by (simp add: stream_fits_def natural_start_def take_Suc_conv_app_nth)
qed

lemma read_len_is_route: "geometry_ok v \<Longrightarrow> i < length (hv_segments v)
    \<Longrightarrow> segment_len i v = Some (size_get (media_sizes v ! i))"
  by (auto simp: segment_len_def slice_get_def geometry_ok_def list_all_length sized_def size_read_len_def size_get_def)

lemma alias_finds_its_segment:
  assumes "hv_inv v" "stream_fits v" "alias_load_now (hv_alias v) = Some al" "snap_segment al = i"
    and "snap_anchor al = natural_start v i" "i < length (hv_segments v)" "0 < size_get (media_sizes v ! i)"
  shows "find_at_offset (natural_start v i) v = Some (i, natural_start v i, size_get (media_sizes v ! i))"
proof -
  have geometry: "geometry_ok v" and small: "i \<le> u32_max"
    using assms(1,6) by (simp_all add: hv_inv_def geometry_ok_def)
  have fits: "natural_start v i + size_get (media_sizes v ! i) \<le> u64_max"
    using natural_end [OF assms(2,6)] i64_below_u64 by linarith
  obtain zs where "drop i (media_sizes v) = media_sizes v ! i # zs"
    using assms(6) Cons_nth_drop_Suc [of i "media_sizes v"] by (metis length_media_sizes)
  then have "seek_alias_at (natural_start v i) v = Some (i, natural_start v i, size_get (media_sizes v ! i))"
    using assms(3-5,7) fits small read_len_is_route [OF geometry assms(6)]
    by (simp add: seek_alias_at_def segment_aware_seek_alias_at_def alias_walk_head sat_add_exact del: alias_walk.simps)
  then show ?thesis
    by (simp add: find_at_offset_def)
qed


subsection \<open>Ranges by byte and by index\<close>

lemma alias_walk_finds:
  assumes "alias_walk b idx start zs = Some (i, off, len)" "start \<le> b" "start + sum_list (map size_get zs) \<le> u64_max"
  shows "idx \<le> i \<and> i - idx < length zs \<and> off = start + sum_list (take (i - idx) (map size_get zs))
    \<and> len = size_get (zs ! (i - idx)) \<and> off \<le> b \<and> b < off + len"
  using assms
proof (induction zs arbitrary: idx start)
  case (Cons z zs)
  have exact: "sat_add u64_max start (size_get z) = start + size_get z"
    using Cons.prems(3) by (intro sat_add_exact) simp
  show ?case
  proof (cases "b < start + size_get z")
    case True
    then show ?thesis
      using Cons.prems exact by (auto simp: Let_def u32_of_usize_def split: if_splits)
  next
    case False
    then have "alias_walk b (idx + 1) (start + size_get z) zs = Some (i, off, len)"
      using Cons.prems(1) exact by (simp add: Let_def)
    then have *: "idx + 1 \<le> i \<and> i - (idx + 1) < length zs
        \<and> off = start + size_get z + sum_list (take (i - (idx + 1)) (map size_get zs))
        \<and> len = size_get (zs ! (i - (idx + 1))) \<and> off \<le> b \<and> b < off + len"
      by (rule Cons.IH) (use False Cons.prems(3) in simp_all)
    then have "i - idx = Suc (i - (idx + 1))" "idx \<le> i"
      by linarith+
    then show ?thesis
      using * by simp
  qed
qed simp

lemma fold_checked:
  assumes "a + sum_list (map size_get zs) \<le> u64_max"
  shows "fold (\<lambda>s off. Option.bind off (\<lambda>off. checked_add u64_max off (size_get s))) zs (Some a)
    = Some (a + sum_list (map size_get zs))"
  using assms by (induction zs arbitrary: a) (simp_all add: checked_add_def)

lemma descriptor_value:
  assumes "geometry_ok v" "i < length (hv_segments v)" "descriptor_offset i v = Some off"
  shows "descriptor i v = Some \<lparr>desc_start = off, desc_stop = off + size_get (media_sizes v ! i),
    desc_decode = seg_decode (hv_segments v ! i), desc_duration = seg_duration (hv_segments v ! i), desc_index = i\<rparr>"
proof -
  have "i \<le> u32_max"
    using assms(1,2) by (simp add: geometry_ok_def)
  then show ?thesis
    using assms read_len_is_route [OF assms(1,2)] by (simp add: descriptor_def slice_get_def u32_of_usize_def)
qed

lemma descriptor_at_byte_value:
  assumes "find_at_offset b v = Some (i, off, len)" "i < length (hv_segments v)"
  shows "descriptor_at_byte b v = Some \<lparr>desc_start = off, desc_stop = off + len,
    desc_decode = seg_decode (hv_segments v ! i), desc_duration = seg_duration (hv_segments v ! i), desc_index = i\<rparr>"
  using assms by (simp add: descriptor_at_byte_def slice_get_def)

lemma alias_descriptor:
  assumes "geometry_ok v" "alias_load_now (hv_alias v) = Some al" "seek_alias_at b v = Some (i, off, len)"
    and "snap_anchor al + sum_list (map size_get (media_sizes v)) \<le> u64_max"
  shows "i < length (hv_segments v) \<and> len = size_get (media_sizes v ! i) \<and> off \<le> b \<and> b < off + len
    \<and> descriptor_offset i v = Some off"
proof -
  let ?s = "snap_segment al" and ?a = "snap_anchor al"
  have below: "\<not> b < ?a"
    using assms(2,3) by (auto simp: seek_alias_at_def split: if_splits)
  show ?thesis
  proof (cases "hv_exact v")
    case True
    then have found: "i = ?s" "off = ?a" "b < sat_add u64_max ?a len" "segment_len ?s v = Some len"
      using assms(2,3) below by (auto simp: seek_alias_at_def Option.bind_eq_Some_conv split: if_splits)
    then have i: "i < length (hv_segments v)"
      by (auto simp: segment_len_def slice_get_def split: if_splits)
    then have "len = size_get (media_sizes v ! i)"
      using read_len_is_route [OF assms(1) i] found by simp
    moreover have "descriptor_offset i v = Some off"
      using assms(2) found by (simp add: descriptor_offset_def)
    ultimately show ?thesis
      using i found below by (simp add: sat_add_def)
  next
    case False
    have rest: "sum_list (map size_get (drop ?s (media_sizes v))) \<le> sum_list (map size_get (media_sizes v))"
      by (metis append_take_drop_id le_add2 map_append sum_list.append)
    have walk: "alias_walk b ?s ?a (drop ?s (media_sizes v)) = Some (i, off, len)"
      using False assms(2,3) below by (simp add: seek_alias_at_def segment_aware_seek_alias_at_def)
    have found: "?s \<le> i" "i - ?s < length (drop ?s (media_sizes v))"
      "off = ?a + sum_list (take (i - ?s) (map size_get (drop ?s (media_sizes v))))"
      "len = size_get (drop ?s (media_sizes v) ! (i - ?s))" "off \<le> b" "b < off + len"
      using alias_walk_finds [OF walk] below assms(4) rest by simp_all
    then have i: "i < length (hv_segments v)" "len = size_get (media_sizes v ! i)"
      by simp_all
    have "off \<le> ?a + sum_list (map size_get (drop ?s (media_sizes v)))"
      using found(3) sum_list_take_mono [of "i - ?s" "length (drop ?s (media_sizes v))" "map size_get (drop ?s (media_sizes v))"]
        found(2) by simp
    then have "descriptor_offset i v = Some off"
      using assms(2,4) False found(1,3) rest fold_checked [of ?a "take (i - ?s) (drop ?s (media_sizes v))"]
      by (auto simp: descriptor_offset_def take_map)
    then show ?thesis
      using i found by simp
  qed
qed

text \<open>A range that is found by one of its bytes is the range that is found by its index.\<close>

lemma byte_and_index_agree:
  assumes "geometry_ok v" "stream_fits v" "descriptor_at_byte b v = Some d"
    and "alias_load_now (hv_alias v) = None \<or> seek_alias_at b v \<noteq> None"
    and "\<And>al. alias_load_now (hv_alias v) = Some al
      \<Longrightarrow> snap_anchor al + sum_list (map size_get (media_sizes v)) \<le> u64_max"
  shows "desc_start d \<le> b \<and> b < desc_stop d \<and> descriptor (desc_index d) v = Some d"
proof -
  obtain i off len where found: "find_at_offset b v = Some (i, off, len)"
    using assms(3) by (auto simp: descriptor_at_byte_def Option.bind_eq_Some_conv)
  have *: "i < length (hv_segments v) \<and> len = size_get (media_sizes v ! i) \<and> off \<le> b \<and> b < off + len
      \<and> descriptor_offset i v = Some off"
  proof (cases "alias_load_now (hv_alias v)")
    case None
    then have "find_virtual b (media_sizes v) (hv_frame v) = Some (i, off, len)"
      using found by (simp add: find_at_offset_def seek_alias_at_def)
    then have "i < length (hv_segments v)" "off = natural_start v i" "len = size_get (media_sizes v ! i)"
      "off \<le> b" "b < off + len"
      by (simp_all add: hv_lookup_is_natural [OF assms(1,2)])
    then show ?thesis
      using None geometry_offsets(3) [OF assms(1)] by (simp add: descriptor_offset_def)
  next
    case (Some al)
    then have "seek_alias_at b v = Some (i, off, len)"
      using found assms(4) by (auto simp: find_at_offset_def split: option.splits)
    then show ?thesis
      using alias_descriptor [OF assms(1) Some _ assms(5) [OF Some]] by blast
  qed
  then have "descriptor_at_byte b v = descriptor i v"
    using descriptor_at_byte_value [OF found] descriptor_value [OF assms(1)] by simp
  moreover have "d = \<lparr>desc_start = off, desc_stop = off + len, desc_decode = seg_decode (hv_segments v ! i),
      desc_duration = seg_duration (hv_segments v ! i), desc_index = i\<rparr>"
    using descriptor_at_byte_value [OF found] * assms(3) by simp
  ultimately show ?thesis
    using * assms(3) by simp
qed


subsection \<open>What a seek promises\<close>

definition fresh_parts :: "hls_segment option \<Rightarrow> hls_segment list \<Rightarrow> bool" where
  "fresh_parts init segs \<longleftrightarrow> length segs < u32_max \<and> list_all sized (map seg_size segs)
     \<and> (case init of None \<Rightarrow> True | Some s \<Rightarrow> sized (seg_size s))"

lemma built_inv: "fresh_parts init segs \<Longrightarrow> hv_inv (hv_run cs (into_variant e init segs))"
  by (rule hv_run_inv, rule into_variant_inv) (auto simp: fresh_parts_def)

text \<open>C8: A seek finds its segment.  Whatever the variant has gone through, a time resolves to the
  segment whose window it is in; the seek succeeds, names the byte the segment begins at in the sizes as
  they are known, and, once it is done, that byte belongs to that segment and begins it.\<close>

theorem a_seek_lands_in_its_segment:
  assumes "fresh_parts init segs" "v = hv_run cs (into_variant e init segs)" "stream_fits v"
    and "sorted (map seg_decode (hv_segments v))" "hv_segments v \<noteq> []"
  shows "\<exists>i anchor. covers_time v t i \<and> fst (prepare_seek_time_anchor t v) = Inr anchor
    \<and> sa_segment anchor = i \<and> sa_byte anchor = natural_start v i
    \<and> (0 < size_get (media_sizes v ! i) \<longrightarrow>
         find_at_offset (natural_start v i) (snd (prepare_seek_time_anchor t v))
           = Some (i, natural_start v i, size_get (media_sizes v ! i)))"
proof -
  have inv: "hv_inv v"
    using built_inv assms(1,2) by blast
  obtain i where i: "index_at_time t v = Some i" "covers_time v t i"
    using index_at_time_covers assms(4,5) by blast
  then have less: "i < length (hv_segments v)" "i \<le> u32_max"
    using inv by (simp_all add: covers_time_def hv_inv_def geometry_ok_def)
  then obtain start stop where point: "seek_point_at_time t v = Some (i, start, stop)"
    using i by (simp add: seek_point_at_time_def slice_get_def u32_of_usize_def)
  let ?w = "snd (prepare_seek_time_anchor t v)"
  note landed = prepare_value [OF inv assms(3) point]
  note same = same_geometryD [OF landed(2)]
  have "at_active (al_base (hv_alias ?w)) \<noteq> 0 \<and> even (at_version (al_base (hv_alias ?w)))"
    using inv landed(3) by (simp add: hv_inv_def cells_ok_def names_segment_def cell_set_def next_gen_def)
  then obtain al where al: "alias_load_now (hv_alias ?w) = Some al" "snap_segment al = i" "snap_anchor al = natural_start v i"
    using landed(3) by (auto simp: alias_load_now_def cell_load_def cell_set_def next_gen_def)
  have natural: "natural_start ?w i = natural_start v i" and fits: "stream_fits ?w"
    using same assms(3) by (simp_all add: natural_start_def stream_fits_def)
  have "find_at_offset (natural_start v i) ?w = Some (i, natural_start v i, size_get (media_sizes v ! i))"
    if "0 < size_get (media_sizes v ! i)"
    using alias_finds_its_segment [OF prepare_inv [OF inv] fits al(1,2)] natural al(3) less(1) that same(1) landed(2)
    by (simp add: same_geometry_def)
  then show ?thesis
    using i(2) landed(1) by auto
qed


text \<open>C6: The gate of an exact seek.  While its alias and its demand name the same segment and anchor,
  a poll lets the reader through exactly when the initialisation and every segment up to the target have
  their exact size; the alias then carries the byte the target really begins at.  Otherwise the reader
  waits, and every size still missing has been asked for, by a probe or by its body.\<close>

theorem exact_seek_opens_with_its_prefix:
  assumes "fresh_parts init segs" "v = hv_run cs (into_variant e init segs)" "stream_fits v" "seeks_to v s a"
  shows "(fst (exact_seek_metadata_phase v) = None \<longleftrightarrow> \<not> (\<exists>d. missing d v \<and> in_front s d))
    \<and> (fst (exact_seek_metadata_phase v) = None \<longrightarrow>
         resolved_seek_anchor a (snd (exact_seek_metadata_phase v)) = Some (natural_start v s))
    \<and> (fst (exact_seek_metadata_phase v) \<noteq> None \<longrightarrow> fst (exact_seek_metadata_phase v) = Some WaitingDemand
         \<and> (\<forall>d. missing d v \<longrightarrow> in_front s d \<longrightarrow> asked d (snd (exact_seek_metadata_phase v))))"
proof -
  have inv: "hv_inv v"
    using built_inv assms(1,2) by blast
  note complete = prefix_complete_iff [OF seeks_to_less [OF inv assms(4)]]
  show ?thesis
    using gate [OF inv assms(3,4)] complete by (cases "exact_prefix_complete_now s v") simp_all
qed

text \<open>C9: A second seek into the segment of a seek whose reader has not moved yet strands it.  When the
  sizes in front have moved the segment in between, and some size is still missing, the second seek gives the alias the new anchor and
  leaves the demand its old one; from then on the poll never lets the reader through, whatever sizes
  arrive and however often it polls.\<close>

theorem a_second_seek_into_the_segment_waits_forever:
  assumes "fresh_parts init segs" "v = hv_run cs (into_variant e init segs)" "stream_fits v" "seeks_to v s a"
    and "\<not> all_sizes_complete v" "seek_point_at_time t v = Some (s, start, stop)" "natural_start v s \<noteq> a"
    and "list_all settles later"
  shows "fst (exact_seek_metadata_phase (hv_run later (hv_step (Seek t) v))) = Some WaitingDemand"
proof -
  have inv: "hv_inv v"
    using built_inv assms(1,2) by blast
  obtain g where demand: "cell_load (hv_demand v) = Some (g, s, a)"
    using assms(4) by (auto simp: seeks_to_def)
  have "hv_exact v"
    using inv demand by (auto simp: hv_inv_def cells_ok_def cell_load_def split: if_splits)
  let ?w = "snd (prepare_seek_time_anchor t v)"
  note landed = prepare_value [OF inv assms(3,6)]
  have geometry: "geometry_ok v" and i: "s < length (hv_segments v)" "readahead_start s v = s"
    using inv seek_point_less [OF assms(6)] \<open>hv_exact v\<close> by (simp_all add: hv_inv_def readahead_start_def)
  have "all_sizes_complete (set_segment_aware_seek_tail n (v\<lparr>hv_prefetch_anchor := p, hv_alias := x\<rparr>)) = all_sizes_complete v" for n p x
    by (simp add: all_sizes_complete_def set_segment_aware_seek_tail_def stable_parity sizes_complete_def exact_init_complete_def)
  then have kept: "hv_demand ?w = hv_demand v"
    using assms(5,6) hv_offset_is_natural [OF geometry assms(3) i(1)] i \<open>hv_exact v\<close> demand
      request_prefix_only_asks
    by (simp add: prepare_seek_time_anchor_def Let_def set_exact_seek_demand_def complete_fields
        set_segment_aware_seek_tail_def only_asks_def)
  have "at_active (al_base (hv_alias ?w)) \<noteq> 0 \<and> even (at_version (al_base (hv_alias ?w)))"
    using inv landed(3) by (simp add: hv_inv_def cells_ok_def names_segment_def cell_set_def next_gen_def)
  then obtain al where al: "alias_load_now (hv_alias ?w) = Some al" "snap_anchor al = natural_start v s"
    using landed(3) by (auto simp: alias_load_now_def cell_load_def cell_set_def next_gen_def)
  then have "astray ?w"
    using demand kept assms(7) by (simp add: astray_def)
  then show ?thesis
    using astray_waits astray_run assms(8) by (simp add: hv_step_def)
qed

text \<open>The range a demuxer is given for a byte is the range it is given for that range's index, and it
  holds the byte: while no alias is live, and for every byte the live alias answers.\<close>

lemma ranges_by_byte_and_by_index_agree:
  assumes "fresh_parts init segs" "v = hv_run cs (into_variant e init segs)" "stream_fits v"
    and "descriptor_at_byte b v = Some d" "alias_load_now (hv_alias v) = None \<or> seek_alias_at b v \<noteq> None"
    and "\<And>al. alias_load_now (hv_alias v) = Some al
      \<Longrightarrow> snap_anchor al + sum_list (map size_get (media_sizes v)) \<le> u64_max"
  shows "desc_start d \<le> b \<and> b < desc_stop d \<and> descriptor (desc_index d) v = Some d"
proof -
  have "geometry_ok v"
    using built_inv [OF assms(1)] assms(2) by (simp add: hv_inv_def)
  then show ?thesis
    using byte_and_index_agree assms(3-6) by blast
qed

subsection \<open>A variant at work\<close>

text \<open>Three segments of four seconds and estimated sizes; a seek to the ninth second, then the first
  size turns out larger than the estimate.\<close>

definition demo_segs :: "hls_segment list" where
  "demo_segs = map (\<lambda>t. \<lparr>seg_size = placeholder 10, seg_plain = True, seg_decode = t, seg_duration = 4\<rparr>) [0, 4, 8]"

definition demo_calls :: "hv_call list" where
  "demo_calls = [Seek 9, PopSizeDemand, ProbeEnd (DemandSegment 0) (Some 15) False]"

definition demo_stream :: "bool \<Rightarrow> hls_variant" where
  "demo_stream e = into_variant e None demo_segs"

lemmas demo_sizes = placeholder_def size_default_def is_exact_def size_get_def set_exact_def set_exact_if_unknown_def sized_def

lemma demo_parts: "fresh_parts None demo_segs"
  by (simp add: fresh_parts_def demo_segs_def demo_sizes u32_max_def)

lemma demo_bisect: "bisect_right_decode_time demo_segs 9 = 3"
  by (simp add: bisect_right_decode_time_def demo_segs_def bisect_right_loop.simps)

lemma demo_layout: "layout_new 0 (map seg_size demo_segs)
    = \<lparr>lay_frame = \<lparr>offsets = [0, 10, 20], byte_shift = 0, served_from = 0, served_until = 3, init_seed = 0\<rparr>,
       lay_sizes_complete = False, publication_seq = 0, lay_total = 30\<rparr>"
  by (simp add: layout_new_def Let_def recompute_offsets demo_segs_def seed_of_def num_segments_def u32_of_usize_def
      u32_max_def demo_sizes frame_snapshot_of_def frame_sizes_complete_def frame_total_bytes_def slice_get_def
      conversion_defs i64_max_def)

lemmas demo_reads = slice_get_def u32_of_usize_def u32_max_def Let_def media_sizes_def init_route_size_def hv_offset_def
  segment_byte_offset_def conversion_defs i64_max_def stable_parity sizes_complete_def exact_init_complete_def
  all_sizes_complete_def exact_anchor_now_def exact_prefix_complete_now_def num_segments_def demanded_entry_def
  size_probe_allowed_def cell_load_def

lemmas demo_writes = readahead_start_def set_segment_aware_seek_tail_def alias_set_now_def alias_new_def cell_set_def next_gen_def
  cell_new_def set_exact_seek_demand_def clear_exact_seek_def clear_def request_exact_prefix_through_def
  request_exact_size_def demand_enqueue_def demand_default_def complete_exact_seek_if_ready_def

lemma demo_point:
  assumes "map seg_decode (hv_segments v) = [0, 4, 8]" "map seg_duration (hv_segments v) = [4, 4, 4]"
  shows "seek_point_at_time 9 v = Some (2, 8, 12)"
proof -
  have "length (hv_segments v) = 3"
    using arg_cong [OF assms(1), of length] by simp
  moreover have "bisect_right_decode_time (hv_segments v) 9 = 3"
    using assms(1) \<open>length (hv_segments v) = 3\<close> by (simp add: bisect_right_decode_time_def bisect_right_loop.simps)
  moreover have "seg_decode (hv_segments v ! 2) = 8" "seg_duration (hv_segments v ! 2) = 4"
    using arg_cong [OF assms(1), of "\<lambda>xs. xs ! 2"] arg_cong [OF assms(2), of "\<lambda>xs. xs ! 2"] \<open>length (hv_segments v) = 3\<close>
    by simp_all
  moreover have "hv_segments v \<noteq> []"
    using \<open>length (hv_segments v) = 3\<close> by auto
  ultimately show ?thesis
    by (simp add: seek_point_at_time_def index_at_time_def slice_get_def u32_of_usize_def u32_max_def sat_add_def
        duration_max_def u64_max_def)
qed

lemma demo_streamed: "demo_stream e = \<lparr>hv_exact = e, hv_init = None, hv_segments = demo_segs,
    hv_layout = \<lparr>lay_frame = \<lparr>offsets = [0, 10, 20], byte_shift = 0, served_from = 0, served_until = 3, init_seed = 0\<rparr>,
       lay_sizes_complete = False, publication_seq = 0, lay_total = 30\<rparr>,
    hv_alias = alias_new, hv_demand = cell_new, hv_byte_demand = None, hv_tail = no_seek_tail, hv_deferred = [],
    hv_size_demands = demand_default, hv_plan = plan_new 3, hv_prefetch_anchor = 0,
    hv_resume_at = no_prefetch_deferral, hv_wait_end = 0\<rparr>"
  using demo_layout by (simp add: demo_stream_def into_variant_def) (simp add: demo_segs_def eval_nat_numeral)

lemma demo_seek_point: "seek_point_at_time 9 (demo_stream e) = Some (2, 8, 12)"
  by (rule demo_point) (simp_all add: demo_streamed demo_segs_def)

lemma demo_exact_sought: "hv_step (Seek 9) (demo_stream True) = (demo_stream True)\<lparr>
    hv_alias := \<lparr>al_base = \<lparr>at_segment = 2, at_version = 2, at_active = 1, at_anchor = 20, at_next_gen = 1\<rparr>,
      al_exact = None, al_exact_gen = 0\<rparr>,
    hv_demand := \<lparr>at_segment = 2, at_version = 2, at_active = 1, at_anchor = 20, at_next_gen = 1\<rparr>,
    hv_size_demands := \<lparr>inflight = {}, queued = {DemandSegment 2, DemandSegment 1, DemandSegment 0},
      demand_queue = [DemandSegment 0, DemandSegment 1, DemandSegment 2]\<rparr>, hv_prefetch_anchor := 20\<rparr>"
  by (simp add: hv_step_def prepare_seek_time_anchor_def demo_seek_point)
    (simp add: demo_streamed demo_segs_def demo_sizes demo_reads demo_writes upt_rec_numeral, simp add: eval_nat_numeral)

lemma demo_routed_sought: "hv_step (Seek 9) (demo_stream False) = (demo_stream False)\<lparr>
    hv_alias := \<lparr>al_base = \<lparr>at_segment = 2, at_version = 2, at_active = 1, at_anchor = 20, at_next_gen = 1\<rparr>,
      al_exact = None, al_exact_gen = 0\<rparr>, hv_tail := 1, hv_prefetch_anchor := 10\<rparr>"
  by (simp add: hv_step_def prepare_seek_time_anchor_def demo_seek_point)
    (simp add: demo_streamed demo_segs_def demo_sizes demo_reads demo_writes)

lemma demo_probed: "hv_run demo_calls (demo_stream True) = \<lparr>hv_exact = True, hv_init = None,
    hv_segments = demo_segs[0 := (demo_segs ! 0)\<lparr>seg_size := \<lparr>read_bytes = 15, route_bytes = 15, exact = True\<rparr>\<rparr>],
    hv_layout = \<lparr>lay_frame = \<lparr>offsets = [0, 15, 25], byte_shift = 0, served_from = 0, served_until = 3, init_seed = 0\<rparr>,
       lay_sizes_complete = False, publication_seq = 2, lay_total = 35\<rparr>,
    hv_alias = \<lparr>al_base = \<lparr>at_segment = 2, at_version = 2, at_active = 1, at_anchor = 20, at_next_gen = 1\<rparr>,
      al_exact = None, al_exact_gen = 0\<rparr>,
    hv_demand = \<lparr>at_segment = 2, at_version = 2, at_active = 1, at_anchor = 20, at_next_gen = 1\<rparr>,
    hv_byte_demand = None, hv_tail = no_seek_tail, hv_deferred = [],
    hv_size_demands = \<lparr>inflight = {}, queued = {DemandSegment 2, DemandSegment 1},
      demand_queue = [DemandSegment 1, DemandSegment 2]\<rparr>, hv_plan = plan_new 3, hv_prefetch_anchor = 20,
    hv_resume_at = no_prefetch_deferral, hv_wait_end = 0\<rparr>"
  by (simp add: demo_calls_def demo_exact_sought)
    (simp add: demo_streamed hv_step_def pop_dispatchable_def finish_size_probe_def demand_finish_def apply_resolved_size_def
      store_resolved_size_def set_seg_size_def publish_def mutate_frame_def mutate_def recompute_offsets seed_of_def republish_def
      frame_snapshot_of_def frame_sizes_complete_def frame_total_bytes_def demo_segs_def demo_sizes demo_reads
      complete_exact_seek_if_ready_def, auto)

lemma demo_probed_facts:
  "map seg_decode (hv_segments (hv_run demo_calls (demo_stream True))) = [0, 4, 8]"
  "map seg_duration (hv_segments (hv_run demo_calls (demo_stream True))) = [4, 4, 4]"
  "map size_get (media_sizes (hv_run demo_calls (demo_stream True))) = [15, 10, 10]"
  "init_route_size (hv_run demo_calls (demo_stream True)) = 0"
  "\<not> all_sizes_complete (hv_run demo_calls (demo_stream True))"
  "seeks_to (hv_run demo_calls (demo_stream True)) 2 20"
  unfolding demo_probed
  by (simp_all add: demo_segs_def demo_sizes media_sizes_def init_route_size_def all_sizes_complete_def stable_parity
      sizes_complete_def seeks_to_def cell_load_def alias_load_now_def)

lemma demo_fits: "stream_fits (hv_run demo_calls (demo_stream True))" "natural_start (hv_run demo_calls (demo_stream True)) 2 = 25"
  unfolding stream_fits_def natural_start_def demo_probed_facts by (simp_all add: i64_max_def)

lemma demo_routed: "hv_run [Seek 9] (demo_stream False) = \<lparr>hv_exact = False, hv_init = None, hv_segments = demo_segs,
    hv_layout = \<lparr>lay_frame = \<lparr>offsets = [0, 10, 20], byte_shift = 0, served_from = 0, served_until = 3, init_seed = 0\<rparr>,
       lay_sizes_complete = False, publication_seq = 0, lay_total = 30\<rparr>,
    hv_alias = \<lparr>al_base = \<lparr>at_segment = 2, at_version = 2, at_active = 1, at_anchor = 20, at_next_gen = 1\<rparr>,
      al_exact = None, al_exact_gen = 0\<rparr>,
    hv_demand = cell_new, hv_byte_demand = None, hv_tail = 1, hv_deferred = [],
    hv_size_demands = demand_default, hv_plan = plan_new 3, hv_prefetch_anchor = 10,
    hv_resume_at = no_prefetch_deferral, hv_wait_end = 0\<rparr>"
  by (simp add: demo_routed_sought) (simp add: demo_streamed)

lemma demo_routed_facts:
  "hv_tail (hv_run [Seek 9] (demo_stream False)) = 1" "stream_fits (hv_run [Seek 9] (demo_stream False))"
  unfolding demo_routed
  by (simp_all add: stream_fits_def init_route_size_def media_sizes_def demo_segs_def demo_sizes i64_max_def)

theorem a_seek_lands_in_its_segment_witness:
  "\<exists>i anchor. covers_time (hv_run demo_calls (demo_stream True)) 9 i
    \<and> fst (prepare_seek_time_anchor 9 (hv_run demo_calls (demo_stream True))) = Inr anchor
    \<and> sa_segment anchor = i \<and> sa_byte anchor = natural_start (hv_run demo_calls (demo_stream True)) i
    \<and> (0 < size_get (media_sizes (hv_run demo_calls (demo_stream True)) ! i) \<longrightarrow>
         find_at_offset (natural_start (hv_run demo_calls (demo_stream True)) i)
             (snd (prepare_seek_time_anchor 9 (hv_run demo_calls (demo_stream True))))
           = Some (i, natural_start (hv_run demo_calls (demo_stream True)) i,
               size_get (media_sizes (hv_run demo_calls (demo_stream True)) ! i)))"
  by (rule a_seek_lands_in_its_segment [OF demo_parts, where cs = demo_calls and e = True])
    (simp add: demo_stream_def, rule demo_fits, simp add: demo_probed_facts, use demo_probed_facts(1) in auto)


theorem exact_seek_opens_with_its_prefix_witness:
  "fst (exact_seek_metadata_phase (hv_run demo_calls (demo_stream True))) = Some WaitingDemand"
proof -
  have "missing (DemandSegment 1) (hv_run demo_calls (demo_stream True))" "in_front 2 (DemandSegment 1)"
    unfolding demo_probed by (simp_all add: missing_media media_sizes_def demo_segs_def demo_sizes in_front_def)
  then show ?thesis
    using exact_seek_opens_with_its_prefix [OF demo_parts, where cs = demo_calls and e = True, OF refl]
      demo_fits(1) demo_probed_facts(6) by (metis demo_stream_def)
qed

theorem a_second_seek_into_the_segment_waits_forever_witness:
  "fst (exact_seek_metadata_phase (hv_run [ProbeEnd (DemandSegment 1) (Some 12) False, PollSeek, ProbeEnd (DemandSegment 2) (Some 30) False]
      (hv_step (Seek 9) (hv_run demo_calls (demo_stream True))))) = Some WaitingDemand"
  by (rule a_second_seek_into_the_segment_waits_forever [OF demo_parts, where cs = demo_calls and e = True])
    (simp add: demo_stream_def, rule demo_fits, rule demo_probed_facts, rule demo_probed_facts,
      rule demo_point [OF demo_probed_facts(1,2)], simp add: demo_fits, simp)

lemma ranges_by_byte_and_by_index_agree_witness:
  "descriptor 2 (hv_run [Seek 9] (demo_stream False))
    = Some \<lparr>desc_start = 20, desc_stop = 30, desc_decode = 8, desc_duration = 4, desc_index = 2\<rparr>"
proof -
  let ?v = "hv_run [Seek 9] (demo_stream False)"
  have seg: "seek_alias_at 23 ?v = Some (2, 20, 10)"
    unfolding demo_routed
    by (simp add: seek_alias_at_def alias_load_now_def cell_load_def segment_aware_seek_alias_at_def
        media_sizes_def demo_segs_def demo_sizes Let_def sat_add_def u64_max_def u32_of_usize_def u32_max_def)
  moreover have "descriptor_at_byte 23 ?v
      = Some \<lparr>desc_start = 20, desc_stop = 30, desc_decode = 8, desc_duration = 4, desc_index = 2\<rparr>"
    unfolding descriptor_at_byte_def find_at_offset_def seg unfolding demo_routed by (simp add: slice_get_def demo_segs_def)
  moreover have "snap_anchor al + sum_list (map size_get (media_sizes ?v)) \<le> u64_max" if "alias_load_now (hv_alias ?v) = Some al" for al
    using that unfolding demo_routed
    by (auto simp: alias_load_now_def cell_load_def media_sizes_def demo_segs_def demo_sizes
        u64_max_def)
  ultimately show ?thesis
    using ranges_by_byte_and_by_index_agree [OF demo_parts, where cs = "[Seek 9]" and e = False, OF refl, of 23]
      demo_routed_facts(2) unfolding demo_stream_def [symmetric] by fastforce
qed

end
