(* ===== verification/Spec2Isabelle.thy ===== *)
theory Spec2Isabelle
  imports Abr_Session Track_Store Mpa Broadcast Hls_Layout Lru Navigation Hls_Flow Net_Body Pool_Guards Memory_Storage
    Mp4_Movie Hls_Seek
begin

text \<open>
  Kithara streams, decodes and plays audio: a player asks for a track, the HLS layer plans and fetches its
  segments under a bit rate that an adaptive controller chooses, the bytes go through a network client that
  heals broken bodies into storage resources and an asset store with a byte limit, a decoder turns them into
  chunks of frames, an audio pipeline trims, maps and publishes those chunks, and a queue decides what plays
  next. Around this core are a live broadcast packager, stored analysis artifacts and user interfaces. The
  development models the parts of that chain whose correctness is a matter of state, order, bounds and exact
  arithmetic. Paths below are relative to \<open>src/crates\<close>.

  \<^bold>\<open>The parts and their theories\<close>

  \<^item> Adaptive bit rate (\<open>kithara-abr/src\<close>). \<open>Abr_State\<close>: the state one peer
    shares with the controller (\<open>AbrState\<close>), with the packed mode, the flags, the lock count,
    and the slot of the pending switch with its tickets. \<open>F64\<close>: an executable binary64.
    \<open>Abr_Decision\<close>: one decision (\<open>state/decision.rs\<close>).
    \<open>Abr_Controller\<close>: registration entries, ticks, deadlines, published events and the poll
    loop. \<open>Abr_Session\<close>: the step relation \<open>peer_step\<close>, in which the decision of a tick
    lands at any time after it was formed, among everything the peer and the listener do: a claim commits what
    it announced, a pinned variant stays, the loop ends with each peer ticked once, a decision never crosses
    the bandwidth cap. The interval between switches is kept by ticks that nothing comes between
    (\<open>solo_step\<close>), not by others.
  \<^item> HLS (\<open>kithara-hls/src\<close>). \<open>Hls_Slot\<close>: the flag byte of a segment, every
    atomic access a step of \<open>slot_step\<close>. \<open>Plan_Queue\<close>: the fetch plan with its
    lock-free mirror. \<open>Hls_Flow\<close> puts slots, plan and claims together; its events are the
    points at which a fetch changes hands, so runs interleave dispatch, downloads, evictions, readers and
    rebuilds: one fetch per entry, and none is lost. \<open>Hls_Layout\<close>: segment sizes, the frame
    that lays segments out in one byte stream, and the counter protocol that publishes a frame
    (\<open>layout_step\<close>), which refines the sequential update; the length it publishes is exact in its
    media and counts the initialisation by whatever size that has. \<open>Hls_Anchor\<close>: the lock-free
    cells a seek leaves its demand and its alias in, atomic access by atomic access under any schedule: an
    answered entry is one that was published. \<open>Hls_Seek\<close>: seeks, aliases, exact-size demands, parked
    sizes and the lookups of one variant, call after call: a seek lands in its segment, sizes behind a live tail
    move nothing until the reset, the gate of an exact seek opens with the last missing size, except
    after a second seek into the same segment.
  \<^item> Network (\<open>kithara-net/src\<close>). \<open>Net_Retry\<close>: error classes, backoff and
    the retry loop. \<open>Net_Body\<close>: validation of range responses, and bodies that resume where
    they broke, whatever part of the representation the server sends: what a reader gets is the requested range
    without a gap or a repetition, and all of it when the server recovers within the retries.
  \<^item> Buffers (\<open>kithara-bufpool/src\<close>). \<open>Budget\<close>: the shared byte counter
    under interleaving (\<open>budget_step\<close>). \<open>Bufpool\<close>, \<open>Pool_Region\<close>,
    \<open>Pool_Guards\<close>: sharded and cold queues, reuse, growth, reclaiming over the pools of a
    region and the guards; the counter is always the bytes of the buffers.
  \<^item> Storage and assets. \<open>Storage\<close> and \<open>Memory_Storage\<close>
    (\<open>kithara-storage/src\<close>): the lifecycle every backend shares, over the locale
    \<open>linear_driver\<close>, and the memory driver that interprets it; a resource behaves as a file,
    reads follow its generations, a finished writer leaves no waiter. \<open>Lru\<close>
    (\<open>kithara-assets/src/index/lru\<close>): the index that picks what to evict, no more than needed.
  \<^item> Time and source coordinates (\<open>kithara-signal/src\<close>). \<open>Signal_Time\<close>:
    frames, samples and durations. \<open>Ratio\<close>, \<open>Source_Map\<close>,
    \<open>Source_Span\<close>: exact fractions, maps from output frames to source frames, and the spans
    every chunk carries, with slicing, joining, composition, inversion and word encoding.
  \<^item> Gapless playback (\<open>kithara-decode/src/gapless\<close>, \<open>kithara-decode/src/mp4\<close>,
    \<open>kithara-audio/src/pipeline/gapless.rs\<close>). \<open>Gapless\<close>: the trimmer, chunk by chunk, equal to
    cutting the whole track. \<open>Gapless_Pipeline\<close>: the counts an MP4 edit list gives, the choice of the
    trimmer, the stage and the clock it publishes. \<open>Mp4_Scan\<close>: the box scanner that reports the events
    those counts come from; \<open>Mp4_Movie\<close>: files as trees of boxes, whose events the scanner delivers, and
    written movies, whose counts it reads back.
  \<^item> Stored analysis. \<open>Blob\<close> (\<open>kithara-blob/src\<close>): versioned framing, with
    the \<open>Blob\<close> trait as the locale \<open>blob_codec\<close> and its extensions.
    \<open>Artifacts\<close> (\<open>kithara-waveform\<close>, \<open>kithara-analysis\<close>) interprets
    it for waveforms and beats. \<open>Track_Store\<close>: the snapshot of a whole analysis, which reads
    back.
  \<^item> MPEG audio (\<open>kithara-mpa/src\<close>). \<open>Mpa\<close>: frame headers and the Xing, LAME
    and VBRI tags.
  \<^item> Broadcast (\<open>kithara-broadcast/src\<close>). \<open>Broadcast\<close>: ADTS and ID3 framing,
    the segmenter, and the live window, which the locale \<open>segment_stream\<close> relates to the stream
    of all segments.
  \<^item> Queue (\<open>kithara-queue/src/navigation.rs\<close>). \<open>Navigation\<close>: play order,
    shuffle bag and history.

  \<open>Prelude\<close> holds what they share: checked and saturating arithmetic with the bounds of the
  types, results and list facts.

  \<^bold>\<open>How the code is modelled\<close>

  A struct is a record, an enum a datatype, a method a function from the state to its answer and the new
  state, with the guards and early returns of the code; a failing operation returns a \<open>result\<close>,
  a sum of the error and the value, or an option where the code returns one or panics. The text of an error
  is reduced to its constant part. Integers the code reads bit by bit are words; checked, saturating or
  bounded ones are naturals with the bound written where it matters, and arithmetic the code leaves
  unchecked is written with its wrap (the backoff factor of \<open>Net_Retry\<close>, the position of a
  session), bounded by a hypothesis (the bytes of a stream) or, for counters that start at zero, taken not to
  wrap. The target is a 64-bit one in the release profile: debug assertions and
  overflow checks are off. A \<open>Duration\<close> is its nanoseconds, an \<open>Instant\<close> the
  nanoseconds since a fixed origin. Hash maps and concurrent maps are lists in the order in which they
  happen to iterate, and the statements hold for each order.

  Concurrency is interleaving of atomic steps where the code is lock-free: the slot flags, the budget
  counter and the frame publication are step relations with one access a step, and their invariants are
  proved by rule induction; the seek cells are programs of accesses that a schedule interleaves, with
  sequentially consistent accesses. Where the code holds a lock for a whole operation the operation is one function;
  the fetch flow, the storage resource and the session of a peer interleave such operations. In
  \<open>Bufpool\<close> the operations of the pools do not overlap, only the counter they share does. A
  wait that parks is the turn that returns nothing: liveness is stated of turns. Publication counters, seek
  versions and generations are naturals: their wraps are out of the model.

  Loops are structural recursion or functions with a termination proof (the retry loop descends on the
  attempts its policy leaves, a search on its interval, a body on the attempts and the events left), so
  every function is total and none needs fuel. What is not under \<open>src\<close> enters as a parameter:
  the range sets of rangemap (with their documented laws), the CRC of symphonia, the shuffle and the
  generator of rand, the transport of a request, the allocator (the capacity it grants, at least the
  request) and the answer of the byte budget. Floats are modelled only where they decide something
  (\<open>F64\<close> in the bit-rate decision and in the segment durations); an exponential curve, the
  decomposition of a float by num_traits and the gain of a fade stay parameters.

  \<^bold>\<open>What is shown\<close>

  Each theory ends with the properties of its component: invariants of every reachable state (slots, plan,
  fetch flow, budget, pools, pending switches), refinement of an abstract specification (a storage resource
  as a file, a body as the range that was asked, the frame publication as the sequential update, a live
  window as the tail of a stream), equivalence of optimised code with a reference (exact fractions,
  trimming), round trips (blobs, spans, frames and time), termination and liveness (poll
  loop, retries, settled switches, waits), bounds, and what happens on the error paths. Lemmas on a group of
  operations are collected with \<open>named_theorems\<close> or proved in a locale that the operations
  interpret (\<open>guard_operation\<close>, \<open>numerator_operation\<close>,
  \<open>linear_driver\<close>, \<open>chunk_fact\<close>), so that a property takes a few steps.

  \<^bold>\<open>Not modelled\<close>

  The bandwidth estimator (averages over \<open>exp\<close> and \<open>powf\<close>); the confidence and the
  grid cache of a beat snapshot; the look-ahead caps of the dispatcher and the probe requests of
  HLS, its readers and its coordinator; playlist parsing (hls_m3u8); HTTP backends, memory-mapped files, locks and renames of the file
  system; decryption; the bindings to decoders; signal processing, tempo and beat estimation, whose
  floating-point results the kernel cannot state exactly; threads, clocks and devices of the players;
  bindings, applications, user interfaces and development tools.
\<close>

end
